(* ===== verification/Prelude.thy ===== *)
theory Prelude
  imports Main "HOL-Library.Word"
begin

unbundle bit_operations_syntax

text \<open>
  What every component shares: the machine types of the target the library is
  built for (64-bit little endian, \<open>PB_FIELD_32BIT\<close>, \<open>PB_ENABLE_MALLOC\<close>), the
  outcome monad in which the C functions are translated, byte-addressed memory
  with little-endian loads and stores, and the fact collections.
\<close>

section \<open>Machine types\<close>

type_synonym byte = "8 word"
type_synonym u16 = "16 word"
type_synonym u32 = "32 word"
type_synonym u64 = "64 word"
type_synonym addr = "64 word"
type_synonym mem = "addr \<Rightarrow> byte"

named_theorems outcome_simps \<open>rewrite rules of the outcome monad\<close>
named_theorems stream_simps \<open>rewrite rules of the stream operations\<close>
named_theorems denotes_intros \<open>rules that build a stream action's output\<close>
named_theorems consumes_intros \<open>rules that build a stream reader's frame\<close>

section \<open>Outcomes\<close>

text \<open>
  A C function that returns \<open>bool\<close> and updates a stream is a function from the
  state to an outcome: \<open>Ok\<close> (it returns true, with what it stored through its
  out-parameters), \<open>Fail\<close> (it returns false), \<open>Undef\<close> (it calls through a null
  or out-of-range function pointer), \<open>Fuel\<close> (the recursion budget of the model
  ran out). \<open>mbind m f\<close> is \<open>if (!m(...)) return false;\<close> followed by \<open>f\<close>.
\<close>

datatype ('a, 's) outcome = Ok 'a 's | Fail 's | Undef | Fuel

abbreviation (input) mreturn :: "'a \<Rightarrow> 's \<Rightarrow> ('a, 's) outcome" where
  "mreturn \<equiv> Ok"

definition mbind ::
  "('s \<Rightarrow> ('a, 's) outcome) \<Rightarrow> ('a \<Rightarrow> 's \<Rightarrow> ('b, 's) outcome) \<Rightarrow> 's \<Rightarrow> ('b, 's) outcome" where
  "mbind m f s =
     (case m s of Ok x s' \<Rightarrow> f x s' | Fail s' \<Rightarrow> Fail s' | Undef \<Rightarrow> Undef | Fuel \<Rightarrow> Fuel)"

definition mthen ::
  "('s \<Rightarrow> (unit, 's) outcome) \<Rightarrow> ('s \<Rightarrow> ('b, 's) outcome) \<Rightarrow> 's \<Rightarrow> ('b, 's) outcome" where
  "mthen m k = mbind m (\<lambda>_. k)"

lemma mbind_simps [outcome_simps]:
  "m s = Ok x s' \<Longrightarrow> mbind m f s = f x s'"
  "m s = Fail s' \<Longrightarrow> mbind m f s = Fail s'"
  "m s = Undef \<Longrightarrow> mbind m f s = Undef"
  "m s = Fuel \<Longrightarrow> mbind m f s = Fuel"
  by (simp_all add: mbind_def)

lemma mthen_simps [outcome_simps]:
  "m s = Ok u s' \<Longrightarrow> mthen m k s = k s'"
  "m s = Fail s' \<Longrightarrow> mthen m k s = Fail s'"
  "m s = Undef \<Longrightarrow> mthen m k s = Undef"
  "m s = Fuel \<Longrightarrow> mthen m k s = Fuel"
  by (simp_all add: mthen_def mbind_def)

lemma mbind_Ok_iff:
  "mbind m f s = Ok y t \<longleftrightarrow> (\<exists>x s'. m s = Ok x s' \<and> f x s' = Ok y t)"
  by (cases "m s") (auto simp: mbind_def)

lemma mthen_Ok_iff:
  "mthen m k s = Ok y t \<longleftrightarrow> (\<exists>s'. m s = Ok () s' \<and> k s' = Ok y t)"
  by (cases "m s") (auto simp: mthen_def mbind_def)

lemma mbind_Fuel_iff:
  "mbind m f s = Fuel \<longleftrightarrow> m s = Fuel \<or> (\<exists>x s'. m s = Ok x s' \<and> f x s' = Fuel)"
  by (cases "m s") (auto simp: mbind_def)

lemma unat_less8: "unat (w :: byte) < 256"
  by (rule less_le_trans [OF unsigned_less]) simp

lemma unat_less32: "unat (w :: u32) < 2 ^ 32"
  by (rule less_le_trans [OF unsigned_less]) simp

lemma unat_less64: "unat (w :: u64) < 2 ^ 64"
  by (rule less_le_trans [OF unsigned_less]) simp

lemma unat_of_nat32: "i < 2 ^ 32 \<Longrightarrow> unat (of_nat i :: u32) = i"
  by (simp add: unat_of_nat take_bit_nat_eq_self)

section \<open>Bytes of a word, little endian\<close>

definition word_le_bytes :: "nat \<Rightarrow> 'a::len word \<Rightarrow> byte list" where
  "word_le_bytes k w = map (\<lambda>i. ucast (drop_bit (8 * i) w)) [0..<k]"

definition le_word :: "byte list \<Rightarrow> 'a::len word" where
  "le_word bs = foldr (\<lambda>b acc. push_bit 8 acc OR ucast b) bs 0"

lemma length_word_le_bytes [simp]: "length (word_le_bytes k w) = k"
  by (simp add: word_le_bytes_def)

lemma word_le_bytes_0 [simp]: "word_le_bytes 0 w = []"
  by (simp add: word_le_bytes_def)

lemma word_le_bytes_Suc:
  "word_le_bytes (Suc k) w = ucast w # word_le_bytes k (drop_bit 8 w)"
proof -
  have "[0..<Suc k] = 0 # map Suc [0..<k]"
    by (simp add: map_Suc_upt upt_conv_Cons del: upt_Suc)
  then show ?thesis
    by (simp add: word_le_bytes_def add.commute)
qed

lemma le_word_Nil [simp]: "le_word [] = 0"
  by (simp add: le_word_def)

lemma le_word_Cons: "le_word (b # bs) = push_bit 8 (le_word bs) OR ucast b"
  by (simp add: le_word_def)

lemma le_word_bytes:
  "(le_word (word_le_bytes k w) :: 'a::len word) = take_bit (8 * k) w"
proof (induction k arbitrary: w)
  case 0
  then show ?case by simp
next
  case (Suc k)
  show ?case
  proof (rule bit_word_eqI)
    fix n
    assume n: "n < LENGTH('a)"
    show "bit (le_word (word_le_bytes (Suc k) w) :: 'a word) n = bit (take_bit (8 * Suc k) w) n"
      using n
      by (cases "n < 8")
        (auto simp: word_le_bytes_Suc le_word_Cons Suc.IH bit_simps not_less
          intro: bit_imp_le_length)
  qed
qed

lemma le_word_bytes_full:
  "LENGTH('a) = 8 * k \<Longrightarrow> le_word (word_le_bytes k w) = (w :: 'a::len word)"
  by (simp add: le_word_bytes take_bit_word_eq_self)

lemma bit_le_word: "bit (le_word bs :: 'a::len word) n \<Longrightarrow> n < 8 * length bs"
proof (induction bs arbitrary: n)
  case Nil
  then show ?case by simp
next
  case (Cons b bs)
  show ?case
  proof (cases "n < 8")
    case True
    then show ?thesis by simp
  next
    case False
    with Cons.prems have "bit (le_word bs :: 'a word) (n - 8)"
      by (auto simp: le_word_Cons bit_simps dest: bit_imp_le_length)
    from Cons.IH [OF this] show ?thesis by simp
  qed
qed

lemma word_bytes_le:
  "8 * length bs \<le> LENGTH('a) \<Longrightarrow> word_le_bytes (length bs) (le_word bs :: 'a::len word) = bs"
proof (induction bs)
  case Nil
  then show ?case by simp
next
  case (Cons b bs)
  let ?w = "le_word (b # bs) :: 'a word"
  have low: "(ucast ?w :: byte) = b"
    using Cons.prems by (auto intro!: bit_word_eqI simp: le_word_Cons bit_simps)
  have high: "drop_bit 8 ?w = le_word bs"
  proof (rule bit_word_eqI)
    fix n
    show "bit (drop_bit 8 ?w) n = bit (le_word bs :: 'a word) n"
      using Cons.prems
      by (auto simp: le_word_Cons bit_simps dest: bit_le_word bit_imp_le_length)
  qed
  show ?case
    using Cons low high by (simp add: word_le_bytes_Suc)
qed

text \<open>Appending a byte below the others, as big-endian readers do.\<close>

lemma push_or_byte: "push_bit 8 x OR ucast (b :: byte) = push_bit 8 x + (ucast b :: 'a::len word)"
proof (rule disjunctive_add_eq_or [symmetric])
  show "push_bit 8 x AND (ucast b :: 'a word) = 0"
    using bit_imp_le_length [of b] by (fastforce intro!: bit_word_eqI simp: bit_simps)
qed

lemma unat_push_or_byte:
  assumes "256 * unat x + 255 < 2 ^ LENGTH('a)"
  shows "unat (push_bit 8 x OR ucast (b :: byte) :: 'a::len word) = 256 * unat x + unat b"
proof -
  have b: "unat b < 256" by (rule less_le_trans [OF unsigned_less]) simp
  have "(ucast b :: 'a word) = of_nat (unat b)" by simp
  then have "push_bit 8 x OR ucast b = of_nat (256 * unat x + unat b)"
    unfolding push_or_byte by (simp add: push_bit_eq_mult)
  then show ?thesis
    using assms b by (simp add: unat_of_nat take_bit_nat_eq_self del: of_nat_add of_nat_mult)
qed

section \<open>Memory\<close>

definition mem_bytes :: "mem \<Rightarrow> addr \<Rightarrow> nat \<Rightarrow> byte list" where
  "mem_bytes m a n = map (\<lambda>i. m (a + of_nat i)) [0..<n]"

fun mem_write :: "mem \<Rightarrow> addr \<Rightarrow> byte list \<Rightarrow> mem" where
  "mem_write m a [] = m"
| "mem_write m a (b # bs) = mem_write (m(a := b)) (a + 1) bs"

definition load8 :: "mem \<Rightarrow> addr \<Rightarrow> byte" where
  "load8 m a = m a"

definition load16 :: "mem \<Rightarrow> addr \<Rightarrow> u16" where
  "load16 m a = le_word (mem_bytes m a 2)"

definition load32 :: "mem \<Rightarrow> addr \<Rightarrow> u32" where
  "load32 m a = le_word (mem_bytes m a 4)"

definition load64 :: "mem \<Rightarrow> addr \<Rightarrow> u64" where
  "load64 m a = le_word (mem_bytes m a 8)"

definition store8 :: "addr \<Rightarrow> byte \<Rightarrow> mem \<Rightarrow> mem" where
  "store8 a v m = m(a := v)"

definition store16 :: "addr \<Rightarrow> u16 \<Rightarrow> mem \<Rightarrow> mem" where
  "store16 a v m = mem_write m a (word_le_bytes 2 v)"

definition store32 :: "addr \<Rightarrow> u32 \<Rightarrow> mem \<Rightarrow> mem" where
  "store32 a v m = mem_write m a (word_le_bytes 4 v)"

definition store64 :: "addr \<Rightarrow> u64 \<Rightarrow> mem \<Rightarrow> mem" where
  "store64 a v m = mem_write m a (word_le_bytes 8 v)"

lemma length_mem_bytes [simp]: "length (mem_bytes m a n) = n"
  by (simp add: mem_bytes_def)

lemma mem_bytes_0 [simp]: "mem_bytes m a 0 = []"
  by (simp add: mem_bytes_def)

lemma mem_bytes_Suc: "mem_bytes m a (Suc n) = m a # mem_bytes m (a + 1) n"
proof -
  have "[0..<Suc n] = 0 # map Suc [0..<n]"
    by (simp add: map_Suc_upt upt_conv_Cons del: upt_Suc)
  then show ?thesis
    by (simp add: mem_bytes_def add.assoc)
qed

lemma mem_bytes_add: "mem_bytes m a (n + k) = mem_bytes m a n @ mem_bytes m (a + of_nat n) k"
  by (induction n arbitrary: a) (simp_all add: mem_bytes_Suc algebra_simps)

lemma nth_mem_bytes [simp]: "i < n \<Longrightarrow> mem_bytes m a n ! i = m (a + of_nat i)"
  by (simp add: mem_bytes_def)

lemma mem_write_append: "mem_write m a (xs @ ys) = mem_write (mem_write m a xs) (a + of_nat (length xs)) ys"
  by (induction xs arbitrary: m a) (simp_all add: algebra_simps)

text \<open>A write touches exactly the addresses from \<open>a\<close> on, modulo the address space.\<close>

lemma mem_write_other:
  "(\<And>i. i < length bs \<Longrightarrow> x \<noteq> a + of_nat i) \<Longrightarrow> mem_write m a bs x = m x"
proof (induction bs arbitrary: m a)
  case Nil
  then show ?case by simp
next
  case (Cons b bs)
  have ne: "x \<noteq> a" using Cons.prems [of 0] by simp
  have "x \<noteq> a + 1 + of_nat i" if "i < length bs" for i
    using Cons.prems [of "Suc i"] that by (simp add: algebra_simps)
  then show ?case using Cons.IH ne by simp
qed

lemma unat_of_nat_addr: "i < 2 ^ 64 \<Longrightarrow> unat (of_nat i :: addr) = i"
  by (simp add: unat_of_nat take_bit_nat_eq_self)

lemma of_nat_addr_inject:
  "i < 2 ^ 64 \<Longrightarrow> j < 2 ^ 64 \<Longrightarrow> (of_nat i :: addr) = of_nat j \<longleftrightarrow> i = j"
  by (metis unat_of_nat_addr)

lemma mem_write_nth:
  "i < length bs \<Longrightarrow> length bs \<le> 2 ^ 64 \<Longrightarrow> mem_write m a bs (a + of_nat i) = bs ! i"
proof (induction bs arbitrary: m a i)
  case Nil
  then show ?case by simp
next
  case (Cons b bs)
  show ?case
  proof (cases i)
    case 0
    have "a \<noteq> a + 1 + of_nat j" if "j < length bs" for j
    proof
      assume "a = a + 1 + of_nat j"
      then have "(of_nat (Suc j) :: addr) = of_nat 0" by simp
      then show False
        using that Cons.prems(2) of_nat_addr_inject [of "Suc j" 0] by simp
    qed
    then have "mem_write (m(a := b)) (a + 1) bs a = b"
      by (subst mem_write_other) auto
    then show ?thesis using 0 by simp
  next
    case (Suc j)
    have "mem_write (m(a := b)) (a + 1) bs (a + 1 + of_nat j) = bs ! j"
      by (rule Cons.IH) (use Suc Cons.prems in simp_all)
    then show ?thesis using Suc by (simp add: add.assoc)
  qed
qed

lemma mem_bytes_write:
  "length bs \<le> 2 ^ 64 \<Longrightarrow> mem_bytes (mem_write m a bs) a (length bs) = bs"
  by (rule nth_equalityI) (simp_all add: mem_write_nth)

lemma load_store [simp]:
  "load8 (store8 a b m) a = b"
  "load16 (store16 a v m) a = v"
  "load32 (store32 a w m) a = w"
  "load64 (store64 a x m) a = x"
  using mem_bytes_write [of "word_le_bytes 2 v" m a] mem_bytes_write [of "word_le_bytes 4 w" m a]
    mem_bytes_write [of "word_le_bytes 8 x" m a]
  by (simp_all add: load8_def store8_def load16_def store16_def load32_def store32_def
      load64_def store64_def le_word_bytes_full)

end
