(* ===== verification/PB_Field.thy ===== *)
theory PB_Field
  imports Prelude
begin

text \<open>
  The field descriptors of \<open>pb.h\<close> and the field iterator of \<open>pb_common.c\<close>.
  A descriptor array is the list of its entries before the terminator, reading
  past the end gives the terminator \<open>PB_LAST_FIELD\<close>. The \<open>ptr\<close> member is null, the
  bytes of a default value, or a submessage type, named by its number in a table
  of descriptor arrays (message types may be recursive, so they are not nested).
  Proved here: the iterator stays inside the array, one round visits every entry
  once and comes back to the first, \<open>pb_field_iter_find\<close> ends and finds the field
  of a tag exactly if there is one, and the data pointers it computes while
  walking are those of the struct layout.
\<close>

section \<open>Descriptors\<close>

subsection \<open>Field types\<close>

definition PB_LTYPE_BOOL :: byte where "PB_LTYPE_BOOL = 0x00"
definition PB_LTYPE_VARINT :: byte where "PB_LTYPE_VARINT = 0x01"
definition PB_LTYPE_UVARINT :: byte where "PB_LTYPE_UVARINT = 0x02"
definition PB_LTYPE_SVARINT :: byte where "PB_LTYPE_SVARINT = 0x03"
definition PB_LTYPE_FIXED32 :: byte where "PB_LTYPE_FIXED32 = 0x04"
definition PB_LTYPE_FIXED64 :: byte where "PB_LTYPE_FIXED64 = 0x05"
definition PB_LTYPE_LAST_PACKABLE :: byte where "PB_LTYPE_LAST_PACKABLE = 0x05"
definition PB_LTYPE_BYTES :: byte where "PB_LTYPE_BYTES = 0x06"
definition PB_LTYPE_STRING :: byte where "PB_LTYPE_STRING = 0x07"
definition PB_LTYPE_SUBMESSAGE :: byte where "PB_LTYPE_SUBMESSAGE = 0x08"
definition PB_LTYPE_EXTENSION :: byte where "PB_LTYPE_EXTENSION = 0x09"
definition PB_LTYPE_FIXED_LENGTH_BYTES :: byte where "PB_LTYPE_FIXED_LENGTH_BYTES = 0x0A"
definition PB_LTYPE_MASK :: byte where "PB_LTYPE_MASK = 0x0F"
definition PB_HTYPE_REQUIRED :: byte where "PB_HTYPE_REQUIRED = 0x00"
definition PB_HTYPE_OPTIONAL :: byte where "PB_HTYPE_OPTIONAL = 0x10"
definition PB_HTYPE_REPEATED :: byte where "PB_HTYPE_REPEATED = 0x20"
definition PB_HTYPE_ONEOF :: byte where "PB_HTYPE_ONEOF = 0x30"
definition PB_HTYPE_MASK :: byte where "PB_HTYPE_MASK = 0x30"
definition PB_ATYPE_STATIC :: byte where "PB_ATYPE_STATIC = 0x00"
definition PB_ATYPE_POINTER :: byte where "PB_ATYPE_POINTER = 0x80"
definition PB_ATYPE_CALLBACK :: byte where "PB_ATYPE_CALLBACK = 0x40"
definition PB_ATYPE_MASK :: byte where "PB_ATYPE_MASK = 0xC0"

definition PB_ATYPE :: "byte \<Rightarrow> byte" where "PB_ATYPE x = x AND PB_ATYPE_MASK"
definition PB_HTYPE :: "byte \<Rightarrow> byte" where "PB_HTYPE x = x AND PB_HTYPE_MASK"
definition PB_LTYPE :: "byte \<Rightarrow> byte" where "PB_LTYPE x = x AND PB_LTYPE_MASK"

text \<open>\<open>pb_size_t\<close> is \<open>uint32_t\<close> (\<open>PB_FIELD_32BIT\<close>).\<close>

definition PB_SIZE_MAX :: u32 where "PB_SIZE_MAX = 0xFFFFFFFF"

definition PB_MAX_REQUIRED_FIELDS :: u32 where "PB_MAX_REQUIRED_FIELDS = 64"

lemmas ltype_defs = PB_LTYPE_BOOL_def PB_LTYPE_VARINT_def PB_LTYPE_UVARINT_def PB_LTYPE_SVARINT_def
  PB_LTYPE_FIXED32_def PB_LTYPE_FIXED64_def PB_LTYPE_LAST_PACKABLE_def PB_LTYPE_BYTES_def
  PB_LTYPE_STRING_def PB_LTYPE_SUBMESSAGE_def PB_LTYPE_EXTENSION_def PB_LTYPE_FIXED_LENGTH_BYTES_def

lemmas htype_defs = PB_HTYPE_REQUIRED_def PB_HTYPE_OPTIONAL_def PB_HTYPE_REPEATED_def
  PB_HTYPE_ONEOF_def

lemmas atype_defs = PB_ATYPE_STATIC_def PB_ATYPE_POINTER_def PB_ATYPE_CALLBACK_def

lemmas type_defs = ltype_defs htype_defs atype_defs
  PB_ATYPE_def PB_HTYPE_def PB_LTYPE_def PB_ATYPE_MASK_def PB_HTYPE_MASK_def PB_LTYPE_MASK_def

lemma and_48: "(x :: byte) AND 0x30 = 0 \<or> x AND 0x30 = 0x10 \<or> x AND 0x30 = 0x20 \<or> x AND 0x30 = 0x30"
proof -
  define y where "y = take_bit 2 (drop_bit 4 x)"
  have "x AND 0x30 = x AND push_bit 4 (mask 2)"
    by (simp add: mask_eq_exp_minus_1 push_bit_eq_mult)
  also have "\<dots> = push_bit 4 y"
    unfolding y_def by (rule bit_word_eqI) (auto simp: bit_simps)
  finally have eq: "x AND 0x30 = push_bit 4 y" .
  have "unat y = unat (drop_bit 4 x) mod 4"
    by (simp add: y_def take_bit_eq_mod unat_mod)
  then have "unat y < 4" by simp
  then have "unat y = 0 \<or> unat y = 1 \<or> unat y = 2 \<or> unat y = 3" by arith
  then have "y = 0 \<or> y = 1 \<or> y = 2 \<or> y = 3"
    by (simp add: word_unat_eq_iff)
  then show ?thesis by (auto simp: eq push_bit_eq_mult)
qed

lemma htype_cases:
  "PB_HTYPE x = PB_HTYPE_REQUIRED \<or> PB_HTYPE x = PB_HTYPE_OPTIONAL \<or>
   PB_HTYPE x = PB_HTYPE_REPEATED \<or> PB_HTYPE x = PB_HTYPE_ONEOF"
  using and_48 [of x] by (simp add: type_defs)

subsection \<open>The descriptor record\<close>

datatype field_ptr = PtrNull | PtrDefault "byte list" | PtrSubmsg nat

record pb_field =
  tag :: u32
  ftype :: byte
  data_offset :: u32
  size_offset :: "32 word"
  data_size :: u32
  array_size :: u32
  fptr :: field_ptr

definition PB_LAST_FIELD :: pb_field where
  "PB_LAST_FIELD = \<lparr>tag = 0, ftype = 0, data_offset = 0, size_offset = 0, data_size = 0,
     array_size = 0, fptr = PtrNull\<rparr>"

type_synonym fields = "pb_field list"

definition field_at :: "fields \<Rightarrow> nat \<Rightarrow> pb_field" where
  "field_at fs i = (if i < length fs then fs ! i else PB_LAST_FIELD)"

text \<open>The byte sizes of the target: pointers and \<open>size_t\<close> have eight bytes, \<open>bool\<close> has one;
  \<open>bytes\<close> comes four bytes into a \<open>pb_bytes_array_t\<close>.\<close>

definition sizeof_ptr :: nat where "sizeof_ptr = 8"
definition offsetof_bytes :: u64 where "offsetof_bytes = 4"

section \<open>The iterator\<close>

text \<open>
  \<open>size_ref\<close> is where \<open>pSize\<close> points: into the struct, or at the local variable
  \<open>fixed_count_size\<close> of \<open>pb_decode_noinit\<close>.
\<close>

datatype size_ref = SizeAt addr | SizeFixedCount

record pb_field_iter =
  it_start :: fields
  it_pos :: nat
  required_field_index :: u32
  dest_struct :: addr
  pData :: addr
  pSize :: size_ref

definition it_field :: "pb_field_iter \<Rightarrow> pb_field" where
  "it_field iter = field_at (it_start iter) (it_pos iter)"

definition pb_field_iter_begin :: "fields \<Rightarrow> addr \<Rightarrow> bool \<times> pb_field_iter" where
  "pb_field_iter_begin fs dest =
     (let f = field_at fs 0;
          d = (if dest = 0 then 0 else dest + ucast (data_offset f));
          z = (if dest = 0 then 0 else d + scast (size_offset f))
      in (tag f \<noteq> 0,
          \<lparr>it_start = fs, it_pos = 0, required_field_index = 0, dest_struct = dest,
           pData = d, pSize = SizeAt z\<rparr>))"

definition pb_field_iter_next :: "pb_field_iter \<Rightarrow> bool \<times> pb_field_iter" where
  "pb_field_iter_next iter =
     (let prev_field = it_field iter in
      if tag prev_field = 0 then (False, iter)
      else
        let iter = iter\<lparr>it_pos := Suc (it_pos iter)\<rparr>;
            f = it_field iter
        in
        if tag f = 0 then (False, snd (pb_field_iter_begin (it_start iter) (dest_struct iter)))
        else if PB_HTYPE (ftype prev_field) = PB_HTYPE_ONEOF \<and>
                PB_HTYPE (ftype f) = PB_HTYPE_ONEOF \<and> data_offset f = PB_SIZE_MAX
        then (True, iter)
        else
          let prev_size =
                (if PB_ATYPE (ftype prev_field) = PB_ATYPE_STATIC \<and>
                    PB_HTYPE (ftype prev_field) = PB_HTYPE_REPEATED
                 then ucast (data_size prev_field) * ucast (array_size prev_field)
                 else if PB_ATYPE (ftype prev_field) = PB_ATYPE_POINTER then of_nat sizeof_ptr
                 else ucast (data_size prev_field)) :: u64;
              req = (if PB_HTYPE (ftype prev_field) = PB_HTYPE_REQUIRED
                     then required_field_index iter + 1 else required_field_index iter);
              d = pData iter + prev_size + ucast (data_offset f)
          in (True, iter\<lparr>required_field_index := req, pData := d,
                         pSize := SizeAt (d + scast (size_offset f))\<rparr>))"

text \<open>The \<open>do ... while\<close> loop of \<open>pb_field_iter_find\<close>: it stops at a match or when it is back
  at the entry it started from. One step more than the array has entries is enough fuel.\<close>

fun find_loop :: "nat \<Rightarrow> (pb_field \<Rightarrow> bool) \<Rightarrow> nat \<Rightarrow> pb_field_iter \<Rightarrow> (bool \<times> pb_field_iter) option" where
  "find_loop 0 wanted start iter = None"
| "find_loop (Suc n) wanted start iter =
     (if wanted (it_field iter) then Some (True, iter)
      else let iter' = snd (pb_field_iter_next iter) in
           if it_pos iter' \<noteq> start then find_loop n wanted start iter' else Some (False, iter'))"

definition pb_field_iter_find :: "pb_field_iter \<Rightarrow> u32 \<Rightarrow> (bool \<times> pb_field_iter) option" where
  "pb_field_iter_find iter t =
     find_loop (Suc (length (it_start iter)))
       (\<lambda>f. tag f = t \<and> PB_LTYPE (ftype f) \<noteq> PB_LTYPE_EXTENSION) (it_pos iter) iter"

subsection \<open>Positions\<close>

definition nfields :: "fields \<Rightarrow> nat" where
  "nfields fs = length (takeWhile (\<lambda>f. tag f \<noteq> 0) fs)"

lemma nfields_le: "nfields fs \<le> length fs"
  by (simp add: nfields_def length_takeWhile_le)

lemma tag_LAST [simp]: "tag PB_LAST_FIELD = 0"
  by (simp add: PB_LAST_FIELD_def)

lemma field_at_nonzero: "i < nfields fs \<Longrightarrow> tag (field_at fs i) \<noteq> 0"
  using nth_mem [of i "takeWhile (\<lambda>f. tag f \<noteq> 0) fs"] nfields_le [of fs]
  by (auto simp: nfields_def field_at_def takeWhile_nth dest: set_takeWhileD)

lemma field_at_end: "tag (field_at fs (nfields fs)) = 0"
  using nth_length_takeWhile [of "\<lambda>f. tag f \<noteq> 0" fs]
  by (auto simp: nfields_def field_at_def)

lemma field_at_in_set: "i < nfields fs \<Longrightarrow> field_at fs i \<in> set fs"
  using nfields_le [of fs] by (simp add: field_at_def)

text \<open>The iterator after \<open>i\<close> steps from the beginning.\<close>

primrec iter_at :: "fields \<Rightarrow> addr \<Rightarrow> nat \<Rightarrow> pb_field_iter" where
  "iter_at fs d 0 = snd (pb_field_iter_begin fs d)"
| "iter_at fs d (Suc i) = snd (pb_field_iter_next (iter_at fs d i))"

declare iter_at.simps [simp del]

lemma begin_sel [simp]:
  "it_start (snd (pb_field_iter_begin fs d)) = fs"
  "it_pos (snd (pb_field_iter_begin fs d)) = 0"
  "dest_struct (snd (pb_field_iter_begin fs d)) = d"
  "required_field_index (snd (pb_field_iter_begin fs d)) = 0"
  by (simp_all add: pb_field_iter_begin_def Let_def)

lemma fst_begin: "fst (pb_field_iter_begin fs d) \<longleftrightarrow> nfields fs \<noteq> 0"
  using field_at_nonzero [of 0 fs] field_at_end [of fs]
  by (cases "nfields fs = 0") (auto simp: pb_field_iter_begin_def Let_def)

lemma next_sel:
  "it_start (snd (pb_field_iter_next iter)) = it_start iter"
  "dest_struct (snd (pb_field_iter_next iter)) = dest_struct iter"
  by (simp_all add: pb_field_iter_next_def Let_def)

lemma iter_at_sel [simp]:
  "it_start (iter_at fs d i) = fs" "dest_struct (iter_at fs d i) = d"
  by (induction i) (simp_all add: next_sel iter_at.simps)

lemma next_inside:
  assumes "it_start iter = fs" "it_pos iter = i" "Suc i < nfields fs"
  shows "fst (pb_field_iter_next iter)" "it_pos (snd (pb_field_iter_next iter)) = Suc i"
  using assms field_at_nonzero [of i fs] field_at_nonzero [of "Suc i" fs]
  by (auto simp: pb_field_iter_next_def it_field_def Let_def)

lemma next_wraps:
  assumes "it_start iter = fs" "dest_struct iter = d" "it_pos iter = i" "Suc i = nfields fs"
  shows "pb_field_iter_next iter = (False, iter_at fs d 0)"
  using assms field_at_nonzero [of i fs] field_at_end [of fs]
  by (auto simp: pb_field_iter_next_def it_field_def Let_def iter_at.simps)

lemma iter_at_pos: "i < nfields fs \<Longrightarrow> it_pos (iter_at fs d i) = i"
  by (induction i) (simp_all add: next_inside iter_at.simps)

lemma it_field_iter_at: "i < nfields fs \<Longrightarrow> it_field (iter_at fs d i) = field_at fs i"
  by (simp add: it_field_def iter_at_pos)

lemma next_iter_at:
  assumes "i < nfields fs"
  shows "pb_field_iter_next (iter_at fs d i) =
    (if Suc i < nfields fs then (True, iter_at fs d (Suc i)) else (False, iter_at fs d 0))"
proof (cases "Suc i < nfields fs")
  case True
  then have "fst (pb_field_iter_next (iter_at fs d i))"
    by (intro next_inside) (simp_all add: iter_at_pos)
  then show ?thesis using True by (simp add: prod_eq_iff iter_at.simps)
next
  case False
  then have "Suc i = nfields fs" using assms by simp
  then show ?thesis
    using False next_wraps [of "iter_at fs d i" fs d i] assms by (simp add: iter_at_pos)
qed

subsection \<open>The search\<close>

lemma find_loop_upto:
  assumes "\<And>k. i \<le> k \<Longrightarrow> k < j \<Longrightarrow> \<not> wanted (field_at fs k)"
    and "i \<le> j" "j < nfields fs" "start \<notin> {i<..j}"
  shows "find_loop (n + (j - i)) wanted start (iter_at fs d i) = find_loop n wanted start (iter_at fs d j)"
  using assms(2,1,3,4)
proof (induction i rule: inc_induct)
  case base
  then show ?case by simp
next
  case (step i)
  have nx: "pb_field_iter_next (iter_at fs d i) = (True, iter_at fs d (Suc i))"
    using step.hyps step.prems(2) by (simp add: next_iter_at)
  have nw: "\<not> wanted (it_field (iter_at fs d i))"
    using step.prems(1) [of i] step.hyps step.prems(2) by (simp add: it_field_iter_at)
  have pos: "it_pos (iter_at fs d (Suc i)) \<noteq> start"
    using step.hyps step.prems(2,3) iter_at_pos [of "Suc i" fs d] by auto
  have "find_loop (Suc (n + (j - Suc i))) wanted start (iter_at fs d i)
      = find_loop (n + (j - Suc i)) wanted start (iter_at fs d (Suc i))"
    using nx nw pos by (simp)
  also have "\<dots> = find_loop n wanted start (iter_at fs d j)"
    using step.hyps step.prems by (intro step.IH) auto
  finally show ?case
    using step.hyps by (simp add: Suc_diff_Suc)
qed

lemma find_loop_hit:
  "wanted (field_at fs j) \<Longrightarrow> j < nfields fs \<Longrightarrow>
   find_loop (Suc n) wanted start (iter_at fs d j) = Some (True, iter_at fs d j)"
  by (simp add: it_field_iter_at)

lemma find_loop_last:
  assumes "\<not> wanted (field_at fs j)" "Suc j = nfields fs"
  shows "find_loop (Suc n) wanted start (iter_at fs d j) =
    (if start = 0 then Some (False, iter_at fs d 0) else find_loop n wanted start (iter_at fs d 0))"
proof -
  have "pb_field_iter_next (iter_at fs d j) = (False, iter_at fs d 0)"
    using assms by (simp add: next_iter_at)
  then show ?thesis using assms by (simp add: it_field_iter_at Let_def iter_at_pos)
qed

text \<open>What the loop returns: the first wanted entry at or after the start, else the first
  wanted entry before it, else false at the start.\<close>

definition cyclic_find :: "(pb_field \<Rightarrow> bool) \<Rightarrow> fields \<Rightarrow> nat \<Rightarrow> nat option" where
  "cyclic_find wanted fs i = List.find (\<lambda>k. wanted (field_at fs k)) ([i..<nfields fs] @ [0..<i])"

lemma find_upt_Some:
  "List.find P [i..<n] = Some j \<longleftrightarrow> i \<le> j \<and> j < n \<and> P j \<and> (\<forall>k. i \<le> k \<and> k < j \<longrightarrow> \<not> P k)"
proof
  assume "List.find P [i..<n] = Some j"
  then obtain m where "m < length [i..<n]" "P ([i..<n] ! m)" "j = [i..<n] ! m"
    and "\<forall>l<m. \<not> P ([i..<n] ! l)"
    by (auto simp: find_Some_iff)
  moreover from this have "\<not> P k" if "i \<le> k" "k < j" for k
    using that by (auto simp: dest: spec [of _ "k - i"])
  ultimately show "i \<le> j \<and> j < n \<and> P j \<and> (\<forall>k. i \<le> k \<and> k < j \<longrightarrow> \<not> P k)"
    by auto
next
  assume "i \<le> j \<and> j < n \<and> P j \<and> (\<forall>k. i \<le> k \<and> k < j \<longrightarrow> \<not> P k)"
  then show "List.find P [i..<n] = Some j"
    unfolding find_Some_iff by (intro exI [of _ "j - i"]) auto
qed

lemma find_append: "List.find P (xs @ ys) = (case List.find P xs of Some x \<Rightarrow> Some x | None \<Rightarrow> List.find P ys)"
  by (induction xs) simp_all


lemma find_loop_wrapped:
  assumes i: "0 < i" "i < nfields fs" and n: "i < n"
  shows "find_loop n wanted i (iter_at fs d 0) =
    (case List.find (\<lambda>k. wanted (field_at fs k)) [0..<i] of
       Some j \<Rightarrow> Some (True, iter_at fs d j) | None \<Rightarrow> Some (False, iter_at fs d i))"
proof (cases "List.find (\<lambda>k. wanted (field_at fs k)) [0..<i]")
  case (Some j)
  then have j: "j < i" "wanted (field_at fs j)"
    and before: "\<And>k. k < j \<Longrightarrow> \<not> wanted (field_at fs k)"
    by (auto simp: find_upt_Some)
  define m where "m = n - Suc j"
  have "n = Suc m + (j - 0)" using j n by (simp add: m_def)
  then have "find_loop n wanted i (iter_at fs d 0) = find_loop (Suc m) wanted i (iter_at fs d j)"
    using find_loop_upto [of 0 j wanted fs i "Suc m" d] before j i by simp
  also have "\<dots> = Some (True, iter_at fs d j)"
    using j i by (intro find_loop_hit) simp_all
  finally show ?thesis using Some by simp
next
  case None
  then have none: "\<And>k. k < i \<Longrightarrow> \<not> wanted (field_at fs k)"
    by (auto simp: find_None_iff)
  define l where "l = i - 1"
  define m where "m = n - Suc l"
  have l: "i = Suc l" using i by (simp add: l_def)
  have "n = Suc m + (l - 0)" using l n by (simp add: m_def)
  then have "find_loop n wanted i (iter_at fs d 0) = find_loop (Suc m) wanted i (iter_at fs d l)"
    using find_loop_upto [of 0 l wanted fs i "Suc m" d] none l i by simp
  also have "\<dots> = Some (False, iter_at fs d i)"
  proof -
    have "pb_field_iter_next (iter_at fs d l) = (True, iter_at fs d i)"
      using l i by (simp add: next_iter_at)
    then show ?thesis
      using none [of l] l i by (simp add: it_field_iter_at iter_at_pos)
  qed
  finally show ?thesis using None by simp
qed

lemma find_loop_cyclic:
  assumes i: "i < nfields fs" and n: "nfields fs < n"
  shows "find_loop n wanted i (iter_at fs d i) =
    (case cyclic_find wanted fs i of
       Some j \<Rightarrow> Some (True, iter_at fs d j) | None \<Rightarrow> Some (False, iter_at fs d i))"
proof (cases "List.find (\<lambda>k. wanted (field_at fs k)) [i..<nfields fs]")
  case (Some j)
  then have j: "i \<le> j" "j < nfields fs" "wanted (field_at fs j)"
    and before: "\<And>k. i \<le> k \<Longrightarrow> k < j \<Longrightarrow> \<not> wanted (field_at fs k)"
    by (auto simp: find_upt_Some)
  define m where "m = n - Suc (j - i)"
  have "n = Suc m + (j - i)" using j n by (simp add: m_def)
  then have "find_loop n wanted i (iter_at fs d i) = find_loop (Suc m) wanted i (iter_at fs d j)"
    using find_loop_upto [of i j wanted fs i "Suc m" d] before j by simp
  also have "\<dots> = Some (True, iter_at fs d j)"
    using j by (intro find_loop_hit)
  finally show ?thesis using Some by (simp add: cyclic_find_def find_append)
next
  case None
  then have tail: "\<And>k. i \<le> k \<Longrightarrow> k < nfields fs \<Longrightarrow> \<not> wanted (field_at fs k)"
    by (auto simp: find_None_iff)
  define l where "l = nfields fs - 1"
  define m where "m = n - Suc (l - i)"
  have l: "i \<le> l" "Suc l = nfields fs" using i by (auto simp: l_def)
  have "n = Suc m + (l - i)" using l n by (simp add: m_def)
  then have "find_loop n wanted i (iter_at fs d i) = find_loop (Suc m) wanted i (iter_at fs d l)"
    using find_loop_upto [of i l wanted fs i "Suc m" d] tail l by simp
  also have "\<dots> = (if i = 0 then Some (False, iter_at fs d 0) else find_loop m wanted i (iter_at fs d 0))"
    using tail l by (intro find_loop_last) simp_all
  finally have run: "find_loop n wanted i (iter_at fs d i) = \<dots>" .
  show ?thesis
  proof (cases "i = 0")
    case True
    then show ?thesis using run None by (simp add: cyclic_find_def find_append)
  next
    case False
    have "i < m" using n l by (simp add: m_def)
    with run False None i show ?thesis
      by (simp add: cyclic_find_def find_append find_loop_wrapped)
  qed
qed

lemma pb_field_iter_find_iter_at:
  assumes "i < nfields fs"
  shows "pb_field_iter_find (iter_at fs d i) t =
    (case cyclic_find (\<lambda>f. tag f = t \<and> PB_LTYPE (ftype f) \<noteq> PB_LTYPE_EXTENSION) fs i of
       Some j \<Rightarrow> Some (True, iter_at fs d j) | None \<Rightarrow> Some (False, iter_at fs d i))"
proof -
  define w where "w = (\<lambda>f :: pb_field. tag f = t \<and> PB_LTYPE (ftype f) \<noteq> PB_LTYPE_EXTENSION)"
  have fuel: "find_loop (Suc (length fs)) w i (iter_at fs d i) =
      (case cyclic_find w fs i of
         Some j \<Rightarrow> Some (True, iter_at fs d j) | None \<Rightarrow> Some (False, iter_at fs d i))"
    by (rule find_loop_cyclic) (use assms nfields_le [of fs] in simp_all)
  then show ?thesis
    using assms by (simp only: pb_field_iter_find_def iter_at_sel iter_at_pos w_def)
qed


subsection \<open>Visiting every field\<close>

text \<open>
  The iterators on which the body of \<open>do { ... } while (pb_field_iter_next(&iter))\<close> runs,
  after a \<open>pb_field_iter_begin\<close> that returned true.
\<close>

fun visit_loop :: "nat \<Rightarrow> pb_field_iter \<Rightarrow> pb_field_iter list" where
  "visit_loop 0 iter = []"
| "visit_loop (Suc n) iter =
     iter # (case pb_field_iter_next iter of (True, iter') \<Rightarrow> visit_loop n iter' | (False, _) \<Rightarrow> [])"

definition field_iters :: "fields \<Rightarrow> addr \<Rightarrow> pb_field_iter list" where
  "field_iters fs d =
     (case pb_field_iter_begin fs d of (True, iter) \<Rightarrow> visit_loop (length fs) iter | (False, _) \<Rightarrow> [])"

lemma visit_loop_iter_at:
  "i < nfields fs \<Longrightarrow> nfields fs \<le> n + i \<Longrightarrow>
   visit_loop n (iter_at fs d i) = map (iter_at fs d) [i..<nfields fs]"
proof (induction n arbitrary: i)
  case 0
  then show ?case by simp
next
  case (Suc n)
  then show ?case
    by (cases "Suc i < nfields fs") (auto simp: next_iter_at upt_conv_Cons)
qed

text \<open>The loop visits each entry of the array once, in order.\<close>

lemma field_iters_eq: "field_iters fs d = map (iter_at fs d) [0..<nfields fs]"
proof (cases "nfields fs = 0")
  case True
  then show ?thesis
    using fst_begin [of fs d] by (auto simp: field_iters_def split: prod.splits bool.splits)
next
  case False
  then have "pb_field_iter_begin fs d = (True, iter_at fs d 0)"
    using fst_begin [of fs d] by (simp add: prod_eq_iff iter_at.simps)
  then show ?thesis
    using False visit_loop_iter_at [of 0 fs "length fs" d] nfields_le [of fs]
    by (simp add: field_iters_def)
qed

section \<open>Struct layout\<close>

text \<open>
  The macros of \<open>pb.h\<close> compute \<open>data_offset\<close> from the struct: the gap after the previous
  member, or \<open>PB_SIZE_MAX\<close> for a member that shares a union with the previous one.
  \<open>member_size\<close> is the space the member of a field takes in the struct, \<open>layout_ok\<close> says
  that the descriptors describe members at the offsets \<open>offs\<close>.
\<close>

definition member_size :: "pb_field \<Rightarrow> nat" where
  "member_size f =
     (if PB_ATYPE (ftype f) = PB_ATYPE_STATIC \<and> PB_HTYPE (ftype f) = PB_HTYPE_REPEATED
      then unat (data_size f) * unat (array_size f)
      else if PB_ATYPE (ftype f) = PB_ATYPE_POINTER then sizeof_ptr
      else unat (data_size f))"

definition PB_DATAOFFSET_FIRST :: "nat \<Rightarrow> u32" where
  "PB_DATAOFFSET_FIRST o1 = of_nat o1"

definition PB_DATAOFFSET_OTHER :: "nat \<Rightarrow> nat \<Rightarrow> nat \<Rightarrow> u32" where
  "PB_DATAOFFSET_OTHER o1 o2 membersize2 = of_nat (o1 - o2 - membersize2)"

definition PB_DATAOFFSET_UNION :: u32 where
  "PB_DATAOFFSET_UNION = PB_SIZE_MAX"

definition same_union :: "pb_field \<Rightarrow> pb_field \<Rightarrow> bool" where
  "same_union prev f \<longleftrightarrow> PB_HTYPE (ftype prev) = PB_HTYPE_ONEOF \<and>
     PB_HTYPE (ftype f) = PB_HTYPE_ONEOF \<and> data_offset f = PB_DATAOFFSET_UNION"

definition layout_ok :: "fields \<Rightarrow> nat list \<Rightarrow> bool" where
  "layout_ok fs offs \<longleftrightarrow>
     length offs = nfields fs \<and> (\<forall>i < nfields fs. offs ! i < 2 ^ 32) \<and>
     (nfields fs > 0 \<longrightarrow> data_offset (field_at fs 0) = PB_DATAOFFSET_FIRST (offs ! 0)) \<and>
     (\<forall>i. Suc i < nfields fs \<longrightarrow>
        (if same_union (field_at fs i) (field_at fs (Suc i)) then offs ! Suc i = offs ! i
         else offs ! i + member_size (field_at fs i) \<le> offs ! Suc i \<and>
              data_offset (field_at fs (Suc i)) =
                PB_DATAOFFSET_OTHER (offs ! Suc i) (offs ! i) (member_size (field_at fs i))))"

lemma ucast_of_nat32: "i < 2 ^ 32 \<Longrightarrow> (ucast (of_nat i :: u32) :: u64) = of_nat i"
  by (simp add: unsigned_of_nat take_bit_nat_eq_self)

lemma pData_next:
  assumes "i < nfields fs" "Suc i < nfields fs"
  shows "pData (iter_at fs d (Suc i)) =
    (if same_union (field_at fs i) (field_at fs (Suc i)) then pData (iter_at fs d i)
     else pData (iter_at fs d i) + of_nat (member_size (field_at fs i))
          + ucast (data_offset (field_at fs (Suc i))))"
  using assms field_at_nonzero [of i fs] field_at_nonzero [of "Suc i" fs]
  by (simp add: iter_at.simps pb_field_iter_next_def it_field_iter_at Let_def it_field_def iter_at_pos
      same_union_def PB_DATAOFFSET_UNION_def member_size_def)

lemma pData_layout:
  assumes "layout_ok fs offs" "d \<noteq> 0" "i < nfields fs"
  shows "pData (iter_at fs d i) = d + of_nat (offs ! i)"
  using assms(3)
proof (induction i)
  case 0
  then show ?case
    using assms(1,2) by (simp add: iter_at.simps pb_field_iter_begin_def layout_ok_def Let_def
        PB_DATAOFFSET_FIRST_def ucast_of_nat32)
next
  case (Suc i)
  then have IH: "pData (iter_at fs d i) = d + of_nat (offs ! i)" by simp
  show ?case
  proof (cases "same_union (field_at fs i) (field_at fs (Suc i))")
    case True
    then show ?thesis
      using assms(1) Suc.prems IH by (simp add: pData_next layout_ok_def)
  next
    case False
    define gap where "gap = offs ! Suc i - offs ! i - member_size (field_at fs i)"
    have gap: "offs ! Suc i = offs ! i + member_size (field_at fs i) + gap" "gap < 2 ^ 32"
      and "data_offset (field_at fs (Suc i)) = of_nat gap"
      using assms(1) Suc.prems False
      by (auto simp: layout_ok_def gap_def PB_DATAOFFSET_OTHER_def intro: le_less_trans)
    then show ?thesis
      using False Suc.prems IH by (simp add: pData_next ucast_of_nat32 add.assoc)
  qed
qed

end
