(* ===== verification/PB_Ostream.thy ===== *)
theory PB_Ostream
  imports PB_Field
begin

unbundle bit_operations_syntax

text \<open>
  The output stream of \<open>pb_encode.c\<close> and its helper functions: varints, zigzag,
  fixed-width values, tags, length-prefixed strings. The callback pointer and
  the state pointer of a stream are one value of type \<open>out_sink\<close>: null (a sizing stream),
  \<open>buf_write\<close> on a memory buffer, or a user callback on its own state. What the
  encoders need of a callback is the locale \<open>byte_sink\<close> (writing appends), which
  \<open>buf_write\<close> satisfies. Against a byte sink the action \<open>f\<close> \<open>emits bs\<close>: it counts \<open>bs\<close> on a
  sizing stream, appends exactly \<open>bs\<close> where they fit below \<open>max_size\<close>, and fails otherwise.
\<close>

section \<open>Streams\<close>

text \<open>The output buffer is memory of its own, apart from the message that is encoded.\<close>

record obuf =
  ob_mem :: mem
  ob_ptr :: addr

datatype 'u out_sink = NullSink | BufSink obuf | UserSink "'u \<Rightarrow> byte list \<Rightarrow> bool \<times> 'u" 'u

record 'u pb_ostream =
  os_sink :: "'u out_sink"
  max_size :: u64
  bytes_written :: u64
  os_errmsg :: "string option"

definition PB_OSTREAM_SIZING :: "'u pb_ostream" where
  "PB_OSTREAM_SIZING = \<lparr>os_sink = NullSink, max_size = 0, bytes_written = 0, os_errmsg = None\<rparr>"

definition set_oerror :: "string \<Rightarrow> 'u pb_ostream \<Rightarrow> 'u pb_ostream" where
  "set_oerror msg s =
     s\<lparr>os_errmsg := (case os_errmsg s of Some m \<Rightarrow> Some m | None \<Rightarrow> Some msg)\<rparr>"

definition oerror :: "string \<Rightarrow> 'u pb_ostream \<Rightarrow> ('a, 'u pb_ostream) outcome" where
  "oerror msg s = Fail (set_oerror msg s)"

text \<open>\<open>dest[i] = buf[i]\<close> for all \<open>i < count\<close>, and the state pointer moves on.\<close>

definition buf_write :: "obuf \<Rightarrow> byte list \<Rightarrow> bool \<times> obuf" where
  "buf_write st buf =
     (True, st\<lparr>ob_mem := mem_write (ob_mem st) (ob_ptr st) buf,
               ob_ptr := ob_ptr st + of_nat (length buf)\<rparr>)"

definition pb_ostream_from_buffer :: "mem \<Rightarrow> addr \<Rightarrow> u64 \<Rightarrow> 'u pb_ostream" where
  "pb_ostream_from_buffer m buf bufsize =
     \<lparr>os_sink = BufSink \<lparr>ob_mem = m, ob_ptr = buf\<rparr>, max_size = bufsize, bytes_written = 0,
      os_errmsg = None\<rparr>"

definition sink_write :: "'u out_sink \<Rightarrow> byte list \<Rightarrow> bool \<times> 'u out_sink" where
  "sink_write snk buf =
     (case snk of
        NullSink \<Rightarrow> (True, NullSink)
      | BufSink st \<Rightarrow> (case buf_write st buf of (ok, st') \<Rightarrow> (ok, BufSink st'))
      | UserSink cb st \<Rightarrow> (case cb st buf of (ok, st') \<Rightarrow> (ok, UserSink cb st')))"

text \<open>\<open>buf\<close> is the bytes the pointer leads to; a sizing stream never reads them.\<close>

definition pb_write :: "byte list \<Rightarrow> u64 \<Rightarrow> 'u pb_ostream \<Rightarrow> (unit, 'u pb_ostream) outcome" where
  "pb_write buf count s =
     (if 0 < count \<and> os_sink s \<noteq> NullSink then
        if bytes_written s + count < bytes_written s \<or> max_size s < bytes_written s + count
        then oerror ''stream full'' s
        else case sink_write (os_sink s) (take (unat count) buf) of
               (ok, snk) \<Rightarrow>
                 if \<not> ok then oerror ''io error'' (s\<lparr>os_sink := snk\<rparr>)
                 else Ok () (s\<lparr>os_sink := snk, bytes_written := bytes_written s + count\<rparr>)
      else Ok () (s\<lparr>bytes_written := bytes_written s + count\<rparr>))"

section \<open>Helper functions\<close>

function varint_loop :: "u64 \<Rightarrow> byte list" where
  "varint_loop value =
     (if value = 0 then []
      else (ucast (value AND 0x7F) OR 0x80) # varint_loop (drop_bit 7 value))"
  by pat_completeness auto
termination
proof (relation "measure unat")
  fix v :: u64
  assume "v \<noteq> 0"
  then show "(drop_bit 7 v, v) \<in> measure unat"
    by (simp add: unat_drop_bit_eq drop_bit_eq_div unat_div unat_gt_0)
qed simp

declare varint_loop.simps [simp del]

definition pb_encode_varint :: "u64 \<Rightarrow> 'u pb_ostream \<Rightarrow> (unit, 'u pb_ostream) outcome" where
  "pb_encode_varint value =
     (if value \<le> 0x7F then pb_write [ucast value] 1
      else let buffer = varint_loop value; i = length buffer;
               buffer = buffer[i - 1 := (buffer ! (i - 1)) AND 0x7F]
           in pb_write buffer (of_nat i))"

definition zigzag :: "64 word \<Rightarrow> u64" where
  "zigzag value = (if value <s 0 then NOT (push_bit 1 value) else push_bit 1 value)"

definition pb_encode_svarint :: "64 word \<Rightarrow> 'u pb_ostream \<Rightarrow> (unit, 'u pb_ostream) outcome" where
  "pb_encode_svarint value = pb_encode_varint (zigzag value)"

definition pb_encode_fixed32 :: "u32 \<Rightarrow> 'u pb_ostream \<Rightarrow> (unit, 'u pb_ostream) outcome" where
  "pb_encode_fixed32 val =
     pb_write [ucast (val AND 0xFF), ucast (drop_bit 8 val AND 0xFF),
               ucast (drop_bit 16 val AND 0xFF), ucast (drop_bit 24 val AND 0xFF)] 4"

definition pb_encode_fixed64 :: "u64 \<Rightarrow> 'u pb_ostream \<Rightarrow> (unit, 'u pb_ostream) outcome" where
  "pb_encode_fixed64 val =
     pb_write [ucast (val AND 0xFF), ucast (drop_bit 8 val AND 0xFF),
               ucast (drop_bit 16 val AND 0xFF), ucast (drop_bit 24 val AND 0xFF),
               ucast (drop_bit 32 val AND 0xFF), ucast (drop_bit 40 val AND 0xFF),
               ucast (drop_bit 48 val AND 0xFF), ucast (drop_bit 56 val AND 0xFF)] 8"

text \<open>Wire types.\<close>

definition PB_WT_VARINT :: u32 where "PB_WT_VARINT = 0"
definition PB_WT_64BIT :: u32 where "PB_WT_64BIT = 1"
definition PB_WT_STRING :: u32 where "PB_WT_STRING = 2"
definition PB_WT_32BIT :: u32 where "PB_WT_32BIT = 5"

lemmas wt_defs = PB_WT_VARINT_def PB_WT_64BIT_def PB_WT_STRING_def PB_WT_32BIT_def

definition pb_encode_tag :: "u32 \<Rightarrow> u32 \<Rightarrow> 'u pb_ostream \<Rightarrow> (unit, 'u pb_ostream) outcome" where
  "pb_encode_tag wiretype field_number =
     pb_encode_varint (push_bit 3 (ucast field_number) OR ucast wiretype)"

definition field_wiretype :: "byte \<Rightarrow> u32 option" where
  "field_wiretype ltype =
     (if ltype = PB_LTYPE_BOOL \<or> ltype = PB_LTYPE_VARINT \<or> ltype = PB_LTYPE_UVARINT \<or>
         ltype = PB_LTYPE_SVARINT then Some PB_WT_VARINT
      else if ltype = PB_LTYPE_FIXED32 then Some PB_WT_32BIT
      else if ltype = PB_LTYPE_FIXED64 then Some PB_WT_64BIT
      else if ltype = PB_LTYPE_BYTES \<or> ltype = PB_LTYPE_STRING \<or> ltype = PB_LTYPE_SUBMESSAGE \<or>
         ltype = PB_LTYPE_FIXED_LENGTH_BYTES then Some PB_WT_STRING
      else None)"

definition pb_encode_tag_for_field ::
  "pb_field \<Rightarrow> 'u pb_ostream \<Rightarrow> (unit, 'u pb_ostream) outcome" where
  "pb_encode_tag_for_field field =
     (case field_wiretype (PB_LTYPE (ftype field)) of
        Some wiretype \<Rightarrow> pb_encode_tag wiretype (tag field)
      | None \<Rightarrow> oerror ''invalid field type'')"

definition pb_encode_string :: "byte list \<Rightarrow> u64 \<Rightarrow> 'u pb_ostream \<Rightarrow> (unit, 'u pb_ostream) outcome" where
  "pb_encode_string buffer len = mthen (pb_encode_varint len) (pb_write buffer len)"

section \<open>The wire format of the primitives\<close>

text \<open>Base-128 digits, least significant first, all but the last with the top bit set.\<close>

function varint_bytes :: "nat \<Rightarrow> byte list" where
  "varint_bytes n = (if n < 128 then [of_nat n] else of_nat (n mod 128 + 128) # varint_bytes (n div 128))"
  by pat_completeness auto
termination by (relation "measure id") auto

declare varint_bytes.simps [simp del]

lemma varint_digits:
  "n < 128 \<Longrightarrow> varint_bytes n = [of_nat n]"
  "128 \<le> n \<Longrightarrow> varint_bytes n = of_nat (n mod 128 + 128) # varint_bytes (n div 128)"
  by (subst varint_bytes.simps, simp)+

lemma length_varint_bytes_pos: "0 < length (varint_bytes n)"
  by (subst varint_bytes.simps) simp

lemma varint_bytes_nonempty [simp]: "varint_bytes n \<noteq> []"
  using length_varint_bytes_pos [of n] by auto

lemma length_varint_bytes:
  "n < 128 ^ Suc k \<Longrightarrow> length (varint_bytes n) \<le> Suc k"
proof (induction k arbitrary: n)
  case 0
  then show ?case by (subst varint_bytes.simps) simp
next
  case (Suc k)
  show ?case
  proof (cases "n < 128")
    case True
    then show ?thesis by (subst varint_bytes.simps) simp
  next
    case False
    have "n div 128 < 128 ^ Suc k"
      using Suc.prems by (simp add: less_mult_imp_div_less)
    then show ?thesis
      using Suc.IH [of "n div 128"] False by (subst varint_bytes.simps) simp
  qed
qed

lemma length_varint64: "length (varint_bytes (unat (v :: u64))) \<le> 10"
  using length_varint_bytes [of "unat v" 9] unat_less64 [of v] by simp


lemma unat_and_127: "unat ((v :: u64) AND 0x7F) = unat v mod 128"
proof -
  have "v AND 0x7F = take_bit 7 v"
    by (simp add: take_bit_eq_mask mask_eq_exp_minus_1)
  then show ?thesis
    by (simp add: take_bit_eq_mod unat_mod)
qed

lemma byte_or_128: "n < 128 \<Longrightarrow> (of_nat n OR 0x80 :: byte) = of_nat (n + 128)"
proof -
  assume n: "n < 128"
  have "(of_nat n :: byte) AND 0x80 = 0"
  proof (rule bit_word_eqI)
    fix i
    have "(of_nat n :: byte) = take_bit 7 (of_nat n)"
      using n by (simp add: take_bit_of_nat take_bit_nat_eq_self)
    then have "bit (of_nat n :: byte) i \<Longrightarrow> i < 7"
      by (metis bit_take_bit_iff)
    moreover have "bit (0x80 :: byte) i \<Longrightarrow> i = 7"
      using bit_push_bit_iff [of 7 "1 :: byte" i] by (simp add: bit_1_iff)
    ultimately show "bit ((of_nat n :: byte) AND 0x80) i = bit 0 i"
      by (auto simp: bit_and_iff)
  qed
  then show ?thesis by (simp flip: disjunctive_add_eq_or)
qed

lemma varint_digit:
  "(ucast (v AND 0x7F) OR 0x80 :: byte) = of_nat (unat (v :: u64) mod 128 + 128)"
proof -
  have "(ucast (v AND 0x7F) :: byte) = of_nat (unat v mod 128)"
    by (metis of_nat_unat unat_and_127)
  then show ?thesis by (simp add: byte_or_128)
qed

lemma byte_and_127: "n < 128 \<Longrightarrow> (of_nat (n + 128) AND 0x7F :: byte) = of_nat n"
proof -
  assume n: "n < 128"
  have "(of_nat (n + 128) :: byte) AND 0x7F = take_bit 7 (of_nat (n + 128))"
    by (simp add: take_bit_eq_mask mask_eq_exp_minus_1 del: of_nat_add)
  also have "\<dots> = of_nat (take_bit 7 (n + 128))"
    by (simp add: take_bit_of_nat del: of_nat_add)
  also have "take_bit 7 (n + 128) = n"
    using n by (simp add: take_bit_eq_mod)
  finally show ?thesis .
qed

lemma varint_loop_bytes:
  "v \<noteq> 0 \<Longrightarrow>
   (varint_loop v)[length (varint_loop v) - 1 := varint_loop v ! (length (varint_loop v) - 1) AND 0x7F]
   = varint_bytes (unat v)"
proof (induction v rule: varint_loop.induct)
  case (1 v)
  define w where "w = drop_bit 7 v"
  define h :: byte where "h = of_nat (unat v mod 128 + 128)"
  have w: "unat w = unat v div 128"
    by (simp add: w_def unat_drop_bit_eq drop_bit_eq_div unat_div)
  have loop: "varint_loop v = h # varint_loop w"
    using "1.prems" by (subst varint_loop.simps) (simp add: varint_digit w_def h_def)
  show ?case
  proof (cases "w = 0")
    case True
    then have "unat v < 128" using w by simp
    then show ?thesis
      using True loop byte_and_127 [of "unat v"]
      by (simp add: varint_loop.simps [of 0] varint_bytes.simps [of "unat v"] h_def del: of_nat_add)
  next
    case False
    then have "unat w \<noteq> 0" by (simp add: unat_eq_0)
    then have "128 \<le> unat v" using w by simp
    moreover have "varint_loop w \<noteq> []"
      using False by (subst varint_loop.simps) simp
    ultimately show ?thesis
      using "1.IH" [OF "1.prems"] False loop w
      by (cases "varint_loop w") (simp_all add: varint_bytes.simps [of "unat v"] h_def flip: w_def)
  qed
qed

lemma pb_encode_varint_eq:
  "pb_encode_varint v = pb_write (varint_bytes (unat v)) (of_nat (length (varint_bytes (unat v))))"
proof (cases "v \<le> 0x7F")
  case True
  then have small: "unat v < 128" by (simp add: word_le_nat_alt)
  moreover have "(ucast v :: byte) = of_nat (unat v)" by simp
  ultimately show ?thesis
    using True by (simp add: pb_encode_varint_def varint_bytes.simps [of "unat v"])
next
  case False
  then have "v \<noteq> 0" by auto
  from varint_loop_bytes [OF this] False show ?thesis
    by (simp add: pb_encode_varint_def Let_def) (metis length_list_update)
qed

definition wire_tag :: "nat \<Rightarrow> nat \<Rightarrow> byte list" where
  "wire_tag field_number wiretype = varint_bytes (8 * field_number + wiretype)"

definition wire_string :: "byte list \<Rightarrow> byte list" where
  "wire_string bs = varint_bytes (length bs) @ bs"

lemma tag_word:
  assumes "wt < 8"
  shows "unat (push_bit 3 (ucast fn) OR ucast wt :: u64) = 8 * unat (fn :: u32) + unat (wt :: u32)"
proof -
  have wt: "unat wt < 8" using assms by (simp add: word_less_nat_alt)
  have "(ucast wt :: u64) = take_bit 3 (ucast wt)"
    using wt by (simp add: word_unat_eq_iff unsigned_take_bit_eq unsigned_ucast_eq take_bit_nat_eq_self)
  then have "push_bit 3 (ucast fn) AND (ucast wt :: u64) = 0"
    by (metis (no_types, lifting) and.commute bit_and_iff bit_eqI bit_push_bit_iff
        bit_take_bit_iff bit_0_eq bot_apply linorder_not_le bot_bool_def)
  then have "push_bit 3 (ucast fn) OR (ucast wt :: u64) = push_bit 3 (ucast fn) + ucast wt"
    by (simp add: disjunctive_add_eq_or)
  also have "\<dots> = of_nat (8 * unat fn + unat wt)"
    by (simp add: push_bit_eq_mult)
  finally show ?thesis
    using wt unat_less32 [of fn] by (simp add: unat_of_nat_addr del: of_nat_add of_nat_mult)
qed

lemma ucast_and_255: "(ucast (v AND 0xFF) :: byte) = ucast (v :: 'a::len word)"
proof -
  have "v AND 0xFF = take_bit 8 v"
    by (simp add: take_bit_eq_mask mask_eq_exp_minus_1)
  then show ?thesis
    by (auto intro!: bit_word_eqI simp: bit_simps)
qed

lemma fixed32_bytes:
  "[ucast (val AND 0xFF), ucast (drop_bit 8 val AND 0xFF), ucast (drop_bit 16 val AND 0xFF),
    ucast (drop_bit 24 val AND 0xFF)] = word_le_bytes 4 (val :: u32)"
  by (simp only: ucast_and_255) (simp add: word_le_bytes_def upt_rec)

lemma fixed64_bytes:
  "[ucast (val AND 0xFF), ucast (drop_bit 8 val AND 0xFF), ucast (drop_bit 16 val AND 0xFF),
    ucast (drop_bit 24 val AND 0xFF), ucast (drop_bit 32 val AND 0xFF), ucast (drop_bit 40 val AND 0xFF),
    ucast (drop_bit 48 val AND 0xFF), ucast (drop_bit 56 val AND 0xFF)] = word_le_bytes 8 (val :: u64)"
  by (simp only: ucast_and_255) (simp add: word_le_bytes_def upt_rec)

section \<open>What a sink must do\<close>

text \<open>\<open>stream_ready\<close>: no error is recorded and \<open>bytes_written\<close> is at most \<open>max_size\<close>;
  \<open>room\<close> is what may still be written, \<open>counted n\<close> advances \<open>bytes_written\<close>.\<close>

type_synonym 'u out_action = "'u pb_ostream \<Rightarrow> (unit, 'u pb_ostream) outcome"

definition stream_ready :: "'u pb_ostream \<Rightarrow> bool" where
  "stream_ready s \<longleftrightarrow> os_errmsg s = None \<and> bytes_written s \<le> max_size s"

definition limited :: "'u pb_ostream \<Rightarrow> bool" where
  "limited s \<longleftrightarrow> stream_ready s \<and> unat (max_size s) < 2 ^ 63"

definition room :: "'u pb_ostream \<Rightarrow> nat" where
  "room s = unat (max_size s) - unat (bytes_written s)"

definition counted :: "nat \<Rightarrow> 'u pb_ostream \<Rightarrow> 'u pb_ostream" where
  "counted n s = s\<lparr>bytes_written := bytes_written s + of_nat n\<rparr>"

text \<open>
  \<open>emits f bs\<close>: \<open>f\<close> counts \<open>bs\<close> on a sizing stream; on a ready stream it appends \<open>bs\<close> if there
  is room, and otherwise fails after writing a prefix that fits. \<open>rejects f\<close>: \<open>f\<close> fails on
  every such stream, and never writes beyond the room. The failures are stated for limits
  below \<open>2 ^ 63\<close>: nearer to \<open>SIZE_MAX\<close> the sum \<open>bytes_written + size\<close> of
  \<open>pb_encode_submessage\<close> can wrap around.
\<close>

definition emits :: "('s \<Rightarrow> 'u out_sink) \<Rightarrow> ('s \<Rightarrow> byte list \<Rightarrow> 's) \<Rightarrow> 'u out_action \<Rightarrow> byte list \<Rightarrow> bool" where
  "emits emb app f bs \<longleftrightarrow>
     (\<forall>s. os_sink s = NullSink \<and> os_errmsg s = None \<longrightarrow> f s = Ok () (counted (length bs) s)) \<and>
     (\<forall>s st. os_sink s = emb st \<and> stream_ready s \<and> length bs \<le> room s \<longrightarrow>
        f s = Ok () (counted (length bs) (s\<lparr>os_sink := emb (app st bs)\<rparr>))) \<and>
     (\<forall>s st. os_sink s = emb st \<and> limited s \<and> room s < length bs \<longrightarrow>
        (\<exists>s' k. f s = Fail s' \<and> k \<le> room s \<and> os_sink s' = emb (app st (take k bs))))"

definition rejects :: "('s \<Rightarrow> 'u out_sink) \<Rightarrow> ('s \<Rightarrow> byte list \<Rightarrow> 's) \<Rightarrow> 'u out_action \<Rightarrow> bool" where
  "rejects emb app f \<longleftrightarrow>
     (\<forall>s. os_sink s = NullSink \<and> os_errmsg s = None \<longrightarrow> (\<exists>s'. f s = Fail s')) \<and>
     (\<forall>s st. os_sink s = emb st \<and> limited s \<longrightarrow>
        (\<exists>s' bs. f s = Fail s' \<and> length bs \<le> room s \<and> os_sink s' = emb (app st bs)))"

lemma sizing_sel [simp]:
  "os_sink PB_OSTREAM_SIZING = NullSink" "bytes_written PB_OSTREAM_SIZING = 0"
  "os_errmsg PB_OSTREAM_SIZING = None"
  by (simp_all add: PB_OSTREAM_SIZING_def)

lemma counted_sel [simp]:
  "os_sink (counted n s) = os_sink s" "max_size (counted n s) = max_size s"
  "os_errmsg (counted n s) = os_errmsg s"
  "bytes_written (counted n s) = bytes_written s + of_nat n"
  by (simp_all add: counted_def)

lemma counted_counted [simp]: "counted m (counted n s) = counted (n + m) s"
  by (simp add: counted_def add.assoc)

lemma counted_0 [simp]: "counted 0 s = s"
  by (simp add: counted_def)

lemma counted_sink [simp]: "(counted n s)\<lparr>os_sink := k\<rparr> = counted n (s\<lparr>os_sink := k\<rparr>)"
  by (simp add: counted_def)

lemma ready_sink [simp]: "stream_ready (s\<lparr>os_sink := k\<rparr>) = stream_ready s"
  by (simp add: stream_ready_def)

lemma limited_sink [simp]: "limited (s\<lparr>os_sink := k\<rparr>) = limited s"
  by (simp add: limited_def)

lemma limited_ready: "limited s \<Longrightarrow> stream_ready s"
  by (simp add: limited_def)

lemma room_sink [simp]: "room (s\<lparr>os_sink := k\<rparr>) = room s"
  by (simp add: room_def)

lemma room_less: "room s < 2 ^ 64"
  using unat_less64 [of "max_size s"] by (simp add: room_def)

lemma unat_bytes_written_add:
  assumes "stream_ready s" "n \<le> room s"
  shows "unat (bytes_written s + of_nat n) = unat (bytes_written s) + n"
proof -
  have "unat (bytes_written s) + n < 2 ^ 64"
    using assms unat_less64 [of "max_size s"] by (auto simp: stream_ready_def room_def word_le_nat_alt)
  then show ?thesis
    using unat_add_lem [of "bytes_written s" "of_nat n"] room_less [of s] assms(2)
    by (simp add: unat_of_nat_addr)
qed

lemma ready_counted:
  assumes "stream_ready s" "n \<le> room s"
  shows "stream_ready (counted n s)" "room (counted n s) = room s - n"
  using assms unat_bytes_written_add [OF assms]
  by (auto simp: stream_ready_def room_def word_le_nat_alt)

lemma limited_counted: "limited s \<Longrightarrow> n \<le> room s \<Longrightarrow> limited (counted n s)"
  using ready_counted(1) [of s n] by (simp add: limited_def)

lemma set_oerror_sel [simp]:
  "os_sink (set_oerror msg s) = os_sink s"
  by (simp add: set_oerror_def)

text \<open>
  The contract of a sink. \<open>emb st\<close> is the stream's callback with state \<open>st\<close>; \<open>app st bs\<close> is
  the state after the bytes \<open>bs\<close> have been written, in any number of calls.
\<close>

locale byte_sink =
  fixes emb :: "'s \<Rightarrow> 'u out_sink"
    and app :: "'s \<Rightarrow> byte list \<Rightarrow> 's"
  assumes emb_not_null: "emb st \<noteq> NullSink"
    and sink_write_emb: "sink_write (emb st) bs = (True, emb (app st bs))"
    and app_nil: "app st [] = st"
    and app_append: "app st (xs @ ys) = app (app st xs) ys"
begin

lemma emitsD_null:
  "emits emb app f bs \<Longrightarrow> os_sink s = NullSink \<Longrightarrow> os_errmsg s = None \<Longrightarrow> f s = Ok () (counted (length bs) s)"
  by (simp add: emits_def)

lemma emitsD_room:
  "emits emb app f bs \<Longrightarrow> os_sink s = emb st \<Longrightarrow> stream_ready s \<Longrightarrow> length bs \<le> room s \<Longrightarrow>
   f s = Ok () (counted (length bs) (s\<lparr>os_sink := emb (app st bs)\<rparr>))"
  by (simp add: emits_def)

lemma emitsD_full:
  "emits emb app f bs \<Longrightarrow> os_sink s = emb st \<Longrightarrow> limited s \<Longrightarrow> room s < length bs \<Longrightarrow>
   \<exists>s' k. f s = Fail s' \<and> k \<le> room s \<and> os_sink s' = emb (app st (take k bs))"
  by (simp add: emits_def)

lemma emits_return: "emits emb app (mreturn ()) []"
  by (auto simp: emits_def app_nil)

lemma emits_write:
  assumes "length bs < 2 ^ 64"
  shows "emits emb app (pb_write bs (of_nat (length bs))) bs"
proof -
  have un: "unat (of_nat (length bs) :: u64) = length bs"
    using assms by (simp add: unat_of_nat_addr)
  show ?thesis
    unfolding emits_def
  proof (intro conjI allI impI)
    fix s :: "'u pb_ostream"
    assume "os_sink s = NullSink \<and> os_errmsg s = None"
    then show "pb_write bs (of_nat (length bs)) s = Ok () (counted (length bs) s)"
      by (simp add: pb_write_def counted_def)
  next
    fix s :: "'u pb_ostream" and st
    assume s: "os_sink s = emb st \<and> stream_ready s \<and> length bs \<le> room s"
    then have sum: "unat (bytes_written s + of_nat (length bs)) = unat (bytes_written s) + length bs"
      and fits: "unat (bytes_written s) + length bs \<le> unat (max_size s)"
      by (auto simp: unat_bytes_written_add room_def stream_ready_def word_le_nat_alt)
    show "pb_write bs (of_nat (length bs)) s = Ok () (counted (length bs) (s\<lparr>os_sink := emb (app st bs)\<rparr>))"
    proof (cases "bs = []")
      case True
      then show ?thesis using s by (simp add: pb_write_def counted_def app_nil)
    next
      case False
      then have "(0 :: u64) < of_nat (length bs)"
        using un by (simp add: word_less_nat_alt)
      then show ?thesis
        using s un sum fits emb_not_null
        by (simp add: pb_write_def counted_def sink_write_emb word_less_nat_alt)
    qed
  next
    fix s :: "'u pb_ostream" and st
    assume s: "os_sink s = emb st \<and> limited s \<and> room s < length bs"
    then have "bs \<noteq> []" by auto
    then have pos: "(0 :: u64) < of_nat (length bs)"
      using un by (simp add: word_less_nat_alt)
    have "bytes_written s + of_nat (length bs) < bytes_written s \<or>
          max_size s < bytes_written s + of_nat (length bs)"
    proof (rule ccontr)
      assume "\<not> ?thesis"
      then have "bytes_written s \<le> bytes_written s + of_nat (length bs)"
        and le: "bytes_written s + of_nat (length bs) \<le> max_size s" by auto
      then have "unat (bytes_written s + of_nat (length bs)) = unat (bytes_written s) + length bs"
        using un by (simp add: unat_plus_simple)
      with le s show False
        by (auto simp: room_def word_le_nat_alt)
    qed
    then have "pb_write bs (of_nat (length bs)) s = Fail (set_oerror ''stream full'' s)"
      using pos s emb_not_null by (simp add: pb_write_def oerror_def)
    then show "\<exists>s' k. pb_write bs (of_nat (length bs)) s = Fail s' \<and> k \<le> room s \<and>
                 os_sink s' = emb (app st (take k bs))"
      using s by (auto intro!: exI [of _ "0 :: nat"] simp: app_nil)
  qed
qed

lemma emits_then:
  assumes f: "emits emb app f as" and g: "emits emb app g bs"
  shows "emits emb app (mthen f g) (as @ bs)"
  unfolding emits_def
proof (intro conjI allI impI)
  fix s :: "'u pb_ostream"
  assume "os_sink s = NullSink \<and> os_errmsg s = None"
  then show "mthen f g s = Ok () (counted (length (as @ bs)) s)"
    by (simp add: emitsD_null [OF f] emitsD_null [OF g] mthen_simps)
next
  fix s :: "'u pb_ostream" and st
  assume s: "os_sink s = emb st \<and> stream_ready s \<and> length (as @ bs) \<le> room s"
  define t where "t = counted (length as) (s\<lparr>os_sink := emb (app st as)\<rparr>)"
  have "f s = Ok () t" "stream_ready t" "room t = room s - length as" "os_sink t = emb (app st as)"
    using s emitsD_room [OF f, of s st] by (simp_all add: t_def ready_counted)
  moreover from this have "g t = Ok () (counted (length bs) (t\<lparr>os_sink := emb (app (app st as) bs)\<rparr>))"
    using s by (intro emitsD_room [OF g]) auto
  ultimately show "mthen f g s
      = Ok () (counted (length (as @ bs)) (s\<lparr>os_sink := emb (app st (as @ bs))\<rparr>))"
    by (simp add: mthen_simps t_def app_append counted_def)
next
  fix s :: "'u pb_ostream" and st
  assume s: "os_sink s = emb st \<and> limited s \<and> room s < length (as @ bs)"
  define t where "t = counted (length as) (s\<lparr>os_sink := emb (app st as)\<rparr>)"
  show "\<exists>s' k. mthen f g s = Fail s' \<and> k \<le> room s \<and> os_sink s' = emb (app st (take k (as @ bs)))"
  proof (cases "length as \<le> room s")
    case True
    then have ft: "f s = Ok () t" "limited t" "room t = room s - length as" "os_sink t = emb (app st as)"
      using s emitsD_room [OF f, of s st] by (simp_all add: t_def ready_counted limited_counted limited_ready)
    moreover have "room t < length bs"
      using s True ft by auto
    ultimately obtain s' k where "g t = Fail s'" "k \<le> room t" "os_sink s' = emb (app (app st as) (take k bs))"
      using emitsD_full [OF g, of t "app st as"] by auto
    then show ?thesis
      using True ft by (auto intro!: exI [of _ s'] exI [of _ "length as + k"] simp: mthen_simps app_append)
  next
    case False
    then obtain s' k where "f s = Fail s'" "k \<le> room s" "os_sink s' = emb (app st (take k as))"
      using s emitsD_full [OF f, of s st] by auto
    moreover from this False have "take k (as @ bs) = take k as" by simp
    ultimately show ?thesis
      by (auto intro!: exI [of _ s'] exI [of _ k] simp: mthen_simps)
  qed
qed

lemma rejects_error: "rejects emb app (oerror msg)"
  by (auto simp: rejects_def oerror_def app_nil intro!: exI [of _ "[]"])

lemma rejects_then: "rejects emb app f \<Longrightarrow> rejects emb app (mthen f g)"
  unfolding rejects_def by (force simp: mthen_simps)

lemma rejects_later:
  assumes f: "emits emb app f as" and g: "rejects emb app g"
  shows "rejects emb app (mthen f g)"
  unfolding rejects_def
proof (intro conjI allI impI)
  fix s :: "'u pb_ostream"
  assume s: "os_sink s = NullSink \<and> os_errmsg s = None"
  then obtain s' where "g (counted (length as) s) = Fail s'"
    using g unfolding rejects_def by (metis counted_sel(1,3))
  then show "\<exists>s'. mthen f g s = Fail s'"
    using s emitsD_null [OF f, of s] by (simp add: mthen_simps)
next
  fix s :: "'u pb_ostream" and st
  assume s: "os_sink s = emb st \<and> limited s"
  define t where "t = counted (length as) (s\<lparr>os_sink := emb (app st as)\<rparr>)"
  show "\<exists>s' bs. mthen f g s = Fail s' \<and> length bs \<le> room s \<and> os_sink s' = emb (app st bs)"
  proof (cases "length as \<le> room s")
    case True
    then have ft: "f s = Ok () t" "limited t" "room t = room s - length as" "os_sink t = emb (app st as)"
      using s emitsD_room [OF f, of s st] by (simp_all add: t_def ready_counted limited_counted limited_ready)
    then obtain s' bs where "g t = Fail s'" "length bs \<le> room t" "os_sink s' = emb (app (app st as) bs)"
      using g unfolding rejects_def by blast
    then show ?thesis
      using True ft by (auto intro!: exI [of _ s'] exI [of _ "as @ bs"] simp: mthen_simps app_append)
  next
    case False
    then obtain s' k where "f s = Fail s'" "k \<le> room s" "os_sink s' = emb (app st (take k as))"
      using s emitsD_full [OF f, of s st] by auto
    then show ?thesis
      by (auto intro!: exI [of _ s'] exI [of _ "take k as"] simp: mthen_simps)
  qed
qed

lemma emits_varint: "emits emb app (pb_encode_varint v) (varint_bytes (unat v))"
  using length_varint64 [of v] by (simp add: pb_encode_varint_eq emits_write)

lemma emits_svarint: "emits emb app (pb_encode_svarint v) (varint_bytes (unat (zigzag v)))"
  by (simp add: pb_encode_svarint_def emits_varint)

lemma emits_fixed32: "emits emb app (pb_encode_fixed32 v) (word_le_bytes 4 v)"
  using emits_write [of "word_le_bytes 4 v"] by (simp add: pb_encode_fixed32_def fixed32_bytes)

lemma emits_fixed64: "emits emb app (pb_encode_fixed64 v) (word_le_bytes 8 v)"
  using emits_write [of "word_le_bytes 8 v"] by (simp add: pb_encode_fixed64_def fixed64_bytes)

lemma emits_tag:
  "wt < 8 \<Longrightarrow> emits emb app (pb_encode_tag wt fn) (wire_tag (unat fn) (unat wt))"
  using emits_varint [of "push_bit 3 (ucast fn) OR ucast wt"]
  by (simp add: pb_encode_tag_def wire_tag_def tag_word)

lemma emits_string:
  assumes "unat len = length buffer"
  shows "emits emb app (pb_encode_string buffer len) (wire_string buffer)"
proof -
  have "length buffer < 2 ^ 64" "len = of_nat (length buffer)"
    using assms unat_less64 [of len] by (simp_all flip: assms)
  then show ?thesis
    using emits_then [OF emits_varint [of len] emits_write [of buffer]] assms
    by (simp add: pb_encode_string_def wire_string_def)
qed

end

text \<open>The memory buffer is a byte sink.\<close>

definition obuf_app :: "obuf \<Rightarrow> byte list \<Rightarrow> obuf" where
  "obuf_app st bs =
     st\<lparr>ob_mem := mem_write (ob_mem st) (ob_ptr st) bs, ob_ptr := ob_ptr st + of_nat (length bs)\<rparr>"

interpretation buffer: byte_sink BufSink obuf_app
  by unfold_locales
    (simp_all add: sink_write_def buf_write_def obuf_app_def mem_write_append add.assoc)

end
