(* ===== verification/PB_Encode.thy ===== *)
theory PB_Encode
  imports PB_Ostream
begin

unbundle bit_operations_syntax

text \<open>
  The field and message encoders of \<open>pb_encode.c\<close>. The message is read from memory
  \<open>ee_mem\<close>, which encoding does not change; descriptor tables, user callbacks and
  extension types are the other members of the environment. The functions that end in a
  submessage take \<open>enc\<close>, the encoder of a whole message with one unit of fuel less;
  \<open>pb_encode\<close> ties the knot. Fuel is spent on nesting only, by \<open>ee_steps\<close> on the linked list of
  extensions and on nested static submessages of the proto3 default check.
\<close>

section \<open>The environment\<close>

record ext_type =
  et_decode :: addr
  et_encode :: addr
  et_arg :: pb_field

record 'u enc_env =
  ee_mem :: mem
  ee_descs :: "nat \<Rightarrow> fields"
  ee_callback :: "addr \<Rightarrow> pb_field \<Rightarrow> addr \<Rightarrow> 'u out_action"
  ee_ext_type :: "addr \<Rightarrow> ext_type"
  ee_ext_encode :: "addr \<Rightarrow> addr \<Rightarrow> 'u out_action"
  ee_steps :: nat

type_synonym 'u msg_encoder = "nat \<Rightarrow> addr \<Rightarrow> 'u out_action"
type_synonym 'u pb_encoder = "pb_field \<Rightarrow> addr \<Rightarrow> 'u out_action"

section \<open>Field encoders\<close>

definition safe_read_bool :: "mem \<Rightarrow> addr \<Rightarrow> bool" where
  "safe_read_bool m p \<longleftrightarrow> m p \<noteq> 0"

definition pb_enc_bool :: "'u enc_env \<Rightarrow> 'u pb_encoder" where
  "pb_enc_bool env field src =
     pb_encode_varint (if safe_read_bool (ee_mem env) src then 1 else 0)"

text \<open>The signed and the unsigned integer that a field of \<open>data_size\<close> bytes holds.\<close>

definition read_int :: "mem \<Rightarrow> u32 \<Rightarrow> addr \<Rightarrow> 64 word option" where
  "read_int m dsize src =
     (if dsize = 1 then Some (scast (load8 m src))
      else if dsize = 2 then Some (scast (load16 m src))
      else if dsize = 4 then Some (scast (load32 m src))
      else if dsize = 8 then Some (load64 m src)
      else None)"

definition read_uint :: "mem \<Rightarrow> u32 \<Rightarrow> addr \<Rightarrow> u64 option" where
  "read_uint m dsize src =
     (if dsize = 1 then Some (ucast (load8 m src))
      else if dsize = 2 then Some (ucast (load16 m src))
      else if dsize = 4 then Some (ucast (load32 m src))
      else if dsize = 8 then Some (load64 m src)
      else None)"

definition pb_enc_varint :: "'u enc_env \<Rightarrow> 'u pb_encoder" where
  "pb_enc_varint env field src =
     (case read_int (ee_mem env) (data_size field) src of
        Some v \<Rightarrow> pb_encode_varint v | None \<Rightarrow> oerror ''invalid data_size'')"

definition pb_enc_uvarint :: "'u enc_env \<Rightarrow> 'u pb_encoder" where
  "pb_enc_uvarint env field src =
     (case read_uint (ee_mem env) (data_size field) src of
        Some v \<Rightarrow> pb_encode_varint v | None \<Rightarrow> oerror ''invalid data_size'')"

definition pb_enc_svarint :: "'u enc_env \<Rightarrow> 'u pb_encoder" where
  "pb_enc_svarint env field src =
     (case read_int (ee_mem env) (data_size field) src of
        Some v \<Rightarrow> pb_encode_svarint v | None \<Rightarrow> oerror ''invalid data_size'')"

definition pb_enc_fixed32 :: "'u enc_env \<Rightarrow> 'u pb_encoder" where
  "pb_enc_fixed32 env field src = pb_encode_fixed32 (load32 (ee_mem env) src)"

definition pb_enc_fixed64 :: "'u enc_env \<Rightarrow> 'u pb_encoder" where
  "pb_enc_fixed64 env field src = pb_encode_fixed64 (load64 (ee_mem env) src)"

text \<open>\<open>bytes->size > field->data_size - offsetof(...)\<close> is evaluated at 64 bits, where a
  \<open>data_size\<close> below four wraps around.\<close>

definition pb_enc_bytes :: "'u enc_env \<Rightarrow> 'u pb_encoder" where
  "pb_enc_bytes env field src =
     (if src = 0 then pb_encode_string [] 0
      else
        let bsize = load32 (ee_mem env) src in
        if PB_ATYPE (ftype field) = PB_ATYPE_STATIC \<and>
           ucast (data_size field) - offsetof_bytes < (ucast bsize :: u64)
        then oerror ''bytes size exceeded''
        else pb_encode_string (mem_bytes (ee_mem env) (src + offsetof_bytes) (unat bsize)) (ucast bsize))"

text \<open>\<open>while (size < max_size && *p != 0)\<close>: the length of the string, at most \<open>max\<close>. A
  pointer field has no bound: \<open>max\<close> is the largest \<open>size_t\<close>.\<close>

function strnlen_loop :: "mem \<Rightarrow> addr \<Rightarrow> u64 \<Rightarrow> u64 \<Rightarrow> u64" where
  "strnlen_loop m p mx sz =
     (if sz < mx \<and> m p \<noteq> 0 then strnlen_loop m (p + 1) mx (sz + 1) else sz)"
  by pat_completeness auto
termination
proof (relation "measure (\<lambda>(m, p, mx, sz). unat mx - unat sz)")
  fix m :: mem and p :: addr and mx sz :: u64
  assume "sz < mx \<and> m p \<noteq> 0"
  then have "unat sz < unat mx" "unat (sz + 1) = Suc (unat sz)"
    using unat_less64 [of mx] by (auto simp: word_less_nat_alt unat_word_ariths)
  then show "((m, p + 1, mx, sz + 1), m, p, mx, sz) \<in> measure (\<lambda>(m, p, mx, sz). unat mx - unat sz)"
    by simp
qed simp

declare strnlen_loop.simps [simp del]

definition pb_enc_string :: "'u enc_env \<Rightarrow> 'u pb_encoder" where
  "pb_enc_string env field src =
     (let mx = (if PB_ATYPE (ftype field) = PB_ATYPE_POINTER then - 1
                else ucast (data_size field) :: u64);
          len = (if src = 0 then 0 else strnlen_loop (ee_mem env) src mx 0)
      in pb_encode_string (mem_bytes (ee_mem env) src (unat len)) len)"

definition pb_enc_fixed_length_bytes :: "'u enc_env \<Rightarrow> 'u pb_encoder" where
  "pb_enc_fixed_length_bytes env field src =
     pb_encode_string (mem_bytes (ee_mem env) src (unat (data_size field))) (ucast (data_size field))"

section \<open>Submessages\<close>

text \<open>
  A submessage is encoded twice: on a sizing stream to learn its length, then on a
  substream that has the parent's sink and exactly that room.
\<close>

definition submessage_finish :: "u64 \<Rightarrow> 'u pb_ostream \<Rightarrow> bool \<Rightarrow> 'u pb_ostream \<Rightarrow> (unit, 'u pb_ostream) outcome" where
  "submessage_finish len s status substream =
     (let s' = s\<lparr>bytes_written := bytes_written s + bytes_written substream,
                 os_sink := os_sink substream, os_errmsg := os_errmsg substream\<rparr>
      in if bytes_written substream \<noteq> len then oerror ''submsg size changed'' s'
         else if status then Ok () s' else Fail s')"

definition submessage_write :: "'u msg_encoder \<Rightarrow> nat \<Rightarrow> addr \<Rightarrow> u64 \<Rightarrow> 'u out_action" where
  "submessage_write enc mid src len s =
     (if os_sink s = NullSink then pb_write [] len s
      else if max_size s < bytes_written s + len then oerror ''stream full'' s
      else case enc mid src
                  \<lparr>os_sink = os_sink s, max_size = len, bytes_written = 0, os_errmsg = None\<rparr> of
             Ok _ substream \<Rightarrow> submessage_finish len s True substream
           | Fail substream \<Rightarrow> submessage_finish len s False substream
           | Undef \<Rightarrow> Undef | Fuel \<Rightarrow> Fuel)"

definition pb_encode_submessage :: "'u msg_encoder \<Rightarrow> nat \<Rightarrow> addr \<Rightarrow> 'u out_action" where
  "pb_encode_submessage enc mid src s =
     (case enc mid src PB_OSTREAM_SIZING of
        Ok _ substream \<Rightarrow>
          mthen (pb_encode_varint (bytes_written substream))
            (submessage_write enc mid src (bytes_written substream)) s
      | Fail substream \<Rightarrow> Fail (s\<lparr>os_errmsg := os_errmsg substream\<rparr>)
      | Undef \<Rightarrow> Undef | Fuel \<Rightarrow> Fuel)"

definition pb_enc_submessage :: "'u msg_encoder \<Rightarrow> 'u pb_encoder" where
  "pb_enc_submessage enc field src =
     (case fptr field of
        PtrSubmsg mid \<Rightarrow> pb_encode_submessage enc mid src
      | PtrNull \<Rightarrow> oerror ''invalid field descriptor''
      | PtrDefault _ \<Rightarrow> (\<lambda>_. Undef))"

text \<open>\<open>PB_ENCODERS[PB_LTYPE(type)]\<close>; the entry of extensions is null and the array ends at
  \<open>PB_LTYPES_COUNT\<close>, so any other call is undefined.\<close>

definition PB_ENCODERS :: "'u enc_env \<Rightarrow> 'u msg_encoder \<Rightarrow> byte \<Rightarrow> 'u pb_encoder" where
  "PB_ENCODERS env enc ltype field src =
     (if ltype = PB_LTYPE_BOOL then pb_enc_bool env field src
      else if ltype = PB_LTYPE_VARINT then pb_enc_varint env field src
      else if ltype = PB_LTYPE_UVARINT then pb_enc_uvarint env field src
      else if ltype = PB_LTYPE_SVARINT then pb_enc_svarint env field src
      else if ltype = PB_LTYPE_FIXED32 then pb_enc_fixed32 env field src
      else if ltype = PB_LTYPE_FIXED64 then pb_enc_fixed64 env field src
      else if ltype = PB_LTYPE_BYTES then pb_enc_bytes env field src
      else if ltype = PB_LTYPE_STRING then pb_enc_string env field src
      else if ltype = PB_LTYPE_SUBMESSAGE then pb_enc_submessage enc field src
      else if ltype = PB_LTYPE_FIXED_LENGTH_BYTES then pb_enc_fixed_length_bytes env field src
      else (\<lambda>_. Undef))"

section \<open>Arrays\<close>

text \<open>\<open>for (i = 0; i < count; i++) { func(stream, field, p); p += data_size; }\<close>\<close>

primrec encode_items :: "'u pb_encoder \<Rightarrow> pb_field \<Rightarrow> nat \<Rightarrow> addr \<Rightarrow> 'u out_action" where
  "encode_items func field 0 p = mreturn ()"
| "encode_items func field (Suc n) p =
     mthen (func field p) (encode_items func field n (p + ucast (data_size field)))"

text \<open>The size of a packed array: known for the fixed-width types, else measured on a sizing
  stream. Its failure loses the error message, as in the code.\<close>

definition packed_size :: "'u pb_encoder \<Rightarrow> pb_field \<Rightarrow> addr \<Rightarrow> u64 \<Rightarrow> (u64, unit) outcome" where
  "packed_size func field p count =
     (if PB_LTYPE (ftype field) = PB_LTYPE_FIXED32 then Ok (4 * count) ()
      else if PB_LTYPE (ftype field) = PB_LTYPE_FIXED64 then Ok (8 * count) ()
      else case encode_items func field (unat count) p PB_OSTREAM_SIZING of
             Ok _ sizestream \<Rightarrow> Ok (bytes_written sizestream) ()
           | Fail _ \<Rightarrow> Fail () | Undef \<Rightarrow> Undef | Fuel \<Rightarrow> Fuel)"

text \<open>Array entries of pointer-type strings and bytes are pointers themselves.\<close>

definition item_encoder :: "mem \<Rightarrow> 'u pb_encoder \<Rightarrow> 'u pb_encoder" where
  "item_encoder m func field p =
     mthen (pb_encode_tag_for_field field)
       (if PB_ATYPE (ftype field) = PB_ATYPE_POINTER \<and>
           (PB_LTYPE (ftype field) = PB_LTYPE_STRING \<or> PB_LTYPE (ftype field) = PB_LTYPE_BYTES)
        then func field (load64 m p) else func field p)"

definition packed_write :: "'u pb_encoder \<Rightarrow> pb_field \<Rightarrow> addr \<Rightarrow> u64 \<Rightarrow> u64 \<Rightarrow> 'u out_action" where
  "packed_write func field p count len s =
     (if os_sink s = NullSink then pb_write [] len s
      else encode_items func field (unat count) p s)"

definition encode_packed :: "'u pb_encoder \<Rightarrow> pb_field \<Rightarrow> addr \<Rightarrow> u64 \<Rightarrow> 'u out_action" where
  "encode_packed func field p count s =
     (case packed_size func field p count of
        Ok len _ \<Rightarrow> mthen (pb_encode_varint len) (packed_write func field p count len) s
      | Fail _ \<Rightarrow> Fail s | Undef \<Rightarrow> Undef | Fuel \<Rightarrow> Fuel)"

definition encode_array :: "mem \<Rightarrow> pb_field \<Rightarrow> addr \<Rightarrow> u64 \<Rightarrow> 'u pb_encoder \<Rightarrow> 'u out_action" where
  "encode_array m field p count func =
     (if count = 0 then mreturn ()
      else if PB_ATYPE (ftype field) \<noteq> PB_ATYPE_POINTER \<and> ucast (array_size field) < count
      then oerror ''array max size exceeded''
      else if PB_LTYPE (ftype field) \<le> PB_LTYPE_LAST_PACKABLE
      then mthen (pb_encode_tag PB_WT_STRING (tag field)) (encode_packed func field p count)
      else encode_items (item_encoder m func) field (unat count) p)"

section \<open>Proto3 default values\<close>

text \<open>The loop over the members of a submessage stops at the first that is set.\<close>

primrec all_default :: "('a \<Rightarrow> bool option) \<Rightarrow> 'a list \<Rightarrow> bool option" where
  "all_default f [] = Some True"
| "all_default f (x # xs) =
     (case f x of None \<Rightarrow> None | Some False \<Rightarrow> Some False | Some True \<Rightarrow> all_default f xs)"

text \<open>\<open>for (i = 0; i < field->data_size; i++) if (p[i] != 0) return false;\<close>\<close>

definition all_zero :: "mem \<Rightarrow> addr \<Rightarrow> nat \<Rightarrow> bool" where
  "all_zero m p n \<longleftrightarrow> list_all (\<lambda>b. b = 0) (mem_bytes m p n)"

fun pb_check_proto3_default_value ::
  "mem \<Rightarrow> (nat \<Rightarrow> fields) \<Rightarrow> nat \<Rightarrow> pb_field \<Rightarrow> addr \<Rightarrow> bool option" where
  "pb_check_proto3_default_value m descs 0 field p = None"
| "pb_check_proto3_default_value m descs (Suc n) field p =
     (let type = ftype field; pSz = p + scast (size_offset field);
          catch_all = Some (all_zero m p (unat (data_size field)));
          pointers = (if PB_ATYPE type = PB_ATYPE_POINTER \<and> PB_LTYPE_LAST_PACKABLE < PB_LTYPE type
                      then Some (load64 m p = 0) else catch_all);
          singular =
            (if PB_ATYPE type = PB_ATYPE_STATIC then
               if PB_LTYPE type = PB_LTYPE_BYTES then Some (load32 m p = 0)
               else if PB_LTYPE type = PB_LTYPE_STRING then Some (load8 m p = 0)
               else if PB_LTYPE type = PB_LTYPE_FIXED_LENGTH_BYTES then Some (data_size field = 0)
               else if PB_LTYPE type = PB_LTYPE_SUBMESSAGE then
                 case fptr field of
                   PtrSubmsg mid \<Rightarrow>
                     all_default (\<lambda>it. pb_check_proto3_default_value m descs n (it_field it) (pData it))
                       (field_iters (descs mid) p)
                 | _ \<Rightarrow> None
               else pointers
             else pointers)
      in if PB_HTYPE type = PB_HTYPE_REQUIRED then Some False
         else if PB_HTYPE type = PB_HTYPE_REPEATED then
           if size_offset field \<noteq> 0 then Some (load32 m pSz = 0)
           else if PB_ATYPE type = PB_ATYPE_STATIC then Some False
           else singular
         else if PB_HTYPE type = PB_HTYPE_ONEOF then Some (load32 m pSz = 0)
         else if PB_HTYPE type = PB_HTYPE_OPTIONAL \<and> size_offset field \<noteq> 0
         then Some (\<not> safe_read_bool m pSz)
         else singular)"

section \<open>Fields and messages\<close>

definition encode_basic_field :: "'u enc_env \<Rightarrow> 'u msg_encoder \<Rightarrow> pb_field \<Rightarrow> addr \<Rightarrow> 'u out_action" where
  "encode_basic_field env enc field p =
     (let m = ee_mem env; type = ftype field;
          func = PB_ENCODERS env enc (PB_LTYPE type);
          pSz = p + scast (size_offset field);
          has = (if size_offset field = 0 \<and> PB_HTYPE type = PB_HTYPE_OPTIONAL
                 then map_option Not (pb_check_proto3_default_value m (ee_descs env) (ee_steps env) field p)
                 else Some True)
      in case has of None \<Rightarrow> (\<lambda>_. Fuel) | Some implicit_has \<Rightarrow>
        let is_pointer = (PB_ATYPE type = PB_ATYPE_POINTER);
            d = (if is_pointer then load64 m p else p);
            implicit_has = (if is_pointer then d \<noteq> 0 else implicit_has)
        in if PB_HTYPE type = PB_HTYPE_REQUIRED then
             if d = 0 then oerror ''missing required field''
             else mthen (pb_encode_tag_for_field field) (func field d)
           else if PB_HTYPE type = PB_HTYPE_OPTIONAL then
             if (if size_offset field \<noteq> 0 then safe_read_bool m pSz else implicit_has)
             then mthen (pb_encode_tag_for_field field) (func field d)
             else mreturn ()
           else if PB_HTYPE type = PB_HTYPE_REPEATED then
             encode_array m field d
               (ucast (if size_offset field \<noteq> 0 then load32 m pSz else array_size field)) func
           else if PB_HTYPE type = PB_HTYPE_ONEOF then
             if size_offset field = 0 then (\<lambda>_. Undef)
             else if load32 m pSz = tag field
             then mthen (pb_encode_tag_for_field field) (func field d)
             else mreturn ()
           else oerror ''invalid field type'')"

text \<open>A \<open>pb_callback_t\<close> is the function pointer followed by \<open>arg\<close>.\<close>

definition encode_callback_field :: "'u enc_env \<Rightarrow> pb_field \<Rightarrow> addr \<Rightarrow> 'u out_action" where
  "encode_callback_field env field p s =
     (let fn = load64 (ee_mem env) p in
      if fn \<noteq> 0 then
        case ee_callback env fn field (p + 8) s of
          Fail s' \<Rightarrow> oerror ''callback error'' s'
        | r \<Rightarrow> r
      else Ok () s)"

definition encode_field :: "'u enc_env \<Rightarrow> 'u msg_encoder \<Rightarrow> pb_field \<Rightarrow> addr \<Rightarrow> 'u out_action" where
  "encode_field env enc field p =
     (if PB_ATYPE (ftype field) = PB_ATYPE_STATIC \<or> PB_ATYPE (ftype field) = PB_ATYPE_POINTER
      then encode_basic_field env enc field p
      else if PB_ATYPE (ftype field) = PB_ATYPE_CALLBACK then encode_callback_field env field p
      else oerror ''invalid field type'')"

text \<open>The members of a \<open>pb_extension_t\<close> at address \<open>e\<close>: type, dest, next, found.\<close>

definition ext_type_of :: "mem \<Rightarrow> addr \<Rightarrow> addr" where "ext_type_of m e = load64 m e"
definition ext_dest_ptr :: "addr \<Rightarrow> addr" where "ext_dest_ptr e = e + 8"
definition ext_next :: "mem \<Rightarrow> addr \<Rightarrow> addr" where "ext_next m e = load64 m (e + 16)"
definition ext_found_ptr :: "addr \<Rightarrow> addr" where "ext_found_ptr e = e + 24"

definition default_extension_encoder :: "'u enc_env \<Rightarrow> 'u msg_encoder \<Rightarrow> addr \<Rightarrow> 'u out_action" where
  "default_extension_encoder env enc e =
     (let field = et_arg (ee_ext_type env (ext_type_of (ee_mem env) e)) in
      if PB_ATYPE (ftype field) = PB_ATYPE_POINTER
      then encode_field env enc field (ext_dest_ptr e)
      else encode_field env enc field (load64 (ee_mem env) (ext_dest_ptr e)))"

fun encode_extensions :: "'u enc_env \<Rightarrow> 'u msg_encoder \<Rightarrow> nat \<Rightarrow> addr \<Rightarrow> 'u out_action" where
  "encode_extensions env enc 0 e = (if e = 0 then mreturn () else (\<lambda>_. Fuel))"
| "encode_extensions env enc (Suc n) e =
     (if e = 0 then mreturn ()
      else let ty = ee_ext_type env (ext_type_of (ee_mem env) e) in
        mthen (if et_encode ty \<noteq> 0 then ee_ext_encode env (et_encode ty) e
               else default_extension_encoder env enc e)
          (encode_extensions env enc n (ext_next (ee_mem env) e)))"

definition encode_extension_field :: "'u enc_env \<Rightarrow> 'u msg_encoder \<Rightarrow> addr \<Rightarrow> 'u out_action" where
  "encode_extension_field env enc p =
     encode_extensions env enc (ee_steps env) (load64 (ee_mem env) p)"

primrec encode_fields :: "'u enc_env \<Rightarrow> 'u msg_encoder \<Rightarrow> pb_field_iter list \<Rightarrow> 'u out_action" where
  "encode_fields env enc [] = mreturn ()"
| "encode_fields env enc (it # its) =
     mthen (if PB_LTYPE (ftype (it_field it)) = PB_LTYPE_EXTENSION
            then encode_extension_field env enc (pData it)
            else encode_field env enc (it_field it) (pData it))
       (encode_fields env enc its)"

primrec pb_encode :: "'u enc_env \<Rightarrow> nat \<Rightarrow> 'u msg_encoder" where
  "pb_encode env 0 = (\<lambda>mid src s. Fuel)"
| "pb_encode env (Suc n) =
     (\<lambda>mid src. encode_fields env (pb_encode env n) (field_iters (ee_descs env mid) src))"

definition pb_encode_delimited :: "'u enc_env \<Rightarrow> nat \<Rightarrow> 'u msg_encoder" where
  "pb_encode_delimited env n = pb_encode_submessage (pb_encode env n)"

definition pb_encode_nullterminated :: "'u enc_env \<Rightarrow> nat \<Rightarrow> 'u msg_encoder" where
  "pb_encode_nullterminated env n mid src = mthen (pb_encode env n mid src) (pb_write [0] 1)"

definition pb_get_encoded_size :: "'u enc_env \<Rightarrow> nat \<Rightarrow> nat \<Rightarrow> addr \<Rightarrow> (u64, unit) outcome" where
  "pb_get_encoded_size env n mid src =
     (case pb_encode env n mid src PB_OSTREAM_SIZING of
        Ok _ stream \<Rightarrow> Ok (bytes_written stream) ()
      | Fail _ \<Rightarrow> Fail () | Undef \<Rightarrow> Undef | Fuel \<Rightarrow> Fuel)"

end
