(* ===== verification/PB_Wire.thy ===== *)
theory PB_Wire
  imports PB_Encode
begin

unbundle bit_operations_syntax

text \<open>
  The wire format of a message, defined from the descriptors and the memory without
  streams, sizes or sinks, and the proof that \<open>pb_encode.c\<close> implements it: on any byte
  sink the encoder of a message emits its wire bytes and nothing else, a sizing stream
  counts them, a stream that is too small is never overrun, and a message that has no
  encoding is rejected.
\<close>

section \<open>The wire format\<close>

text \<open>
  \<open>Ok bs ()\<close> is a message with the bytes \<open>bs\<close>, \<open>Fail ()\<close> a value that cannot be encoded.
  \<open>Undef\<close> also stands for messages of \<open>2 ^ 63\<close> bytes or more, of which nothing is claimed.
\<close>

type_synonym wire = "(byte list, unit) outcome"

definition wok :: "byte list \<Rightarrow> wire" where
  "wok bs = (if length bs < 2 ^ 63 then Ok bs () else Undef)"

definition wcat :: "wire \<Rightarrow> wire \<Rightarrow> wire" where
  "wcat a b = (case a of Ok x _ \<Rightarrow> (case b of Ok y _ \<Rightarrow> wok (x @ y) | r \<Rightarrow> r) | r \<Rightarrow> r)"

definition wsub :: "wire \<Rightarrow> wire" where
  "wsub w = (case w of Ok bs _ \<Rightarrow> wok (wire_string bs) | r \<Rightarrow> r)"

definition zigzag_int :: "int \<Rightarrow> nat" where
  "zigzag_int i = nat (if i < 0 then - 2 * i - 1 else 2 * i)"

definition c_string :: "mem \<Rightarrow> addr \<Rightarrow> nat \<Rightarrow> byte list" where
  "c_string m p mx = takeWhile (\<lambda>b. b \<noteq> 0) (mem_bytes m p mx)"

record wire_env =
  we_mem :: mem
  we_descs :: "nat \<Rightarrow> fields"
  we_callback :: "addr \<Rightarrow> pb_field \<Rightarrow> addr \<Rightarrow> wire"
  we_ext_type :: "addr \<Rightarrow> ext_type"
  we_ext_encode :: "addr \<Rightarrow> addr \<Rightarrow> wire"
  we_steps :: nat

definition wire_bytes_field :: "mem \<Rightarrow> pb_field \<Rightarrow> addr \<Rightarrow> wire" where
  "wire_bytes_field m field p =
     (if p = 0 then wok (wire_string [])
      else if PB_ATYPE (ftype field) = PB_ATYPE_STATIC \<and>
              ucast (data_size field) - offsetof_bytes < (ucast (load32 m p) :: u64)
      then Fail ()
      else wok (wire_string (mem_bytes m (p + offsetof_bytes) (unat (load32 m p)))))"

definition wire_value :: "mem \<Rightarrow> (nat \<Rightarrow> addr \<Rightarrow> wire) \<Rightarrow> byte \<Rightarrow> pb_field \<Rightarrow> addr \<Rightarrow> wire" where
  "wire_value m encw ltype field p =
     (if ltype = PB_LTYPE_BOOL then wok (varint_bytes (if m p \<noteq> 0 then 1 else 0))
      else if ltype = PB_LTYPE_VARINT then
        (case read_int m (data_size field) p of
           Some v \<Rightarrow> wok (varint_bytes (unat v)) | None \<Rightarrow> Fail ())
      else if ltype = PB_LTYPE_UVARINT then
        (case read_uint m (data_size field) p of
           Some v \<Rightarrow> wok (varint_bytes (unat v)) | None \<Rightarrow> Fail ())
      else if ltype = PB_LTYPE_SVARINT then
        (case read_int m (data_size field) p of
           Some v \<Rightarrow> wok (varint_bytes (zigzag_int (sint v))) | None \<Rightarrow> Fail ())
      else if ltype = PB_LTYPE_FIXED32 then wok (mem_bytes m p 4)
      else if ltype = PB_LTYPE_FIXED64 then wok (mem_bytes m p 8)
      else if ltype = PB_LTYPE_BYTES then wire_bytes_field m field p
      else if ltype = PB_LTYPE_STRING then
        wok (wire_string (if p = 0 then []
           else c_string m p (if PB_ATYPE (ftype field) = PB_ATYPE_POINTER then 2 ^ 64 - 1
                              else unat (data_size field))))
      else if ltype = PB_LTYPE_SUBMESSAGE then
        (case fptr field of
           PtrSubmsg mid \<Rightarrow> wsub (encw mid p) | PtrNull \<Rightarrow> Fail () | PtrDefault _ \<Rightarrow> Undef)
      else if ltype = PB_LTYPE_FIXED_LENGTH_BYTES then
        wok (wire_string (mem_bytes m p (unat (data_size field))))
      else Undef)"

definition wire_tag_for :: "pb_field \<Rightarrow> wire" where
  "wire_tag_for field =
     (case field_wiretype (PB_LTYPE (ftype field)) of
        Some wt \<Rightarrow> wok (wire_tag (unat (tag field)) (unat wt)) | None \<Rightarrow> Fail ())"

primrec wire_items :: "(addr \<Rightarrow> wire) \<Rightarrow> u32 \<Rightarrow> nat \<Rightarrow> addr \<Rightarrow> wire" where
  "wire_items w dsize 0 p = wok []"
| "wire_items w dsize (Suc n) p = wcat (w p) (wire_items w dsize n (p + ucast dsize))"

lemma wire_items_numeral [simp]:
  "wire_items w dsize (numeral k) p = wcat (w p) (wire_items w dsize (pred_numeral k) (p + ucast dsize))"
  by (simp add: numeral_eq_Suc)

definition wire_item :: "mem \<Rightarrow> (addr \<Rightarrow> wire) \<Rightarrow> pb_field \<Rightarrow> addr \<Rightarrow> wire" where
  "wire_item m w field p =
     wcat (wire_tag_for field)
       (w (if PB_ATYPE (ftype field) = PB_ATYPE_POINTER \<and>
              (PB_LTYPE (ftype field) = PB_LTYPE_STRING \<or> PB_LTYPE (ftype field) = PB_LTYPE_BYTES)
           then load64 m p else p))"

definition wire_array :: "mem \<Rightarrow> (addr \<Rightarrow> wire) \<Rightarrow> pb_field \<Rightarrow> addr \<Rightarrow> nat \<Rightarrow> wire" where
  "wire_array m w field p count =
     (if count = 0 then wok []
      else if PB_ATYPE (ftype field) \<noteq> PB_ATYPE_POINTER \<and> unat (array_size field) < count
      then Fail ()
      else if PB_LTYPE (ftype field) \<le> PB_LTYPE_LAST_PACKABLE
      then wcat (wok (wire_tag (unat (tag field)) 2)) (wsub (wire_items w (data_size field) count p))
      else wire_items (wire_item m w field) (data_size field) count p)"

definition wire_basic_field ::
  "wire_env \<Rightarrow> (nat \<Rightarrow> addr \<Rightarrow> wire) \<Rightarrow> pb_field \<Rightarrow> addr \<Rightarrow> wire" where
  "wire_basic_field env encw field p =
     (let m = we_mem env; type = ftype field; is_pointer = (PB_ATYPE type = PB_ATYPE_POINTER);
          d = (if is_pointer then load64 m p else p);
          size_at = p + scast (size_offset field);
          value = wire_value m encw (PB_LTYPE type) field;
          field_bytes = wcat (wire_tag_for field) (value d);
          proto3 = pb_check_proto3_default_value m (we_descs env) (we_steps env) field p
      in if PB_HTYPE type = PB_HTYPE_OPTIONAL then
           (if size_offset field \<noteq> 0 then
              if m size_at \<noteq> 0 then field_bytes else wok []
            else case proto3 of None \<Rightarrow> Fuel
              | Some is_default \<Rightarrow>
                  if (if is_pointer then d \<noteq> 0 else \<not> is_default) then field_bytes else wok [])
         else if PB_HTYPE type = PB_HTYPE_REQUIRED then
           (if d = 0 then Fail () else field_bytes)
         else if PB_HTYPE type = PB_HTYPE_REPEATED then
           wire_array m value field d
             (unat (if size_offset field \<noteq> 0 then load32 m size_at else array_size field))
         else if size_offset field = 0 then Undef
         else if load32 m size_at = tag field then field_bytes else wok [])"

definition wire_field :: "wire_env \<Rightarrow> (nat \<Rightarrow> addr \<Rightarrow> wire) \<Rightarrow> pb_field \<Rightarrow> addr \<Rightarrow> wire" where
  "wire_field env encw field p =
     (if PB_ATYPE (ftype field) = PB_ATYPE_STATIC \<or> PB_ATYPE (ftype field) = PB_ATYPE_POINTER
      then wire_basic_field env encw field p
      else if PB_ATYPE (ftype field) = PB_ATYPE_CALLBACK then
        (let fn = load64 (we_mem env) p in
         if fn \<noteq> 0 then we_callback env fn field (p + 8) else wok [])
      else Fail ())"

fun wire_extensions :: "wire_env \<Rightarrow> (nat \<Rightarrow> addr \<Rightarrow> wire) \<Rightarrow> nat \<Rightarrow> addr \<Rightarrow> wire" where
  "wire_extensions env encw 0 e = (if e = 0 then wok [] else Fuel)"
| "wire_extensions env encw (Suc n) e =
     (if e = 0 then wok []
      else let m = we_mem env; ty = we_ext_type env (ext_type_of m e); field = et_arg ty in
        wcat (if et_encode ty \<noteq> 0 then we_ext_encode env (et_encode ty) e
              else wire_field env encw field
                     (if PB_ATYPE (ftype field) = PB_ATYPE_POINTER then ext_dest_ptr e
                      else load64 m (ext_dest_ptr e)))
          (wire_extensions env encw n (ext_next m e)))"

text \<open>The bytes of a message are those of its fields in descriptor order.\<close>

primrec wire_fields :: "wire_env \<Rightarrow> (nat \<Rightarrow> addr \<Rightarrow> wire) \<Rightarrow> (pb_field \<times> addr) list \<Rightarrow> wire" where
  "wire_fields env encw [] = wok []"
| "wire_fields env encw (fp # fps) =
     wcat (if PB_LTYPE (ftype (fst fp)) = PB_LTYPE_EXTENSION
           then wire_extensions env encw (we_steps env) (load64 (we_mem env) (snd fp))
           else wire_field env encw (fst fp) (snd fp))
       (wire_fields env encw fps)"

definition field_places :: "fields \<Rightarrow> addr \<Rightarrow> (pb_field \<times> addr) list" where
  "field_places fs d = map (\<lambda>i. (field_at fs i, pData (iter_at fs d i))) [0..<nfields fs]"

primrec wire_message :: "wire_env \<Rightarrow> nat \<Rightarrow> nat \<Rightarrow> addr \<Rightarrow> wire" where
  "wire_message env 0 = (\<lambda>mid src. Fuel)"
| "wire_message env (Suc n) =
     (\<lambda>mid src. wire_fields env (wire_message env n) (field_places (we_descs env mid) src))"

section \<open>Refinement\<close>

definition denotes :: "('s \<Rightarrow> 'u out_sink) \<Rightarrow> ('s \<Rightarrow> byte list \<Rightarrow> 's) \<Rightarrow> 'u out_action \<Rightarrow> wire \<Rightarrow> bool" where
  "denotes emb app f w =
     (case w of Ok bs _ \<Rightarrow> length bs < 2 ^ 63 \<and> emits emb app f bs | Fail _ \<Rightarrow> rejects emb app f
      | Undef \<Rightarrow> True | Fuel \<Rightarrow> True)"

text \<open>User callbacks and user extension encoders must behave as encoders themselves: write
  the same bytes whenever they are called with the same arguments, or fail.\<close>

definition env_refines ::
  "('s \<Rightarrow> 'u out_sink) \<Rightarrow> ('s \<Rightarrow> byte list \<Rightarrow> 's) \<Rightarrow> 'u enc_env \<Rightarrow> wire_env \<Rightarrow> bool" where
  "env_refines emb app env wenv \<longleftrightarrow>
     we_mem wenv = ee_mem env \<and> we_descs wenv = ee_descs env \<and>
     we_ext_type wenv = ee_ext_type env \<and> we_steps wenv = ee_steps env \<and>
     (\<forall>fn field a. denotes emb app (ee_callback env fn field a) (we_callback wenv fn field a)) \<and>
     (\<forall>fn e. denotes emb app (ee_ext_encode env fn e) (we_ext_encode wenv fn e))"

lemma wok_Ok: "wok bs = Ok xs u \<longleftrightarrow> xs = bs \<and> length bs < 2 ^ 63"
  by (auto simp: wok_def)

lemma strnlen_c_string:
  "unat sz \<le> unat mx \<Longrightarrow>
   unat (strnlen_loop m p mx sz) = unat sz + length (c_string m p (unat mx - unat sz))"
proof (induction m p mx sz rule: strnlen_loop.induct)
  case (1 m p mx sz)
  show ?case
  proof (cases "sz < mx")
    case True
    then obtain k where k: "unat mx - unat sz = Suc k"
      by (metis Suc_diff_Suc word_less_nat_alt)
    have step: "unat (sz + 1) = Suc (unat sz)"
      using True unat_less64 [of mx] by (auto simp: word_less_nat_alt unat_word_ariths)
    have k': "unat mx - Suc (unat sz) = k" using k by simp
    show ?thesis
    proof (cases "m p = 0")
      case True
      then show ?thesis
        using k by (subst strnlen_loop.simps) (simp add: c_string_def mem_bytes_Suc)
    next
      case False
      have "unat (strnlen_loop m (p + 1) mx (sz + 1))
          = unat (sz + 1) + length (c_string m (p + 1) (unat mx - unat (sz + 1)))"
        using "1.IH" True False step by (simp add: word_less_nat_alt)
      then show ?thesis
        using True False k k' step
        by (subst strnlen_loop.simps) (simp add: c_string_def mem_bytes_Suc)
    qed
  next
    case False
    with "1.prems" have "unat mx - unat sz = 0" by (simp add: word_less_nat_alt)
    then show ?thesis
      using False by (subst strnlen_loop.simps) (simp add: c_string_def)
  qed
qed

lemma c_string_prefix: "c_string m p n = mem_bytes m p (length (c_string m p n))"
proof (induction n arbitrary: p)
  case 0
  then show ?case by (simp add: c_string_def)
next
  case (Suc n)
  show ?case
  proof (cases "m p = 0")
    case True
    then show ?thesis by (simp add: c_string_def mem_bytes_Suc)
  next
    case False
    then have eq: "c_string m p (Suc n) = m p # c_string m (p + 1) n"
      by (simp add: c_string_def mem_bytes_Suc)
    show ?thesis
      unfolding eq by (simp add: mem_bytes_Suc Suc.IH [symmetric])
  qed
qed

lemma unat_of_int64: "0 \<le> i \<Longrightarrow> i < 2 ^ 64 \<Longrightarrow> unat (of_int i :: u64) = nat i"
  by (simp add: unsigned_of_int take_bit_int_eq_self flip: nat_uint_eq)

lemma zigzag_unat: "unat (zigzag v) = zigzag_int (sint v)"
proof (cases "sint v < 0")
  case True
  have "zigzag v = NOT (2 * of_int (sint v))"
    using True by (simp add: zigzag_def word_sless_alt push_bit_eq_mult mult.commute)
  also have "\<dots> = of_int (- 2 * sint v - 1)"
    by (simp add: not_eq_complement)
  finally show ?thesis
    using True sint_ge [of v] by (simp add: zigzag_int_def unat_of_int64 del: of_int_diff of_int_mult)
next
  case False
  have "zigzag v = 2 * of_int (sint v)"
    using False by (simp add: zigzag_def word_sless_alt push_bit_eq_mult mult.commute)
  also have "\<dots> = of_int (2 * sint v)"
    by simp
  finally show ?thesis
    using False sint_lt [of v] by (simp add: zigzag_int_def unat_of_int64 del: of_int_mult)
qed

lemma word_le_bytes_mem:
  "word_le_bytes 4 (load32 m p) = mem_bytes m p 4" "word_le_bytes 8 (load64 m p) = mem_bytes m p 8"
  using word_bytes_le [of "mem_bytes m p 4", where 'a = 32] word_bytes_le [of "mem_bytes m p 8", where 'a = 64]
  by (simp_all add: load32_def load64_def)

context byte_sink
begin

lemma denotes_wok: "emits emb app f bs \<Longrightarrow> denotes emb app f (wok bs)"
  by (simp add: denotes_def wok_def)

lemma denotes_OkD: "denotes emb app f (Ok bs u) \<Longrightarrow> emits emb app f bs \<and> length bs < 2 ^ 63"
  by (simp add: denotes_def)

lemma denotes_then:
  assumes f: "denotes emb app f a" and g: "denotes emb app g b"
  shows "denotes emb app (mthen f g) (wcat a b)"
proof (cases a)
  case (Ok x u)
  note a = this
  then have fx: "emits emb app f x" using f by (simp add: denotes_def)
  show ?thesis
  proof (cases b)
    case (Ok y v)
    then show ?thesis
      using a g emits_then [OF fx] by (simp add: wcat_def denotes_OkD denotes_wok)
  next
    case (Fail v)
    then show ?thesis
      using a g rejects_later [OF fx] by (simp add: wcat_def denotes_def)
  qed (use a in \<open>simp_all add: wcat_def denotes_def\<close>)
next
  case (Fail u)
  then show ?thesis
    using f rejects_then by (simp add: wcat_def denotes_def)
qed (simp_all add: wcat_def denotes_def)

lemma denotes_return: "denotes emb app (mreturn ()) (wok [])"
  by (rule denotes_wok [OF emits_return])

lemma denotes_error: "denotes emb app (oerror msg) (Fail ())"
  by (simp add: denotes_def rejects_error)

lemma denotes_undef: "denotes emb app f Undef" "denotes emb app f Fuel"
  by (simp_all add: denotes_def)

lemma denotes_string:
  "unat len = length buffer \<Longrightarrow> denotes emb app (pb_encode_string buffer len) (wok (wire_string buffer))"
  by (rule denotes_wok [OF emits_string])

lemmas denotes_prims = denotes_return denotes_error denotes_undef denotes_string
  denotes_wok [OF emits_varint] denotes_wok [OF emits_svarint]
  denotes_wok [OF emits_fixed32] denotes_wok [OF emits_fixed64]

lemma emits_submessage:
  assumes enc: "emits emb app (enc mid src) bs" and bs: "length bs < 2 ^ 63"
  shows "emits emb app (pb_encode_submessage enc mid src) (wire_string bs)"
proof -
  define len where "len = (of_nat (length bs) :: u64)"
  have ulen: "unat len = length bs"
    using bs by (simp add: len_def unat_of_nat_addr)
  have sizing: "enc mid src PB_OSTREAM_SIZING = Ok () (counted (length bs) PB_OSTREAM_SIZING)"
    by (rule emitsD_null [OF enc]) simp_all
  have unfolded: "pb_encode_submessage enc mid src
      = mthen (pb_encode_varint len) (submessage_write enc mid src len)"
    by (rule ext) (simp add: pb_encode_submessage_def sizing len_def)
  have "emits emb app (submessage_write enc mid src len) bs"
    unfolding emits_def
  proof (intro conjI allI impI)
    fix s :: "'u pb_ostream"
    assume "os_sink s = NullSink \<and> os_errmsg s = None"
    then show "submessage_write enc mid src len s = Ok () (counted (length bs) s)"
      by (simp add: submessage_write_def pb_write_def counted_def len_def)
  next
    fix s :: "'u pb_ostream" and st
    assume s: "os_sink s = emb st \<and> stream_ready s \<and> length bs \<le> room s"
    then have "unat (bytes_written s + len) = unat (bytes_written s) + length bs"
      by (simp add: len_def unat_bytes_written_add)
    then have fits: "\<not> max_size s < bytes_written s + len"
      using s by (auto simp: word_less_nat_alt room_def stream_ready_def word_le_nat_alt)
    define inner where "inner = \<lparr>os_sink = os_sink s, max_size = len, bytes_written = 0, os_errmsg = None\<rparr>"
    have "stream_ready inner" "room inner = length bs"
      by (simp_all add: inner_def stream_ready_def room_def ulen)
    then have "enc mid src inner = Ok () (counted (length bs) (inner\<lparr>os_sink := emb (app st bs)\<rparr>))"
      using s by (intro emitsD_room [OF enc]) (simp_all add: inner_def)
    then show "submessage_write enc mid src len s
        = Ok () (counted (length bs) (s\<lparr>os_sink := emb (app st bs)\<rparr>))"
      using s fits emb_not_null
      by (simp add: submessage_write_def submessage_finish_def inner_def counted_def len_def stream_ready_def)
  next
    fix s :: "'u pb_ostream" and st
    assume s: "os_sink s = emb st \<and> limited s \<and> room s < length bs"
    have "unat (bytes_written s) < 2 ^ 63"
      using s by (auto simp: limited_def stream_ready_def word_le_nat_alt)
    then have "unat (bytes_written s + len) = unat (bytes_written s) + length bs"
      using bs ulen unat_add_lem [of "bytes_written s" len] by simp
    then have "max_size s < bytes_written s + len"
      using s by (auto simp: word_less_nat_alt room_def)
    then show "\<exists>s' k. submessage_write enc mid src len s = Fail s' \<and> k \<le> room s \<and>
        os_sink s' = emb (app st (take k bs))"
      using s emb_not_null
      by (auto simp: submessage_write_def oerror_def app_nil intro!: exI [of _ "0 :: nat"])
  qed
  from emits_then [OF emits_varint [of len] this] show ?thesis
    by (simp add: unfolded wire_string_def ulen)
qed

lemma denotes_submessage:
  assumes enc: "denotes emb app (enc mid src) w"
  shows "denotes emb app (pb_encode_submessage enc mid src) (wsub w)"
proof (cases w)
  case (Ok bs u)
  then have "emits emb app (enc mid src) bs" "length bs < 2 ^ 63"
    using enc by (simp_all add: denotes_def)
  then show ?thesis
    using Ok by (simp add: wsub_def denotes_wok emits_submessage)
next
  case (Fail u)
  then have "rejects emb app (enc mid src)"
    using enc by (simp add: denotes_def)
  then obtain sub where "enc mid src PB_OSTREAM_SIZING = Fail sub"
    unfolding rejects_def by (metis sizing_sel(1,3))
  then show ?thesis
    using Fail by (auto simp: wsub_def denotes_def rejects_def pb_encode_submessage_def app_nil
        intro!: exI [of _ "[]"])
qed (simp_all add: wsub_def denotes_def)

lemma denotes_if:
  "(c \<Longrightarrow> denotes emb app f a) \<Longrightarrow> (\<not> c \<Longrightarrow> denotes emb app g b) \<Longrightarrow>
   denotes emb app (if c then f else g) (if c then a else b)"
  by simp

lemma denotes_tag_for: "denotes emb app (pb_encode_tag_for_field field) (wire_tag_for field)"
proof (cases "field_wiretype (PB_LTYPE (ftype field))")
  case None
  then show ?thesis
    by (simp add: pb_encode_tag_for_field_def wire_tag_for_def denotes_error)
next
  case (Some wt)
  then have "wt < 8"
    by (auto simp: field_wiretype_def wt_defs split: if_splits)
  then show ?thesis
    using Some by (simp add: pb_encode_tag_for_field_def wire_tag_for_def denotes_wok emits_tag)
qed

lemma denotes_bytes:
  "denotes emb app (pb_enc_bytes env field p) (wire_bytes_field (ee_mem env) field p)"
proof -
  have "unat (ucast n :: u64) = unat n" for n :: u32
    by (simp add: unsigned_ucast_eq take_bit_nat_eq_self unat_less32 less_trans [OF unat_less32])
  then show ?thesis
    unfolding pb_enc_bytes_def wire_bytes_field_def Let_def
    by (intro denotes_if denotes_error denotes_string) simp_all
qed

lemma denotes_cstring:
  "denotes emb app (pb_enc_string env field p)
     (wok (wire_string (if p = 0 then []
        else c_string (ee_mem env) p (if PB_ATYPE (ftype field) = PB_ATYPE_POINTER then 2 ^ 64 - 1
                           else unat (data_size field)))))"
proof -
  define mx :: u64 where
    "mx = (if PB_ATYPE (ftype field) = PB_ATYPE_POINTER then - 1 else ucast (data_size field))"
  have mx: "unat mx = (if PB_ATYPE (ftype field) = PB_ATYPE_POINTER then 2 ^ 64 - 1
                           else unat (data_size field))"
    by (simp add: mx_def unsigned_ucast_eq take_bit_nat_eq_self less_trans [OF unat_less32]
        unsigned_minus_1_eq_mask mask_eq_exp_minus_1)
  show ?thesis
    using strnlen_c_string [of 0 mx "ee_mem env" p] c_string_prefix [of "ee_mem env" p "unat mx"]
    unfolding pb_enc_string_def Let_def mx_def [symmetric] mx [symmetric]
    by (cases "p = 0") (auto intro!: denotes_string)
qed

lemma denotes_varint01:
  "denotes emb app (pb_encode_varint 0) (wok (varint_bytes 0))"
  "denotes emb app (pb_encode_varint 1) (wok (varint_bytes (Suc 0)))"
  using denotes_wok [OF emits_varint [of 0]] denotes_wok [OF emits_varint [of 1]] by simp_all

lemma denotes_value:
  assumes enc: "\<And>mid p. denotes emb app (enc mid p) (encw mid p)"
  shows "denotes emb app (PB_ENCODERS env enc lt field p) (wire_value (ee_mem env) encw lt field p)"
  unfolding PB_ENCODERS_def wire_value_def
  by (intro denotes_if)
    (auto simp: pb_enc_bool_def safe_read_bool_def pb_enc_varint_def pb_enc_uvarint_def
      pb_enc_svarint_def pb_enc_fixed32_def pb_enc_fixed64_def pb_enc_submessage_def
      pb_enc_fixed_length_bytes_def denotes_bytes denotes_cstring denotes_prims
      unsigned_ucast_eq take_bit_nat_eq_self less_trans [OF unat_less32]
      zigzag_unat [symmetric] word_le_bytes_mem [symmetric]
      intro: denotes_submessage [OF enc] denotes_prims denotes_varint01
      split: option.splits field_ptr.splits)

subsection \<open>Arrays\<close>

lemma denotes_items:
  "(\<And>p. denotes emb app (func field p) (w p)) \<Longrightarrow>
   denotes emb app (encode_items func field n p) (wire_items w (data_size field) n p)"
  by (induction n arbitrary: p) (simp_all add: denotes_return denotes_then)

lemma emits_packed:
  assumes items: "emits emb app (encode_items func field (unat count) p) bs"
    and sz: "packed_size func field p count = Ok (of_nat (length bs)) u" and bs: "length bs < 2 ^ 63"
  shows "emits emb app (encode_packed func field p count) (wire_string bs)"
proof -
  define len where "len = (of_nat (length bs) :: u64)"
  have ulen: "unat len = length bs"
    using bs by (simp add: len_def unat_of_nat_addr)
  have unfolded: "encode_packed func field p count
      = mthen (pb_encode_varint len) (packed_write func field p count len)"
    by (rule ext) (simp add: encode_packed_def sz len_def)
  have "emits emb app (packed_write func field p count len) bs"
    using items emb_not_null
    by (auto simp: emits_def packed_write_def pb_write_def counted_def len_def)
  from emits_then [OF emits_varint [of len] this] show ?thesis
    by (simp add: unfolded wire_string_def ulen)
qed

lemma wire_items_fixed:
  "(\<And>p. w p = wok (mem_bytes m p k)) \<Longrightarrow> wire_items w d n p = Ok bs u \<Longrightarrow> length bs = k * n"
  by (induction n arbitrary: p bs u) (auto simp: wcat_def wok_Ok split: outcome.splits)

lemma wire_items_no_Fail:
  "(\<And>p u. w p \<noteq> Fail u) \<Longrightarrow> wire_items w d n p \<noteq> Fail u"
  by (induction n arbitrary: p u) (auto simp: wcat_def wok_def split: outcome.splits)

text \<open>The packed encoding of a packable type, whose item size may be known in advance.\<close>

lemma denotes_packed:
  assumes enc: "\<And>p. denotes emb app (func field p) (w p)"
    and f32: "PB_LTYPE (ftype field) = PB_LTYPE_FIXED32 \<Longrightarrow> w = (\<lambda>p. wok (mem_bytes m p 4))"
    and f64: "PB_LTYPE (ftype field) = PB_LTYPE_FIXED64 \<Longrightarrow> w = (\<lambda>p. wok (mem_bytes m p 8))"
  shows "denotes emb app (encode_packed func field p count)
    (wsub (wire_items w (data_size field) (unat count) p))"
proof (cases "wire_items w (data_size field) (unat count) p")
  case (Ok bs u)
  have items: "emits emb app (encode_items func field (unat count) p) bs" and bs: "length bs < 2 ^ 63"
    using denotes_items [where func = func and w = w and n = "unat count" and p = p, OF enc] Ok
    by (simp_all add: denotes_def)
  have "encode_items func field (unat count) p PB_OSTREAM_SIZING
      = Ok () (counted (length bs) PB_OSTREAM_SIZING)"
    by (rule emitsD_null [OF items]) simp_all
  moreover have "length bs = 4 * unat count" if "PB_LTYPE (ftype field) = PB_LTYPE_FIXED32"
    using wire_items_fixed [OF fun_cong [OF f32 [OF that]] Ok] .
  moreover have "length bs = 8 * unat count" if "PB_LTYPE (ftype field) = PB_LTYPE_FIXED64"
    using wire_items_fixed [OF fun_cong [OF f64 [OF that]] Ok] .
  ultimately have "packed_size func field p count = Ok (of_nat (length bs)) ()"
    by (simp add: packed_size_def)
  from emits_packed [OF items this bs] Ok show ?thesis
    by (simp add: wsub_def denotes_wok)
next
  case (Fail u)
  have rej: "rejects emb app (encode_items func field (unat count) p)"
    using denotes_items [where func = func and w = w and n = "unat count" and p = p, OF enc] Fail
    by (simp add: denotes_def)
  then obtain s' where "encode_items func field (unat count) p PB_OSTREAM_SIZING = Fail s'"
    unfolding rejects_def by (metis sizing_sel(1,3))
  moreover have "PB_LTYPE (ftype field) \<noteq> PB_LTYPE_FIXED32" "PB_LTYPE (ftype field) \<noteq> PB_LTYPE_FIXED64"
    using Fail wire_items_no_Fail [of "\<lambda>p. wok (mem_bytes m p 4)"]
      wire_items_no_Fail [of "\<lambda>p. wok (mem_bytes m p 8)"]
    by (auto simp: wok_def dest!: f32 f64 split: if_splits)
  ultimately have "packed_size func field p count = Fail ()"
    by (simp add: packed_size_def)
  then show ?thesis
    using Fail by (auto simp: wsub_def denotes_def rejects_def encode_packed_def app_nil
        intro!: exI [of _ "[]"])
qed (simp_all add: wsub_def denotes_def)

lemma denotes_array:
  assumes enc: "\<And>p. denotes emb app (func field p) (w p)"
    and f32: "PB_LTYPE (ftype field) = PB_LTYPE_FIXED32 \<Longrightarrow> w = (\<lambda>p. wok (mem_bytes m p 4))"
    and f64: "PB_LTYPE (ftype field) = PB_LTYPE_FIXED64 \<Longrightarrow> w = (\<lambda>p. wok (mem_bytes m p 8))"
  shows "denotes emb app (encode_array m field p (ucast (count :: u32)) func)
    (wire_array m w field p (unat count))"
proof -
  have u: "unat (ucast count :: u64) = unat count"
    by (simp add: unsigned_ucast_eq take_bit_nat_eq_self less_trans [OF unat_less32])
  have c0: "(ucast count :: u64) = 0 \<longleftrightarrow> unat count = 0"
    by (simp add: word_unat_eq_iff u)
  have lt: "(ucast (array_size field) < (ucast count :: u64)) \<longleftrightarrow> unat (array_size field) < unat count"
    by (simp add: word_less_nat_alt u unsigned_ucast_eq take_bit_nat_eq_self less_trans [OF unat_less32])
  have tag: "denotes emb app (pb_encode_tag PB_WT_STRING (tag field)) (wok (wire_tag (unat (tag field)) 2))"
    using emits_tag [of PB_WT_STRING "tag field"] by (simp add: wt_defs denotes_wok)
  have item: "denotes emb app (item_encoder m func field p) (wire_item m w field p)" for p
    using enc unfolding item_encoder_def wire_item_def by (intro denotes_then denotes_tag_for) auto
  show ?thesis
    unfolding encode_array_def wire_array_def c0 lt
    using denotes_packed [where func = func and w = w and m = m and field = field and p = p
        and count = "ucast count", OF enc f32 f64] tag item u
    by (auto intro: denotes_return denotes_error denotes_then denotes_items)
qed

subsection \<open>Fields and messages\<close>

lemma denotes_callback:
  assumes "denotes emb app (ee_callback env fn field a) w"
  shows "denotes emb app
    (\<lambda>s. case ee_callback env fn field a s of Fail s' \<Rightarrow> oerror ''callback error'' s' | r \<Rightarrow> r) w"
proof (cases w)
  case (Ok bs u)
  then have f: "emits emb app (ee_callback env fn field a) bs" and "length bs < 2 ^ 63"
    using assms by (simp_all add: denotes_def)
  moreover have "emits emb app
      (\<lambda>s. case ee_callback env fn field a s of Fail s' \<Rightarrow> oerror ''callback error'' s' | r \<Rightarrow> r) bs"
    unfolding emits_def
  proof (intro conjI allI impI)
    fix s :: "'u pb_ostream" and st
    assume s: "os_sink s = emb st \<and> limited s \<and> room s < length bs"
    then obtain s' k where "ee_callback env fn field a s = Fail s'" "k \<le> room s"
      "os_sink s' = emb (app st (take k bs))"
      using emitsD_full [OF f, of s st] by auto
    then show "\<exists>s' k. (case ee_callback env fn field a s of Fail s' \<Rightarrow> oerror ''callback error'' s' | r \<Rightarrow> r)
        = Fail s' \<and> k \<le> room s \<and> os_sink s' = emb (app st (take k bs))"
      by (auto simp: oerror_def)
  qed (simp_all add: emitsD_null [OF f] emitsD_room [OF f])
  ultimately show ?thesis
    using Ok by (simp add: denotes_def)
next
  case (Fail u)
  then show ?thesis
    using assms by (fastforce simp: denotes_def rejects_def oerror_def)
qed (simp_all add: denotes_def)

lemma denotes_basic_field:
  assumes enc: "\<And>mid p. denotes emb app (enc mid p) (encw mid p)"
    and env: "we_mem wenv = ee_mem env" "we_descs wenv = ee_descs env" "we_steps wenv = ee_steps env"
  shows "denotes emb app (encode_basic_field env enc field p) (wire_basic_field wenv encw field p)"
proof -
  let ?v = "wire_value (ee_mem env) encw (PB_LTYPE (ftype field)) field"
  let ?f = "PB_ENCODERS env enc (PB_LTYPE (ftype field))"
  have val: "denotes emb app (?f field q) (?v q)" for q
    by (rule denotes_value [OF enc])
  have both: "denotes emb app (mthen (pb_encode_tag_for_field field) (?f field q))
      (wcat (wire_tag_for field) (?v q))" for q
    by (rule denotes_then [OF denotes_tag_for val])
  have array: "denotes emb app (encode_array (ee_mem env) field q (ucast n) ?f)
      (wire_array (ee_mem env) ?v field q (unat n))" for q and n :: u32
    by (rule denotes_array) (simp_all add: val, simp_all add: fun_eq_iff wire_value_def ltype_defs)
  have htype: "PB_HTYPE (ftype field) = PB_HTYPE_REQUIRED \<or> PB_HTYPE (ftype field) = PB_HTYPE_OPTIONAL \<or>
      PB_HTYPE (ftype field) = PB_HTYPE_REPEATED \<or> PB_HTYPE (ftype field) = PB_HTYPE_ONEOF"
    by (rule htype_cases)
  have distinct: "PB_HTYPE_REQUIRED \<noteq> PB_HTYPE_OPTIONAL" "PB_HTYPE_OPTIONAL \<noteq> PB_HTYPE_REPEATED"
    "PB_HTYPE_OPTIONAL \<noteq> PB_HTYPE_ONEOF" "PB_HTYPE_REQUIRED \<noteq> PB_HTYPE_REPEATED"
    "PB_HTYPE_REQUIRED \<noteq> PB_HTYPE_ONEOF" "PB_HTYPE_REPEATED \<noteq> PB_HTYPE_ONEOF"
    by (simp_all add: htype_defs)
  show ?thesis
    using htype distinct array both
    by (auto simp: encode_basic_field_def wire_basic_field_def env Let_def safe_read_bool_def
        denotes_return denotes_error denotes_undef split: option.splits)
qed

lemma denotes_field:
  assumes enc: "\<And>mid p. denotes emb app (enc mid p) (encw mid p)"
    and env: "env_refines emb app env wenv"
  shows "denotes emb app (encode_field env enc field p) (wire_field wenv encw field p)"
proof -
  have cb: "denotes emb app (encode_callback_field env field p)
      (let fn = load64 (ee_mem env) p in if fn \<noteq> 0 then we_callback wenv fn field (p + 8) else wok [])"
  proof (cases "load64 (ee_mem env) p = 0")
    case True
    then have "encode_callback_field env field p = mreturn ()"
      by (auto simp: encode_callback_field_def)
    then show ?thesis using True by (simp add: denotes_return)
  next
    case False
    then have "encode_callback_field env field p = (\<lambda>s. case ee_callback env (load64 (ee_mem env) p) field (p + 8) s
        of Fail s' \<Rightarrow> oerror ''callback error'' s' | r \<Rightarrow> r)"
      by (auto simp: encode_callback_field_def Let_def split: outcome.splits)
    then show ?thesis
      using False env by (simp add: env_refines_def denotes_callback)
  qed
  moreover have "denotes emb app (encode_basic_field env enc field p) (wire_basic_field wenv encw field p)"
    using env by (intro denotes_basic_field enc) (simp_all add: env_refines_def)
  ultimately show ?thesis
    using env unfolding encode_field_def wire_field_def
    by (auto simp: env_refines_def denotes_error)
qed

lemma denotes_extensions:
  assumes enc: "\<And>mid p. denotes emb app (enc mid p) (encw mid p)"
    and env: "env_refines emb app env wenv"
  shows "denotes emb app (encode_extensions env enc n e) (wire_extensions wenv encw n e)"
proof (induction n arbitrary: e)
  case 0
  then show ?case by (simp add: denotes_return denotes_undef)
next
  case (Suc n)
  have field: "denotes emb app (encode_field env enc f p) (wire_field wenv encw f p)" for f p
    by (rule denotes_field [OF enc env])
  show ?case
    using env field
    by (auto simp: denotes_return Let_def env_refines_def default_extension_encoder_def
        intro!: denotes_then Suc.IH)
qed

lemma denotes_fields:
  assumes enc: "\<And>mid p. denotes emb app (enc mid p) (encw mid p)"
    and env: "env_refines emb app env wenv"
  shows "denotes emb app (encode_fields env enc its)
    (wire_fields wenv encw (map (\<lambda>it. (it_field it, pData it)) its))"
proof (induction its)
  case Nil
  then show ?case by (simp add: denotes_return)
next
  case (Cons it its)
  have "we_steps wenv = ee_steps env" "we_mem wenv = ee_mem env"
    using env by (simp_all add: env_refines_def)
  then show ?case
    using denotes_extensions [OF enc env] denotes_field [OF enc env]
    by (auto simp: encode_extension_field_def intro!: denotes_then Cons.IH)
qed

theorem denotes_message:
  assumes env: "env_refines emb app env wenv"
  shows "denotes emb app (pb_encode env n mid src) (wire_message wenv n mid src)"
proof (induction n arbitrary: mid src)
  case 0
  then show ?case by (simp add: denotes_undef)
next
  case (Suc n)
  have "map (\<lambda>it. (it_field it, pData it)) (field_iters (ee_descs env mid) src)
      = field_places (ee_descs env mid) src"
    by (simp add: field_iters_eq field_places_def it_field_iter_at)
  then show ?case
    using denotes_fields [OF Suc.IH env, where its = "field_iters (ee_descs env mid) src"] env
    by (simp add: env_refines_def)
qed

end

end
