(* ===== verification/PB_Istream.thy ===== *)
theory PB_Istream
  imports PB_Ostream
begin

unbundle bit_operations_syntax

text \<open>
  The input stream of \<open>pb_decode.c\<close> and its helper functions: reading and skipping bytes,
  varints, tags, fixed-width values, substreams. As for output, callback and state are one
  value: \<open>buf_read\<close> on a memory buffer, or a user callback on its own state. What the
  decoders need of a callback is the locale \<open>byte_source\<close>. Proved here: nothing reads past
  \<open>bytes_left\<close>, each reader consumes exactly what it uses, and the readers invert the
  writers of \<open>pb_encode.c\<close>.
\<close>

section \<open>Streams\<close>

record ibuf =
  ib_mem :: mem
  ib_ptr :: addr

text \<open>A read returns false (\<open>None\<close>) or stores \<open>count\<close> bytes; a user callback is given a buffer of
  \<open>count\<close> bytes, so that more than these are never taken from it.\<close>

datatype 'u in_source =
  BufSource ibuf
| UserSource "'u \<Rightarrow> u64 \<Rightarrow> byte list option \<times> 'u" 'u

record 'u pb_istream =
  is_source :: "'u in_source"
  bytes_left :: u64
  is_errmsg :: "string option"

definition set_ierror :: "string \<Rightarrow> 'u pb_istream \<Rightarrow> 'u pb_istream" where
  "set_ierror msg s =
     s\<lparr>is_errmsg := (case is_errmsg s of Some m \<Rightarrow> Some m | None \<Rightarrow> Some msg)\<rparr>"

definition ierror :: "string \<Rightarrow> 'u pb_istream \<Rightarrow> ('a, 'u pb_istream) outcome" where
  "ierror msg s = Fail (set_ierror msg s)"

definition buf_read :: "ibuf \<Rightarrow> u64 \<Rightarrow> byte list option \<times> ibuf" where
  "buf_read st count =
     (Some (mem_bytes (ib_mem st) (ib_ptr st) (unat count)), st\<lparr>ib_ptr := ib_ptr st + count\<rparr>)"

definition is_buf_read :: "'u in_source \<Rightarrow> bool" where
  "is_buf_read src = (case src of BufSource _ \<Rightarrow> True | UserSource _ _ \<Rightarrow> False)"

definition source_read :: "'u in_source \<Rightarrow> u64 \<Rightarrow> byte list option \<times> 'u in_source" where
  "source_read src count =
     (case src of
        BufSource st \<Rightarrow> (case buf_read st count of (r, st') \<Rightarrow> (r, BufSource st'))
      | UserSource cb st \<Rightarrow>
          (case cb st count of (r, st') \<Rightarrow> (map_option (take (unat count)) r, UserSource cb st')))"

definition pb_istream_from_buffer :: "mem \<Rightarrow> addr \<Rightarrow> u64 \<Rightarrow> 'u pb_istream" where
  "pb_istream_from_buffer m buf bufsize =
     \<lparr>is_source = BufSource \<lparr>ib_mem = m, ib_ptr = buf\<rparr>, bytes_left = bufsize, is_errmsg = None\<rparr>"

type_synonym ('a, 'u) in_action = "'u pb_istream \<Rightarrow> ('a, 'u pb_istream) outcome"

text \<open>\<open>pb_read\<close> into a buffer.\<close>

definition pb_read :: "u64 \<Rightarrow> (byte list, 'u) in_action" where
  "pb_read count s =
     (if count = 0 then Ok [] s
      else if bytes_left s < count then ierror ''end-of-stream'' s
      else case source_read (is_source s) count of
             (None, src) \<Rightarrow> ierror ''io error'' (s\<lparr>is_source := src\<rparr>)
           | (Some buf, src) \<Rightarrow> Ok buf (s\<lparr>is_source := src, bytes_left := bytes_left s - count\<rparr>))"

text \<open>\<open>pb_read\<close> with a null buffer skips: \<open>buf_read\<close> in one step, any other callback in blocks
  of sixteen bytes.\<close>

function skip_loop :: "u64 \<Rightarrow> (unit, 'u) in_action" where
  "skip_loop count =
     (if 16 < count then mbind (pb_read 16) (\<lambda>_. skip_loop (count - 16))
      else mbind (pb_read count) (\<lambda>_. mreturn ()))"
  by pat_completeness auto
termination
proof (relation "measure unat")
  fix count :: u64
  assume "16 < count"
  then show "(count - 16, count) \<in> measure unat"
    by (simp add: unat_sub word_less_nat_alt word_le_nat_alt)
qed simp

declare skip_loop.simps [simp del]

definition pb_skip_bytes :: "u64 \<Rightarrow> (unit, 'u) in_action" where
  "pb_skip_bytes count s =
     (if count = 0 then Ok () s
      else if \<not> is_buf_read (is_source s) then skip_loop count s
      else mbind (pb_read count) (\<lambda>_. mreturn ()) s)"

definition pb_readbyte :: "(byte, 'u) in_action" where
  "pb_readbyte s =
     (if bytes_left s = 0 then ierror ''end-of-stream'' s
      else case source_read (is_source s) 1 of
             (None, src) \<Rightarrow> ierror ''io error'' (s\<lparr>is_source := src\<rparr>)
           | (Some buf, src) \<Rightarrow> Ok (hd buf) (s\<lparr>is_source := src, bytes_left := bytes_left s - 1\<rparr>))"

lemma readbyte_less: "pb_readbyte s = Ok b s' \<Longrightarrow> unat (bytes_left s') < unat (bytes_left s)"
  by (auto simp: pb_readbyte_def ierror_def measure_unat split: if_splits prod.splits option.splits)

section \<open>Varints\<close>

text \<open>
  The loop of \<open>pb_decode_varint32_eof\<close> after a first byte with the top bit set. \<open>bitpos\<close> is a
  \<open>uint_fast8_t\<close>, one byte wide on the target, so it wraps around at 256.
\<close>

function varint32_loop :: "u32 \<Rightarrow> byte \<Rightarrow> (u32 \<times> byte \<times> byte, 'u) in_action" where
  "varint32_loop result bitpos s =
     (case pb_readbyte s of
        Ok byte s' \<Rightarrow>
          if 32 \<le> bitpos then
            let sign_extension = (if bitpos < 63 then 0xFF else 0x01) in
            if byte AND 0x7F \<noteq> 0 \<and> (drop_bit 31 result = 0 \<or> byte \<noteq> sign_extension)
            then ierror ''varint overflow'' s'
            else if byte AND 0x80 \<noteq> 0 then varint32_loop result (bitpos + 7) s'
            else Ok (result, bitpos + 7, byte) s'
          else
            let result = result OR push_bit (unat bitpos) (ucast (byte AND 0x7F)) in
            if byte AND 0x80 \<noteq> 0 then varint32_loop result (bitpos + 7) s'
            else Ok (result, bitpos + 7, byte) s'
      | Fail s' \<Rightarrow> Fail s' | Undef \<Rightarrow> Undef | Fuel \<Rightarrow> Fuel)"
  by pat_completeness auto
termination
  by (relation "measure (\<lambda>(r, b, s). unat (bytes_left s))") (auto dest: readbyte_less)

declare varint32_loop.simps [simp del]

text \<open>\<open>eof\<close> is set only when the very first byte is missing; it is part of the failure.\<close>

definition pb_decode_varint32_eof :: "'u pb_istream \<Rightarrow> (u32, 'u pb_istream) outcome \<times> bool" where
  "pb_decode_varint32_eof s =
     (case pb_readbyte s of
        Fail s' \<Rightarrow> (Fail s', bytes_left s' = 0)
      | Undef \<Rightarrow> (Undef, False)
      | Fuel \<Rightarrow> (Fuel, False)
      | Ok byte s' \<Rightarrow>
          (if byte AND 0x80 = 0 then Ok (ucast byte) s'
           else mbind (varint32_loop (ucast (byte AND 0x7F)) 7)
                  (\<lambda>(result, bitpos, byte) s.
                     if bitpos = 35 \<and> byte AND 0x70 \<noteq> 0 then ierror ''varint overflow'' s
                     else Ok result s) s',
           False))"

definition pb_decode_varint32 :: "(u32, 'u) in_action" where
  "pb_decode_varint32 s = fst (pb_decode_varint32_eof s)"

function varint_loop64 :: "u64 \<Rightarrow> byte \<Rightarrow> (u64, 'u) in_action" where
  "varint_loop64 result bitpos s =
     (if 64 \<le> bitpos then ierror ''varint overflow'' s
      else case pb_readbyte s of
        Ok byte s' \<Rightarrow>
          (let result = result OR push_bit (unat bitpos) (ucast (byte AND 0x7F)) in
           if byte AND 0x80 \<noteq> 0 then varint_loop64 result (bitpos + 7) s' else Ok result s')
      | Fail s' \<Rightarrow> Fail s' | Undef \<Rightarrow> Undef | Fuel \<Rightarrow> Fuel)"
  by pat_completeness auto
termination
  by (relation "measure (\<lambda>(r, b, s). unat (bytes_left s))") (auto dest: readbyte_less)

declare varint_loop64.simps [simp del]

definition pb_decode_varint :: "(u64, 'u) in_action" where
  "pb_decode_varint = varint_loop64 0 0"

definition unzigzag :: "u64 \<Rightarrow> 64 word" where
  "unzigzag v = (if v AND 1 \<noteq> 0 then NOT (drop_bit 1 v) else drop_bit 1 v)"

definition pb_decode_svarint :: "(64 word, 'u) in_action" where
  "pb_decode_svarint = mbind pb_decode_varint (\<lambda>v. mreturn (unzigzag v))"

section \<open>Skipping, tags, fixed-width values\<close>

lemma read_less: "pb_read n s = Ok buf s' \<Longrightarrow> n \<noteq> 0 \<Longrightarrow> unat (bytes_left s') < unat (bytes_left s)"
  using unat_gt_0 [of n] unat_gt_0 [of "bytes_left s"]
  by (auto simp: pb_read_def ierror_def unat_sub word_le_nat_alt not_less
      split: if_splits prod.splits option.splits)

function pb_skip_varint :: "(unit, 'u) in_action" where
  "pb_skip_varint s =
     (case pb_read 1 s of
        Ok buf s' \<Rightarrow> if hd buf AND 0x80 \<noteq> 0 then pb_skip_varint s' else Ok () s'
      | Fail s' \<Rightarrow> Fail s' | Undef \<Rightarrow> Undef | Fuel \<Rightarrow> Fuel)"
  by pat_completeness auto
termination
  by (relation "measure (\<lambda>s. unat (bytes_left s))") (auto dest: read_less)

declare pb_skip_varint.simps [simp del]

definition pb_skip_string :: "(unit, 'u) in_action" where
  "pb_skip_string = mbind pb_decode_varint32 (\<lambda>len. pb_skip_bytes (ucast len))"

text \<open>The tag and the wire type; \<open>eof\<close> tells a clean end (no byte left, or a zero byte)
  from an error.\<close>

definition pb_decode_tag :: "'u pb_istream \<Rightarrow> (u32 \<times> u32, 'u pb_istream) outcome \<times> bool" where
  "pb_decode_tag s =
     (case pb_decode_varint32_eof s of
        (Ok temp s', _) \<Rightarrow>
          if temp = 0 then (Fail s', True) else (Ok (drop_bit 3 temp, temp AND 7) s', False)
      | (Fail s', eof) \<Rightarrow> (Fail s', eof)
      | (Undef, _) \<Rightarrow> (Undef, False)
      | (Fuel, _) \<Rightarrow> (Fuel, False))"

definition pb_skip_field :: "u32 \<Rightarrow> (unit, 'u) in_action" where
  "pb_skip_field wire_type =
     (if wire_type = PB_WT_VARINT then pb_skip_varint
      else if wire_type = PB_WT_64BIT then pb_skip_bytes 8
      else if wire_type = PB_WT_STRING then pb_skip_string
      else if wire_type = PB_WT_32BIT then pb_skip_bytes 4
      else ierror ''invalid wire_type'')"

text \<open>The bytes of a varint, at most \<open>max_size\<close> of them.\<close>

fun raw_varint_loop :: "nat \<Rightarrow> byte list \<Rightarrow> (byte list, 'u) in_action" where
  "raw_varint_loop 0 buf s = Fail s"
| "raw_varint_loop (Suc n) buf s =
     mbind (pb_read 1)
       (\<lambda>b. if hd b AND 0x80 \<noteq> 0 then raw_varint_loop n (buf @ [hd b]) else mreturn (buf @ [hd b])) s"

definition read_raw_value :: "u32 \<Rightarrow> nat \<Rightarrow> (byte list, 'u) in_action" where
  "read_raw_value wire_type mx =
     (if wire_type = PB_WT_VARINT then raw_varint_loop mx []
      else if wire_type = PB_WT_64BIT then pb_read 8
      else if wire_type = PB_WT_32BIT then pb_read 4
      else ierror ''invalid wire_type'')"

definition pb_decode_fixed32 :: "(u32, 'u) in_action" where
  "pb_decode_fixed32 =
     mbind (pb_read 4)
       (\<lambda>bytes. mreturn (ucast (bytes ! 0) OR push_bit 8 (ucast (bytes ! 1)) OR
          push_bit 16 (ucast (bytes ! 2)) OR push_bit 24 (ucast (bytes ! 3))))"

definition pb_decode_fixed64 :: "(u64, 'u) in_action" where
  "pb_decode_fixed64 =
     mbind (pb_read 8)
       (\<lambda>bytes. mreturn (ucast (bytes ! 0) OR push_bit 8 (ucast (bytes ! 1)) OR
          push_bit 16 (ucast (bytes ! 2)) OR push_bit 24 (ucast (bytes ! 3)) OR
          push_bit 32 (ucast (bytes ! 4)) OR push_bit 40 (ucast (bytes ! 5)) OR
          push_bit 48 (ucast (bytes ! 6)) OR push_bit 56 (ucast (bytes ! 7))))"

section \<open>Substreams\<close>

text \<open>A substream is a copy of the stream that ends after the length read from it.\<close>

definition pb_make_string_substream :: "('u pb_istream, 'u) in_action" where
  "pb_make_string_substream =
     mbind pb_decode_varint32
       (\<lambda>len s. if bytes_left s < ucast len then ierror ''parent stream too short'' s
                else Ok (s\<lparr>bytes_left := ucast len\<rparr>) (s\<lparr>bytes_left := bytes_left s - ucast len\<rparr>))"

text \<open>
  The state behind the \<open>state\<close> pointer of a user callback is shared by a stream and its
  substreams; the position in a memory buffer is a copy.
\<close>

definition share_source :: "'u pb_istream \<Rightarrow> 'u pb_istream \<Rightarrow> 'u pb_istream" where
  "share_source sub s =
     (case is_source sub of UserSource cb st \<Rightarrow> s\<lparr>is_source := UserSource cb st\<rparr> | BufSource _ \<Rightarrow> s)"

definition pb_close_string_substream :: "'u pb_istream \<Rightarrow> (unit, 'u) in_action" where
  "pb_close_string_substream substream s =
     (case (if bytes_left substream \<noteq> 0 then pb_skip_bytes (bytes_left substream) substream
            else Ok () substream) of
        Ok _ substream \<Rightarrow>
          Ok () (s\<lparr>is_source := is_source substream, is_errmsg := is_errmsg substream\<rparr>)
      | Fail sub \<Rightarrow> Fail (share_source sub s) | Undef \<Rightarrow> Undef | Fuel \<Rightarrow> Fuel)"

section \<open>Frames\<close>

text \<open>
  \<open>keeps R f\<close>: whether \<open>f\<close> returns true or false, the stream it leaves is related to the
  one it got. A \<open>stream_frame\<close> is a preorder that single reads, error messages and substreams
  keep; then every reader does.
\<close>

definition keeps :: "('s \<Rightarrow> 's \<Rightarrow> bool) \<Rightarrow> ('s \<Rightarrow> ('a, 's) outcome) \<Rightarrow> bool" where
  "keeps R f \<longleftrightarrow>
     (\<forall>s. (case f s of Ok x s' \<Rightarrow> R s s' | Fail s' \<Rightarrow> R s s' | Undef \<Rightarrow> False | Fuel \<Rightarrow> False))"

lemma keepsI:
  "(\<And>s. case f s of Ok x s' \<Rightarrow> R s s' | Fail s' \<Rightarrow> R s s' | Undef \<Rightarrow> False | Fuel \<Rightarrow> False) \<Longrightarrow> keeps R f"
  by (simp add: keeps_def)

lemma keeps_Ok: "keeps R f \<Longrightarrow> f s = Ok x s' \<Longrightarrow> R s s'"
  by (auto simp: keeps_def dest: spec [of _ s])

lemma keeps_Fail: "keeps R f \<Longrightarrow> f s = Fail s' \<Longrightarrow> R s s'"
  by (auto simp: keeps_def dest: spec [of _ s])

lemma keeps_cases:
  assumes "keeps R f"
  obtains (Ok) x s' where "f s = Ok x s'" "R s s'" | (Fail) s' where "f s = Fail s'" "R s s'"
  using assms by (cases "f s") (auto simp: keeps_def dest: spec [of _ s])

locale stream_frame =
  fixes R :: "'u pb_istream \<Rightarrow> 'u pb_istream \<Rightarrow> bool"
  assumes R_refl: "R s s"
    and R_trans: "R s t \<Longrightarrow> R t u \<Longrightarrow> R s u"
    and R_errmsg: "R s (s\<lparr>is_errmsg := e\<rparr>)"
    and R_io_error: "source_read (is_source s) n = (None, src) \<Longrightarrow> n \<noteq> 0 \<Longrightarrow> n \<le> bytes_left s \<Longrightarrow>
      R s (s\<lparr>is_source := src\<rparr>)"
    and R_read: "source_read (is_source s) n = (Some buf, src) \<Longrightarrow> n \<noteq> 0 \<Longrightarrow> n \<le> bytes_left s \<Longrightarrow>
      R s (s\<lparr>is_source := src, bytes_left := bytes_left s - n\<rparr>)"
    and R_reserve: "n \<le> bytes_left s \<Longrightarrow> R s (s\<lparr>bytes_left := bytes_left s - n\<rparr>)"
    and R_substream: "n \<le> bytes_left s \<Longrightarrow> R (s\<lparr>bytes_left := n\<rparr>) t \<Longrightarrow>
      R s (s\<lparr>bytes_left := bytes_left s - n, is_source := is_source t\<rparr>)"
begin

lemma keeps_return: "keeps R (mreturn x)"
  by (simp add: keeps_def R_refl)

lemma keeps_fail: "keeps R Fail"
  by (simp add: keeps_def R_refl)

lemma keeps_error: "keeps R (ierror msg)"
  by (simp add: keeps_def ierror_def set_ierror_def R_errmsg)

lemma keeps_bind:
  assumes f: "keeps R f" and g: "\<And>x. keeps R (g x)"
  shows "keeps R (mbind f g)"
proof (rule keepsI)
  fix s
  show "case mbind f g s of Ok x s' \<Rightarrow> R s s' | Fail s' \<Rightarrow> R s s' | Undef \<Rightarrow> False | Fuel \<Rightarrow> False"
  proof (cases rule: keeps_cases [OF f, of s, case_names Ok Fail])
    case (Ok x t)
    then show ?thesis
      by (cases rule: keeps_cases [OF g, of x t]) (auto simp: mbind_simps intro: R_trans)
  next
    case (Fail t)
    then show ?thesis by (simp add: mbind_simps)
  qed
qed

lemma keeps_if: "keeps R f \<Longrightarrow> keeps R g \<Longrightarrow> keeps R (if c then f else g)"
  by simp

lemma keeps_read: "keeps R (pb_read n)"
proof (rule keepsI)
  fix s :: "'u pb_istream"
  show "case pb_read n s of Ok x s' \<Rightarrow> R s s' | Fail s' \<Rightarrow> R s s' | Undef \<Rightarrow> False | Fuel \<Rightarrow> False"
    using R_io_error [of s n] R_read [of s n]
    by (auto simp: pb_read_def ierror_def set_ierror_def R_refl R_errmsg not_less
        intro: R_trans [OF _ R_errmsg] split: prod.splits option.splits)
qed

lemma keeps_readbyte: "keeps R pb_readbyte"
proof (rule keepsI)
  fix s :: "'u pb_istream"
  have "bytes_left s \<noteq> 0 \<Longrightarrow> 1 \<le> bytes_left s"
    by (metis inc_le word_gt_0 add_0)
  then show "case pb_readbyte s of Ok x s' \<Rightarrow> R s s' | Fail s' \<Rightarrow> R s s' | Undef \<Rightarrow> False | Fuel \<Rightarrow> False"
    using R_io_error [of s 1] R_read [of s 1]
    by (auto simp: pb_readbyte_def ierror_def set_ierror_def R_refl R_errmsg
        intro: R_trans [OF _ R_errmsg] split: prod.splits option.splits)
qed

lemma keeps_skip_loop: "keeps R (skip_loop n)"
proof (induction n rule: skip_loop.induct)
  case (1 n)
  then show ?case
    by (subst skip_loop.simps) (auto intro!: keeps_bind keeps_read keeps_return)
qed

lemma keeps_skip_bytes: "keeps R (pb_skip_bytes n)"
proof (rule keepsI)
  fix s :: "'u pb_istream"
  show "case pb_skip_bytes n s of Ok x s' \<Rightarrow> R s s' | Fail s' \<Rightarrow> R s s' | Undef \<Rightarrow> False | Fuel \<Rightarrow> False"
    using keeps_skip_loop [of n] keeps_bind [OF keeps_read keeps_return, of n "\<lambda>_. ()"]
    by (auto simp: pb_skip_bytes_def R_refl keeps_def)
qed

text \<open>Step lemmas of the loops: what happens after a byte has been read.\<close>

lemma keeps_case_readbyte:
  assumes "\<And>b t. pb_readbyte s = Ok b t \<Longrightarrow> R s t \<Longrightarrow>
    (case k b t of Ok x s' \<Rightarrow> R t s' | Fail s' \<Rightarrow> R t s' | Undef \<Rightarrow> False | Fuel \<Rightarrow> False)"
  shows "case (case pb_readbyte s of Ok b t \<Rightarrow> k b t | Fail t \<Rightarrow> Fail t | Undef \<Rightarrow> Undef | Fuel \<Rightarrow> Fuel)
    of Ok x s' \<Rightarrow> R s s' | Fail s' \<Rightarrow> R s s' | Undef \<Rightarrow> False | Fuel \<Rightarrow> False"
proof (cases rule: keeps_cases [OF keeps_readbyte, of s, case_names Ok Fail])
  case (Ok b t)
  then show ?thesis
    using assms [OF Ok] by (cases "k b t") (auto intro: R_trans)
qed simp

lemma keeps_varint32_loop:
  "case varint32_loop r b s of Ok x s' \<Rightarrow> R s s' | Fail s' \<Rightarrow> R s s' | Undef \<Rightarrow> False | Fuel \<Rightarrow> False"
proof (induction "unat (bytes_left s)" arbitrary: r b s rule: less_induct)
  case less
  show ?case
  proof (subst varint32_loop.simps, rule keeps_case_readbyte)
    fix byte t
    assume "pb_readbyte s = Ok byte t"
    note IH = less [OF readbyte_less [OF this]]
    show "case (if 32 \<le> b then
            let sign_extension = (if b < 63 then 0xFF else 0x01) in
            if byte AND 0x7F \<noteq> 0 \<and> (drop_bit 31 r = 0 \<or> byte \<noteq> sign_extension)
            then ierror ''varint overflow'' t
            else if byte AND 0x80 \<noteq> 0 then varint32_loop r (b + 7) t
            else Ok (r, b + 7, byte) t
          else
            let r = r OR push_bit (unat b) (ucast (byte AND 0x7F)) in
            if byte AND 0x80 \<noteq> 0 then varint32_loop r (b + 7) t
            else Ok (r, b + 7, byte) t)
      of Ok x s' \<Rightarrow> R t s' | Fail s' \<Rightarrow> R t s' | Undef \<Rightarrow> False | Fuel \<Rightarrow> False"
      using IH by (auto simp: Let_def ierror_def set_ierror_def R_refl R_errmsg)
  qed
qed

lemma keeps_varint_loop64:
  "case varint_loop64 r b s of Ok x s' \<Rightarrow> R s s' | Fail s' \<Rightarrow> R s s' | Undef \<Rightarrow> False | Fuel \<Rightarrow> False"
proof (induction "unat (bytes_left s)" arbitrary: r b s rule: less_induct)
  case less
  show ?case
  proof (cases "64 \<le> b")
    case True
    then show ?thesis
      by (subst varint_loop64.simps) (simp add: ierror_def set_ierror_def R_errmsg)
  next
    case False
    show ?thesis
      by (subst varint_loop64.simps, simp only: False if_False, rule keeps_case_readbyte)
        (auto simp: Let_def R_refl less dest: readbyte_less)
  qed
qed

lemma keeps_skip_varint: "keeps R pb_skip_varint"
proof (rule keepsI)
  fix s :: "'u pb_istream"
  show "case pb_skip_varint s of Ok x s' \<Rightarrow> R s s' | Fail s' \<Rightarrow> R s s' | Undef \<Rightarrow> False | Fuel \<Rightarrow> False"
  proof (induction "unat (bytes_left s)" arbitrary: s rule: less_induct)
    case less
    show ?case
    proof (cases rule: keeps_cases [OF keeps_read, of 1 s, case_names Ok Fail])
      case (Ok buf t)
      note IH = less [OF read_less [OF Ok(1)]]
      show ?thesis
        using Ok IH by (subst pb_skip_varint.simps) (auto intro: R_trans split: outcome.splits)
    next
      case (Fail t)
      then show ?thesis by (subst pb_skip_varint.simps) simp
    qed
  qed
qed

lemma keeps_decode_varint: "keeps R pb_decode_varint"
  by (rule keepsI) (simp add: pb_decode_varint_def keeps_varint_loop64)

lemma keeps_decode_varint32_eof:
  "case fst (pb_decode_varint32_eof s) of
     Ok x s' \<Rightarrow> R s s' | Fail s' \<Rightarrow> R s s' | Undef \<Rightarrow> False | Fuel \<Rightarrow> False"
proof (cases rule: keeps_cases [OF keeps_readbyte, of s, case_names Ok Fail])
  case (Ok b t)
  have "keeps R (mbind (varint32_loop (ucast (b AND 0x7F)) 7)
     (\<lambda>(result, bitpos, byte) s.
        if bitpos = 35 \<and> byte AND 0x70 \<noteq> 0 then ierror ''varint overflow'' s else Ok result s))"
  proof (rule keeps_bind)
    show "keeps R (varint32_loop (ucast (b AND 0x7F)) 7)"
      by (rule keepsI) (rule keeps_varint32_loop)
    show "keeps R ((\<lambda>(result, bitpos, byte) s.
        if bitpos = 35 \<and> byte AND 0x70 \<noteq> 0 then ierror ''varint overflow'' s else Ok result s) x)" for x
      by (cases x) (auto simp: keeps_def ierror_def set_ierror_def R_refl R_errmsg)
  qed
  then show ?thesis
    using Ok by (auto simp: pb_decode_varint32_eof_def keeps_def intro: R_trans split: outcome.splits)
qed (simp add: pb_decode_varint32_eof_def)

lemma keeps_decode_varint32: "keeps R pb_decode_varint32"
  by (rule keepsI) (simp add: pb_decode_varint32_def keeps_decode_varint32_eof)

lemma keeps_decode_tag:
  "case fst (pb_decode_tag s) of Ok x s' \<Rightarrow> R s s' | Fail s' \<Rightarrow> R s s' | Undef \<Rightarrow> False | Fuel \<Rightarrow> False"
  using keeps_decode_varint32_eof [of s]
  by (cases "pb_decode_varint32_eof s") (auto simp: pb_decode_tag_def split: outcome.splits)

lemma keeps_decode_svarint: "keeps R pb_decode_svarint"
  by (simp add: pb_decode_svarint_def keeps_bind keeps_decode_varint keeps_return)

lemma keeps_skip_field: "keeps R (pb_skip_field wt)"
  unfolding pb_skip_field_def pb_skip_string_def
  by (intro keeps_if keeps_bind keeps_skip_varint keeps_skip_bytes keeps_error keeps_decode_varint32)

lemma keeps_raw_varint: "keeps R (raw_varint_loop n buf)"
proof (induction n arbitrary: buf)
  case 0
  then show ?case using R_refl by (simp add: keeps_def)
next
  case (Suc n)
  have eq: "raw_varint_loop (Suc n) buf = mbind (pb_read 1)
      (\<lambda>b. if hd b AND 0x80 \<noteq> 0 then raw_varint_loop n (buf @ [hd b]) else mreturn (buf @ [hd b]))"
    by (rule ext) simp
  show ?case
    unfolding eq by (intro keeps_bind keeps_if keeps_read keeps_return Suc.IH)
qed

lemma keeps_read_raw_value: "keeps R (read_raw_value wt n)"
  unfolding read_raw_value_def by (intro keeps_if keeps_raw_varint keeps_read keeps_error)

lemma keeps_decode_fixed: "keeps R pb_decode_fixed32" "keeps R pb_decode_fixed64"
  by (simp_all add: pb_decode_fixed32_def pb_decode_fixed64_def keeps_bind keeps_read keeps_return)

text \<open>A substream lies inside its parent: whatever a reader does with it, closing it leaves the
  parent related to the stream before.\<close>

lemma make_substream:
  "case pb_make_string_substream s of
     Ok sub s' \<Rightarrow> R s s' \<and> (\<exists>t n. R s t \<and> n \<le> bytes_left t \<and> sub = t\<lparr>bytes_left := n\<rparr> \<and>
                              s' = t\<lparr>bytes_left := bytes_left t - n\<rparr>)
   | Fail s' \<Rightarrow> R s s' | Undef \<Rightarrow> False | Fuel \<Rightarrow> False"
proof (cases rule: keeps_cases [OF keeps_decode_varint32, of s, case_names Ok Fail])
  case (Ok len t)
  show ?thesis
  proof (cases "bytes_left t < ucast len")
    case True
    then show ?thesis
      using Ok by (auto simp: pb_make_string_substream_def mbind_simps ierror_def set_ierror_def
          intro: R_trans [OF _ R_errmsg])
  next
    case False
    then have "ucast len \<le> bytes_left t" by simp
    then show ?thesis
      using Ok R_trans [OF Ok(2) R_reserve [of "ucast len" t]] False
      by (auto simp: pb_make_string_substream_def mbind_simps)
  qed
qed (simp add: pb_make_string_substream_def mbind_simps)

lemma R_share:
  assumes "R s t" "n \<le> bytes_left t" "R (t\<lparr>bytes_left := n\<rparr>) sub"
  shows "R s (share_source sub (t\<lparr>bytes_left := bytes_left t - n\<rparr>))"
  using R_trans [OF assms(1) R_substream [OF assms(2-3)]] R_trans [OF assms(1) R_reserve [OF assms(2)]]
  by (auto simp: share_source_def split: in_source.splits)

lemma close_substream:
  assumes "R s t" "n \<le> bytes_left t" "R (t\<lparr>bytes_left := n\<rparr>) sub"
  shows "case pb_close_string_substream sub (t\<lparr>bytes_left := bytes_left t - n\<rparr>) of
     Ok _ s' \<Rightarrow> R s s' | Fail s' \<Rightarrow> R s s' | Undef \<Rightarrow> False | Fuel \<Rightarrow> False"
proof -
  have closed: "R s (t\<lparr>bytes_left := bytes_left t - n, is_source := is_source u, is_errmsg := e\<rparr>)"
    if "R (t\<lparr>bytes_left := n\<rparr>) u" for u e
    using R_trans [OF assms(1) R_trans [OF R_substream [OF assms(2) that] R_errmsg [of _ e]]]
    by simp
  show ?thesis
  proof (cases rule: keeps_cases [OF keeps_skip_bytes, of "bytes_left sub" sub, case_names Ok Fail])
    case (Ok x u)
    then show ?thesis
      using closed [OF assms(3)] closed [OF R_trans [OF assms(3) Ok(2)]]
      by (simp add: pb_close_string_substream_def)
  next
    case (Fail u)
    then show ?thesis
      using closed [OF assms(3)] R_share [OF assms(1-2) R_trans [OF assms(3) Fail(2)]]
      by (simp add: pb_close_string_substream_def)
  qed
qed

end

subsection \<open>Two frames\<close>

text \<open>\<open>bytes_left\<close> never grows, whatever the callback.\<close>

definition left_le :: "'u pb_istream \<Rightarrow> 'u pb_istream \<Rightarrow> bool" where
  "left_le s s' \<longleftrightarrow> bytes_left s' \<le> bytes_left s"

interpretation left: stream_frame left_le
  by unfold_locales (auto simp: left_le_def word_sub_le)

text \<open>On a memory buffer the read pointer moves forward and never passes the end: what is
  behind it and what \<open>bytes_left\<close> still allows is at most what \<open>bytes_left\<close> allowed before.\<close>

definition in_buffer :: "'u pb_istream \<Rightarrow> 'u pb_istream \<Rightarrow> bool" where
  "in_buffer s s' \<longleftrightarrow>
     (\<forall>st. is_source s = BufSource st \<longrightarrow>
        (\<exists>k. is_source s' = BufSource (st\<lparr>ib_ptr := ib_ptr st + of_nat k\<rparr>) \<and>
             k + unat (bytes_left s') \<le> unat (bytes_left s)))"

lemma in_bufferI:
  "is_source s = BufSource st \<Longrightarrow> is_source s' = BufSource (st\<lparr>ib_ptr := ib_ptr st + of_nat k\<rparr>) \<Longrightarrow>
   k + unat (bytes_left s') \<le> unat (bytes_left s) \<Longrightarrow> in_buffer s s'"
  by (auto simp: in_buffer_def)

interpretation buf: stream_frame in_buffer
proof unfold_locales
  fix s t u :: "'u pb_istream"
  show "in_buffer s s"
    by (auto simp: in_buffer_def intro: exI [of _ "0 :: nat"])
  show "in_buffer s (s\<lparr>is_errmsg := e\<rparr>)" for e
    by (auto simp: in_buffer_def intro: exI [of _ "0 :: nat"])
  show "in_buffer s u" if "in_buffer s t" "in_buffer t u"
    using that unfolding in_buffer_def by (fastforce simp: add.assoc simp flip: of_nat_add)
  show "in_buffer s (s\<lparr>is_source := src\<rparr>)"
    if "source_read (is_source s) n = (None, src)" for n src
    using that by (auto simp: in_buffer_def source_read_def buf_read_def)
  show "in_buffer s (s\<lparr>is_source := src, bytes_left := bytes_left s - n\<rparr>)"
    if "source_read (is_source s) n = (Some buf, src)" "n \<le> bytes_left s" for n buf src
    using that by (auto simp: in_buffer_def source_read_def buf_read_def unat_sub word_le_nat_alt
        intro!: exI [of _ "unat n"])
  show "in_buffer s (s\<lparr>bytes_left := bytes_left s - n\<rparr>)" if "n \<le> bytes_left s" for n
    using that by (auto simp: in_buffer_def unat_sub intro: exI [of _ "0 :: nat"])
  show "in_buffer s (s\<lparr>bytes_left := bytes_left s - n, is_source := is_source t\<rparr>)"
    if n: "n \<le> bytes_left s" and t: "in_buffer (s\<lparr>bytes_left := n\<rparr>) t" for n
    unfolding in_buffer_def
  proof (intro allI impI)
    fix st
    assume "is_source s = BufSource st"
    with t obtain k where k: "is_source t = BufSource (st\<lparr>ib_ptr := ib_ptr st + of_nat k\<rparr>)"
      "k + unat (bytes_left t) \<le> unat n"
      by (auto simp: in_buffer_def)
    then show "\<exists>k. is_source (s\<lparr>bytes_left := bytes_left s - n, is_source := is_source t\<rparr>)
          = BufSource (st\<lparr>ib_ptr := ib_ptr st + of_nat k\<rparr>) \<and>
        k + unat (bytes_left (s\<lparr>bytes_left := bytes_left s - n, is_source := is_source t\<rparr>))
          \<le> unat (bytes_left s)"
      using n by (intro exI [of _ k]) (simp add: unat_sub word_le_nat_alt)
  qed
qed

end
