(* ===== verification/PB_Parse.thy ===== *)
theory PB_Parse
  imports PB_Istream
begin

unbundle bit_operations_syntax

text \<open>
  Reading back what was written. \<open>reads f bs x\<close>: wherever the next bytes of the stream are
  \<open>bs\<close> and \<open>bytes_left\<close> covers them, \<open>f\<close> returns \<open>x\<close> and takes exactly those bytes. It is stated
  over the locale \<open>byte_source\<close>, the contract of a read callback, which \<open>buf_read\<close> satisfies,
  and composes along \<open>mbind\<close>. The readers of \<open>pb_decode.c\<close> invert the writers of
  \<open>pb_encode.c\<close> in this sense.
\<close>

section \<open>What a source must do\<close>

definition taken :: "('s \<Rightarrow> 'u in_source) \<Rightarrow> ('s \<Rightarrow> nat \<Rightarrow> 's) \<Rightarrow> 's \<Rightarrow> nat \<Rightarrow> 'u pb_istream \<Rightarrow> 'u pb_istream" where
  "taken emb adv st k s =
     s\<lparr>is_source := emb (adv st k), bytes_left := bytes_left s - of_nat k\<rparr>"

definition upcoming :: "('s \<Rightarrow> nat \<Rightarrow> byte) \<Rightarrow> 's \<Rightarrow> byte list \<Rightarrow> bool" where
  "upcoming peek st bs \<longleftrightarrow> bs = map (peek st) [0..<length bs]"

definition reads ::
  "('s \<Rightarrow> 'u in_source) \<Rightarrow> ('s \<Rightarrow> nat \<Rightarrow> byte) \<Rightarrow> ('s \<Rightarrow> nat \<Rightarrow> 's) \<Rightarrow> ('a, 'u) in_action \<Rightarrow>
   byte list \<Rightarrow> 'a \<Rightarrow> bool" where
  "reads emb peek adv f bs x \<longleftrightarrow>
     (\<forall>s st. is_source s = emb st \<and> length bs \<le> unat (bytes_left s) \<and> upcoming peek st bs \<longrightarrow>
        f s = Ok x (taken emb adv st (length bs) s))"

locale byte_source =
  fixes emb :: "'s \<Rightarrow> 'u in_source"
    and peek :: "'s \<Rightarrow> nat \<Rightarrow> byte"
    and adv :: "'s \<Rightarrow> nat \<Rightarrow> 's"
  assumes source_read_emb: "source_read (emb st) n = (Some (map (peek st) [0..<unat n]), emb (adv st (unat n)))"
    and peek_adv: "peek (adv st k) i = peek st (k + i)"
    and adv_adv: "adv (adv st a) b = adv st (a + b)"
    and adv_0: "adv st 0 = st"
begin

lemma readsD:
  "reads emb peek adv f bs x \<Longrightarrow> is_source s = emb st \<Longrightarrow> length bs \<le> unat (bytes_left s) \<Longrightarrow>
   upcoming peek st bs \<Longrightarrow> f s = Ok x (taken emb adv st (length bs) s)"
  by (simp add: reads_def)

lemma upcoming_append:
  "upcoming peek st (as @ bs) \<longleftrightarrow> upcoming peek st as \<and> upcoming peek (adv st (length as)) bs"
proof -
  have "map (peek st) [0..<length as + length bs]
      = map (peek st) [0..<length as] @ map (\<lambda>i. peek st (length as + i)) [0..<length bs]"
    by (rule nth_equalityI) (auto simp: nth_append)
  moreover have "peek (adv st (length as)) = (\<lambda>i. peek st (length as + i))"
    by (rule ext) (rule peek_adv)
  ultimately show ?thesis by (auto simp: upcoming_def)
qed

lemma taken_0: "is_source s = emb st \<Longrightarrow> taken emb adv st 0 s = s"
  by (simp add: taken_def adv_0)

lemma taken_left:
  "k \<le> unat (bytes_left s) \<Longrightarrow> unat (bytes_left (taken emb adv st k s)) = unat (bytes_left s) - k"
proof -
  assume k: "k \<le> unat (bytes_left s)"
  then have "unat (of_nat k :: u64) = k"
    using unat_less64 [of "bytes_left s"] by (simp add: unat_of_nat_addr)
  then show ?thesis
    using k by (simp add: taken_def unat_sub word_le_nat_alt)
qed

lemma taken_source [simp]: "is_source (taken emb adv st k s) = emb (adv st k)"
  by (simp add: taken_def)

lemma taken_taken: "taken emb adv (adv st a) b (taken emb adv st a s) = taken emb adv st (a + b) s"
  by (simp add: taken_def adv_adv)

lemma reads_return: "reads emb peek adv (mreturn x) [] x"
  by (auto simp: reads_def taken_0)

lemma reads_bind:
  assumes f: "reads emb peek adv f as x" and g: "reads emb peek adv (g x) bs y"
  shows "reads emb peek adv (mbind f g) (as @ bs) y"
  unfolding reads_def
proof (intro allI impI)
  fix s :: "'u pb_istream" and st
  assume s: "is_source s = emb st \<and> length (as @ bs) \<le> unat (bytes_left s) \<and> upcoming peek st (as @ bs)"
  then have 1: "f s = Ok x (taken emb adv st (length as) s)"
    by (intro readsD [OF f]) (auto simp: upcoming_append)
  have 2: "g x (taken emb adv st (length as) s)
      = Ok y (taken emb adv (adv st (length as)) (length bs) (taken emb adv st (length as) s))"
    using s by (intro readsD [OF g]) (auto simp: upcoming_append taken_left)
  show "mbind f g s = Ok y (taken emb adv st (length (as @ bs)) s)"
    by (simp add: mbind_def 1 2 taken_taken)
qed

lemma reads_map: "reads emb peek adv f bs x \<Longrightarrow> reads emb peek adv (mbind f (\<lambda>x. mreturn (h x))) bs (h x)"
  using reads_bind [OF _ reads_return] by fastforce

lemma reads_read: "length bs < 2 ^ 64 \<Longrightarrow> reads emb peek adv (pb_read (of_nat (length bs))) bs bs"
  unfolding reads_def
proof (intro allI impI)
  fix s :: "'u pb_istream" and st
  assume len: "length bs < 2 ^ 64"
    and s: "is_source s = emb st \<and> length bs \<le> unat (bytes_left s) \<and> upcoming peek st bs"
  have un: "unat (of_nat (length bs) :: u64) = length bs"
    using len by (simp add: unat_of_nat_addr)
  show "pb_read (of_nat (length bs)) s = Ok bs (taken emb adv st (length bs) s)"
  proof (cases "bs = []")
    case True
    then show ?thesis using s by (simp add: pb_read_def taken_0)
  next
    case False
    then have "(of_nat (length bs) :: u64) \<noteq> 0"
      using un by (metis length_0_conv unat_0)
    moreover have "\<not> bytes_left s < of_nat (length bs)"
      using s un by (simp add: word_less_nat_alt)
    ultimately show ?thesis
      using s un by (auto simp: pb_read_def source_read_emb upcoming_def taken_def)
  qed
qed

lemma readbyte_next:
  assumes "is_source s = emb st" "0 < unat (bytes_left s)"
  shows "pb_readbyte s = Ok (peek st 0) (taken emb adv st 1 s)"
proof -
  have "bytes_left s \<noteq> 0" using assms(2) by auto
  then show ?thesis
    using assms(1) by (simp add: pb_readbyte_def source_read_emb taken_def)
qed

lemma upcoming_Cons: "upcoming peek st (b # bs) \<longleftrightarrow> b = peek st 0 \<and> upcoming peek (adv st 1) bs"
  using upcoming_append [of st "[b]" bs] by (simp add: upcoming_def)

text \<open>How a loop that starts with \<open>pb_readbyte\<close> reads a nonempty string.\<close>

lemma reads_Cons:
  assumes "\<And>s. f s = (case pb_readbyte s of Ok b s' \<Rightarrow> g b s' | Fail s' \<Rightarrow> Fail s' | Undef \<Rightarrow> Undef | Fuel \<Rightarrow> Fuel)"
    and "reads emb peek adv (g b) bs x"
  shows "reads emb peek adv f (b # bs) x"
  unfolding reads_def
proof (intro allI impI)
  fix s :: "'u pb_istream" and st
  assume s: "is_source s = emb st \<and> length (b # bs) \<le> unat (bytes_left s) \<and> upcoming peek st (b # bs)"
  then have "pb_readbyte s = Ok b (taken emb adv st 1 s)"
    using readbyte_next [of s st] by (auto simp: upcoming_Cons)
  moreover have "g b (taken emb adv st 1 s)
      = Ok x (taken emb adv (adv st 1) (length bs) (taken emb adv st 1 s))"
    using s by (intro readsD [OF assms(2)]) (auto simp: upcoming_Cons taken_left)
  ultimately show "f s = Ok x (taken emb adv st (length (b # bs)) s)"
    by (simp add: assms(1) taken_taken)
qed

end

interpretation buffer_in: byte_source BufSource "\<lambda>st i. ib_mem st (ib_ptr st + of_nat i)"
    "\<lambda>st k. st\<lparr>ib_ptr := ib_ptr st + of_nat k\<rparr>"
  by unfold_locales (simp_all add: source_read_def buf_read_def mem_bytes_def add.assoc)

section \<open>Varints\<close>

text \<open>Reading is stated on the byte level: the digit of a byte and its continuation bit.\<close>

lemma byte_and_127_eq: "(b :: byte) AND 0x7F = take_bit 7 b"
  by (simp add: take_bit_eq_mask mask_eq_exp_minus_1)

lemma byte_and_128_iff: "(b :: byte) AND 0x80 = 0 \<longleftrightarrow> \<not> bit b 7"
  using and_exp_eq_0_iff_not_bit [of b 7] by simp

lemma bit_byte_7: "n < 256 \<Longrightarrow> bit (of_nat n :: byte) 7 \<longleftrightarrow> 128 \<le> n"
proof -
  assume n: "n < 256"
  have "bit (of_nat n :: byte) 7 \<longleftrightarrow> odd (n div 128)"
    using bit_iff_odd [of n 7] by (simp add: bit_of_nat_iff)
  also have "\<dots> \<longleftrightarrow> 128 \<le> n"
  proof (cases "128 \<le> n")
    case True
    then have "n div 128 = 1" using n by (intro div_nat_eqI) simp_all
    then show ?thesis using True by simp
  qed simp
  finally show ?thesis .
qed

lemma byte_and_128:
  "n < 128 \<Longrightarrow> (of_nat n :: byte) AND 0x80 = 0"
  "n < 128 \<Longrightarrow> (of_nat (n + 128) :: byte) AND 0x80 \<noteq> 0"
  using bit_byte_7 [of n] bit_byte_7 [of "n + 128"] by (auto simp: byte_and_128_iff)

lemma of_nat_split7: "of_nat (n mod 128) OR push_bit 7 (of_nat (n div 128)) = (of_nat n :: 'a::len word)"
proof (rule bit_word_eqI)
  fix i
  assume i: "i < LENGTH('a)"
  have "n mod 128 = take_bit 7 n" "n div 128 = drop_bit 7 n"
    by (simp_all add: take_bit_eq_mod drop_bit_eq_div)
  then show "bit (of_nat (n mod 128) OR push_bit 7 (of_nat (n div 128)) :: 'a word) i
      = bit (of_nat n :: 'a word) i"
    using i by (auto simp: bit_simps)
qed

lemma push_split7:
  "push_bit k (of_nat (n mod 128)) OR push_bit (k + 7) (of_nat (n div 128))
   = (push_bit k (of_nat n) :: 'a::len word)"
proof -
  have "push_bit (k + 7) (of_nat (n div 128)) = push_bit k (push_bit 7 (of_nat (n div 128) :: 'a word))"
    by simp
  then show ?thesis
    by (simp only: of_nat_split7 flip: push_bit_or)
qed

lemma bitpos_nat: "k < 256 \<Longrightarrow> unat (of_nat k :: byte) = k"
  by (simp add: unat_of_nat take_bit_nat_eq_self)

lemma ucast_of_nat8: "n < 256 \<Longrightarrow> ucast (of_nat n :: byte) = (of_nat n :: 'a::len word)"
  by (metis bitpos_nat of_nat_unat)

lemma ucast_digit:
  "n < 128 \<Longrightarrow> ucast ((of_nat n :: byte) AND 0x7F) = (of_nat n :: 'a::len word)"
  "n < 128 \<Longrightarrow> ucast ((of_nat (n + 128) :: byte) AND 0x7F) = (of_nat n :: 'a::len word)"
proof -
  assume n: "n < 128"
  have u: "ucast (of_nat n :: byte) = (of_nat n :: 'a word)"
    using n by (simp add: ucast_of_nat8)
  have "(of_nat n :: byte) AND 0x7F = of_nat n"
    using n by (simp add: byte_and_127_eq take_bit_of_nat take_bit_nat_eq_self)
  then show "ucast ((of_nat n :: byte) AND 0x7F) = (of_nat n :: 'a word)"
    by (simp only: u)
  show "ucast ((of_nat (n + 128) :: byte) AND 0x7F) = (of_nat n :: 'a word)"
    by (simp only: byte_and_127 [OF n] u)
qed

context byte_source
begin

lemma reads_varint_loop64:
  "j < 10 \<Longrightarrow> n < 128 ^ (10 - j) \<Longrightarrow>
   reads emb peek adv (varint_loop64 r (of_nat (7 * j))) (varint_bytes n) (r OR push_bit (7 * j) (of_nat n))"
proof (induction n arbitrary: j r rule: varint_bytes.induct)
  case (1 n)
  have bp: "unat (of_nat (7 * j) :: byte) = 7 * j"
    using "1.prems" by (intro bitpos_nat) simp
  have guard: "\<not> 64 \<le> (of_nat (7 * j) :: byte)"
    using bp "1.prems" by (simp add: word_le_nat_alt)
  define g :: "byte \<Rightarrow> (u64, 'u) in_action" where
    "g = (\<lambda>b s'. if b AND 0x80 \<noteq> 0
       then varint_loop64 (r OR push_bit (7 * j) (ucast (b AND 0x7F))) (of_nat (7 * Suc j)) s'
       else Ok (r OR push_bit (7 * j) (ucast (b AND 0x7F))) s')"
  have nxt: "(of_nat (7 * j) + 7 :: byte) = of_nat (7 * Suc j)" by simp
  have unroll: "varint_loop64 r (of_nat (7 * j)) s
      = (case pb_readbyte s of Ok b s' \<Rightarrow> g b s' | Fail s' \<Rightarrow> Fail s' | Undef \<Rightarrow> Undef | Fuel \<Rightarrow> Fuel)"
    for s :: "'u pb_istream"
    unfolding g_def
    by (subst varint_loop64.simps) (simp only: guard if_False bp nxt Let_def)
  show ?case
  proof (cases "n < 128")
    case True
    then have "g (of_nat n) = mreturn (r OR push_bit (7 * j) (of_nat n))"
      by (simp add: g_def byte_and_128 ucast_digit fun_eq_iff)
    then have "reads emb peek adv (g (of_nat n)) [] (r OR push_bit (7 * j) (of_nat n))"
      by (simp add: reads_return)
    from reads_Cons [OF unroll this] True show ?thesis
      by (simp add: varint_bytes.simps [of n])
  next
    case False
    have j: "Suc j < 10"
    proof (rule ccontr)
      assume "\<not> Suc j < 10"
      then have "j = 9" using "1.prems" by simp
      then show False using "1.prems" False by simp
    qed
    have "10 - j = Suc (10 - Suc j)" using j by simp
    then have small: "n div 128 < 128 ^ (10 - Suc j)"
      using "1.prems"(2) by (simp add: less_mult_imp_div_less mult.commute)
    define r' where "r' = r OR push_bit (7 * j) (of_nat (n mod 128))"
    have "g (of_nat (n mod 128 + 128)) = varint_loop64 r' (of_nat (7 * Suc j))"
      using byte_and_128(2) [of "n mod 128"] ucast_digit(2) [of "n mod 128", where 'a = 64]
      by (simp add: g_def r'_def fun_eq_iff del: of_nat_add)
    moreover have "r' OR push_bit (7 * Suc j) (of_nat (n div 128)) = r OR push_bit (7 * j) (of_nat n)"
      using push_split7 [of "7 * j" n, where 'a = 64] by (simp add: r'_def or.assoc add.commute)
    ultimately have "reads emb peek adv (g (of_nat (n mod 128 + 128))) (varint_bytes (n div 128))
        (r OR push_bit (7 * j) (of_nat n))"
      using "1.IH" [OF False j small, of r'] by simp
    from reads_Cons [OF unroll this] False show ?thesis
      by (simp add: varint_bytes.simps [of n])
  qed
qed

lemma reads_varint: "reads emb peek adv pb_decode_varint (varint_bytes (unat v)) v"
  using reads_varint_loop64 [of 0 "unat v" 0] unat_less64 [of v]
  by (simp add: pb_decode_varint_def)

end

section \<open>Zigzag\<close>

lemma unzigzag_zigzag: "unzigzag (zigzag v) = v"
proof -
  define p where "p = push_bit 1 v"
  have p: "bit p i \<longleftrightarrow> 1 \<le> i \<and> i < 64 \<and> bit v (i - 1)" for i
    unfolding p_def by (auto simp: bit_push_bit_iff simp del: push_bit_Suc push_bit_of_1 dest: bit_imp_le_length)
  have even: "p AND 1 = 0" "NOT p AND 1 \<noteq> 0"
    using p [of 0] by (simp_all add: and_one_eq mod_2_eq_odd bit_0)
  show ?thesis
  proof (cases "v <s 0")
    case True
    then have "bit v 63"
      using bit_last_iff [of v] by (simp add: word_sless_alt)
    have eq: "unzigzag (zigzag v) = NOT (drop_bit 1 (NOT p))"
      using True even unfolding zigzag_def unzigzag_def p_def [symmetric] by simp
    show ?thesis
      unfolding eq
    proof (rule bit_word_eqI)
      fix i
      assume "i < LENGTH(64)"
      then show "bit (NOT (drop_bit 1 (NOT p))) i = bit v i"
        using \<open>bit v 63\<close> p [of "Suc i"]
        by (cases "i = 63") (simp_all add: bit_drop_bit_eq bit_not_iff)
    qed
  next
    case False
    have eq: "unzigzag (zigzag v) = drop_bit 1 p"
      using False even unfolding zigzag_def unzigzag_def p_def [symmetric] by simp
    have "\<not> bit v 63"
      using False bit_last_iff [of v] by (simp add: word_sless_alt)
    show ?thesis
      unfolding eq
    proof (rule bit_word_eqI)
      fix i
      assume "i < LENGTH(64)"
      then show "bit (drop_bit 1 p) i = bit v i"
        using \<open>\<not> bit v 63\<close> p [of "Suc i"]
        by (cases "i = 63") (simp_all add: bit_drop_bit_eq)
    qed
  qed
qed

section \<open>32-bit varints and tags\<close>

lemma low_digit:
  assumes n: "n < 16"
  shows "(of_nat n :: byte) AND 0x70 = 0"
proof -
  define x where "x = (of_nat n :: byte)"
  have "x = take_bit 4 x"
    using n by (simp add: x_def take_bit_of_nat take_bit_nat_eq_self)
  then have "x AND 0x70 = take_bit 4 (x AND 0x70)"
    by (simp add: take_bit_eq_mask) (metis and.assoc and.commute)
  also have "\<dots> = take_bit 4 x AND take_bit 4 0x70" by (rule take_bit_and)
  also have "take_bit 4 (0x70 :: byte) = 0" by simp
  finally show ?thesis by (simp add: x_def)
qed

text \<open>A length or a tag: one digit, or a first digit and the loop.\<close>

lemma unat_tag: "fn < 2 ^ 29 \<Longrightarrow> wt < 8 \<Longrightarrow> unat (of_nat (8 * fn + wt) :: u32) = 8 * fn + wt"
  by (rule unat_of_nat32) simp

lemma tag_parts:
  assumes "fn < 2 ^ 29" "wt < 8"
  shows "drop_bit 3 (of_nat (8 * fn + wt) :: u32) = of_nat fn"
    and "(of_nat (8 * fn + wt) :: u32) AND 7 = of_nat wt"
proof -
  have "drop_bit 3 (8 * fn + wt) = fn" "take_bit 3 (8 * fn + wt) = wt"
    using assms by (simp_all add: drop_bit_eq_div take_bit_eq_mod)
  moreover have "unat (drop_bit 3 (of_nat (8 * fn + wt) :: u32)) = drop_bit 3 (8 * fn + wt)"
    using unat_tag [OF assms] by (simp add: unat_drop_bit_eq del: of_nat_add)
  ultimately have "unat (drop_bit 3 (of_nat (8 * fn + wt) :: u32)) = fn" by simp
  then show "drop_bit 3 (of_nat (8 * fn + wt) :: u32) = of_nat fn"
    using assms(1) by (simp add: word_unat_eq_iff unat_of_nat32 del: of_nat_add)
  have "(of_nat (8 * fn + wt) :: u32) AND 7 = take_bit 3 (of_nat (8 * fn + wt))"
    by (simp add: take_bit_eq_mask mask_eq_exp_minus_1 del: of_nat_add)
  also have "\<dots> = of_nat wt"
    using \<open>take_bit 3 (8 * fn + wt) = wt\<close> by (simp add: take_bit_of_nat del: of_nat_add)
  finally show "(of_nat (8 * fn + wt) :: u32) AND 7 = of_nat wt" .
qed

context byte_source
begin

lemma reads_varint32_loop:
  "0 < j \<Longrightarrow> j \<le> 4 \<Longrightarrow> n < 2 ^ (32 - 7 * j) \<Longrightarrow>
   \<exists>bp b. reads emb peek adv (varint32_loop r (of_nat (7 * j))) (varint_bytes n)
            (r OR push_bit (7 * j) (of_nat n), bp, b) \<and> (bp = 35 \<longrightarrow> b AND 0x70 = 0)"
proof (induction n arbitrary: j r rule: varint_bytes.induct)
  case (1 n)
  have bp: "unat (of_nat (7 * j) :: byte) = 7 * j"
    using "1.prems" by (intro bitpos_nat) simp
  have guard: "\<not> 32 \<le> (of_nat (7 * j) :: byte)"
    using bp "1.prems" by (simp add: word_le_nat_alt)
  define g :: "byte \<Rightarrow> (u32 \<times> byte \<times> byte, 'u) in_action" where
    "g = (\<lambda>b s'. if b AND 0x80 \<noteq> 0
       then varint32_loop (r OR push_bit (7 * j) (ucast (b AND 0x7F))) (of_nat (7 * Suc j)) s'
       else Ok (r OR push_bit (7 * j) (ucast (b AND 0x7F)), of_nat (7 * Suc j), b) s')"
  have nxt: "(of_nat (7 * j) + 7 :: byte) = of_nat (7 * Suc j)" by simp
  have unroll: "varint32_loop r (of_nat (7 * j)) s
      = (case pb_readbyte s of Ok b s' \<Rightarrow> g b s' | Fail s' \<Rightarrow> Fail s' | Undef \<Rightarrow> Undef | Fuel \<Rightarrow> Fuel)"
    for s :: "'u pb_istream"
    unfolding g_def
    by (subst varint32_loop.simps) (simp only: guard if_False bp nxt Let_def)
  show ?case
  proof (cases "n < 128")
    case True
    then have "g (of_nat n) = mreturn (r OR push_bit (7 * j) (of_nat n), of_nat (7 * Suc j), of_nat n)"
      using ucast_digit(1) [of n, where 'a = 32] by (simp add: g_def byte_and_128 fun_eq_iff)
    then have "reads emb peek adv (g (of_nat n)) []
        (r OR push_bit (7 * j) (of_nat n), of_nat (7 * Suc j), of_nat n)"
      by (simp only: reads_return)
    from reads_Cons [OF unroll this] have "reads emb peek adv (varint32_loop r (of_nat (7 * j)))
        (varint_bytes n) (r OR push_bit (7 * j) (of_nat n), of_nat (7 * Suc j), of_nat n)"
      using True by (simp add: varint_bytes.simps [of n])
    moreover have "(of_nat (7 * Suc j) :: byte) = 35 \<longrightarrow> (of_nat n :: byte) AND 0x70 = 0"
    proof
      assume "(of_nat (7 * Suc j) :: byte) = 35"
      then have "unat (of_nat (7 * Suc j) :: byte) = 35" by simp
      then have "j = 4" using "1.prems"(2) bitpos_nat [of "7 * Suc j"] by simp
      then show "(of_nat n :: byte) AND 0x70 = 0"
        using "1.prems"(3) by (intro low_digit) simp
    qed
    ultimately show ?thesis by blast
  next
    case False
    have "j \<noteq> 4" using "1.prems"(3) False by auto
    then have j: "Suc j \<le> 4" using "1.prems" by simp
    define e where "e = 32 - 7 * Suc j"
    have "32 - 7 * j = e + 7" using j by (simp add: e_def)
    then have "n < 2 ^ e * 128" using "1.prems"(3) by (simp add: power_add)
    then have small: "n div 128 < 2 ^ (32 - 7 * Suc j)"
      unfolding e_def by (rule less_mult_imp_div_less)
    define r' where "r' = r OR push_bit (7 * j) (of_nat (n mod 128))"
    have "g (of_nat (n mod 128 + 128)) = varint32_loop r' (of_nat (7 * Suc j))"
      using byte_and_128(2) [of "n mod 128"] ucast_digit(2) [of "n mod 128", where 'a = 32]
      by (simp add: g_def r'_def fun_eq_iff del: of_nat_add)
    moreover have "r' OR push_bit (7 * Suc j) (of_nat (n div 128)) = r OR push_bit (7 * j) (of_nat n)"
      using push_split7 [of "7 * j" n, where 'a = 32] by (simp add: r'_def or.assoc add.commute)
    ultimately obtain bp b where "reads emb peek adv (g (of_nat (n mod 128 + 128))) (varint_bytes (n div 128))
        (r OR push_bit (7 * j) (of_nat n), bp, b)" and "bp = 35 \<longrightarrow> b AND 0x70 = 0"
      using "1.IH" [OF False _ j small, of r'] by auto
    from reads_Cons [OF unroll this(1)]
    have "reads emb peek adv (varint32_loop r (of_nat (7 * j))) (varint_bytes n)
        (r OR push_bit (7 * j) (of_nat n), bp, b)"
      using False by (simp add: varint_bytes.simps [of n])
    with \<open>bp = 35 \<longrightarrow> b AND 0x70 = 0\<close> show ?thesis by blast
  qed
qed

lemma reads_varint32:
  assumes n: "n < 2 ^ 32"
  shows "reads emb peek adv pb_decode_varint32 (varint_bytes n) (of_nat n)"
proof -
  define g :: "byte \<Rightarrow> (u32, 'u) in_action" where
    "g = (\<lambda>byte. if byte AND 0x80 = 0 then mreturn (ucast byte)
           else mbind (varint32_loop (ucast (byte AND 0x7F)) 7)
                  (\<lambda>(result, bitpos, byte) s.
                     if bitpos = 35 \<and> byte AND 0x70 \<noteq> 0 then ierror ''varint overflow'' s
                     else Ok result s))"
  have unroll: "pb_decode_varint32 s
      = (case pb_readbyte s of Ok b s' \<Rightarrow> g b s' | Fail s' \<Rightarrow> Fail s' | Undef \<Rightarrow> Undef | Fuel \<Rightarrow> Fuel)"
    for s :: "'u pb_istream"
    by (auto simp: pb_decode_varint32_def pb_decode_varint32_eof_def g_def split: outcome.splits)
  show ?thesis
  proof (cases "n < 128")
    case True
    have "(ucast (of_nat n :: byte) :: u32) = of_nat n"
      using True by (simp add: ucast_of_nat8)
    then have "reads emb peek adv (g (of_nat n)) [] (of_nat n)"
      using True by (simp add: g_def byte_and_128 reads_return)
    from reads_Cons [OF unroll this] True show ?thesis
      by (simp add: varint_bytes.simps [of n])
  next
    case False
    have small: "n div 128 < 2 ^ (32 - 7 * 1)"
      using n by (simp add: less_mult_imp_div_less)
    obtain bp b where loop: "reads emb peek adv (varint32_loop (of_nat (n mod 128)) (of_nat (7 * 1)))
        (varint_bytes (n div 128)) (of_nat (n mod 128) OR push_bit (7 * 1) (of_nat (n div 128)), bp, b)"
      and b: "bp = 35 \<longrightarrow> b AND 0x70 = 0"
      using reads_varint32_loop [of 1 "n div 128" "of_nat (n mod 128)"] small by auto
    have "reads emb peek adv (mbind (varint32_loop (of_nat (n mod 128)) 7)
           (\<lambda>(result, bitpos, byte) s.
               if bitpos = 35 \<and> byte AND 0x70 \<noteq> 0 then ierror ''varint overflow'' s
               else Ok result s)) (varint_bytes (n div 128) @ []) (of_nat n)"
      by (rule reads_bind [OF loop [unfolded mult_1_right of_nat_numeral]])
        (use b of_nat_split7 [of n, where 'a = 32] in \<open>auto simp: reads_return\<close>)
    then have "reads emb peek adv (g (of_nat (n mod 128 + 128))) (varint_bytes (n div 128)) (of_nat n)"
      using byte_and_128(2) [of "n mod 128"] ucast_digit(2) [of "n mod 128", where 'a = 32]
      by (simp add: g_def del: of_nat_add)
    from reads_Cons [OF unroll this] False show ?thesis
      by (simp add: varint_bytes.simps [of n])
  qed
qed

end

section \<open>Composed readers\<close>

lemma bytes4_le_word:
  "length bs = 4 \<Longrightarrow>
   ucast (bs ! 0) OR push_bit 8 (ucast (bs ! 1)) OR push_bit 16 (ucast (bs ! 2)) OR
   push_bit 24 (ucast (bs ! 3)) = (le_word bs :: 'a::len word)"
  by (auto simp: length_Suc_conv numeral_eq_Suc le_word_Cons push_bit_or or.assoc or.commute or.left_commute
      simp del: push_bit_Suc)

lemma bytes8_le_word:
  "length bs = 8 \<Longrightarrow>
   ucast (bs ! 0) OR push_bit 8 (ucast (bs ! 1)) OR push_bit 16 (ucast (bs ! 2)) OR
   push_bit 24 (ucast (bs ! 3)) OR push_bit 32 (ucast (bs ! 4)) OR push_bit 40 (ucast (bs ! 5)) OR
   push_bit 48 (ucast (bs ! 6)) OR push_bit 56 (ucast (bs ! 7)) = (le_word bs :: 'a::len word)"
  by (auto simp: length_Suc_conv numeral_eq_Suc le_word_Cons push_bit_or or.assoc or.commute or.left_commute
      simp del: push_bit_Suc)

context byte_source
begin

lemma reads_svarint: "reads emb peek adv pb_decode_svarint (varint_bytes (unat (zigzag v))) v"
  using reads_map [OF reads_varint [of "zigzag v"], of unzigzag]
  by (simp add: pb_decode_svarint_def unzigzag_zigzag)

lemma reads_tag:
  assumes fn: "fn < 2 ^ 29" and wt: "wt < 8" and nonzero: "0 < fn"
  shows "reads emb peek adv (\<lambda>s. fst (pb_decode_tag s)) (wire_tag fn wt) (of_nat fn, of_nat wt)"
proof -
  define g :: "u32 \<Rightarrow> (u32 \<times> u32, 'u) in_action" where
    "g = (\<lambda>temp. if temp = 0 then Fail else mreturn (drop_bit 3 temp, temp AND 7))"
  have "(\<lambda>s. fst (pb_decode_tag s)) = mbind pb_decode_varint32 g"
    by (rule ext) (auto simp: pb_decode_tag_def pb_decode_varint32_def mbind_def g_def
        split: outcome.splits prod.splits)
  moreover have "(of_nat (8 * fn + wt) :: u32) \<noteq> 0"
    using unat_tag [OF fn wt] nonzero by (metis add_is_0 mult_is_0 unat_0 zero_neq_numeral not_less0)
  then have "g (of_nat (8 * fn + wt)) = mreturn (of_nat fn, of_nat wt)"
    using tag_parts [OF fn wt] by (simp add: g_def del: of_nat_add of_nat_mult)
  then have "reads emb peek adv (g (of_nat (8 * fn + wt))) [] (of_nat fn, of_nat wt)"
    by (simp add: reads_return)
  ultimately show ?thesis
    using reads_bind [OF reads_varint32 [of "8 * fn + wt"]] fn wt
    by (fastforce simp: wire_tag_def)
qed

lemma reads_fixed32: "reads emb peek adv pb_decode_fixed32 (word_le_bytes 4 v) v"
proof -
  have "reads emb peek adv (pb_read 4) (word_le_bytes 4 v) (word_le_bytes 4 v)"
    using reads_read [of "word_le_bytes 4 v"] by simp
  from reads_map [OF this, of "\<lambda>bytes. ucast (bytes ! 0) OR push_bit 8 (ucast (bytes ! 1)) OR
          push_bit 16 (ucast (bytes ! 2)) OR push_bit 24 (ucast (bytes ! 3)) :: u32"]
  show ?thesis
    using bytes4_le_word [of "word_le_bytes 4 v", where 'a = 32]
    by (simp add: pb_decode_fixed32_def le_word_bytes_full)
qed

lemma reads_fixed64: "reads emb peek adv pb_decode_fixed64 (word_le_bytes 8 v) v"
proof -
  have "reads emb peek adv (pb_read 8) (word_le_bytes 8 v) (word_le_bytes 8 v)"
    using reads_read [of "word_le_bytes 8 v"] by simp
  from reads_map [OF this, of "\<lambda>bytes. ucast (bytes ! 0) OR push_bit 8 (ucast (bytes ! 1)) OR
          push_bit 16 (ucast (bytes ! 2)) OR push_bit 24 (ucast (bytes ! 3)) OR
          push_bit 32 (ucast (bytes ! 4)) OR push_bit 40 (ucast (bytes ! 5)) OR
          push_bit 48 (ucast (bytes ! 6)) OR push_bit 56 (ucast (bytes ! 7)) :: u64"]
  show ?thesis
    using bytes8_le_word [of "word_le_bytes 8 v", where 'a = 64]
    by (simp add: pb_decode_fixed64_def le_word_bytes_full)
qed

text \<open>Skipping takes what reading would take.\<close>

lemma reads_skip_loop:
  "unat n = length bs \<Longrightarrow> reads emb peek adv (skip_loop n) bs ()"
proof (induction n arbitrary: bs rule: skip_loop.induct)
  case (1 n)
  have small: "length bs < 2 ^ 64" using "1.prems" unat_less64 [of n] by simp
  have n: "n = of_nat (length bs)" using "1.prems" by (simp flip: "1.prems")
  show ?case
  proof (cases "16 < n")
    case True
    then have len: "16 < length bs" using "1.prems" by (simp add: word_less_nat_alt)
    have "unat (n - 16) = length (drop 16 bs)"
      using "1.prems" len by (simp add: unat_sub word_le_nat_alt)
    note rest = "1.IH" [OF True this]
    have "reads emb peek adv (pb_read 16) (take 16 bs) (take 16 bs)"
      using reads_read [of "take 16 bs"] len by simp
    from reads_bind [OF this, where g = "\<lambda>_. skip_loop (n - 16)", OF rest] True show ?thesis
      by (subst skip_loop.simps) simp
  next
    case False
    then show ?thesis
      using reads_map [OF reads_read [OF small], of "\<lambda>_. ()"] n
      by (subst skip_loop.simps) simp
  qed
qed

lemma reads_skip_bytes:
  assumes "unat n = length bs"
  shows "reads emb peek adv (pb_skip_bytes n) bs ()"
proof -
  have small: "length bs < 2 ^ 64" and n: "n = of_nat (length bs)"
    using assms unat_less64 [of n] by (simp_all flip: assms)
  show ?thesis
    unfolding reads_def
  proof (intro allI impI)
    fix s :: "'u pb_istream" and st
    assume s: "is_source s = emb st \<and> length bs \<le> unat (bytes_left s) \<and> upcoming peek st bs"
    show "pb_skip_bytes n s = Ok () (taken emb adv st (length bs) s)"
    proof (cases "n = 0")
      case True
      then show ?thesis using s assms by (simp add: pb_skip_bytes_def taken_0)
    next
      case False
      have "pb_skip_bytes n s
          = (if is_buf_read (is_source s) then mbind (pb_read n) (\<lambda>_. mreturn ()) s else skip_loop n s)"
        using False by (simp add: pb_skip_bytes_def)
      moreover have "mbind (pb_read n) (\<lambda>_. mreturn ()) s = Ok () (taken emb adv st (length bs) s)"
        using readsD [OF reads_map [OF reads_read [OF small], of "\<lambda>_. ()"], of s st] s n by simp
      moreover have "skip_loop n s = Ok () (taken emb adv st (length bs) s)"
        using readsD [OF reads_skip_loop [OF assms], of s st] s by simp
      ultimately show ?thesis by simp
    qed
  qed
qed

end

end
