(* ===== verification/PB_Decode.thy ===== *)
theory PB_Decode
  imports PB_Istream PB_Encode
begin

unbundle bit_operations_syntax

text \<open>
  The field and message decoders of \<open>pb_decode.c\<close>. The state is the memory that messages are
  decoded into, the allocator's own state, the input stream (its buffer is memory of its own)
  and the local variable \<open>fixed_count_size\<close> of the innermost \<open>pb_decode_noinit\<close>, at which the
  iterator's \<open>pSize\<close> may point. \<open>realloc\<close>, \<open>free\<close>, user callbacks and user extension decoders are
  parameters. The functions that end in a submessage take \<open>dec\<close>, the two decoders of a whole
  message (with and without default values) with one unit of fuel less. \<open>de_steps\<close> bounds the
  loops which the code does not bound: over the fields of the input, over a linked list of
  extensions, over the calls of a callback.
\<close>

section \<open>State and environment\<close>

record ('h, 'u) dec_state =
  d_mem :: mem
  d_alloc :: 'h
  d_in :: "'u pb_istream"
  d_fixed :: u32

type_synonym ('a, 'h, 'u) dec_action = "('h, 'u) dec_state \<Rightarrow> ('a, ('h, 'u) dec_state) outcome"

record ('h, 'u) dec_env =
  de_descs :: "nat \<Rightarrow> fields"
  de_realloc :: "addr \<Rightarrow> u64 \<Rightarrow> mem \<Rightarrow> 'h \<Rightarrow> addr \<times> mem \<times> 'h"
  de_free :: "addr \<Rightarrow> mem \<Rightarrow> 'h \<Rightarrow> mem \<times> 'h"
  de_callback :: "addr \<Rightarrow> pb_field \<Rightarrow> addr \<Rightarrow> (unit, 'h, 'u) dec_action"
  de_ext_type :: "addr \<Rightarrow> ext_type"
  de_ext_decode :: "addr \<Rightarrow> addr \<Rightarrow> u32 \<Rightarrow> u32 \<Rightarrow> (unit, 'h, 'u) dec_action"
  de_steps :: nat

text \<open>A decoder of messages: whether to set defaults (and release on failure), type, destination.\<close>

type_synonym ('h, 'u) msg_decoder = "bool \<Rightarrow> nat \<Rightarrow> addr \<Rightarrow> (unit, 'h, 'u) dec_action"
type_synonym ('h, 'u) pb_decoder = "pb_field \<Rightarrow> addr \<Rightarrow> (unit, 'h, 'u) dec_action"

definition on_stream :: "('a, 'u) in_action \<Rightarrow> ('a, 'h, 'u) dec_action" where
  "on_stream f s =
     (case f (d_in s) of
        Ok x i \<Rightarrow> Ok x (s\<lparr>d_in := i\<rparr>) | Fail i \<Rightarrow> Fail (s\<lparr>d_in := i\<rparr>)
      | Undef \<Rightarrow> Undef | Fuel \<Rightarrow> Fuel)"

definition derror :: "string \<Rightarrow> ('a, 'h, 'u) dec_action" where
  "derror msg = on_stream (ierror msg)"

definition upd_mem :: "(mem \<Rightarrow> mem) \<Rightarrow> (unit, 'h, 'u) dec_action" where
  "upd_mem f s = Ok () (s\<lparr>d_mem := f (d_mem s)\<rparr>)"

text \<open>\<open>pb_read\<close> into memory.\<close>

definition read_into :: "addr \<Rightarrow> u64 \<Rightarrow> (unit, 'h, 'u) dec_action" where
  "read_into p n = mbind (on_stream (pb_read n)) (\<lambda>buf. upd_mem (\<lambda>m. mem_write m p buf))"

definition call_free :: "('h, 'u) dec_env \<Rightarrow> addr \<Rightarrow> (unit, 'h, 'u) dec_action" where
  "call_free env p s =
     (case de_free env p (d_mem s) (d_alloc s) of (m, h) \<Rightarrow> Ok () (s\<lparr>d_mem := m, d_alloc := h\<rparr>))"

text \<open>\<open>*(pb_size_t*)iter->pSize\<close> and \<open>*(bool*)iter->pSize = b\<close>.\<close>

definition get_size :: "pb_field_iter \<Rightarrow> ('h, 'u) dec_state \<Rightarrow> u32" where
  "get_size iter s = (case pSize iter of SizeAt a \<Rightarrow> load32 (d_mem s) a | SizeFixedCount \<Rightarrow> d_fixed s)"

definition set_size :: "pb_field_iter \<Rightarrow> u32 \<Rightarrow> (unit, 'h, 'u) dec_action" where
  "set_size iter n s =
     (case pSize iter of
        SizeAt a \<Rightarrow> Ok () (s\<lparr>d_mem := store32 a n (d_mem s)\<rparr>)
      | SizeFixedCount \<Rightarrow> Ok () (s\<lparr>d_fixed := n\<rparr>))"

definition set_has :: "pb_field_iter \<Rightarrow> bool \<Rightarrow> (unit, 'h, 'u) dec_action" where
  "set_has iter b =
     (case pSize iter of
        SizeAt a \<Rightarrow> upd_mem (store8 a (if b then 1 else 0)) | SizeFixedCount \<Rightarrow> (\<lambda>_. Undef))"

text \<open>A loop over a list of independent steps.\<close>

primrec each :: "('b \<Rightarrow> ('s \<Rightarrow> (unit, 's) outcome)) \<Rightarrow> 'b list \<Rightarrow> 's \<Rightarrow> (unit, 's) outcome" where
  "each f [] = mreturn ()"
| "each f (x # xs) = mthen (f x) (each f xs)"

definition memset0 :: "addr \<Rightarrow> u32 \<Rightarrow> (unit, 'h, 'u) dec_action" where
  "memset0 p n = upd_mem (\<lambda>m. mem_write m p (replicate (unat n) 0))"

section \<open>Field decoders\<close>

definition pb_dec_bool :: "('h, 'u) pb_decoder" where
  "pb_dec_bool field dest =
     mbind (on_stream pb_decode_varint32) (\<lambda>v. upd_mem (store8 dest (if v \<noteq> 0 then 1 else 0)))"

text \<open>\<open>clamped = *(intN_t)dest = (intN_t)v\<close>: what is stored and its value at 64 bits.\<close>

definition store_int :: "u32 \<Rightarrow> addr \<Rightarrow> 64 word \<Rightarrow> ((mem \<Rightarrow> mem) \<times> 64 word) option" where
  "store_int dsize dest v =
     (if dsize = 8 then Some (store64 dest v, v)
      else if dsize = 4 then Some (store32 dest (ucast v), scast (ucast v :: 32 word))
      else if dsize = 2 then Some (store16 dest (ucast v), scast (ucast v :: 16 word))
      else if dsize = 1 then Some (store8 dest (ucast v), scast (ucast v :: 8 word))
      else None)"

definition store_uint :: "u32 \<Rightarrow> addr \<Rightarrow> u64 \<Rightarrow> ((mem \<Rightarrow> mem) \<times> u64) option" where
  "store_uint dsize dest v =
     (if dsize = 8 then Some (store64 dest v, v)
      else if dsize = 4 then Some (store32 dest (ucast v), ucast (ucast v :: 32 word))
      else if dsize = 2 then Some (store16 dest (ucast v), ucast (ucast v :: 16 word))
      else if dsize = 1 then Some (store8 dest (ucast v), ucast (ucast v :: 8 word))
      else None)"

definition store_checked :: "((mem \<Rightarrow> mem) \<times> 64 word) option \<Rightarrow> 64 word \<Rightarrow> (unit, 'h, 'u) dec_action" where
  "store_checked st v =
     (case st of
        None \<Rightarrow> derror ''invalid data_size''
      | Some (w, clamped) \<Rightarrow>
          mthen (upd_mem w) (if clamped \<noteq> v then derror ''integer too large'' else mreturn ()))"

definition pb_dec_varint :: "('h, 'u) pb_decoder" where
  "pb_dec_varint field dest =
     mbind (on_stream pb_decode_varint)
       (\<lambda>v. let svalue = (if data_size field = 8 then v else scast (ucast v :: 32 word))
             in store_checked (store_int (data_size field) dest svalue) svalue)"

definition pb_dec_uvarint :: "('h, 'u) pb_decoder" where
  "pb_dec_uvarint field dest =
     mbind (on_stream pb_decode_varint) (\<lambda>v. store_checked (store_uint (data_size field) dest v) v)"

definition pb_dec_svarint :: "('h, 'u) pb_decoder" where
  "pb_dec_svarint field dest =
     mbind (on_stream pb_decode_svarint) (\<lambda>v. store_checked (store_int (data_size field) dest v) v)"

definition pb_dec_fixed32 :: "('h, 'u) pb_decoder" where
  "pb_dec_fixed32 field dest = mbind (on_stream pb_decode_fixed32) (\<lambda>v. upd_mem (store32 dest v))"

definition pb_dec_fixed64 :: "('h, 'u) pb_decoder" where
  "pb_dec_fixed64 field dest = mbind (on_stream pb_decode_fixed64) (\<lambda>v. upd_mem (store64 dest v))"

text \<open>The check of the product is made only where a factor has more than 32 bits.\<close>

definition allocate_field :: "('h, 'u) dec_env \<Rightarrow> addr \<Rightarrow> u64 \<Rightarrow> u64 \<Rightarrow> (unit, 'h, 'u) dec_action" where
  "allocate_field env p dsize asize s =
     (if dsize = 0 \<or> asize = 0 then derror ''invalid size'' s
      else if (push_bit 32 1 \<le> dsize \<or> push_bit 32 1 \<le> asize) \<and> (- 1) div asize < dsize
      then derror ''size too large'' s
      else case de_realloc env (load64 (d_mem s) p) (asize * dsize) (d_mem s) (d_alloc s) of
             (ptr, m, h) \<Rightarrow>
               if ptr = 0 then derror ''realloc failed'' (s\<lparr>d_mem := m, d_alloc := h\<rparr>)
               else Ok () (s\<lparr>d_mem := store64 p ptr m, d_alloc := h\<rparr>))"

text \<open>\<open>size > PB_SIZE_MAX\<close> and \<open>size > alloc_size\<close> cannot hold with a 32-bit \<open>pb_size_t\<close> and a
  64-bit \<open>size_t\<close>; they are kept as the code has them.\<close>

definition pb_dec_bytes :: "('h, 'u) dec_env \<Rightarrow> ('h, 'u) pb_decoder" where
  "pb_dec_bytes env field dest =
     mbind (on_stream pb_decode_varint32) (\<lambda>sz.
       let alloc_size = ucast sz + offsetof_bytes :: u64 in
       if PB_SIZE_MAX < sz then derror ''bytes overflow''
       else if alloc_size < ucast sz then derror ''size too large''
       else
         mbind
           (\<lambda>s. if PB_ATYPE (ftype field) = PB_ATYPE_POINTER then
                   if bytes_left (d_in s) < ucast sz then derror ''end-of-stream'' s
                   else mthen (allocate_field env dest alloc_size 1)
                          (\<lambda>s. Ok (load64 (d_mem s) dest) s) s
                 else if ucast (data_size field) < alloc_size then derror ''bytes overflow'' s
                 else Ok dest s)
           (\<lambda>bdest. mthen (upd_mem (store32 bdest sz)) (read_into (bdest + offsetof_bytes) (ucast sz))))"

text \<open>\<open>size + 1\<close> is a 32-bit sum. The terminator is written even if the read failed.\<close>

definition pb_dec_string :: "('h, 'u) dec_env \<Rightarrow> ('h, 'u) pb_decoder" where
  "pb_dec_string env field dest =
     mbind (on_stream pb_decode_varint32) (\<lambda>sz.
       let alloc_size = ucast (sz + 1) :: u64 in
       if alloc_size < ucast sz then derror ''size too large''
       else
         mbind
           (\<lambda>s. if PB_ATYPE (ftype field) = PB_ATYPE_POINTER then
                   if bytes_left (d_in s) < ucast sz then derror ''end-of-stream'' s
                   else mthen (allocate_field env dest alloc_size 1)
                          (\<lambda>s. Ok (load64 (d_mem s) dest) s) s
                 else if ucast (data_size field) < alloc_size then derror ''string overflow'' s
                 else Ok dest s)
           (\<lambda>d s. case read_into d (ucast sz) s of
                      Ok _ s' \<Rightarrow> upd_mem (store8 (d + ucast sz) 0) s'
                    | Fail s' \<Rightarrow> Fail (s'\<lparr>d_mem := store8 (d + ucast sz) 0 (d_mem s')\<rparr>)
                    | r \<Rightarrow> r))"

definition pb_dec_fixed_length_bytes :: "('h, 'u) pb_decoder" where
  "pb_dec_fixed_length_bytes field dest =
     mbind (on_stream pb_decode_varint32) (\<lambda>sz.
       if PB_SIZE_MAX < sz then derror ''bytes overflow''
       else if sz = 0 then memset0 dest (data_size field)
       else if sz \<noteq> data_size field then derror ''incorrect fixed length bytes size''
       else read_into dest (ucast (data_size field)))"

subsection \<open>Substreams\<close>

definition leave_substream :: "'u pb_istream \<Rightarrow> ('h, 'u) dec_state \<Rightarrow> ('h, 'u) dec_state" where
  "leave_substream parent s = s\<lparr>d_in := share_source (d_in s) parent\<rparr>"

text \<open>\<open>if (!pb_close_string_substream(stream, &substream)) return false; return status;\<close>\<close>

definition close_substream ::
  "'u pb_istream \<Rightarrow> (unit, ('h, 'u) dec_state) outcome \<Rightarrow> (unit, ('h, 'u) dec_state) outcome" where
  "close_substream parent r =
     (case r of
        Ok _ s \<Rightarrow> on_stream (pb_close_string_substream (d_in s)) (leave_substream parent s)
      | Fail s \<Rightarrow>
          (case on_stream (pb_close_string_substream (d_in s)) (leave_substream parent s) of
             Ok _ s' \<Rightarrow> Fail s' | r' \<Rightarrow> r')
      | Undef \<Rightarrow> Undef | Fuel \<Rightarrow> Fuel)"

definition in_substream :: "(unit, 'h, 'u) dec_action \<Rightarrow> (unit, 'h, 'u) dec_action" where
  "in_substream f =
     mbind (on_stream pb_make_string_substream)
       (\<lambda>sub s. close_substream (d_in s) (f (s\<lparr>d_in := sub\<rparr>)))"

definition pb_dec_submessage :: "('h, 'u) msg_decoder \<Rightarrow> ('h, 'u) pb_decoder" where
  "pb_dec_submessage dec field dest =
     (case fptr field of
        PtrNull \<Rightarrow> mbind (on_stream pb_make_string_substream) (\<lambda>_. derror ''invalid field descriptor'')
      | PtrSubmsg mid \<Rightarrow>
          in_substream (dec (PB_HTYPE (ftype field) = PB_HTYPE_REPEATED) mid dest)
      | PtrDefault _ \<Rightarrow> mbind (on_stream pb_make_string_substream) (\<lambda>_ _. Undef))"

definition PB_DECODERS :: "('h, 'u) dec_env \<Rightarrow> ('h, 'u) msg_decoder \<Rightarrow> byte \<Rightarrow> ('h, 'u) pb_decoder" where
  "PB_DECODERS env dec ltype field dest =
     (if ltype = PB_LTYPE_BOOL then pb_dec_bool field dest
      else if ltype = PB_LTYPE_VARINT then pb_dec_varint field dest
      else if ltype = PB_LTYPE_UVARINT then pb_dec_uvarint field dest
      else if ltype = PB_LTYPE_SVARINT then pb_dec_svarint field dest
      else if ltype = PB_LTYPE_FIXED32 then pb_dec_fixed32 field dest
      else if ltype = PB_LTYPE_FIXED64 then pb_dec_fixed64 field dest
      else if ltype = PB_LTYPE_BYTES then pb_dec_bytes env field dest
      else if ltype = PB_LTYPE_STRING then pb_dec_string env field dest
      else if ltype = PB_LTYPE_SUBMESSAGE then pb_dec_submessage dec field dest
      else if ltype = PB_LTYPE_FIXED_LENGTH_BYTES then pb_dec_fixed_length_bytes field dest
      else (\<lambda>_. Undef))"

section \<open>Extensions\<close>

definition ext_field :: "('h, 'u) dec_env \<Rightarrow> mem \<Rightarrow> addr \<Rightarrow> pb_field" where
  "ext_field env m e = et_arg (de_ext_type env (ext_type_of m e))"

text \<open>The fake iterator of an extension; a pointer-type extension keeps its pointer in the
  \<open>pb_extension_t\<close> itself.\<close>

definition iter_from_extension :: "('h, 'u) dec_env \<Rightarrow> mem \<Rightarrow> addr \<Rightarrow> pb_field_iter" where
  "iter_from_extension env m e =
     (let field = ext_field env m e; dest = load64 m (ext_dest_ptr e);
          iter = snd (pb_field_iter_begin [field] dest)
      in iter\<lparr>pSize := SizeAt (ext_found_ptr e),
              pData := (if PB_ATYPE (ftype field) = PB_ATYPE_POINTER then ext_dest_ptr e else dest)\<rparr>)"

text \<open>\<open>while (ext != NULL) { ...; ext = ext->next; }\<close>\<close>

fun ext_walk :: "(addr \<Rightarrow> (unit, 'h, 'u) dec_action) \<Rightarrow> nat \<Rightarrow> addr \<Rightarrow> (unit, 'h, 'u) dec_action" where
  "ext_walk f 0 e = (if e = 0 then mreturn () else (\<lambda>_. Fuel))"
| "ext_walk f (Suc n) e =
     (if e = 0 then mreturn ()
      else mthen (f e) (\<lambda>s. ext_walk f n (ext_next (d_mem s) e) s))"

section \<open>Default values\<close>

definition default_data :: "(nat \<Rightarrow> addr \<Rightarrow> (unit, 'h, 'u) dec_action) \<Rightarrow> pb_field_iter \<Rightarrow> (unit, 'h, 'u) dec_action" where
  "default_data message iter =
     (let field = it_field iter in
      if PB_LTYPE (ftype field) = PB_LTYPE_SUBMESSAGE then
        case fptr field of PtrSubmsg mid \<Rightarrow> message mid (pData iter) | _ \<Rightarrow> (\<lambda>_. Undef)
      else case fptr field of
        PtrDefault bs \<Rightarrow> upd_mem (\<lambda>m. mem_write m (pData iter) (take (unat (data_size field)) bs))
      | PtrNull \<Rightarrow> memset0 (pData iter) (data_size field)
      | PtrSubmsg _ \<Rightarrow> (\<lambda>_. Undef))"

definition field_to_default ::
  "('h, 'u) dec_env \<Rightarrow> (nat \<Rightarrow> addr \<Rightarrow> (unit, 'h, 'u) dec_action) \<Rightarrow>
   (pb_field_iter \<Rightarrow> (unit, 'h, 'u) dec_action) \<Rightarrow> pb_field_iter \<Rightarrow> (unit, 'h, 'u) dec_action" where
  "field_to_default env message self iter =
     (let type = ftype (it_field iter) in
      if PB_LTYPE type = PB_LTYPE_EXTENSION then
        (\<lambda>s. ext_walk
               (\<lambda>e. mthen (upd_mem (store8 (ext_found_ptr e) 0))
                       (\<lambda>s. self (iter_from_extension env (d_mem s) e) s))
               (de_steps env) (load64 (d_mem s) (pData iter)) s)
      else if PB_ATYPE type = PB_ATYPE_STATIC then
        if PB_HTYPE type = PB_HTYPE_OPTIONAL \<and> pSize iter \<noteq> SizeAt (pData iter)
        then mthen (set_has iter False) (default_data message iter)
        else if PB_HTYPE type = PB_HTYPE_REPEATED \<or> PB_HTYPE type = PB_HTYPE_ONEOF
        then set_size iter 0
        else default_data message iter
      else if PB_ATYPE type = PB_ATYPE_POINTER then
        mthen (upd_mem (store64 (pData iter) 0))
          (if PB_HTYPE type = PB_HTYPE_REPEATED \<or> PB_HTYPE type = PB_HTYPE_ONEOF
           then set_size iter 0 else mreturn ())
      else mreturn ())"

primrec pb_field_set_to_default :: "('h, 'u) dec_env \<Rightarrow> nat \<Rightarrow> pb_field_iter \<Rightarrow> (unit, 'h, 'u) dec_action" where
  "pb_field_set_to_default env 0 = (\<lambda>iter s. Fuel)"
| "pb_field_set_to_default env (Suc n) =
     field_to_default env
       (\<lambda>mid dest. each (pb_field_set_to_default env n) (field_iters (de_descs env mid) dest))
       (pb_field_set_to_default env n)"

definition pb_message_set_to_defaults :: "('h, 'u) dec_env \<Rightarrow> nat \<Rightarrow> nat \<Rightarrow> addr \<Rightarrow> (unit, 'h, 'u) dec_action" where
  "pb_message_set_to_defaults env n mid dest =
     each (pb_field_set_to_default env n) (field_iters (de_descs env mid) dest)"

text \<open>The call with the submessage type of a field.\<close>

definition submsg_set_to_defaults :: "('h, 'u) dec_env \<Rightarrow> pb_field \<Rightarrow> addr \<Rightarrow> (unit, 'h, 'u) dec_action" where
  "submsg_set_to_defaults env field p =
     (case fptr field of
        PtrSubmsg mid \<Rightarrow> pb_message_set_to_defaults env (de_steps env) mid p | _ \<Rightarrow> (\<lambda>_. Undef))"

section \<open>Releasing memory\<close>

primrec release_items :: "(addr \<Rightarrow> (unit, 'h, 'u) dec_action) \<Rightarrow> u32 \<Rightarrow> nat \<Rightarrow> addr \<Rightarrow> (unit, 'h, 'u) dec_action" where
  "release_items rel dsize 0 p = mreturn ()"
| "release_items rel dsize (Suc n) p = mthen (rel p) (release_items rel dsize n (p + ucast dsize))"

text \<open>\<open>pb_free(*pItem); *pItem++ = NULL;\<close>\<close>

primrec release_strings :: "('h, 'u) dec_env \<Rightarrow> nat \<Rightarrow> addr \<Rightarrow> (unit, 'h, 'u) dec_action" where
  "release_strings env 0 p = mreturn ()"
| "release_strings env (Suc n) p =
     mthen (\<lambda>s. call_free env (load64 (d_mem s) p) s)
       (mthen (upd_mem (store64 p 0)) (release_strings env n (p + of_nat sizeof_ptr)))"

definition release_count :: "pb_field_iter \<Rightarrow> ('h, 'u) dec_state \<Rightarrow> u32" where
  "release_count iter s =
     (let field = it_field iter; type = ftype field; static = (PB_ATYPE type = PB_ATYPE_STATIC) in
      if PB_HTYPE type = PB_HTYPE_REPEATED then
        let count = (if static \<and> pSize iter = SizeAt (pData iter) then array_size field
                     else get_size iter s)
        in if static \<and> array_size field < count then array_size field else count
      else 1)"

text \<open>What is contained in an extension or in submessages.\<close>

definition release_contents ::
  "('h, 'u) dec_env \<Rightarrow> (nat \<Rightarrow> addr \<Rightarrow> (unit, 'h, 'u) dec_action) \<Rightarrow>
   (pb_field_iter \<Rightarrow> (unit, 'h, 'u) dec_action) \<Rightarrow> pb_field_iter \<Rightarrow> (unit, 'h, 'u) dec_action" where
  "release_contents env message self iter s =
     (let field = it_field iter; type = ftype field in
      if PB_LTYPE type = PB_LTYPE_EXTENSION then
        ext_walk (\<lambda>e s. self (iter_from_extension env (d_mem s) e) s) (de_steps env)
          (load64 (d_mem s) (pData iter)) s
      else if PB_LTYPE type = PB_LTYPE_SUBMESSAGE \<and> PB_ATYPE type \<noteq> PB_ATYPE_CALLBACK then
        let pItem = (if PB_ATYPE type = PB_ATYPE_POINTER then load64 (d_mem s) (pData iter) else pData iter)
        in if pItem \<noteq> 0 then
             release_items (\<lambda>p. case fptr field of PtrSubmsg mid \<Rightarrow> message mid p | _ \<Rightarrow> (\<lambda>_. Undef))
               (data_size field) (unat (release_count iter s)) pItem s
           else Ok () s
      else Ok () s)"

definition release_pointer :: "('h, 'u) dec_env \<Rightarrow> pb_field_iter \<Rightarrow> (unit, 'h, 'u) dec_action" where
  "release_pointer env iter =
     (let type = ftype (it_field iter); repeated = (PB_HTYPE type = PB_HTYPE_REPEATED) in
      mthen
        (if repeated \<and> (PB_LTYPE type = PB_LTYPE_STRING \<or> PB_LTYPE type = PB_LTYPE_BYTES)
         then (\<lambda>s. release_strings env (unat (get_size iter s)) (load64 (d_mem s) (pData iter)) s)
         else mreturn ())
        (mthen (if repeated then set_size iter 0 else mreturn ())
          (mthen (\<lambda>s. call_free env (load64 (d_mem s) (pData iter)) s)
            (upd_mem (store64 (pData iter) 0)))))"

definition release_field ::
  "('h, 'u) dec_env \<Rightarrow> (nat \<Rightarrow> addr \<Rightarrow> (unit, 'h, 'u) dec_action) \<Rightarrow>
   (pb_field_iter \<Rightarrow> (unit, 'h, 'u) dec_action) \<Rightarrow> pb_field_iter \<Rightarrow> (unit, 'h, 'u) dec_action" where
  "release_field env message self iter s =
     (let field = it_field iter; type = ftype field in
      if PB_HTYPE type = PB_HTYPE_ONEOF \<and> get_size iter s \<noteq> tag field then Ok () s
      else
        mthen (release_contents env message self iter)
          (if PB_ATYPE type = PB_ATYPE_POINTER then release_pointer env iter else mreturn ()) s)"

definition release_message :: "(pb_field_iter \<Rightarrow> (unit, 'h, 'u) dec_action) \<Rightarrow> fields \<Rightarrow> addr \<Rightarrow> (unit, 'h, 'u) dec_action" where
  "release_message single fs dest = (if dest = 0 then mreturn () else each single (field_iters fs dest))"

primrec pb_release_single_field :: "('h, 'u) dec_env \<Rightarrow> nat \<Rightarrow> pb_field_iter \<Rightarrow> (unit, 'h, 'u) dec_action" where
  "pb_release_single_field env 0 = (\<lambda>iter s. Fuel)"
| "pb_release_single_field env (Suc n) =
     release_field env
       (\<lambda>mid dest. release_message (pb_release_single_field env n) (de_descs env mid) dest)
       (pb_release_single_field env n)"

definition pb_release :: "('h, 'u) dec_env \<Rightarrow> nat \<Rightarrow> nat \<Rightarrow> addr \<Rightarrow> (unit, 'h, 'u) dec_action" where
  "pb_release env n mid dest = release_message (pb_release_single_field env n) (de_descs env mid) dest"

text \<open>\<open>pb_field_iter_find\<close> as a step: the iterator it leaves, and whether it found the tag.\<close>

definition find_iter :: "pb_field_iter \<Rightarrow> u32 \<Rightarrow> (bool \<times> pb_field_iter, 'h, 'u) dec_action" where
  "find_iter iter t = (case pb_field_iter_find iter t of None \<Rightarrow> (\<lambda>_. Fuel) | Some r \<Rightarrow> mreturn r)"

definition pb_release_union_field :: "('h, 'u) dec_env \<Rightarrow> pb_field_iter \<Rightarrow> (pb_field_iter, 'h, 'u) dec_action" where
  "pb_release_union_field env iter s =
     (let old_tag = get_size iter s; new_tag = tag (it_field iter) in
      if old_tag = 0 \<or> old_tag = new_tag then Ok iter s
      else mbind (find_iter iter old_tag) (\<lambda>(ok, iter).
        if \<not> ok then derror ''invalid union tag''
        else mthen (pb_release_single_field env (de_steps env) iter)
          (mbind (find_iter iter new_tag) (\<lambda>(ok, iter).
            if \<not> ok then derror ''iterator error''
            else mthen (if PB_ATYPE (ftype (it_field iter)) = PB_ATYPE_POINTER
                        then upd_mem (store64 (pData iter) 0) else mreturn ())
              (mreturn iter)))) s)"

section \<open>A single field\<close>

text \<open>\<open>iter->pData + iter->pos->data_size * (*size)\<close>: the product is a 32-bit one.\<close>

definition item_at :: "addr \<Rightarrow> pb_field \<Rightarrow> u32 \<Rightarrow> addr" where
  "item_at base field n = base + ucast (data_size field * n)"

text \<open>The loop over a packed array; status false is \<open>Fail\<close>. Every item takes at least one byte of
  the substream, so one step more than it has bytes is enough fuel.\<close>

fun packed_static_loop :: "('h, 'u) pb_decoder \<Rightarrow> pb_field_iter \<Rightarrow> nat \<Rightarrow> (unit, 'h, 'u) dec_action" where
  "packed_static_loop func iter 0 s = Fuel"
| "packed_static_loop func iter (Suc n) s =
     (if 0 < bytes_left (d_in s) \<and> get_size iter s < array_size (it_field iter) then
        mthen (func (it_field iter) (item_at (pData iter) (it_field iter) (get_size iter s)))
          (mthen (\<lambda>s. set_size iter (get_size iter s + 1) s) (packed_static_loop func iter n)) s
      else Ok () s)"

definition packed_static :: "('h, 'u) pb_decoder \<Rightarrow> pb_field_iter \<Rightarrow> (unit, 'h, 'u) dec_action" where
  "packed_static func iter =
     mbind (on_stream pb_make_string_substream) (\<lambda>sub s.
       let parent = d_in s;
           r = packed_static_loop func iter (Suc (unat (bytes_left sub))) (s\<lparr>d_in := sub\<rparr>);
           finish = (\<lambda>s'. if bytes_left (d_in s') \<noteq> 0
                          then derror ''array overflow'' (leave_substream parent s')
                          else close_substream parent r)
       in case r of Ok _ s' \<Rightarrow> finish s' | Fail s' \<Rightarrow> finish s' | Undef \<Rightarrow> Undef | Fuel \<Rightarrow> Fuel)"

definition decode_static_field ::
  "('h, 'u) dec_env \<Rightarrow> ('h, 'u) msg_decoder \<Rightarrow> u32 \<Rightarrow> pb_field_iter \<Rightarrow> (unit, 'h, 'u) dec_action" where
  "decode_static_field env dec wire_type iter =
     (let field = it_field iter; type = ftype field; func = PB_DECODERS env dec (PB_LTYPE type) in
      if PB_HTYPE type = PB_HTYPE_REQUIRED then func field (pData iter)
      else if PB_HTYPE type = PB_HTYPE_OPTIONAL then
        mthen (if pSize iter \<noteq> SizeAt (pData iter) then set_has iter True else mreturn ())
          (func field (pData iter))
      else if PB_HTYPE type = PB_HTYPE_REPEATED then
        if wire_type = PB_WT_STRING \<and> PB_LTYPE type \<le> PB_LTYPE_LAST_PACKABLE
        then packed_static func iter
        else (\<lambda>s. let n = get_size iter s in
               mthen (set_size iter (n + 1))
                 (if array_size field \<le> n then derror ''array overflow''
                  else func field (item_at (pData iter) field n)) s)
      else if PB_HTYPE type = PB_HTYPE_ONEOF then
        mthen
          (\<lambda>s. if PB_LTYPE type = PB_LTYPE_SUBMESSAGE \<and> get_size iter s \<noteq> tag field
                then mthen (memset0 (pData iter) (data_size field))
                       (submsg_set_to_defaults env field (pData iter)) s
                else Ok () s)
          (mthen (set_size iter (tag field)) (func field (pData iter)))
      else derror ''invalid field type'')"

definition initialize_pointer_field :: "('h, 'u) dec_env \<Rightarrow> addr \<Rightarrow> pb_field \<Rightarrow> (unit, 'h, 'u) dec_action" where
  "initialize_pointer_field env pItem field =
     (if PB_LTYPE (ftype field) = PB_LTYPE_STRING \<or> PB_LTYPE (ftype field) = PB_LTYPE_BYTES
      then upd_mem (store64 pItem 0)
      else if PB_LTYPE (ftype field) = PB_LTYPE_SUBMESSAGE
      then mthen (memset0 pItem (data_size field)) (submsg_set_to_defaults env field pItem)
      else mreturn ())"

text \<open>
  The loop over a packed array of a pointer field. \<open>Ok True\<close>: the substream is used up;
  \<open>Ok False\<close>: status is false for too many entries; \<open>Fail\<close>: status is false otherwise.
  \<open>packed_alloc\<close> makes room for the entry at \<open>*size\<close>; \<open>alloc\<close> is \<open>allocated_size\<close>.
\<close>

definition packed_alloc :: "('h, 'u) dec_env \<Rightarrow> pb_field_iter \<Rightarrow> u64 \<Rightarrow> (u64, 'h, 'u) dec_action" where
  "packed_alloc env iter alloc s =
     (let dsize = ucast (data_size (it_field iter)) :: u64 in
      if alloc < ucast (get_size iter s) + 1 then
        if dsize = 0 then Undef
        else
          let remain = (bytes_left (d_in s) - 1) div dsize + 1;
              alloc = (if remain < ucast PB_SIZE_MAX - alloc then alloc + remain else alloc + 1)
          in mthen (allocate_field env (pData iter) dsize alloc) (mreturn alloc) s
      else Ok alloc s)"

fun packed_pointer_loop ::
  "('h, 'u) dec_env \<Rightarrow> ('h, 'u) pb_decoder \<Rightarrow> pb_field_iter \<Rightarrow> nat \<Rightarrow> u64 \<Rightarrow> (bool, 'h, 'u) dec_action" where
  "packed_pointer_loop env func iter 0 alloc s = Fuel"
| "packed_pointer_loop env func iter (Suc n) alloc s =
     (if bytes_left (d_in s) = 0 then Ok True s
      else if get_size iter s = PB_SIZE_MAX then Ok False s
      else
        mbind (packed_alloc env iter alloc) (\<lambda>alloc s.
          let pItem = item_at (load64 (d_mem s) (pData iter)) (it_field iter) (get_size iter s) in
          if pItem = 0 then Fail s
          else mthen (initialize_pointer_field env pItem (it_field iter))
                 (mthen (func (it_field iter) pItem)
                   (mthen (\<lambda>s. set_size iter (get_size iter s + 1) s)
                     (packed_pointer_loop env func iter n alloc))) s) s)"

definition packed_pointer :: "('h, 'u) dec_env \<Rightarrow> ('h, 'u) pb_decoder \<Rightarrow> pb_field_iter \<Rightarrow> (unit, 'h, 'u) dec_action" where
  "packed_pointer env func iter s0 =
     mbind (on_stream pb_make_string_substream) (\<lambda>sub s.
       let parent = d_in s in
       case packed_pointer_loop env func iter (Suc (unat (bytes_left sub)))
              (ucast (get_size iter s0)) (s\<lparr>d_in := sub\<rparr>) of
         Ok True s' \<Rightarrow> close_substream parent (Ok () s')
       | Ok False s' \<Rightarrow>
           close_substream (parent\<lparr>is_errmsg := Some ''too many array entries''\<rparr>) (Fail s')
       | Fail s' \<Rightarrow> close_substream parent (Fail s')
       | Undef \<Rightarrow> Undef | Fuel \<Rightarrow> Fuel) s0"

definition decode_pointer_field ::
  "('h, 'u) dec_env \<Rightarrow> ('h, 'u) msg_decoder \<Rightarrow> u32 \<Rightarrow> pb_field_iter \<Rightarrow> (unit, 'h, 'u) dec_action" where
  "decode_pointer_field env dec wire_type iter =
     (let field = it_field iter; type = ftype field; func = PB_DECODERS env dec (PB_LTYPE type) in
      if PB_HTYPE type = PB_HTYPE_REQUIRED \<or> PB_HTYPE type = PB_HTYPE_OPTIONAL \<or>
         PB_HTYPE type = PB_HTYPE_ONEOF then
        mthen (\<lambda>s. if PB_LTYPE type = PB_LTYPE_SUBMESSAGE \<and> load64 (d_mem s) (pData iter) \<noteq> 0
                    then pb_release_single_field env (de_steps env) iter s else Ok () s)
          (mthen (if PB_HTYPE type = PB_HTYPE_ONEOF then set_size iter (tag field) else mreturn ())
            (if PB_LTYPE type = PB_LTYPE_STRING \<or> PB_LTYPE type = PB_LTYPE_BYTES
             then func field (pData iter)
             else mthen (allocate_field env (pData iter) (ucast (data_size field)) 1)
                    (mthen (\<lambda>s. initialize_pointer_field env (load64 (d_mem s) (pData iter)) field s)
                      (\<lambda>s. func field (load64 (d_mem s) (pData iter)) s))))
      else if PB_HTYPE type = PB_HTYPE_REPEATED then
        if wire_type = PB_WT_STRING \<and> PB_LTYPE type \<le> PB_LTYPE_LAST_PACKABLE
        then packed_pointer env func iter
        else (\<lambda>s. let n = get_size iter s in
               if n = PB_SIZE_MAX then derror ''too many array entries'' s
               else
                 mthen (allocate_field env (pData iter) (ucast (data_size field)) (ucast (n + 1)))
                   (\<lambda>s. let pItem = item_at (load64 (d_mem s) (pData iter)) field n in
                     mthen (set_size iter (n + 1))
                       (mthen (initialize_pointer_field env pItem field) (func field pItem)) s) s)
      else derror ''invalid field type'')"

text \<open>\<open>do { if (!decode(&substream, ...)) error; } while (substream.bytes_left)\<close>; the callback
  pointer is read again each time, and the error is the parent stream's.\<close>

fun callback_loop ::
  "('h, 'u) dec_env \<Rightarrow> pb_field_iter \<Rightarrow> nat \<Rightarrow> 'u pb_istream \<Rightarrow> (unit, 'h, 'u) dec_action" where
  "callback_loop env iter 0 parent s = Fuel"
| "callback_loop env iter (Suc n) parent s =
     (let fn = load64 (d_mem s) (pData iter) in
      if fn = 0 then Undef
      else case de_callback env fn (it_field iter) (pData iter + 8) s of
        Ok _ s' \<Rightarrow>
          if bytes_left (d_in s') \<noteq> 0 then callback_loop env iter n parent s'
          else close_substream parent (Ok () s')
      | Fail s' \<Rightarrow> derror ''callback failed'' (leave_substream parent s')
      | Undef \<Rightarrow> Undef | Fuel \<Rightarrow> Fuel)"

text \<open>A scalar is copied to a buffer of ten bytes on the stack, and the callback reads it from there.\<close>

definition callback_buffer_size :: nat where "callback_buffer_size = 10"

definition stack_stream :: "byte list \<Rightarrow> 'u pb_istream" where
  "stack_stream buf = pb_istream_from_buffer (mem_write (\<lambda>_. 0) 0 buf) 0 (of_nat (length buf))"

definition decode_callback_field :: "('h, 'u) dec_env \<Rightarrow> u32 \<Rightarrow> pb_field_iter \<Rightarrow> (unit, 'h, 'u) dec_action" where
  "decode_callback_field env wire_type iter s =
     (let fn = load64 (d_mem s) (pData iter) in
      if pData iter = 0 \<or> fn = 0 then on_stream (pb_skip_field wire_type) s
      else if wire_type = PB_WT_STRING then
        mbind (on_stream pb_make_string_substream)
          (\<lambda>sub s. callback_loop env iter (Suc (de_steps env)) (d_in s) (s\<lparr>d_in := sub\<rparr>)) s
      else
        mbind (on_stream (read_raw_value wire_type callback_buffer_size))
          (\<lambda>buf s. case de_callback env fn (it_field iter) (pData iter + 8) (s\<lparr>d_in := stack_stream buf\<rparr>) of
                     Ok _ s' \<Rightarrow> Ok () (s'\<lparr>d_in := d_in s\<rparr>)
                   | Fail s' \<Rightarrow> Fail (s'\<lparr>d_in := d_in s\<rparr>)
                   | Undef \<Rightarrow> Undef | Fuel \<Rightarrow> Fuel) s)"

text \<open>The iterator may have moved within a oneof, so it is returned.\<close>

definition decode_field ::
  "('h, 'u) dec_env \<Rightarrow> ('h, 'u) msg_decoder \<Rightarrow> u32 \<Rightarrow> pb_field_iter \<Rightarrow> (pb_field_iter, 'h, 'u) dec_action" where
  "decode_field env dec wire_type iter =
     mbind (if PB_HTYPE (ftype (it_field iter)) = PB_HTYPE_ONEOF
            then pb_release_union_field env iter else mreturn iter)
       (\<lambda>iter.
          mthen
            (let atype = PB_ATYPE (ftype (it_field iter)) in
             if atype = PB_ATYPE_STATIC then decode_static_field env dec wire_type iter
             else if atype = PB_ATYPE_POINTER then decode_pointer_field env dec wire_type iter
             else if atype = PB_ATYPE_CALLBACK then decode_callback_field env wire_type iter
             else derror ''invalid field type'')
            (mreturn iter))"

section \<open>Extension fields of a message\<close>

definition default_extension_decoder ::
  "('h, 'u) dec_env \<Rightarrow> ('h, 'u) msg_decoder \<Rightarrow> u32 \<Rightarrow> u32 \<Rightarrow> addr \<Rightarrow> (unit, 'h, 'u) dec_action" where
  "default_extension_decoder env dec t wire_type e s =
     (if tag (ext_field env (d_mem s) e) \<noteq> t then Ok () s
      else
        let iter = iter_from_extension env (d_mem s) e in
        mthen (upd_mem (store8 (ext_found_ptr e) 1))
          (mbind (decode_field env dec wire_type iter) (\<lambda>_. mreturn ())) s)"

fun decode_extensions ::
  "('h, 'u) dec_env \<Rightarrow> ('h, 'u) msg_decoder \<Rightarrow> u32 \<Rightarrow> u32 \<Rightarrow> u64 \<Rightarrow> nat \<Rightarrow> addr \<Rightarrow> (unit, 'h, 'u) dec_action" where
  "decode_extensions env dec t wt pos 0 e s = (if e = 0 \<or> pos \<noteq> bytes_left (d_in s) then Ok () s else Fuel)"
| "decode_extensions env dec t wt pos (Suc n) e s =
     (if e = 0 \<or> pos \<noteq> bytes_left (d_in s) then Ok () s
      else
        let ty = de_ext_type env (ext_type_of (d_mem s) e) in
        mthen (if et_decode ty \<noteq> 0 then de_ext_decode env (et_decode ty) e t wt
               else default_extension_decoder env dec t wt e)
          (\<lambda>s. decode_extensions env dec t wt pos n (ext_next (d_mem s) e) s) s)"

definition decode_extension ::
  "('h, 'u) dec_env \<Rightarrow> ('h, 'u) msg_decoder \<Rightarrow> u32 \<Rightarrow> u32 \<Rightarrow> pb_field_iter \<Rightarrow> (unit, 'h, 'u) dec_action" where
  "decode_extension env dec t wt iter s =
     decode_extensions env dec t wt (bytes_left (d_in s)) (de_steps env)
       (load64 (d_mem s) (pData iter)) s"

definition find_extension_field :: "pb_field_iter \<Rightarrow> (bool \<times> pb_field_iter) option" where
  "find_extension_field iter =
     find_loop (Suc (length (it_start iter))) (\<lambda>f. PB_LTYPE (ftype f) = PB_LTYPE_EXTENSION)
       (it_pos iter) iter"

section \<open>Messages\<close>

text \<open>The local variables of \<open>pb_decode_noinit\<close>; \<open>fixed_count_field\<close> points at the entry of that
  index, \<open>fields_seen\<close> has a bit for each required field.\<close>

record loop_vars =
  lv_iter :: pb_field_iter
  fields_seen :: "u32 list"
  extension_range_start :: u32
  fixed_count_field :: "nat option"

definition allbits :: u32 where "allbits = - 1"

text \<open>The fixed count array decoded last must be complete.\<close>

definition fixed_count_wrong :: "loop_vars \<Rightarrow> ('h, 'u) dec_state \<Rightarrow> bool" where
  "fixed_count_wrong lv s =
     (case fixed_count_field lv of
        None \<Rightarrow> False
      | Some k \<Rightarrow> d_fixed s \<noteq> array_size (field_at (it_start (lv_iter lv)) k))"

definition select_fixed_count :: "loop_vars \<Rightarrow> (loop_vars, 'h, 'u) dec_action" where
  "select_fixed_count lv s =
     (let iter = lv_iter lv; lv' = lv\<lparr>lv_iter := iter\<lparr>pSize := SizeFixedCount\<rparr>\<rparr> in
      if PB_HTYPE (ftype (it_field iter)) = PB_HTYPE_REPEATED \<and> pSize iter = SizeAt (pData iter) then
        if fixed_count_field lv \<noteq> Some (it_pos iter) then
          if fixed_count_wrong lv s then derror ''wrong size for fixed count field'' s
          else Ok (lv'\<lparr>fixed_count_field := Some (it_pos iter)\<rparr>) (s\<lparr>d_fixed := 0\<rparr>)
        else Ok lv' s
      else Ok lv s)"

definition mark_seen :: "u32 \<Rightarrow> u32 list \<Rightarrow> u32 list" where
  "mark_seen i seen =
     seen[unat (drop_bit 5 i) := seen ! unat (drop_bit 5 i) OR push_bit (unat (i AND 31)) 1]"

definition note_required :: "loop_vars \<Rightarrow> loop_vars" where
  "note_required lv =
     (let iter = lv_iter lv in
      if PB_HTYPE (ftype (it_field iter)) = PB_HTYPE_REQUIRED \<and>
         required_field_index iter < PB_MAX_REQUIRED_FIELDS
      then lv\<lparr>fields_seen := mark_seen (required_field_index iter) (fields_seen lv)\<rparr> else lv)"

definition decode_known ::
  "('h, 'u) dec_env \<Rightarrow> ('h, 'u) msg_decoder \<Rightarrow> u32 \<Rightarrow> loop_vars \<Rightarrow> (loop_vars, 'h, 'u) dec_action" where
  "decode_known env dec wt lv =
     mbind (select_fixed_count lv) (\<lambda>lv.
       let lv = note_required lv in
       mbind (decode_field env dec wt (lv_iter lv)) (\<lambda>iter. mreturn (lv\<lparr>lv_iter := iter\<rparr>)))"

definition decode_unknown ::
  "('h, 'u) dec_env \<Rightarrow> ('h, 'u) msg_decoder \<Rightarrow> u32 \<Rightarrow> u32 \<Rightarrow> loop_vars \<Rightarrow> (loop_vars, 'h, 'u) dec_action" where
  "decode_unknown env dec t wt lv s =
     (let skip = (\<lambda>lv. mthen (on_stream (pb_skip_field wt)) (mreturn lv)) in
      if extension_range_start lv \<le> t then
        case find_extension_field (lv_iter lv) of
          None \<Rightarrow> Fuel
        | Some (found, iter) \<Rightarrow>
            let start = (if found then tag (it_field iter) else - 1);
                lv = lv\<lparr>lv_iter := iter, extension_range_start := start\<rparr>
            in if start \<le> t then
                 mthen (decode_extension env dec t wt iter)
                   (\<lambda>s'. if bytes_left (d_in s) \<noteq> bytes_left (d_in s') then Ok lv s' else skip lv s') s
               else skip lv s
      else skip lv s)"

text \<open>One round of the loop; \<open>None\<close> is the \<open>break\<close> at the end of the message.\<close>

definition decode_round ::
  "('h, 'u) dec_env \<Rightarrow> ('h, 'u) msg_decoder \<Rightarrow> loop_vars \<Rightarrow> (loop_vars option, 'h, 'u) dec_action" where
  "decode_round env dec lv s =
     (case pb_decode_tag (d_in s) of
        (Ok (t, wt) i, _) \<Rightarrow>
          mbind (find_iter (lv_iter lv) t) (\<lambda>(found, iter).
            mbind (if found then decode_known env dec wt (lv\<lparr>lv_iter := iter\<rparr>)
                   else decode_unknown env dec t wt (lv\<lparr>lv_iter := iter\<rparr>))
              (\<lambda>lv. mreturn (Some lv))) (s\<lparr>d_in := i\<rparr>)
      | (Fail i, eof) \<Rightarrow> if eof then Ok None (s\<lparr>d_in := i\<rparr>) else Fail (s\<lparr>d_in := i\<rparr>)
      | (Undef, _) \<Rightarrow> Undef
      | (Fuel, _) \<Rightarrow> Fuel)"

fun decode_rounds ::
  "('h, 'u) dec_env \<Rightarrow> ('h, 'u) msg_decoder \<Rightarrow> nat \<Rightarrow> loop_vars \<Rightarrow> (loop_vars, 'h, 'u) dec_action" where
  "decode_rounds env dec 0 lv s = (if bytes_left (d_in s) = 0 then Ok lv s else Fuel)"
| "decode_rounds env dec (Suc n) lv s =
     (if bytes_left (d_in s) = 0 then Ok lv s
      else case decode_round env dec lv s of
             Ok None s' \<Rightarrow> Ok lv s'
           | Ok (Some lv') s' \<Rightarrow> decode_rounds env dec n lv' s'
           | Fail s' \<Rightarrow> Fail s' | Undef \<Rightarrow> Undef | Fuel \<Rightarrow> Fuel)"

text \<open>The number of required fields, found by seeking to the end of the array.\<close>

definition req_field_count :: "pb_field_iter \<Rightarrow> u32" where
  "req_field_count iter =
     (let last_iter = last (visit_loop (Suc (length (it_start iter))) iter);
          n = required_field_index last_iter;
          n = (if PB_HTYPE (ftype (it_field last_iter)) = PB_HTYPE_REQUIRED \<and>
                  tag (it_field (snd (pb_field_iter_next last_iter))) \<noteq> 0 then n + 1 else n)
      in if PB_MAX_REQUIRED_FIELDS < n then PB_MAX_REQUIRED_FIELDS else n)"

definition required_missing :: "u32 \<Rightarrow> u32 list \<Rightarrow> bool" where
  "required_missing count seen =
     (0 < count \<and>
      (list_ex (\<lambda>i. seen ! i \<noteq> allbits) [0..<unat (drop_bit 5 count)] \<or>
       count AND 31 \<noteq> 0 \<and>
       seen ! unat (drop_bit 5 count) \<noteq> drop_bit (unat (32 - (count AND 31))) allbits))"

definition check_required :: "loop_vars \<Rightarrow> (unit, 'h, 'u) dec_action" where
  "check_required lv =
     (if required_missing (req_field_count (lv_iter lv)) (fields_seen lv)
      then derror ''missing required field'' else mreturn ())"

definition check_fixed_count :: "loop_vars \<Rightarrow> (unit, 'h, 'u) dec_action" where
  "check_fixed_count lv s =
     (if fixed_count_wrong lv s then derror ''wrong size for fixed count field'' s else Ok () s)"

definition decode_message :: "('h, 'u) dec_env \<Rightarrow> ('h, 'u) msg_decoder \<Rightarrow> nat \<Rightarrow> addr \<Rightarrow> (unit, 'h, 'u) dec_action" where
  "decode_message env dec mid dest =
     mbind (decode_rounds env dec (de_steps env)
              \<lparr>lv_iter = snd (pb_field_iter_begin (de_descs env mid) dest), fields_seen = [0, 0],
               extension_range_start = 0, fixed_count_field = None\<rparr>)
       (\<lambda>lv. mthen (check_fixed_count lv) (check_required lv))"

text \<open>\<open>fixed_count_size\<close> is a local variable: the caller's is restored.\<close>

definition with_fixed_count :: "('a, 'h, 'u) dec_action \<Rightarrow> ('a, 'h, 'u) dec_action" where
  "with_fixed_count f s =
     (case f (s\<lparr>d_fixed := 0\<rparr>) of
        Ok x s' \<Rightarrow> Ok x (s'\<lparr>d_fixed := d_fixed s\<rparr>) | Fail s' \<Rightarrow> Fail (s'\<lparr>d_fixed := d_fixed s\<rparr>)
      | Undef \<Rightarrow> Undef | Fuel \<Rightarrow> Fuel)"

text \<open>A failed \<open>pb_decode\<close> releases what the message has allocated.\<close>

definition release_on_failure ::
  "('h, 'u) dec_env \<Rightarrow> nat \<Rightarrow> addr \<Rightarrow> (unit, 'h, 'u) dec_action \<Rightarrow> (unit, 'h, 'u) dec_action" where
  "release_on_failure env mid dest f s =
     (case f s of
        Fail s' \<Rightarrow>
          (case pb_release env (de_steps env) mid dest s' of Ok _ s'' \<Rightarrow> Fail s'' | r \<Rightarrow> r)
      | r \<Rightarrow> r)"

definition decode_with_defaults ::
  "('h, 'u) dec_env \<Rightarrow> (nat \<Rightarrow> addr \<Rightarrow> (unit, 'h, 'u) dec_action) \<Rightarrow> nat \<Rightarrow> addr \<Rightarrow> (unit, 'h, 'u) dec_action" where
  "decode_with_defaults env noinit mid dest =
     mthen (pb_message_set_to_defaults env (de_steps env) mid dest)
       (release_on_failure env mid dest (noinit mid dest))"

primrec pb_decode_noinit :: "('h, 'u) dec_env \<Rightarrow> nat \<Rightarrow> nat \<Rightarrow> addr \<Rightarrow> (unit, 'h, 'u) dec_action" where
  "pb_decode_noinit env 0 = (\<lambda>mid dest s. Fuel)"
| "pb_decode_noinit env (Suc n) =
     (\<lambda>mid dest. with_fixed_count
        (decode_message env
          (\<lambda>init. if init then decode_with_defaults env (pb_decode_noinit env n) else pb_decode_noinit env n)
          mid dest))"

definition pb_decode :: "('h, 'u) dec_env \<Rightarrow> nat \<Rightarrow> nat \<Rightarrow> addr \<Rightarrow> (unit, 'h, 'u) dec_action" where
  "pb_decode env n = decode_with_defaults env (pb_decode_noinit env n)"

definition pb_decode_delimited_noinit :: "('h, 'u) dec_env \<Rightarrow> nat \<Rightarrow> nat \<Rightarrow> addr \<Rightarrow> (unit, 'h, 'u) dec_action" where
  "pb_decode_delimited_noinit env n mid dest = in_substream (pb_decode_noinit env n mid dest)"

definition pb_decode_delimited :: "('h, 'u) dec_env \<Rightarrow> nat \<Rightarrow> nat \<Rightarrow> addr \<Rightarrow> (unit, 'h, 'u) dec_action" where
  "pb_decode_delimited env n mid dest = in_substream (pb_decode env n mid dest)"

definition pb_decode_nullterminated :: "('h, 'u) dec_env \<Rightarrow> nat \<Rightarrow> nat \<Rightarrow> addr \<Rightarrow> (unit, 'h, 'u) dec_action" where
  "pb_decode_nullterminated = pb_decode"

definition pb_decode_bool :: "addr \<Rightarrow> (unit, 'h, 'u) dec_action" where
  "pb_decode_bool dest = pb_dec_bool PB_LAST_FIELD dest"

end
