(* ===== verification/PB_Bounds.thy ===== *)
theory PB_Bounds
  imports PB_Decode
begin

unbundle bit_operations_syntax

text \<open>
  What a whole decoder keeps. A \<open>frame\<close> is a preorder on states; \<open>frames Q f\<close> says that
  however \<open>f\<close> returns, the state it leaves is related to the state it got. The frame of the
  input stream is proved for every decoder of \<open>pb_decode.c\<close>, given that user callbacks keep
  it: nothing reads beyond \<open>bytes_left\<close>, and on a memory buffer nothing beyond its end.
\<close>

section \<open>Frames of states\<close>

definition frame_ok :: "('s \<Rightarrow> 's \<Rightarrow> bool) \<Rightarrow> 's \<Rightarrow> ('a, 's) outcome \<Rightarrow> bool" where
  "frame_ok Q s r = (case r of Ok _ s' \<Rightarrow> Q s s' | Fail s' \<Rightarrow> Q s s' | Undef \<Rightarrow> True | Fuel \<Rightarrow> True)"

definition frames :: "('s \<Rightarrow> 's \<Rightarrow> bool) \<Rightarrow> ('s \<Rightarrow> ('a, 's) outcome) \<Rightarrow> bool" where
  "frames Q f \<longleftrightarrow> (\<forall>s. frame_ok Q s (f s))"

lemma frame_ok_simps [simp]:
  "frame_ok Q s (Ok x s') = Q s s'" "frame_ok Q s (Fail s') = Q s s'"
  "frame_ok Q s Undef" "frame_ok Q s Fuel"
  by (simp_all add: frame_ok_def)

lemma framesI: "(\<And>s. frame_ok Q s (f s)) \<Longrightarrow> frames Q f"
  by (simp add: frames_def)

lemma framesD: "frames Q f \<Longrightarrow> frame_ok Q s (f s)"
  by (simp add: frames_def)

lemma frames_Ok: "frames Q f \<Longrightarrow> f s = Ok x s' \<Longrightarrow> Q s s'"
  using framesD [of Q f s] by simp

lemma frames_Fail: "frames Q f \<Longrightarrow> f s = Fail s' \<Longrightarrow> Q s s'"
  using framesD [of Q f s] by simp

lemma frames_undef: "frames Q (\<lambda>_. Undef)" "frames Q (\<lambda>_. Fuel)"
  by (simp_all add: frames_def)

lemma frames_if: "(c \<Longrightarrow> frames Q f) \<Longrightarrow> (\<not> c \<Longrightarrow> frames Q g) \<Longrightarrow> frames Q (if c then f else g)"
  by simp

lemma fok_if: "(c \<Longrightarrow> frame_ok Q s r) \<Longrightarrow> (\<not> c \<Longrightarrow> frame_ok Q s r') \<Longrightarrow> frame_ok Q s (if c then r else r')"
  by simp

lemma fok_fun_if: "frame_ok Q s (if c then f s else g s) \<Longrightarrow> frame_ok Q s ((if c then f else g) s)"
  by (cases c) simp_all

lemma frames_cong: "frames Q f \<Longrightarrow> (\<And>s. f s = g s) \<Longrightarrow> frames Q g"
  by (simp add: frames_def)

locale frame =
  fixes Q :: "'s \<Rightarrow> 's \<Rightarrow> bool"
  assumes Q_refl: "Q s s"
    and Q_trans: "Q s t \<Longrightarrow> Q t u \<Longrightarrow> Q s u"
begin

lemma frame_ok_trans: "Q s t \<Longrightarrow> frame_ok Q t r \<Longrightarrow> frame_ok Q s r"
  by (cases r) (auto intro: Q_trans)

text \<open>The calculus: the frame of an outcome at a state.\<close>

lemma fok_return: "frame_ok Q s (Ok x s)"
  by (simp add: Q_refl)

lemma fok_bind:
  assumes "frame_ok Q s (f s)" "\<And>x t. frame_ok Q t (g x t)"
  shows "frame_ok Q s (mbind f g s)"
  using assms(1) by (cases "f s") (auto simp: mbind_def intro: frame_ok_trans assms(2))

lemma fok_then: "frame_ok Q s (f s) \<Longrightarrow> (\<And>t. frame_ok Q t (g t)) \<Longrightarrow> frame_ok Q s (mthen f g s)"
  by (simp add: mthen_def fok_bind)

lemma fok_each: "(\<And>x t. x \<in> set xs \<Longrightarrow> frame_ok Q t (f x t)) \<Longrightarrow> frame_ok Q s (each f xs s)"
  by (induction xs arbitrary: s) (simp_all add: Q_refl fok_then)

lemmas fok_rules = fok_return fok_bind fok_then fok_if fok_fun_if

end

locale dec_frame = frame Q for Q :: "('h, 'u) dec_state \<Rightarrow> ('h, 'u) dec_state \<Rightarrow> bool"
begin

lemma fok_ext_walk: "(\<And>e t. frame_ok Q t (f e t)) \<Longrightarrow> frame_ok Q s (ext_walk f n e s)"
proof (induction n arbitrary: e s)
  case 0
  then show ?case by (simp add: Q_refl)
next
  case (Suc n)
  then show ?case by (simp add: Q_refl fok_then)
qed

lemma fok_release_items: "(\<And>p t. frame_ok Q t (f p t)) \<Longrightarrow> frame_ok Q s (release_items f d n p s)"
  by (induction n arbitrary: p s) (simp_all add: Q_refl fok_then)

end

section \<open>The frame of the input stream\<close>

text \<open>A stream frame lifted to decoder states.\<close>

definition on_in :: "('u pb_istream \<Rightarrow> 'u pb_istream \<Rightarrow> bool) \<Rightarrow> ('h, 'u) dec_state \<Rightarrow> ('h, 'u) dec_state \<Rightarrow> bool" where
  "on_in R s s' \<longleftrightarrow> R (d_in s) (d_in s')"

text \<open>The contract of an environment: user callbacks and user extension decoders keep the frame on
  the stream they are given.\<close>

locale guarded_decoder = stream_frame R for R :: "'u pb_istream \<Rightarrow> 'u pb_istream \<Rightarrow> bool" +
  fixes env :: "('h, 'u) dec_env"
  assumes callback_frame: "frames (on_in R) (de_callback env fn field arg)"
    and ext_decode_frame: "frames (on_in R) (de_ext_decode env fn e t wt)"

sublocale guarded_decoder \<subseteq> dec_frame "on_in R :: ('h, 'u) dec_state \<Rightarrow> ('h, 'u) dec_state \<Rightarrow> bool"
  by unfold_locales (auto simp: on_in_def intro: R_refl R_trans)

context guarded_decoder
begin

abbreviation (input) ok :: "('h, 'u) dec_state \<Rightarrow> ('a, ('h, 'u) dec_state) outcome \<Rightarrow> bool" where
  "ok \<equiv> frame_ok (on_in R)"

lemma fok_stream: "keeps R f \<Longrightarrow> ok s (on_stream f s)"
  by (auto simp: on_stream_def on_in_def split: outcome.splits dest: keeps_Ok keeps_Fail)

lemma fok_error: "ok s (derror msg s)"
  by (simp add: derror_def fok_stream keeps_error)

lemma fok_same_in:
  "d_in s = d_in t \<Longrightarrow> ok t r \<Longrightarrow> ok s r"
  by (cases r) (auto simp: on_in_def)

lemma fok_upd_mem: "ok s (upd_mem f s)"
  by (simp add: upd_mem_def on_in_def R_refl)

lemma fok_size: "ok s (set_size iter n s)" "ok s (set_has iter b s)"
  by (auto simp: set_size_def set_has_def upd_mem_def on_in_def R_refl split: size_ref.splits)

lemma fok_free: "ok s (call_free env p s)"
  by (auto simp: call_free_def on_in_def R_refl split: prod.splits)

lemma fok_memset0: "ok s (memset0 p n s)"
  by (simp add: memset0_def fok_upd_mem)

lemma fok_read_into: "ok s (read_into p n s)"
  unfolding read_into_def by (intro fok_bind fok_stream keeps_read fok_upd_mem)

lemmas fok_basic = fok_rules fok_error fok_upd_mem fok_size fok_free fok_memset0 fok_read_into
  frame_ok_simps(3-4)

lemmas fok_streams = fok_stream [OF keeps_decode_varint] fok_stream [OF keeps_decode_varint32]
  fok_stream [OF keeps_decode_svarint] fok_stream [OF keeps_decode_fixed(1)]
  fok_stream [OF keeps_decode_fixed(2)] fok_stream [OF keeps_skip_field]
  fok_stream [OF keeps_read_raw_value]

lemma fok_store_checked: "ok s (store_checked st v s)"
  by (cases st) (auto simp: store_checked_def intro!: fok_basic)

lemma fok_dec_scalars:
  "ok s (pb_dec_bool field p s)" "ok s (pb_dec_varint field p s)"
  "ok s (pb_dec_uvarint field p s)" "ok s (pb_dec_svarint field p s)"
  "ok s (pb_dec_fixed32 field p s)" "ok s (pb_dec_fixed64 field p s)"
  "ok s (pb_dec_fixed_length_bytes field p s)"
  unfolding pb_dec_bool_def pb_dec_varint_def pb_dec_uvarint_def pb_dec_svarint_def
      pb_dec_fixed32_def pb_dec_fixed64_def pb_dec_fixed_length_bytes_def Let_def
  by (intro fok_basic fok_streams fok_store_checked)+

lemma fok_allocate: "ok s (allocate_field env p a b s)"
  unfolding allocate_field_def
  by (auto intro!: fok_error split: prod.splits)
    (auto simp: on_in_def R_refl intro: fok_same_in [OF _ fok_error])

lemma fok_dec_bytes: "ok s (pb_dec_bytes env field p s)"
  unfolding pb_dec_bytes_def Let_def
  by (intro fok_basic fok_streams fok_allocate)

lemma fok_dec_string: "ok s (pb_dec_string env field p s)"
proof -
  have stop: "ok t (case read_into d n t of
      Ok _ s' \<Rightarrow> upd_mem f s' | Fail s' \<Rightarrow> Fail (s'\<lparr>d_mem := g s'\<rparr>) | r \<Rightarrow> r)" for d n f g t
    using fok_read_into [of t d n] by (auto simp: upd_mem_def on_in_def split: outcome.splits)
  show ?thesis
    unfolding pb_dec_string_def Let_def
    by (intro fok_basic fok_streams fok_allocate stop)
qed

end

section \<open>Substreams\<close>

context stream_frame
begin

text \<open>A substream and what it leaves of its parent.\<close>

definition inside :: "'u pb_istream \<Rightarrow> 'u pb_istream \<Rightarrow> 'u pb_istream \<Rightarrow> bool" where
  "inside i parent sub \<longleftrightarrow>
     (\<exists>t n. R i t \<and> n \<le> bytes_left t \<and> sub = t\<lparr>bytes_left := n\<rparr> \<and>
            parent = t\<lparr>bytes_left := bytes_left t - n\<rparr>)"

lemma inside_make: "pb_make_string_substream i = Ok sub parent \<Longrightarrow> inside i parent sub"
  using make_substream [of i] by (auto simp: inside_def)

lemma inside_parent: "inside i parent sub \<Longrightarrow> R i (parent\<lparr>is_errmsg := e\<rparr>)"
  unfolding inside_def using R_trans [OF R_trans [OF _ R_reserve] R_errmsg] by blast

lemma inside_source:
  assumes "inside i parent sub" "R sub sub'"
  shows "R i (parent\<lparr>is_source := is_source sub', is_errmsg := e\<rparr>)"
proof -
  obtain t n where t: "R i t" "n \<le> bytes_left t" "sub = t\<lparr>bytes_left := n\<rparr>"
    "parent = t\<lparr>bytes_left := bytes_left t - n\<rparr>"
    using assms(1) by (auto simp: inside_def)
  then have "R i (t\<lparr>bytes_left := bytes_left t - n, is_source := is_source sub'\<rparr>)"
    using R_trans [OF t(1) R_substream [OF t(2)]] assms(2) by simp
  from R_trans [OF this R_errmsg [of _ e]] show ?thesis
    using t by simp
qed

lemma inside_leave:
  assumes "inside i parent sub" "R sub sub'"
  shows "R i (share_source sub' (parent\<lparr>is_errmsg := e\<rparr>))"
  using inside_source [OF assms, of e] inside_parent [OF assms(1), of e]
  by (cases "is_source sub'"; cases parent) (simp_all add: share_source_def)

lemma share_share:
  "share_source u (share_source v p) = (case is_source u of
     UserSource cb st \<Rightarrow> p\<lparr>is_source := UserSource cb st\<rparr> | BufSource _ \<Rightarrow> share_source v p)"
  by (auto simp: share_source_def split: in_source.splits)

lemma inside_close:
  assumes p: "inside i parent sub" and v: "R sub v"
  shows "case pb_close_string_substream v (share_source v (parent\<lparr>is_errmsg := e\<rparr>)) of
    Ok _ s' \<Rightarrow> R i s' | Fail s' \<Rightarrow> R i s' | Undef \<Rightarrow> False | Fuel \<Rightarrow> False"
proof -
  have ok: "R i ((share_source v (parent\<lparr>is_errmsg := e\<rparr>))\<lparr>is_source := is_source u, is_errmsg := m\<rparr>)"
    if "R sub u" for u m
    using inside_source [OF p that, of m] by (auto simp: share_source_def split: in_source.splits)
  have bad: "R i (share_source u (share_source v (parent\<lparr>is_errmsg := e\<rparr>)))" if "R sub u" for u
    using inside_leave [OF p that, of e] inside_leave [OF p v, of e]
    by (auto simp: share_share share_source_def split: in_source.splits)
  show ?thesis
  proof (cases rule: keeps_cases [OF keeps_skip_bytes, of "bytes_left v" v, case_names Ok Fail])
    case (Ok x u)
    then show ?thesis
      using ok [OF v, of "is_errmsg v"] ok [OF R_trans [OF v Ok(2)], of "is_errmsg u"]
      by (simp add: pb_close_string_substream_def)
  next
    case (Fail u)
    then show ?thesis
      using ok [OF v, of "is_errmsg v"] bad [OF R_trans [OF v Fail(2)]]
      by (simp add: pb_close_string_substream_def)
  qed
qed

end

context guarded_decoder
begin

lemma fok_close:
  assumes p: "inside (d_in s) parent sub" and r: "ok s0 r" "d_in s0 = sub"
  shows "ok s (close_substream (parent\<lparr>is_errmsg := e\<rparr>) r)"
proof -
  have closed: "ok s (on_stream (pb_close_string_substream (d_in t)) (leave_substream (parent\<lparr>is_errmsg := e\<rparr>) t))"
    if "R sub (d_in t)" for t
    using inside_close [OF p that, of e]
    by (auto simp: on_stream_def leave_substream_def on_in_def split: outcome.splits)
  show ?thesis
  proof (cases r)
    case (Ok x t)
    then show ?thesis
      using closed [of t] r by (simp add: close_substream_def on_in_def)
  next
    case (Fail t)
    then show ?thesis
      using closed [of t] r by (auto simp: close_substream_def on_in_def split: outcome.splits)
  qed (simp_all add: close_substream_def)
qed

text \<open>Entering a substream: what follows may assume that the state's stream is the parent.\<close>

lemma fok_make:
  assumes "\<And>sub t. inside (d_in s) (d_in t) sub \<Longrightarrow> ok s (k sub t)"
  shows "ok s (mbind (on_stream pb_make_string_substream) k s)"
proof (cases "pb_make_string_substream (d_in s)")
  case (Ok sub i)
  then show ?thesis
    using assms [of "s\<lparr>d_in := i\<rparr>" sub] inside_make [OF Ok] by (simp add: mbind_def on_stream_def)
next
  case (Fail i)
  then show ?thesis
    using make_substream [of "d_in s"] by (simp add: mbind_def on_stream_def on_in_def)
qed (simp_all add: mbind_def on_stream_def)

lemma fok_leave_error:
  assumes "inside (d_in s) parent sub" "R sub (d_in t)"
  shows "ok s (derror msg (leave_substream parent t))"
  using R_trans [OF inside_leave [OF assms, of "is_errmsg parent"] R_errmsg]
  by (auto simp: derror_def on_stream_def ierror_def set_ierror_def leave_substream_def on_in_def)

lemma fok_in_substream:
  assumes "\<And>t. ok t (f t)"
  shows "ok s (in_substream f s)"
  unfolding in_substream_def
proof (rule fok_make)
  fix sub and t :: "('h, 'u) dec_state"
  assume p: "inside (d_in s) (d_in t) sub"
  show "ok s (close_substream (d_in t) (f (t\<lparr>d_in := sub\<rparr>)))"
    using fok_close [OF p assms [of "t\<lparr>d_in := sub\<rparr>"], of "is_errmsg (d_in t)"] by simp
qed

lemma fok_dec_submessage:
  assumes "\<And>init mid p t. ok t (dec init mid p t)"
  shows "ok s (pb_dec_submessage dec field p s)"
proof -
  have err: "ok s (mbind (on_stream pb_make_string_substream) (\<lambda>_. derror msg) s)" for msg
    by (rule fok_make) (auto simp: derror_def on_stream_def ierror_def set_ierror_def on_in_def
        intro: inside_parent)
  have undef: "ok s (mbind (on_stream pb_make_string_substream) (\<lambda>_ _. Undef) s)"
    by (rule fok_make) simp
  show ?thesis
    using err undef assms
    by (auto simp: pb_dec_submessage_def intro: fok_in_substream split: field_ptr.splits)
qed

lemma fok_decoders:
  assumes "\<And>init mid p t. ok t (dec init mid p t)"
  shows "ok s (PB_DECODERS env dec lt field p s)"
  using fok_dec_submessage [OF assms]
  by (simp add: PB_DECODERS_def fok_dec_scalars fok_dec_bytes fok_dec_string)

end

section \<open>Fields and messages\<close>

context guarded_decoder
begin

lemma fok_default_data:
  "(\<And>mid p t. ok t (message mid p t)) \<Longrightarrow> ok s (default_data message iter s)"
  by (auto simp: default_data_def Let_def intro: fok_basic split: field_ptr.splits)

lemma fok_field_to_default:
  assumes "\<And>mid p t. ok t (message mid p t)" "\<And>it t. ok t (self it t)"
  shows "ok s (field_to_default env message self iter s)"
  unfolding field_to_default_def Let_def
  by (intro fok_basic fok_default_data fok_ext_walk assms)

lemma fok_field_set_to_default: "ok s (pb_field_set_to_default env n iter s)"
proof (induction n arbitrary: iter s)
  case 0
  then show ?case by simp
next
  case (Suc n)
  then show ?case
    by (simp add: fok_field_to_default fok_each)
qed

lemma fok_submsg_defaults: "ok s (submsg_set_to_defaults env field p s)"
  by (auto simp: submsg_set_to_defaults_def pb_message_set_to_defaults_def
      intro: fok_each fok_field_set_to_default split: field_ptr.splits)

lemma fok_release_strings: "ok s (release_strings env n p s)"
proof (induction n arbitrary: p s)
  case 0
  then show ?case by (simp add: Q_refl)
next
  case (Suc n)
  then show ?case by (auto intro!: fok_basic)
qed

lemma fok_release_field:
  assumes "\<And>mid p t. ok t (message mid p t)" "\<And>it t. ok t (self it t)"
  shows "ok s (release_field env message self iter s)"
proof -
  have items: "ok t (release_items (\<lambda>p. case fptr f of PtrSubmsg mid \<Rightarrow> message mid p | _ \<Rightarrow> (\<lambda>_. Undef)) d n p t)"
    for t f d n p
    using assms(1) by (auto intro!: fok_release_items split: field_ptr.splits)
  have contents: "ok t (release_contents env message self iter t)" for t
    unfolding release_contents_def Let_def
    by (intro fok_basic fok_ext_walk items assms)
  have pointer: "ok t (release_pointer env iter t)" for t
    unfolding release_pointer_def Let_def
    by (intro fok_basic fok_release_strings)
  show ?thesis
    unfolding release_field_def Let_def
    by (intro fok_basic contents pointer)
qed

lemma fok_release_message:
  "(\<And>it t. ok t (single it t)) \<Longrightarrow> ok s (release_message single fs dest s)"
  unfolding release_message_def by (intro fok_basic fok_each)

lemma fok_release_single: "ok s (pb_release_single_field env n iter s)"
proof (induction n arbitrary: iter s)
  case 0
  then show ?case by simp
next
  case (Suc n)
  then show ?case
    by (simp add: fok_release_field fok_release_message)
qed

lemma fok_release: "ok s (pb_release env n mid p s)"
  by (simp add: pb_release_def fok_release_message fok_release_single)

lemma fok_find: "ok s (find_iter iter t s)"
  by (cases "pb_field_iter_find iter t") (simp_all add: find_iter_def on_in_def R_refl)

lemma fok_release_union: "ok s (pb_release_union_field env iter s)"
  unfolding pb_release_union_field_def Let_def
  by (auto simp: Q_refl intro!: fok_basic fok_find fok_release_single)

lemma fok_initialize: "ok s (initialize_pointer_field env p field s)"
  unfolding initialize_pointer_field_def by (intro fok_basic fok_submsg_defaults)

lemma fok_packed_static_loop:
  "(\<And>f p t. ok t (func f p t)) \<Longrightarrow> ok s (packed_static_loop func iter n s)"
proof (induction n arbitrary: s)
  case 0
  then show ?case by simp
next
  case (Suc n)
  then show ?case
    by (auto simp: Q_refl intro!: fok_then fok_size)
qed

lemma fok_packed_static:
  assumes "\<And>f p t. ok t (func f p t)"
  shows "ok s (packed_static func iter s)"
  unfolding packed_static_def Let_def
proof (rule fok_make)
  fix sub and t :: "('h, 'u) dec_state"
  assume p: "inside (d_in s) (d_in t) sub"
  let ?r = "packed_static_loop func iter (Suc (unat (bytes_left sub))) (t\<lparr>d_in := sub\<rparr>)"
  have r: "ok (t\<lparr>d_in := sub\<rparr>) ?r"
    by (rule fok_packed_static_loop [OF assms])
  have "ok s (close_substream (d_in t) ?r)"
    using fok_close [OF p r, of "is_errmsg (d_in t)"] by simp
  moreover have "ok s (derror msg (leave_substream (d_in t) t'))" if "R sub (d_in t')" for msg t'
    by (rule fok_leave_error [OF p that])
  ultimately show "ok s (case ?r of
      Ok _ s' \<Rightarrow> if bytes_left (d_in s') \<noteq> 0 then derror ''array overflow'' (leave_substream (d_in t) s')
                else close_substream (d_in t) ?r
    | Fail s' \<Rightarrow> if bytes_left (d_in s') \<noteq> 0 then derror ''array overflow'' (leave_substream (d_in t) s')
                else close_substream (d_in t) ?r
    | Undef \<Rightarrow> Undef | Fuel \<Rightarrow> Fuel)"
    using r by (cases ?r) (auto simp: on_in_def)
qed

lemma fok_static_field:
  assumes dec: "\<And>init mid p t. ok t (dec init mid p t)"
  shows "ok s (decode_static_field env dec wt iter s)"
  unfolding decode_static_field_def Let_def
  by (intro fok_basic fok_decoders [OF dec] fok_packed_static fok_submsg_defaults)

lemma fok_packed_alloc: "ok s (packed_alloc env iter a s)"
  unfolding packed_alloc_def Let_def by (intro fok_basic fok_allocate)

lemma fok_packed_pointer_loop:
  "(\<And>f p t. ok t (func f p t)) \<Longrightarrow> ok s (packed_pointer_loop env func iter n a s)"
proof (induction n arbitrary: a s)
  case 0
  then show ?case by simp
next
  case (Suc n)
  have step: "ok t (packed_pointer_loop env func iter n b t)" for b t
    using Suc by blast
  show ?case
    unfolding packed_pointer_loop.simps Let_def
    by (intro fok_basic fok_packed_alloc fok_initialize Suc.prems step)
       (auto simp: Q_refl intro!: fok_basic fok_initialize Suc.prems step)
qed

lemma fok_packed_pointer:
  assumes "\<And>f p t. ok t (func f p t)"
  shows "ok s (packed_pointer env func iter s)"
  unfolding packed_pointer_def Let_def
proof (rule fok_make)
  fix sub and t :: "('h, 'u) dec_state"
  assume p: "inside (d_in s) (d_in t) sub"
  let ?r = "packed_pointer_loop env func iter (Suc (unat (bytes_left sub)))
    (ucast (get_size iter s)) (t\<lparr>d_in := sub\<rparr>)"
  have r: "ok (t\<lparr>d_in := sub\<rparr>) ?r"
    by (rule fok_packed_pointer_loop [OF assms])
  have close: "ok s (close_substream ((d_in t)\<lparr>is_errmsg := e\<rparr>) (Ok () t'))"
    "ok s (close_substream ((d_in t)\<lparr>is_errmsg := e\<rparr>) (Fail t'))" if "R sub (d_in t')" for e t'
    using fok_close [OF p, of "t\<lparr>d_in := sub\<rparr>" "Ok () t'" e] that
      fok_close [OF p, of "t\<lparr>d_in := sub\<rparr>" "Fail t'" e]
    by (simp_all add: on_in_def)
  show "ok s (case ?r of
      Ok True s' \<Rightarrow> close_substream (d_in t) (Ok () s')
    | Ok False s' \<Rightarrow> close_substream ((d_in t)\<lparr>is_errmsg := Some ''too many array entries''\<rparr>) (Fail s')
    | Fail s' \<Rightarrow> close_substream (d_in t) (Fail s') | Undef \<Rightarrow> Undef | Fuel \<Rightarrow> Fuel)"
    using r close [of _ "is_errmsg (d_in t)"] close
    by (cases ?r) (auto simp: on_in_def split: bool.splits)
qed

lemma fok_pointer_field:
  assumes dec: "\<And>init mid p t. ok t (dec init mid p t)"
  shows "ok s (decode_pointer_field env dec wt iter s)"
  unfolding decode_pointer_field_def Let_def
  by (intro fok_basic fok_decoders [OF dec] fok_packed_pointer fok_allocate fok_initialize fok_release_single)

lemma fok_callback: "ok s (de_callback env fn field arg s)"
  by (rule framesD [OF callback_frame])

lemma fok_callback_loop:
  assumes "inside (d_in s) parent sub" "R sub (d_in t)"
  shows "ok s (callback_loop env iter n parent t)"
  using assms(2)
proof (induction n arbitrary: t)
  case 0
  then show ?case by simp
next
  case (Suc n)
  let ?r = "de_callback env (load64 (d_mem t) (pData iter)) (it_field iter) (pData iter + 8) t"
  have r: "ok t ?r" by (rule fok_callback)
  show ?case
  proof (cases ?r)
    case (Ok x t')
    then have t': "R sub (d_in t')"
      using r Suc.prems by (auto simp: on_in_def intro: R_trans)
    then have "ok s (close_substream parent (Ok () t'))"
      using fok_close [OF assms(1), of "t\<lparr>d_in := sub\<rparr>" "Ok () t'" "is_errmsg parent"]
      by (simp add: on_in_def)
    then show ?thesis
      using Ok Suc.IH [OF t'] by (simp add: Let_def)
  next
    case (Fail t')
    then have "R sub (d_in t')"
      using r Suc.prems by (auto simp: on_in_def intro: R_trans)
    then have "ok s (derror ''callback failed'' (leave_substream parent t') :: (unit, _) outcome)"
      by (rule fok_leave_error [OF assms(1)])
    with Fail show ?thesis by (simp add: Let_def)
  qed (simp_all add: Let_def)
qed

lemma fok_callback_field: "ok s (decode_callback_field env wt iter s)"
proof -
  have loop: "ok s (mbind (on_stream pb_make_string_substream)
      (\<lambda>sub t. callback_loop env iter n (d_in t) (t\<lparr>d_in := sub\<rparr>)) s)" for n
    by (rule fok_make) (simp add: fok_callback_loop R_refl)
  have stack: "ok t (case de_callback env fn f a (t\<lparr>d_in := i\<rparr>) of
      Ok _ s' \<Rightarrow> Ok () (s'\<lparr>d_in := d_in t\<rparr>) | Fail s' \<Rightarrow> Fail (s'\<lparr>d_in := d_in t\<rparr>)
    | Undef \<Rightarrow> Undef | Fuel \<Rightarrow> Fuel)" for t fn f a i
    by (auto simp: on_in_def R_refl split: outcome.splits)
  show ?thesis
    unfolding decode_callback_field_def Let_def
    by (intro fok_basic fok_streams loop stack)
qed

lemma fok_decode_field:
  assumes dec: "\<And>init mid p t. ok t (dec init mid p t)"
  shows "ok s (decode_field env dec wt iter s)"
  unfolding decode_field_def Let_def
  by (intro fok_basic fok_release_union fok_static_field [OF dec] fok_pointer_field [OF dec] fok_callback_field)

lemma fok_decode_extensions:
  assumes dec: "\<And>init mid p t. ok t (dec init mid p t)"
  shows "ok s (decode_extensions env dec t wt pos n e s)"
proof (induction n arbitrary: e s)
  case 0
  then show ?case by (simp add: Q_refl)
next
  case (Suc n)
  have default: "ok u (default_extension_decoder env dec t wt e u)" for u
    unfolding default_extension_decoder_def Let_def
    by (intro fok_basic fok_decode_field [OF dec])
  have user: "ok u (de_ext_decode env fn e t wt u)" for fn u
    by (rule framesD [OF ext_decode_frame])
  show ?case
    unfolding decode_extensions.simps Let_def
    by (intro fok_basic default user Suc.IH)
qed

lemma fok_select_fixed: "ok s (select_fixed_count lv s)"
  by (auto simp: select_fixed_count_def Let_def fok_error on_in_def R_refl)

lemma fok_decode_known:
  assumes dec: "\<And>init mid p t. ok t (dec init mid p t)"
  shows "ok s (decode_known env dec wt lv s)"
  unfolding decode_known_def Let_def
  by (intro fok_basic fok_select_fixed fok_decode_field [OF dec])

lemma fok_decode_unknown:
  assumes dec: "\<And>init mid p t. ok t (dec init mid p t)"
  shows "ok s (decode_unknown env dec t wt lv s)"
  unfolding decode_unknown_def decode_extension_def Let_def
  by (auto simp: Q_refl intro!: fok_then fok_streams fok_decode_extensions [OF dec] split: option.splits)

lemma fok_decode_round:
  assumes dec: "\<And>init mid p t. ok t (dec init mid p t)"
  shows "ok s (decode_round env dec lv s)"
proof -
  have "ok t (mbind (find_iter it u) (\<lambda>(found, iter).
            mbind (if found then decode_known env dec wt (lv\<lparr>lv_iter := iter\<rparr>)
                   else decode_unknown env dec u wt (lv\<lparr>lv_iter := iter\<rparr>))
              (\<lambda>lv. mreturn (Some lv))) t)" for t it u wt
    by (auto intro!: fok_bind fok_find fok_decode_known [OF dec] fok_decode_unknown [OF dec] fok_return
        split: prod.splits)
  from frame_ok_trans [OF _ this] show ?thesis
    using keeps_decode_tag [of "d_in s"]
    by (cases "pb_decode_tag (d_in s)") (auto simp: decode_round_def on_in_def split: outcome.splits)
qed

lemma fok_decode_rounds:
  assumes dec: "\<And>init mid p t. ok t (dec init mid p t)"
  shows "ok s (decode_rounds env dec n lv s)"
proof (induction n arbitrary: lv s)
  case 0
  then show ?case by (simp add: Q_refl)
next
  case (Suc n)
  have "ok s (decode_round env dec lv s)" by (rule fok_decode_round [OF dec])
  then show ?case
    using Suc.IH
    by (auto simp: Q_refl split: outcome.splits option.splits intro: frame_ok_trans)
qed

lemma fok_decode_message:
  assumes dec: "\<And>init mid p t. ok t (dec init mid p t)"
  shows "ok s (decode_message env dec mid p s)"
  unfolding decode_message_def check_fixed_count_def check_required_def
  by (intro fok_basic fok_decode_rounds [OF dec])

lemma fok_with_fixed: "(\<And>t. ok t (f t)) \<Longrightarrow> ok s (with_fixed_count f s)"
proof -
  assume "\<And>t. ok t (f t)"
  from this [of "s\<lparr>d_fixed := 0\<rparr>"] show ?thesis
    by (auto simp: with_fixed_count_def on_in_def split: outcome.splits)
qed

lemma fok_with_defaults:
  assumes "\<And>t. ok t (noinit mid p t)"
  shows "ok s (decode_with_defaults env noinit mid p s)"
proof -
  have "ok t (release_on_failure env mid p (noinit mid p) t)" for t
  proof (cases "noinit mid p t")
    case (Fail u)
    then have "on_in R t u" using assms [of t] by simp
    from frame_ok_trans [OF this fok_release [of u "de_steps env" mid p]] Fail show ?thesis
      by (auto simp: release_on_failure_def split: outcome.splits)
  qed (use assms [of t] in \<open>simp_all add: release_on_failure_def\<close>)
  then show ?thesis
    unfolding decode_with_defaults_def pb_message_set_to_defaults_def
    by (intro fok_then fok_each fok_field_set_to_default)
qed

theorem fok_pb_decode_noinit: "ok s (pb_decode_noinit env n mid p s)"
proof (induction n arbitrary: mid p s)
  case 0
  then show ?case by simp
next
  case (Suc n)
  then show ?case
    by (auto intro!: fok_with_fixed fok_decode_message fok_with_defaults)
qed

lemma fok_pb_decode: "ok s (pb_decode env n mid p s)"
  by (simp add: pb_decode_def fok_with_defaults fok_pb_decode_noinit)

lemma fok_pb_decode_delimited: "ok s (pb_decode_delimited env n mid p s)"
  by (simp add: pb_decode_delimited_def fok_in_substream fok_pb_decode)

end

section \<open>Environments without callbacks\<close>

text \<open>The environment of messages whose types have no callbacks: the parameters are never used.\<close>

definition plain_env :: "(nat \<Rightarrow> fields) \<Rightarrow> nat \<Rightarrow> ('h, 'u) dec_env" where
  "plain_env descs steps =
     \<lparr>de_descs = descs, de_realloc = (\<lambda>p n m h. (0, m, h)), de_free = (\<lambda>p m h. (m, h)),
      de_callback = (\<lambda>fn field arg. derror ''no callback''),
      de_ext_type = (\<lambda>_. \<lparr>et_decode = 0, et_encode = 0, et_arg = PB_LAST_FIELD\<rparr>),
      de_ext_decode = (\<lambda>fn e t wt. derror ''no extension''), de_steps = steps\<rparr>"

context stream_frame
begin

lemma frames_derror: "frames (on_in R) (derror msg)"
  using keeps_error [of msg]
  by (auto simp: frames_def derror_def on_stream_def on_in_def split: outcome.splits
      dest: keeps_Ok keeps_Fail)

end

interpretation plain_left: guarded_decoder left_le "plain_env descs steps" for descs steps
  by unfold_locales (simp_all add: plain_env_def left.frames_derror)

interpretation plain_buf: guarded_decoder in_buffer "plain_env descs steps" for descs steps
  by unfold_locales (simp_all add: plain_env_def buf.frames_derror)

end
