(* ===== verification/PB_Static.thy ===== *)
theory PB_Static
  imports PB_Bounds
begin

unbundle bit_operations_syntax

text \<open>
  Memory safety of decoding for message types with static fields only: whatever the input
  bytes are, and whether decoding succeeds or fails, no byte of memory outside of the
  destination struct is written. The types are described by tables: for each message type in
  a set \<open>M\<close> its descriptors, the offsets of its members and the size of its struct.
\<close>

section \<open>Regions of memory\<close>

definition region :: "addr \<Rightarrow> nat \<Rightarrow> addr set" where
  "region d n = (\<lambda>i. d + of_nat i) ` {..<n}"

definition unchanged :: "addr set \<Rightarrow> ('h, 'u) dec_state \<Rightarrow> ('h, 'u) dec_state \<Rightarrow> bool" where
  "unchanged A s s' \<longleftrightarrow> (\<forall>x. x \<notin> A \<longrightarrow> d_mem s' x = d_mem s x)"

interpretation mem: dec_frame "unchanged A" for A
  by unfold_locales (simp_all add: unchanged_def)

declare mem.Q_refl [simp]

lemma region_part: "o1 + k \<le> n \<Longrightarrow> region (d + of_nat o1) k \<subseteq> region d n"
  by (force simp: region_def add.assoc simp flip: of_nat_add)

lemma region_mono: "k \<le> n \<Longrightarrow> region d k \<subseteq> region d n"
  by (auto simp: region_def)

lemma region_memD: "x \<in> region d n \<Longrightarrow> region d n \<subseteq> A \<Longrightarrow> x \<in> A"
  by blast

lemma mem_write_outside: "region a (length bs) \<subseteq> A \<Longrightarrow> x \<notin> A \<Longrightarrow> mem_write m a bs x = m x"
  by (rule mem_write_other) (auto simp: region_def)

lemma unchanged_mono: "A \<subseteq> B \<Longrightarrow> frame_ok (unchanged A) s r \<Longrightarrow> frame_ok (unchanged B) s r"
  by (cases r) (auto simp: unchanged_def)

lemma mok_write: "region a (length bs) \<subseteq> A \<Longrightarrow> frame_ok (unchanged A) s (upd_mem (\<lambda>m. mem_write m a bs) s)"
  by (simp add: upd_mem_def unchanged_def mem_write_outside)

lemma mok_stores:
  "region a 1 \<subseteq> A \<Longrightarrow> frame_ok (unchanged A) s (upd_mem (store8 a v8) s)"
  "region a 2 \<subseteq> A \<Longrightarrow> frame_ok (unchanged A) s (upd_mem (store16 a v16) s)"
  "region a 4 \<subseteq> A \<Longrightarrow> frame_ok (unchanged A) s (upd_mem (store32 a v32) s)"
  "region a 8 \<subseteq> A \<Longrightarrow> frame_ok (unchanged A) s (upd_mem (store64 a v64) s)"
  by (auto simp: upd_mem_def unchanged_def store8_def store16_def store32_def store64_def
      mem_write_outside region_def)

lemma mok_stream: "frame_ok (unchanged A) s (on_stream f s)"
  by (auto simp: on_stream_def unchanged_def split: outcome.splits)

lemma mok_error: "frame_ok (unchanged A) s (derror msg s)"
  by (simp add: derror_def mok_stream)

lemma derror_eq: "derror msg s = Fail (s\<lparr>d_in := set_ierror msg (d_in s)\<rparr>)"
  by (simp add: derror_def on_stream_def ierror_def)

lemma mok_same_mem: "d_mem s = d_mem t \<Longrightarrow> frame_ok (unchanged A) t r \<Longrightarrow> frame_ok (unchanged A) s r"
  by (cases r) (simp_all add: unchanged_def)

lemma mok_memset0: "region a (unat n) \<subseteq> A \<Longrightarrow> frame_ok (unchanged A) s (memset0 a n s)"
  by (simp add: memset0_def mok_write)

lemma pb_read_length: "pb_read n i = Ok buf i' \<Longrightarrow> length buf \<le> unat n"
  by (auto simp: pb_read_def ierror_def source_read_def buf_read_def
      split: if_splits in_source.splits prod.splits option.splits)

lemma mok_read_into:
  assumes "region p (unat n) \<subseteq> A"
  shows "frame_ok (unchanged A) s (read_into p n s)"
proof (cases "pb_read n (d_in s)")
  case (Ok buf i)
  then have "region p (length buf) \<subseteq> A"
    using assms region_mono [OF pb_read_length [OF Ok]] by blast
  then show ?thesis
    using Ok by (simp add: read_into_def mbind_def on_stream_def upd_mem_def unchanged_def mem_write_outside)
qed (simp_all add: read_into_def mbind_def on_stream_def unchanged_def)

lemmas mok_basic = mem.fok_rules mok_stream mok_error mok_stores mok_memset0 mok_read_into
  frame_ok_simps(3-4)

section \<open>Static message types\<close>

text \<open>What the value of a field may take at its place: \<open>data_size\<close> bytes, of which the decoders
  of fixed types use a fixed number.\<close>

definition value_fits :: "nat set \<Rightarrow> (nat \<Rightarrow> nat) \<Rightarrow> pb_field \<Rightarrow> bool" where
  "value_fits M msz f =
     (let lt = PB_LTYPE (ftype f); n = unat (data_size f) in
      case fptr f of
        PtrSubmsg k \<Rightarrow> lt = PB_LTYPE_SUBMESSAGE \<and> k \<in> M \<and> msz k \<le> n
      | _ \<Rightarrow>
          if lt = PB_LTYPE_BOOL then 1 \<le> n
          else if lt = PB_LTYPE_FIXED32 then 4 \<le> n
          else if lt = PB_LTYPE_FIXED64 then 8 \<le> n
          else lt \<in> {PB_LTYPE_VARINT, PB_LTYPE_UVARINT, PB_LTYPE_SVARINT, PB_LTYPE_BYTES,
                     PB_LTYPE_STRING, PB_LTYPE_FIXED_LENGTH_BYTES})"

lemma value_fits_submsg:
  assumes "value_fits M msz f" "PB_LTYPE (ftype f) = PB_LTYPE_SUBMESSAGE"
  obtains k where "fptr f = PtrSubmsg k" "k \<in> M" "msz k \<le> unat (data_size f)"
  using assms by (cases "fptr f") (auto simp: value_fits_def ltype_defs)

lemma value_fits_size:
  assumes "value_fits M msz f"
  shows "PB_LTYPE (ftype f) = PB_LTYPE_BOOL \<Longrightarrow> 1 \<le> unat (data_size f)"
    and "PB_LTYPE (ftype f) = PB_LTYPE_FIXED32 \<Longrightarrow> 4 \<le> unat (data_size f)"
    and "PB_LTYPE (ftype f) = PB_LTYPE_FIXED64 \<Longrightarrow> 8 \<le> unat (data_size f)"
  using assms by (simp_all add: value_fits_def Let_def ltype_defs split: field_ptr.splits)

text \<open>The same without the sizes: the decoders and the submessages that a field may name.\<close>

definition value_known :: "nat set \<Rightarrow> pb_field \<Rightarrow> bool" where
  "value_known M f =
     (case fptr f of
        PtrSubmsg k \<Rightarrow> PB_LTYPE (ftype f) = PB_LTYPE_SUBMESSAGE \<and> k \<in> M
      | _ \<Rightarrow> PB_LTYPE (ftype f) \<in>
          {PB_LTYPE_BOOL, PB_LTYPE_VARINT, PB_LTYPE_UVARINT, PB_LTYPE_SVARINT, PB_LTYPE_FIXED32, PB_LTYPE_FIXED64,
           PB_LTYPE_BYTES, PB_LTYPE_STRING, PB_LTYPE_FIXED_LENGTH_BYTES})"

lemma value_fits_known: "value_fits M msz f \<Longrightarrow> value_known M f"
  by (auto simp: value_fits_def value_known_def Let_def split: field_ptr.splits if_splits)

lemma value_known_submsg:
  assumes "value_known M f" "PB_LTYPE (ftype f) = PB_LTYPE_SUBMESSAGE"
  obtains k where "fptr f = PtrSubmsg k" "k \<in> M"
  using assms by (cases "fptr f") (auto simp: value_known_def ltype_defs)

lemma value_known_ltype:
  "value_known M f \<Longrightarrow> PB_LTYPE (ftype f) \<in>
     {PB_LTYPE_BOOL, PB_LTYPE_VARINT, PB_LTYPE_UVARINT, PB_LTYPE_SVARINT, PB_LTYPE_FIXED32, PB_LTYPE_FIXED64,
      PB_LTYPE_BYTES, PB_LTYPE_STRING, PB_LTYPE_SUBMESSAGE, PB_LTYPE_FIXED_LENGTH_BYTES}"
  by (auto simp: value_known_def split: field_ptr.splits)

lemma value_known_scalar:
  "value_known M f \<Longrightarrow> PB_LTYPE (ftype f) \<noteq> PB_LTYPE_SUBMESSAGE \<Longrightarrow> fptr f \<noteq> PtrSubmsg k"
  by (auto simp: value_known_def)

text \<open>Where \<open>pSize\<close> points, relative to the struct: a union has one \<open>which_\<close> member.\<close>

fun size_pos :: "fields \<Rightarrow> nat list \<Rightarrow> nat \<Rightarrow> int" where
  "size_pos fs offs 0 = int (offs ! 0) + sint (size_offset (field_at fs 0))"
| "size_pos fs offs (Suc i) =
     (if same_union (field_at fs i) (field_at fs (Suc i)) then size_pos fs offs i
      else int (offs ! Suc i) + sint (size_offset (field_at fs (Suc i))))"

definition size_fits :: "nat \<Rightarrow> pb_field \<Rightarrow> nat \<Rightarrow> int \<Rightarrow> bool" where
  "size_fits n f off sp =
     (if PB_HTYPE (ftype f) = PB_HTYPE_OPTIONAL then sp = int off \<or> 0 \<le> sp \<and> sp < int n
      else if PB_HTYPE (ftype f) = PB_HTYPE_REPEATED \<or> PB_HTYPE (ftype f) = PB_HTYPE_ONEOF
      then 0 \<le> sp \<and> sp + 4 \<le> int n
      else True)"

definition field_fits :: "nat set \<Rightarrow> (nat \<Rightarrow> nat) \<Rightarrow> nat \<Rightarrow> pb_field \<Rightarrow> nat \<Rightarrow> int \<Rightarrow> bool" where
  "field_fits M msz n f off sp \<longleftrightarrow>
     PB_ATYPE (ftype f) = PB_ATYPE_STATIC \<and> PB_LTYPE (ftype f) \<noteq> PB_LTYPE_EXTENSION \<and>
     off + member_size f \<le> n \<and> member_size f < 2 ^ 32 \<and> value_fits M msz f \<and> size_fits n f off sp \<and>
     (PB_HTYPE (ftype f) = PB_HTYPE_REPEATED \<longrightarrow> 0 < array_size f)"

definition static_message :: "nat set \<Rightarrow> (nat \<Rightarrow> nat) \<Rightarrow> nat \<Rightarrow> fields \<Rightarrow> nat list \<Rightarrow> bool" where
  "static_message M msz n fs offs \<longleftrightarrow>
     0 < nfields fs \<and> layout_ok fs offs \<and>
     (\<forall>i < nfields fs. field_fits M msz n (field_at fs i) (offs ! i) (size_pos fs offs i))"

definition static_types :: "nat set \<Rightarrow> (nat \<Rightarrow> nat) \<Rightarrow> (nat \<Rightarrow> fields) \<Rightarrow> (nat \<Rightarrow> nat list) \<Rightarrow> bool" where
  "static_types M msz descs offs \<longleftrightarrow>
     (\<forall>mid \<in> M. static_message M msz (msz mid) (descs mid) (offs mid))"

text \<open>A struct that ends before the end of the address space and is not at null.\<close>

definition placed :: "addr \<Rightarrow> nat \<Rightarrow> bool" where
  "placed d n \<longleftrightarrow> d \<noteq> 0 \<and> unat d + n < 2 ^ 64"

lemma placed_part:
  assumes d: "placed d n" and k: "o1 + k \<le> n"
  shows "placed (d + of_nat o1) k"
proof -
  have nz: "d \<noteq> 0" and below: "unat d + n < 2 ^ 64"
    using d by (simp_all add: placed_def)
  have small: "o1 < 2 ^ 64" "unat d + o1 < 2 ^ 64" and last: "unat d + o1 + k < 2 ^ 64"
    using below k by linarith+
  have pos: "0 < unat d"
    using nz unat_gt_0 [of d] by simp
  have eq: "unat (d + of_nat o1) = unat d + o1"
    using unat_add_lem [of d "of_nat o1"] small by (simp add: unat_of_nat_addr)
  have "d + of_nat o1 \<noteq> 0"
    using eq pos by (metis add_is_0 less_irrefl unat_0)
  then show ?thesis
    using last by (simp only: placed_def eq simp_thms)
qed

lemma place_of_int: "d + of_int (int k + sint so) = d + of_nat k + (scast (so :: 32 word) :: addr)"
  by simp

lemma pSize_layout:
  assumes "layout_ok fs offs" "d \<noteq> 0" "i < nfields fs"
  shows "pSize (iter_at fs d i) = SizeAt (d + of_int (size_pos fs offs i))"
  using assms(3)
proof (induction i)
  case 0
  have "pData (iter_at fs d 0) = d + of_nat (offs ! 0)"
    using pData_layout [OF assms(1,2)] 0 by simp
  then show ?case
    using assms(2) by (simp add: iter_at.simps pb_field_iter_begin_def Let_def place_of_int)
next
  case (Suc i)
  then have i: "i < nfields fs" by simp
  have d: "pData (iter_at fs d (Suc i)) = d + of_nat (offs ! Suc i)"
    by (rule pData_layout [OF assms(1,2) Suc.prems])
  let ?f = "field_at fs i" and ?g = "field_at fs (Suc i)"
  have "pSize (iter_at fs d (Suc i)) =
    (if same_union ?f ?g then pSize (iter_at fs d i)
     else SizeAt (pData (iter_at fs d (Suc i)) + scast (size_offset ?g)))"
    using Suc.prems field_at_nonzero [of i fs] field_at_nonzero [of "Suc i" fs] i
    by (simp add: iter_at.simps pb_field_iter_next_def it_field_iter_at Let_def it_field_def iter_at_pos
      same_union_def PB_DATAOFFSET_UNION_def)
  then show ?case
    using Suc.IH [OF i] d by (simp add: place_of_int)
qed

section \<open>Field decoders write their field only\<close>

lemma region_ucast:
  "unat (n :: u32) \<le> k \<Longrightarrow> region p k \<subseteq> A \<Longrightarrow> region p (unat (ucast n :: u64)) \<subseteq> A"
  using region_mono [of "unat n" k p]
  by (auto simp: unsigned_ucast_eq take_bit_nat_eq_self less_trans [OF unat_less32])

lemma mok_store_checked:
  assumes "case st of Some (w, _) \<Rightarrow> frame_ok (unchanged A) s (upd_mem w s) | None \<Rightarrow> True"
  shows "frame_ok (unchanged A) s (store_checked st v s)"
proof (cases st)
  case None
  then show ?thesis by (simp add: store_checked_def mok_error)
next
  case (Some r)
  then obtain w c where "st = Some (w, c)" by (cases r) auto
  then show ?thesis
    using assms by (auto simp: store_checked_def intro!: mem.fok_then mok_error mem.fok_return)
qed

lemma mok_store_int:
  assumes "region p (unat ds) \<subseteq> A"
  shows "case store_int ds p v of Some (w, _) \<Rightarrow> frame_ok (unchanged A) s (upd_mem w s) | None \<Rightarrow> True"
    and "case store_uint ds p v of Some (w, _) \<Rightarrow> frame_ok (unchanged A) s (upd_mem w s) | None \<Rightarrow> True"
  using assms mok_stores [of p A]
  by (auto simp: store_int_def store_uint_def)

lemma mok_scalars:
  assumes r: "region p (unat (data_size f)) \<subseteq> A"
  shows "frame_ok (unchanged A) s (pb_dec_varint f p s)"
    and "frame_ok (unchanged A) s (pb_dec_uvarint f p s)"
    and "frame_ok (unchanged A) s (pb_dec_svarint f p s)"
    and "1 \<le> unat (data_size f) \<Longrightarrow> frame_ok (unchanged A) s (pb_dec_bool f p s)"
    and "4 \<le> unat (data_size f) \<Longrightarrow> frame_ok (unchanged A) s (pb_dec_fixed32 f p s)"
    and "8 \<le> unat (data_size f) \<Longrightarrow> frame_ok (unchanged A) s (pb_dec_fixed64 f p s)"
    and "frame_ok (unchanged A) s (pb_dec_fixed_length_bytes f p s)"
proof -
  have part: "region p k \<subseteq> A" if "k \<le> unat (data_size f)" for k
    using region_mono [OF that, of p] r by blast
  show "frame_ok (unchanged A) s (pb_dec_varint f p s)" "frame_ok (unchanged A) s (pb_dec_uvarint f p s)"
    "frame_ok (unchanged A) s (pb_dec_svarint f p s)"
    unfolding pb_dec_varint_def pb_dec_uvarint_def pb_dec_svarint_def Let_def
    by (intro mem.fok_bind mok_stream mok_store_checked mok_store_int r)+
  show "1 \<le> unat (data_size f) \<Longrightarrow> frame_ok (unchanged A) s (pb_dec_bool f p s)"
    "4 \<le> unat (data_size f) \<Longrightarrow> frame_ok (unchanged A) s (pb_dec_fixed32 f p s)"
    "8 \<le> unat (data_size f) \<Longrightarrow> frame_ok (unchanged A) s (pb_dec_fixed64 f p s)"
    unfolding pb_dec_bool_def pb_dec_fixed32_def pb_dec_fixed64_def
    by (intro mem.fok_bind mok_stream mok_stores part; assumption)+
  show "frame_ok (unchanged A) s (pb_dec_fixed_length_bytes f p s)"
    unfolding pb_dec_fixed_length_bytes_def
    by (intro mok_basic region_ucast [OF _ r] r) simp_all
qed

lemma alloc_bytes: "unat (ucast (sz :: u32) + offsetof_bytes :: u64) = unat sz + 4"
proof -
  have "(ucast sz + offsetof_bytes :: u64) = of_nat (unat sz + 4)"
    by (simp add: offsetof_bytes_def)
  then show ?thesis
    using unat_less32 [of sz] by (simp add: unat_of_nat_addr del: of_nat_add)
qed

lemma mok_bytes:
  assumes r: "region p (unat (data_size f)) \<subseteq> A" and static: "PB_ATYPE (ftype f) = PB_ATYPE_STATIC"
  shows "frame_ok (unchanged A) s (pb_dec_bytes env f p s)"
proof -
  have st: "PB_ATYPE (ftype f) \<noteq> PB_ATYPE_POINTER"
    using static by (simp add: atype_defs)
  have ds: "unat (ucast (data_size f) :: u64) = unat (data_size f)"
    by (simp add: unsigned_ucast_eq take_bit_nat_eq_self less_trans [OF unat_less32])
  have body: "frame_ok (unchanged A) t
      (mbind (\<lambda>s. if PB_ATYPE (ftype f) = PB_ATYPE_POINTER then
                   if bytes_left (d_in s) < ucast sz then derror ''end-of-stream'' s
                   else mthen (allocate_field env p (ucast sz + offsetof_bytes) 1)
                          (\<lambda>s. Ok (load64 (d_mem s) p) s) s
                 else if ucast (data_size f) < (ucast sz + offsetof_bytes :: u64)
                 then derror ''bytes overflow'' s
                 else Ok p s)
           (\<lambda>bdest. mthen (upd_mem (store32 bdest sz)) (read_into (bdest + offsetof_bytes) (ucast sz))) t)"
    for sz t
  proof (cases "ucast (data_size f) < (ucast sz + offsetof_bytes :: u64)")
    case True
    then show ?thesis
      by (simp add: mbind_def st derror_eq unchanged_def)
  next
    case False
    then have le: "unat sz + 4 \<le> unat (data_size f)"
      by (simp add: word_less_nat_alt alloc_bytes ds)
    have "region p 4 \<subseteq> A" "region (p + of_nat 4) (unat sz) \<subseteq> A"
      using region_mono [of 4 "unat (data_size f)" p] region_part [of 4 "unat sz" "unat (data_size f)" p]
        le r by auto
    moreover have "unat (ucast sz :: u64) = unat sz"
      by (simp add: unsigned_ucast_eq take_bit_nat_eq_self less_trans [OF unat_less32])
    ultimately have "frame_ok (unchanged A) t
        (mthen (upd_mem (store32 p sz)) (read_into (p + offsetof_bytes) (ucast sz)) t)"
      by (intro mem.fok_then mok_stores mok_read_into) (simp_all add: offsetof_bytes_def)
    then show ?thesis
      using False by (simp add: mbind_def st)
  qed
  show ?thesis
    unfolding pb_dec_bytes_def Let_def
    by (intro mem.fok_rules mok_stream mok_error body)
qed

lemma unat_add_one32: "unat (sz + 1 :: u32) = (if unat sz = 2 ^ 32 - 1 then 0 else unat sz + 1)"
  using unat_less32 [of sz] by (auto simp: unat_word_ariths)

lemma unat_ucast64: "unat (ucast (n :: u32) :: u64) = unat n"
  by (simp add: unsigned_ucast_eq take_bit_nat_eq_self less_trans [OF unat_less32])

lemma mok_terminated:
  assumes "region d (unat sz) \<subseteq> A" "d + ucast (sz :: u32) \<in> A"
  shows "frame_ok (unchanged A) s
    (case read_into d (ucast sz) s of
       Ok _ s' \<Rightarrow> upd_mem (store8 (d + ucast sz) 0) s'
     | Fail s' \<Rightarrow> Fail (s'\<lparr>d_mem := store8 (d + ucast sz) 0 (d_mem s')\<rparr>)
     | r \<Rightarrow> r)"
proof -
  have "frame_ok (unchanged A) s (read_into d (ucast sz) s)"
    using assms(1) by (intro mok_read_into) (simp add: unat_ucast64)
  then show ?thesis
    using assms(2) by (auto simp: unchanged_def upd_mem_def store8_def split: outcome.splits)
qed

lemma mok_string:
  assumes r: "region p (unat (data_size f)) \<subseteq> A" and static: "PB_ATYPE (ftype f) = PB_ATYPE_STATIC"
  shows "frame_ok (unchanged A) s (pb_dec_string env f p s)"
proof -
  have st: "PB_ATYPE (ftype f) \<noteq> PB_ATYPE_POINTER"
    using static by (simp add: atype_defs)
  have body: "frame_ok (unchanged A) t
      (mbind (\<lambda>s. if PB_ATYPE (ftype f) = PB_ATYPE_POINTER then
                   if bytes_left (d_in s) < ucast sz then derror ''end-of-stream'' s
                   else mthen (allocate_field env p (ucast (sz + 1)) 1)
                          (\<lambda>s. Ok (load64 (d_mem s) p) s) s
                 else if ucast (data_size f) < (ucast (sz + 1) :: u64)
                 then derror ''string overflow'' s
                 else Ok p s)
           (\<lambda>d s. case read_into d (ucast sz) s of
                      Ok _ s' \<Rightarrow> upd_mem (store8 (d + ucast sz) 0) s'
                    | Fail s' \<Rightarrow> Fail (s'\<lparr>d_mem := store8 (d + ucast sz) 0 (d_mem s')\<rparr>)
                    | r \<Rightarrow> r) t)"
    if nowrap: "\<not> (ucast (sz + 1) :: u64) < ucast sz" for sz :: u32 and t
  proof (cases "ucast (data_size f) < (ucast (sz + 1) :: u64)")
    case True
    then show ?thesis
      by (simp add: mbind_def st derror_eq unchanged_def)
  next
    case False
    have "unat sz \<noteq> 2 ^ 32 - 1"
      using nowrap by (auto simp: word_less_nat_alt unat_ucast64 unat_add_one32)
    then have le: "Suc (unat sz) \<le> unat (data_size f)"
      using False by (simp add: word_less_nat_alt unat_ucast64 unat_add_one32 split: if_splits)
    have "region p (unat sz) \<subseteq> A"
      using region_mono [of "unat sz" "unat (data_size f)" p] le r by auto
    moreover have "p + of_nat (unat sz) \<in> region p (unat (data_size f))"
      using le unfolding region_def by (intro imageI) simp
    then have "p + ucast sz \<in> A"
      using r by auto
    ultimately show ?thesis
      using False mok_terminated [of p sz A] by (simp add: mbind_def st)
  qed
  show ?thesis
    unfolding pb_dec_string_def Let_def
    by (intro mem.fok_rules mok_stream mok_error body)
qed

section \<open>Substreams\<close>

lemma mok_close:
  assumes "frame_ok (unchanged A) s r"
  shows "frame_ok (unchanged A) s (close_substream parent r)"
proof -
  have close: "frame_ok (unchanged A) t (on_stream f (leave_substream parent t))" for t f
    using mok_stream [of A "leave_substream parent t" f]
    by (rule mok_same_mem [rotated]) (simp add: leave_substream_def)
  show ?thesis
  proof (cases r)
    case (Ok x t)
    then have "unchanged A s t" using assms by simp
    from mem.frame_ok_trans [OF this close] Ok show ?thesis
      by (simp add: close_substream_def)
  next
    case (Fail t)
    then have "unchanged A s t" using assms by simp
    from mem.frame_ok_trans [OF this close, of "pb_close_string_substream (d_in t)"] Fail show ?thesis
      by (auto simp: close_substream_def split: outcome.splits)
  qed (simp_all add: close_substream_def)
qed

lemma mok_make:
  assumes "\<And>sub t. frame_ok (unchanged A) t (k sub t)"
  shows "frame_ok (unchanged A) s (mbind (on_stream pb_make_string_substream) k s)"
  by (intro mem.fok_bind mok_stream assms)

lemma mok_with_stream:
  "frame_ok (unchanged A) (t\<lparr>d_in := i\<rparr>) r \<Longrightarrow> frame_ok (unchanged A) t r"
  by (rule mok_same_mem) simp_all

lemma mok_in_substream:
  assumes "\<And>t. frame_ok (unchanged A) t (f t)"
  shows "frame_ok (unchanged A) s (in_substream f s)"
  unfolding in_substream_def
  by (rule mok_make, rule mok_close, rule mok_with_stream, rule assms)

lemma mok_leave_error: "d_mem t' = m \<Longrightarrow> (\<forall>x. x \<notin> A \<longrightarrow> m x = d_mem t x) \<Longrightarrow>
  frame_ok (unchanged A) t (derror msg (leave_substream p t'))"
  by (simp add: derror_eq leave_substream_def unchanged_def)

text \<open>What a decoder of whole messages is assumed to do, one level of nesting down.\<close>

definition dec_safe :: "nat set \<Rightarrow> (nat \<Rightarrow> nat) \<Rightarrow> addr set \<Rightarrow> (nat \<Rightarrow> addr \<Rightarrow> ('h, 'u) dec_state \<Rightarrow> (unit, ('h, 'u) dec_state) outcome) \<Rightarrow> bool" where
  "dec_safe M msz A dec \<longleftrightarrow>
     (\<forall>mid \<in> M. \<forall>p s. region p (msz mid) \<subseteq> A \<and> placed p (msz mid) \<longrightarrow>
        frame_ok (unchanged A) s (dec mid p s))"

lemma dec_safeD:
  "dec_safe M msz A dec \<Longrightarrow> mid \<in> M \<Longrightarrow> region p (msz mid) \<subseteq> A \<Longrightarrow> placed p (msz mid) \<Longrightarrow>
   frame_ok (unchanged A) s (dec mid p s)"
  by (simp add: dec_safe_def)

lemma placed_mono: "placed p n \<Longrightarrow> k \<le> n \<Longrightarrow> placed p k"
  by (simp add: placed_def)

lemma mok_decoders:
  assumes fits: "value_fits M msz f" and static: "PB_ATYPE (ftype f) = PB_ATYPE_STATIC"
    and r: "region p (unat (data_size f)) \<subseteq> A" and p: "placed p (unat (data_size f))"
    and dec: "\<And>init. dec_safe M msz A (dec init)"
  shows "frame_ok (unchanged A) s (PB_DECODERS env dec (PB_LTYPE (ftype f)) f p s)"
proof -
  have sub: "frame_ok (unchanged A) s (pb_dec_submessage dec f p s)"
    if "PB_LTYPE (ftype f) = PB_LTYPE_SUBMESSAGE"
  proof -
    note lt = that
    obtain k where k: "fptr f = PtrSubmsg k" "k \<in> M" "msz k \<le> unat (data_size f)"
      by (rule value_fits_submsg [OF fits lt])
    have "region p (msz k) \<subseteq> A" using region_mono [OF k(3), of p] r by blast
    then have "frame_ok (unchanged A) t (dec init k p t)" for init t
      using dec_safeD [OF dec k(2) _ placed_mono [OF p k(3)]] by blast
    then show ?thesis
      using k by (simp add: pb_dec_submessage_def mok_in_substream)
  qed
  show ?thesis
    using value_fits_size [OF fits] mok_scalars [OF r, of s] mok_bytes [OF r static, of s env]
      mok_string [OF r static, of s env] sub
    by (auto simp: PB_DECODERS_def)
qed

section \<open>Fields\<close>

text \<open>What the decoder of a field may write: the member, and the member that \<open>pSize\<close> points at.\<close>

definition writable :: "nat set \<Rightarrow> (nat \<Rightarrow> nat) \<Rightarrow> addr set \<Rightarrow> pb_field_iter \<Rightarrow> bool" where
  "writable M msz A it \<longleftrightarrow>
     (let f = it_field it in
      PB_ATYPE (ftype f) = PB_ATYPE_STATIC \<and> PB_LTYPE (ftype f) \<noteq> PB_LTYPE_EXTENSION \<and>
      value_fits M msz f \<and> region (pData it) (member_size f) \<subseteq> A \<and>
      placed (pData it) (member_size f) \<and> member_size f < 2 ^ 32 \<and>
      (PB_HTYPE (ftype f) = PB_HTYPE_REPEATED \<longrightarrow> 0 < array_size f) \<and>
      (case pSize it of
         SizeFixedCount \<Rightarrow> PB_HTYPE (ftype f) = PB_HTYPE_REPEATED
       | SizeAt a \<Rightarrow>
           (PB_HTYPE (ftype f) = PB_HTYPE_OPTIONAL \<longrightarrow> a = pData it \<or> region a 1 \<subseteq> A) \<and>
           (PB_HTYPE (ftype f) = PB_HTYPE_REPEATED \<or> PB_HTYPE (ftype f) = PB_HTYPE_ONEOF \<longrightarrow>
              region a 4 \<subseteq> A)))"

lemma writableD:
  assumes "writable M msz A it"
  shows "PB_ATYPE (ftype (it_field it)) = PB_ATYPE_STATIC"
    and "PB_LTYPE (ftype (it_field it)) \<noteq> PB_LTYPE_EXTENSION"
    and "value_fits M msz (it_field it)"
    and "region (pData it) (member_size (it_field it)) \<subseteq> A"
    and "placed (pData it) (member_size (it_field it))"
    and "member_size (it_field it) < 2 ^ 32"
    and "PB_HTYPE (ftype (it_field it)) = PB_HTYPE_REPEATED \<Longrightarrow> 0 < array_size (it_field it)"
  using assms by (simp_all add: writable_def Let_def)

lemma writable_item:
  assumes w: "writable M msz A it" and n: "n < array_size (it_field it)"
    and rep: "PB_HTYPE (ftype (it_field it)) = PB_HTYPE_REPEATED"
  shows "region (item_at (pData it) (it_field it) n) (unat (data_size (it_field it))) \<subseteq> A"
    and "placed (item_at (pData it) (it_field it) n) (unat (data_size (it_field it)))"
proof -
  let ?d = "unat (data_size (it_field it))" and ?a = "unat (array_size (it_field it))"
  have ms: "member_size (it_field it) = ?d * ?a"
    using writableD(1) [OF w] rep by (simp add: member_size_def)
  have n': "unat n < ?a" using n by (simp add: word_less_nat_alt)
  then have le: "?d * unat n + ?d \<le> ?d * ?a"
    by (metis Suc_leI mult_Suc_right add.commute mult_le_mono2)
  have "?d * unat n < 2 ^ 32"
    using le writableD(6) [OF w] ms by linarith
  then have "unat (data_size (it_field it) * n) = ?d * unat n"
    using unat_mult_lem [of "data_size (it_field it)" n] by simp
  moreover have "(ucast (data_size (it_field it) * n) :: addr) = of_nat (unat (data_size (it_field it) * n))"
    by simp
  ultimately have at: "item_at (pData it) (it_field it) n = pData it + of_nat (?d * unat n)"
    by (simp only: item_at_def)
  show "region (item_at (pData it) (it_field it) n) ?d \<subseteq> A"
    unfolding at using region_part [OF le, of "pData it"] writableD(4) [OF w] ms by auto
  show "placed (item_at (pData it) (it_field it) n) ?d"
    unfolding at using placed_part [OF _ le, of "pData it"] writableD(5) [OF w] ms by simp
qed

lemma writable_single:
  assumes w: "writable M msz A it" and "PB_HTYPE (ftype (it_field it)) \<noteq> PB_HTYPE_REPEATED"
  shows "region (pData it) (unat (data_size (it_field it))) \<subseteq> A"
    and "placed (pData it) (unat (data_size (it_field it)))"
proof -
  have "member_size (it_field it) = unat (data_size (it_field it))"
    using writableD(1) [OF w] assms(2) by (simp add: member_size_def atype_defs)
  then show "region (pData it) (unat (data_size (it_field it))) \<subseteq> A"
    "placed (pData it) (unat (data_size (it_field it)))"
    using writableD(4,5) [OF w] by simp_all
qed

lemma mok_set_size:
  assumes "writable M msz A it"
    and "PB_HTYPE (ftype (it_field it)) = PB_HTYPE_REPEATED \<or> PB_HTYPE (ftype (it_field it)) = PB_HTYPE_ONEOF"
  shows "frame_ok (unchanged A) s (set_size it n s)"
  using assms mok_stores(3) [of _ A s n]
  by (auto simp: writable_def Let_def set_size_def upd_mem_def unchanged_def split: size_ref.splits)

lemma mok_set_has:
  assumes "writable M msz A it" "PB_HTYPE (ftype (it_field it)) = PB_HTYPE_OPTIONAL" "pSize it \<noteq> SizeAt (pData it)"
  shows "frame_ok (unchanged A) s (set_has it b s)"
  using assms mok_stores(1) [of _ A s]
  by (auto simp: writable_def Let_def set_has_def split: size_ref.splits)

lemma size_pos_region:
  assumes "0 \<le> sp" "sp + int k \<le> int n"
  shows "region (d + of_int sp) k \<subseteq> region d n"
proof -
  obtain m where m: "sp = int m" using assms(1) nonneg_int_cases by blast
  then have "m + k \<le> n" using assms(2) by simp
  from region_part [OF this, of d] m show ?thesis by simp
qed

lemma iter_writable:
  assumes types: "static_types M msz descs offs" "mid \<in> M"
    and d: "placed d (msz mid)" "region d (msz mid) \<subseteq> A" and i: "i < nfields (descs mid)"
  shows "writable M msz A (iter_at (descs mid) d i)"
    and "PB_HTYPE (ftype (field_at (descs mid) i)) = PB_HTYPE_REPEATED \<Longrightarrow>
      writable M msz A ((iter_at (descs mid) d i)\<lparr>pSize := SizeFixedCount\<rparr>)"
proof -
  let ?f = "field_at (descs mid) i" and ?o = "offs mid ! i" and ?it = "iter_at (descs mid) d i"
    and ?sp = "size_pos (descs mid) (offs mid) i"
  have lay: "layout_ok (descs mid) (offs mid)" and fits: "field_fits M msz (msz mid) ?f ?o ?sp"
    using types i by (auto simp: static_types_def static_message_def)
  have d0: "d \<noteq> 0" using d by (simp add: placed_def)
  have field: "it_field ?it = ?f" by (rule it_field_iter_at [OF i])
  have data: "pData ?it = d + of_nat ?o" by (rule pData_layout [OF lay d0 i])
  have size: "pSize ?it = SizeAt (d + of_int ?sp)" by (rule pSize_layout [OF lay d0 i])
  have room: "?o + member_size ?f \<le> msz mid" using fits by (simp add: field_fits_def)
  have "region (d + of_nat ?o) (member_size ?f) \<subseteq> A"
    using region_part [OF room, of d] d(2) by blast
  moreover have "placed (d + of_nat ?o) (member_size ?f)"
    by (rule placed_part [OF d(1) room])
  moreover have "region (d + of_int ?sp) 4 \<subseteq> A"
    if "PB_HTYPE (ftype ?f) = PB_HTYPE_REPEATED \<or> PB_HTYPE (ftype ?f) = PB_HTYPE_ONEOF"
  proof -
    have "0 \<le> ?sp" "?sp + int 4 \<le> int (msz mid)"
      using fits that by (auto simp: field_fits_def size_fits_def htype_defs split: if_splits)
    from size_pos_region [OF this, of d] d(2) show ?thesis by (rule subset_trans)
  qed
  moreover have "d + of_int ?sp = d + of_nat ?o \<or> region (d + of_int ?sp) 1 \<subseteq> A"
    if "PB_HTYPE (ftype ?f) = PB_HTYPE_OPTIONAL"
  proof (cases "?sp = int ?o")
    case False
    then have "0 \<le> ?sp" "?sp + int 1 \<le> int (msz mid)"
      using fits that by (auto simp: field_fits_def size_fits_def)
    from size_pos_region [OF this, of d] d(2) show ?thesis by (blast intro: subset_trans)
  qed simp
  ultimately show "writable M msz A ?it"
    using fits by (auto simp: writable_def field_fits_def Let_def field data size)
  have "it_field (?it\<lparr>pSize := SizeFixedCount\<rparr>) = ?f"
    using field by (simp add: it_field_def)
  then show "writable M msz A (?it\<lparr>pSize := SizeFixedCount\<rparr>)"
    if "PB_HTYPE (ftype ?f) = PB_HTYPE_REPEATED"
    using that fits \<open>region (d + of_nat ?o) (member_size ?f) \<subseteq> A\<close>
      \<open>placed (d + of_nat ?o) (member_size ?f)\<close>
    by (simp add: writable_def field_fits_def Let_def data)
qed

text \<open>Default values.\<close>

lemma mok_default_data:
  assumes w: "writable M msz A it" and single: "PB_HTYPE (ftype (it_field it)) \<noteq> PB_HTYPE_REPEATED"
    and message: "dec_safe M msz A message"
  shows "frame_ok (unchanged A) s (default_data message it s)"
proof (cases "PB_LTYPE (ftype (it_field it)) = PB_LTYPE_SUBMESSAGE")
  case True
  obtain k where k: "fptr (it_field it) = PtrSubmsg k" "k \<in> M" "msz k \<le> unat (data_size (it_field it))"
    by (rule value_fits_submsg [OF writableD(3) [OF w] True])
  have "region (pData it) (msz k) \<subseteq> A" "placed (pData it) (msz k)"
    using region_mono [OF k(3), of "pData it"] writable_single [OF w single] placed_mono k(3) by blast+
  then show ?thesis
    using True k dec_safeD [OF message] by (simp add: default_data_def Let_def)
next
  case False
  have "frame_ok (unchanged A) s
      (upd_mem (\<lambda>m. mem_write m (pData it) (take (unat (data_size (it_field it))) bs)) s)" for bs
    by (rule mok_write, rule subset_trans [OF region_mono writable_single(1) [OF w single]]) simp
  then show ?thesis
    using False writable_single(1) [OF w single]
    by (auto simp: default_data_def Let_def mok_memset0 split: field_ptr.splits)
qed

lemma mok_field_default:
  assumes w: "writable M msz A it" and message: "dec_safe M msz A message"
  shows "frame_ok (unchanged A) s (field_to_default env message self it s)"
proof -
  have data: "frame_ok (unchanged A) t (default_data message it t)"
    if "PB_HTYPE (ftype (it_field it)) \<noteq> PB_HTYPE_REPEATED" for t
    by (rule mok_default_data [OF w that message])
  show ?thesis
    using writableD(1,2) [OF w] mok_set_size [OF w] mok_set_has [OF w] data
    by (auto simp: field_to_default_def Let_def htype_defs intro!: mem.fok_then)
qed

text \<open>A loop over the fields of a message.\<close>

lemma mok_each_field:
  assumes types: "static_types M msz descs offs"
    and field: "\<And>it t. writable M msz A it \<Longrightarrow> frame_ok (unchanged A) t (f it t)"
  shows "dec_safe M msz A (\<lambda>mid dest. each f (field_iters (descs mid) dest))"
  unfolding dec_safe_def
proof (intro ballI allI impI)
  fix mid p and s :: "('a, 'b) dec_state"
  assume mid: "mid \<in> M" and p: "region p (msz mid) \<subseteq> A \<and> placed p (msz mid)"
  show "frame_ok (unchanged A) s (each f (field_iters (descs mid) p) s)"
    using iter_writable(1) [OF types mid] p
    by (auto simp: field_iters_eq intro!: mem.fok_each field)
qed

lemma mok_set_default:
  assumes types: "static_types M msz (de_descs env) offs"
  shows "writable M msz A it \<Longrightarrow> frame_ok (unchanged A) s (pb_field_set_to_default env n it s)"
proof (induction n arbitrary: it s)
  case 0
  then show ?case by simp
next
  case (Suc n)
  have "dec_safe M msz A
      (\<lambda>mid dest. each (pb_field_set_to_default env n) (field_iters (de_descs env mid) dest))"
    by (rule mok_each_field [OF types]) (rule Suc.IH)
  then show ?case
    using Suc.prems by (simp add: mok_field_default)
qed

lemma dec_safe_defaults:
  "static_types M msz (de_descs env) offs \<Longrightarrow> dec_safe M msz A (pb_message_set_to_defaults env n)"
  unfolding pb_message_set_to_defaults_def
  by (rule mok_each_field) (auto intro: mok_set_default)

text \<open>Releasing writes nothing, as nothing is allocated.\<close>

definition static_kind :: "nat set \<Rightarrow> pb_field \<Rightarrow> bool" where
  "static_kind M f \<longleftrightarrow>
     PB_ATYPE (ftype f) = PB_ATYPE_STATIC \<and> PB_LTYPE (ftype f) \<noteq> PB_LTYPE_EXTENSION \<and> value_known M f"

text \<open>Statically allocated types, wherever their members lie.\<close>

definition static_kinds :: "nat set \<Rightarrow> (nat \<Rightarrow> fields) \<Rightarrow> bool" where
  "static_kinds M descs \<longleftrightarrow>
     (\<forall>mid \<in> M. 0 < nfields (descs mid) \<and> (\<forall>i < nfields (descs mid). static_kind M (field_at (descs mid) i)))"

lemma static_types_kinds: "static_types M msz descs offs \<Longrightarrow> static_kinds M descs"
  by (auto simp: static_types_def static_message_def field_fits_def static_kinds_def static_kind_def
      intro: value_fits_known)

lemma static_kind_at:
  "static_kinds M descs \<Longrightarrow> mid \<in> M \<Longrightarrow> i < nfields (descs mid) \<Longrightarrow> static_kind M (field_at (descs mid) i)"
  by (simp add: static_kinds_def)

lemma mok_release_static:
  assumes kinds: "static_kinds M (de_descs env)"
  shows "static_kind M (it_field it) \<Longrightarrow>
    frame_ok (unchanged {}) s (pb_release_single_field env n it s)"
proof (induction n arbitrary: it s)
  case 0
  then show ?case by simp
next
  case (Suc n)
  let ?message = "\<lambda>mid dest. release_message (pb_release_single_field env n) (de_descs env mid) dest"
  have message: "frame_ok (unchanged {}) t (?message k p t)" if "k \<in> M" for k p and t :: "('a, 'b) dec_state"
    using static_kind_at [OF kinds that]
    by (auto simp: release_message_def field_iters_eq it_field_iter_at
        intro!: mem.fok_return mem.fok_each Suc.IH)
  have items: "frame_ok (unchanged {}) t (release_items
      (\<lambda>p. case fptr (it_field it) of PtrSubmsg mid \<Rightarrow> ?message mid p | _ \<Rightarrow> (\<lambda>_. Undef)) d c p t)"
    if "PB_LTYPE (ftype (it_field it)) = PB_LTYPE_SUBMESSAGE" for d c p and t :: "('a, 'b) dec_state"
    using Suc.prems that message
    by (auto simp: static_kind_def value_known_def ltype_defs
        intro!: mem.fok_release_items split: field_ptr.splits)
  show ?case
    using Suc.prems items
    by (auto simp: release_field_def release_contents_def Let_def static_kind_def atype_defs
        intro!: mem.fok_then mem.fok_return)
qed

lemma mok_release_single:
  "static_kinds M (de_descs env) \<Longrightarrow> static_kind M (it_field it) \<Longrightarrow>
   frame_ok (unchanged A) s (pb_release_single_field env n it s)"
  by (rule unchanged_mono [OF empty_subsetI mok_release_static])

lemma mok_release:
  assumes kinds: "static_kinds M (de_descs env)" and "mid \<in> M"
  shows "frame_ok (unchanged A) s (pb_release env n mid p s)"
  using static_kind_at [OF assms]
  by (auto simp: pb_release_def release_message_def field_iters_eq it_field_iter_at
      intro!: mem.fok_return mem.fok_each mok_release_single [OF kinds])

section \<open>Decoding a field\<close>

lemma mok_packed_static_loop:
  assumes w: "writable M msz A it" and rep: "PB_HTYPE (ftype (it_field it)) = PB_HTYPE_REPEATED"
    and func: "\<And>n t. n < array_size (it_field it) \<Longrightarrow>
      frame_ok (unchanged A) t (func (it_field it) (item_at (pData it) (it_field it) n) t)"
  shows "frame_ok (unchanged A) s (packed_static_loop func it k s)"
proof (induction k arbitrary: s)
  case 0
  then show ?case by simp
next
  case (Suc k)
  then show ?case
    using mok_set_size [OF w] rep
    by (auto intro!: mem.fok_then mem.fok_return func)
qed

lemma mok_packed_static:
  assumes loop: "\<And>k t. frame_ok (unchanged A) t (packed_static_loop func it k t)"
  shows "frame_ok (unchanged A) s (packed_static func it s)"
  unfolding packed_static_def Let_def
proof (rule mok_make)
  fix sub and t :: "('a, 'b) dec_state"
  let ?r = "packed_static_loop func it (Suc (unat (bytes_left sub))) (t\<lparr>d_in := sub\<rparr>)"
  have r: "frame_ok (unchanged A) t ?r"
    by (rule mok_with_stream [OF loop])
  then have "frame_ok (unchanged A) t (close_substream (d_in t) ?r)"
    by (rule mok_close)
  then show "frame_ok (unchanged A) t (case ?r of
      Ok _ s' \<Rightarrow> if bytes_left (d_in s') \<noteq> 0 then derror ''array overflow'' (leave_substream (d_in t) s')
                else close_substream (d_in t) ?r
    | Fail s' \<Rightarrow> if bytes_left (d_in s') \<noteq> 0 then derror ''array overflow'' (leave_substream (d_in t) s')
                else close_substream (d_in t) ?r
    | Undef \<Rightarrow> Undef | Fuel \<Rightarrow> Fuel)"
    using r by (cases ?r) (auto simp: derror_eq leave_substream_def unchanged_def)
qed

lemma mok_static_field:
  assumes types: "static_types M msz (de_descs env) offs" and w: "writable M msz A it"
    and dec: "\<And>init. dec_safe M msz A (dec init)"
  shows "frame_ok (unchanged A) s (decode_static_field env dec wt it s)"
proof -
  let ?f = "it_field it" and ?func = "PB_DECODERS env dec (PB_LTYPE (ftype (it_field it)))"
  have single: "frame_ok (unchanged A) t (?func ?f (pData it) t)"
    if "PB_HTYPE (ftype ?f) \<noteq> PB_HTYPE_REPEATED" for t
    using writable_single [OF w that] by (intro mok_decoders [OF writableD(3,1) [OF w] _ _ dec])
  have item: "frame_ok (unchanged A) t (?func ?f (item_at (pData it) ?f n) t)"
    if "PB_HTYPE (ftype ?f) = PB_HTYPE_REPEATED" "n < array_size ?f" for n t
    using writable_item [OF w that(2,1)] by (intro mok_decoders [OF writableD(3,1) [OF w] _ _ dec])
  have packed: "frame_ok (unchanged A) t (packed_static ?func it t)"
    if "PB_HTYPE (ftype ?f) = PB_HTYPE_REPEATED" for t
    by (intro mok_packed_static mok_packed_static_loop [OF w that] item that)
  have reset: "frame_ok (unchanged A) t
      (mthen (memset0 (pData it) (data_size ?f)) (submsg_set_to_defaults env ?f (pData it)) t)"
    if "PB_LTYPE (ftype ?f) = PB_LTYPE_SUBMESSAGE" "PB_HTYPE (ftype ?f) = PB_HTYPE_ONEOF" for t
  proof -
    note lt = that(1)
    have ne: "PB_HTYPE (ftype ?f) \<noteq> PB_HTYPE_REPEATED" using that by (simp add: htype_defs)
    obtain k where k: "fptr ?f = PtrSubmsg k" "k \<in> M" "msz k \<le> unat (data_size ?f)"
      by (rule value_fits_submsg [OF writableD(3) [OF w] lt])
    have "region (pData it) (msz k) \<subseteq> A" "placed (pData it) (msz k)"
      using region_mono [OF k(3), of "pData it"] writable_single [OF w ne] placed_mono k(3) by blast+
    then show ?thesis
      using k dec_safeD [OF dec_safe_defaults [OF types]] writable_single(1) [OF w ne]
      by (auto simp: submsg_set_to_defaults_def intro!: mem.fok_then mok_memset0)
  qed
  have htype: "PB_HTYPE (ftype ?f) = PB_HTYPE_REQUIRED \<or> PB_HTYPE (ftype ?f) = PB_HTYPE_OPTIONAL \<or>
      PB_HTYPE (ftype ?f) = PB_HTYPE_REPEATED \<or> PB_HTYPE (ftype ?f) = PB_HTYPE_ONEOF"
    by (rule htype_cases)
  have distinct: "PB_HTYPE_REQUIRED \<noteq> PB_HTYPE_REPEATED" "PB_HTYPE_OPTIONAL \<noteq> PB_HTYPE_REPEATED"
    "PB_HTYPE_ONEOF \<noteq> PB_HTYPE_REPEATED" "PB_HTYPE_ONEOF \<noteq> PB_HTYPE_OPTIONAL"
    "PB_HTYPE_ONEOF \<noteq> PB_HTYPE_REQUIRED" "PB_HTYPE_OPTIONAL \<noteq> PB_HTYPE_REQUIRED"
    by (simp_all add: htype_defs)
  from htype show ?thesis
  proof (elim disjE)
    assume h: "PB_HTYPE (ftype ?f) = PB_HTYPE_REQUIRED"
    then show ?thesis
      using single distinct by (simp add: decode_static_field_def Let_def)
  next
    assume h: "PB_HTYPE (ftype ?f) = PB_HTYPE_OPTIONAL"
    have "frame_ok (unchanged A) s (mthen (if pSize it \<noteq> SizeAt (pData it) then set_has it True else mreturn ())
        (?func ?f (pData it)) s)"
      using h distinct by (intro mem.fok_then fok_fun_if single) (auto simp: mok_set_has [OF w h])
    then show ?thesis
      using h distinct by (simp add: decode_static_field_def Let_def)
  next
    assume h: "PB_HTYPE (ftype ?f) = PB_HTYPE_REPEATED"
    have "frame_ok (unchanged A) s (mthen (set_size it (get_size it s + 1))
        (if array_size ?f \<le> get_size it s then derror ''array overflow''
         else ?func ?f (item_at (pData it) ?f (get_size it s))) s)"
      using h by (intro mem.fok_then fok_fun_if mok_set_size [OF w] fok_if mok_error item) (simp_all add: not_le)
    then show ?thesis
      using h distinct packed [OF h] by (simp add: decode_static_field_def Let_def)
  next
    assume h: "PB_HTYPE (ftype ?f) = PB_HTYPE_ONEOF"
    let ?pre = "\<lambda>s. if PB_LTYPE (ftype ?f) = PB_LTYPE_SUBMESSAGE \<and> get_size it s \<noteq> tag ?f
                then mthen (memset0 (pData it) (data_size ?f)) (submsg_set_to_defaults env ?f (pData it)) s
                else Ok () s"
    have "frame_ok (unchanged A) s (?pre s)"
      using reset h by simp
    then have "frame_ok (unchanged A) s (mthen ?pre (mthen (set_size it (tag ?f)) (?func ?f (pData it))) s)"
      using h distinct by (intro mem.fok_then [where f = ?pre] mem.fok_then mok_set_size [OF w] single) simp_all
    then show ?thesis
      using h distinct by (simp add: decode_static_field_def Let_def)
  qed
qed

section \<open>The message loop\<close>

text \<open>The iterators that occur while a message of type \<open>fs\<close> at \<open>d\<close> is decoded.\<close>

definition loop_iter :: "fields \<Rightarrow> addr \<Rightarrow> pb_field_iter \<Rightarrow> bool" where
  "loop_iter fs d it \<longleftrightarrow>
     (\<exists>i < nfields fs. it = iter_at fs d i \<or>
        PB_HTYPE (ftype (field_at fs i)) = PB_HTYPE_REPEATED \<and>
        it = (iter_at fs d i)\<lparr>pSize := SizeFixedCount\<rparr>)"

lemma loop_iter_begin: "0 < nfields fs \<Longrightarrow> loop_iter fs d (snd (pb_field_iter_begin fs d))"
  by (auto simp: loop_iter_def iter_at.simps intro!: exI [of _ "0 :: nat"])

text \<open>A moved \<open>pSize\<close> is forgotten by the next step, as an array is not in a union.\<close>

lemma next_moved_size:
  assumes i: "i < nfields fs" and rep: "PB_HTYPE (ftype (field_at fs i)) = PB_HTYPE_REPEATED"
  shows "pb_field_iter_next ((iter_at fs d i)\<lparr>pSize := z\<rparr>) = pb_field_iter_next (iter_at fs d i)"
proof -
  have f: "it_field ((iter_at fs d i)\<lparr>pSize := z\<rparr>) = field_at fs i" "it_field (iter_at fs d i) = field_at fs i"
    using i by (simp_all add: it_field_def iter_at_pos)
  have ne: "PB_HTYPE_REPEATED \<noteq> PB_HTYPE_ONEOF" "PB_HTYPE_REPEATED \<noteq> PB_HTYPE_REQUIRED"
    by (simp_all add: htype_defs)
  show ?thesis
    using rep ne field_at_nonzero [OF i]
    by (simp add: pb_field_iter_next_def f Let_def) (simp add: it_field_def iter_at_pos i)
qed

lemma loop_iter_next: "loop_iter fs d it \<Longrightarrow> loop_iter fs d (snd (pb_field_iter_next it))"
proof -
  assume "loop_iter fs d it"
  then obtain i where i: "i < nfields fs"
    and eq: "pb_field_iter_next it = pb_field_iter_next (iter_at fs d i)"
    by (auto simp: loop_iter_def next_moved_size)
  have "\<exists>j < nfields fs. snd (pb_field_iter_next it) = iter_at fs d j"
    using i by (auto simp: eq next_iter_at intro: exI [of _ "0 :: nat"])
  then show ?thesis by (auto simp: loop_iter_def)
qed

lemma loop_iter_find_loop:
  "find_loop n wanted start it = Some (b, it') \<Longrightarrow> loop_iter fs d it \<Longrightarrow> loop_iter fs d it'"
  by (induction n arbitrary: it)
    (auto simp: Let_def loop_iter_next split: if_splits)

lemma find_loop_found: "find_loop n wanted start it = Some (True, it') \<Longrightarrow> wanted (it_field it')"
  by (induction n arbitrary: it) (auto simp: Let_def split: if_splits)

lemma loop_iter_field: "loop_iter fs d it \<Longrightarrow> \<exists>i < nfields fs. it_field it = field_at fs i"
  by (auto simp: loop_iter_def it_field_iter_at) (auto simp: it_field_def iter_at_pos)

lemma loop_iter_writable:
  assumes "static_types M msz descs offs" "mid \<in> M" "placed d (msz mid)" "region d (msz mid) \<subseteq> A"
    and "loop_iter (descs mid) d it"
  shows "writable M msz A it"
  using assms(5) iter_writable [OF assms(1-4)] by (auto simp: loop_iter_def)

lemma loop_iter_static:
  "static_kinds M descs \<Longrightarrow> mid \<in> M \<Longrightarrow> loop_iter (descs mid) d it \<Longrightarrow> static_kind M (it_field it)"
  using loop_iter_field static_kind_at by metis

text \<open>A frame together with what holds of the returned value.\<close>

definition frame_gives :: "('s \<Rightarrow> 's \<Rightarrow> bool) \<Rightarrow> ('a \<Rightarrow> bool) \<Rightarrow> 's \<Rightarrow> ('a, 's) outcome \<Rightarrow> bool" where
  "frame_gives Q P s r \<longleftrightarrow> frame_ok Q s r \<and> (case r of Ok x _ \<Rightarrow> P x | _ \<Rightarrow> True)"

lemma gives_bind:
  assumes f: "frame_gives (unchanged A) P s (f s)"
    and g: "\<And>x t. P x \<Longrightarrow> frame_gives (unchanged A) P' t (g x t)"
  shows "frame_gives (unchanged A) P' s (mbind f g s)"
proof (cases "f s")
  case (Ok x t)
  then have "unchanged A s t" "P x" using f by (simp_all add: frame_gives_def)
  with g [of x t] Ok show ?thesis
    by (auto simp: frame_gives_def mbind_def intro: mem.Q_trans split: outcome.splits)
qed (use f in \<open>simp_all add: frame_gives_def mbind_def\<close>)

lemma gives_then:
  "frame_ok (unchanged A) s (f s) \<Longrightarrow> (\<And>t. frame_gives (unchanged A) P t (g t)) \<Longrightarrow>
   frame_gives (unchanged A) P s (mthen f g s)"
  unfolding mthen_def by (rule gives_bind [where P = "\<lambda>_. True"])
    (auto simp: frame_gives_def split: outcome.splits)

lemma gives_return: "P x \<Longrightarrow> frame_gives (unchanged A) P s (Ok x s)"
  by (simp add: frame_gives_def)

lemma gives_error: "frame_gives (unchanged A) P s (derror msg s)"
  by (simp add: frame_gives_def derror_eq unchanged_def)

lemma gives_if:
  "(c \<Longrightarrow> frame_gives Q P s r) \<Longrightarrow> (\<not> c \<Longrightarrow> frame_gives Q P s r') \<Longrightarrow> frame_gives Q P s (if c then r else r')"
  by simp

lemma gives_fun_if: "frame_gives Q P s (if c then f s else g s) \<Longrightarrow> frame_gives Q P s ((if c then f else g) s)"
  by (cases c) simp_all

lemma gives_find:
  "loop_iter fs d it \<Longrightarrow>
   frame_gives (unchanged A) (\<lambda>(b, it'). loop_iter fs d it') s (find_iter it t s)"
  by (cases "pb_field_iter_find it t")
    (auto simp: find_iter_def frame_gives_def pb_field_iter_find_def simp del: find_loop.simps
      dest: loop_iter_find_loop)

lemma gives_find_bind:
  assumes "loop_iter fs d it" "\<And>b j u. loop_iter fs d j \<Longrightarrow> frame_gives (unchanged A) P u (k b j u)"
  shows "frame_gives (unchanged A) P s (mbind (find_iter it t) (\<lambda>(b, j). k b j) s)"
  by (rule gives_bind [OF gives_find [OF assms(1)]]) (auto intro: assms(2))

text \<open>What the decoder of one message keeps, for static types of any layout.\<close>

locale plain_decoder =
  fixes env :: "('h, 'u) dec_env" and M :: "nat set"
  assumes kinds: "static_kinds M (de_descs env)"
begin

lemma gives_release_union:
  assumes mid: "mid \<in> M" and it: "loop_iter (de_descs env mid) d it"
  shows "frame_gives (unchanged A) (loop_iter (de_descs env mid) d) s (pb_release_union_field env it s)"
proof -
  have inside: "frame_gives (unchanged A) (loop_iter (de_descs env mid) d) t
      (mthen (if PB_ATYPE (ftype (it_field j)) = PB_ATYPE_POINTER
              then upd_mem (store64 (pData j) 0) else mreturn ()) (mreturn j) t)"
    if "loop_iter (de_descs env mid) d j" for j t
    using loop_iter_static [OF kinds mid that] that
    by (auto simp: static_kind_def atype_defs intro!: gives_then gives_return)
  have release: "frame_ok (unchanged A) t (pb_release_single_field env n j t)"
    if "loop_iter (de_descs env mid) d j" for n j t
    by (rule mok_release_single [OF kinds loop_iter_static [OF kinds mid that]])
  show ?thesis
    unfolding pb_release_union_field_def Let_def
    by (intro gives_if gives_return it gives_find_bind [OF it] gives_error gives_then release gives_fun_if)
      (assumption | rule gives_find_bind gives_fun_if gives_if gives_error inside)+
qed

lemma loop_iter_moved:
  assumes "loop_iter fs d it" "PB_HTYPE (ftype (it_field it)) = PB_HTYPE_REPEATED"
  shows "loop_iter fs d (it\<lparr>pSize := SizeFixedCount\<rparr>)"
  using assms by (auto simp: loop_iter_def it_field_iter_at)

lemma gives_select:
  assumes "loop_iter fs d (lv_iter lv)"
  shows "frame_gives (unchanged A) (\<lambda>lv'. loop_iter fs d (lv_iter lv')) s (select_fixed_count lv s)"
  using assms loop_iter_moved [OF assms]
  by (auto simp: select_fixed_count_def Let_def derror_eq frame_gives_def unchanged_def)

lemma tag_small: "pb_decode_tag i = (Ok (t, wt) i', e) \<Longrightarrow> t \<noteq> - 1"
proof -
  assume "pb_decode_tag i = (Ok (t, wt) i', e)"
  then obtain temp :: u32 where "t = drop_bit 3 temp"
    by (auto simp: pb_decode_tag_def split: outcome.splits prod.splits if_splits)
  then have "\<not> bit t 31"
    using bit_imp_le_length [of temp 34] by (auto simp: bit_drop_bit_eq)
  moreover have "bit (- 1 :: u32) 31" by simp
  ultimately show ?thesis by metis
qed

lemma gives_unknown:
  assumes mid: "mid \<in> M" and it: "loop_iter (de_descs env mid) d (lv_iter lv)" and t: "t \<noteq> - 1"
  shows "frame_gives (unchanged A) (\<lambda>lv'. loop_iter (de_descs env mid) d (lv_iter lv')) s
    (decode_unknown env dec t wt lv s)"
proof -
  let ?I = "\<lambda>lv'. loop_iter (de_descs env mid) d (lv_iter lv')"
  have skip: "frame_gives (unchanged A) ?I s (mthen (on_stream (pb_skip_field wt)) (mreturn lv') s)"
    if "?I lv'" for lv'
    using that by (intro gives_then mok_stream gives_return)
  show ?thesis
  proof (cases "find_extension_field (lv_iter lv)")
    case None
    then show ?thesis
      using skip it by (auto simp: decode_unknown_def Let_def frame_gives_def)
  next
    case (Some r)
    then obtain b j where bj: "find_extension_field (lv_iter lv) = Some (b, j)" by (cases r) auto
    then have j: "loop_iter (de_descs env mid) d j"
      using loop_iter_find_loop it unfolding find_extension_field_def by blast
    have "PB_LTYPE (ftype (it_field j)) = PB_LTYPE_EXTENSION" if b
      using that bj unfolding find_extension_field_def by (auto dest: find_loop_found simp del: find_loop.simps)
    then have "\<not> b"
      using loop_iter_static [OF kinds mid j] by (auto simp: static_kind_def)
    moreover have "\<not> - 1 \<le> t"
      using t by (metis word_order.extremum_unique)
    ultimately show ?thesis
      using bj skip [of lv] skip [of "lv\<lparr>lv_iter := j, extension_range_start := - 1\<rparr>"] it j
      by (simp add: decode_unknown_def Let_def)
  qed
qed

end

locale static_decoder =
  fixes env :: "('h, 'u) dec_env" and M :: "nat set" and msz :: "nat \<Rightarrow> nat"
    and offs :: "nat \<Rightarrow> nat list"
  assumes types: "static_types M msz (de_descs env) offs"

sublocale static_decoder \<subseteq> plain_decoder env M
  by unfold_locales (rule static_types_kinds [OF types])

context static_decoder
begin

text \<open>One message of type \<open>mid\<close> at \<open>d\<close>, with decoders \<open>dec\<close> for what is nested in it.\<close>

lemma gives_decode_field:
  assumes mid: "mid \<in> M" and d: "placed d (msz mid)" "region d (msz mid) \<subseteq> A"
    and it: "loop_iter (de_descs env mid) d it" and dec: "\<And>init. dec_safe M msz A (dec init)"
  shows "frame_gives (unchanged A) (loop_iter (de_descs env mid) d) s (decode_field env dec wt it s)"
proof -
  let ?I = "loop_iter (de_descs env mid) d"
  have step: "frame_gives (unchanged A) ?I t
      (mthen (let atype = PB_ATYPE (ftype (it_field j)) in
             if atype = PB_ATYPE_STATIC then decode_static_field env dec wt j
             else if atype = PB_ATYPE_POINTER then decode_pointer_field env dec wt j
             else if atype = PB_ATYPE_CALLBACK then decode_callback_field env wt j
             else derror ''invalid field type'')
            (mreturn j) t)" if "?I j" for j t
  proof -
    have w: "writable M msz A j" by (rule loop_iter_writable [OF types mid d that])
    show ?thesis
      using mok_static_field [OF types w dec] writableD(1) [OF w] that
      by (auto simp: Let_def intro!: gives_then gives_return)
  qed
  have "frame_gives (unchanged A) ?I s
      ((if PB_HTYPE (ftype (it_field it)) = PB_HTYPE_ONEOF
            then pb_release_union_field env it else mreturn it) s)"
    using gives_release_union [OF mid it] it by (auto intro: gives_return)
  then show ?thesis
    unfolding decode_field_def by (rule gives_bind) (rule step)
qed

lemma gives_known:
  assumes mid: "mid \<in> M" and d: "placed d (msz mid)" "region d (msz mid) \<subseteq> A"
    and it: "loop_iter (de_descs env mid) d (lv_iter lv)" and dec: "\<And>init. dec_safe M msz A (dec init)"
  shows "frame_gives (unchanged A) (\<lambda>lv'. loop_iter (de_descs env mid) d (lv_iter lv')) s
    (decode_known env dec wt lv s)"
  unfolding decode_known_def Let_def
proof (rule gives_bind [OF gives_select [OF it]])
  fix lv :: loop_vars and t :: "('h, 'u) dec_state"
  assume "loop_iter (de_descs env mid) d (lv_iter lv)"
  then have "loop_iter (de_descs env mid) d (lv_iter (note_required lv))"
    by (simp add: note_required_def Let_def)
  from gives_decode_field [OF mid d this dec]
  show "frame_gives (unchanged A) (\<lambda>lv'. loop_iter (de_descs env mid) d (lv_iter lv')) t
      (mbind (decode_field env dec wt (lv_iter (note_required lv)))
         (\<lambda>iter. mreturn (note_required lv\<lparr>lv_iter := iter\<rparr>)) t)"
    by (rule gives_bind) (auto intro: gives_return)
qed

lemma gives_round:
  assumes mid: "mid \<in> M" and d: "placed d (msz mid)" "region d (msz mid) \<subseteq> A"
    and it: "loop_iter (de_descs env mid) d (lv_iter lv)" and dec: "\<And>init. dec_safe M msz A (dec init)"
  shows "frame_gives (unchanged A)
    (\<lambda>r. case r of Some lv' \<Rightarrow> loop_iter (de_descs env mid) d (lv_iter lv') | None \<Rightarrow> True) s
    (decode_round env dec lv s)"
proof (cases "pb_decode_tag (d_in s)")
  case (Pair r e)
  show ?thesis
  proof (cases r)
    case (Ok x i)
    obtain t wt where x: "x = (t, wt)" by (cases x)
    note t = tag_small [OF Pair [unfolded Ok x]]
    let ?P = "\<lambda>lv'. loop_iter (de_descs env mid) d (lv_iter lv')"
    have go: "frame_gives (unchanged A) ?P u
        ((if b then decode_known env dec wt (lv\<lparr>lv_iter := j\<rparr>)
          else decode_unknown env dec t wt (lv\<lparr>lv_iter := j\<rparr>)) u)"
      if "loop_iter (de_descs env mid) d j" for b j u
      using that gives_known [OF mid d _ dec] gives_unknown [OF mid _ t]
      by (intro gives_fun_if gives_if) simp_all
    have "frame_gives (unchanged A)
        (\<lambda>r. case r of Some lv' \<Rightarrow> ?P lv' | None \<Rightarrow> True) (s\<lparr>d_in := i\<rparr>)
        (mbind (find_iter (lv_iter lv) t) (\<lambda>(found, iter).
            mbind (if found then decode_known env dec wt (lv\<lparr>lv_iter := iter\<rparr>)
                   else decode_unknown env dec t wt (lv\<lparr>lv_iter := iter\<rparr>))
              (\<lambda>lv. mreturn (Some lv))) (s\<lparr>d_in := i\<rparr>))"
      by (rule gives_find_bind [OF it], rule gives_bind [OF go]) (auto intro: gives_return)
    then show ?thesis
      using Pair Ok x
      by (auto simp: decode_round_def frame_gives_def unchanged_def frame_ok_def split: outcome.splits)
  qed (use Pair in \<open>auto simp: decode_round_def frame_gives_def unchanged_def\<close>)
qed

lemma gives_rounds:
  assumes mid: "mid \<in> M" and d: "placed d (msz mid)" "region d (msz mid) \<subseteq> A"
    and dec: "\<And>init. dec_safe M msz A (dec init)"
  shows "loop_iter (de_descs env mid) d (lv_iter lv) \<Longrightarrow>
    frame_ok (unchanged A) s (decode_rounds env dec n lv s)"
proof (induction n arbitrary: lv s)
  case 0
  then show ?case by simp
next
  case (Suc n)
  have "frame_gives (unchanged A)
    (\<lambda>r. case r of Some lv' \<Rightarrow> loop_iter (de_descs env mid) d (lv_iter lv') | None \<Rightarrow> True) s
    (decode_round env dec lv s)"
    by (rule gives_round [OF mid d Suc.prems dec])
  then show ?case
    using Suc.IH
    by (auto simp: frame_gives_def split: outcome.splits option.splits intro: mem.frame_ok_trans)
qed

lemma mok_checks:
  "frame_ok (unchanged A) s (mthen (check_fixed_count lv) (check_required lv) s)"
  unfolding check_fixed_count_def check_required_def
  by (intro mem.fok_then fok_fun_if fok_if mok_error mem.fok_return)

lemma mok_message:
  assumes mid: "mid \<in> M" and d: "placed d (msz mid)" "region d (msz mid) \<subseteq> A"
    and dec: "\<And>init. dec_safe M msz A (dec init)"
  shows "frame_ok (unchanged A) s (decode_message env dec mid d s)"
proof -
  have "0 < nfields (de_descs env mid)"
    using types mid by (simp add: static_types_def static_message_def)
  then show ?thesis
    unfolding decode_message_def
    by (intro mem.fok_bind mok_checks gives_rounds [OF mid d dec]) (simp add: loop_iter_begin)
qed

lemma dec_safe_with_defaults:
  assumes noinit: "dec_safe M msz A noinit"
  shows "dec_safe M msz A (decode_with_defaults env noinit)"
  unfolding dec_safe_def
proof (intro ballI allI impI)
  fix mid p and s :: "('h, 'u) dec_state"
  assume mid: "mid \<in> M" and p: "region p (msz mid) \<subseteq> A \<and> placed p (msz mid)"
  have "frame_ok (unchanged A) t (release_on_failure env mid p (noinit mid p) t)" for t
  proof (cases "noinit mid p t")
    case (Fail u)
    then have "unchanged A t u"
      using dec_safeD [OF noinit mid, of p t] p by simp
    from mem.frame_ok_trans [OF this mok_release [OF kinds mid, of A u "de_steps env" p]] Fail
    show ?thesis by (auto simp: release_on_failure_def split: outcome.splits)
  qed (use dec_safeD [OF noinit mid, of p t] p in \<open>simp_all add: release_on_failure_def\<close>)
  then show "frame_ok (unchanged A) s (decode_with_defaults env noinit mid p s)"
    unfolding decode_with_defaults_def
    using dec_safeD [OF dec_safe_defaults [OF types] mid] p by (intro mem.fok_then) simp_all
qed

lemma dec_safe_noinit: "dec_safe M msz A (pb_decode_noinit env n)"
proof (induction n)
  case 0
  then show ?case by (simp add: dec_safe_def)
next
  case (Suc n)
  have dec: "dec_safe M msz A
      ((\<lambda>init. if init then decode_with_defaults env (pb_decode_noinit env n) else pb_decode_noinit env n) init)"
    for init
    using Suc.IH dec_safe_with_defaults [OF Suc.IH] by simp
  show ?case
    unfolding dec_safe_def
  proof (intro ballI allI impI)
    fix mid p and s :: "('h, 'u) dec_state"
    assume "mid \<in> M" and p: "region p (msz mid) \<subseteq> A \<and> placed p (msz mid)"
    then have "frame_ok (unchanged A) (s\<lparr>d_fixed := 0\<rparr>) (decode_message env
        (\<lambda>init. if init then decode_with_defaults env (pb_decode_noinit env n) else pb_decode_noinit env n)
        mid p (s\<lparr>d_fixed := 0\<rparr>))"
      by (intro mok_message dec) auto
    then show "frame_ok (unchanged A) s (pb_decode_noinit env (Suc n) mid p s)"
      by (auto simp: with_fixed_count_def unchanged_def split: outcome.splits)
  qed
qed

text \<open>Nothing outside of the destination struct is written.\<close>

theorem pb_decode_inside:
  assumes "mid \<in> M" "placed d (msz mid)"
  shows "frame_ok (unchanged (region d (msz mid))) s (pb_decode env n mid d s)"
  unfolding pb_decode_def
  by (rule dec_safeD [OF dec_safe_with_defaults [OF dec_safe_noinit] assms(1) subset_refl assms(2)])

theorem pb_decode_noinit_inside:
  assumes "mid \<in> M" "placed d (msz mid)"
  shows "frame_ok (unchanged (region d (msz mid))) s (pb_decode_noinit env n mid d s)"
  by (rule dec_safeD [OF dec_safe_noinit assms(1) subset_refl assms(2)])

lemma mok_delimited:
  assumes "mid \<in> M" "placed d (msz mid)"
  shows "frame_ok (unchanged (region d (msz mid))) s (pb_decode_delimited env n mid d s)"
  unfolding pb_decode_delimited_def by (rule mok_in_substream) (rule pb_decode_inside [OF assms])

end

end
