(* ===== verification/PB_Ends.thy ===== *)
theory PB_Ends
  imports PB_Static
begin

unbundle bit_operations_syntax

text \<open>
  Decoding ends. For static message types whose nesting is well founded, whatever their layout, the decoders return
  true or false on every input that is shorter than the step budget: no loop of
  \<open>pb_decode.c\<close> goes on without consuming input. \<open>halts\<close> is the statement for an outcome:
  the fuel is not used up, and \<open>bytes_left\<close> has not grown.
\<close>

section \<open>Readers consume\<close>

definition eats :: "'u pb_istream \<Rightarrow> ('a, 'u pb_istream) outcome \<Rightarrow> bool" where
  "eats i r = (case r of Ok _ i' \<Rightarrow> unat (bytes_left i') < unat (bytes_left i) | _ \<Rightarrow> True)"

lemma left_leD: "left_le i i' \<Longrightarrow> unat (bytes_left i') \<le> unat (bytes_left i)"
  by (simp add: left_le_def word_le_nat_alt)

lemma eats_varint32_eof: "eats i (fst (pb_decode_varint32_eof i))"
proof (cases "pb_readbyte i")
  case (Ok b j)
  have less: "unat (bytes_left j) < unat (bytes_left i)" by (rule readbyte_less [OF Ok])
  have "unat (bytes_left k) \<le> unat (bytes_left j)"
    if "mbind (varint32_loop (ucast (b AND 0x7F)) 7)
     (\<lambda>(result, bitpos, byte) s.
        if bitpos = 35 \<and> byte AND 0x70 \<noteq> 0 then ierror ''varint overflow'' s else Ok result s) j = Ok x k"
    for x k
    using that left.keeps_varint32_loop [where r = "ucast (b AND 0x7F)" and b = 7 and s = j]
    by (auto simp: mbind_Ok_iff ierror_def split: if_splits prod.splits dest: left_leD)
  with Ok less show ?thesis
    by (auto simp: eats_def pb_decode_varint32_eof_def split: outcome.splits)
qed (simp_all add: eats_def pb_decode_varint32_eof_def)

lemma eats_varint32: "eats i (pb_decode_varint32 i)"
  by (simp add: pb_decode_varint32_def eats_varint32_eof)

lemma eats_varint: "eats i (pb_decode_varint i)"
proof (cases "pb_readbyte i")
  case (Ok b j)
  have less: "unat (bytes_left j) < unat (bytes_left i)" by (rule readbyte_less [OF Ok])
  have "unat (bytes_left k) \<le> unat (bytes_left j)" if "varint_loop64 r p j = Ok x k" for r p x k
    using that left.keeps_varint_loop64 [where r = r and b = p and s = j] by (auto dest: left_leD)
  with Ok less show ?thesis
    unfolding pb_decode_varint_def
    by (subst varint_loop64.simps) (fastforce simp: eats_def Let_def split: outcome.splits)
qed (unfold pb_decode_varint_def, (subst varint_loop64.simps, simp add: eats_def)+)

lemma eats_map: "eats i (f i) \<Longrightarrow> eats i (mbind f (\<lambda>x. mreturn (g x)) i)"
  by (cases "f i") (simp_all add: eats_def mbind_def)

lemma eats_svarint: "eats i (pb_decode_svarint i)"
  unfolding pb_decode_svarint_def by (rule eats_map [OF eats_varint])

lemma eats_read: "n \<noteq> 0 \<Longrightarrow> eats i (pb_read n i)"
  by (cases "pb_read n i") (auto simp: eats_def dest: read_less)

lemma eats_fixed: "eats i (pb_decode_fixed32 i)" "eats i (pb_decode_fixed64 i)"
  unfolding pb_decode_fixed32_def pb_decode_fixed64_def by (rule eats_map, rule eats_read, simp)+

lemma eats_tag: "eats i (fst (pb_decode_tag i))"
  using eats_varint32_eof [of i]
  by (auto simp: eats_def pb_decode_tag_def split: outcome.splits prod.splits)

text \<open>The same for the field decoders of packable types.\<close>

definition deats :: "('h, 'u) dec_state \<Rightarrow> (unit, ('h, 'u) dec_state) outcome \<Rightarrow> bool" where
  "deats s r = (case r of Ok _ s' \<Rightarrow> unat (bytes_left (d_in s')) < unat (bytes_left (d_in s)) | _ \<Rightarrow> True)"

lemma deats_stream:
  assumes "eats (d_in s) (f (d_in s))"
    and "\<And>x t. case g x t of Ok _ t' \<Rightarrow> d_in t' = d_in t | _ \<Rightarrow> True"
  shows "deats s (mbind (on_stream f) g s)"
proof (cases "f (d_in s)")
  case (Ok x i)
  then show ?thesis
    using assms(1) assms(2) [where x = x and t = "s\<lparr>d_in := i\<rparr>"]
    by (auto simp: deats_def eats_def mbind_def on_stream_def split: outcome.splits)
qed (simp_all add: deats_def mbind_def on_stream_def)

lemma store_checked_in: "case store_checked st v t of Ok _ t' \<Rightarrow> d_in t' = d_in t | _ \<Rightarrow> True"
  by (auto simp: store_checked_def derror_eq mthen_def mbind_def upd_mem_def split: option.splits outcome.splits)

lemma deats_packable:
  assumes "PB_LTYPE lt \<le> PB_LTYPE_LAST_PACKABLE"
  shows "deats s (PB_DECODERS env dec (PB_LTYPE lt) f p s)"
proof -
  have stored: "case upd_mem w t of Ok _ t' \<Rightarrow> d_in t' = d_in t | _ \<Rightarrow> True" for w and t :: "('a, 'b) dec_state"
    by (simp add: upd_mem_def)
  have scalars: "deats s (pb_dec_bool f p s)" "deats s (pb_dec_varint f p s)" "deats s (pb_dec_uvarint f p s)"
    "deats s (pb_dec_svarint f p s)" "deats s (pb_dec_fixed32 f p s)" "deats s (pb_dec_fixed64 f p s)"
    unfolding pb_dec_bool_def pb_dec_varint_def pb_dec_uvarint_def pb_dec_svarint_def pb_dec_fixed32_def
      pb_dec_fixed64_def Let_def
    by (intro deats_stream eats_varint32 eats_varint eats_svarint eats_fixed stored store_checked_in)+
  have "PB_LTYPE lt \<noteq> PB_LTYPE_BYTES" "PB_LTYPE lt \<noteq> PB_LTYPE_STRING" "PB_LTYPE lt \<noteq> PB_LTYPE_SUBMESSAGE"
    "PB_LTYPE lt \<noteq> PB_LTYPE_FIXED_LENGTH_BYTES"
    using assms by (auto simp: ltype_defs)
  then show ?thesis
    using scalars by (simp add: PB_DECODERS_def deats_def)
qed

section \<open>Halting\<close>

definition halts :: "('h, 'u) dec_state \<Rightarrow> ('a, ('h, 'u) dec_state) outcome \<Rightarrow> bool" where
  "halts s r \<longleftrightarrow> frame_ok (on_in left_le) s r \<and> r \<noteq> Fuel \<and> r \<noteq> Undef"

text \<open>The input is shorter than the step budget.\<close>

definition short :: "nat \<Rightarrow> ('h, 'u) dec_state \<Rightarrow> bool" where
  "short N s \<longleftrightarrow> unat (bytes_left (d_in s)) < N"

lemma halts_bind:
  assumes s: "short N s" and f: "halts s (f s)" and g: "\<And>x t. short N t \<Longrightarrow> halts t (g x t)"
  shows "halts s (mbind f g s)"
proof (cases "f s")
  case (Ok x t)
  then have st: "left_le (d_in s) (d_in t)" using f by (simp add: halts_def on_in_def)
  then have "short N t" using s left_leD [OF st] by (simp add: short_def)
  from g [OF this, of x] have "halts t (g x t)" .
  then show ?thesis
    using Ok st by (auto simp: halts_def mbind_def frame_ok_def on_in_def intro: left.R_trans
        split: outcome.splits)
qed (use f in \<open>simp_all add: halts_def mbind_def\<close>)

lemma halts_then:
  "short N s \<Longrightarrow> halts s (f s) \<Longrightarrow> (\<And>t. short N t \<Longrightarrow> halts t (g t)) \<Longrightarrow> halts s (mthen f g s)"
  unfolding mthen_def by (rule halts_bind)

lemma halts_return: "halts s (Ok x s)"
  by (simp add: halts_def on_in_def left.R_refl)

lemma halts_if: "(c \<Longrightarrow> halts s r) \<Longrightarrow> (\<not> c \<Longrightarrow> halts s r') \<Longrightarrow> halts s (if c then r else r')"
  by simp

lemma halts_fun_if: "halts s (if c then f s else g s) \<Longrightarrow> halts s ((if c then f else g) s)"
  by (cases c) simp_all

lemma halts_each:
  "short N s \<Longrightarrow> (\<And>x t. x \<in> set xs \<Longrightarrow> short N t \<Longrightarrow> halts t (f x t)) \<Longrightarrow> halts s (each f xs s)"
proof (induction xs arbitrary: s)
  case Nil
  then show ?case by (simp add: halts_return)
next
  case (Cons x xs)
  show ?case
    unfolding each.simps
  proof (rule halts_then [OF Cons.prems(1)])
    show "halts s (f x s)" using Cons.prems by simp
    show "halts t (each f xs t)" if "short N t" for t
      using that Cons.prems(2) by (intro Cons.IH) auto
  qed
qed

lemma halts_stream: "keeps left_le f \<Longrightarrow> halts s (on_stream f s)"
  by (cases rule: keeps_cases [of left_le f "d_in s", case_names _ Ok Fail])
    (auto simp: halts_def on_stream_def on_in_def)

lemma halts_error: "halts s (derror msg s)"
  unfolding derror_def by (rule halts_stream [OF left.keeps_error])

lemma halts_memory:
  "halts s (upd_mem w s)" "halts s (memset0 p n s)" "halts s (set_size it m s)"
  "halts s (call_free env p s)"
  by (auto simp: halts_def upd_mem_def memset0_def set_size_def call_free_def on_in_def
      left.R_refl split: size_ref.splits prod.splits)

text \<open>Only the iterator at a fixed-count array has its size in the local variable.\<close>

definition sized :: "pb_field_iter \<Rightarrow> bool" where
  "sized it \<longleftrightarrow> (pSize it = SizeFixedCount \<longrightarrow> PB_HTYPE (ftype (it_field it)) = PB_HTYPE_REPEATED)"

lemma halts_set_has:
  "sized it \<Longrightarrow> PB_HTYPE (ftype (it_field it)) = PB_HTYPE_OPTIONAL \<Longrightarrow> halts s (set_has it b s)"
  by (cases "pSize it") (auto simp: sized_def set_has_def halts_memory htype_defs)

lemma pSize_iter_at: "pSize (iter_at fs d i) \<noteq> SizeFixedCount"
  by (induction i) (simp_all add: iter_at.simps pb_field_iter_begin_def pb_field_iter_next_def Let_def)

lemma sized_iter_at: "sized (iter_at fs d i)"
  by (simp add: sized_def pSize_iter_at)

lemma sized_loop_iter: "loop_iter fs d it \<Longrightarrow> sized it"
  by (auto simp: loop_iter_def sized_def pSize_iter_at it_field_iter_at)
    (simp add: it_field_def iter_at_pos)

lemma halts_read_into: "halts s (read_into p n s)"
  unfolding read_into_def
  by (rule halts_bind [where N = "Suc (unat (bytes_left (d_in s)))"])
    (simp_all add: short_def halts_stream left.keeps_read halts_memory)

lemma halts_with_in:
  "halts (s\<lparr>d_in := i\<rparr>) r \<Longrightarrow> left_le (d_in s) i \<Longrightarrow> halts s r"
  by (cases r) (auto simp: halts_def on_in_def intro: left.R_trans)

lemma short_self: "short (Suc (unat (bytes_left (d_in s)))) s"
  by (simp add: short_def)

lemmas halts_basic = halts_return halts_if halts_fun_if halts_error halts_memory halts_read_into
  halts_stream [OF left.keeps_decode_varint] halts_stream [OF left.keeps_decode_varint32]
  halts_stream [OF left.keeps_decode_svarint] halts_stream [OF left.keeps_decode_fixed(1)]
  halts_stream [OF left.keeps_decode_fixed(2)] halts_stream [OF left.keeps_skip_field]

lemma halts_store_checked: "halts s (store_checked st v s)"
  by (cases st) (auto simp: store_checked_def intro!: halts_then [OF short_self] halts_basic split: prod.splits)

lemma halts_scalars:
  "halts s (pb_dec_bool f p s)" "halts s (pb_dec_varint f p s)" "halts s (pb_dec_uvarint f p s)"
  "halts s (pb_dec_svarint f p s)" "halts s (pb_dec_fixed32 f p s)" "halts s (pb_dec_fixed64 f p s)"
  "halts s (pb_dec_fixed_length_bytes f p s)"
  unfolding pb_dec_bool_def pb_dec_varint_def pb_dec_uvarint_def pb_dec_svarint_def
      pb_dec_fixed32_def pb_dec_fixed64_def pb_dec_fixed_length_bytes_def Let_def
  by (rule halts_bind [OF short_self]; intro halts_basic halts_store_checked)+

lemma halts_allocate: "halts s (allocate_field env p a b s)"
  by (auto simp: allocate_field_def halts_def derror_eq on_in_def left.R_refl set_ierror_def
      intro: left.R_errmsg split: prod.splits)

lemma halts_bytes: "halts s (pb_dec_bytes env f p s)"
  unfolding pb_dec_bytes_def Let_def
  by (intro halts_bind [OF short_self] halts_then [OF short_self] halts_basic halts_allocate)

lemma halts_string: "halts s (pb_dec_string env f p s)"
proof -
  have stop: "halts t (case read_into d n t of
      Ok _ s' \<Rightarrow> upd_mem w s' | Fail s' \<Rightarrow> Fail (s'\<lparr>d_mem := g s'\<rparr>) | r \<Rightarrow> r)"
    for d n w g and t :: "('a, 'b) dec_state"
    using halts_read_into [of t d n] by (auto simp: halts_def upd_mem_def on_in_def split: outcome.splits)
  show ?thesis
    unfolding pb_dec_string_def Let_def
    by (intro halts_bind [OF short_self] halts_then [OF short_self] halts_basic halts_allocate stop)
qed

section \<open>Substreams\<close>

lemma halts_make:
  assumes "\<And>sub t. left_le (d_in s) (d_in t) \<Longrightarrow> left_le (d_in s) sub \<Longrightarrow> halts t (k sub t)"
  shows "halts s (mbind (on_stream pb_make_string_substream) k s)"
proof (cases "pb_make_string_substream (d_in s)")
  case (Ok sub i)
  have i: "left_le (d_in s) i" "left_le (d_in s) sub"
    using left.make_substream [of "d_in s"] Ok by (auto simp: left_le_def)
  have "halts (s\<lparr>d_in := i\<rparr>) (k sub (s\<lparr>d_in := i\<rparr>))"
    by (rule assms) (use i in simp_all)
  from halts_with_in [OF this i(1)] Ok show ?thesis
    by (simp add: mbind_def on_stream_def)
qed (use left.make_substream [of "d_in s"] in \<open>simp_all add: mbind_def on_stream_def halts_def on_in_def\<close>)

lemma close_keeps:
  "keeps (\<lambda>i j. bytes_left j = bytes_left i) (pb_close_string_substream sub)"
proof (rule keepsI)
  fix i :: "'a pb_istream"
  show "case pb_close_string_substream sub i of Ok x j \<Rightarrow> bytes_left j = bytes_left i
    | Fail j \<Rightarrow> bytes_left j = bytes_left i | Undef \<Rightarrow> False | Fuel \<Rightarrow> False"
    by (cases rule: keeps_cases [OF left.keeps_skip_bytes, of "bytes_left sub" sub, case_names Ok Fail])
      (auto simp: pb_close_string_substream_def share_source_def split: in_source.splits)
qed

lemma halts_close:
  assumes "r \<noteq> Fuel" "r \<noteq> Undef" "d_in s = parent"
  shows "halts s (close_substream parent r)"
proof -
  have close: "case on_stream (pb_close_string_substream sub) (leave_substream parent t) of
      Ok _ u \<Rightarrow> bytes_left (d_in u) = bytes_left parent | Fail u \<Rightarrow> bytes_left (d_in u) = bytes_left parent
    | Undef \<Rightarrow> False | Fuel \<Rightarrow> False" for sub and t :: "('a, 'b) dec_state"
    by (cases rule: keeps_cases [OF close_keeps, of sub "d_in (leave_substream parent t)", case_names Ok Fail])
      (auto simp: on_stream_def leave_substream_def share_source_def split: in_source.splits)
  show ?thesis
  proof (cases r)
    case (Ok x t)
    then show ?thesis
      using close [of "d_in t" t] assms(3)
      by (auto simp: close_substream_def halts_def on_in_def left_le_def split: outcome.splits)
  next
    case (Fail t)
    then show ?thesis
      using close [of "d_in t" t] assms(3)
      by (auto simp: close_substream_def halts_def on_in_def left_le_def split: outcome.splits)
  qed (use assms in \<open>simp_all add: close_substream_def halts_def\<close>)
qed

lemma halts_leave_error: "d_in s = parent \<Longrightarrow> halts s (derror msg (leave_substream parent t))"
  by (auto simp: derror_eq leave_substream_def halts_def on_in_def left_le_def set_ierror_def
      share_source_def split: in_source.splits)

lemma short_sub: "short N s \<Longrightarrow> left_le (d_in s) i \<Longrightarrow> short N (t\<lparr>d_in := i\<rparr>)"
  using left_leD [of "d_in s" i] by (simp add: short_def)

lemma halts_in_substream:
  assumes s: "short N s" and f: "\<And>t. short N t \<Longrightarrow> halts t (f t)"
  shows "halts s (in_substream f s)"
  unfolding in_substream_def
proof (rule halts_make)
  fix sub and t :: "('a, 'b) dec_state"
  assume "left_le (d_in s) (d_in t)" and sub: "left_le (d_in s) sub"
  have "halts (t\<lparr>d_in := sub\<rparr>) (f (t\<lparr>d_in := sub\<rparr>))"
    by (rule f [OF short_sub [OF s sub]])
  then show "halts t (close_substream (d_in t) (f (t\<lparr>d_in := sub\<rparr>)))"
    by (intro halts_close) (simp_all add: halts_def)
qed

text \<open>A packed array: each entry takes input, so the loop's fuel is enough.\<close>

lemma packed_loop_ends:
  assumes func: "\<And>p t. halts t (func (it_field it) p t)" "\<And>p t. deats t (func (it_field it) p t)"
  shows "unat (bytes_left (d_in s)) < n \<Longrightarrow>
    packed_static_loop func it n s \<noteq> Fuel \<and> packed_static_loop func it n s \<noteq> Undef"
proof (induction n arbitrary: s)
  case 0
  then show ?case by simp
next
  case (Suc n)
  let ?p = "item_at (pData it) (it_field it) (get_size it s)"
  show ?case
  proof (cases "func (it_field it) ?p s")
    case (Ok x t)
    then have "unat (bytes_left (d_in t)) < n"
      using func(2) [of s ?p] Suc.prems by (simp add: deats_def)
    then have "packed_static_loop func it n u \<noteq> Fuel \<and> packed_static_loop func it n u \<noteq> Undef" if "d_in u = d_in t" for u
      using Suc.IH that by simp
    then show ?thesis
      using Ok by (auto simp: mthen_def mbind_def set_size_def split: outcome.splits size_ref.splits)
  qed (use func(1) [of s ?p] in \<open>auto simp: mthen_def mbind_def halts_def\<close>)
qed

lemma halts_packed_static:
  assumes func: "\<And>p t. halts t (func (it_field it) p t)" "\<And>p t. deats t (func (it_field it) p t)"
  shows "halts s (packed_static func it s)"
  unfolding packed_static_def Let_def
proof (rule halts_make)
  fix sub and t :: "('a, 'b) dec_state"
  let ?r = "packed_static_loop func it (Suc (unat (bytes_left sub))) (t\<lparr>d_in := sub\<rparr>)"
  have r: "?r \<noteq> Fuel \<and> ?r \<noteq> Undef"
    by (rule packed_loop_ends [where func = func and it = it, OF func]) simp
  then show "halts t (case ?r of
      Ok _ s' \<Rightarrow> if bytes_left (d_in s') \<noteq> 0 then derror ''array overflow'' (leave_substream (d_in t) s')
                else close_substream (d_in t) ?r
    | Fail s' \<Rightarrow> if bytes_left (d_in s') \<noteq> 0 then derror ''array overflow'' (leave_substream (d_in t) s')
                else close_substream (d_in t) ?r
    | Undef \<Rightarrow> Undef | Fuel \<Rightarrow> Fuel)"
    using halts_close [OF conjunct1 [OF r] conjunct2 [OF r], of t "d_in t"] halts_leave_error [of t "d_in t"]
    by (cases ?r) auto
qed

section \<open>Static message types\<close>

definition well_nested :: "nat set \<Rightarrow> (nat \<Rightarrow> fields) \<Rightarrow> (nat \<Rightarrow> nat) \<Rightarrow> bool" where
  "well_nested M descs rank \<longleftrightarrow>
     (\<forall>mid \<in> M. \<forall>i < nfields (descs mid). \<forall>k.
        PB_LTYPE (ftype (field_at (descs mid) i)) = PB_LTYPE_SUBMESSAGE \<and>
        fptr (field_at (descs mid) i) = PtrSubmsg k \<longrightarrow> rank k < rank mid)"

text \<open>The contract: static types whose nesting is well founded by \<open>rank\<close>, and a step budget above
  all ranks.\<close>

locale ending_decoder = plain_decoder env M
  for env :: "('h, 'u) dec_env" and M :: "nat set" +
  fixes rank :: "nat \<Rightarrow> nat"
  assumes nested: "mid \<in> M \<Longrightarrow> i < nfields (de_descs env mid) \<Longrightarrow>
      PB_LTYPE (ftype (field_at (de_descs env mid) i)) = PB_LTYPE_SUBMESSAGE \<Longrightarrow>
      fptr (field_at (de_descs env mid) i) = PtrSubmsg k \<Longrightarrow> rank k < rank mid"
    and steps: "mid \<in> M \<Longrightarrow> rank mid < de_steps env"
begin

text \<open>A static field of a message of rank \<open>r\<close>.\<close>

definition ranked :: "nat \<Rightarrow> pb_field \<Rightarrow> bool" where
  "ranked r f \<longleftrightarrow> static_kind M f \<and>
     (\<forall>k. PB_LTYPE (ftype f) = PB_LTYPE_SUBMESSAGE \<and> fptr f = PtrSubmsg k \<longrightarrow> rank k < r)"

lemma ranked_at: "mid \<in> M \<Longrightarrow> i < nfields (de_descs env mid) \<Longrightarrow> ranked (rank mid) (field_at (de_descs env mid) i)"
  using static_kind_at [OF kinds] nested by (simp add: ranked_def)

lemma ranked_submsg:
  assumes "ranked r f" "PB_LTYPE (ftype f) = PB_LTYPE_SUBMESSAGE"
  obtains k where "fptr f = PtrSubmsg k" "k \<in> M" "rank k < r"
proof -
  have "value_known M f" using assms(1) by (simp add: ranked_def static_kind_def)
  from value_known_submsg [OF this assms(2)] show ?thesis
    using assms that by (auto simp: ranked_def)
qed

lemma ranked_static: "ranked r f \<Longrightarrow> static_kind M f"
  by (simp add: ranked_def)

lemma loop_iter_ranked:
  "mid \<in> M \<Longrightarrow> loop_iter (de_descs env mid) d it \<Longrightarrow> ranked (rank mid) (it_field it)"
  using loop_iter_field ranked_at by metis

text \<open>Messages of rank below \<open>r\<close> halt.\<close>

definition dec_halts :: "nat \<Rightarrow> nat \<Rightarrow> (nat \<Rightarrow> addr \<Rightarrow> ('h, 'u) dec_state \<Rightarrow> (unit, ('h, 'u) dec_state) outcome) \<Rightarrow> bool" where
  "dec_halts N r dec \<longleftrightarrow> (\<forall>mid \<in> M. \<forall>p s. rank mid < r \<and> short N s \<longrightarrow> halts s (dec mid p s))"

lemma dec_haltsD: "dec_halts N r dec \<Longrightarrow> mid \<in> M \<Longrightarrow> rank mid < r \<Longrightarrow> short N s \<Longrightarrow> halts s (dec mid p s)"
  by (simp add: dec_halts_def)

lemma halts_each_field:
  assumes f: "\<And>it (t :: ('h, 'u) dec_state). ranked r (it_field it) \<Longrightarrow> sized it \<Longrightarrow> short N t \<Longrightarrow> halts t (f it t)"
    and mid: "mid \<in> M" "rank mid \<le> r" and s: "short N s"
  shows "halts s (each f (field_iters (de_descs env mid) p) s)"
proof (rule halts_each [OF s])
  fix it and t :: "('h, 'u) dec_state"
  assume "it \<in> set (field_iters (de_descs env mid) p)" and t: "short N t"
  then obtain i where "i < nfields (de_descs env mid)" "it = iter_at (de_descs env mid) p i"
    by (auto simp: field_iters_eq)
  then have "ranked (rank mid) (it_field it)" and sized: "sized it"
    using ranked_at [OF mid(1)] by (simp_all add: it_field_iter_at sized_iter_at)
  then have "ranked r (it_field it)"
    using mid(2) unfolding ranked_def by fastforce
  from f [OF this sized t] show "halts t (f it t)" .
qed

lemma halts_default_data:
  assumes f: "ranked r (it_field it)" and message: "dec_halts N r message" and s: "short N s"
  shows "halts s (default_data message it s)"
proof (cases "PB_LTYPE (ftype (it_field it)) = PB_LTYPE_SUBMESSAGE")
  case True
  obtain k where "fptr (it_field it) = PtrSubmsg k" "k \<in> M" "rank k < r"
    by (rule ranked_submsg [OF f True])
  then show ?thesis
    using True dec_haltsD [OF message _ _ s] by (simp add: default_data_def Let_def)
next
  case False
  have "value_known M (it_field it)" using ranked_static [OF f] by (simp add: static_kind_def)
  from value_known_scalar [OF this False] False show ?thesis
    by (auto simp: default_data_def Let_def halts_memory split: field_ptr.splits)
qed

lemma halts_field_default:
  assumes f: "ranked r (it_field it)" and message: "dec_halts N r message" and s: "short N s" and it: "sized it"
  shows "halts s (field_to_default env message self it s)"
proof -
  have "PB_ATYPE (ftype (it_field it)) = PB_ATYPE_STATIC" "PB_LTYPE (ftype (it_field it)) \<noteq> PB_LTYPE_EXTENSION"
    using ranked_static [OF f] by (simp_all add: static_kind_def)
  then show ?thesis
    using halts_default_data [OF f message] s
    by (auto simp: field_to_default_def Let_def intro!: halts_memory halts_set_has [OF it] halts_then [OF s])
qed

lemma halts_set_default:
  "ranked r (it_field it) \<Longrightarrow> r < n \<Longrightarrow> short N s \<Longrightarrow> sized it \<Longrightarrow>
   halts s (pb_field_set_to_default env n it s)"
proof (induction n arbitrary: r it s)
  case 0
  then show ?case by simp
next
  case (Suc n)
  have "dec_halts N r (\<lambda>mid dest. each (pb_field_set_to_default env n) (field_iters (de_descs env mid) dest))"
    unfolding dec_halts_def
  proof (intro ballI allI impI)
    fix mid p and t :: "('h, 'u) dec_state"
    assume mid: "mid \<in> M" and t: "rank mid < r \<and> short N t"
    show "halts t (each (pb_field_set_to_default env n) (field_iters (de_descs env mid) p) t)"
      by (rule halts_each_field [where r = "rank mid"]) (use mid t Suc in auto)
  qed
  from halts_field_default [OF Suc.prems(1) this Suc.prems(3,4)] show ?case by simp
qed

lemma halts_message_defaults:
  "mid \<in> M \<Longrightarrow> rank mid < n \<Longrightarrow> short N s \<Longrightarrow> halts s (pb_message_set_to_defaults env n mid p s)"
  unfolding pb_message_set_to_defaults_def
  by (rule halts_each_field [where r = "rank mid"]) (auto intro: halts_set_default)

lemma halts_release_items:
  "short N s \<Longrightarrow> (\<And>p t. short N t \<Longrightarrow> halts t (f p t)) \<Longrightarrow> halts s (release_items f d n p s)"
proof (induction n arbitrary: p s)
  case 0
  then show ?case by (simp add: halts_return)
next
  case (Suc n)
  show ?case
    unfolding release_items.simps
    by (rule halts_then [OF Suc.prems(1)]) (use Suc in auto)
qed

lemma halts_release_single:
  "ranked r (it_field it) \<Longrightarrow> r < n \<Longrightarrow> short N s \<Longrightarrow> halts s (pb_release_single_field env n it s)"
proof (induction n arbitrary: r it s)
  case 0
  then show ?case by simp
next
  case (Suc n)
  let ?f = "it_field it"
  let ?message = "\<lambda>mid dest. release_message (pb_release_single_field env n) (de_descs env mid) dest"
  have static: "PB_ATYPE (ftype ?f) = PB_ATYPE_STATIC" "PB_LTYPE (ftype ?f) \<noteq> PB_LTYPE_EXTENSION"
    using ranked_static [OF Suc.prems(1)] by (simp_all add: static_kind_def)
  have message: "halts t (?message k p t)" if "k \<in> M" "rank k < r" "short N t" for k p t
    unfolding release_message_def
    by (intro halts_fun_if halts_if halts_return halts_each_field [where r = "rank k"])
      (use that Suc in auto)
  have items: "halts t (release_items
      (\<lambda>p. case fptr ?f of PtrSubmsg mid \<Rightarrow> ?message mid p | _ \<Rightarrow> (\<lambda>_. Undef)) d c p t)"
    if lt: "PB_LTYPE (ftype ?f) = PB_LTYPE_SUBMESSAGE" and t: "short N t" for d c p t
  proof -
    obtain k where k: "fptr ?f = PtrSubmsg k" "k \<in> M" "rank k < r"
      by (rule ranked_submsg [OF Suc.prems(1) lt])
    show ?thesis
      by (rule halts_release_items [OF t]) (simp add: k message)
  qed
  have contents: "halts t (release_contents env ?message (pb_release_single_field env n) it t)"
    if "short N t" for t
    using static items [OF _ that] by (auto simp: release_contents_def Let_def halts_return)
  show ?case
    using static contents
    by (auto simp: release_field_def Let_def atype_defs
        intro!: halts_return halts_then [OF Suc.prems(3)] Suc.prems(3))
qed

lemma halts_release:
  "mid \<in> M \<Longrightarrow> rank mid < n \<Longrightarrow> short N s \<Longrightarrow> halts s (pb_release env n mid p s)"
  unfolding pb_release_def release_message_def
  by (intro halts_fun_if halts_if halts_return halts_each_field [where r = "rank mid"])
    (auto intro: halts_release_single)

lemma halts_decoders:
  assumes f: "ranked r f" and dec: "\<And>init. dec_halts N r (dec init)" and s: "short N s"
  shows "halts s (PB_DECODERS env dec (PB_LTYPE (ftype f)) f p s)"
proof -
  have sub: "halts s (pb_dec_submessage dec f p s)" if lt: "PB_LTYPE (ftype f) = PB_LTYPE_SUBMESSAGE"
  proof -
    obtain k where k: "fptr f = PtrSubmsg k" "k \<in> M" "rank k < r"
      by (rule ranked_submsg [OF f lt])
    show ?thesis
      using dec_haltsD [OF dec k(2,3)]
      by (auto simp: pb_dec_submessage_def k(1) intro!: halts_in_substream [OF s])
  qed
  have "value_known M f" using ranked_static [OF f] by (simp add: static_kind_def)
  from value_known_ltype [OF this] show ?thesis
    by (auto simp: PB_DECODERS_def halts_scalars halts_bytes halts_string sub)
qed

lemma halts_static_field:
  assumes f: "ranked r (it_field it)" and r: "r \<le> de_steps env"
    and dec: "\<And>init. dec_halts N r (dec init)" and s: "short N s" and it: "sized it"
  shows "halts s (decode_static_field env dec wt it s)"
proof -
  let ?f = "it_field it" and ?func = "PB_DECODERS env dec (PB_LTYPE (ftype (it_field it)))"
  have func: "halts t (?func ?f p t)" if "short N t" for p t
    by (rule halts_decoders [OF f dec that])
  have packed: "halts s (packed_static ?func it s)" if le: "PB_LTYPE (ftype ?f) \<le> PB_LTYPE_LAST_PACKABLE"
  proof (rule halts_packed_static)
    have "PB_LTYPE (ftype ?f) \<noteq> PB_LTYPE_BYTES" "PB_LTYPE (ftype ?f) \<noteq> PB_LTYPE_STRING"
      "PB_LTYPE (ftype ?f) \<noteq> PB_LTYPE_SUBMESSAGE" "PB_LTYPE (ftype ?f) \<noteq> PB_LTYPE_FIXED_LENGTH_BYTES"
      using le by (auto simp: ltype_defs)
    moreover have "value_known M ?f" using ranked_static [OF f] by (simp add: static_kind_def)
    ultimately show "halts t (?func ?f p t)" for p t
      using value_known_ltype by (auto simp: PB_DECODERS_def halts_scalars)
    show "deats t (?func ?f p t)" for p and t :: "('h, 'u) dec_state"
      by (rule deats_packable [OF le])
  qed
  have reset: "halts t (submsg_set_to_defaults env ?f (pData it) t)"
    if lt: "PB_LTYPE (ftype ?f) = PB_LTYPE_SUBMESSAGE" and t: "short N t" for t
  proof -
    obtain k where k: "fptr ?f = PtrSubmsg k" "k \<in> M" "rank k < r"
      by (rule ranked_submsg [OF f lt])
    then show ?thesis
      using r t by (simp add: submsg_set_to_defaults_def halts_message_defaults)
  qed
  show ?thesis
    unfolding decode_static_field_def Let_def
    by (intro halts_basic halts_then [OF s] halts_then [where N = N] halts_set_has [OF it] func s packed reset; simp?)
qed

end

text \<open>The search for a tag ends, also after \<open>pSize\<close> has been moved.\<close>

lemma find_loop_total:
  assumes it: "loop_iter fs d it"
  shows "find_loop (Suc (length (it_start it))) wanted (it_pos it) it \<noteq> None"
proof -
  from it obtain i where i: "i < nfields fs" and cases: "it = iter_at fs d i \<or>
      PB_HTYPE (ftype (field_at fs i)) = PB_HTYPE_REPEATED \<and> it = (iter_at fs d i)\<lparr>pSize := SizeFixedCount\<rparr>"
    by (auto simp: loop_iter_def)
  have at: "find_loop (Suc (length fs)) wanted i (iter_at fs d i) \<noteq> None"
    using find_loop_cyclic [OF i, of "Suc (length fs)" wanted d] nfields_le [of fs]
    by (auto split: option.splits)
  have pos: "it_pos it = i" "it_start it = fs" "it_field it = field_at fs i"
    using cases i by (auto simp: iter_at_pos it_field_def)
  have "pb_field_iter_next it = pb_field_iter_next (iter_at fs d i)"
    using cases next_moved_size [OF i] by auto
  then have "find_loop (Suc (length fs)) wanted i it \<noteq> None"
    using at pos i by (auto simp: Let_def it_field_iter_at split: if_splits)
  then show ?thesis unfolding pos .
qed

lemma halts_find: "loop_iter fs d it \<Longrightarrow> halts s (find_iter it t s)"
  using find_loop_total [of fs d it "\<lambda>f. tag f = t \<and> PB_LTYPE (ftype f) \<noteq> PB_LTYPE_EXTENSION"]
  by (cases "pb_field_iter_find it t")
    (auto simp: find_iter_def pb_field_iter_find_def halts_return simp del: find_loop.simps)

lemma halts_bindP:
  assumes s: "short N s" and f: "halts s (f s)" "\<And>x t. f s = Ok x t \<Longrightarrow> P x"
    and g: "\<And>x t. P x \<Longrightarrow> short N t \<Longrightarrow> halts t (g x t)"
  shows "halts s (mbind f g s)"
proof (cases "f s")
  case (Ok x t)
  then have st: "left_le (d_in s) (d_in t)" using f(1) by (simp add: halts_def on_in_def)
  then have "short N t" using s left_leD [OF st] by (simp add: short_def)
  from g [OF f(2) [OF Ok] this] have "halts t (g x t)" .
  then show ?thesis
    using Ok st by (auto simp: halts_def mbind_def frame_ok_def on_in_def intro: left.R_trans
        split: outcome.splits)
qed (use f in \<open>simp_all add: halts_def mbind_def\<close>)

lemma halts_find_bind:
  assumes s: "short N s" and it: "loop_iter fs d it"
    and k: "\<And>b j u. loop_iter fs d j \<Longrightarrow> short N u \<Longrightarrow> halts u (k b j u)"
  shows "halts s (mbind (find_iter it t) (\<lambda>(b, j). k b j) s)"
proof (rule halts_bindP [where f = "find_iter it t" and P = "\<lambda>(b, j). loop_iter fs d j", OF s halts_find [OF it]])
  show "case x of (b, j) \<Rightarrow> loop_iter fs d j" if "find_iter it t s = Ok x u" for x u
    using that gives_find [where A = UNIV and t = t and s = s, OF it] by (simp add: frame_gives_def)
qed (auto intro: k)

context ending_decoder
begin

lemma halts_release_union:
  assumes mid: "mid \<in> M" and it: "loop_iter (de_descs env mid) d it" and s: "short N s"
  shows "halts s (pb_release_union_field env it s)"
proof -
  have release: "halts t (pb_release_single_field env (de_steps env) j t)"
    if "loop_iter (de_descs env mid) d j" "short N t" for j t
    by (rule halts_release_single [OF loop_iter_ranked [OF mid that(1)] steps [OF mid] that(2)])
  show ?thesis
    unfolding pb_release_union_field_def Let_def
    by (intro halts_basic halts_find_bind [OF s it])
      (assumption | rule halts_basic halts_then [where N = N] release halts_find_bind [where N = N])+
qed

text \<open>Whatever the nested decoder does, the iterator stays inside of the message.\<close>

lemma iter_decode_field:
  assumes mid: "mid \<in> M" and it: "loop_iter (de_descs env mid) d it"
    and ok: "decode_field env dec wt it s = Ok j t"
  shows "loop_iter (de_descs env mid) d j"
proof -
  obtain u where "(if PB_HTYPE (ftype (it_field it)) = PB_HTYPE_ONEOF
      then pb_release_union_field env it else mreturn it) s = Ok j u"
    using ok unfolding decode_field_def
    by (auto simp: mbind_Ok_iff mthen_def)
  then show ?thesis
    using gives_release_union [OF mid it, of UNIV s] it
    by (auto simp: frame_gives_def split: if_splits)
qed

lemma iter_known:
  assumes mid: "mid \<in> M" and it: "loop_iter (de_descs env mid) d (lv_iter lv)"
    and ok: "decode_known env dec wt lv s = Ok lv' t"
  shows "loop_iter (de_descs env mid) d (lv_iter lv')"
proof -
  obtain lv1 j u u' where sel: "select_fixed_count lv s = Ok lv1 u"
    and dec: "decode_field env dec wt (lv_iter (note_required lv1)) u = Ok j u'" and lv': "lv_iter lv' = j"
    using ok unfolding decode_known_def by (auto simp: mbind_Ok_iff Let_def)
  have "loop_iter (de_descs env mid) d (lv_iter (note_required lv1))"
    using gives_select [OF it, of UNIV s] sel by (simp add: frame_gives_def note_required_def Let_def)
  from iter_decode_field [OF mid this dec] show ?thesis by (simp add: lv')
qed

lemma iter_round:
  assumes mid: "mid \<in> M" and it: "loop_iter (de_descs env mid) d (lv_iter lv)"
    and ok: "decode_round env dec lv s = Ok (Some lv') t"
  shows "loop_iter (de_descs env mid) d (lv_iter lv')"
proof -
  obtain x wt i e where tag: "pb_decode_tag (d_in s) = (Ok (x, wt) i, e)"
    and round: "mbind (find_iter (lv_iter lv) x) (\<lambda>(found, iter).
            mbind (if found then decode_known env dec wt (lv\<lparr>lv_iter := iter\<rparr>)
                   else decode_unknown env dec x wt (lv\<lparr>lv_iter := iter\<rparr>))
              (\<lambda>lv. mreturn (Some lv))) (s\<lparr>d_in := i\<rparr>) = Ok (Some lv') t"
    using ok unfolding decode_round_def by (auto split: prod.splits outcome.splits if_splits)
  then obtain b j u where find: "find_iter (lv_iter lv) x (s\<lparr>d_in := i\<rparr>) = Ok (b, j) u"
    and step: "(if b then decode_known env dec wt (lv\<lparr>lv_iter := j\<rparr>)
        else decode_unknown env dec x wt (lv\<lparr>lv_iter := j\<rparr>)) u = Ok lv' t"
    by (auto simp: mbind_Ok_iff)
  have j: "loop_iter (de_descs env mid) d (lv_iter (lv\<lparr>lv_iter := j\<rparr>))"
    using gives_find [where A = UNIV and t = x and s = "s\<lparr>d_in := i\<rparr>", OF it] find by (simp add: frame_gives_def)
  show ?thesis
    using step iter_known [OF mid j] gives_unknown [OF mid j tag_small [OF tag], of UNIV u dec wt]
    by (cases b) (simp_all add: frame_gives_def)
qed

lemma halts_decode_field:
  assumes mid: "mid \<in> M"
    and it: "loop_iter (de_descs env mid) d it" and dec: "\<And>init. dec_halts N (rank mid) (dec init)"
    and s: "short N s"
  shows "halts s (decode_field env dec wt it s)"
proof -
  let ?I = "loop_iter (de_descs env mid) d"
  let ?u = "if PB_HTYPE (ftype (it_field it)) = PB_HTYPE_ONEOF then pb_release_union_field env it else mreturn it"
  have "halts s (?u s)"
    using halts_release_union [OF mid it s] by (auto intro: halts_return)
  moreover have "?I j" if "?u s = Ok j t" for j t
    using that gives_release_union [OF mid it, of UNIV s] it
    by (auto simp: frame_gives_def split: if_splits)
  moreover have "halts t
      (mthen (let atype = PB_ATYPE (ftype (it_field j)) in
             if atype = PB_ATYPE_STATIC then decode_static_field env dec wt j
             else if atype = PB_ATYPE_POINTER then decode_pointer_field env dec wt j
             else if atype = PB_ATYPE_CALLBACK then decode_callback_field env wt j
             else derror ''invalid field type'')
            (mreturn j) t)" if j: "?I j" and t: "short N t" for j t
  proof -
    have "PB_ATYPE (ftype (it_field j)) = PB_ATYPE_STATIC"
      using loop_iter_static [OF kinds mid j] by (simp add: static_kind_def)
    then show ?thesis
      using halts_static_field [OF loop_iter_ranked [OF mid j] less_imp_le [OF steps [OF mid]] dec t sized_loop_iter [OF j]]
      by (auto simp: Let_def intro!: halts_then [OF t] halts_return)
  qed
  ultimately show ?thesis
    unfolding decode_field_def by (intro halts_bindP [where f = ?u and P = ?I, OF s]) blast+
qed

lemma halts_select: "halts s (select_fixed_count lv s)"
  by (auto simp: select_fixed_count_def Let_def halts_return halts_error)
    (simp add: halts_def on_in_def left.R_refl)

lemma halts_known:
  assumes mid: "mid \<in> M"
    and it: "loop_iter (de_descs env mid) d (lv_iter lv)" and dec: "\<And>init. dec_halts N (rank mid) (dec init)"
    and s: "short N s"
  shows "halts s (decode_known env dec wt lv s)"
  unfolding decode_known_def Let_def
proof (rule halts_bindP [where f = "select_fixed_count lv"
      and P = "\<lambda>lv'. loop_iter (de_descs env mid) d (lv_iter lv')", OF s halts_select])
  show "loop_iter (de_descs env mid) d (lv_iter lv')" if "select_fixed_count lv s = Ok lv' t" for lv' t
    using that gives_select [OF it, of UNIV s] by (simp add: frame_gives_def)
  show "halts t (mbind (decode_field env dec wt (lv_iter (note_required lv')))
      (\<lambda>iter. mreturn (note_required lv'\<lparr>lv_iter := iter\<rparr>)) t)"
    if "loop_iter (de_descs env mid) d (lv_iter lv')" and t: "short N t" for lv' t
  proof -
    have "loop_iter (de_descs env mid) d (lv_iter (note_required lv'))"
      using that by (simp add: note_required_def Let_def)
    from halts_decode_field [OF mid this dec t] show ?thesis
      by (rule halts_bind [OF t]) (rule halts_return)
  qed
qed

lemma halts_unknown:
  assumes mid: "mid \<in> M" and it: "loop_iter (de_descs env mid) d (lv_iter lv)" and t: "t \<noteq> - 1"
    and s: "short N s"
  shows "halts s (decode_unknown env dec t wt lv s)"
proof -
  have skip: "halts s (mthen (on_stream (pb_skip_field wt)) (mreturn lv') s)" for lv' :: loop_vars
    by (intro halts_then [OF s] halts_basic)
  obtain b j where bj: "find_extension_field (lv_iter lv) = Some (b, j)"
    using find_loop_total [OF it] unfolding find_extension_field_def by fastforce
  then have j: "loop_iter (de_descs env mid) d j"
    using loop_iter_find_loop it unfolding find_extension_field_def by blast
  have "PB_LTYPE (ftype (it_field j)) = PB_LTYPE_EXTENSION" if b
    using that bj unfolding find_extension_field_def by (auto dest: find_loop_found simp del: find_loop.simps)
  then have "\<not> b"
    using loop_iter_static [OF kinds mid j] by (auto simp: static_kind_def)
  moreover have "\<not> - 1 \<le> t"
    using t by (metis word_order.extremum_unique)
  ultimately show ?thesis
    using bj skip by (simp add: decode_unknown_def Let_def)
qed

lemma round_halts:
  assumes mid: "mid \<in> M"
    and it: "loop_iter (de_descs env mid) d (lv_iter lv)" and dec: "\<And>init. dec_halts N (rank mid) (dec init)"
    and s: "short N s"
  shows "halts s (decode_round env dec lv s)"
    and "decode_round env dec lv s = Ok (Some lv') s' \<Longrightarrow>
      unat (bytes_left (d_in s')) < unat (bytes_left (d_in s))"
proof -
  have *: "halts s (decode_round env dec lv s) \<and> (\<forall>lv' s'. decode_round env dec lv s = Ok (Some lv') s' \<longrightarrow>
      unat (bytes_left (d_in s')) < unat (bytes_left (d_in s)))"
  proof (cases "pb_decode_tag (d_in s)")
    case (Pair r e)
    show ?thesis
    proof (cases r)
      case (Ok x i)
      obtain t wt where x: "x = (t, wt)" by (cases x)
      note t = tag_small [OF Pair [unfolded Ok x]]
      have less: "unat (bytes_left i) < unat (bytes_left (d_in s))"
        using eats_tag [of "d_in s"] Pair Ok by (simp add: eats_def)
      then have le: "left_le (d_in s) i" by (simp add: left_le_def word_le_nat_alt)
      have short: "short N (s\<lparr>d_in := i\<rparr>)" by (rule short_sub [OF s le])
      let ?r = "mbind (find_iter (lv_iter lv) t) (\<lambda>(found, iter).
            mbind (if found then decode_known env dec wt (lv\<lparr>lv_iter := iter\<rparr>)
                   else decode_unknown env dec t wt (lv\<lparr>lv_iter := iter\<rparr>))
              (\<lambda>lv. mreturn (Some lv))) (s\<lparr>d_in := i\<rparr>)"
      have go: "halts u ((if b then decode_known env dec wt (lv\<lparr>lv_iter := j\<rparr>)
            else decode_unknown env dec t wt (lv\<lparr>lv_iter := j\<rparr>)) u)"
        if "loop_iter (de_descs env mid) d j" "short N u" for b j u
        using that halts_known [OF mid _ dec] halts_unknown [OF mid _ t]
        by (intro halts_fun_if halts_if) simp_all
      have h: "halts (s\<lparr>d_in := i\<rparr>) ?r"
        by (rule halts_find_bind [OF short it], rule halts_bind [where N = N], assumption, rule go)
          (assumption | rule halts_return)+
      then have "unat (bytes_left (d_in s')) \<le> unat (bytes_left i)" if "?r = Ok lv' s'" for lv' s'
        using that left_leD [of i "d_in s'"] by (simp add: halts_def on_in_def)
      then show ?thesis
        using Pair Ok x halts_with_in [OF h le] less by (fastforce simp: decode_round_def)
    next
      case (Fail i)
      have "left_le (d_in s) i"
        using left.keeps_decode_tag [of "d_in s"] Pair Fail by simp
      then show ?thesis
        using Pair Fail by (simp add: decode_round_def halts_def on_in_def)
    qed (use left.keeps_decode_tag [of "d_in s"] Pair in simp_all)
  qed
  then show "halts s (decode_round env dec lv s)" by blast
  show "decode_round env dec lv s = Ok (Some lv') s' \<Longrightarrow>
      unat (bytes_left (d_in s')) < unat (bytes_left (d_in s))" using * by blast
qed

lemma halts_rounds:
  assumes mid: "mid \<in> M"
    and dec: "\<And>init. dec_halts N (rank mid) (dec init)"
  shows "loop_iter (de_descs env mid) d (lv_iter lv) \<Longrightarrow> short N s \<Longrightarrow> unat (bytes_left (d_in s)) \<le> n \<Longrightarrow>
    halts s (decode_rounds env dec n lv s)"
proof (induction n arbitrary: lv s)
  case 0
  then show ?case by (auto simp: halts_return unat_eq_0)
next
  case (Suc n)
  have r: "halts s (decode_round env dec lv s)"
    by (rule round_halts(1) [OF mid Suc.prems(1) dec Suc.prems(2)])
  have eaten: "unat (bytes_left (d_in t)) < unat (bytes_left (d_in s))"
    if "decode_round env dec lv s = Ok (Some lv') t" for lv' t
    using round_halts(2) [OF mid Suc.prems(1) dec Suc.prems(2) that] .
  have iter: "loop_iter (de_descs env mid) d (lv_iter lv')" if "decode_round env dec lv s = Ok (Some lv') t" for lv' t
    by (rule iter_round [OF mid Suc.prems(1) that])
  show ?case
  proof (cases "decode_round env dec lv s")
    case (Ok x t)
    have le: "left_le (d_in s) (d_in t)" using r Ok by (simp add: halts_def on_in_def)
    show ?thesis
    proof (cases x)
      case None
      then show ?thesis using Ok le by (simp add: halts_def on_in_def left.R_refl)
    next
      case (Some lv')
      have "halts t (decode_rounds env dec n lv' t)"
        using Ok Some eaten [of lv' t] Suc.prems left_leD [OF le] iter
        by (intro Suc.IH) (auto simp: short_def)
      then show ?thesis
        using Ok Some le by (auto simp: halts_def on_in_def frame_ok_def intro: left.R_trans left.R_refl
            split: outcome.splits)
    qed
  qed (use r in \<open>simp_all add: halts_def on_in_def left.R_refl\<close>)
qed

lemma halts_checks: "short N s \<Longrightarrow> halts s (mthen (check_fixed_count lv) (check_required lv) s)"
  unfolding check_fixed_count_def check_required_def
  by (rule halts_then) (auto intro!: halts_fun_if halts_if halts_error halts_return)

lemma halts_message:
  assumes mid: "mid \<in> M"
    and dec: "\<And>init. dec_halts (de_steps env) (rank mid) (dec init)" and s: "short (de_steps env) s"
  shows "halts s (decode_message env dec mid d s)"
proof -
  have "0 < nfields (de_descs env mid)"
    using kinds mid by (simp add: static_kinds_def)
  from loop_iter_begin [OF this] s show ?thesis
    unfolding decode_message_def
    by (intro halts_bind [OF s] halts_checks halts_rounds [OF mid dec, where d = d]) (simp_all add: short_def)
qed

lemma halts_with_defaults:
  assumes noinit: "dec_halts (de_steps env) r noinit"
  shows "dec_halts (de_steps env) r (decode_with_defaults env noinit)"
  unfolding dec_halts_def
proof (intro ballI allI impI)
  fix mid p and s :: "('h, 'u) dec_state"
  assume mid: "mid \<in> M" and s: "rank mid < r \<and> short (de_steps env) s"
  have "halts t (release_on_failure env mid p (noinit mid p) t)" if t: "short (de_steps env) t" for t
  proof (cases "noinit mid p t")
    case (Fail u)
    then have le: "left_le (d_in t) (d_in u)"
      using dec_haltsD [OF noinit mid, of t p] s t by (simp add: halts_def on_in_def)
    then have "short (de_steps env) u" using t left_leD [OF le] by (simp add: short_def)
    from halts_release [OF mid steps [OF mid] this, of p] Fail le show ?thesis
      by (auto simp: release_on_failure_def halts_def frame_ok_def on_in_def intro: left.R_trans
          split: outcome.splits)
  qed (use dec_haltsD [OF noinit mid, of t p] s t in \<open>simp_all add: release_on_failure_def halts_def\<close>)
  then show "halts s (decode_with_defaults env noinit mid p s)"
    unfolding decode_with_defaults_def
    using s by (intro halts_then [where N = "de_steps env"] halts_message_defaults [OF mid steps [OF mid]]) auto
qed

lemma halts_with_fixed:
  "halts (s\<lparr>d_fixed := 0\<rparr>) (f (s\<lparr>d_fixed := 0\<rparr>)) \<Longrightarrow> halts s (with_fixed_count f s)"
  by (auto simp: halts_def with_fixed_count_def on_in_def frame_ok_def split: outcome.splits)

text \<open>A nesting budget above the rank is enough.\<close>

lemma halts_noinit: "dec_halts (de_steps env) n (pb_decode_noinit env n)"
proof (induction n)
  case 0
  then show ?case by (simp add: dec_halts_def)
next
  case (Suc n)
  have dec: "dec_halts (de_steps env) n
      ((\<lambda>init. if init then decode_with_defaults env (pb_decode_noinit env n) else pb_decode_noinit env n) init)"
    for init
    using Suc.IH halts_with_defaults [OF Suc.IH] by simp
  show ?case
    unfolding dec_halts_def
  proof (intro ballI allI impI)
    fix mid p and s :: "('h, 'u) dec_state"
    assume mid: "mid \<in> M" and s: "rank mid < Suc n \<and> short (de_steps env) s"
    have "dec_halts (de_steps env) (rank mid)
      ((\<lambda>init. if init then decode_with_defaults env (pb_decode_noinit env n) else pb_decode_noinit env n) init)"
      for init
      using dec [of init] s unfolding dec_halts_def by fastforce
    then show "halts s (pb_decode_noinit env (Suc n) mid p s)"
      using s by (simp only: pb_decode_noinit.simps, intro halts_with_fixed halts_message [OF mid])
        (simp_all add: short_def)
  qed
qed

theorem pb_decode_halts:
  assumes "mid \<in> M" "rank mid < n" "short (de_steps env) s"
  shows "halts s (pb_decode env n mid d s)"
  unfolding pb_decode_def
  by (rule dec_haltsD [OF halts_with_defaults [OF halts_noinit] assms])

theorem pb_decode_delimited_halts:
  assumes "mid \<in> M" "rank mid < n" "short (de_steps env) s"
  shows "halts s (pb_decode_delimited env n mid d s)"
  unfolding pb_decode_delimited_def
  by (rule halts_in_substream [OF assms(3)]) (rule pb_decode_halts [OF assms(1,2)])

end

end
