(* ===== verification/Sample.thy ===== *)
theory Sample
  imports PB_Wire PB_Parse PB_Ends
begin

unbundle bit_operations_syntax

text \<open>
  A concrete message on which the properties are instantiated: a required \<open>int32\<close> (tag 1)
  and a repeated \<open>uint32\<close> of at most two entries (tag 2), as the generator lays it out,
  \<open>struct { int32_t a; pb_size_t b_count; uint32_t b[2]; }\<close>, with its wire bytes.
\<close>

definition sample_fields :: fields where
  "sample_fields =
     [\<lparr>tag = 1, ftype = 0x01, data_offset = 0, size_offset = 0, data_size = 4, array_size = 0,
       fptr = PtrNull\<rparr>,
      \<lparr>tag = 2, ftype = 0x22, data_offset = 4, size_offset = - 4, data_size = 4, array_size = 2,
       fptr = PtrNull\<rparr>]"

definition sample_mem :: mem where
  "sample_mem = mem_write (\<lambda>_. 0) 0x1000 [0x96, 1, 0, 0, 2, 0, 0, 0, 3, 0, 0, 0, 0x2C, 1, 0, 0]"

definition sample_env :: "mem \<Rightarrow> nat enc_env" where
  "sample_env m = \<lparr>ee_mem = m, ee_descs = (\<lambda>_. sample_fields),
     ee_callback = (\<lambda>_ _ _. oerror ''no callback''),
     ee_ext_type = (\<lambda>_. \<lparr>et_decode = 0, et_encode = 0, et_arg = PB_LAST_FIELD\<rparr>),
     ee_ext_encode = (\<lambda>_ _. oerror ''no extension''), ee_steps = 1\<rparr>"

definition sample_wire_env :: "mem \<Rightarrow> wire_env" where
  "sample_wire_env m = \<lparr>we_mem = m, we_descs = (\<lambda>_. sample_fields),
     we_callback = (\<lambda>_ _ _. Fail ()),
     we_ext_type = (\<lambda>_. \<lparr>et_decode = 0, et_encode = 0, et_arg = PB_LAST_FIELD\<rparr>),
     we_ext_encode = (\<lambda>_ _. Fail ()), we_steps = 1\<rparr>"

definition sample_bytes :: "byte list" where
  "sample_bytes = [0x08, 0x96, 0x03, 0x12, 0x03, 0x03, 0xAC, 0x02]"

lemma sample_at:
  "field_at sample_fields 0 = \<lparr>tag = 1, ftype = 0x01, data_offset = 0, size_offset = 0,
       data_size = 4, array_size = 0, fptr = PtrNull\<rparr>"
  "field_at sample_fields (Suc 0) = \<lparr>tag = 2, ftype = 0x22, data_offset = 4, size_offset = - 4,
       data_size = 4, array_size = 2, fptr = PtrNull\<rparr>"
  by (simp_all add: sample_fields_def field_at_def)

lemma nfields_sample: "nfields sample_fields = 2"
  by (simp add: sample_fields_def nfields_def)

lemma all_below_2:
  "(\<forall>i<(2::nat). P i) \<longleftrightarrow> P 0 \<and> P (Suc 0)"
  "(\<forall>i. Suc i < (2::nat) \<longrightarrow> P i) \<longleftrightarrow> P 0"
  by (auto simp: less_2_cases_iff)

lemma sample_layout: "layout_ok sample_fields [0, 8]"
  unfolding layout_ok_def nfields_sample all_below_2
  by (simp add: sample_at same_union_def PB_DATAOFFSET_FIRST_def PB_DATAOFFSET_OTHER_def
      member_size_def type_defs)

lemma sample_places:
  "field_places sample_fields 0x1000 =
     [(field_at sample_fields 0, 0x1000), (field_at sample_fields (Suc 0), 0x1008)]"
  by (simp add: field_places_def nfields_sample upt_rec pData_layout [OF sample_layout])

lemma sample_mem_bytes:
  "mem_bytes sample_mem 0x1000 4 = [0x96, 1, 0, 0]" "mem_bytes sample_mem 0x1004 4 = [2, 0, 0, 0]"
  "mem_bytes sample_mem 0x1008 4 = [3, 0, 0, 0]" "mem_bytes sample_mem 0x100C 4 = [0x2C, 1, 0, 0]"
  by (simp_all add: sample_mem_def mem_bytes_def upt_rec)

lemma sample_loads:
  "load32 sample_mem 0x1000 = 406" "load32 sample_mem 0x1004 = 2"
  "load32 sample_mem 0x1008 = 3" "load32 sample_mem 0x100C = 300"
  by (simp_all add: load32_def sample_mem_bytes le_word_Cons)

lemma sample_wire: "wire_message (sample_wire_env sample_mem) 1 0 0x1000 = Ok sample_bytes ()"
proof -
  have item: "wire_value sample_mem enc 2 (field_at sample_fields (Suc 0)) p
      = wok (varint_bytes (unat (load32 sample_mem p)))" for enc p
    by (simp add: sample_at wire_value_def type_defs read_uint_def unsigned_ucast_eq
        take_bit_nat_eq_self less_trans [OF unat_less32])
  have "wire_field (sample_wire_env sample_mem) enc (field_at sample_fields (Suc 0)) 0x1008
      = wok [0x12, 0x03, 0x03, 0xAC, 0x02]" for enc
    by (simp add: sample_wire_env_def sample_at wire_field_def wire_basic_field_def type_defs Let_def)
      (simp add: wire_array_def type_defs sample_loads item [unfolded sample_at] wcat_def wok_def
        wire_tag_def varint_digits wsub_def wire_string_def)
  moreover have "wire_field (sample_wire_env sample_mem) enc (field_at sample_fields 0) 0x1000
      = wok [0x08, 0x96, 0x03]" for enc
    by (simp add: sample_wire_env_def sample_at wire_field_def wire_basic_field_def type_defs
        wire_tag_for_def field_wiretype_def Let_def wire_value_def read_int_def sample_loads)
      (simp add: wcat_def wok_def wire_tag_def varint_digits wt_defs)
  moreover have "field_places (we_descs (sample_wire_env sample_mem) 0) 0x1000 =
     [(field_at sample_fields 0, 0x1000), (field_at sample_fields (Suc 0), 0x1008)]"
    by (simp add: sample_wire_env_def sample_places)
  moreover have "PB_LTYPE (ftype (field_at sample_fields 0)) \<noteq> PB_LTYPE_EXTENSION"
    "PB_LTYPE (ftype (field_at sample_fields (Suc 0))) \<noteq> PB_LTYPE_EXTENSION"
    by (simp_all add: sample_at type_defs)
  ultimately show ?thesis
    by (simp add: wcat_def wok_def sample_bytes_def)
qed

lemma sample_refines: "env_refines BufSink obuf_app (sample_env m) (sample_wire_env m)"
  by (simp add: env_refines_def sample_env_def sample_wire_env_def buffer.denotes_error)

text \<open>The same message with a count beyond the two entries of the array cannot be encoded.\<close>

definition sample_bad_mem :: mem where
  "sample_bad_mem = mem_write (\<lambda>_. 0) 0x1000 [0x96, 1, 0, 0, 3, 0, 0, 0, 3, 0, 0, 0, 0x2C, 1, 0, 0]"

lemma sample_bad_loads: "load32 sample_bad_mem 0x1000 = 406" "load32 sample_bad_mem 0x1004 = 3"
  by (simp_all add: load32_def sample_bad_mem_def mem_bytes_def upt_rec le_word_Cons)

lemma sample_bad_wire: "wire_message (sample_wire_env sample_bad_mem) 1 0 0x1000 = Fail ()"
proof -
  have "wire_field (sample_wire_env sample_bad_mem) enc (field_at sample_fields (Suc 0)) 0x1008 = Fail ()" for enc
    by (simp add: sample_wire_env_def sample_at wire_field_def wire_basic_field_def type_defs Let_def)
      (simp add: wire_array_def type_defs sample_bad_loads)
  moreover have "wire_field (sample_wire_env sample_bad_mem) enc (field_at sample_fields 0) 0x1000
      = wok [0x08, 0x96, 0x03]" for enc
    by (simp add: sample_wire_env_def sample_at wire_field_def wire_basic_field_def type_defs
        wire_tag_for_def field_wiretype_def Let_def wire_value_def read_int_def sample_bad_loads)
      (simp add: wcat_def wok_def wire_tag_def varint_digits wt_defs)
  moreover have "field_places (we_descs (sample_wire_env sample_bad_mem) 0) 0x1000 =
     [(field_at sample_fields 0, 0x1000), (field_at sample_fields (Suc 0), 0x1008)]"
    by (simp add: sample_wire_env_def sample_places)
  moreover have "PB_LTYPE (ftype (field_at sample_fields 0)) \<noteq> PB_LTYPE_EXTENSION"
    "PB_LTYPE (ftype (field_at sample_fields (Suc 0))) \<noteq> PB_LTYPE_EXTENSION"
    by (simp_all add: sample_at type_defs)
  ultimately show ?thesis
    by (simp add: wcat_def wok_def)
qed

text \<open>A state that decodes \<open>bs\<close> into memory that is all zero.\<close>

definition sample_input :: "byte list \<Rightarrow> (unit, unit) dec_state" where
  "sample_input bs =
     \<lparr>d_mem = (\<lambda>_. 0), d_alloc = (),
      d_in = pb_istream_from_buffer (mem_write (\<lambda>_. 0) 0x2000 bs) 0x2000 (of_nat (length bs)), d_fixed = 0\<rparr>"

lemma sample_input_sel:
  "d_mem (sample_input bs) = (\<lambda>_. 0)"
  "is_source (d_in (sample_input bs)) = BufSource \<lparr>ib_mem = mem_write (\<lambda>_. 0) 0x2000 bs, ib_ptr = 0x2000\<rparr>"
  "bytes_left (d_in (sample_input bs)) = of_nat (length bs)"
  by (simp_all add: sample_input_def pb_istream_from_buffer_def)

lemma length_sample_bytes: "length sample_bytes = 8"
  by (simp add: sample_bytes_def)

section \<open>The message is of a static type\<close>

lemma sample_plain: "de_descs (plain_env (\<lambda>_. sample_fields) steps) = (\<lambda>_. sample_fields)"
  "de_steps (plain_env (\<lambda>_. sample_fields) steps) = steps"
  by (simp_all add: plain_env_def)

lemma sample_static: "static_message {0} (\<lambda>_. 16) 16 sample_fields [0, 8]"
  unfolding static_message_def nfields_sample all_below_2
  by (simp add: sample_layout sample_at field_fits_def type_defs member_size_def value_fits_def
      size_fits_def same_union_def)

lemma sample_types: "static_types {0} (\<lambda>_. 16) (\<lambda>_. sample_fields) (\<lambda>_. [0, 8])"
  using sample_static by (simp add: static_types_def)

lemma sample_no_submessage:
  "i < nfields sample_fields \<Longrightarrow> PB_LTYPE (ftype (field_at sample_fields i)) \<noteq> PB_LTYPE_SUBMESSAGE"
  by (auto simp: nfields_sample less_2_cases_iff sample_at type_defs)

lemma sample_kinds: "static_kinds {0} (\<lambda>_. sample_fields)"
  by (rule static_types_kinds [OF sample_types])

text \<open>Its decoder stays inside of the struct and halts, with any budget.\<close>

interpretation sample: static_decoder "plain_env (\<lambda>_. sample_fields) (Suc steps)" "{0}" "\<lambda>_. 16" "\<lambda>_. [0, 8]" for steps
  by unfold_locales (simp add: sample_plain sample_types)

interpretation sample_ends: ending_decoder "plain_env (\<lambda>_. sample_fields) (Suc steps)" "{0}" "\<lambda>_. 0" for steps
  by unfold_locales (use sample_kinds sample_no_submessage in \<open>simp_all add: sample_plain\<close>)

end
