(* ===== verification/PB_Roundtrip.thy ===== *)
theory PB_Roundtrip
  imports PB_Wire PB_Parse
begin

unbundle bit_operations_syntax

text \<open>
  The primitive encoders of \<open>pb_encode.c\<close> against the primitive decoders of \<open>pb_decode.c\<close> on one
  memory: what an encoder has written to a buffer, its decoder reads back from that buffer,
  taking exactly the bytes that were written. Also here: skipping a value that is not wanted
  takes the bytes of that value and no more.
\<close>

section \<open>Reading back what was written\<close>

definition written :: "mem \<Rightarrow> addr \<Rightarrow> u64 \<Rightarrow> u64 \<Rightarrow> 'u pb_ostream" where
  "written m buf n k =
     \<lparr>os_sink = BufSink \<lparr>ob_mem = m, ob_ptr = buf + k\<rparr>, max_size = n, bytes_written = k, os_errmsg = None\<rparr>"

definition consumed :: "mem \<Rightarrow> addr \<Rightarrow> 'u pb_istream" where
  "consumed m buf = \<lparr>is_source = BufSource \<lparr>ib_mem = m, ib_ptr = buf\<rparr>, bytes_left = 0, is_errmsg = None\<rparr>"

lemma writes_then_reads:
  assumes f: "emits BufSink obuf_app f bs"
    and g: "reads BufSource (\<lambda>st i. ib_mem st (ib_ptr st + of_nat i)) (\<lambda>st k. st\<lparr>ib_ptr := ib_ptr st + of_nat k\<rparr>) g bs x"
    and room: "length bs \<le> unat n"
  shows "f (pb_ostream_from_buffer m buf n) = Ok () (written (mem_write m buf bs) buf n (of_nat (length bs)))"
    and "g (pb_istream_from_buffer (mem_write m buf bs) buf (of_nat (length bs)))
      = Ok x (consumed (mem_write m buf bs) (buf + of_nat (length bs)))"
proof -
  have len: "length bs < 2 ^ 64"
    using room unat_less64 [of n] by simp
  show "f (pb_ostream_from_buffer m buf n) = Ok () (written (mem_write m buf bs) buf n (of_nat (length bs)))"
    using buffer.emitsD_room [OF f, where st = "\<lparr>ob_mem = m, ob_ptr = buf\<rparr>"
        and s = "pb_ostream_from_buffer m buf n"] room
    by (simp add: pb_ostream_from_buffer_def stream_ready_def room_def counted_def obuf_app_def written_def)
  have "mem_bytes (mem_write m buf bs) buf (length bs) = bs"
    using len by (intro mem_bytes_write) simp
  then show "g (pb_istream_from_buffer (mem_write m buf bs) buf (of_nat (length bs)))
      = Ok x (consumed (mem_write m buf bs) (buf + of_nat (length bs)))"
    using buffer_in.readsD [OF g, where st = "\<lparr>ib_mem = mem_write m buf bs, ib_ptr = buf\<rparr>"
        and s = "pb_istream_from_buffer (mem_write m buf bs) buf (of_nat (length bs))"] len
    by (simp add: pb_istream_from_buffer_def upcoming_def mem_bytes_def taken_def consumed_def unat_of_nat_addr)
qed

text \<open>\<open>round_trips cap f g x\<close>: with \<open>cap\<close> bytes of buffer the encoder \<open>f\<close> succeeds and
  \<open>g\<close> reads \<open>x\<close> back, taking all that was written.\<close>

definition round_trips ::
  "u64 \<Rightarrow> 'u out_action \<Rightarrow> ('a, 'u) in_action \<Rightarrow> 'a \<Rightarrow> mem \<Rightarrow> addr \<Rightarrow> u64 \<Rightarrow> bool" where
  "round_trips cap f g x m buf n \<longleftrightarrow>
     (\<exists>m' k. f (pb_ostream_from_buffer m buf n) = Ok () (written m' buf n k) \<and> k \<le> cap \<and>
        g (pb_istream_from_buffer m' buf k) = Ok x (consumed m' (buf + k)))"

lemma round_tripsI:
  assumes "emits BufSink obuf_app f bs"
    and "reads BufSource (\<lambda>st i. ib_mem st (ib_ptr st + of_nat i)) (\<lambda>st k. st\<lparr>ib_ptr := ib_ptr st + of_nat k\<rparr>) g bs x"
    and "length bs \<le> unat cap" "cap \<le> n"
  shows "round_trips cap f g x m buf n"
proof -
  have "length bs \<le> unat n"
    using assms(3,4) by (meson le_trans word_le_nat_alt)
  from writes_then_reads [OF assms(1,2) this] assms(3) unat_less64 [of cap] show ?thesis
    unfolding round_trips_def word_le_nat_alt
    by (intro exI [of _ "mem_write m buf bs"] exI [of _ "of_nat (length bs)"]) (simp add: unat_of_nat_addr)
qed

section \<open>Skipping\<close>

context byte_source
begin

lemma reads_skip_varint: "reads emb peek adv pb_skip_varint (varint_bytes n) ()"
proof (induction n rule: varint_bytes.induct)
  case (1 n)
  have byte: "reads emb peek adv (pb_read 1) [b] [b]" for b
    using reads_read [of "[b]"] by simp
  have step: "pb_skip_varint = mbind (pb_read 1) (\<lambda>buf. if hd buf AND 0x80 \<noteq> 0 then pb_skip_varint else mreturn ())"
    by (rule ext, subst pb_skip_varint.simps) (simp add: mbind_def split: outcome.splits)
  show ?case
  proof (cases "n < 128")
    case True
    then have "(of_nat n :: byte) AND 0x80 = 0"
      using bit_byte_7 [of n] by (simp add: byte_and_128_iff)
    then show ?thesis
      using True reads_bind [OF byte [of "of_nat n"], where bs = "[]" and y = "()"
          and g = "\<lambda>buf. if hd buf AND 0x80 \<noteq> 0 then pb_skip_varint else mreturn ()"]
      by (subst step) (simp add: reads_return varint_bytes.simps [of n])
  next
    case False
    let ?b = "of_nat (n mod 128 + 128) :: byte"
    have "?b AND 0x80 \<noteq> 0"
      using bit_byte_7 [of "n mod 128 + 128"] by (simp add: byte_and_128_iff del: of_nat_add)
    then show ?thesis
      using False reads_bind [OF byte [of ?b], where bs = "varint_bytes (n div 128)" and y = "()"
          and g = "\<lambda>buf. if hd buf AND 0x80 \<noteq> 0 then pb_skip_varint else mreturn ()"] 1
      by (subst step) (simp add: varint_bytes.simps [of n] del: of_nat_add)
  qed
qed

lemma reads_skip_string:
  assumes "length bs < 2 ^ 32"
  shows "reads emb peek adv pb_skip_string (wire_string bs) ()"
proof -
  have "unat (ucast (of_nat (length bs) :: u32) :: u64) = length bs"
    using assms by (simp add: ucast_of_nat32 unat_of_nat_addr)
  from reads_bind [OF reads_varint32 [OF assms], where g = "\<lambda>len. pb_skip_bytes (ucast len)",
      OF reads_skip_bytes [OF this]]
  show ?thesis by (simp add: pb_skip_string_def wire_string_def)
qed

end

text \<open>The value of an unknown field, as an encoder writes it after its tag.\<close>

datatype payload = VarintV u64 | Fixed64V u64 | StringV "byte list" | Fixed32V u32

fun payload_type :: "payload \<Rightarrow> u32" where
  "payload_type (VarintV v) = PB_WT_VARINT"
| "payload_type (Fixed64V v) = PB_WT_64BIT"
| "payload_type (StringV bs) = PB_WT_STRING"
| "payload_type (Fixed32V v) = PB_WT_32BIT"

fun payload_encode :: "payload \<Rightarrow> 'u out_action" where
  "payload_encode (VarintV v) = pb_encode_varint v"
| "payload_encode (Fixed64V v) = pb_encode_fixed64 v"
| "payload_encode (StringV bs) = pb_encode_string bs (of_nat (length bs))"
| "payload_encode (Fixed32V v) = pb_encode_fixed32 v"

fun payload_bytes :: "payload \<Rightarrow> byte list" where
  "payload_bytes (VarintV v) = varint_bytes (unat v)"
| "payload_bytes (Fixed64V v) = word_le_bytes 8 v"
| "payload_bytes (StringV bs) = wire_string bs"
| "payload_bytes (Fixed32V v) = word_le_bytes 4 v"

fun payload_valid :: "payload \<Rightarrow> bool" where
  "payload_valid (StringV bs) = (length bs < 2 ^ 31)"
| "payload_valid _ = True"

context byte_source
begin

lemma reads_skip_field:
  "payload_valid v \<Longrightarrow> reads emb peek adv (pb_skip_field (payload_type v)) (payload_bytes v) ()"
  using reads_skip_varint reads_skip_bytes [where n = 8] reads_skip_bytes [where n = 4] reads_skip_string
  by (cases v) (simp_all add: pb_skip_field_def wt_defs)

end

lemma emits_payload: "payload_valid v \<Longrightarrow> emits BufSink obuf_app (payload_encode v) (payload_bytes v)"
  by (cases v) (simp_all add: buffer.emits_varint buffer.emits_fixed32 buffer.emits_fixed64
      buffer.emits_string unat_of_nat_addr)

section \<open>The round trips\<close>

text \<open>C8. A varint written to a buffer with ten bytes of room is read back unchanged: at most ten
  bytes are written, and the reader takes all of them.\<close>

theorem varint_roundtrip:
  assumes "10 \<le> n"
  shows "round_trips 10 (pb_encode_varint v) pb_decode_varint v m buf n"
  by (rule round_tripsI [OF buffer.emits_varint buffer_in.reads_varint _ assms])
    (use length_varint64 [of v] in simp)

theorem varint_roundtrip_witness:
  "round_trips 10 (pb_encode_varint 300) pb_decode_varint 300 (\<lambda>_. 0) 0x1000 (16 :: u64)"
  by (rule varint_roundtrip) simp

text \<open>A signed value goes through the zigzag code and comes back unchanged.\<close>

theorem svarint_roundtrip:
  assumes "10 \<le> n"
  shows "round_trips 10 (pb_encode_svarint v) pb_decode_svarint v m buf n"
  by (rule round_tripsI [OF buffer.emits_svarint buffer_in.reads_svarint _ assms])
    (use length_varint64 [of "zigzag v"] in simp)

theorem svarint_roundtrip_witness:
  "round_trips 10 (pb_encode_svarint (- 3)) pb_decode_svarint (- 3) (\<lambda>_. 0) 0x1000 (16 :: u64)"
  by (rule svarint_roundtrip) simp

text \<open>The four and eight bytes of a fixed-width value, low byte first, are read back.\<close>

theorem fixed_roundtrip:
  assumes "8 \<le> n"
  shows "round_trips 4 (pb_encode_fixed32 v) pb_decode_fixed32 v m buf n \<and>
    round_trips 8 (pb_encode_fixed64 w) pb_decode_fixed64 w m buf n"
proof (rule conjI)
  have "4 \<le> n" using assms by (rule order_trans [rotated]) simp
  then show "round_trips 4 (pb_encode_fixed32 v) pb_decode_fixed32 v m buf n"
    by (intro round_tripsI [OF buffer.emits_fixed32 buffer_in.reads_fixed32]) simp_all
  show "round_trips 8 (pb_encode_fixed64 w) pb_decode_fixed64 w m buf n"
    using assms by (intro round_tripsI [OF buffer.emits_fixed64 buffer_in.reads_fixed64]) simp_all
qed

theorem fixed_roundtrip_witness:
  "round_trips 4 (pb_encode_fixed32 0x12345678) pb_decode_fixed32 0x12345678 (\<lambda>_. 0) 0x1000 (8 :: u64)"
  by (rule conjunct1 [OF fixed_roundtrip]) simp

text \<open>The tag of a field, below \<open>2 ^ 29\<close> and not zero, is read back with its wire type.\<close>

theorem tag_roundtrip:
  assumes "0 < fn" "fn < 2 ^ 29" "wt < 8" "10 \<le> n"
  shows "round_trips 10 (pb_encode_tag (of_nat wt) (of_nat fn)) (\<lambda>s. fst (pb_decode_tag s))
    (of_nat fn, of_nat wt) m buf n"
proof (rule round_tripsI [OF _ buffer_in.reads_tag [OF assms(2,3,1)] _ assms(4)])
  have "unat (of_nat fn :: u32) = fn" "unat (of_nat wt :: u32) = wt"
    using assms by (simp_all add: unat_of_nat32)
  then show "emits BufSink obuf_app (pb_encode_tag (of_nat wt) (of_nat fn)) (wire_tag fn wt)"
    using buffer.emits_tag [of "of_nat wt" "of_nat fn"] assms(3) by (simp add: word_less_nat_alt)
  have "length (varint_bytes (unat (of_nat (8 * fn + wt) :: u64))) \<le> 10"
    by (rule length_varint64)
  then show "length (wire_tag fn wt) \<le> unat (10 :: u64)"
    using assms(2,3) by (simp add: wire_tag_def unat_of_nat_addr del: of_nat_add of_nat_mult)
qed

theorem tag_roundtrip_witness:
  "round_trips 10 (pb_encode_tag 2 5) (\<lambda>s. fst (pb_decode_tag s)) (5, 2) (\<lambda>_. 0) 0x1000 (16 :: u64)"
  using tag_roundtrip [of 5 2 16] by simp

text \<open>A field that the message type does not know is skipped exactly: after any value that
  an encoder has written, the stream is at the next byte.\<close>

theorem skip_field_exact:
  assumes "payload_valid v" "length (payload_bytes v) \<le> unat n"
  shows "round_trips n (payload_encode v) (pb_skip_field (payload_type v)) () m buf n"
  by (rule round_tripsI [OF emits_payload [OF assms(1)] buffer_in.reads_skip_field [OF assms(1)] assms(2)]) simp

theorem skip_field_exact_witness:
  "round_trips 16 (pb_encode_string [1, 2, 3] 3) (pb_skip_field PB_WT_STRING) () (\<lambda>_. 0) 0x1000 (16 :: u64)"
  using skip_field_exact [of "StringV [1, 2, 3]" 16 "\<lambda>_. 0" "0x1000"]
  by (simp add: wire_string_def varint_digits)

section \<open>Overlong varints\<close>

text \<open>Thirty-seven continuation bytes without a digit, and a last byte. The position of the digit is
  kept in one byte, so it comes round and the last digit lands in the value.\<close>

definition overlong_mem :: mem where
  "overlong_mem a = (if a = 0x1025 then 1 else 0x80)"

definition overlong_at :: "nat \<Rightarrow> unit pb_istream" where
  "overlong_at k =
     \<lparr>is_source = BufSource \<lparr>ib_mem = overlong_mem, ib_ptr = 0x1000 + of_nat k\<rparr>, bytes_left = of_nat (38 - k),
      is_errmsg = None\<rparr>"

lemma overlong_read:
  assumes "k < 38"
  shows "pb_readbyte (overlong_at k) = Ok (if k = 37 then 1 else 0x80) (overlong_at (Suc k))"
proof -
  have "(of_nat (38 - k) :: u64) \<noteq> 0"
    using assms unat_of_nat_addr [of "38 - k"] by (auto simp: word_unat_eq_iff)
  moreover have "38 - k = Suc (37 - k)" using assms by simp
  moreover have "(0x1000 + of_nat k :: addr) = 0x1025 \<longleftrightarrow> k = 37"
  proof -
    have "(0x1000 + of_nat k :: addr) = of_nat (0x1000 + k)" by simp
    moreover have "(of_nat (0x1000 + k) :: addr) = of_nat (0x1025) \<longleftrightarrow> 0x1000 + k = 0x1025"
      using assms by (intro of_nat_addr_inject) simp_all
    ultimately show ?thesis by simp
  qed
  ultimately show ?thesis
    by (simp add: pb_readbyte_def overlong_at_def source_read_def buf_read_def overlong_mem_def mem_bytes_Suc add.assoc)
qed

lemma overlong_loop:
  "j \<le> 36 \<Longrightarrow> varint32_loop 0 7 (overlong_at 1) = varint32_loop 0 (7 + 7 * of_nat j) (overlong_at (Suc j))"
proof (induction j)
  case (Suc j)
  have "varint32_loop 0 (7 + 7 * of_nat j) (overlong_at (Suc j)) =
      varint32_loop 0 (7 + 7 * of_nat j + 7) (overlong_at (Suc (Suc j)))"
    using Suc.prems overlong_read [of "Suc j"] by (subst varint32_loop.simps) simp
  with Suc show ?case by (simp add: algebra_simps)
qed simp

text \<open>C9. \<open>pb_decode_varint32\<close> accepts a varint of 38 bytes and reads eight from it: the overflow check
  misses the digit, because its position has wrapped around.\<close>

theorem overlong_varint_accepted:
  "\<exists>s :: unit pb_istream. pb_decode_varint32 (pb_istream_from_buffer overlong_mem 0x1000 38) = Ok 8 s \<and> bytes_left s = 0"
proof -
  have start: "pb_istream_from_buffer overlong_mem 0x1000 38 = overlong_at 0"
    by (simp add: pb_istream_from_buffer_def overlong_at_def)
  have last: "varint32_loop 0 3 (overlong_at 37) = Ok (8, 10, 1) (overlong_at 38)"
    using overlong_read [of 37] by (subst varint32_loop.simps) simp
  have wrap: "(7 + 7 * of_nat 36 :: byte) = 3" by simp
  have "varint32_loop 0 7 (overlong_at 1) = Ok (8, 10, 1) (overlong_at 38)"
    using overlong_loop [of 36] last unfolding wrap by simp
  then have "pb_decode_varint32 (overlong_at 0) = Ok 8 (overlong_at 38)"
    using overlong_read [of 0] by (simp add: pb_decode_varint32_def pb_decode_varint32_eof_def mbind_def)
  then show ?thesis by (simp add: start) (simp add: overlong_at_def)
qed

end
