(* ===== verification/Constant_Time.thy ===== *)
theory Constant_Time
  imports Prelude
begin

unbundle bit_operations_syntax

text \<open>
  The branch-free comparisons and selections of \<open>crypto/internal.h\<close> (BoringSSL) on the 64-bit
  \<open>crypto_word_t\<close>: masks of all ones for true and of zeros for false. The value barriers are
  the identity. Proved here: each mask is that of the comparison it is named after, so that
  the code that uses them can be read as ordinary conditionals.
\<close>

type_synonym crypto_word = "64 word"

definition constant_time_msb_w :: "crypto_word \<Rightarrow> crypto_word" where
  "constant_time_msb_w a = 0 - drop_bit 63 a"

definition constant_time_lt_w :: "crypto_word \<Rightarrow> crypto_word \<Rightarrow> crypto_word" where
  "constant_time_lt_w a b = constant_time_msb_w (a XOR ((a XOR b) OR ((a - b) XOR a)))"

definition constant_time_lt_8 :: "crypto_word \<Rightarrow> crypto_word \<Rightarrow> byte" where
  "constant_time_lt_8 a b = ucast (constant_time_lt_w a b)"

definition constant_time_ge_w :: "crypto_word \<Rightarrow> crypto_word \<Rightarrow> crypto_word" where
  "constant_time_ge_w a b = NOT (constant_time_lt_w a b)"

definition constant_time_ge_8 :: "crypto_word \<Rightarrow> crypto_word \<Rightarrow> byte" where
  "constant_time_ge_8 a b = ucast (constant_time_ge_w a b)"

definition constant_time_is_zero_w :: "crypto_word \<Rightarrow> crypto_word" where
  "constant_time_is_zero_w a = constant_time_msb_w (NOT a AND (a - 1))"

definition constant_time_is_zero_8 :: "crypto_word \<Rightarrow> byte" where
  "constant_time_is_zero_8 a = ucast (constant_time_is_zero_w a)"

definition constant_time_eq_w :: "crypto_word \<Rightarrow> crypto_word \<Rightarrow> crypto_word" where
  "constant_time_eq_w a b = constant_time_is_zero_w (a XOR b)"

definition constant_time_eq_8 :: "crypto_word \<Rightarrow> crypto_word \<Rightarrow> byte" where
  "constant_time_eq_8 a b = ucast (constant_time_eq_w a b)"

definition constant_time_select_w :: "crypto_word \<Rightarrow> crypto_word \<Rightarrow> crypto_word \<Rightarrow> crypto_word" where
  "constant_time_select_w m a b = (m AND a) OR (NOT m AND b)"

definition constant_time_select_8 :: "byte \<Rightarrow> byte \<Rightarrow> byte \<Rightarrow> byte" where
  "constant_time_select_8 m a b = ucast (constant_time_select_w (ucast m) (ucast a) (ucast b))"

text \<open>The mask of a condition.\<close>

definition ct_mask :: "bool \<Rightarrow> 'a::len word" where
  "ct_mask b = (if b then - 1 else 0)"

lemma ct_mask_simps [simp]: "ct_mask True = - 1" "ct_mask False = 0"
  by (simp_all add: ct_mask_def)

lemma ucast_ct_mask [simp]: "(ucast (ct_mask b :: crypto_word) :: byte) = ct_mask b"
  by (cases b) (auto intro!: bit_word_eqI simp: bit_simps)

lemma even_word_iff_unat: "even (w :: 64 word) \<longleftrightarrow> even (unat w)"
  by transfer (simp add: even_nat_iff)

lemma bit_63_iff: "bit (w :: 64 word) 63 \<longleftrightarrow> 2 ^ 63 \<le> unat w"
proof -
  have "bit w 63 \<longleftrightarrow> odd (unat w div 2 ^ 63)"
    by (simp only: bit_iff_odd_drop_bit even_word_iff_unat unat_drop_bit_eq) (simp add: drop_bit_eq_div)
  moreover have "unat w div 2 ^ 63 < 2"
    using unat_less64 [of w] by (simp add: less_mult_imp_div_less)
  ultimately show ?thesis
    by (cases "unat w < 2 ^ 63") (auto simp: less_2_cases_iff not_less div_eq_0_iff)
qed

lemma msb_mask: "constant_time_msb_w a = ct_mask (bit a 63)"
proof -
  have "drop_bit 63 a = of_bool (bit a 63)"
  proof (rule bit_word_eqI)
    fix n
    show "bit (drop_bit 63 a) n = bit (of_bool (bit a 63) :: crypto_word) n"
      using bit_imp_le_length [of a "63 + n"] by (cases "n = 0") (auto simp: bit_simps)
  qed
  then show ?thesis
    by (simp add: constant_time_msb_w_def)
qed

lemma unat_sub_wrap:
  "unat (a - b :: 64 word) = (if b \<le> a then unat a - unat b else unat a + 2 ^ 64 - unat b)"
  by (simp add: unat_sub_if' word_le_nat_alt)

lemma constant_time_lt: "constant_time_lt_w a b = ct_mask (a < b)"
proof -
  have "bit (a - b) 63 \<longleftrightarrow> a < b" if "bit a 63 = bit b 63"
    using that unat_less64 [of a] unat_less64 [of b]
    by (auto simp: bit_63_iff unat_sub_wrap word_le_nat_alt word_less_nat_alt split: if_splits)
  moreover have "bit b 63 \<longleftrightarrow> a < b" if "bit a 63 \<noteq> bit b 63"
    using that by (auto simp: bit_63_iff word_less_nat_alt)
  ultimately have "bit (a XOR ((a XOR b) OR ((a - b) XOR a))) 63 \<longleftrightarrow> a < b"
    by (cases "bit a 63 = bit b 63") (auto simp: bit_simps)
  then show ?thesis
    by (simp add: constant_time_lt_w_def msb_mask)
qed

lemma constant_time_is_zero: "constant_time_is_zero_w a = ct_mask (a = 0)"
proof -
  have "bit (a - 1) 63 \<and> \<not> bit a 63 \<longleftrightarrow> a = 0"
    using unat_sub_wrap [of a 1] unat_gt_0 [of a]
    by (cases "a = 0") (auto simp: bit_63_iff word_le_nat_alt Suc_le_eq)
  then show ?thesis
    by (simp add: constant_time_is_zero_w_def msb_mask bit_simps conj_commute)
qed

lemma constant_time_eq: "constant_time_eq_w a b = ct_mask (a = b)"
proof -
  have "a = b" if "a XOR b = 0"
  proof -
    have "(a XOR b) XOR b = 0 XOR b" by (simp only: that)
    then show ?thesis by (simp add: xor.assoc)
  qed
  then have "a XOR b = 0 \<longleftrightarrow> a = b" by auto
  then show ?thesis by (simp add: constant_time_eq_w_def constant_time_is_zero)
qed

lemma constant_time_ge: "constant_time_ge_w a b = ct_mask (b \<le> a)"
  using not_less [of a b] by (cases "a < b") (simp_all add: constant_time_ge_w_def constant_time_lt ct_mask_def)

lemma constant_time_select: "constant_time_select_w (ct_mask c) a b = (if c then a else b)"
  by (simp add: constant_time_select_w_def)

lemma constant_time_bytes:
  "constant_time_lt_8 a b = ct_mask (a < b)" "constant_time_ge_8 a b = ct_mask (b \<le> a)"
  "constant_time_is_zero_8 a = ct_mask (a = 0)" "constant_time_eq_8 a b = ct_mask (a = b)"
  by (simp_all add: constant_time_lt_8_def constant_time_ge_8_def constant_time_is_zero_8_def
      constant_time_eq_8_def constant_time_lt constant_time_ge constant_time_is_zero constant_time_eq)

lemma constant_time_select_byte: "constant_time_select_8 (ct_mask c) a b = (if c then a else b)"
  by (cases c)
    (auto intro!: bit_word_eqI simp: constant_time_select_8_def constant_time_select_w_def bit_simps)

end
