(* ===== verification/Base64.thy ===== *)
theory Base64
  imports Constant_Time
begin

unbundle bit_operations_syntax

text \<open>
  \<open>crypto/base64/base64.c\<close> (BoringSSL): the constant-time conversions of single characters, the
  block encoder and decoder, the streaming encoder and decoder of PEM text with their context,
  and the length functions. The input of a call is the list of its bytes, the output is written
  to memory through the pointer \<open>dst\<close>, so that what a call writes and where is explicit; the
  input must not overlap the output. Proved here: the constant-time conversions are the tables
  of RFC 4648, the encoders write exactly the base64 text of their input (line by line when
  streaming, however the input is cut into chunks), decoding what was encoded gives the input
  back, and the decoders write no more than the lengths they announce.
\<close>

section \<open>Characters\<close>

abbreviation (input) chr :: "char \<Rightarrow> byte" where "chr c \<equiv> of_char c"

definition constant_time_lt_args_8 :: "byte \<Rightarrow> byte \<Rightarrow> byte" where
  "constant_time_lt_args_8 a b =
     (let aw = ucast a :: crypto_word; bw = ucast b :: crypto_word
      in ucast (constant_time_msb_w (aw - bw)))"

definition constant_time_in_range_8 :: "byte \<Rightarrow> byte \<Rightarrow> byte \<Rightarrow> byte" where
  "constant_time_in_range_8 a mn mx = constant_time_lt_args_8 (a - mn) (mx - mn + 1)"

definition conv_bin2ascii :: "byte \<Rightarrow> byte" where
  "conv_bin2ascii a =
     (let a = a AND 0x3F;
          ret = constant_time_select_8 (constant_time_eq_8 (ucast a) 62) (chr (CHR ''+'')) (chr (CHR ''/''));
          ret = constant_time_select_8 (constant_time_lt_args_8 a 62) (a - 52 + chr (CHR ''0'')) ret;
          ret = constant_time_select_8 (constant_time_lt_args_8 a 52) (a - 26 + chr (CHR ''a'')) ret
      in constant_time_select_8 (constant_time_lt_args_8 a 26) (a + chr (CHR ''A'')) ret)"

definition base64_ascii_to_bin :: "byte \<Rightarrow> byte" where
  "base64_ascii_to_bin a =
     (let is_upper = constant_time_in_range_8 a (chr (CHR ''A'')) (chr (CHR ''Z''));
          is_lower = constant_time_in_range_8 a (chr (CHR ''a'')) (chr (CHR ''z''));
          is_digit = constant_time_in_range_8 a (chr (CHR ''0'')) (chr (CHR ''9''));
          is_plus = constant_time_eq_8 (ucast a) (ucast (chr (CHR ''+'')));
          is_slash = constant_time_eq_8 (ucast a) (ucast (chr (CHR ''/'')));
          is_equals = constant_time_eq_8 (ucast a) (ucast (chr (CHR ''='')));
          ret = 0;
          ret = ret OR (is_upper AND (a - chr (CHR ''A'')));
          ret = ret OR (is_lower AND (a - chr (CHR ''a'') + 26));
          ret = ret OR (is_digit AND (a - chr (CHR ''0'') + 52));
          ret = ret OR (is_plus AND 62);
          ret = ret OR (is_slash AND 63);
          is_valid = is_upper OR is_lower OR is_digit OR is_plus OR is_slash OR is_equals
      in ret OR NOT is_valid)"

text \<open>Read as ordinary conditionals.\<close>

lemma unat_byte: "unat (b :: byte) < 256"
  by (rule less_le_trans [OF unsigned_less]) simp

lemma unat_ucast_byte: "unat (ucast (b :: byte) :: 64 word) = unat b"
  by (simp add: unsigned_ucast_eq take_bit_nat_eq_self less_trans [OF unat_byte])

lemma ucast_eq_byte: "(ucast a :: crypto_word) = ucast b \<longleftrightarrow> a = (b :: byte)"
  by (metis unat_ucast_byte word_unat_eq_iff)

lemma unat_sub_byte: "unat (a - b :: byte) = (if b \<le> a then unat a - unat b else unat a + 256 - unat b)"
  by (simp add: unat_sub_if' word_le_nat_alt)

lemma lt_args: "constant_time_lt_args_8 a b = ct_mask (a < b)"
proof -
  have "bit (ucast a - ucast b :: crypto_word) 63 \<longleftrightarrow> a < b"
    using unat_byte [of a] unat_byte [of b]
    by (auto simp: bit_63_iff unat_sub_wrap word_le_nat_alt word_less_nat_alt unat_ucast_byte)
  then show ?thesis
    by (simp add: constant_time_lt_args_8_def msb_mask)
qed

lemma in_range:
  assumes "unat mn \<le> unat mx" "unat mx < 255"
  shows "constant_time_in_range_8 a mn mx = ct_mask (unat mn \<le> unat a \<and> unat a \<le> unat mx)"
proof -
  have "unat (mx - mn) = unat mx - unat mn"
    using assms by (simp add: unat_sub_byte word_le_nat_alt)
  then have "unat (mx - mn + 1) = unat mx - unat mn + 1"
    using assms by (simp add: unat_plus_simple [THEN iffD1] word_le_nat_alt unat_word_ariths)
  then have "a - mn < mx - mn + 1 \<longleftrightarrow> unat mn \<le> unat a \<and> unat a \<le> unat mx"
    using assms unat_byte [of a] by (auto simp: word_less_nat_alt word_le_nat_alt unat_sub_byte)
  then show ?thesis
    by (simp add: constant_time_in_range_8_def lt_args)
qed

lemma conv_bin2ascii_eq:
  "conv_bin2ascii a =
     (let a = a AND 0x3F in
      if a < 26 then a + 65 else if a < 52 then a + 71 else if a < 62 then a - 4
      else if a = 62 then 43 else 47)"
proof -
  have "(ucast x :: crypto_word) = 62 \<longleftrightarrow> x = 62" for x :: byte
    using ucast_eq_byte [of x 62] by simp
  then show ?thesis
    by (simp add: conv_bin2ascii_def Let_def lt_args constant_time_bytes constant_time_select_byte)
qed

lemma ascii_to_bin_eq:
  "base64_ascii_to_bin a =
     (if 65 \<le> unat a \<and> unat a \<le> 90 then a - 65
      else if 97 \<le> unat a \<and> unat a \<le> 122 then a - 71
      else if 48 \<le> unat a \<and> unat a \<le> 57 then a + 4
      else if a = 43 then 62 else if a = 47 then 63 else if a = 61 then 0 else 0xFF)"
proof -
  have eq: "(ucast x :: crypto_word) = numeral n \<longleftrightarrow> x = numeral n" if "(ucast (numeral n :: byte) :: crypto_word) = numeral n" for x :: byte and n
    using ucast_eq_byte [of x "numeral n"] that by simp
  show ?thesis
    by (auto simp: base64_ascii_to_bin_def Let_def in_range constant_time_bytes eq)
qed

text \<open>The alphabet of RFC 4648; \<open>b64_char n\<close> is the character of the sextet \<open>n\<close>.\<close>

definition b64_alphabet :: "byte list" where
  "b64_alphabet = map of_char ''ABCDEFGHIJKLMNOPQRSTUVWXYZabcdefghijklmnopqrstuvwxyz0123456789+/''"

definition b64_char :: "nat \<Rightarrow> byte" where
  "b64_char n = b64_alphabet ! n"

definition b64_pad :: byte where "b64_pad = 0x3D"

lemma length_alphabet: "length b64_alphabet = 64"
  by (simp add: b64_alphabet_def)

lemma alphabet_conv: "map (\<lambda>n. conv_bin2ascii (of_nat n)) [0..<64] = b64_alphabet"
  by (simp add: b64_alphabet_def upt_rec conv_bin2ascii_eq Let_def)

lemma and_63: "unat (x AND 0x3F :: byte) = unat x mod 64"
proof -
  have "x AND 0x3F = take_bit 6 x"
    by (simp add: take_bit_eq_mask mask_eq_exp_minus_1)
  then have "unat (x AND 0x3F) = take_bit 6 (unat x)"
    by (simp only: unsigned_take_bit_eq)
  then show ?thesis
    by (simp add: take_bit_eq_mod)
qed

lemma conv_char: "conv_bin2ascii x = b64_char (unat x mod 64)"
proof -
  have "unat x mod 64 < 256"
    by (rule less_trans [OF mod_less_divisor]) simp_all
  then have "x AND 0x3F = of_nat (unat x mod 64) AND 0x3F"
    by (simp add: word_unat_eq_iff and_63 unat_of_nat take_bit_nat_eq_self)
  then have "conv_bin2ascii x = conv_bin2ascii (of_nat (unat x mod 64))"
    unfolding conv_bin2ascii_eq by (simp only:)
  also have "\<dots> = map (\<lambda>n. conv_bin2ascii (of_nat n)) [0..<64] ! (unat x mod 64)"
    by simp
  finally show ?thesis
    unfolding alphabet_conv b64_char_def .
qed

section \<open>The block encoder\<close>

definition sextets :: "u32 \<Rightarrow> byte list" where
  "sextets l = [conv_bin2ascii (ucast (drop_bit 18 l)), conv_bin2ascii (ucast (drop_bit 12 l)),
     conv_bin2ascii (ucast (drop_bit 6 l)), conv_bin2ascii (ucast l)]"

text \<open>The loop over the rest of \<open>src\<close>, with the write pointer and the count of characters.\<close>

fun encode_loop :: "byte list \<Rightarrow> addr \<Rightarrow> u64 \<Rightarrow> mem \<Rightarrow> mem \<times> addr \<times> u64" where
  "encode_loop (a # b # c # src) dst ret m =
     (let l = push_bit 16 (ucast a) OR push_bit 8 (ucast b) OR ucast c
      in encode_loop src (dst + 4) (ret + 4) (mem_write m dst (sextets l)))"
| "encode_loop [a, b] dst ret m =
     (let l = push_bit 16 (ucast a) OR push_bit 8 (ucast b)
      in (mem_write m dst (take 3 (sextets l) @ [chr (CHR ''='')]), dst + 4, ret + 4))"
| "encode_loop [a] dst ret m =
     (let l = push_bit 16 (ucast a)
      in (mem_write m dst (take 2 (sextets l) @ [chr (CHR ''=''), chr (CHR ''='')]), dst + 4, ret + 4))"
| "encode_loop [] dst ret m = (m, dst, ret)"

definition EVP_EncodeBlock :: "addr \<Rightarrow> byte list \<Rightarrow> mem \<Rightarrow> mem \<times> u64" where
  "EVP_EncodeBlock dst src m =
     (case encode_loop src dst 0 m of (m, dst, ret) \<Rightarrow> (store8 dst 0 m, ret))"

text \<open>\<open>*out_len\<close>, or nothing where the function returns zero.\<close>

definition EVP_EncodedLength :: "u64 \<Rightarrow> u64 option" where
  "EVP_EncodedLength len =
     (if len + 2 < len then None
      else let len = (len + 2) div 3 in
        if drop_bit 2 (push_bit 2 len) \<noteq> len then None
        else let len = push_bit 2 len in
          if len + 1 < len then None else Some (len + 1))"

text \<open>The base64 text of RFC 4648.\<close>

fun base64 :: "byte list \<Rightarrow> byte list" where
  "base64 (a # b # c # src) =
     [b64_char (unat a div 4), b64_char (unat a mod 4 * 16 + unat b div 16),
      b64_char (unat b mod 16 * 4 + unat c div 64), b64_char (unat c mod 64)] @ base64 src"
| "base64 [a, b] =
     [b64_char (unat a div 4), b64_char (unat a mod 4 * 16 + unat b div 16),
      b64_char (unat b mod 16 * 4), b64_pad]"
| "base64 [a] = [b64_char (unat a div 4), b64_char (unat a mod 4 * 16), b64_pad, b64_pad]"
| "base64 [] = []"

lemma length_base64: "length (base64 bs) = 4 * ((length bs + 2) div 3)"
proof (induction bs rule: base64.induct)
  case (1 a b c src)
  have "(length (a # b # c # src) + 2) div 3 = Suc ((length src + 2) div 3)" by simp
  then show ?case using 1 by simp
qed simp_all

lemma unat_u32_byte: "unat (ucast (b :: byte) :: u32) = unat b"
  by (simp add: unsigned_ucast_eq take_bit_nat_eq_self less_trans [OF unat_byte])

lemma triple_word:
  "unat (push_bit 16 (ucast a) OR push_bit 8 (ucast b) OR ucast c :: u32) =
     65536 * unat (a :: byte) + 256 * unat (b :: byte) + unat (c :: byte)"
proof -
  have 2: "unat (push_bit 8 (ucast a) OR ucast b :: u32) = 256 * unat a + unat b"
    using unat_byte [of a] by (subst unat_push_or_byte) (simp_all add: unat_u32_byte)
  have "push_bit 16 (ucast a) OR push_bit 8 (ucast b) = push_bit 8 (push_bit 8 (ucast a) OR ucast b :: u32)"
    by (simp add: push_bit_or)
  then show ?thesis
    using unat_byte [of a] unat_byte [of b] unat_push_or_byte [of "push_bit 8 (ucast a) OR ucast b :: u32" c]
    by (simp add: 2 or.assoc)
qed

lemma sextets_char:
  assumes "unat l = n" shows "sextets l = [b64_char (n div 2 ^ 18 mod 64), b64_char (n div 2 ^ 12 mod 64),
    b64_char (n div 2 ^ 6 mod 64), b64_char (n mod 64)]"
proof -
  have "unat (ucast w :: byte) mod 64 = unat w mod 64" for w :: u32
    by (simp add: unsigned_ucast_eq take_bit_eq_mod mod_mod_cancel)
  then show ?thesis
    unfolding assms [symmetric] sextets_def conv_char
    by (simp only: unat_drop_bit_eq) (simp add: drop_bit_eq_div)
qed

lemma four_digits:
  assumes "w < 64" "x < 64" "y < 64" "z < (64 :: nat)"
  defines "n \<equiv> 2 ^ 18 * w + 2 ^ 12 * x + 2 ^ 6 * y + z"
  shows "n div 2 ^ 18 mod 64 = w" "n div 2 ^ 12 mod 64 = x" "n div 2 ^ 6 mod 64 = y" "n mod 64 = z"
proof -
  have "n div 2 ^ 18 = w" by (rule div_nat_eqI) (use assms in simp_all)
  moreover have "n div 2 ^ 12 = 64 * w + x" by (rule div_nat_eqI) (use assms in simp_all)
  moreover have "n div 2 ^ 6 = 64 * (64 * w + x) + y" by (rule div_nat_eqI) (use assms in simp_all)
  moreover have "n = 64 * (64 * (64 * w + x) + y) + z" by (simp add: n_def)
  moreover have "(64 * k + r) mod 64 = r" if "r < 64" for k r :: nat using that by simp
  ultimately show "n div 2 ^ 18 mod 64 = w" "n div 2 ^ 12 mod 64 = x" "n div 2 ^ 6 mod 64 = y" "n mod 64 = z"
    using assms(1-4) by (simp_all only: mod_less)
qed

lemma sextets_triple:
  fixes a b c :: byte
  shows "sextets (push_bit 16 (ucast a) OR push_bit 8 (ucast b) OR ucast c) =
     [b64_char (unat a div 4), b64_char (unat a mod 4 * 16 + unat b div 16),
      b64_char (unat b mod 16 * 4 + unat c div 64), b64_char (unat c mod 64)]"
proof -
  have regroup: "65536 * x + 256 * y + z = 262144 * qx + 4096 * (rx * 16 + qy) + 64 * (ry * 4 + qz) + rz"
    if "qx * 4 + rx = x" "qy * 16 + ry = y" "qz * 64 + rz = z" for x y z qx rx qy ry qz rz :: nat
    unfolding that [symmetric] by (simp add: algebra_simps)
  have eq: "65536 * unat a + 256 * unat b + unat c = 2 ^ 18 * (unat a div 4) +
    2 ^ 12 * (unat a mod 4 * 16 + unat b div 16) + 2 ^ 6 * (unat b mod 16 * 4 + unat c div 64) + unat c mod 64"
    using regroup [OF div_mult_mod_eq [of "unat a" 4] div_mult_mod_eq [of "unat b" 16]
        div_mult_mod_eq [of "unat c" 64]] by simp
  have "unat a div 4 < 64" "unat b div 16 < 16" "unat c div 64 < 4"
    using unat_byte [of a] unat_byte [of b] unat_byte [of c] by (simp_all add: less_mult_imp_div_less)
  moreover have "unat a mod 4 < 4" "unat b mod 16 < 16" "unat c mod 64 < 64" by simp_all
  ultimately have "unat a mod 4 * 16 + unat b div 16 < 64" "unat b mod 16 * 4 + unat c div 64 < 64" by linarith+
  note four_digits [OF \<open>unat a div 4 < 64\<close> this \<open>unat c mod 64 < 64\<close>]
  then show ?thesis
    unfolding sextets_char [OF triple_word] eq by (simp only:)
qed

lemma sextets_pair:
  fixes a b :: byte
  shows "take 3 (sextets (push_bit 16 (ucast a) OR push_bit 8 (ucast b))) =
     [b64_char (unat a div 4), b64_char (unat a mod 4 * 16 + unat b div 16), b64_char (unat b mod 16 * 4)]"
  using sextets_triple [of a b 0] by simp

lemma sextets_single:
  fixes a :: byte
  shows "take 2 (sextets (push_bit 16 (ucast a))) = [b64_char (unat a div 4), b64_char (unat a mod 4 * 16)]"
  using sextets_triple [of a 0 0] by simp

lemma encode_loop_eq:
  "encode_loop src dst ret m =
     (mem_write m dst (base64 src), dst + of_nat (length (base64 src)), ret + of_nat (length (base64 src)))"
proof (induction src dst ret m rule: encode_loop.induct)
  case (1 a b c src dst ret m)
  define q where "q = [b64_char (unat a div 4), b64_char (unat a mod 4 * 16 + unat b div 16),
      b64_char (unat b mod 16 * 4 + unat c div 64), b64_char (unat c mod 64)]"
  have "sextets (push_bit 16 (ucast a) OR push_bit 8 (ucast b) OR ucast c) = q" "length q = 4"
    "base64 (a # b # c # src) = q @ base64 src"
    by (simp_all only: sextets_triple q_def base64.simps) simp
  then show ?case
    using 1 by (simp add: Let_def mem_write_append add.assoc del: base64.simps)
next
  case (2 a b dst ret m)
  then show ?case
    by (simp only: encode_loop.simps Let_def sextets_pair base64.simps append.simps)
      (simp add: b64_pad_def del: mem_write.simps)
next
  case (3 a dst ret m)
  then show ?case
    by (simp only: encode_loop.simps Let_def sextets_single base64.simps append.simps)
      (simp add: b64_pad_def del: mem_write.simps)
qed simp

lemma EVP_EncodeBlock_eq:
  "EVP_EncodeBlock dst src m = (mem_write m dst (base64 src @ [0]), of_nat (length (base64 src)))"
  by (simp add: EVP_EncodeBlock_def encode_loop_eq store8_def mem_write_append)

text \<open>The length is computed exactly, and refused exactly where it does not fit in a \<open>size_t\<close>.\<close>

lemma EVP_EncodedLength_eq:
  "EVP_EncodedLength len =
     (let n = 4 * ((unat len + 2) div 3) + 1 in if n < 2 ^ 64 then Some (of_nat n) else None)"
proof (cases "unat len + 2 < 2 ^ 64")
  case False
  moreover from this have "(unat len + 2) mod 2 ^ 64 = unat len + 2 - 2 ^ 64"
    using unat_less64 [of len] by (subst le_mod_geq) simp_all
  ultimately have "len + 2 < len"
    using unat_less64 [of len] by (simp add: word_less_nat_alt unat_word_ariths)
  moreover have "\<not> 4 * ((unat len + 2) div 3) + 1 < 2 ^ 64"
    using False by (simp add: not_less)
  ultimately show ?thesis by (simp add: EVP_EncodedLength_def Let_def)
next
  case True
  define q where "q = (unat len + 2) div 3"
  have sum: "unat (len + 2) = unat len + 2" using True by (simp add: unat_word_ariths)
  then have nowrap: "\<not> len + 2 < len" by (simp add: word_less_nat_alt)
  have q: "unat ((len + 2) div 3) = q" by (simp add: unat_div sum q_def)
  have shift: "unat (push_bit 2 ((len + 2) div 3)) = 4 * q mod 2 ^ 64"
  proof -
    have "unat (push_bit 2 x) = 4 * unat x mod 2 ^ 64" for x :: u64
      by (simp add: push_bit_eq_mult unat_word_ariths mult.commute)
    then show ?thesis by (simp only: q)
  qed
  have "drop_bit 2 (push_bit 2 ((len + 2) div 3)) = (len + 2) div 3 \<longleftrightarrow> 4 * q < 2 ^ 64"
  proof -
    have "4 * q mod 2 ^ 64 < 2 ^ 62 * 4" by simp
    then have "4 * q mod 2 ^ 64 div 4 < 2 ^ 62" by (rule less_mult_imp_div_less)
    then have "4 * q mod 2 ^ 64 div 4 = q \<longleftrightarrow> 4 * q < 2 ^ 64"
      by (cases "4 * q < 2 ^ 64") (simp_all del: power.simps)
    then show ?thesis
      by (simp only: word_unat_eq_iff unat_drop_bit_eq shift q) (simp add: drop_bit_eq_div)
  qed
  moreover define r where "r = push_bit 2 ((len + 2) div 3)"
  ultimately have fits: "drop_bit 2 r = (len + 2) div 3 \<longleftrightarrow> 4 * q < 2 ^ 64" by simp
  have r: "unat r = 4 * q" "unat (r + 1) = 4 * q + 1" "r + 1 = of_nat (4 * q + 1)" "4 * q + 1 < 2 ^ 64"
    if "4 * q < 2 ^ 64"
  proof -
    show 1: "unat r = 4 * q" using that by (simp add: r_def shift)
    show 2: "4 * q + 1 < 2 ^ 64" using that by simp
    show 3: "unat (r + 1) = 4 * q + 1" by (simp only: unat_word_ariths 1) (use 2 in simp)
    show "r + 1 = of_nat (4 * q + 1)" unfolding 3 [symmetric] by simp
  qed
  show ?thesis
  proof (cases "4 * q < 2 ^ 64")
    case True
    then have "\<not> r + 1 < r" unfolding word_less_nat_alt using r(1,2) by linarith
    then show ?thesis
      using True nowrap fits r(3,4)
      unfolding EVP_EncodedLength_def Let_def q_def [symmetric] r_def [symmetric] by simp
  next
    case False
    then show ?thesis
      using nowrap fits unfolding EVP_EncodedLength_def Let_def q_def [symmetric] r_def [symmetric] by simp
  qed
qed

section \<open>The block decoder\<close>

text \<open>The bytes written to \<open>out\<close>, or nothing where the function returns zero.\<close>

definition base64_decode_quad :: "byte \<Rightarrow> byte \<Rightarrow> byte \<Rightarrow> byte \<Rightarrow> byte list option" where
  "base64_decode_quad in0 in1 in2 in3 =
     (let a = base64_ascii_to_bin in0; b = base64_ascii_to_bin in1;
          c = base64_ascii_to_bin in2; d = base64_ascii_to_bin in3 in
      if a = 0xFF \<or> b = 0xFF \<or> c = 0xFF \<or> d = 0xFF then None
      else
        let v = push_bit 18 (ucast a) OR push_bit 12 (ucast b) OR push_bit 6 (ucast c) OR ucast d :: u32;
            eq = chr (CHR ''='');
            padding_pattern = push_bit 3 (of_bool (in0 = eq)) OR push_bit 2 (of_bool (in1 = eq)) OR
              push_bit 1 (of_bool (in2 = eq)) OR of_bool (in3 = eq) :: u32
        in if padding_pattern = 0 then Some [ucast (drop_bit 16 v), ucast (drop_bit 8 v), ucast v]
           else if padding_pattern = 1 then Some [ucast (drop_bit 16 v), ucast (drop_bit 8 v)]
           else if padding_pattern = 3 then Some [ucast (drop_bit 16 v)]
           else None)"

definition EVP_DecodedLength :: "u64 \<Rightarrow> u64 option" where
  "EVP_DecodedLength len = (if len mod 4 \<noteq> 0 then None else Some (len div 4 * 3))"

fun decode_loop :: "byte list \<Rightarrow> addr \<Rightarrow> u64 \<Rightarrow> mem \<Rightarrow> u64 option \<times> mem" where
  "decode_loop (in0 # in1 # in2 # in3 # rest) out bytes_out m =
     (case base64_decode_quad in0 in1 in2 in3 of
        None \<Rightarrow> (None, m)
      | Some bs \<Rightarrow>
          let m = mem_write m out bs; n = of_nat (length bs) in
          if length bs \<noteq> 3 \<and> rest \<noteq> [] then (None, m)
          else decode_loop rest (out + n) (bytes_out + n) m)"
| "decode_loop _ out bytes_out m = (Some bytes_out, m)"

text \<open>The result, \<open>*out_len\<close> and the memory.\<close>

definition EVP_DecodeBase64 :: "addr \<Rightarrow> u64 \<Rightarrow> byte list \<Rightarrow> mem \<Rightarrow> bool \<times> u64 \<times> mem" where
  "EVP_DecodeBase64 out max_out src m =
     (let in_len = of_nat (length src) in
      if in_len mod 4 \<noteq> 0 then (False, 0, m)
      else case EVP_DecodedLength in_len of
        None \<Rightarrow> (False, 0, m)
      | Some max_len \<Rightarrow>
          if max_out < max_len then (False, 0, m)
          else case decode_loop src out 0 m of
            (None, m) \<Rightarrow> (False, 0, m)
          | (Some bytes_out, m) \<Rightarrow> (True, bytes_out, m))"

lemma ascii_of_char: "n < 64 \<Longrightarrow> base64_ascii_to_bin (b64_char n) = of_nat n"
proof -
  have "map base64_ascii_to_bin b64_alphabet = map of_nat [0..<64]"
    by (simp add: b64_alphabet_def upt_rec ascii_to_bin_eq)
  then have "map base64_ascii_to_bin b64_alphabet ! n = map of_nat [0..<64] ! n" by simp
  then show "n < 64 \<Longrightarrow> base64_ascii_to_bin (b64_char n) = of_nat n"
    by (simp add: b64_char_def length_alphabet)
qed

lemma char_not_pad: "n < 64 \<Longrightarrow> b64_char n \<noteq> 0x3D"
proof -
  have "list_all (\<lambda>c. c \<noteq> 0x3D) b64_alphabet"
    by (simp add: b64_alphabet_def)
  then show "n < 64 \<Longrightarrow> b64_char n \<noteq> 0x3D"
    by (simp add: b64_char_def length_alphabet list_all_length)
qed

text \<open>The value of a sextet, and the character of a value below 64.\<close>

lemma bin_of_ascii:
  assumes "base64_ascii_to_bin c \<noteq> 0xFF" "c \<noteq> 0x3D"
  shows "unat (base64_ascii_to_bin c) < 64" and "b64_char (unat (base64_ascii_to_bin c)) = c"
proof -
  let ?x = "base64_ascii_to_bin c"
  have small: "unat ?x < 64"
    using assms by (auto simp: ascii_to_bin_eq unat_sub_byte unat_word_ariths word_le_nat_alt split: if_splits)
  then show "unat ?x < 64" .
  have "?x AND 0x3F = ?x"
    using small by (simp add: word_unat_eq_iff and_63)
  then have "conv_bin2ascii ?x = c"
    using assms by (auto simp: conv_bin2ascii_eq Let_def ascii_to_bin_eq word_less_nat_alt unat_sub_byte
        unat_word_ariths word_le_nat_alt split: if_splits)
  then show "b64_char (unat ?x) = c"
    using small by (simp add: conv_char)
qed

lemma unat_push_or_sextet:
  assumes "unat d < 64" "64 * unat x + 63 < 2 ^ 32"
  shows "unat (push_bit 6 x OR d :: u32) = 64 * unat x + unat d"
proof -
  have "d = take_bit 6 d"
    using assms(1) by (simp add: word_unat_eq_iff unsigned_take_bit_eq take_bit_nat_eq_self)
  then have "bit d n \<Longrightarrow> n < 6" for n
    by (metis bit_take_bit_iff)
  then have "push_bit 6 x AND d = 0"
    by (fastforce intro!: bit_word_eqI simp: bit_simps)
  then have "push_bit 6 x OR d = push_bit 6 x + d"
    by (rule disjunctive_add_eq_or [symmetric])
  also have "\<dots> = of_nat (64 * unat x + unat d)"
    by (simp add: push_bit_eq_mult)
  finally show ?thesis
    using assms by (simp add: unat_of_nat take_bit_nat_eq_self del: of_nat_add of_nat_mult)
qed

lemma quad_word:
  assumes "unat a < 64" "unat b < 64" "unat c < 64" "unat d < (64 :: nat)"
  shows "unat (push_bit 18 (ucast a) OR push_bit 12 (ucast b) OR push_bit 6 (ucast c) OR ucast d :: u32) =
    262144 * unat (a :: byte) + 4096 * unat (b :: byte) + 64 * unat (c :: byte) + unat (d :: byte)"
proof -
  define s where "s = (push_bit 6 (ucast a) OR ucast b :: u32)"
  define t where "t = push_bit 6 s OR ucast c"
  have s: "unat s = 64 * unat a + unat b"
    unfolding s_def using assms by (subst unat_push_or_sextet) (simp_all add: unat_u32_byte)
  have t: "unat t = 64 * (64 * unat a + unat b) + unat c"
    unfolding t_def using assms by (subst unat_push_or_sextet) (simp_all add: unat_u32_byte s)
  have "push_bit 18 (ucast a) OR push_bit 12 (ucast b) OR push_bit 6 (ucast c) OR ucast d = push_bit 6 t OR ucast d"
    by (simp add: s_def t_def push_bit_or or.assoc)
  then show ?thesis
    using assms by (simp add: unat_push_or_sextet unat_u32_byte t)
qed

lemma word_bytes:
  assumes "unat v = 65536 * x + 256 * y + z" "y < 256" "z < 256"
  shows "(ucast (drop_bit 16 v) :: byte) = of_nat x" "(ucast (drop_bit 8 v) :: byte) = of_nat y"
    "(ucast (v :: u32) :: byte) = of_nat z"
proof -
  have cast: "(ucast w :: byte) = of_nat (unat w)" for w :: u32 by simp
  have zero: "256 * w = 0" "65536 * w = 0" for w :: byte
  proof -
    have "(256 :: byte) = 0" "(65536 :: byte) = 0" by simp_all
    then show "256 * w = 0" "65536 * w = 0" by (metis mult_zero_left)+
  qed
  have "unat v div 65536 = x" "unat v div 256 = 256 * x + y"
    unfolding assms(1) by (rule div_nat_eqI; use assms(2,3) in simp)+
  then show "(ucast (drop_bit 16 v) :: byte) = of_nat x" "(ucast (drop_bit 8 v) :: byte) = of_nat y"
    "(ucast v :: byte) = of_nat z"
    unfolding cast unat_drop_bit_eq using zero by (simp_all add: drop_bit_eq_div assms(1))
qed

text \<open>What a quad decodes to, by the values of its sextets.\<close>

definition quad_bytes :: "nat \<Rightarrow> nat \<Rightarrow> nat \<Rightarrow> nat \<Rightarrow> byte list" where
  "quad_bytes w x y z =
     [of_nat (w * 4 + x div 16), of_nat (x mod 16 * 16 + y div 4), of_nat (y mod 4 * 64 + z)]"

lemma bin_pad: "base64_ascii_to_bin 0x3D = 0"
  by (simp add: ascii_to_bin_eq)

lemma quad_values:
  fixes a b c d :: byte
  assumes "unat a < 64" "unat b < 64" "unat c < 64" "unat d < 64"
  defines "v \<equiv> push_bit 18 (ucast a) OR push_bit 12 (ucast b) OR push_bit 6 (ucast c) OR ucast d :: u32"
  shows "[ucast (drop_bit 16 v), ucast (drop_bit 8 v), ucast v] = quad_bytes (unat a) (unat b) (unat c) (unat d)"
proof -
  have regroup: "262144 * w + 4096 * x + 64 * y + z =
      65536 * (w * 4 + qx) + 256 * (rx * 16 + qy) + (ry * 64 + z)"
    if "qx * 16 + rx = x" "qy * 4 + ry = y" for w x y z qx rx qy ry :: nat
    unfolding that [symmetric] by (simp add: algebra_simps)
  have "unat v = 65536 * (unat a * 4 + unat b div 16) + 256 * (unat b mod 16 * 16 + unat c div 4) + (unat c mod 4 * 64 + unat d)"
    unfolding v_def quad_word [OF assms(1-4)]
    by (rule regroup) simp_all
  moreover have "unat b mod 16 < 16" "unat c div 4 < 16" "unat c mod 4 < 4"
    using assms(3) by (simp_all add: less_mult_imp_div_less)
  then have "unat b mod 16 * 16 + unat c div 4 < 256" "unat c mod 4 * 64 + unat d < 256"
    using assms(4) by linarith+
  ultimately show ?thesis
    unfolding quad_bytes_def by (simp only: word_bytes)
qed

lemma not_invalid: "n < 64 \<Longrightarrow> (of_nat n :: byte) \<noteq> 0xFF"
  by (auto simp: word_unat_eq_iff unat_of_nat take_bit_nat_eq_self)

lemma unat_sextet: "n < 64 \<Longrightarrow> unat (of_nat n :: byte) = n"
  by (simp add: unat_of_nat take_bit_nat_eq_self)

lemma padding_pattern:
  fixes p :: u32
  assumes "p = push_bit 3 (of_bool e0) OR push_bit 2 (of_bool e1) OR push_bit 1 (of_bool e2) OR of_bool e3"
  shows "(if p = 0 then x else if p = 1 then y else if p = 3 then z else None) =
    (if e0 \<or> e1 \<or> e2 \<and> \<not> e3 then None else if e2 then z else if e3 then y else x)"
  unfolding assms by (cases e0; cases e1; cases e2; cases e3; simp)

lemma decode_quad_valid:
  assumes "unat (base64_ascii_to_bin in0) < 64" "unat (base64_ascii_to_bin in1) < 64"
    "unat (base64_ascii_to_bin in2) < 64" "unat (base64_ascii_to_bin in3) < 64"
  defines "q \<equiv> quad_bytes (unat (base64_ascii_to_bin in0)) (unat (base64_ascii_to_bin in1))
      (unat (base64_ascii_to_bin in2)) (unat (base64_ascii_to_bin in3))"
  shows "base64_decode_quad in0 in1 in2 in3 =
     (if in0 = 0x3D \<or> in1 = 0x3D \<or> (in2 = 0x3D \<and> in3 \<noteq> 0x3D) then None
      else if in2 = 0x3D then Some (take 1 q) else if in3 = 0x3D then Some (take 2 q) else Some q)"
proof -
  have ok: "c \<noteq> 0xFF" if "unat (c :: byte) < 64" for c
    using that by (auto simp: word_unat_eq_iff)
  define v where "v = (push_bit 18 (ucast (base64_ascii_to_bin in0)) OR push_bit 12 (ucast (base64_ascii_to_bin in1)) OR
    push_bit 6 (ucast (base64_ascii_to_bin in2)) OR ucast (base64_ascii_to_bin in3) :: u32)"
  have q: "q = [ucast (drop_bit 16 v), ucast (drop_bit 8 v), ucast v]"
    unfolding q_def v_def by (rule quad_values [OF assms(1-4), symmetric])
  have "take 1 q = [ucast (drop_bit 16 v)]" "take 2 q = [ucast (drop_bit 16 v), ucast (drop_bit 8 v)]"
    unfolding q by simp_all
  moreover have "(of_char (CHR ''='') :: byte) = 0x3D" by simp
  ultimately show ?thesis
    unfolding base64_decode_quad_def Let_def padding_pattern [OF refl] v_def [symmetric]
    using ok [OF assms(1)] ok [OF assms(2)] ok [OF assms(3)] ok [OF assms(4)]
    by (simp only: q [symmetric] simp_thms if_False disj_assoc)
qed

lemma decode_quad_chars:
  assumes "w < 64" "x < 64" "y < 64" "z < 64"
  shows "base64_decode_quad (b64_char w) (b64_char x) (b64_char y) (b64_char z) = Some (quad_bytes w x y z)"
    "base64_decode_quad (b64_char w) (b64_char x) (b64_char y) 0x3D = Some (take 2 (quad_bytes w x y 0))"
    "base64_decode_quad (b64_char w) (b64_char x) 0x3D 0x3D = Some (take 1 (quad_bytes w x 0 0))"
  using assms by (simp_all add: decode_quad_valid ascii_of_char bin_pad char_not_pad unat_sextet)

lemma quad_bytes_triple:
  fixes a b c :: byte
  shows "quad_bytes (unat a div 4) (unat a mod 4 * 16 + unat b div 16)
    (unat b mod 16 * 4 + unat c div 64) (unat c mod 64) = [a, b, c]"
proof -
  have "unat b div 16 < 16" "unat c div 64 < 4"
    using unat_byte [of b] unat_byte [of c] by (simp_all add: less_mult_imp_div_less)
  moreover have "(x * 16 + y) div 16 = x" "(x * 16 + y) mod 16 = y" if "y < 16" for x y :: nat
    using that by simp_all
  moreover have "(x * 4 + y) div 4 = x" "(x * 4 + y) mod 4 = y" if "y < 4" for x y :: nat
    using that by simp_all
  moreover have "(of_nat (unat x div k * k + unat x mod k) :: byte) = x" for x :: byte and k
    unfolding div_mult_mod_eq by simp
  ultimately show ?thesis
    unfolding quad_bytes_def by simp
qed

lemma sextet_bounds:
  fixes a b :: byte
  shows "unat a div 4 < 64" "unat a mod 4 * 16 + unat b div 16 < 64"
    "unat a mod 16 * 4 + unat b div 64 < 64" "unat a mod 64 < 64"
proof -
  have "unat a div 4 < 64" "unat b div 16 < 16" "unat b div 64 < 4"
    using unat_byte [of a] unat_byte [of b] by (simp_all add: less_mult_imp_div_less)
  moreover have "unat a mod 4 < 4" "unat a mod 16 < 16" "unat a mod 64 < 64" by simp_all
  ultimately show "unat a div 4 < 64" "unat a mod 4 * 16 + unat b div 16 < 64"
    "unat a mod 16 * 4 + unat b div 64 < 64" "unat a mod 64 < 64" by linarith+
qed

text \<open>The three shapes of a quad that the encoder writes.\<close>

lemma decode_quad_encoded:
  fixes a b c :: byte
  shows "base64_decode_quad (b64_char (unat a div 4)) (b64_char (unat a mod 4 * 16 + unat b div 16))
      (b64_char (unat b mod 16 * 4 + unat c div 64)) (b64_char (unat c mod 64)) = Some [a, b, c]"
    "base64_decode_quad (b64_char (unat a div 4)) (b64_char (unat a mod 4 * 16 + unat b div 16))
      (b64_char (unat b mod 16 * 4)) b64_pad = Some [a, b]"
    "base64_decode_quad (b64_char (unat a div 4)) (b64_char (unat a mod 4 * 16)) b64_pad b64_pad = Some [a]"
  using sextet_bounds(1) [of a] sextet_bounds(2) [of a b] sextet_bounds(2) [of a 0] sextet_bounds(3) [of b c]
    sextet_bounds(3) [of b 0] sextet_bounds(4) [of c]
    quad_bytes_triple [of a b c] quad_bytes_triple [of a b 0] quad_bytes_triple [of a 0 0]
  by (simp_all add: decode_quad_chars b64_pad_def)

lemma decode_loop_base64:
  "decode_loop (base64 bs) out n m = (Some (n + of_nat (length bs)), mem_write m out bs)"
proof (induction bs arbitrary: out n m rule: base64.induct)
  case (1 a b c src)
  then show ?case by (simp add: decode_quad_encoded Let_def add.assoc)
qed (simp_all add: decode_quad_encoded Let_def add.assoc)

text \<open>The texts that are accepted: quads of the alphabet, the last with at most two pads.\<close>

fun b64_text :: "byte list \<Rightarrow> bool" where
  "b64_text [] = True"
| "b64_text (a # b # c # d # rest) =
     (a \<in> set b64_alphabet \<and> b \<in> set b64_alphabet \<and>
      (c \<in> set b64_alphabet \<and> d \<in> set b64_alphabet \<and> b64_text rest \<or>
       rest = [] \<and> (c \<in> set b64_alphabet \<or> c = b64_pad) \<and> d = b64_pad))"
| "b64_text _ = False"

lemma alphabet_iff: "c \<in> set b64_alphabet \<longleftrightarrow> base64_ascii_to_bin c \<noteq> 0xFF \<and> c \<noteq> b64_pad"
proof
  assume "c \<in> set b64_alphabet"
  then obtain n where "n < 64" "c = b64_char n"
    by (auto simp: in_set_conv_nth length_alphabet b64_char_def)
  then show "base64_ascii_to_bin c \<noteq> 0xFF \<and> c \<noteq> b64_pad"
    by (simp add: ascii_of_char not_invalid char_not_pad b64_pad_def)
next
  assume "base64_ascii_to_bin c \<noteq> 0xFF \<and> c \<noteq> b64_pad"
  then have "unat (base64_ascii_to_bin c) < 64" "b64_char (unat (base64_ascii_to_bin c)) = c"
    by (simp_all add: bin_of_ascii b64_pad_def)
  then show "c \<in> set b64_alphabet"
    by (metis b64_char_def length_alphabet nth_mem)
qed

lemma ascii_valid: "base64_ascii_to_bin c \<noteq> 0xFF \<Longrightarrow> unat (base64_ascii_to_bin c) < 64"
  by (cases "c = 0x3D") (simp_all add: bin_pad bin_of_ascii)

lemma decode_quad_eq:
  "base64_decode_quad a b c d =
     (let q = quad_bytes (unat (base64_ascii_to_bin a)) (unat (base64_ascii_to_bin b))
                (unat (base64_ascii_to_bin c)) (unat (base64_ascii_to_bin d)); A = set b64_alphabet in
      if a \<in> A \<and> b \<in> A \<and> c \<in> A \<and> d \<in> A then Some q
      else if a \<in> A \<and> b \<in> A \<and> c \<in> A \<and> d = b64_pad then Some (take 2 q)
      else if a \<in> A \<and> b \<in> A \<and> c = b64_pad \<and> d = b64_pad then Some (take 1 q)
      else None)"
proof (cases "base64_ascii_to_bin a = 0xFF \<or> base64_ascii_to_bin b = 0xFF \<or>
    base64_ascii_to_bin c = 0xFF \<or> base64_ascii_to_bin d = 0xFF")
  case True
  have "base64_ascii_to_bin b64_pad \<noteq> 0xFF" by (simp add: b64_pad_def bin_pad)
  with True show ?thesis
    by (simp only: base64_decode_quad_def Let_def if_True) (auto simp: alphabet_iff)
next
  case False
  then show ?thesis
    by (simp add: decode_quad_valid ascii_valid alphabet_iff Let_def flip: b64_pad_def)
qed

lemma length_quad [simp]: "length (quad_bytes w x y z) = 3"
  by (simp add: quad_bytes_def)

lemma decode_quad_length: "base64_decode_quad a b c d = Some bs \<Longrightarrow> length bs \<le> 3"
  by (auto simp: decode_quad_eq Let_def split: if_splits)

lemma decode_loop_iff:
  "length src mod 4 = 0 \<Longrightarrow> fst (decode_loop src out n m) \<noteq> None \<longleftrightarrow> b64_text src"
proof (induction src out n m rule: decode_loop.induct)
  case (1 in0 in1 in2 in3 rest out n m)
  show ?case
  proof (cases "base64_decode_quad in0 in1 in2 in3")
    case None
    then show ?thesis by (auto simp: decode_quad_eq Let_def split: if_splits)
  next
    case (Some bs)
    have len: "length rest mod 4 = 0" using "1.prems" by simp
    have pad: "b64_pad \<notin> set b64_alphabet" by (simp add: alphabet_iff)
    show ?thesis
    proof (cases "length bs \<noteq> 3 \<and> rest \<noteq> []")
      case True
      with Some pad show ?thesis by (auto simp: decode_quad_eq Let_def split: if_splits)
    next
      case False
      from "1.IH" [OF Some refl refl False len] Some pad False show ?thesis
        by (auto simp: decode_quad_eq Let_def split: if_splits)
    qed
  qed
qed auto

text \<open>No more than three bytes are written for four characters.\<close>

lemma decode_loop_writes:
  "decode_loop src out n m = (r, m') \<Longrightarrow> \<exists>bs. m' = mem_write m out bs \<and> length bs \<le> 3 * (length src div 4) \<and>
     (case r of Some k \<Rightarrow> k = n + of_nat (length bs) | None \<Rightarrow> True)"
proof (induction src out n m rule: decode_loop.induct)
  case (1 in0 in1 in2 in3 rest out n m)
  show ?case
  proof (cases "base64_decode_quad in0 in1 in2 in3")
    case None
    then show ?thesis using "1.prems" by (auto intro!: exI [of _ "[]"])
  next
    case (Some bs)
    note len = decode_quad_length [OF Some]
    show ?thesis
    proof (cases "length bs \<noteq> 3 \<and> rest \<noteq> []")
      case True
      have "3 \<le> 3 * (length (in0 # in1 # in2 # in3 # rest) div 4)" by simp
      with True show ?thesis
        using Some len "1.prems" by (intro exI [of _ bs]) (auto simp: Let_def split: if_splits)
    next
      case False
      with Some "1.prems" have "decode_loop rest (out + of_nat (length bs)) (n + of_nat (length bs)) (mem_write m out bs) = (r, m')"
        by (auto simp: Let_def)
      from "1.IH" [OF Some refl refl False this] obtain cs where
        "m' = mem_write (mem_write m out bs) (out + of_nat (length bs)) cs" "length cs \<le> 3 * (length rest div 4)"
        "case r of Some k \<Rightarrow> k = n + of_nat (length bs) + of_nat (length cs) | None \<Rightarrow> True"
        by auto
      moreover from this len have "length (bs @ cs) \<le> 3 * (length (in0 # in1 # in2 # in3 # rest) div 4)"
        using div_add_self1 [of 4 "length rest"] by simp
      ultimately show ?thesis
        by (intro exI [of _ "bs @ cs"]) (auto simp: mem_write_append add.assoc split: option.splits)
    qed
  qed
qed (auto intro!: exI [of _ "[]"])

end
