(* ===== verification/Base64_Stream.thy ===== *)
theory Base64_Stream
  imports Base64
begin

unbundle bit_operations_syntax

text \<open>
  The streaming half of \<open>crypto/base64/base64.c\<close>: \<open>EVP_ENCODE_CTX\<close> with the bytes that wait for
  the rest of their line (encoding, 48 bytes a line) or of their quad (decoding), and the
  whitespace-tolerant \<open>EVP_DecodeBlock\<close>. The abstraction of an encoding context is the list
  of pending bytes; an update refines appending its input to them and taking off the full
  lines, so the text does not depend on how the input is cut. The assertion
  \<open>data_used < sizeof(data)\<close> of \<open>EVP_EncodeUpdate\<close> is the invariant \<open>encode_ctx_ok\<close>.
\<close>

section \<open>The context\<close>

record evp_encode_ctx =
  data_used :: u32
  ctx_data :: "byte list"
  eof_seen :: bool
  error_encountered :: bool

definition EVP_EncodeInit :: evp_encode_ctx where
  "EVP_EncodeInit =
     \<lparr>data_used = 0, ctx_data = replicate 48 0, eof_seen = False, error_encountered = False\<rparr>"

definition EVP_DecodeInit :: evp_encode_ctx where
  "EVP_DecodeInit =
     \<lparr>data_used = 0, ctx_data = replicate 48 0, eof_seen = False, error_encountered = False\<rparr>"

text \<open>The context is fresh zeros, or \<open>NULL\<close> where the allocation fails.\<close>

definition EVP_ENCODE_CTX_new :: "bool \<Rightarrow> evp_encode_ctx option" where
  "EVP_ENCODE_CTX_new allocated = (if allocated then Some EVP_EncodeInit else None)"

definition int_max :: u64 where "int_max = 0x7FFFFFFF"

text \<open>\<open>OPENSSL_memcpy(&ctx->data[k], xs, ...)\<close>.\<close>

definition copy_at :: "nat \<Rightarrow> byte list \<Rightarrow> byte list \<Rightarrow> byte list" where
  "copy_at k xs d = take k d @ xs @ drop (k + length xs) d"

section \<open>Encoding\<close>

text \<open>One line: the block, a newline, a terminator that the next line overwrites.\<close>

definition encode_line :: "addr \<Rightarrow> byte list \<Rightarrow> mem \<Rightarrow> mem \<times> addr \<times> u64" where
  "encode_line out src m =
     (case EVP_EncodeBlock out src m of (m, encoded) \<Rightarrow>
        let out = out + encoded; m = store8 out (0x0A) m;
            out = out + 1; m = store8 out 0 m
        in (m, out, encoded))"

text \<open>The loop over full lines; nothing is returned where \<open>total\<close> would wrap around.\<close>

function encode_lines :: "addr \<Rightarrow> byte list \<Rightarrow> u64 \<Rightarrow> mem \<Rightarrow> (byte list \<times> u64) option \<times> mem" where
  "encode_lines out src tot m =
     (if 48 \<le> length src then
        case encode_line out (take 48 src) m of (m, out, encoded) \<Rightarrow>
          if tot + encoded + 1 < tot then (None, m)
          else encode_lines out (drop 48 src) (tot + (encoded + 1)) m
      else (Some (src, tot), m))"
  by pat_completeness auto
termination by (relation "measure (\<lambda>(out, src, tot, m). length src)") auto

declare encode_lines.simps [simp del]

text \<open>The context, \<open>*out_len\<close> and the memory.\<close>

definition EVP_EncodeUpdate ::
  "evp_encode_ctx \<Rightarrow> addr \<Rightarrow> byte list \<Rightarrow> mem \<Rightarrow> evp_encode_ctx \<times> int \<times> mem" where
  "EVP_EncodeUpdate ctx out src m =
     (if src = [] then (ctx, 0, m)
      else
        let used = unat (data_used ctx) in
        if length src < 48 - used
        then (ctx\<lparr>ctx_data := copy_at used src (ctx_data ctx), data_used := data_used ctx + of_nat (length src)\<rparr>, 0, m)
        else
          let (ctx, src, out, tot, m) =
                (if used \<noteq> 0 then
                   let todo = 48 - used; d = copy_at used (take todo src) (ctx_data ctx) in
                   case encode_line out d m of (m, out, encoded) \<Rightarrow>
                     (ctx\<lparr>ctx_data := d, data_used := 0\<rparr>, drop todo src, out, encoded + 1, m)
                 else (ctx, src, out, 0, m))
          in case encode_lines out src tot m of
               (None, m) \<Rightarrow> (ctx, 0, m)
             | (Some (rest, tot), m) \<Rightarrow>
                 let ctx = (if rest \<noteq> [] then ctx\<lparr>ctx_data := copy_at 0 rest (ctx_data ctx)\<rparr> else ctx);
                     ctx = ctx\<lparr>data_used := of_nat (length rest)\<rparr>;
                     tot = (if int_max < tot then 0 else tot)
                 in (ctx, uint tot, m))"

definition EVP_EncodeFinal :: "evp_encode_ctx \<Rightarrow> addr \<Rightarrow> mem \<Rightarrow> evp_encode_ctx \<times> int \<times> mem" where
  "EVP_EncodeFinal ctx out m =
     (if data_used ctx = 0 then (ctx, 0, m)
      else case encode_line out (take (unat (data_used ctx)) (ctx_data ctx)) m of (m, out, encoded) \<Rightarrow>
        (ctx\<lparr>data_used := 0\<rparr>, uint (encoded + 1), m))"

section \<open>Decoding\<close>

definition is_space :: "byte \<Rightarrow> bool" where
  "is_space c \<longleftrightarrow> c = chr (CHR '' '') \<or> c = 9 \<or> c = 13 \<or> c = 10"

text \<open>The loop over the input; the count of bytes, or nothing after an error.\<close>

fun decode_chars :: "evp_encode_ctx \<Rightarrow> addr \<Rightarrow> byte list \<Rightarrow> u64 \<Rightarrow> mem \<Rightarrow> evp_encode_ctx \<times> u64 option \<times> mem" where
  "decode_chars ctx out [] bytes_out m = (ctx, Some bytes_out, m)"
| "decode_chars ctx out (c # src) bytes_out m =
     (if is_space c then decode_chars ctx out src bytes_out m
      else if eof_seen ctx then (ctx\<lparr>error_encountered := True\<rparr>, None, m)
      else
        let d = (ctx_data ctx)[unat (data_used ctx) := c];
            ctx = ctx\<lparr>ctx_data := d, data_used := data_used ctx + 1\<rparr>
        in if data_used ctx = 4 then
             case base64_decode_quad (d ! 0) (d ! 1) (d ! 2) (d ! 3) of
               None \<Rightarrow> (ctx\<lparr>error_encountered := True\<rparr>, None, m)
             | Some bs \<Rightarrow>
                 let n = of_nat (length bs); ctx = ctx\<lparr>data_used := 0\<rparr>;
                     ctx = (if length bs < 3 then ctx\<lparr>eof_seen := True\<rparr> else ctx)
                 in decode_chars ctx (out + n) src (bytes_out + n) (mem_write m out bs)
           else decode_chars ctx out src bytes_out m)"

text \<open>The context, the result, \<open>*out_len\<close> and the memory.\<close>

definition EVP_DecodeUpdate ::
  "evp_encode_ctx \<Rightarrow> addr \<Rightarrow> byte list \<Rightarrow> mem \<Rightarrow> evp_encode_ctx \<times> int \<times> int \<times> mem" where
  "EVP_DecodeUpdate ctx out src m =
     (if error_encountered ctx then (ctx, - 1, 0, m)
      else case decode_chars ctx out src 0 m of
        (ctx, None, m) \<Rightarrow> (ctx, - 1, 0, m)
      | (ctx, Some bytes_out, m) \<Rightarrow>
          if int_max < bytes_out then (ctx\<lparr>error_encountered := True\<rparr>, - 1, 0, m)
          else (ctx, if eof_seen ctx then 0 else 1, uint bytes_out, m))"

definition EVP_DecodeFinal :: "evp_encode_ctx \<Rightarrow> int \<times> int" where
  "EVP_DecodeFinal ctx = (if error_encountered ctx \<or> data_used ctx \<noteq> 0 then - 1 else 1, 0)"

text \<open>\<open>EVP_DecodeBlock\<close>: blanks around the text are dropped, the decoded bytes filled up with
  zeros to a multiple of three.\<close>

definition trim_text :: "byte list \<Rightarrow> byte list" where
  "trim_text src =
     rev (dropWhile is_space (rev (dropWhile (\<lambda>c. c = chr (CHR '' '') \<or> c = 9) src)))"

function fill_zeros :: "addr \<Rightarrow> u64 \<Rightarrow> mem \<Rightarrow> u64 \<times> mem" where
  "fill_zeros dst n m = (if n mod 3 \<noteq> 0 then fill_zeros dst (n + 1) (store8 (dst + n) 0 m) else (n, m))"
  by pat_completeness auto

lemma mod_3_next:
  assumes "(n :: u64) mod 3 \<noteq> 0"
  shows "unat (n + 1) = unat n + 1" "unat n mod 3 \<noteq> 0"
proof -
  have "unat (n mod 3) = unat n mod 3" by (simp add: unat_mod)
  then show nz: "unat n mod 3 \<noteq> 0" using assms by (metis unat_eq_0)
  then have "unat n \<noteq> 2 ^ 64 - 1" by auto
  then show "unat (n + 1) = unat n + 1"
    using unat_less64 [of n] by (simp add: unat_word_ariths)
qed

termination fill_zeros
proof (relation "measure (\<lambda>(dst, n, m). 2 - (unat n + 2) mod 3)")
  fix dst n and m :: mem
  assume "(n :: u64) mod 3 \<noteq> 0"
  from mod_3_next [OF this] show "((dst, n + 1, store8 (dst + n) 0 m), (dst :: addr, n, m)) \<in> measure (\<lambda>(dst, n, m). 2 - (unat n + 2) mod 3)"
    by simp presburger
qed simp

declare fill_zeros.simps [simp del]

definition EVP_DecodeBlock :: "addr \<Rightarrow> byte list \<Rightarrow> mem \<Rightarrow> int \<times> mem" where
  "EVP_DecodeBlock dst src m =
     (let src = trim_text src in
      case EVP_DecodedLength (of_nat (length src)) of
        None \<Rightarrow> (- 1, m)
      | Some dst_len \<Rightarrow>
          if int_max < dst_len then (- 1, m)
          else case EVP_DecodeBase64 dst dst_len src m of
            (False, _, m) \<Rightarrow> (- 1, m)
          | (True, dst_len, m) \<Rightarrow>
              case fill_zeros dst dst_len m of (dst_len, m) \<Rightarrow> (uint dst_len, m))"

section \<open>The lines of a PEM text\<close>

function full_lines :: "byte list \<Rightarrow> byte list" where
  "full_lines xs =
     (if 48 \<le> length xs then base64 (take 48 xs) @ [0x0A] @ full_lines (drop 48 xs) else [])"
  by pat_completeness auto
termination by (relation "measure length") auto

declare full_lines.simps [simp del]

definition rest_line :: "byte list \<Rightarrow> byte list" where
  "rest_line xs = drop (48 * (length xs div 48)) xs"

definition last_line :: "byte list \<Rightarrow> byte list" where
  "last_line xs = (if xs = [] then [] else base64 xs @ [0x0A])"

definition pem_text :: "byte list \<Rightarrow> byte list" where
  "pem_text xs = full_lines xs @ last_line (rest_line xs)"

lemma length_rest_line: "length (rest_line xs) = length xs mod 48"
  by (simp add: rest_line_def minus_mult_div_eq_mod)

lemma full_lines_append: "full_lines (xs @ ys) = full_lines xs @ full_lines (rest_line xs @ ys)"
proof (induction xs rule: full_lines.induct)
  case (1 xs)
  show ?case
  proof (cases "48 \<le> length xs")
    case True
    then have "length xs div 48 = Suc (length (drop 48 xs) div 48)"
      by (simp add: le_div_geq)
    then have "rest_line xs = rest_line (drop 48 xs)"
      by (simp add: rest_line_def add.commute)
    then show ?thesis
      using True 1 [OF True] by (subst (1 2) full_lines.simps) simp
  next
    case False
    then show ?thesis
      by (subst (2) full_lines.simps) (simp add: rest_line_def)
  qed
qed

lemma rest_line_append: "rest_line (xs @ ys) = rest_line (rest_line xs @ ys)"
proof -
  let ?k = "48 * (length xs div 48)"
  have "length xs + length ys = ?k + (length xs mod 48 + length ys)"
    using mult_div_mod_eq [of 48 "length xs"] by linarith
  then have "48 * ((length xs + length ys) div 48) = ?k + 48 * ((length xs mod 48 + length ys) div 48)"
    by (metis distrib_left div_mult_self4 zero_neq_numeral add.commute)
  moreover have "length (rest_line xs @ ys) = length xs mod 48 + length ys"
    by (simp add: length_rest_line)
  moreover have "drop ?k (xs @ ys) = rest_line xs @ ys"
    by (simp add: rest_line_def times_div_less_eq_dividend)
  moreover have "drop n (rest_line xs @ ys) = drop (n + ?k) (xs @ ys)" for n
    by (simp only: calculation(3) [symmetric] drop_drop)
  ultimately show ?thesis
    unfolding rest_line_def [of "xs @ ys"] rest_line_def [of "rest_line xs @ ys"]
    by (simp only: length_append add.commute)
qed

text \<open>A terminator is overwritten by what is written next.\<close>

lemma mem_write_over:
  "ys \<noteq> [] \<Longrightarrow> mem_write (mem_write m a (xs @ [z])) (a + of_nat (length xs)) ys = mem_write m a (xs @ ys)"
  by (cases ys) (simp_all add: mem_write_append)

lemma encode_line_eq:
  "encode_line out src m =
     (mem_write m out (base64 src @ [0x0A, 0]), out + of_nat (length (base64 src)) + 1, of_nat (length (base64 src)))"
  using mem_write_over [where m = m and a = out and xs = "base64 src" and z = 0 and ys = "[0x0A, 0]"]
  by (simp add: encode_line_def EVP_EncodeBlock_eq Let_def store8_def)

text \<open>What is in memory after a text has been written, with its terminator.\<close>

definition text_written :: "mem \<Rightarrow> addr \<Rightarrow> byte list \<Rightarrow> mem" where
  "text_written m out txt = (if txt = [] then m else mem_write m out (txt @ [0]))"

lemma text_written_append:
  "text_written (text_written m out xs) (out + of_nat (length xs)) ys = text_written m out (xs @ ys)"
  using mem_write_over [of "ys @ [0]" m out xs 0] by (simp add: text_written_def)

lemma length_full_lines: "length (full_lines xs) = 65 * (length xs div 48)"
proof (induction xs rule: full_lines.induct)
  case (1 xs)
  show ?case
  proof (cases "48 \<le> length xs")
    case True
    then have "length xs div 48 = Suc (length (drop 48 xs) div 48)"
      by (simp add: le_div_geq)
    moreover have "length (base64 (take 48 xs)) = 64"
      using True by (simp add: length_base64)
    ultimately show ?thesis
      using True 1 [OF True] by (subst full_lines.simps) simp
  qed (simp add: full_lines.simps)
qed

lemma encode_lines_eq:
  assumes "unat tot + length (full_lines src) < 2 ^ 64"
  shows "encode_lines out src tot m =
     (Some (rest_line src, tot + of_nat (length (full_lines src))), text_written m out (full_lines src))"
  using assms
proof (induction out src tot m rule: encode_lines.induct)
  case (1 out src tot m)
  show ?case
  proof (cases "48 \<le> length src")
    case False
    then show ?thesis
      by (simp add: encode_lines.simps [of out src] full_lines.simps [of src] rest_line_def text_written_def)
  next
    case True
    let ?l = "base64 (take 48 src)"
    have l: "length ?l = 64" using True by (simp add: length_base64)
    have lines: "full_lines src = ?l @ [0x0A] @ full_lines (drop 48 src)"
      using True by (subst full_lines.simps) simp
    have rest: "rest_line src = rest_line (drop 48 src)"
      using True by (simp add: rest_line_def le_div_geq add.commute)
    have tot: "unat (tot + 65) = unat tot + 65"
      using "1.prems" l by (simp add: lines unat_word_ariths)
    then have nowrap: "\<not> tot + of_nat 64 + 1 < tot"
      by (simp add: word_less_nat_alt add.assoc)
    have "unat (tot + 65) + length (full_lines (drop 48 src)) < 2 ^ 64"
      using "1.prems" l by (simp add: lines tot)
    then have IH: "encode_lines (out + 65) (drop 48 src) (tot + 65) (text_written m out (?l @ [0x0A]))
      = (Some (rest_line (drop 48 src), tot + 65 + of_nat (length (full_lines (drop 48 src)))),
         text_written (text_written m out (?l @ [0x0A])) (out + 65) (full_lines (drop 48 src)))"
      using "1.IH" [OF True encode_line_eq [symmetric] refl, unfolded l] nowrap
      by (simp add: text_written_def add.assoc)
    show ?thesis
      using True nowrap IH text_written_append [of m out "?l @ [0x0A]" "full_lines (drop 48 src)"] l
      by (simp add: encode_lines.simps [of out src] encode_line_eq lines rest text_written_def add.assoc)
  qed
qed

section \<open>The streaming encoder refines its pending bytes\<close>

definition encode_ctx_ok :: "evp_encode_ctx \<Rightarrow> bool" where
  "encode_ctx_ok ctx \<longleftrightarrow> unat (data_used ctx) < 48 \<and> length (ctx_data ctx) = 48"

definition pending :: "evp_encode_ctx \<Rightarrow> byte list" where
  "pending ctx = take (unat (data_used ctx)) (ctx_data ctx)"

lemma ok_init: "encode_ctx_ok EVP_EncodeInit" "pending EVP_EncodeInit = []"
  by (simp_all add: encode_ctx_ok_def pending_def EVP_EncodeInit_def)

lemma length_pending: "encode_ctx_ok ctx \<Longrightarrow> length (pending ctx) = unat (data_used ctx)"
  by (simp add: encode_ctx_ok_def pending_def)

lemma short_line: "length xs < 48 \<Longrightarrow> full_lines xs = [] \<and> rest_line xs = xs"
  by (simp add: full_lines.simps rest_line_def)

lemma first_line:
  "length d = 48 \<Longrightarrow> full_lines (d @ xs) = base64 d @ [0x0A] @ full_lines xs \<and> rest_line (d @ xs) = rest_line xs"
  by (simp add: full_lines.simps [of "d @ xs"] rest_line_def div_add_self1)

text \<open>The end of an update: what remains of the input becomes pending.\<close>

lemma keep_rest:
  assumes "length rest < 48" "length (ctx_data ctx) = 48"
  defines "ctx' \<equiv> (if rest \<noteq> [] then ctx\<lparr>ctx_data := copy_at 0 rest (ctx_data ctx)\<rparr> else ctx)
      \<lparr>data_used := of_nat (length rest)\<rparr>"
  shows "encode_ctx_ok ctx' \<and> pending ctx' = rest"
proof -
  have u: "unat (data_used ctx') = length rest"
    using assms(1) unat_of_nat32 [of "length rest"] unfolding ctx'_def by (simp del: unat_of_nat)
  have d: "ctx_data ctx' = (if rest \<noteq> [] then copy_at 0 rest (ctx_data ctx) else ctx_data ctx)"
    by (simp add: ctx'_def)
  have "length (ctx_data ctx') = 48" "take (length rest) (ctx_data ctx') = rest"
    unfolding d copy_at_def using assms(1,2) by (cases rest; force)+
  then show ?thesis
    unfolding encode_ctx_ok_def pending_def u using assms(1) by blast
qed

lemma finish_update:
  assumes fits: "unat tot + length (full_lines src) \<le> 0x7FFFFFFF" and d: "length (ctx_data ctx) = 48"
  shows "\<exists>ctx'. (case encode_lines out src tot m of
               (None, m) \<Rightarrow> (ctx, 0, m)
             | (Some (rest, tot), m) \<Rightarrow>
                 let ctx = (if rest \<noteq> [] then ctx\<lparr>ctx_data := copy_at 0 rest (ctx_data ctx)\<rparr> else ctx);
                     ctx = ctx\<lparr>data_used := of_nat (length rest)\<rparr>;
                     tot = (if int_max < tot then 0 else tot)
                 in (ctx, uint tot, m))
      = (ctx', int (unat tot + length (full_lines src)), text_written m out (full_lines src)) \<and>
     encode_ctx_ok ctx' \<and> pending ctx' = rest_line src"
proof -
  let ?n = "length (full_lines src)"
  have sum: "unat (tot + of_nat ?n) = unat tot + ?n"
    using fits by (simp add: unat_word_ariths unat_of_nat_addr)
  have big: "unat int_max = 0x7FFFFFFF" by (simp add: int_max_def)
  have "\<not> int_max < tot + of_nat ?n"
    unfolding word_less_nat_alt sum big using fits by linarith
  moreover have "uint (tot + of_nat ?n) = int (unat tot + ?n)"
    unfolding uint_nat sum by (rule refl)
  moreover have "unat tot + ?n < 2 ^ 64" using fits by simp
  moreover have "length (rest_line src) < 48" by (simp add: length_rest_line)
  note keep_rest [OF this d]
  ultimately show ?thesis
    by (simp only: encode_lines_eq Let_def option.case prod.case if_False simp_thms prod.inject)
qed

lemma EVP_EncodeUpdate_refines:
  assumes ok: "encode_ctx_ok ctx" and fits: "length (full_lines (pending ctx @ src)) \<le> 0x7FFFFFFF"
  shows "\<exists>ctx'. EVP_EncodeUpdate ctx out src m =
      (ctx', int (length (full_lines (pending ctx @ src))), text_written m out (full_lines (pending ctx @ src))) \<and>
    encode_ctx_ok ctx' \<and> pending ctx' = rest_line (pending ctx @ src)"
proof -
  define used where "used = unat (data_used ctx)"
  have used: "used < 48" "length (ctx_data ctx) = 48" "length (pending ctx) = used"
    using ok length_pending [OF ok] by (simp_all add: encode_ctx_ok_def used_def)
  consider "src = []" | "src \<noteq> []" "length src < 48 - used"
    | "src \<noteq> []" "\<not> length src < 48 - used" "used = 0" | "src \<noteq> []" "\<not> length src < 48 - used" "used \<noteq> 0"
    by blast
  then show ?thesis
  proof cases
    case 1
    then show ?thesis
      using ok used short_line [of "pending ctx"] by (simp add: EVP_EncodeUpdate_def text_written_def)
  next
    case 2
    have "unat (data_used ctx + of_nat (length src)) = used + length src"
      using 2 used by (simp add: unat_word_ariths used_def unat_of_nat32)
    then show ?thesis
      using 2 used short_line [of "pending ctx @ src"]
      by (simp add: EVP_EncodeUpdate_def text_written_def encode_ctx_ok_def pending_def copy_at_def flip: used_def)
  next
    case 3
    then have "pending ctx = []" using used by simp
    then show ?thesis
      using 3 finish_update [where tot = 0 and src = src and ctx = ctx and out = out and m = m] fits used
      by (simp add: EVP_EncodeUpdate_def flip: used_def)
  next
    case 4
    define d where "d = copy_at used (take (48 - used) src) (ctx_data ctx)"
    have d: "d = pending ctx @ take (48 - used) src" "length d = 48"
      using 4 used by (simp_all add: d_def copy_at_def pending_def used_def)
    have xs: "pending ctx @ src = d @ drop (48 - used) src" by (simp add: d(1))
    note line = first_line [OF d(2), of "drop (48 - used) src"]
    have l: "length (base64 d) = 64" using d(2) by (simp add: length_base64)
    have fits': "unat (65 :: u64) + length (full_lines (drop (48 - used) src)) \<le> 0x7FFFFFFF"
      using fits line l by (simp add: xs)
    from finish_update [OF fits', where ctx = "ctx\<lparr>ctx_data := d, data_used := 0\<rparr>" and out = "out + 65"
        and m = "text_written m out (base64 d @ [0x0A])"] d(2)
    show ?thesis
      using 4 l line text_written_append [of m out "base64 d @ [0x0A]"]
      unfolding xs by (simp add: EVP_EncodeUpdate_def encode_line_eq text_written_def add.assoc flip: used_def d_def)
  qed
qed

text \<open>The last line: the pending bytes, padded.\<close>

lemma EVP_EncodeFinal_refines:
  assumes ok: "encode_ctx_ok ctx"
  shows "\<exists>ctx'. EVP_EncodeFinal ctx out m =
      (ctx', int (length (last_line (pending ctx))), text_written m out (last_line (pending ctx))) \<and>
    encode_ctx_ok ctx' \<and> pending ctx' = []"
proof (cases "data_used ctx = 0")
  case True
  then have "pending ctx = []" by (simp add: pending_def)
  then show ?thesis
    using ok True by (simp add: EVP_EncodeFinal_def last_line_def text_written_def)
next
  case False
  have "length (pending ctx) < 48" "length (pending ctx) \<noteq> 0"
    using ok False length_pending [OF ok] by (simp_all add: encode_ctx_ok_def unat_eq_0)
  then have small: "length (base64 (pending ctx)) \<le> 64" and ne: "pending ctx \<noteq> []"
    by (auto simp: length_base64)
  have "unat (of_nat (length (base64 (pending ctx))) + 1 :: u64) = length (base64 (pending ctx)) + 1"
    using small unat_of_nat_addr [of "length (base64 (pending ctx)) + 1"] by (simp add: add.commute)
  then have "uint (of_nat (length (base64 (pending ctx))) + 1 :: u64) = int (length (base64 (pending ctx)) + 1)"
    unfolding uint_nat by (rule arg_cong)
  then show ?thesis
    using ok ne False
    by (simp add: EVP_EncodeFinal_def encode_line_eq last_line_def text_written_def encode_ctx_ok_def
        flip: pending_def) (simp add: pending_def)
qed

section \<open>Encoding a message given in pieces\<close>

text \<open>The way a client uses the encoder: \<open>EVP_EncodeInit\<close>, an update for each piece, whose text
  is put after what the earlier pieces gave, and \<open>EVP_EncodeFinal\<close>.\<close>

fun encode_pieces :: "evp_encode_ctx \<Rightarrow> addr \<Rightarrow> byte list list \<Rightarrow> mem \<Rightarrow> int \<times> mem" where
  "encode_pieces ctx out [] m = (case EVP_EncodeFinal ctx out m of (ctx, n, m) \<Rightarrow> (n, m))"
| "encode_pieces ctx out (src # srcs) m =
     (case EVP_EncodeUpdate ctx out src m of (ctx, n, m) \<Rightarrow>
      case encode_pieces ctx (out + of_int n) srcs m of (k, m) \<Rightarrow> (n + k, m))"

lemma encode_pieces_eq:
  assumes "encode_ctx_ok ctx" "length (full_lines (pending ctx @ concat srcs)) \<le> 0x7FFFFFFF"
  shows "encode_pieces ctx out srcs m =
     (int (length (pem_text (pending ctx @ concat srcs))), text_written m out (pem_text (pending ctx @ concat srcs)))"
  using assms
proof (induction srcs arbitrary: ctx out m)
  case Nil
  have "length (pending ctx) < 48"
    using Nil.prems(1) length_pending by (simp add: encode_ctx_ok_def)
  then show ?case
    using EVP_EncodeFinal_refines [OF Nil.prems(1), of out m] short_line [of "pending ctx"]
    by (auto simp: pem_text_def)
next
  case (Cons src srcs)
  let ?xs = "pending ctx @ src"
  have lines: "full_lines (?xs @ concat srcs) = full_lines ?xs @ full_lines (rest_line ?xs @ concat srcs)"
    by (rule full_lines_append)
  then have whole: "pem_text (?xs @ concat srcs) = full_lines ?xs @ pem_text (rest_line ?xs @ concat srcs)"
    using rest_line_append [of ?xs "concat srcs"] by (simp add: pem_text_def)
  have fits: "length (full_lines ?xs) + length (full_lines (rest_line ?xs @ concat srcs)) \<le> 0x7FFFFFFF"
    using Cons.prems(2) lines by simp
  then have "length (full_lines ?xs) \<le> 0x7FFFFFFF" by simp
  from EVP_EncodeUpdate_refines [OF Cons.prems(1) this, of out m] obtain ctx'
    where upd: "EVP_EncodeUpdate ctx out src m =
        (ctx', int (length (full_lines ?xs)), text_written m out (full_lines ?xs))"
      and ok: "encode_ctx_ok ctx'" and rest: "pending ctx' = rest_line ?xs" by blast
  have "length (full_lines (pending ctx' @ concat srcs)) \<le> 0x7FFFFFFF"
    using fits by (simp add: rest)
  from Cons.IH [OF ok this] show ?case
    using whole by (simp add: upd rest text_written_append)
qed

section \<open>The streaming decoder\<close>

text \<open>The accumulator of the loop is only added to, and blanks do not count.\<close>

lemma decode_chars_acc:
  "decode_chars ctx out src (n + k) m =
     (case decode_chars ctx out src k m of (ctx, r, m) \<Rightarrow> (ctx, map_option (\<lambda>x. n + x) r, m))"
proof (induction ctx out src k m rule: decode_chars.induct)
  case (2 ctx out c src k m)
  let ?d = "(ctx_data ctx)[unat (data_used ctx) := c]"
  show ?case
  proof (cases "\<not> is_space c \<and> \<not> eof_seen ctx \<and> data_used ctx + 1 = 4")
    case True
    then show ?thesis
      using 2(2) by (cases "base64_decode_quad (?d ! 0) (?d ! 1) (?d ! 2) (?d ! 3)") (simp_all add: Let_def add.assoc)
  next
    case False
    then show ?thesis
      using 2(1,3) by (cases "is_space c"; cases "eof_seen ctx") (simp_all add: Let_def)
  qed
qed simp

lemma decode_chars_blanks:
  "decode_chars ctx out src n m = decode_chars ctx out (filter (\<lambda>c. \<not> is_space c) src) n m"
proof (induction ctx out src n m rule: decode_chars.induct)
  case (2 ctx out c src n m)
  let ?d = "(ctx_data ctx)[unat (data_used ctx) := c]"
  show ?case
  proof (cases "\<not> is_space c \<and> \<not> eof_seen ctx \<and> data_used ctx + 1 = 4")
    case True
    then show ?thesis
      using 2(2) by (cases "base64_decode_quad (?d ! 0) (?d ! 1) (?d ! 2) (?d ! 3)") (simp_all add: Let_def)
  next
    case False
    then show ?thesis
      using 2(1,3) by (cases "is_space c"; cases "eof_seen ctx") (simp_all add: Let_def)
  qed
qed simp

text \<open>An input in two parts: the second goes on where the first stopped.\<close>

lemma decode_chars_append:
  "decode_chars ctx out (xs @ ys) n m =
     (case decode_chars ctx out xs n m of
        (ctx, None, m) \<Rightarrow> (ctx, None, m)
      | (ctx, Some k, m) \<Rightarrow> decode_chars ctx (out + (k - n)) ys k m)"
proof (induction ctx out xs n m rule: decode_chars.induct)
  case (2 ctx out c src n m)
  let ?d = "(ctx_data ctx)[unat (data_used ctx) := c]"
  show ?case
  proof (cases "\<not> is_space c \<and> \<not> eof_seen ctx \<and> data_used ctx + 1 = 4")
    case True
    then show ?thesis
      using 2(2) by (cases "base64_decode_quad (?d ! 0) (?d ! 1) (?d ! 2) (?d ! 3)")
        (simp_all add: Let_def algebra_simps split: prod.split option.split)
  next
    case False
    then show ?thesis
      using 2(1,3) by (cases "is_space c"; cases "eof_seen ctx") (simp_all add: Let_def)
  qed
qed simp

text \<open>What an update keeps of the context, and how much it gives for its input.\<close>

definition decode_ctx_ok :: "evp_encode_ctx \<Rightarrow> bool" where
  "decode_ctx_ok ctx \<longleftrightarrow>
     (error_encountered ctx \<or> unat (data_used ctx) < 4) \<and> length (ctx_data ctx) = 48"

lemma used_next:
  "unat (data_used ctx) < 4 \<Longrightarrow> unat (data_used ctx + 1) = unat (data_used ctx) + 1 \<and>
     (data_used ctx + 1 = 4 \<longleftrightarrow> unat (data_used ctx) = 3)"
  by (auto simp: unat_word_ariths word_unat_eq_iff)

lemma decode_chars_ok:
  assumes "decode_chars ctx out src n m = (ctx', r, m')" "decode_ctx_ok ctx" "\<not> error_encountered ctx"
  shows "decode_ctx_ok ctx' \<and> (r \<noteq> None \<longrightarrow> \<not> error_encountered ctx' \<and>
    (\<exists>j. r = Some (n + of_nat j) \<and> 4 * j + 3 * unat (data_used ctx') \<le> 3 * (unat (data_used ctx) + length src)))"
  using assms
proof (induction ctx out src n m rule: decode_chars.induct)
  case (1 ctx out n m)
  then show ?case by (auto intro: exI [of _ 0])
next
  case (2 ctx out c src n m)
  let ?d = "(ctx_data ctx)[unat (data_used ctx) := c]"
  have used: "unat (data_used ctx) < 4" "length (ctx_data ctx) = 48"
    using "2.prems"(2,3) by (simp_all add: decode_ctx_ok_def)
  note next_used = used_next [OF used(1)]
  consider "is_space c" | "\<not> is_space c" "eof_seen ctx"
    | "\<not> is_space c" "\<not> eof_seen ctx" "unat (data_used ctx) = 3"
    | "\<not> is_space c" "\<not> eof_seen ctx" "unat (data_used ctx) \<noteq> 3" by blast
  then show ?case
  proof cases
    case 1
    then show ?thesis using "2.IH"(1) "2.prems" by auto
  next
    case 2
    then show ?thesis using "2.prems" by (auto simp: decode_ctx_ok_def)
  next
    case 3
    then have four: "data_used ctx + 1 = 4" using next_used by blast
    show ?thesis
    proof (cases "base64_decode_quad (?d ! 0) (?d ! 1) (?d ! 2) (?d ! 3)")
      case None
      then show ?thesis using "2.prems" 3 four used by (auto simp: Let_def decode_ctx_ok_def)
    next
      case (Some bs)
      have len: "length bs \<le> 3" using decode_quad_length [OF Some] .
      let ?ctx = "if length bs < 3 then ctx\<lparr>ctx_data := ?d, data_used := 0, eof_seen := True\<rparr>
          else ctx\<lparr>ctx_data := ?d, data_used := 0\<rparr>"
      have ok: "decode_ctx_ok ?ctx" "\<not> error_encountered ?ctx" "data_used ?ctx = 0"
        using used "2.prems"(3) by (simp_all add: decode_ctx_ok_def)
      have "r = None \<or> \<not> error_encountered ctx' \<and> (\<exists>j. r = Some (n + of_nat (length bs) + of_nat j) \<and>
          4 * j + 3 * unat (data_used ctx') \<le> 3 * length src)" "decode_ctx_ok ctx'"
        using "2.IH"(2) [OF 3(1,2) refl refl _ Some refl refl refl] "2.prems"(1) ok 3 four Some by (auto simp: Let_def split: if_splits)
      then show ?thesis
        using 3(3) len by (auto intro!: exI [of _ "length bs + _"] simp: add.assoc)
    qed
  next
    case 4
    then have four: "data_used ctx + 1 \<noteq> 4" using next_used by blast
    have "decode_ctx_ok (ctx\<lparr>ctx_data := ?d, data_used := data_used ctx + 1\<rparr>)"
      using used next_used 4(3) by (simp add: decode_ctx_ok_def)
    then show ?thesis
      using "2.IH"(3) [OF 4(1,2) refl refl] "2.prems"(1,3) 4 four next_used by (auto simp: Let_def)
  qed
qed

text \<open>Reading a quad, from a context with nothing pending.\<close>

definition between_quads :: "evp_encode_ctx \<Rightarrow> bool" where
  "between_quads ctx \<longleftrightarrow> data_used ctx = 0 \<and> length (ctx_data ctx) = 48 \<and> \<not> error_encountered ctx"

lemma decode_chars_quad:
  assumes ctx: "between_quads ctx" "\<not> eof_seen ctx" and quad: "base64_decode_quad a b c d = Some bs"
    and chars: "\<not> is_space a" "\<not> is_space b" "\<not> is_space c" "\<not> is_space d"
  shows "\<exists>ctx'. decode_chars ctx out (a # b # c # d # src) n m =
      decode_chars ctx' (out + of_nat (length bs)) src (n + of_nat (length bs)) (mem_write m out bs) \<and>
    between_quads ctx' \<and> (eof_seen ctx' \<longleftrightarrow> length bs < 3)"
proof -
  have "Suc (Suc (Suc (Suc 0))) \<le> length (ctx_data ctx)"
    using ctx(1) by (simp add: between_quads_def)
  then obtain w x y z rest where "ctx_data ctx = w # x # y # z # rest"
    unfolding Suc_le_length_iff by blast
  then show ?thesis
    using assms
    by (intro exI [of _ "let ctx = ctx\<lparr>ctx_data := a # b # c # d # rest, data_used := 0\<rparr>
        in if length bs < 3 then ctx\<lparr>eof_seen := True\<rparr> else ctx"])
      (auto simp: between_quads_def Let_def)
qed

lemma text_not_space: "n < 64 \<Longrightarrow> \<not> is_space (b64_char n)" "\<not> is_space b64_pad"
proof -
  have "list_all (\<lambda>c. \<not> is_space c) b64_alphabet"
    by (simp add: b64_alphabet_def is_space_def)
  then show "n < 64 \<Longrightarrow> \<not> is_space (b64_char n)"
    by (simp add: b64_char_def list_all_length length_alphabet)
qed (simp add: is_space_def b64_pad_def)

lemma decode_chars_base64:
  assumes "between_quads ctx" "\<not> eof_seen ctx"
  shows "\<exists>ctx'. decode_chars ctx out (base64 bs) n m = (ctx', Some (n + of_nat (length bs)), mem_write m out bs) \<and>
    between_quads ctx' \<and> (eof_seen ctx' \<longleftrightarrow> length bs mod 3 \<noteq> 0)"
  using assms
proof (induction bs arbitrary: ctx out n m rule: base64.induct)
  case (1 a b c src)
  from decode_chars_quad [OF "1.prems" decode_quad_encoded(1) text_not_space(1) text_not_space(1)
      text_not_space(1) text_not_space(1), of a b c out "base64 src" n m]
  obtain ctx' where ctx': "decode_chars ctx out (base64 (a # b # c # src)) n m =
      decode_chars ctx' (out + 3) (base64 src) (n + 3) (mem_write m out [a, b, c])"
    "between_quads ctx'" "\<not> eof_seen ctx'"
    using sextet_bounds by (auto simp del: decode_chars.simps mem_write.simps)
  from "1.IH" [OF ctx'(2,3), of "out + 3" "n + 3" "mem_write m out [a, b, c]"] show ?case
    unfolding ctx'(1) by (simp add: add.assoc del: decode_chars.simps fun_upd_apply)
next
  case (2 a b)
  from decode_chars_quad [OF "2.prems" decode_quad_encoded(2) text_not_space(1) text_not_space(1)
      text_not_space(1) text_not_space(2), of a b out "[]" n m]
  show ?case using sextet_bounds sextet_bounds(3) [of b 0] by (auto simp del: decode_chars.simps(2) fun_upd_apply)
next
  case (3 a)
  from decode_chars_quad [OF "3.prems" decode_quad_encoded(3) text_not_space(1) text_not_space(1)
      text_not_space(2) text_not_space(2), of a out "[]" n m]
  show ?case using sextet_bounds sextet_bounds(2) [of a 0] by (auto simp del: decode_chars.simps(2) fun_upd_apply)
qed simp

text \<open>Without its newlines, the text of the streaming encoder is the base64 text.\<close>

lemma base64_no_spaces: "filter (\<lambda>c. \<not> is_space c) (base64 bs) = base64 bs"
proof (induction bs rule: base64.induct)
  case (1 a b c src)
  then show ?case using sextet_bounds by (simp add: text_not_space)
next
  case (2 a b)
  then show ?case using sextet_bounds sextet_bounds(3) [of b 0] by (simp add: text_not_space)
next
  case (3 a)
  then show ?case using sextet_bounds sextet_bounds(2) [of a 0] by (simp add: text_not_space)
qed simp

lemma base64_append: "length xs mod 3 = 0 \<Longrightarrow> base64 (xs @ ys) = base64 xs @ base64 ys"
  by (induction xs rule: base64.induct) simp_all

lemma full_lines_base64: "filter (\<lambda>c. \<not> is_space c) (full_lines xs) @ base64 (rest_line xs) = base64 xs"
proof (induction xs rule: full_lines.induct)
  case (1 xs)
  show ?case
  proof (cases "48 \<le> length xs")
    case True
    then have "rest_line xs = rest_line (drop 48 xs)"
      by (simp add: rest_line_def le_div_geq add.commute)
    moreover have "base64 xs = base64 (take 48 xs) @ base64 (drop 48 xs)"
      using True base64_append [of "take 48 xs" "drop 48 xs"] by simp
    moreover have "full_lines xs = base64 (take 48 xs) @ [0x0A] @ full_lines (drop 48 xs)"
      using True by (subst full_lines.simps) simp
    moreover have "is_space 0x0A" by (simp add: is_space_def)
    ultimately show ?thesis
      using 1 [OF True] by (simp add: base64_no_spaces)
  qed (simp add: short_line)
qed

lemma pem_text_base64: "filter (\<lambda>c. \<not> is_space c) (pem_text xs) = base64 xs"
proof -
  have "is_space 0x0A" by (simp add: is_space_def)
  then have "filter (\<lambda>c. \<not> is_space c) (last_line ys) = base64 ys" for ys
    by (simp add: last_line_def base64_no_spaces)
  then show ?thesis
    using full_lines_base64 [of xs] by (simp add: pem_text_def)
qed

section \<open>Decoding a text given in pieces\<close>

text \<open>The way a client uses the decoder: an update for each piece until one fails, the bytes put
  one after the other, and \<open>EVP_DecodeFinal\<close>.\<close>

fun decode_pieces :: "evp_encode_ctx \<Rightarrow> addr \<Rightarrow> byte list list \<Rightarrow> mem \<Rightarrow> int option \<times> mem" where
  "decode_pieces ctx out [] m = (if fst (EVP_DecodeFinal ctx) = 1 then Some 0 else None, m)"
| "decode_pieces ctx out (src # srcs) m =
     (case EVP_DecodeUpdate ctx out src m of (ctx, r, n, m) \<Rightarrow>
        if r < 0 then (None, m)
        else case decode_pieces ctx (out + of_int n) srcs m of (k, m) \<Rightarrow> (map_option ((+) n) k, m))"

lemma EVP_DecodeUpdate_eq:
  assumes ctx: "decode_ctx_ok ctx" "\<not> error_encountered ctx" and fits: "length src \<le> 0x7FFFFFFC"
  shows "EVP_DecodeUpdate ctx out src m =
     (case decode_chars ctx out src 0 m of
        (ctx, None, m) \<Rightarrow> (ctx, - 1, 0, m)
      | (ctx, Some n, m) \<Rightarrow> (ctx, if eof_seen ctx then 0 else 1, uint n, m))"
proof -
  have "\<not> int_max < n" if "decode_chars ctx out src 0 m = (ctx', Some n, m')" for ctx' n m'
  proof -
    from decode_chars_ok [OF that ctx] obtain j where
      n: "n = of_nat j" and j: "4 * j \<le> 3 * (unat (data_used ctx) + length src)" by auto
    have "j \<le> 0x7FFFFFFF" using j fits ctx by (simp add: decode_ctx_ok_def)
    then have "unat n \<le> unat int_max" by (simp add: n int_max_def unat_of_nat_addr)
    then show ?thesis by (simp add: word_less_nat_alt)
  qed
  then show ?thesis
    using ctx(2) by (auto simp: EVP_DecodeUpdate_def split: prod.splits option.splits)
qed

lemma decode_pieces_eq:
  assumes "decode_ctx_ok ctx" "\<not> error_encountered ctx" "length (concat srcs) \<le> 0x7FFFFFFC"
    "decode_chars ctx out (concat srcs) 0 m = (ctx', Some (of_nat n), m')" "data_used ctx' = 0" "n \<le> 0x7FFFFFFF"
  shows "decode_pieces ctx out srcs m = (Some (int n), m')"
  using assms
proof (induction srcs arbitrary: ctx out m n)
  case Nil
  then have "of_nat n = (0 :: u64)" by simp
  then have "n = 0" using Nil.prems(6) unat_of_nat_addr [of n] by simp
  then show ?case using Nil.prems by (auto simp: EVP_DecodeFinal_def)
next
  case (Cons src srcs)
  obtain ctx1 r m1 where first: "decode_chars ctx out src 0 m = (ctx1, r, m1)" by (metis prod_cases3)
  with Cons.prems(4) obtain k where r: "r = Some k"
    by (cases r) (auto simp: decode_chars_append)
  from decode_chars_ok [OF first Cons.prems(1,2)] r obtain j where
    ok: "decode_ctx_ok ctx1" "\<not> error_encountered ctx1" and j: "k = of_nat j"
      and bound: "4 * j \<le> 3 * (unat (data_used ctx) + length src)" by auto
  obtain c r' m2 where rest: "decode_chars ctx1 (out + of_nat j) (concat srcs) 0 m1 = (c, r', m2)"
    by (metis prod_cases3)
  have run: "decode_chars ctx1 (out + of_nat j) (concat srcs) (of_nat j + 0) m1 = (ctx', Some (of_nat n), m')"
    using Cons.prems(4) by (simp add: decode_chars_append first r j)
  then have c: "c = ctx'" "m2 = m'" and r': "map_option (\<lambda>x. of_nat j + x) r' = Some (of_nat n)"
    unfolding decode_chars_acc rest by simp_all
  from decode_chars_ok [OF rest ok] r' obtain i where
    i: "r' = Some (of_nat i)" "4 * i \<le> 3 * (unat (data_used ctx1) + length (concat srcs))" by auto
  have "unat (data_used ctx) < 4" "unat (data_used ctx1) < 4"
    using Cons.prems(1,2) ok by (simp_all add: decode_ctx_ok_def)
  then have "i < 2 ^ 62" "j < 2 ^ 62" using i(2) bound Cons.prems(3) by simp_all
  moreover have "(of_nat (j + i) :: addr) = of_nat n" using r' i(1) by simp
  ultimately have n: "n = j + i" using Cons.prems(6) of_nat_addr_inject [of "j + i" n] by simp
  have "decode_pieces ctx1 (out + of_nat j) srcs m1 = (Some (int i), m')"
    by (rule Cons.IH [OF ok]) (use Cons.prems(3,5,6) rest c i(1) n in simp_all)
  moreover have "uint (of_nat j :: addr) = int j"
    using \<open>j < 2 ^ 62\<close> by (simp add: uint_nat unat_of_nat_addr)
  moreover have "length src \<le> 0x7FFFFFFC" using Cons.prems(3) by simp
  ultimately show ?case
    using n j by (simp add: EVP_DecodeUpdate_eq [OF Cons.prems(1,2)] first r)
qed

lemma decode_init: "decode_ctx_ok EVP_DecodeInit" "\<not> error_encountered EVP_DecodeInit"
    "between_quads EVP_DecodeInit" "\<not> eof_seen EVP_DecodeInit"
  by (simp_all add: decode_ctx_ok_def between_quads_def EVP_DecodeInit_def)

lemma decode_pieces_base64:
  assumes "filter (\<lambda>c. \<not> is_space c) (concat srcs) = base64 bs" "length (concat srcs) \<le> 0x7FFFFFFC"
  shows "decode_pieces EVP_DecodeInit out srcs m = (Some (int (length bs)), mem_write m out bs)"
proof -
  from decode_chars_base64 [OF decode_init(3,4), of out bs 0 m] obtain ctx' where
    "decode_chars EVP_DecodeInit out (concat srcs) 0 m = (ctx', Some (of_nat (length bs)), mem_write m out bs)"
    "data_used ctx' = 0"
    unfolding decode_chars_blanks [of _ _ "concat srcs"] assms(1) between_quads_def by auto
  moreover have "length (base64 bs) \<le> length (concat srcs)"
    unfolding assms(1) [symmetric] by (rule length_filter_le)
  then have "length bs \<le> 0x7FFFFFFF"
    using assms(2) by (simp add: length_base64)
  ultimately show ?thesis
    using assms(2) by (intro decode_pieces_eq decode_init)
qed

section \<open>Decoding a block\<close>

lemma EVP_DecodedLength_base64:
  assumes "length bs < 2 ^ 61"
  shows "EVP_DecodedLength (of_nat (length (base64 bs))) = Some (of_nat (3 * ((length bs + 2) div 3)))"
proof -
  define q where "q = (length bs + 2) div 3"
  have "unat (of_nat (4 * q) :: u64) = 4 * q"
    using assms by (intro unat_of_nat_addr) (simp add: q_def)
  then have "(of_nat (4 * q) :: u64) mod 4 = 0" "unat ((of_nat (4 * q) :: u64) div 4) = q"
    by (simp_all only: word_unat_eq_iff unat_mod unat_div) simp_all
  moreover from this(2) have "(of_nat (4 * q) :: u64) div 4 = of_nat q"
    using unat_of_nat_addr [of q] assms by (simp add: word_unat_eq_iff q_def)
  ultimately show ?thesis
    by (simp only: EVP_DecodedLength_def length_base64 flip: q_def) (simp add: mult.commute)
qed

lemma decode_base64:
  assumes "length bs < 2 ^ 61" "of_nat (3 * ((length bs + 2) div 3)) \<le> max_out"
  shows "EVP_DecodeBase64 out max_out (base64 bs) m = (True, of_nat (length bs), mem_write m out bs)"
proof -
  have "EVP_DecodedLength (of_nat (length (base64 bs))) \<noteq> None"
    using EVP_DecodedLength_base64 [OF assms(1)] by simp
  then have "of_nat (length (base64 bs)) mod 4 = (0 :: u64)"
    by (simp add: EVP_DecodedLength_def split: if_splits)
  then show ?thesis
    using assms by (simp add: EVP_DecodeBase64_def Let_def EVP_DecodedLength_base64 decode_loop_base64 not_less [symmetric])
qed

lemma fill_zeros_eq:
  assumes "k < 2 ^ 61"
  shows "fill_zeros dst (of_nat k) m =
    (of_nat (3 * ((k + 2) div 3)), mem_write m (dst + of_nat k) (replicate (3 * ((k + 2) div 3) - k) 0))"
proof -
  have third: "(of_nat j :: u64) mod 3 = 0 \<longleftrightarrow> j mod 3 = 0" if "j < 2 ^ 62" for j
  proof -
    have "unat (of_nat j :: u64) = j" using that by (intro unat_of_nat_addr) simp
    then have "unat ((of_nat j :: u64) mod 3) = j mod 3" by (simp only: unat_mod) simp
    then show ?thesis by (metis unat_eq_0)
  qed
  have k: "(of_nat k :: u64) mod 3 = 0 \<longleftrightarrow> k mod 3 = 0"
    "(of_nat (k + 1) :: u64) mod 3 = 0 \<longleftrightarrow> (k + 1) mod 3 = 0"
    "(of_nat (k + 2) :: u64) mod 3 = 0 \<longleftrightarrow> (k + 2) mod 3 = 0"
    by (rule third, use assms in simp)+
  have "k mod 3 = 0 \<and> 3 * ((k + 2) div 3) = k \<or> k mod 3 = 1 \<and> 3 * ((k + 2) div 3) = k + 2 \<or>
    k mod 3 = 2 \<and> 3 * ((k + 2) div 3) = k + 1" by presburger
  then consider "k mod 3 = 0" "3 * ((k + 2) div 3) = k" | "k mod 3 = 1" "3 * ((k + 2) div 3) = k + 2"
    | "k mod 3 = 2" "3 * ((k + 2) div 3) = k + 1" by metis
  then show ?thesis
  proof cases
    case 1
    then show ?thesis using k(1) by (simp add: fill_zeros.simps)
  next
    case 2
    then have "(k + 1) mod 3 = 2" "(k + 2) mod 3 = 0" by presburger+
    then show ?thesis
      using 2 k
      by (simp add: fill_zeros.simps [of _ "of_nat k"] fill_zeros.simps [of _ "1 + of_nat k"]
          fill_zeros.simps [of _ "of_nat k + 2"] store8_def numeral_2_eq_2 algebra_simps)
  next
    case 3
    then have "(k + 1) mod 3 = 0" by presburger
    then show ?thesis
      using 3 k
      by (simp add: fill_zeros.simps [of _ "of_nat k"] fill_zeros.simps [of _ "1 + of_nat k"] store8_def
          algebra_simps)
  qed
qed

lemma trim_text_eq:
  assumes "set pre \<subseteq> {0x20, 9}" "\<forall>c \<in> set post. is_space c"
    and chars: "\<forall>c \<in> set txt. \<not> is_space c"
  shows "trim_text (pre @ txt @ post) = txt"
proof -
  let ?blank = "\<lambda>c :: byte. c = 0x20 \<or> c = 9"
  have blank: "dropWhile ?blank (pre @ txt @ post) = dropWhile ?blank (txt @ post)"
    using assms(1) by (intro dropWhile_append2) auto
  have sp: "is_space 0x20" "is_space 9" by (simp_all add: is_space_def)
  have strip: "dropWhile is_space (rev zs) = []" if "\<forall>c \<in> set zs. is_space c" for zs
    using that by simp
  show ?thesis
  proof (cases "txt")
    case Nil
    have "\<forall>c \<in> set (dropWhile ?blank post). is_space c"
      using assms(2) set_dropWhileD by metis
    then show ?thesis using blank by (simp add: Nil trim_text_def strip)
  next
    case (Cons c cs)
    then have "dropWhile ?blank (txt @ post) = txt @ post" using chars sp by auto
    moreover have "dropWhile is_space (rev post @ rev txt) = dropWhile is_space (rev txt)"
      using assms(2) by (intro dropWhile_append2) auto
    moreover have "dropWhile is_space (rev txt) = rev txt"
      using chars by (cases "rev txt") (auto simp: rev_swap)
    ultimately show ?thesis by (simp add: trim_text_def blank [simplified])
  qed
qed

lemma EVP_DecodeBlock_base64:
  assumes "set pre \<subseteq> {0x20, 9}" "\<forall>c \<in> set post. is_space c" "length bs \<le> 0x7FFFFFFE"
  shows "EVP_DecodeBlock dst (pre @ base64 bs @ post) m =
    (int (3 * ((length bs + 2) div 3)), mem_write m dst (bs @ replicate (3 * ((length bs + 2) div 3) - length bs) 0))"
proof -
  define q where "q = 3 * ((length bs + 2) div 3)"
  have "q \<le> length bs + 2" "q \<noteq> 0x80000000" unfolding q_def by presburger+
  then have "q \<le> 0x7FFFFFFF" using assms(3) by linarith
  moreover from this have "unat (of_nat q :: u64) = q" by (intro unat_of_nat_addr) simp
  ultimately have q: "q \<le> 0x7FFFFFFF" "unat (of_nat q :: u64) = q" "unat int_max = 0x7FFFFFFF"
    by (simp_all add: int_max_def)
  have chars: "\<forall>c \<in> set (base64 bs). \<not> is_space c"
    using base64_no_spaces [of bs] by (metis filter_id_conv)
  have len: "EVP_DecodedLength (of_nat (length (base64 bs))) = Some (of_nat q)"
    using EVP_DecodedLength_base64 [of bs] assms(3) by (simp add: q_def)
  have max: "\<not> int_max < of_nat q" unfolding word_less_nat_alt q(2,3) using q(1) by simp
  have dec: "EVP_DecodeBase64 dst (of_nat q) (base64 bs) m = (True, of_nat (length bs), mem_write m dst bs)"
    using assms(3) by (intro decode_base64) (simp_all add: q_def)
  have fill: "fill_zeros dst (of_nat (length bs)) (mem_write m dst bs) =
      (of_nat q, mem_write m dst (bs @ replicate (q - length bs) 0))"
    using assms(3) fill_zeros_eq [of "length bs" dst] by (simp add: q_def mem_write_append)
  have "uint (of_nat q :: u64) = int q" unfolding uint_nat q(2) by simp
  then show ?thesis
    unfolding EVP_DecodeBlock_def trim_text_eq [OF assms(1,2) chars] Let_def len q_def [symmetric]
    by (simp add: max dec fill)
qed

end
