(* ===== verification/Base64_Spec.thy ===== *)
theory Base64_Spec
  imports Base64_Stream
begin

unbundle bit_operations_syntax

text \<open>
  What \<open>crypto/base64/base64.c\<close> promises, over the model of \<open>Base64\<close> and \<open>Base64_Stream\<close>: the
  constant-time alphabet, the block encoder and decoder, their bounds, and the streaming
  encoder and decoder on inputs cut into pieces.
\<close>

section \<open>The alphabet\<close>

text \<open>The branch-free conversions are the table of RFC 4648: \<open>conv_bin2ascii\<close> gives the character
  of the low six bits, \<open>base64_ascii_to_bin\<close> reads it back, and rejects every other character
  but the padding one.\<close>

theorem constant_time_alphabet:
  "conv_bin2ascii x = b64_alphabet ! (unat x mod 64) \<and>
   base64_ascii_to_bin (conv_bin2ascii x) = x AND 0x3F \<and>
   (base64_ascii_to_bin c = 0xFF \<longleftrightarrow> c \<notin> set b64_alphabet \<union> {b64_pad})"
proof -
  have "of_nat (unat x mod 64) = x AND 0x3F"
    using and_63 [of x] by (metis of_nat_unat ucast_id)
  moreover have "base64_ascii_to_bin b64_pad \<noteq> 0xFF" by (simp add: b64_pad_def bin_pad)
  moreover have "base64_ascii_to_bin (b64_char (unat x mod 64)) = of_nat (unat x mod 64)"
    by (rule ascii_of_char) simp
  ultimately show ?thesis
    using alphabet_iff [of c] unfolding conv_char by (auto simp: b64_char_def)
qed

section \<open>Blocks\<close>

text \<open>\<open>EVP_EncodeBlock\<close> writes the base64 text of its input and a terminator, and returns the
  length of the text.\<close>

theorem EVP_EncodeBlock_writes:
  "EVP_EncodeBlock dst src m = (mem_write m dst (base64 src @ [0]), of_nat (length (base64 src)))"
  by (rule EVP_EncodeBlock_eq)

text \<open>\<open>EVP_EncodedLength\<close> is exactly the room \<open>EVP_EncodeBlock\<close> needs, and fails exactly where
  that does not fit in a \<open>size_t\<close>.\<close>

theorem EVP_EncodedLength_exact:
  "length src < 2 ^ 64 \<Longrightarrow> EVP_EncodedLength (of_nat (length src)) =
     (if length (base64 src @ [0]) < 2 ^ 64 then Some (of_nat (length (base64 src @ [0]))) else None)"
  by (simp add: EVP_EncodedLength_eq length_base64 unat_of_nat_addr Let_def)

theorem EVP_EncodedLength_exact_witness:
  "EVP_EncodedLength 4 = Some 9"
  using EVP_EncodedLength_exact [of "[1, 2, 3, 4]"] by simp

text \<open>\<open>EVP_DecodeBase64\<close> gives back the bytes of every base64 text, given the room that
  \<open>EVP_DecodedLength\<close> asks for.\<close>

theorem EVP_DecodeBase64_roundtrip:
  assumes "length bs < 2 ^ 61" "of_nat (3 * ((length bs + 2) div 3)) \<le> max_out"
  shows "EVP_DecodeBase64 out max_out (base64 bs) m = (True, of_nat (length bs), mem_write m out bs)"
  using assms by (rule decode_base64)

theorem EVP_DecodeBase64_roundtrip_witness:
  "EVP_DecodeBase64 0x1000 6 (base64 [1, 2, 3, 4]) (\<lambda>_. 0) =
     (True, 4, mem_write (\<lambda>_. 0) 0x1000 [1, 2, 3, 4])"
  using EVP_DecodeBase64_roundtrip [of "[1, 2, 3, 4]" 6 "0x1000" "\<lambda>_. 0"] by simp

lemma in_len_mod_4:
  assumes "length src < 2 ^ 64"
  shows "(of_nat (length src) :: u64) mod 4 = 0 \<longleftrightarrow> length src mod 4 = 0"
proof -
  have "unat (of_nat (length src) mod (4 :: u64)) = length src mod 4"
    using unat_of_nat_addr [OF assms] by (simp only: unat_mod) simp
  then show ?thesis by (metis unat_eq_0)
qed

lemma b64_text_length: "b64_text src \<Longrightarrow> length src mod 4 = 0"
  by (induction src rule: b64_text.induct) auto

lemma EVP_DecodeBase64_iff:
  assumes "length src < 2 ^ 64" "3 * (of_nat (length src) div 4) \<le> max_out"
  shows "fst (EVP_DecodeBase64 out max_out src m) \<longleftrightarrow> b64_text src"
proof (cases "length src mod 4 = 0")
  case True
  then show ?thesis
    using assms decode_loop_iff [OF True, of out 0 m]
    by (auto simp: EVP_DecodeBase64_def EVP_DecodedLength_def Let_def in_len_mod_4 mult.commute not_less [symmetric]
        split: prod.splits option.splits)
qed (use assms(1) b64_text_length in \<open>auto simp: EVP_DecodeBase64_def in_len_mod_4\<close>)

text \<open>C12. \<open>EVP_DecodeBase64\<close> accepts exactly the well-formed texts: quads of the alphabet, with one or
  two padding characters at the very end only.\<close>

theorem EVP_DecodeBase64_accepts:
  assumes "length src < 2 ^ 64" "3 * (of_nat (length src) div 4) \<le> max_out"
  shows "fst (EVP_DecodeBase64 out max_out src m) \<longleftrightarrow> b64_text src"
  using assms by (rule EVP_DecodeBase64_iff)

theorem EVP_DecodeBase64_accepts_witness:
  "\<not> fst (EVP_DecodeBase64 0x1000 3 [0x41, 0x3D, 0x42, 0x43] (\<lambda>_. 0))"
  using EVP_DecodeBase64_accepts [of "[0x41, 0x3D, 0x42, 0x43]" 3 "0x1000" "\<lambda>_. 0"]
  by (simp add: b64_alphabet_def)

text \<open>What a text stands for: three bytes for every quad, without the last one or two where it ends in pads.\<close>

fun b64_bytes :: "byte list \<Rightarrow> byte list" where
  "b64_bytes (a # b # c # d # rest) =
     take (if c = b64_pad then 1 else if d = b64_pad then 2 else 3)
       (quad_bytes (unat (base64_ascii_to_bin a)) (unat (base64_ascii_to_bin b))
          (unat (base64_ascii_to_bin c)) (unat (base64_ascii_to_bin d))) @ b64_bytes rest"
| "b64_bytes _ = []"

lemma pad_not_alphabet: "b64_pad \<notin> set b64_alphabet"
  by (simp add: alphabet_iff)

lemma decode_quad_bytes:
  "base64_decode_quad a b c d = Some bs \<Longrightarrow> b64_bytes (a # b # c # d # rest) = bs @ b64_bytes rest"
  using pad_not_alphabet by (auto simp: decode_quad_eq Let_def split: if_splits)

lemma decode_loop_bytes:
  "decode_loop src out n m = (Some k, m') \<Longrightarrow> k = n + of_nat (length (b64_bytes src)) \<and> m' = mem_write m out (b64_bytes src)"
proof (induction src out n m rule: decode_loop.induct)
  case (1 in0 in1 in2 in3 rest out n m)
  then obtain bs where bs: "base64_decode_quad in0 in1 in2 in3 = Some bs" by (auto split: option.splits)
  with "1.prems" have go: "\<not> (length bs \<noteq> 3 \<and> rest \<noteq> [])"
    and "decode_loop rest (out + of_nat (length bs)) (n + of_nat (length bs)) (mem_write m out bs) = (Some k, m')"
    by (auto simp: Let_def split: if_splits)
  from "1.IH" [OF bs refl refl go this(2)] show ?case
    unfolding decode_quad_bytes [OF bs] by (simp add: mem_write_append add.assoc)
qed auto

lemma b64_bytes_length:
  "b64_text src \<Longrightarrow> length (b64_bytes src) + count_list src b64_pad = 3 * (length src div 4)"
proof (induction src rule: b64_text.induct)
  case (2 a b c d rest)
  then have ab: "a \<noteq> b64_pad" "b \<noteq> b64_pad" using pad_not_alphabet by auto
  from 2 consider "c \<noteq> b64_pad" "d \<noteq> b64_pad" "b64_text rest" | "c \<noteq> b64_pad" "d = b64_pad" "rest = []"
    | "c = b64_pad" "d = b64_pad" "rest = []"
    using pad_not_alphabet by auto
  then show ?case
  proof cases
    case 1
    then show ?thesis using ab "2.IH" div_add_self1 [of 4 "length rest"] by (simp add: quad_bytes_def)
  qed (use ab in \<open>simp_all add: quad_bytes_def\<close>)
qed simp_all

text \<open>C13. \<open>EVP_DecodeBase64\<close> never writes past \<open>out[max_out]\<close>, whether it succeeds or not. Where it succeeds it
  writes the bytes that the text stands for, whatever the room and the memory before, and reports their
  number: three for every four characters, less the number of pads.\<close>

theorem EVP_DecodeBase64_bounds:
  assumes "length src < 2 ^ 64" "EVP_DecodeBase64 out max_out src m = (ok, n, m')"
  shows "\<exists>bs. m' = mem_write m out bs \<and> length bs \<le> unat max_out \<and>
    (if ok then bs = b64_bytes src \<and> unat n = length bs \<and> unat n = 3 * (length src div 4) - count_list src b64_pad
     else n = 0)"
proof -
  have len: "unat (of_nat (length src) div 4 * 3 :: u64) = 3 * (length src div 4)"
    using assms(1) unat_of_nat_addr [OF assms(1)]
    by (simp add: unat_word_ariths unat_div)
  obtain r m1 where loop: "decode_loop src out 0 m = (r, m1)" by (metis surj_pair)
  from decode_loop_writes [OF loop] obtain bs where
    bs: "m1 = mem_write m out bs" "length bs \<le> 3 * (length src div 4)" by auto
  show ?thesis
  proof (cases "length src mod 4 = 0 \<and> \<not> max_out < of_nat (length src) div 4 * 3")
    case True
    then have room: "3 * (length src div 4) \<le> unat max_out" using len by (auto simp: word_less_nat_alt)
    have code: "EVP_DecodeBase64 out max_out src m = (case r of None \<Rightarrow> (False, 0, m1) | Some k \<Rightarrow> (True, k, m1))"
      using True loop by (auto simp: EVP_DecodeBase64_def EVP_DecodedLength_def Let_def in_len_mod_4 [OF assms(1)] split: option.splits)
    show ?thesis
    proof (cases r)
      case None
      then show ?thesis using assms(2) code bs room by (intro exI [of _ bs]) auto
    next
      case (Some k)
      have "b64_text src" using decode_loop_iff [of src out 0 m] True loop Some by simp
      note length = b64_bytes_length [OF this]
      then have small: "length (b64_bytes src) < 2 ^ 64" using assms(1) by linarith
      have "k = of_nat (length (b64_bytes src))" and wrote: "m1 = mem_write m out (b64_bytes src)"
        using decode_loop_bytes [OF loop [unfolded Some]] by simp_all
      moreover have "n = k" "ok" "m' = m1" using assms(2) code Some by simp_all
      ultimately have "unat n = length (b64_bytes src)" using unat_of_nat_addr [OF small] by simp
      with length \<open>ok\<close> \<open>m' = m1\<close> wrote room show ?thesis by (intro exI [of _ "b64_bytes src"]) simp
    qed
  next
    case False
    then have "m' = m" "\<not> ok" "n = 0"
      using assms(2)
      by (auto simp: EVP_DecodeBase64_def EVP_DecodedLength_def Let_def in_len_mod_4 [OF assms(1)] split: if_splits)
    then show ?thesis by (intro exI [of _ "[]"]) simp
  qed
qed

theorem EVP_DecodeBase64_bounds_witness:
  "EVP_DecodeBase64 0x1000 6 [0x51, 0x55, 0x49, 0x3D] (\<lambda>_. 0) = (True, 2, mem_write (\<lambda>_. 0) 0x1000 [0x41, 0x42])"
proof -
  obtain ok n m' where r: "EVP_DecodeBase64 0x1000 6 [0x51, 0x55, 0x49, 0x3D] (\<lambda>_. 0) = (ok, n, m')"
    by (metis prod_cases3)
  have ok
    using EVP_DecodeBase64_iff [of "[0x51, 0x55, 0x49, 0x3D]" 6 "0x1000" "\<lambda>_. 0"] r by (simp add: b64_alphabet_def b64_pad_def)
  moreover have "b64_bytes [0x51, 0x55, 0x49, 0x3D] = [0x41, 0x42]"
    by (simp add: b64_pad_def quad_bytes_def ascii_to_bin_eq)
  ultimately have "m' = mem_write (\<lambda>_. 0) 0x1000 [0x41, 0x42] \<and> unat n = 2"
    using EVP_DecodeBase64_bounds [OF _ r] by (auto simp: b64_pad_def)
  with \<open>ok\<close> show ?thesis unfolding r by (simp add: word_unat_eq_iff)
qed

text \<open>\<open>EVP_DecodeBlock\<close> skips blanks before the text and whitespace after it, and fills the decoded
  bytes up with zeros to a multiple of three, whose number it returns.\<close>

theorem EVP_DecodeBlock_decodes:
  assumes "set pre \<subseteq> {0x20, 9}" "\<forall>c \<in> set post. is_space c" "length bs \<le> 0x7FFFFFFE"
  shows "EVP_DecodeBlock dst (pre @ base64 bs @ post) m =
    (int (3 * ((length bs + 2) div 3)), mem_write m dst (bs @ replicate (3 * ((length bs + 2) div 3) - length bs) 0))"
  using assms by (rule EVP_DecodeBlock_base64)

theorem EVP_DecodeBlock_decodes_witness:
  "EVP_DecodeBlock 0x1000 ([0x20] @ base64 [1, 2, 3, 4] @ [0x0A]) (\<lambda>_. 0) =
     (6, mem_write (\<lambda>_. 0) 0x1000 [1, 2, 3, 4, 0, 0])"
  using EVP_DecodeBlock_decodes [of "[0x20]" "[0x0A]" "[1, 2, 3, 4]" "0x1000" "\<lambda>_. 0"]
  by (simp add: is_space_def numeral_2_eq_2)

section \<open>Streams\<close>

text \<open>C11. Whatever the pieces the input of the streaming encoder comes in, the text written is the one
  of the whole message, lines of 64 characters, and the lengths returned add up to its length:
  the context implements the list of the bytes that wait for their line.\<close>

theorem streaming_encoder_refines:
  assumes "length (full_lines (concat srcs)) \<le> 0x7FFFFFFF"
  shows "encode_pieces EVP_EncodeInit out srcs m =
    (int (length (pem_text (concat srcs))), text_written m out (pem_text (concat srcs)))"
  using encode_pieces_eq [of EVP_EncodeInit srcs out m] assms by (simp add: ok_init)

theorem streaming_encoder_refines_witness:
  "encode_pieces EVP_EncodeInit 0x1000 [[1, 2], [], [3, 4]] (\<lambda>_. 0) =
     (9, mem_write (\<lambda>_. 0) 0x1000 (base64 [1, 2, 3, 4] @ [0x0A, 0]))"
  using streaming_encoder_refines [of "[[1, 2], [], [3, 4]]" "0x1000" "\<lambda>_. 0"]
  by (simp add: short_line pem_text_def last_line_def text_written_def)

text \<open>C10. The text of the streaming encoder, cut into pieces in any way, is decoded back to the message
  by the streaming decoder.\<close>

theorem streaming_roundtrip:
  assumes "concat srcs = pem_text bs" "length (pem_text bs) \<le> 0x7FFFFFFC"
  shows "decode_pieces EVP_DecodeInit out srcs m = (Some (int (length bs)), mem_write m out bs)"
  by (rule decode_pieces_base64) (simp_all add: assms pem_text_base64)

theorem streaming_roundtrip_witness:
  "decode_pieces EVP_DecodeInit 0x1000 (map (\<lambda>c. [c]) (pem_text [1, 2, 3, 4])) (\<lambda>_. 0) =
     (Some 4, mem_write (\<lambda>_. 0) 0x1000 [1, 2, 3, 4])"
proof -
  have "concat (map (\<lambda>c. [c]) xs) = xs" for xs :: "byte list" by simp
  moreover have "length (pem_text [1, 2, 3, 4]) = 9"
    by (simp add: short_line pem_text_def last_line_def)
  ultimately show ?thesis
    using streaming_roundtrip [of "map (\<lambda>c. [c]) (pem_text [1, 2, 3, 4])" "[1, 2, 3, 4]" "0x1000" "\<lambda>_. 0"]
    by simp
qed

section \<open>The contexts stay well formed\<close>

lemma encode_lines_rest:
  "encode_lines out src tot m = (Some (rest, tot'), m') \<Longrightarrow> length rest < 48"
proof (induction out src tot m rule: encode_lines.induct)
  case (1 out src tot m)
  then show ?case
    by (subst (asm) (2) encode_lines.simps) (auto simp: encode_line_eq split: if_splits)
qed

lemma EncodeUpdate_ok:
  assumes "encode_ctx_ok ctx"
  shows "encode_ctx_ok (fst (EVP_EncodeUpdate ctx out src m))"
proof -
  define used where "used = unat (data_used ctx)"
  have used: "used < 48" "length (ctx_data ctx) = 48" using assms by (simp_all add: encode_ctx_ok_def used_def)
  have tail: "encode_ctx_ok (fst (case encode_lines out src tot m of
               (None, m) \<Rightarrow> (ctx, 0, m)
             | (Some (rest, tot), m) \<Rightarrow>
                 let ctx = (if rest \<noteq> [] then ctx\<lparr>ctx_data := copy_at 0 rest (ctx_data ctx)\<rparr> else ctx);
                     ctx = ctx\<lparr>data_used := of_nat (length rest)\<rparr>;
                     tot = (if int_max < tot then 0 else tot)
                 in (ctx, uint tot, m)))" if "encode_ctx_ok ctx" for ctx out src tot m
    using that keep_rest [where ctx = ctx] encode_lines_rest
    by (auto simp: Let_def encode_ctx_ok_def [of ctx] split: option.splits prod.splits)
  show ?thesis
  proof (cases "src = [] \<or> length src < 48 - used")
    case True
    have "unat (data_used ctx + of_nat (length src)) = used + length src" if "length src < 48 - used"
      using that used by (simp add: unat_word_ariths used_def unat_of_nat32)
    then show ?thesis
      using True used assms
      by (auto simp: EVP_EncodeUpdate_def encode_ctx_ok_def copy_at_def simp flip: used_def)
  next
    case False
    define d where "d = copy_at used (take (48 - used) src) (ctx_data ctx)"
    have "encode_ctx_ok (ctx\<lparr>ctx_data := d, data_used := 0\<rparr>)"
      using False used by (simp add: encode_ctx_ok_def d_def copy_at_def)
    with False assms show ?thesis
      by (auto simp: EVP_EncodeUpdate_def encode_line_eq Let_def simp flip: used_def d_def intro!: tail)
  qed
qed

text \<open>Every operation keeps the bounds that the array accesses rely on, whatever its input: less
  than a line of 48 bytes is pending when encoding, less than a quad when decoding, unless the
  decoder has given up.\<close>

theorem contexts_stay_bounded:
  assumes "encode_ctx_ok ectx" "decode_ctx_ok dctx"
  shows "encode_ctx_ok (fst (EVP_EncodeUpdate ectx out src m)) \<and>
    encode_ctx_ok (fst (EVP_EncodeFinal ectx out m)) \<and>
    decode_ctx_ok (fst (EVP_DecodeUpdate dctx out src m))"
proof -
  have "encode_ctx_ok (fst (EVP_EncodeFinal ectx out m))"
    using EVP_EncodeFinal_refines [OF assms(1), of out m] by auto
  moreover have "decode_ctx_ok (fst (EVP_DecodeUpdate dctx out src m))"
  proof (cases "error_encountered dctx")
    case False
    obtain ctx r m' where run: "decode_chars dctx out src 0 m = (ctx, r, m')" by (metis prod_cases3)
    have "decode_ctx_ok ctx" using decode_chars_ok [OF run assms(2) False] by (rule conjunct1)
    moreover from this have "decode_ctx_ok (ctx\<lparr>error_encountered := True\<rparr>)"
      by (simp add: decode_ctx_ok_def)
    ultimately show ?thesis
      using False run by (cases r) (simp_all add: EVP_DecodeUpdate_def)
  qed (use assms(2) in \<open>simp add: EVP_DecodeUpdate_def\<close>)
  ultimately show ?thesis using EncodeUpdate_ok [OF assms(1)] by blast
qed

theorem contexts_stay_bounded_witness:
  "decode_ctx_ok (fst (EVP_DecodeUpdate EVP_DecodeInit 0x1000 [0x3D, 0x3D] (\<lambda>_. 0)))"
  using contexts_stay_bounded [of EVP_EncodeInit EVP_DecodeInit "0x1000" "[0x3D, 0x3D]" "\<lambda>_. 0"]
  by (simp add: ok_init decode_init)

end
