(* ===== verification/CBS.thy ===== *)
theory CBS
  imports Prelude
begin

unbundle bit_operations_syntax

text \<open>
  \<open>crypto/bytestring/cbs.c\<close>: a \<open>CBS\<close> is a cursor over bytes that it does not own, a pointer
  and the count of the bytes left. A function that takes a \<open>CBS *cbs\<close> first is a function
  from the cursor to an outcome: \<open>Ok\<close> with what it stores through its out-parameters and the
  advanced cursor where it returns one, \<open>Fail\<close> with the cursor it leaves where it returns
  zero (some advance it before they fail). Its reads come from the memory \<open>m\<close>. Functions on a
  \<open>const CBS *\<close> return a plain value. What a failing function leaves in its out-parameters is
  not modelled.
\<close>

section \<open>The cursor\<close>

record cbs =
  cbs_data :: addr
  cbs_len :: u64

type_synonym 'a reader = "cbs \<Rightarrow> ('a, cbs) outcome"

definition CBS_init :: "addr \<Rightarrow> u64 \<Rightarrow> cbs" where
  "CBS_init p n = \<lparr>cbs_data = p, cbs_len = n\<rparr>"

definition CBS_data :: "cbs \<Rightarrow> addr" where "CBS_data c = cbs_data c"

definition CBS_len :: "cbs \<Rightarrow> u64" where "CBS_len c = cbs_len c"

definition cbs_get :: "u64 \<Rightarrow> addr reader" where
  "cbs_get n c =
     (if cbs_len c < n then Fail c
      else Ok (cbs_data c) (c\<lparr>cbs_data := cbs_data c + n, cbs_len := cbs_len c - n\<rparr>))"

definition CBS_skip :: "u64 \<Rightarrow> unit reader" where
  "CBS_skip len = mbind (cbs_get len) (\<lambda>_. mreturn ())"

section \<open>Copies and comparisons\<close>

text \<open>The heap is a parameter: what \<open>OPENSSL_malloc\<close> returns for a size, zero for \<open>NULL\<close>. Releasing
  a block changes no byte that is read afterwards.\<close>

definition OPENSSL_memdup :: "(u64 \<Rightarrow> addr) \<Rightarrow> addr \<Rightarrow> u64 \<Rightarrow> mem \<Rightarrow> addr \<times> mem" where
  "OPENSSL_memdup malloc p len m =
     (if len = 0 then (0, m)
      else if malloc len = 0 then (0, m)
      else (malloc len, mem_write m (malloc len) (mem_bytes m p (unat len))))"

definition OPENSSL_strnlen :: "mem \<Rightarrow> addr \<Rightarrow> u64 \<Rightarrow> u64" where
  "OPENSSL_strnlen m s len =
     (case find (\<lambda>i. m (s + of_nat i) = 0) [0..<unat len] of Some i \<Rightarrow> of_nat i | None \<Rightarrow> len)"

definition OPENSSL_strndup :: "(u64 \<Rightarrow> addr) \<Rightarrow> addr \<Rightarrow> u64 \<Rightarrow> mem \<Rightarrow> addr \<times> mem" where
  "OPENSSL_strndup malloc str len m =
     (let len = OPENSSL_strnlen m str len; alloc_size = len + 1 in
      if alloc_size < len then (0, m)
      else let ret = malloc alloc_size in
        if ret = 0 then (0, m)
        else (ret, store8 (ret + len) 0 (mem_write m ret (mem_bytes m str (unat len)))))"

definition OPENSSL_memchr :: "mem \<Rightarrow> addr \<Rightarrow> byte \<Rightarrow> u64 \<Rightarrow> addr option" where
  "OPENSSL_memchr m s ch n =
     (if n = 0 then None
      else map_option (\<lambda>i. s + of_nat i) (find (\<lambda>i. m (s + of_nat i) = ch) [0..<unat n]))"

definition CRYPTO_memcmp :: "mem \<Rightarrow> addr \<Rightarrow> addr \<Rightarrow> u64 \<Rightarrow> byte" where
  "CRYPTO_memcmp m a b len =
     foldl (\<lambda>x i. x OR (m (a + of_nat i) XOR m (b + of_nat i))) 0 [0..<unat len]"

text \<open>The result, \<open>*out_ptr\<close>, \<open>*out_len\<close> and the memory.\<close>

definition CBS_stow :: "(u64 \<Rightarrow> addr) \<Rightarrow> cbs \<Rightarrow> mem \<Rightarrow> bool \<times> addr \<times> u64 \<times> mem" where
  "CBS_stow malloc c m =
     (if cbs_len c = 0 then (True, 0, 0, m)
      else case OPENSSL_memdup malloc (cbs_data c) (cbs_len c) m of (p, m) \<Rightarrow>
        if p = 0 then (False, 0, 0, m) else (True, p, cbs_len c, m))"

definition CBS_strdup :: "(u64 \<Rightarrow> addr) \<Rightarrow> cbs \<Rightarrow> mem \<Rightarrow> bool \<times> addr \<times> mem" where
  "CBS_strdup malloc c m =
     (case OPENSSL_strndup malloc (cbs_data c) (cbs_len c) m of (p, m) \<Rightarrow> (p \<noteq> 0, p, m))"

definition CBS_contains_zero_byte :: "mem \<Rightarrow> cbs \<Rightarrow> bool" where
  "CBS_contains_zero_byte m c = (OPENSSL_memchr m (cbs_data c) 0 (cbs_len c) \<noteq> None)"

definition CBS_mem_equal :: "mem \<Rightarrow> cbs \<Rightarrow> addr \<Rightarrow> u64 \<Rightarrow> bool" where
  "CBS_mem_equal m c p len =
     (if len \<noteq> cbs_len c then False else CRYPTO_memcmp m (cbs_data c) p len = 0)"

section \<open>Integers\<close>

definition cbs_get_u :: "mem \<Rightarrow> u64 \<Rightarrow> u64 reader" where
  "cbs_get_u m len = mbind (cbs_get len) (\<lambda>p.
     mreturn (foldl (\<lambda>result b. push_bit 8 result OR ucast b) 0 (mem_bytes m p (unat len))))"

definition CBS_get_u8 :: "mem \<Rightarrow> byte reader" where
  "CBS_get_u8 m = mbind (cbs_get 1) (\<lambda>v. mreturn (load8 m v))"

definition CBS_get_u16 :: "mem \<Rightarrow> u16 reader" where
  "CBS_get_u16 m = mbind (cbs_get_u m 2) (\<lambda>v. mreturn (ucast v))"

definition CRYPTO_bswap2 :: "u16 \<Rightarrow> u16" where
  "CRYPTO_bswap2 x = drop_bit 8 x OR push_bit 8 x"

definition CRYPTO_bswap4 :: "u32 \<Rightarrow> u32" where
  "CRYPTO_bswap4 x =
     (let x = drop_bit 16 x OR push_bit 16 x
      in drop_bit 8 (x AND 0xFF00FF00) OR push_bit 8 (x AND 0x00FF00FF))"

definition CRYPTO_bswap8 :: "u64 \<Rightarrow> u64" where
  "CRYPTO_bswap8 x =
     ucast (CRYPTO_bswap4 (ucast (drop_bit 32 x))) OR push_bit 32 (ucast (CRYPTO_bswap4 (ucast x)))"

definition CBS_get_u16le :: "mem \<Rightarrow> u16 reader" where
  "CBS_get_u16le m = mbind (CBS_get_u16 m) (\<lambda>v. mreturn (CRYPTO_bswap2 v))"

definition CBS_get_u24 :: "mem \<Rightarrow> u32 reader" where
  "CBS_get_u24 m = mbind (cbs_get_u m 3) (\<lambda>v. mreturn (ucast v))"

definition CBS_get_u32 :: "mem \<Rightarrow> u32 reader" where
  "CBS_get_u32 m = mbind (cbs_get_u m 4) (\<lambda>v. mreturn (ucast v))"

definition CBS_get_u32le :: "mem \<Rightarrow> u32 reader" where
  "CBS_get_u32le m = mbind (CBS_get_u32 m) (\<lambda>v. mreturn (CRYPTO_bswap4 v))"

definition CBS_get_u64 :: "mem \<Rightarrow> u64 reader" where
  "CBS_get_u64 m = cbs_get_u m 8"

definition CBS_get_u64le :: "mem \<Rightarrow> u64 reader" where
  "CBS_get_u64le m = mbind (cbs_get_u m 8) (\<lambda>v. mreturn (CRYPTO_bswap8 v))"

definition CBS_get_last_u8 :: "mem \<Rightarrow> byte reader" where
  "CBS_get_last_u8 m c =
     (if cbs_len c = 0 then Fail c
      else Ok (load8 m (cbs_data c + (cbs_len c - 1))) (c\<lparr>cbs_len := cbs_len c - 1\<rparr>))"

section \<open>Byte strings\<close>

definition CBS_get_bytes :: "u64 \<Rightarrow> cbs reader" where
  "CBS_get_bytes len = mbind (cbs_get len) (\<lambda>v. mreturn (CBS_init v len))"

definition CBS_copy_bytes :: "addr \<Rightarrow> u64 \<Rightarrow> mem \<Rightarrow> mem reader" where
  "CBS_copy_bytes out len m = mbind (cbs_get len) (\<lambda>v.
     mreturn (mem_write m out (mem_bytes m v (unat len))))"

definition cbs_get_length_prefixed :: "mem \<Rightarrow> u64 \<Rightarrow> cbs reader" where
  "cbs_get_length_prefixed m len_len = mbind (cbs_get_u m len_len) CBS_get_bytes"

definition CBS_get_u8_length_prefixed :: "mem \<Rightarrow> cbs reader" where
  "CBS_get_u8_length_prefixed m = cbs_get_length_prefixed m 1"

definition CBS_get_u16_length_prefixed :: "mem \<Rightarrow> cbs reader" where
  "CBS_get_u16_length_prefixed m = cbs_get_length_prefixed m 2"

definition CBS_get_u24_length_prefixed :: "mem \<Rightarrow> cbs reader" where
  "CBS_get_u24_length_prefixed m = cbs_get_length_prefixed m 3"

definition CBS_get_until_first :: "mem \<Rightarrow> byte \<Rightarrow> cbs reader" where
  "CBS_get_until_first m ch c =
     (case OPENSSL_memchr m (CBS_data c) ch (CBS_len c) of
        None \<Rightarrow> Fail c
      | Some split \<Rightarrow> CBS_get_bytes (split - CBS_data c) c)"

section \<open>Tags and lengths\<close>

definition CBS_ASN1_TAG_SHIFT :: nat where "CBS_ASN1_TAG_SHIFT = 24"
definition CBS_ASN1_CONSTRUCTED :: u32 where "CBS_ASN1_CONSTRUCTED = push_bit CBS_ASN1_TAG_SHIFT 0x20"
definition CBS_ASN1_TAG_NUMBER_MASK :: u32 where
  "CBS_ASN1_TAG_NUMBER_MASK = push_bit (5 + CBS_ASN1_TAG_SHIFT) 1 - 1"
definition CBS_ASN1_BOOLEAN :: u32 where "CBS_ASN1_BOOLEAN = 1"
definition CBS_ASN1_INTEGER :: u32 where "CBS_ASN1_INTEGER = 2"
definition CBS_ASN1_OCTETSTRING :: u32 where "CBS_ASN1_OCTETSTRING = 4"

lemma cbs_get_shorter: "cbs_get n c = Ok v c' \<Longrightarrow> unat (cbs_len c') = unat (cbs_len c) - unat n \<and> n \<le> cbs_len c"
  by (auto simp: cbs_get_def unat_sub not_less split: if_splits)

lemma CBS_get_u8_shorter: "CBS_get_u8 m c = Ok b c' \<Longrightarrow> unat (cbs_len c') < unat (cbs_len c)"
  by (auto simp: CBS_get_u8_def mbind_Ok_iff word_le_nat_alt dest!: cbs_get_shorter)

function base128_loop :: "mem \<Rightarrow> u64 \<Rightarrow> u64 reader" where
  "base128_loop m v c =
     (case CBS_get_u8 m c of
        Ok b c' \<Rightarrow>
          if drop_bit (64 - 7) v \<noteq> 0 then Fail c'
          else if v = 0 \<and> b = 0x80 then Fail c'
          else
            let v = push_bit 7 v OR ucast (b AND 0x7F) in
            if b AND 0x80 \<noteq> 0 then base128_loop m v c' else Ok v c'
      | Fail c' \<Rightarrow> Fail c' | Undef \<Rightarrow> Undef | Fuel \<Rightarrow> Fuel)"
  by pat_completeness auto
termination
  by (relation "measure (\<lambda>(m, v, c). unat (cbs_len c))") (auto dest: CBS_get_u8_shorter)

declare base128_loop.simps [simp del]

definition parse_base128_integer :: "mem \<Rightarrow> u64 reader" where
  "parse_base128_integer m = base128_loop m 0"

definition parse_asn1_tag :: "mem \<Rightarrow> u32 reader" where
  "parse_asn1_tag m = mbind (CBS_get_u8 m) (\<lambda>tag_byte.
     let tag = push_bit CBS_ASN1_TAG_SHIFT (ucast tag_byte AND 0xE0);
         tag_number = ucast (tag_byte AND 0x1F)
     in if tag_number = 0x1F then
          mbind (parse_base128_integer m) (\<lambda>v c.
            if ucast CBS_ASN1_TAG_NUMBER_MASK < v \<or> v < 0x1F then Fail c
            else Ok (tag OR ucast v) c)
        else mreturn (tag OR tag_number))"

text \<open>An element is read from a copy of the cursor, so a failure leaves the cursor as it was. The
  result is the element with its header, the tag, the length of the header and whether the
  encoding is BER and not DER.\<close>

definition cbs_get_any_asn1_element :: "mem \<Rightarrow> bool \<Rightarrow> (cbs \<times> u32 \<times> u64 \<times> bool) reader" where
  "cbs_get_any_asn1_element m ber_ok c =
     (case parse_asn1_tag m c of
        Ok tag header \<Rightarrow>
          (case CBS_get_u8 m header of
             Ok length_byte header \<Rightarrow>
               let header_len = CBS_len c - CBS_len header in
               if length_byte AND 0x80 = 0 then
                 mbind (CBS_get_bytes (ucast length_byte + header_len))
                   (\<lambda>out. mreturn (out, tag, header_len, False)) c
               else
                 let num_bytes = ucast (length_byte AND 0x7F) in
                 if ber_ok \<and> tag AND CBS_ASN1_CONSTRUCTED \<noteq> 0 \<and> num_bytes = 0 then
                   mbind (CBS_get_bytes header_len) (\<lambda>out. mreturn (out, tag, header_len, True)) c
                 else if num_bytes = 0 \<or> 4 < num_bytes then Fail c
                 else
                   (case cbs_get_u m num_bytes header of
                      Ok len64 header \<Rightarrow>
                        let short = len64 < 128;
                            padded = drop_bit ((unat num_bytes - 1) * 8) len64 = 0 in
                        if \<not> ber_ok \<and> (short \<or> padded) then Fail c
                        else if len64 + header_len + num_bytes < len64 then Fail c
                        else
                          mbind (CBS_get_bytes (len64 + (header_len + num_bytes)))
                            (\<lambda>out. mreturn (out, tag, header_len + num_bytes, short \<or> padded)) c
                    | _ \<Rightarrow> Fail c)
           | _ \<Rightarrow> Fail c)
      | _ \<Rightarrow> Fail c)"

definition CBS_get_any_asn1_element :: "mem \<Rightarrow> (cbs \<times> u32 \<times> u64) reader" where
  "CBS_get_any_asn1_element m =
     mbind (cbs_get_any_asn1_element m False) (\<lambda>(out, tag, header_len, _). mreturn (out, tag, header_len))"

definition CBS_get_any_asn1 :: "mem \<Rightarrow> (cbs \<times> u32) reader" where
  "CBS_get_any_asn1 m = mbind (CBS_get_any_asn1_element m) (\<lambda>(out, tag, header_len) c.
     case CBS_skip header_len out of Ok _ out \<Rightarrow> Ok (out, tag) c | _ \<Rightarrow> Fail c)"

definition CBS_get_any_ber_asn1_element :: "mem \<Rightarrow> (cbs \<times> u32 \<times> u64 \<times> bool) reader" where
  "CBS_get_any_ber_asn1_element m = cbs_get_any_asn1_element m True"

definition cbs_get_asn1 :: "mem \<Rightarrow> u32 \<Rightarrow> bool \<Rightarrow> cbs reader" where
  "cbs_get_asn1 m tag_value skip_header = mbind (CBS_get_any_asn1_element m) (\<lambda>(out, tag, header_len) c.
     if tag \<noteq> tag_value then Fail c
     else if skip_header then
       (case CBS_skip header_len out of Ok _ out \<Rightarrow> Ok out c | _ \<Rightarrow> Fail c)
     else Ok out c)"

definition CBS_get_asn1 :: "mem \<Rightarrow> u32 \<Rightarrow> cbs reader" where
  "CBS_get_asn1 m tag_value = cbs_get_asn1 m tag_value True"

definition CBS_get_asn1_element :: "mem \<Rightarrow> u32 \<Rightarrow> cbs reader" where
  "CBS_get_asn1_element m tag_value = cbs_get_asn1 m tag_value False"

definition CBS_peek_asn1_tag :: "mem \<Rightarrow> cbs \<Rightarrow> u32 \<Rightarrow> bool" where
  "CBS_peek_asn1_tag m c tag_value =
     (if CBS_len c < 1 then False
      else case parse_asn1_tag m c of Ok actual_tag _ \<Rightarrow> tag_value = actual_tag | _ \<Rightarrow> False)"

section \<open>Values\<close>

text \<open>\<open>None\<close> where the content is not an \<open>INTEGER\<close>, else whether it is negative.\<close>

definition CBS_is_valid_asn1_integer :: "mem \<Rightarrow> cbs \<Rightarrow> bool option" where
  "CBS_is_valid_asn1_integer m c =
     (case CBS_get_u8 m c of
        Ok first_byte c \<Rightarrow>
          let negative = first_byte AND 0x80 \<noteq> 0 in
          (case CBS_get_u8 m c of
             Ok second_byte _ \<Rightarrow>
               if first_byte = 0 \<and> second_byte AND 0x80 = 0 \<or>
                  first_byte = 0xFF \<and> second_byte AND 0x80 \<noteq> 0 then None
               else Some negative
           | _ \<Rightarrow> Some negative)
      | _ \<Rightarrow> None)"

definition CBS_is_unsigned_asn1_integer :: "mem \<Rightarrow> cbs \<Rightarrow> bool" where
  "CBS_is_unsigned_asn1_integer m c = (CBS_is_valid_asn1_integer m c = Some False)"

fun uint64_loop :: "u64 \<Rightarrow> byte list \<Rightarrow> u64 option" where
  "uint64_loop out [] = Some out"
| "uint64_loop out (b # bs) =
     (if drop_bit 56 out \<noteq> 0 then None else uint64_loop (push_bit 8 out OR ucast b) bs)"

definition CBS_get_asn1_uint64 :: "mem \<Rightarrow> u64 reader" where
  "CBS_get_asn1_uint64 m = mbind (CBS_get_asn1 m CBS_ASN1_INTEGER) (\<lambda>bytes c.
     if \<not> CBS_is_unsigned_asn1_integer m bytes then Fail c
     else case uint64_loop 0 (mem_bytes m (CBS_data bytes) (unat (CBS_len bytes))) of
       None \<Rightarrow> Fail c | Some out \<Rightarrow> Ok out c)"

text \<open>The result is the bit pattern of the \<open>int64_t\<close>.\<close>

definition CBS_get_asn1_int64 :: "mem \<Rightarrow> u64 reader" where
  "CBS_get_asn1_int64 m = mbind (CBS_get_asn1 m CBS_ASN1_INTEGER) (\<lambda>bytes c.
     case CBS_is_valid_asn1_integer m bytes of
       None \<Rightarrow> Fail c
     | Some is_negative \<Rightarrow>
         let len = CBS_len bytes; n = unat len in
         if 8 < len then Fail c
         else Ok (le_word (rev (mem_bytes m (CBS_data bytes) n) @
                           replicate (8 - n) (if is_negative then 0xFF else 0))) c)"

definition CBS_get_asn1_bool :: "mem \<Rightarrow> bool reader" where
  "CBS_get_asn1_bool m = mbind (CBS_get_asn1 m CBS_ASN1_BOOLEAN) (\<lambda>bytes c.
     if CBS_len bytes \<noteq> 1 then Fail c
     else let val = load8 m (CBS_data bytes) in
       if val \<noteq> 0 \<and> val \<noteq> 0xFF then Fail c else Ok (val \<noteq> 0) c)"

text \<open>Optional elements: \<open>None\<close> where the element is not present.\<close>

definition CBS_get_optional_asn1 :: "mem \<Rightarrow> u32 \<Rightarrow> cbs option reader" where
  "CBS_get_optional_asn1 m tag c =
     (if CBS_peek_asn1_tag m c tag then mbind (CBS_get_asn1 m tag) (\<lambda>out. mreturn (Some out)) c
      else Ok None c)"

definition CBS_get_optional_asn1_octet_string :: "mem \<Rightarrow> u32 \<Rightarrow> (cbs \<times> bool) reader" where
  "CBS_get_optional_asn1_octet_string m tag = mbind (CBS_get_optional_asn1 m tag) (\<lambda>child c.
     case child of
       Some child \<Rightarrow>
         (case CBS_get_asn1 m CBS_ASN1_OCTETSTRING child of
            Ok out child \<Rightarrow> if CBS_len child \<noteq> 0 then Fail c else Ok (out, True) c
          | _ \<Rightarrow> Fail c)
     | None \<Rightarrow> Ok (CBS_init 0 0, False) c)"

definition CBS_get_optional_asn1_uint64 :: "mem \<Rightarrow> u32 \<Rightarrow> u64 \<Rightarrow> u64 reader" where
  "CBS_get_optional_asn1_uint64 m tag default_value = mbind (CBS_get_optional_asn1 m tag) (\<lambda>child c.
     case child of
       Some child \<Rightarrow>
         (case CBS_get_asn1_uint64 m child of
            Ok out child \<Rightarrow> if CBS_len child \<noteq> 0 then Fail c else Ok out c
          | _ \<Rightarrow> Fail c)
     | None \<Rightarrow> Ok default_value c)"

definition CBS_get_optional_asn1_bool :: "mem \<Rightarrow> u32 \<Rightarrow> int \<Rightarrow> int reader" where
  "CBS_get_optional_asn1_bool m tag default_value = mbind (CBS_get_optional_asn1 m tag) (\<lambda>child c.
     case child of
       Some child \<Rightarrow>
         (case CBS_get_asn1 m CBS_ASN1_BOOLEAN child of
            Ok child2 child \<Rightarrow>
              if CBS_len child2 \<noteq> 1 \<or> CBS_len child \<noteq> 0 then Fail c
              else let boolean = load8 m (CBS_data child2) in
                if boolean = 0 then Ok 0 c else if boolean = 0xFF then Ok 1 c else Fail c
          | _ \<Rightarrow> Fail c)
     | None \<Rightarrow> Ok default_value c)"

definition CBS_is_valid_asn1_bitstring :: "mem \<Rightarrow> cbs \<Rightarrow> bool" where
  "CBS_is_valid_asn1_bitstring m c =
     (case CBS_get_u8 m c of
        Ok num_unused_bits c \<Rightarrow>
          if 7 < num_unused_bits then False
          else if num_unused_bits = 0 then True
          else (case CBS_get_last_u8 m c of
                  Ok last_byte _ \<Rightarrow>
                    (ucast last_byte :: u32) AND (push_bit (unat num_unused_bits) 1 - 1) = 0
                | _ \<Rightarrow> False)
      | _ \<Rightarrow> False)"

definition CBS_asn1_bitstring_has_bit :: "mem \<Rightarrow> cbs \<Rightarrow> u32 \<Rightarrow> bool" where
  "CBS_asn1_bitstring_has_bit m c b =
     (if \<not> CBS_is_valid_asn1_bitstring m c then False
      else
        let byte_num = drop_bit 3 b + 1; bit_num = 7 - (b AND 7) in
        ucast byte_num < CBS_len c \<and>
        (ucast (load8 m (CBS_data c + ucast byte_num)) :: u32) AND push_bit (unat bit_num) 1 \<noteq> 0)"

end
