(* ===== verification/CBS_Read.thy ===== *)
theory CBS_Read
  imports CBS
begin

unbundle bit_operations_syntax

text \<open>
  What the readers of a \<open>CBS\<close> do to the bytes it covers. \<open>takes m c xs c'\<close> says that the bytes
  \<open>xs\<close> stand at the front of the cursor \<open>c\<close> and that \<open>c'\<close> is the cursor behind them. A reader
  of a value with one encoding (integers of a width, tags, base-128 numbers) is an instance of
  the interface \<open>value_reader\<close>: it succeeds exactly where an encoding stands at the front, and
  the interface gives the rest.
\<close>

section \<open>The bytes of a cursor\<close>

definition cbs_bytes :: "mem \<Rightarrow> cbs \<Rightarrow> byte list" where
  "cbs_bytes m c = mem_bytes m (cbs_data c) (unat (cbs_len c))"

definition cbs_drop :: "nat \<Rightarrow> cbs \<Rightarrow> cbs" where
  "cbs_drop k c = c\<lparr>cbs_data := cbs_data c + of_nat k, cbs_len := cbs_len c - of_nat k\<rparr>"

definition takes :: "mem \<Rightarrow> cbs \<Rightarrow> byte list \<Rightarrow> cbs \<Rightarrow> bool" where
  "takes m c xs c' \<longleftrightarrow> (\<exists>ys. cbs_bytes m c = xs @ ys) \<and> c' = cbs_drop (length xs) c"

lemma length_cbs_bytes [simp]: "length (cbs_bytes m c) = unat (cbs_len c)"
  by (simp add: cbs_bytes_def)

lemma unat_len_drop: "k \<le> unat (cbs_len c) \<Longrightarrow> unat (cbs_len (cbs_drop k c)) = unat (cbs_len c) - k"
  using unat_less64 [of "cbs_len c"]
  by (simp add: cbs_drop_def unat_sub word_le_nat_alt unat_of_nat_addr)

lemma cbs_bytes_split:
  assumes "k \<le> unat (cbs_len c)"
  shows "cbs_bytes m c = mem_bytes m (cbs_data c) k @ cbs_bytes m (cbs_drop k c)"
proof -
  have "unat (cbs_len c) = k + unat (cbs_len (cbs_drop k c))"
    using assms by (simp add: unat_len_drop)
  then show ?thesis
    unfolding cbs_bytes_def by (simp add: mem_bytes_add) (simp add: cbs_drop_def)
qed

lemma takes_iff:
  "takes m c xs c' \<longleftrightarrow>
     length xs \<le> unat (cbs_len c) \<and> mem_bytes m (cbs_data c) (length xs) = xs \<and> c' = cbs_drop (length xs) c"
proof (cases "length xs \<le> unat (cbs_len c)")
  case True
  from cbs_bytes_split [OF this, of m] show ?thesis
    using True by (auto simp: takes_def)
next
  case False
  have "length xs \<le> unat (cbs_len c)" if "cbs_bytes m c = xs @ ys" for ys
    using arg_cong [OF that, of length] by simp
  with False show ?thesis by (auto simp: takes_def)
qed

lemma takes_bytes: "takes m c xs c' \<Longrightarrow> cbs_bytes m c = xs @ cbs_bytes m c'"
  using cbs_bytes_split by (metis takes_iff)

lemma takes_front: "cbs_bytes m c = xs @ ys \<Longrightarrow> takes m c xs (cbs_drop (length xs) c)"
  by (auto simp: takes_def)

lemma takes_Nil [simp]: "takes m c [] c' \<longleftrightarrow> c' = c"
  by (simp add: takes_def cbs_drop_def)

lemma cbs_drop_drop: "cbs_drop j (cbs_drop k c) = cbs_drop (k + j) c"
  by (simp add: cbs_drop_def algebra_simps)

lemma takes_append: "takes m c (xs @ ys) c' \<longleftrightarrow> (\<exists>c1. takes m c xs c1 \<and> takes m c1 ys c')"
proof
  assume whole: "takes m c (xs @ ys) c'"
  then have front: "takes m c xs (cbs_drop (length xs) c)"
    by (auto simp: takes_def)
  moreover from takes_bytes [OF front] takes_bytes [OF whole]
  have "cbs_bytes m (cbs_drop (length xs) c) = ys @ cbs_bytes m c'" by simp
  then have "takes m (cbs_drop (length xs) c) ys c'"
    using whole by (auto simp: takes_def cbs_drop_drop)
  ultimately show "\<exists>c1. takes m c xs c1 \<and> takes m c1 ys c'" by blast
next
  assume "\<exists>c1. takes m c xs c1 \<and> takes m c1 ys c'"
  then obtain c1 where "takes m c xs c1" "takes m c1 ys c'" by blast
  then show "takes m c (xs @ ys) c'"
    using takes_bytes by (fastforce simp: takes_def cbs_drop_drop)
qed

lemma takes_Cons: "takes m c (x # xs) c' \<longleftrightarrow> (\<exists>c1. takes m c [x] c1 \<and> takes m c1 xs c')"
  using takes_append [of m c "[x]" xs c'] by simp

lemma takes_same: "takes m c xs c1 \<Longrightarrow> takes m c ys c2 \<Longrightarrow> length xs = length ys \<Longrightarrow> xs = ys \<and> c1 = c2"
  by (auto simp: takes_iff)

lemma takes_first:
  assumes "takes m c [b] c1"
  shows "takes m c (x # xs) c' \<longleftrightarrow> x = b \<and> takes m c1 xs c'"
proof
  assume "takes m c (x # xs) c'"
  then obtain c2 where c2: "takes m c [x] c2" "takes m c2 xs c'" unfolding takes_Cons [of m c x xs] by blast
  from takes_same [OF assms c2(1)] have "b = x" "c1 = c2" by simp_all
  with c2(2) show "x = b \<and> takes m c1 xs c'" by simp
next
  assume "x = b \<and> takes m c1 xs c'"
  with assms show "takes m c (x # xs) c'" unfolding takes_Cons [of m c x xs] by blast
qed

lemma takes_len: "takes m c xs c' \<Longrightarrow> unat (cbs_len c') = unat (cbs_len c) - length xs \<and> length xs \<le> unat (cbs_len c)"
  by (auto simp: takes_iff unat_len_drop)

section \<open>The primitive\<close>

text \<open>A reader returns a cursor and never the exceptional outcomes.\<close>

definition returns :: "'a reader \<Rightarrow> bool" where
  "returns f \<longleftrightarrow> (\<forall>c. f c \<noteq> Undef \<and> f c \<noteq> Fuel)"

lemma returns_bind: "returns f \<Longrightarrow> (\<And>v. returns (g v)) \<Longrightarrow> returns (mbind f g)"
  by (auto simp: returns_def mbind_def split: outcome.splits)

lemma returns_mreturn: "returns (mreturn v)"
  by (simp add: returns_def)

lemma returns_get: "returns (cbs_get n)"
  by (simp add: returns_def cbs_get_def)

lemma cbs_get_Ok:
  "cbs_get n c = Ok p c' \<longleftrightarrow> p = cbs_data c \<and> takes m c (mem_bytes m p (unat n)) c'"
  by (auto simp: cbs_get_def takes_iff word_le_nat_alt not_less word_less_nat_alt cbs_drop_def)

lemma cbs_get_takes:
  "mbind (cbs_get n) g c = Ok v c'' \<longleftrightarrow>
     (\<exists>c'. takes m c (mem_bytes m (cbs_data c) (unat n)) c' \<and> g (cbs_data c) c' = Ok v c'')"
  by (auto simp: mbind_Ok_iff cbs_get_Ok [where m = m])

text \<open>A successful skip of \<open>n\<close> bytes, and of a sub-cursor.\<close>

lemma CBS_skip_Ok: "CBS_skip n c = Ok u c' \<longleftrightarrow> unat n \<le> unat (cbs_len c) \<and> c' = cbs_drop (unat n) c"
  by (auto simp: CBS_skip_def mbind_Ok_iff cbs_get_def cbs_drop_def word_less_nat_alt not_less
      split: if_splits)

lemma CBS_get_bytes_Ok:
  "CBS_get_bytes n c = Ok out c' \<longleftrightarrow>
     out = \<lparr>cbs_data = cbs_data c, cbs_len = n\<rparr> \<and> takes m c (cbs_bytes m out) c'"
  by (auto simp: CBS_get_bytes_def cbs_get_takes [where m = m] CBS_init_def cbs_bytes_def)

section \<open>Readers of values with one encoding\<close>

locale value_reader =
  fixes f :: "mem \<Rightarrow> 'a reader" and code :: "'a \<Rightarrow> byte list" and valid :: "'a \<Rightarrow> bool"
  assumes reads: "f m c = Ok v c' \<longleftrightarrow> valid v \<and> takes m c (code v) c'"
    and total_on: "returns (f m)"
begin

lemma read_back:
  assumes "valid v" "cbs_bytes m c = code v @ rest"
  shows "f m c = Ok v (cbs_drop (length (code v)) c)"
  using assms takes_front by (simp add: reads)

lemma fails_iff: "(\<exists>c'. f m c = Fail c') \<longleftrightarrow> \<not> (\<exists>v rest. valid v \<and> cbs_bytes m c = code v @ rest)"
proof -
  have "(\<exists>c'. f m c = Fail c') \<longleftrightarrow> \<not> (\<exists>v c'. f m c = Ok v c')"
    using total_on [of m] by (cases "f m c") (auto simp: returns_def)
  also have "\<dots> \<longleftrightarrow> \<not> (\<exists>v rest. valid v \<and> cbs_bytes m c = code v @ rest)"
    unfolding reads using takes_bytes takes_front by metis
  finally show ?thesis .
qed

text \<open>The encodings are a prefix code: no encoding is the start of another one.\<close>

lemma prefix_free:
  assumes "valid v" "valid w" "code v @ xs = code w @ ys" "length (code v @ xs) < 2 ^ 64"
  shows "v = w"
proof -
  define c where "c = CBS_init 0 (of_nat (length (code v @ xs)))"
  have "cbs_bytes (mem_write (\<lambda>_. 0) 0 (code v @ xs)) c = code v @ xs"
    using assms(4) mem_bytes_write [of "code v @ xs" "\<lambda>_. 0" 0]
    by (simp add: c_def CBS_init_def cbs_bytes_def unat_of_nat_addr del: of_nat_add)
  with read_back [OF assms(1)] read_back [OF assms(2)] assms(3) show ?thesis
    by (metis outcome.inject(1))
qed

text \<open>The result depends on the bytes of the cursor only.\<close>

lemma reads_within:
  assumes "cbs_bytes m c = cbs_bytes m' c"
  shows "f m c = Ok v c' \<longleftrightarrow> f m' c = Ok v c'"
  using assms by (simp add: reads takes_def)

end

text \<open>Reading one value after another.\<close>

lemma reader_bind:
  assumes "value_reader f code valid"
  shows "mbind (f m) g c = Ok w c'' \<longleftrightarrow>
    (\<exists>v c'. valid v \<and> takes m c (code v) c' \<and> g v c' = Ok w c'')"
  using value_reader.reads [OF assms] by (auto simp: mbind_Ok_iff)

lemma value_reader_map:
  assumes "value_reader f code valid" "\<And>v. valid v \<Longrightarrow> valid' (h v) \<and> code' (h v) = code v"
    "\<And>w. valid' w \<Longrightarrow> valid (k w) \<and> h (k w) = w"
  shows "value_reader (\<lambda>m. mbind (f m) (\<lambda>v. mreturn (h v))) code' valid'"
proof
  show "mbind (f m) (\<lambda>v. mreturn (h v)) c = Ok w c' \<longleftrightarrow> valid' w \<and> takes m c (code' w) c'" for m c w c'
    unfolding reader_bind [OF assms(1)] using assms(2,3) by (metis outcome.inject(1))
  show "returns (mbind (f m) (\<lambda>v. mreturn (h v)))" for m
    using value_reader.total_on [OF assms(1)] by (intro returns_bind returns_mreturn)
qed

section \<open>Big-endian and little-endian integers\<close>

definition be_bytes :: "nat \<Rightarrow> 'a::len word \<Rightarrow> byte list" where
  "be_bytes k w = rev (word_le_bytes k w)"

lemma length_be_bytes [simp]: "length (be_bytes k w) = k"
  by (simp add: be_bytes_def)

lemma be_fold:
  "foldl (\<lambda>result b. push_bit 8 result OR ucast b) 0 bs = (le_word (rev bs) :: 'a::len word)"
  by (simp add: le_word_def foldr_conv_foldl)

lemma be_word:
  assumes "8 * length bs \<le> LENGTH('a)"
  shows "be_bytes (length bs) (le_word (rev bs) :: 'a::len word) = bs"
  using word_bytes_le [of "rev bs", where 'a = 'a] assms by (simp add: be_bytes_def)

lemma cbs_get_u_reads:
  assumes "n \<le> 8"
  shows "value_reader (\<lambda>m. cbs_get_u m n) (be_bytes (unat n)) (\<lambda>v. take_bit (8 * unat n) v = v)"
proof
  have n: "8 * unat n \<le> 64" using assms by (simp add: word_le_nat_alt)
  show "cbs_get_u m n c = Ok v c' \<longleftrightarrow> take_bit (8 * unat n) v = v \<and> takes m c (be_bytes (unat n) v) c'" for m c v c'
  proof
    assume "cbs_get_u m n c = Ok v c'"
    then obtain bs where "takes m c bs c'" "length bs = unat n" "v = le_word (rev bs)"
      by (auto simp: cbs_get_u_def cbs_get_takes [where m = m] be_fold)
    moreover from this n have "be_bytes (unat n) v = bs"
      using be_word [of bs, where 'a = 64] by simp
    moreover have "take_bit (8 * unat n) v = v"
      using le_word_bytes [of "unat n" v] word_bytes_le [of "rev bs", where 'a = 64] calculation n by simp
    ultimately show "take_bit (8 * unat n) v = v \<and> takes m c (be_bytes (unat n) v) c'" by simp
  next
    assume r: "take_bit (8 * unat n) v = v \<and> takes m c (be_bytes (unat n) v) c'"
    then have "le_word (rev (be_bytes (unat n) v)) = v"
      using le_word_bytes [of "unat n" v] by (simp add: be_bytes_def)
    with r show "cbs_get_u m n c = Ok v c'"
      by (auto simp: cbs_get_u_def cbs_get_takes [where m = m] be_fold takes_iff)
  qed
  show "returns (cbs_get_u m n)" for m
    unfolding cbs_get_u_def by (intro returns_bind returns_get returns_mreturn)
qed

interpretation u8: value_reader CBS_get_u8 "\<lambda>b. [b]" "\<lambda>_. True"
proof
  show "CBS_get_u8 m c = Ok v c' \<longleftrightarrow> True \<and> takes m c [v] c'" for m c v c'
    by (auto simp: CBS_get_u8_def cbs_get_takes [where m = m] load8_def takes_iff mem_bytes_Suc)
  show "returns (CBS_get_u8 m)" for m
    unfolding CBS_get_u8_def by (intro returns_bind returns_get returns_mreturn)
qed

lemma word_le_bytes_ucast:
  "8 * k \<le> LENGTH('b) \<Longrightarrow> word_le_bytes k (ucast (w :: 'a::len word) :: 'b::len word) = word_le_bytes k w"
  unfolding word_le_bytes_def
  by (intro map_cong refl bit_word_eqI) (auto simp: bit_simps dest: bit_imp_le_length)

lemma be_bytes_ucast:
  "8 * k \<le> LENGTH('b) \<Longrightarrow> be_bytes k (ucast (w :: 'a::len word) :: 'b::len word) = be_bytes k w"
  by (simp add: be_bytes_def word_le_bytes_ucast)

lemma ucast_back: "ucast (ucast v :: 'b::len word) = take_bit LENGTH('b) (v :: 'a::len word)"
  by (rule bit_word_eqI) (auto simp: bit_simps)

lemma take_bit_ucast: "LENGTH('b) \<le> n \<Longrightarrow> take_bit n (ucast (v :: 'b::len word) :: 'a::len word) = ucast v"
  by (rule bit_word_eqI) (auto simp: bit_simps dest: bit_imp_le_length)

interpretation u16: value_reader CBS_get_u16 "be_bytes 2" "\<lambda>_. True"
proof -
  have "value_reader (\<lambda>m. mbind (cbs_get_u m 2) (\<lambda>v. mreturn (ucast v :: u16))) (be_bytes 2) (\<lambda>_. True)"
    by (rule value_reader_map [OF cbs_get_u_reads, where k = ucast])
      (simp_all add: be_bytes_ucast take_bit_ucast ucast_back take_bit_word_eq_self)
  then show "value_reader CBS_get_u16 (be_bytes 2) (\<lambda>_. True)"
    by (simp add: CBS_get_u16_def [abs_def])
qed

lemma unat_ucast_up: "LENGTH('a) \<le> LENGTH('b) \<Longrightarrow> unat (ucast (w :: 'a::len word) :: 'b::len word) = unat w"
  using less_le_trans [OF unsigned_less [of w], of "2 ^ LENGTH('b) :: nat"]
  by (simp add: unsigned_ucast_eq take_bit_nat_eq_self)

lemma fits_iff: "take_bit n v = v \<longleftrightarrow> unat (v :: 'a::len word) < 2 ^ n"
  by (simp add: word_unat_eq_iff unsigned_take_bit_eq take_bit_nat_eq_self_iff)

interpretation u24: value_reader CBS_get_u24 "be_bytes 3" "\<lambda>v. unat v < 2 ^ 24"
proof -
  have "value_reader (\<lambda>m. mbind (cbs_get_u m 3) (\<lambda>v. mreturn (ucast v :: u32))) (be_bytes 3) (\<lambda>v. unat v < 2 ^ 24)"
  proof (rule value_reader_map [OF cbs_get_u_reads, where k = ucast])
    fix v :: u64
    assume "take_bit (8 * unat (3 :: u64)) v = v"
    then have v: "take_bit 24 v = v" by simp
    then have "take_bit 24 (ucast v :: u32) = ucast v"
      by (simp add: bit_eq_iff bit_simps)
    with v show "unat (ucast v :: u32) < 2 ^ 24 \<and> be_bytes 3 (ucast v :: u32) = be_bytes (unat (3 :: u64)) v"
      by (simp add: be_bytes_ucast fits_iff)
  next
    fix w :: u32
    assume "unat w < 2 ^ 24"
    moreover have "unat (ucast w :: u64) = unat w" by (simp add: unat_ucast_up)
    ultimately have "take_bit 24 (ucast w :: u64) = ucast w" by (simp add: fits_iff)
    then show "take_bit (8 * unat (3 :: u64)) (ucast w) = (ucast w :: u64) \<and> ucast (ucast w :: u64) = w"
      by (simp add: ucast_back take_bit_word_eq_self)
  qed simp
  then show "value_reader CBS_get_u24 (be_bytes 3) (\<lambda>v. unat v < 2 ^ 24)"
    by (simp add: CBS_get_u24_def [abs_def])
qed

interpretation u32: value_reader CBS_get_u32 "be_bytes 4" "\<lambda>_. True"
proof -
  have "value_reader (\<lambda>m. mbind (cbs_get_u m 4) (\<lambda>v. mreturn (ucast v :: u32))) (be_bytes 4) (\<lambda>_. True)"
    by (rule value_reader_map [OF cbs_get_u_reads, where k = ucast])
      (simp_all add: be_bytes_ucast take_bit_ucast ucast_back take_bit_word_eq_self)
  then show "value_reader CBS_get_u32 (be_bytes 4) (\<lambda>_. True)"
    by (simp add: CBS_get_u32_def [abs_def])
qed

interpretation u64: value_reader CBS_get_u64 "be_bytes 8" "\<lambda>_. True"
  using cbs_get_u_reads [of 8] by (simp add: CBS_get_u64_def [abs_def] take_bit_word_eq_self)

text \<open>The byte swaps reverse the bytes.\<close>

definition swaps_bytes :: "nat \<Rightarrow> ('a::len word \<Rightarrow> 'a word) \<Rightarrow> bool" where
  "swaps_bytes k f \<longleftrightarrow> LENGTH('a) = 8 * k \<and>
     (\<forall>x n. n < 8 * k \<longrightarrow> bit (f x) n = bit x (8 * (k - 1 - n div 8) + n mod 8))"

lemma swaps_bytes_be:
  assumes "swaps_bytes k f"
  shows "word_le_bytes k (f w) = be_bytes k w"
proof (rule nth_equalityI)
  fix i assume "i < length (word_le_bytes k (f w))"
  then have i: "i < k" by simp
  have "ucast (drop_bit (8 * i) (f w)) = (ucast (drop_bit (8 * (k - 1 - i)) w) :: byte)"
  proof (rule bit_word_eqI)
    fix j assume "j < LENGTH(8)"
    then have j: "j < 8" by simp
    with i have "8 * i + j < 8 * k" by linarith
    moreover from j have "(8 * i + j) div 8 = i" "(8 * i + j) mod 8 = j" by simp_all
    ultimately have "bit (f w) (8 * i + j) = bit w (8 * (k - 1 - i) + j)"
      using assms unfolding swaps_bytes_def by metis
    with j show "bit (ucast (drop_bit (8 * i) (f w)) :: byte) j =
        bit (ucast (drop_bit (8 * (k - 1 - i)) w) :: byte) j"
      by (simp add: bit_simps)
  qed
  with i show "word_le_bytes k (f w) ! i = be_bytes k w ! i"
    by (simp add: be_bytes_def word_le_bytes_def rev_nth)
qed simp

lemma swaps_bytes_twice:
  assumes "swaps_bytes k f"
  shows "f (f w) = w"
proof (rule bit_word_eqI)
  fix n assume "n < LENGTH('a)"
  then have n: "n < 8 * k" "n div 8 < k" using assms by (simp_all add: swaps_bytes_def less_mult_imp_div_less)
  let ?n = "8 * (k - 1 - n div 8) + n mod 8"
  have m: "n mod 8 < 8" by simp
  with n have "?n < 8 * k" by linarith
  moreover have "?n div 8 = k - 1 - n div 8" "?n mod 8 = n mod 8" by simp_all
  moreover have "8 * (k - 1 - (k - 1 - n div 8)) + n mod 8 = n" using n by simp
  ultimately show "bit (f (f w)) n = bit w n"
    using assms n(1) unfolding swaps_bytes_def by metis
qed

lemma bswap2: "swaps_bytes 2 CRYPTO_bswap2"
  unfolding swaps_bytes_def
proof (intro conjI allI impI)
  fix x :: u16 and n :: nat assume "n < 8 * 2"
  then consider "n < 8" | "8 \<le> n" "n < 16" by linarith
  then show "bit (CRYPTO_bswap2 x) n = bit x (8 * (2 - 1 - n div 8) + n mod 8)"
    by cases (auto simp: CRYPTO_bswap2_def bit_simps le_div_geq le_mod_geq dest: bit_imp_le_length)
qed simp

lemma swap_mask:
  "(0xFF00FF00 :: u32) = push_bit 8 (mask 8) OR push_bit 24 (mask 8)" "(0x00FF00FF :: u32) = mask 8 OR push_bit 16 (mask 8)"
  by (simp_all add: mask_eq_exp_minus_1)

lemma bswap4: "swaps_bytes 4 CRYPTO_bswap4"
  unfolding swaps_bytes_def
proof (intro conjI allI impI)
  fix x :: u32 and n :: nat assume "n < 8 * 4"
  then consider "n < 8" | "8 \<le> n" "n < 16" | "16 \<le> n" "n < 24" | "24 \<le> n" "n < 32" by linarith
  then show "bit (CRYPTO_bswap4 x) n = bit x (8 * (4 - 1 - n div 8) + n mod 8)"
    by cases (auto simp: CRYPTO_bswap4_def swap_mask bit_simps le_div_geq le_mod_geq dest: bit_imp_le_length)
qed simp

lemma bswap8: "swaps_bytes 8 CRYPTO_bswap8"
  unfolding swaps_bytes_def
proof (intro conjI allI impI)
  fix x :: u64 and n :: nat assume n: "n < 8 * 8"
  have four: "k < 32 \<Longrightarrow> bit (CRYPTO_bswap4 y) k = bit y (8 * (3 - k div 8) + k mod 8)" for y k
    using bswap4 unfolding swaps_bytes_def by simp
  have small: "k < 32 \<Longrightarrow> 8 * (3 - k div 8) + k mod 8 < 32" for k :: nat
    using mod_less_divisor [of 8 k] by linarith
  show "bit (CRYPTO_bswap8 x) n = bit x (8 * (8 - 1 - n div 8) + n mod 8)"
  proof (cases "n < 32")
    case True
    then have "n div 8 \<le> 3" by linarith
    then have "32 + (8 * (3 - n div 8) + n mod 8) = 8 * (8 - 1 - n div 8) + n mod 8" by simp
    moreover have "bit (CRYPTO_bswap8 x) n = bit x (32 + (8 * (3 - n div 8) + n mod 8))"
      using True small [OF True] by (simp add: CRYPTO_bswap8_def bit_simps four)
    ultimately show ?thesis by (simp only:)
  next
    case False
    then obtain k where k: "n = k + 32" by (metis le_add_diff_inverse2 not_less)
    then have "k < 32" using n by simp
    moreover have "n div 8 = k div 8 + 4" "n mod 8 = k mod 8"
      using div_mult_self1 [of 8 k 4] mod_mult_self1 [of k 4 8] by (simp_all add: k)
    ultimately have "k < 32" "n div 8 = k div 8 + 4" "n mod 8 = k mod 8" by blast+
    with small [of k] show ?thesis
      by (auto simp: CRYPTO_bswap8_def bit_simps four k dest: bit_imp_le_length)
  qed
qed simp

lemma value_reader_swap:
  assumes "value_reader f (be_bytes k) (\<lambda>_. True)" "swaps_bytes k h"
  shows "value_reader (\<lambda>m. mbind (f m) (\<lambda>v. mreturn (h v))) (word_le_bytes k) (\<lambda>_. True)"
  by (rule value_reader_map [OF assms(1), where k = h])
    (simp_all add: swaps_bytes_be [OF assms(2)] swaps_bytes_twice [OF assms(2)])

interpretation u16le: value_reader CBS_get_u16le "word_le_bytes 2" "\<lambda>_. True"
  using value_reader_swap [OF u16.value_reader_axioms bswap2] by (simp add: CBS_get_u16le_def [abs_def])

interpretation u32le: value_reader CBS_get_u32le "word_le_bytes 4" "\<lambda>_. True"
  using value_reader_swap [OF u32.value_reader_axioms bswap4] by (simp add: CBS_get_u32le_def [abs_def])

interpretation u64le: value_reader CBS_get_u64le "word_le_bytes 8" "\<lambda>_. True"
  using value_reader_swap [OF u64.value_reader_axioms bswap8]
  by (simp add: CBS_get_u64le_def [abs_def] CBS_get_u64_def)

end
