(* ===== verification/DER.thy ===== *)
theory DER
  imports CBS_Read
begin

unbundle bit_operations_syntax

text \<open>
  The DER readers of \<open>crypto/bytestring/cbs.c\<close> against the encoding rules of X.690: base-128
  numbers, tags, lengths and elements, written as functions from a value to its encoding.
  Each reader accepts exactly the encodings, so that no value has two of them: the readers of
  values are instances of \<open>value_reader\<close>.
\<close>

section \<open>Base-128 numbers\<close>

fun base128_front :: "nat \<Rightarrow> byte list" where
  "base128_front n = (if n = 0 then [] else base128_front (n div 128) @ [of_nat (128 + n mod 128)])"

declare base128_front.simps [simp del]

definition base128 :: "nat \<Rightarrow> byte list" where
  "base128 n = base128_front (n div 128) @ [of_nat (n mod 128)]"

text \<open>What the loop accepts from the value \<open>v\<close> on, and the value it ends with.\<close>

fun base128_ok :: "nat \<Rightarrow> byte list \<Rightarrow> bool" where
  "base128_ok v [] = False"
| "base128_ok v (b # bs) =
     (v < 2 ^ 57 \<and> \<not> (v = 0 \<and> b = 0x80) \<and>
      (if unat b < 128 then bs = [] else base128_ok (128 * v + unat b mod 128) bs))"

definition base128_value :: "nat \<Rightarrow> byte list \<Rightarrow> nat" where
  "base128_value v bs = foldl (\<lambda>n b. 128 * n + unat b mod 128) v bs"

lemma base128_value_simps [simp]:
  "base128_value v [] = v" "base128_value v (b # bs) = base128_value (128 * v + unat b mod 128) bs"
  "base128_value v (xs @ ys) = base128_value (base128_value v xs) ys"
  by (simp_all add: base128_value_def)

lemma unat_septet: "unat (of_nat (128 + n mod 128) :: byte) = 128 + n mod 128" "unat (of_nat (n mod 128) :: byte) = n mod 128"
proof -
  have "n mod 128 < 128" by simp
  then show "unat (of_nat (128 + n mod 128) :: byte) = 128 + n mod 128" "unat (of_nat (n mod 128) :: byte) = n mod 128"
    by (simp_all add: unat_of_nat take_bit_nat_eq_self del: of_nat_add)
qed

lemma front_value: "base128_value 0 (base128_front n @ xs) = base128_value n xs"
proof (induction n arbitrary: xs rule: base128_front.induct)
  case (1 n)
  show ?case
  proof (cases "n = 0")
    case False
    have "(128 + n mod 128) mod 128 = n mod 128" by simp
    then show ?thesis
      using 1 [OF False, of "of_nat (128 + n mod 128) # xs"] False
      by (subst base128_front.simps) (simp only: if_False append.assoc append.simps base128_value_simps
          unat_septet mult_div_mod_eq)
  qed (simp add: base128_front.simps)
qed

lemma front_ok:
  assumes "n < 2 ^ 64"
  shows "base128_ok 0 (base128_front n @ xs) = base128_ok n xs"
  using assms
proof (induction n arbitrary: xs rule: base128_front.induct)
  case (1 n)
  show ?case
  proof (cases "n = 0")
    case False
    let ?b = "of_nat (128 + n mod 128) :: byte"
    have m: "(128 + n mod 128) mod 128 = n mod 128" by simp
    have zero: "?b = 0x80 \<longleftrightarrow> n mod 128 = 0"
      using unat_septet(1) [of n] by (auto simp: word_unat_eq_iff simp del: of_nat_add)
    have less: "n div 128 < 2 ^ 57" "n div 128 < 2 ^ 64" using 1(2) by (simp_all add: less_mult_imp_div_less)
    have nz: "\<not> (n div 128 = 0 \<and> n mod 128 = 0)"
      using False mult_div_mod_eq [of 128 n] by auto
    have "base128_front n @ xs = base128_front (n div 128) @ ?b # xs"
      using False by (subst base128_front.simps) simp
    then have "base128_ok 0 (base128_front n @ xs) = base128_ok (n div 128) (?b # xs)"
      using 1(1) [OF False less(2), of "?b # xs"] by simp
    also have "\<dots> = base128_ok n xs"
      by (simp only: base128_ok.simps unat_septet(1) m zero less nz mult_div_mod_eq simp_thms) simp
    finally show ?thesis .
  qed (simp add: base128_front.simps)
qed

lemma base128_is_ok:
  assumes "n < 2 ^ 64"
  shows "base128_ok 0 (base128 n)" "base128_value 0 (base128 n) = n"
proof -
  have "n div 128 < 2 ^ 57" using assms by (simp add: less_mult_imp_div_less)
  moreover have "(of_nat (n mod 128) :: byte) \<noteq> 0x80"
    using unat_septet(2) [of n] mod_less_divisor [of 128 n] by (auto simp: word_unat_eq_iff)
  ultimately show "base128_ok 0 (base128 n)"
    by (simp add: base128_def front_ok unat_septet(2))
  show "base128_value 0 (base128 n) = n"
    by (simp only: base128_def front_value) (simp add: unat_septet(2))
qed

lemma ok_is_base128:
  "base128_ok v xs \<Longrightarrow> base128_value v xs < 2 ^ 64 \<and> base128 (base128_value v xs) = base128_front v @ xs"
proof (induction v xs rule: base128_ok.induct)
  case (2 v b bs)
  show ?case
  proof (cases "unat b < 128")
    case True
    then have "unat b mod 128 = unat b" by simp
    moreover have "(128 * v + unat b) div 128 = v" "(128 * v + unat b) mod 128 = unat b"
      using True by simp_all
    ultimately show ?thesis
      using 2(2) True by (simp add: base128_def)
  next
    case False
    let ?n = "128 * v + unat b mod 128"
    have b: "unat b = 128 + unat b mod 128"
      using False unat_less8 [of b] le_mod_geq [of 128 "unat b"] by simp
    then have "of_nat (128 + unat b mod 128) = b"
      by (metis of_nat_unat ucast_id)
    moreover have "?n \<noteq> 0"
    proof
      assume "?n = 0"
      then have "v = 0" "unat b = 128" using b by simp_all
      with 2(2) show False by (simp add: word_unat_eq_iff)
    qed
    moreover have "?n div 128 = v" "?n mod 128 = unat b mod 128" by simp_all
    ultimately have "base128_front ?n = base128_front v @ [b]"
      by (subst base128_front.simps) (simp del: of_nat_add)
    with 2(1) [OF False] 2(2) False show ?thesis by simp
  qed
qed simp

text \<open>The loop, in these terms.\<close>

lemma unat_and_mask: "unat (x AND mask n) = unat x mod 2 ^ n" for x :: "'a::len word"
  using take_bit_eq_mod [of n "unat x"] by (simp only: unsigned_take_bit_eq flip: take_bit_eq_mask)

lemma byte_masks: "(0x7F :: byte) = mask 7" "(0x1F :: byte) = mask 5" "(7 :: u32) = mask 3"
  by (simp_all add: mask_eq_exp_minus_1)

lemma high_bit: "(b :: byte) AND 0x80 \<noteq> 0 \<longleftrightarrow> 128 \<le> unat b"
proof -
  have "b AND 2 ^ 7 \<noteq> 0 \<longleftrightarrow> bit (unat b) 7"
    unfolding and_exp_eq_0_iff_not_bit by (simp add: bit_unsigned_iff)
  also have "\<dots> \<longleftrightarrow> odd (unat b div 2 ^ 7)" by (rule bit_iff_odd)
  also have "\<dots> \<longleftrightarrow> 128 \<le> unat b"
  proof (cases "128 \<le> unat b")
    case True
    then have "unat b div 128 = 1" using unat_less8 [of b] by (simp add: div_nat_eqI)
    with True show ?thesis by simp
  qed simp
  finally show ?thesis by simp
qed

lemma drop_bit_0_iff: "drop_bit n (v :: 'a::len word) = 0 \<longleftrightarrow> unat v < 2 ^ n"
proof -
  have "drop_bit n v = 0 \<longleftrightarrow> unat v div 2 ^ n = 0"
    using drop_bit_eq_div [of n "unat v"] by (simp only: word_unat_eq_iff unat_drop_bit_eq) simp
  then show ?thesis by (simp add: div_eq_0_iff)
qed

lemma septet_step:
  assumes "unat v < 2 ^ 57"
  shows "unat (push_bit 7 v OR ucast (b AND 0x7F :: byte) :: u64) = 128 * unat v + unat b mod 128"
proof -
  define d :: u64 where "d = ucast (b AND 0x7F)"
  have d: "unat d = unat b mod 128"
    unfolding d_def byte_masks
    by (simp add: unsigned_ucast_eq unat_and_mask take_bit_nat_eq_self order.strict_trans [OF mod_less_divisor])
  then have "unat d < 2 ^ 7" by simp
  then have "take_bit 7 d = d" unfolding fits_iff .
  then have "push_bit 7 v AND d = 0"
    by (auto simp: bit_eq_iff bit_simps)
  then have "push_bit 7 v OR d = push_bit 7 v + d"
    by (rule disjunctive_add_eq_or [symmetric])
  also have "\<dots> = of_nat (128 * unat v + unat b mod 128)"
    using d by (simp add: push_bit_eq_mult flip: d)
  finally show ?thesis
    using assms mod_less_divisor [of 128 "unat b"] unfolding d_def [symmetric]
    by (simp add: unat_of_nat_addr del: of_nat_add of_nat_mult)
qed

lemma base128_loop_Ok:
  "base128_loop m v c = Ok w c' \<longleftrightarrow>
     (\<exists>xs. takes m c xs c' \<and> base128_ok (unat v) xs \<and> base128_value (unat v) xs = unat w)"
proof (induction m v c rule: base128_loop.induct)
  case (1 m v c)
  show ?case
  proof (cases "CBS_get_u8 m c")
    case (Ok b c1)
    then have b: "takes m c [b] c1" by (simp add: u8.reads)
    have "(\<exists>xs. takes m c xs c' \<and> base128_ok (unat v) xs \<and> base128_value (unat v) xs = unat w) \<longleftrightarrow>
        (\<exists>ys. takes m c1 ys c' \<and> base128_ok (unat v) (b # ys) \<and> base128_value (unat v) (b # ys) = unat w)"
      using takes_first [OF b] by (metis base128_ok.elims(2))
    moreover have "base128_loop m v c = Ok w c' \<longleftrightarrow>
        (\<exists>ys. takes m c1 ys c' \<and> base128_ok (unat v) (b # ys) \<and> base128_value (unat v) (b # ys) = unat w)"
    proof (cases "unat v < 2 ^ 57 \<and> \<not> (v = 0 \<and> b = 0x80)")
      case True
      let ?v = "push_bit 7 v OR ucast (b AND 0x7F) :: u64"
      have ok: "drop_bit (64 - 7) v = 0" using True by (simp add: drop_bit_0_iff)
      have zero: "\<not> (unat v = 0 \<and> b = 0x80)" using True by (simp add: unat_eq_0)
      note step = septet_step [OF conjunct1 [OF True], of b]
      show ?thesis
      proof (cases "b AND 0x80 \<noteq> 0")
        case cont: True
        have "base128_loop m v c = base128_loop m ?v c1"
          using Ok ok True cont by (subst base128_loop.simps) (auto simp: Let_def)
        moreover have "\<not> unat b < 128" using cont high_bit [of b] by simp
        ultimately show ?thesis
          using 1 [OF Ok _ _ refl cont] ok True zero by (simp add: step)
      next
        case False
        have "base128_loop m v c = Ok ?v c1"
          using Ok ok True False by (subst base128_loop.simps) (auto simp: Let_def)
        moreover have "unat b < 128" using False high_bit [of b] by simp
        ultimately show ?thesis
          using True zero by (auto simp: word_unat_eq_iff step)
      qed
    next
      case False
      then have "base128_loop m v c = Fail c1"
        using Ok drop_bit_0_iff [of 57 v] by (subst base128_loop.simps) auto
      with False show ?thesis by (auto simp: unat_eq_0)
    qed
    ultimately show ?thesis by blast
  next
    case (Fail c1)
    then have "\<not> takes m c (b # xs) c'" for b xs
      using takes_Cons [of m c b xs c'] by (metis outcome.distinct(1) u8.reads)
    then show ?thesis
      using Fail by (subst base128_loop.simps) (auto elim: base128_ok.elims)
  qed (use u8.total_on [of m] in \<open>auto simp: returns_def\<close>)
qed

lemma returns_base128: "returns (parse_base128_integer m)"
proof -
  have "base128_loop m v c \<noteq> Undef \<and> base128_loop m v c \<noteq> Fuel" for v c
  proof (induction m v c rule: base128_loop.induct)
    case (1 m v c)
    show ?case
      using 1 u8.total_on [of m]
      by (subst (1 2) base128_loop.simps) (auto simp: returns_def Let_def split: outcome.splits)
  qed
  then show ?thesis by (simp add: returns_def parse_base128_integer_def)
qed

interpretation base128: value_reader parse_base128_integer "\<lambda>v. base128 (unat v)" "\<lambda>_. True"
proof
  show "parse_base128_integer m c = Ok v c' \<longleftrightarrow> True \<and> takes m c (base128 (unat v)) c'" for m c v c'
  proof -
    have "base128_ok 0 xs \<and> base128_value 0 xs = unat v \<longleftrightarrow> xs = base128 (unat v)" for xs
      using ok_is_base128 [of 0 xs] base128_is_ok [OF unat_less64 [of v]]
      by (auto simp: base128_front.simps)
    then show ?thesis
      unfolding parse_base128_integer_def base128_loop_Ok by auto
  qed
qed (rule returns_base128)

section \<open>Tags\<close>

text \<open>The in-memory form of a tag: class and constructed bit on top, 29 bits of tag number.\<close>

definition tag_class :: "u32 \<Rightarrow> byte" where
  "tag_class t = ucast (drop_bit 24 t) AND 0xE0"

definition tag_number :: "u32 \<Rightarrow> u32" where
  "tag_number t = take_bit 29 t"

definition make_tag :: "byte \<Rightarrow> u32 \<Rightarrow> u32" where
  "make_tag b n = push_bit 24 (ucast b AND 0xE0) OR n"

definition der_tag :: "u32 \<Rightarrow> byte list" where
  "der_tag t =
     (if unat (tag_number t) < 31 then [tag_class t OR ucast (tag_number t)]
      else (tag_class t OR 0x1F) # base128 (unat (tag_number t)))"

lemma class_bits: "(0xE0 :: 'a::len word) = push_bit 5 (mask 3)"
  by (simp add: mask_eq_exp_minus_1)

lemma asn1_tag_parts:
  "bit (tag_class t) k \<longleftrightarrow> 5 \<le> k \<and> k < 8 \<and> bit t (24 + k)"
  "bit (make_tag b n) k \<longleftrightarrow> 29 \<le> k \<and> k < 32 \<and> bit b (k - 24) \<or> bit n k"
  "bit (tag_number t) k \<longleftrightarrow> k < 29 \<and> bit t k"
  by (auto simp: tag_class_def make_tag_def tag_number_def class_bits bit_simps
      dest: bit_imp_le_length)

lemma make_tag_inverse:
  assumes "take_bit 29 n = n"
  shows "tag_class (make_tag b n) = b AND 0xE0" "tag_number (make_tag b n) = n"
proof -
  have n: "bit n k \<Longrightarrow> k < 29" for k
    using assms by (metis bit_take_bit_iff)
  show "tag_class (make_tag b n) = b AND 0xE0" "tag_number (make_tag b n) = n"
    by (rule bit_word_eqI; use n in \<open>force simp: asn1_tag_parts class_bits bit_simps\<close>)+
qed

lemma make_tag_parts:
  assumes "b AND 0xE0 = tag_class t"
  shows "make_tag b (tag_number t) = t"
proof (rule bit_word_eqI)
  fix k assume k: "k < LENGTH(32)"
  have "bit b (k - 24) = bit t k" if "29 \<le> k"
  proof -
    have "bit (b AND 0xE0) (k - 24) = bit (tag_class t) (k - 24)" using assms by simp
    then show ?thesis using that k by (auto simp: asn1_tag_parts class_bits bit_simps)
  qed
  then show "bit (make_tag b (tag_number t)) k = bit t k"
    using k by (auto simp: asn1_tag_parts)
qed

lemma returns_tag: "returns (parse_asn1_tag m)"
  using u8.total_on [of m] returns_base128 [of m]
  by (auto simp: parse_asn1_tag_def returns_def mbind_def Let_def split: outcome.splits)

lemma parse_tag_cases:
  "parse_asn1_tag m c = Ok t c' \<longleftrightarrow>
     (\<exists>b c1. takes m c [b] c1 \<and>
        (if b AND 0x1F = 0x1F
         then \<exists>v :: u64. takes m c1 (base128 (unat v)) c' \<and> 31 \<le> unat v \<and> unat v < 2 ^ 29 \<and> t = make_tag b (ucast v)
         else c' = c1 \<and> t = make_tag b (ucast (b AND 0x1F))))"
proof -
  have low: "(ucast (b AND 0x1F) :: u32) = 0x1F \<longleftrightarrow> b AND 0x1F = 0x1F" for b :: byte
    by (simp add: word_unat_eq_iff unat_ucast_up)
  have "(ucast CBS_ASN1_TAG_NUMBER_MASK :: u64) = 0x1FFFFFFF"
    by (simp add: CBS_ASN1_TAG_NUMBER_MASK_def CBS_ASN1_TAG_SHIFT_def)
  then have bounds: "\<not> (ucast CBS_ASN1_TAG_NUMBER_MASK < v \<or> v < 0x1F) \<longleftrightarrow> 31 \<le> unat v \<and> unat v < 2 ^ 29" for v :: u64
    by (auto simp: word_less_nat_alt)
  have "(\<lambda>tag_byte c1. (let tag = push_bit CBS_ASN1_TAG_SHIFT (ucast tag_byte AND 0xE0);
         tag_number = ucast (tag_byte AND 0x1F)
     in if tag_number = 0x1F then
          mbind (parse_base128_integer m) (\<lambda>v c.
            if ucast CBS_ASN1_TAG_NUMBER_MASK < v \<or> v < 0x1F then Fail c
            else Ok (tag OR ucast v) c)
        else mreturn (tag OR tag_number)) c1) b c1 = Ok t c' \<longleftrightarrow>
      (if b AND 0x1F = 0x1F
       then \<exists>v :: u64. takes m c1 (base128 (unat v)) c' \<and> 31 \<le> unat v \<and> unat v < 2 ^ 29 \<and> t = make_tag b (ucast v)
       else c' = c1 \<and> t = make_tag b (ucast (b AND 0x1F)))" for b c1
  proof (cases "b AND 0x1F = 0x1F")
    case True
    have "(\<exists>(v :: u64) c''. takes m c1 (base128 (unat v)) c'' \<and>
        (if ucast CBS_ASN1_TAG_NUMBER_MASK < v \<or> v < 0x1F then Fail c''
         else Ok (make_tag b (ucast v)) c'') = Ok t c') \<longleftrightarrow>
      (\<exists>v :: u64. takes m c1 (base128 (unat v)) c' \<and> 31 \<le> unat v \<and> unat v < 2 ^ 29 \<and> t = make_tag b (ucast v))"
    proof (rule ex_cong1)
      fix v :: u64
      show "(\<exists>c''. takes m c1 (base128 (unat v)) c'' \<and>
          (if ucast CBS_ASN1_TAG_NUMBER_MASK < v \<or> v < 0x1F then Fail c''
           else Ok (make_tag b (ucast v)) c'') = Ok t c') \<longleftrightarrow>
        takes m c1 (base128 (unat v)) c' \<and> 31 \<le> unat v \<and> unat v < 2 ^ 29 \<and> t = make_tag b (ucast v)"
        using bounds [of v] by (cases "ucast CBS_ASN1_TAG_NUMBER_MASK < v \<or> v < 0x1F") auto
    qed
    then show ?thesis
      using True low [of b] unfolding make_tag_def CBS_ASN1_TAG_SHIFT_def
      by (simp only: Let_def if_True reader_bind [OF base128.value_reader_axioms] simp_thms)
  qed (use low [of b] in \<open>auto simp: make_tag_def CBS_ASN1_TAG_SHIFT_def Let_def\<close>)
  then show ?thesis
    unfolding parse_asn1_tag_def reader_bind [OF u8.value_reader_axioms] by simp
qed

lemma byte_halves: "(b AND 0xE0) OR (b AND 0x1F) = (b :: byte)"
  by (rule bit_word_eqI) (auto simp: class_bits byte_masks bit_simps)

lemma join_halves:
  assumes "x AND 0x1F = x"
  shows "(tag_class t OR x) AND 0xE0 = tag_class t" "(tag_class t OR x) AND 0x1F = x"
proof -
  have x: "bit x k \<Longrightarrow> k < 5" for k
    using assms by (metis bit_mask_iff bit_and_iff byte_masks(2))
  show "(tag_class t OR x) AND 0xE0 = tag_class t" "(tag_class t OR x) AND 0x1F = x"
    by (rule bit_word_eqI; use x in \<open>force simp: asn1_tag_parts class_bits byte_masks bit_simps\<close>)+
qed

lemma der_tag_make:
  assumes "unat n < 2 ^ 29" "b AND 0x1F = (if unat n < 31 then ucast n else 0x1F)"
  shows "der_tag (make_tag b n) = b # (if unat n < 31 then [] else base128 (unat n))"
proof -
  have "take_bit 29 n = n" using assms(1) by (simp add: fits_iff)
  then show ?thesis
    using byte_halves [of b] assms(2) by (auto simp: der_tag_def make_tag_inverse)
qed

lemma unat_low: "unat (b AND 0x1F :: byte) = unat b mod 32"
  by (simp add: byte_masks unat_and_mask)

interpretation asn1_tag: value_reader parse_asn1_tag der_tag "\<lambda>_. True"
proof
  show "parse_asn1_tag m c = Ok t c' \<longleftrightarrow> True \<and> takes m c (der_tag t) c'" for m c t c'
  proof
    assume "parse_asn1_tag m c = Ok t c'"
    then obtain b c1 where b: "takes m c [b] c1" and
      "(\<exists>v :: u64. b AND 0x1F = 0x1F \<and> takes m c1 (base128 (unat v)) c' \<and> 31 \<le> unat v \<and> unat v < 2 ^ 29 \<and>
          t = make_tag b (ucast v)) \<or>
       b AND 0x1F \<noteq> 0x1F \<and> c' = c1 \<and> t = make_tag b (ucast (b AND 0x1F))"
      unfolding parse_tag_cases by (auto split: if_splits)
    then show "True \<and> takes m c (der_tag t) c'"
    proof (elim disjE exE conjE)
      fix v :: u64
      assume v: "b AND 0x1F = 0x1F" "takes m c1 (base128 (unat v)) c'" "31 \<le> unat v" "unat v < 2 ^ 29"
        "t = make_tag b (ucast v)"
      have "unat (ucast v :: u32) = unat v"
        using v(4) by (simp add: unsigned_ucast_eq take_bit_nat_eq_self)
      with v der_tag_make [of "ucast v" b] have "der_tag t = b # base128 (unat v)" by simp
      with b v(2) show ?thesis by (auto simp: takes_first)
    next
      assume s: "b AND 0x1F \<noteq> 0x1F" "c' = c1" "t = make_tag b (ucast (b AND 0x1F))"
      have "unat b mod 32 \<noteq> 31" using s(1) unat_low [of b] by (auto simp: word_unat_eq_iff)
      then have "unat (ucast (b AND 0x1F) :: u32) < 31"
        using mod_less_divisor [of 32 "unat b"] by (simp add: unat_ucast_up unat_low)
      with s der_tag_make [of "ucast (b AND 0x1F)" b] have "der_tag t = [b]"
        by (simp add: ucast_back take_bit_word_eq_self)
      with b s(2) show ?thesis by simp
    qed
  next
    assume "True \<and> takes m c (der_tag t) c'"
    then have t: "takes m c (der_tag t) c'" by simp
    have n: "unat (tag_number t) < 2 ^ 29"
      using fits_iff [of 29 "tag_number t"] by (simp add: tag_number_def)
    show "parse_asn1_tag m c = Ok t c'"
    proof (cases "unat (tag_number t) < 31")
      case True
      let ?x = "ucast (tag_number t) :: byte"
      have ux: "unat ?x = unat (tag_number t)"
        using True by (simp add: unsigned_ucast_eq take_bit_nat_eq_self)
      then have x: "?x AND 0x1F = ?x" using True by (simp add: word_unat_eq_iff unat_low)
      have again: "ucast ?x = tag_number t"
        using ux by (simp add: word_unat_eq_iff unat_ucast_up)
      have "?x \<noteq> 0x1F" using True ux by auto
      then show ?thesis
        unfolding parse_tag_cases
        using t True join_halves [OF x, of t] make_tag_parts [OF join_halves(1) [OF x]] again
        by (intro exI [of _ "tag_class t OR ?x"] exI [of _ c']) (simp add: der_tag_def)
    next
      case False
      let ?b = "tag_class t OR 0x1F"
      have x: "(0x1F :: byte) AND 0x1F = 0x1F" by simp
      obtain c1 where "takes m c [?b] c1" "takes m c1 (base128 (unat (tag_number t))) c'"
        using t False takes_Cons [of m c ?b _ c'] by (auto simp: der_tag_def)
      moreover have "unat (ucast (tag_number t) :: u64) = unat (tag_number t)" by (simp add: unat_ucast_up)
      moreover have "ucast (ucast (tag_number t) :: u64) = tag_number t"
        by (simp add: ucast_back take_bit_word_eq_self)
      ultimately show ?thesis
        unfolding parse_tag_cases
        using False n join_halves [OF x, of t] make_tag_parts [OF join_halves(1) [OF x]]
        by (intro exI [of _ ?b] exI [of _ c1]) (auto intro!: exI [of _ "ucast (tag_number t) :: u64"])
    qed
  qed
qed (rule returns_tag)

section \<open>Elements\<close>

text \<open>The minimal length octets of X.690 section 10.1; four octets at most are supported.\<close>

fun octets :: "nat \<Rightarrow> nat" where
  "octets n = (if n = 0 then 0 else Suc (octets (n div 256)))"

declare octets.simps [simp del]

definition der_length :: "nat \<Rightarrow> byte list" where
  "der_length n =
     (if n < 128 then [of_nat n] else of_nat (128 + octets n) # be_bytes (octets n) (of_nat n :: u64))"

definition der_header :: "u32 \<Rightarrow> nat \<Rightarrow> byte list" where
  "der_header t n = der_tag t @ der_length n"

definition der :: "u32 \<Rightarrow> byte list \<Rightarrow> byte list" where
  "der t body = der_header t (length body) @ body"

lemma octets_le_iff: "octets n \<le> k \<longleftrightarrow> n < 256 ^ k"
proof (induction k arbitrary: n)
  case 0
  show ?case by (subst octets.simps) simp
next
  case (Suc k)
  show ?case
    using Suc [of "n div 256"] by (subst octets.simps) (auto simp: div_less_iff_less_mult mult.commute)
qed

lemma octets_eq_iff: "0 < k \<Longrightarrow> octets n = k \<longleftrightarrow> 256 ^ (k - 1) \<le> n \<and> n < 256 ^ k"
  using octets_le_iff [of n k] octets_le_iff [of n "k - 1"] by linarith

lemma octets_eq_bits: "0 < k \<Longrightarrow> octets n = k \<longleftrightarrow> 2 ^ (8 * (k - 1)) \<le> n \<and> n < 2 ^ (8 * k)"
  using octets_eq_iff [of k n] by (simp add: power_mult)

lemma octets_small: "n < 2 ^ 32 \<Longrightarrow> octets n \<le> 4"
  by (simp add: octets_le_iff)

text \<open>The front of the cursor against a string that stands there too.\<close>

lemma takes_prefix:
  assumes "takes m c xs c1" "takes m c zs c2" "length xs \<le> length zs"
  shows "\<exists>ys. zs = xs @ ys \<and> takes m c1 ys c2"
proof -
  have "zs = take (length xs) zs @ drop (length xs) zs" by simp
  then obtain c' where c': "takes m c (take (length xs) zs) c'" "takes m c' (drop (length xs) zs) c2"
    using assms(2) takes_append by metis
  then have "xs = take (length xs) zs" "c1 = c'"
    using takes_same [OF assms(1) c'(1)] assms(3) by simp_all
  with c'(2) show ?thesis by (metis append_take_drop_id)
qed

lemma header_length: "takes m c xs c1 \<Longrightarrow> CBS_len c - CBS_len c1 = of_nat (length xs)"
  by (auto simp: takes_iff cbs_drop_def CBS_len_def)

lemma length_der_tag: "length (der_tag t) \<le> 6"
proof -
  have short: "length (base128_front n) \<le> k" if "n < 128 ^ k" for n k
    using that
  proof (induction n arbitrary: k rule: base128_front.induct)
    case (1 n)
    show ?case
    proof (cases "n = 0")
      case False
      then obtain j where j: "k = Suc j" using 1(2) by (cases k) auto
      then have "n div 128 < 128 ^ j" using 1(2) by (simp add: less_mult_imp_div_less mult.commute)
      with 1(1) [OF False] j show ?thesis
        using False by (subst base128_front.simps) simp
    qed (simp add: base128_front.simps)
  qed
  have "unat (tag_number t) < 2 ^ 29"
    using fits_iff [of 29 "tag_number t"] by (simp add: tag_number_def)
  then have "unat (tag_number t) div 128 < 128 ^ 4" by (simp add: less_mult_imp_div_less)
  from short [OF this] show ?thesis by (simp add: der_tag_def base128_def)
qed

text \<open>The two forms of a length that DER allows, as paths through the code.\<close>

definition short_form :: "mem \<Rightarrow> cbs \<Rightarrow> u32 \<Rightarrow> byte \<Rightarrow> cbs \<Rightarrow> bool" where
  "short_form m c t lb h \<longleftrightarrow> takes m c (der_tag t @ [lb]) h \<and> unat lb < 128"

definition long_form :: "mem \<Rightarrow> cbs \<Rightarrow> u32 \<Rightarrow> byte \<Rightarrow> u64 \<Rightarrow> cbs \<Rightarrow> bool" where
  "long_form m c t lb v h \<longleftrightarrow>
     (let n = unat lb - 128 in takes m c (der_tag t @ lb # be_bytes n v) h \<and> 128 \<le> unat lb \<and>
        n \<noteq> 0 \<and> n \<le> 4 \<and> unat v < 2 ^ (8 * n) \<and> 128 \<le> unat v \<and> 2 ^ (8 * (n - 1)) \<le> unat v)"

lemma length_bits: "unat (ucast (lb AND 0x7F :: byte) :: u64) = unat lb mod 128"
  by (simp add: unat_ucast_up byte_masks unat_and_mask)

lemma element_short:
  assumes "short_form m c t lb h"
  shows "cbs_get_any_asn1_element m ber_ok c =
    mbind (CBS_get_bytes (of_nat (length (der_tag t @ [lb]) + unat lb)))
      (\<lambda>out. mreturn (out, t, of_nat (length (der_tag t @ [lb])), False)) c"
proof -
  obtain h1 where h1: "takes m c (der_tag t) h1" "takes m h1 [lb] h"
    using assms by (auto simp: short_form_def takes_append)
  have hdr: "CBS_len c - CBS_len h = of_nat (length (der_tag t @ [lb]))"
    using assms by (intro header_length [where m = m]) (simp add: short_form_def)
  have "lb AND 0x80 = 0" using assms high_bit [of lb] by (auto simp: short_form_def)
  moreover have "(ucast lb :: u64) = of_nat (unat lb)" by simp
  ultimately show ?thesis
    using h1 by (simp add: cbs_get_any_asn1_element_def asn1_tag.reads [THEN iffD2] u8.reads [THEN iffD2] hdr Let_def
        del: of_nat_unat) (simp add: ac_simps)
qed

lemma element_long:
  assumes "long_form m c t lb v h"
  shows "cbs_get_any_asn1_element m False c =
    mbind (CBS_get_bytes (of_nat (length (der_tag t @ lb # be_bytes (unat lb - 128) v) + unat v)))
      (\<lambda>out. mreturn (out, t, of_nat (length (der_tag t @ lb # be_bytes (unat lb - 128) v)), False)) c"
proof -
  define n where "n = unat lb - 128"
  have lf: "takes m c (der_tag t @ lb # be_bytes n v) h" "128 \<le> unat lb" "n \<noteq> 0" "n \<le> 4"
    "unat v < 2 ^ (8 * n)" "128 \<le> unat v" "2 ^ (8 * (n - 1)) \<le> unat v"
    using assms by (simp_all add: long_form_def Let_def n_def)
  obtain h1 h2 where h: "takes m c (der_tag t) h1" "takes m h1 [lb] h2" "takes m h2 (be_bytes n v) h"
    using lf(1) takes_Cons [of m _ lb "be_bytes n v"] by (auto simp: takes_append)
  have "takes m c (der_tag t @ [lb]) h2" using h(1,2) takes_append by blast
  then have hdr: "CBS_len c - CBS_len h2 = of_nat (length (der_tag t @ [lb]))" by (rule header_length)
  define k :: u64 where "k = ucast (lb AND 0x7F)"
  have uk: "unat k = n" using lf(2) unat_less8 [of lb] by (simp add: k_def length_bits n_def le_mod_geq)
  have k: "k = of_nat n" using uk by (metis of_nat_unat ucast_id)
  have "2 ^ (8 * n) \<le> (2 :: nat) ^ 32" using lf(4) by (intro power_increasing) simp_all
  with lf(5) have v: "unat v < 2 ^ 32" by linarith
  have "cbs_get_u m k h2 = Ok v h"
    using value_reader.reads [OF cbs_get_u_reads [of k]] lf(3,4,5) h(3)
    by (simp add: uk fits_iff word_le_nat_alt)
  moreover have "lb AND 0x80 \<noteq> 0" using lf(2) high_bit [of lb] by simp
  moreover have "k \<noteq> 0" "\<not> 4 < k" using lf(3,4) uk by (auto simp: word_less_nat_alt)
  moreover have "\<not> v < 128" "drop_bit ((unat k - 1) * 8) v \<noteq> 0"
    using lf(6,7) by (simp_all add: uk drop_bit_0_iff word_less_nat_alt mult.commute)
  moreover have "\<not> v + of_nat (length (der_tag t @ [lb])) + k < v"
  proof -
    have sum: "v + of_nat (length (der_tag t @ [lb])) + k = of_nat (unat v + length (der_tag t @ [lb]) + n)"
      by (simp add: k)
    have "unat (of_nat (unat v + length (der_tag t @ [lb]) + n) :: u64) = unat v + length (der_tag t @ [lb]) + n"
      using v lf(4) length_der_tag [of t] by (intro unat_of_nat_addr) simp
    then show ?thesis unfolding word_less_nat_alt sum by simp
  qed
  ultimately show ?thesis
    unfolding cbs_get_any_asn1_element_def
    using h(1,2) by (simp add: asn1_tag.reads [THEN iffD2] u8.reads [THEN iffD2] hdr Let_def k_def [symmetric])
      (simp add: k n_def algebra_simps)
qed

lemma element_forms:
  assumes "cbs_get_any_asn1_element m False c = Ok r c'"
  shows "\<exists>t lb h v. short_form m c t lb h \<or> long_form m c t lb v h"
proof -
  from assms obtain t h1 where h1: "parse_asn1_tag m c = Ok t h1"
    by (auto simp: cbs_get_any_asn1_element_def split: outcome.splits)
  from assms h1 obtain lb h2 where h2: "CBS_get_u8 m h1 = Ok lb h2"
    by (auto simp: cbs_get_any_asn1_element_def split: outcome.splits)
  have front: "takes m c (der_tag t @ [lb]) h2"
    using h1 h2 by (auto simp: asn1_tag.reads u8.reads takes_append)
  show ?thesis
  proof (cases "unat lb < 128")
    case True
    with front show ?thesis by (auto simp: short_form_def)
  next
    case False
    define k :: u64 where "k = ucast (lb AND 0x7F)"
    define n where "n = unat lb - 128"
    have k: "unat k = n" using False unat_less8 [of lb] by (simp add: k_def length_bits n_def le_mod_geq)
    have "lb AND 0x80 \<noteq> 0" using False high_bit [of lb] by simp
    then have rest: "\<not> (k = 0 \<or> 4 < k)" "\<exists>v h3. cbs_get_u m k h2 = Ok v h3 \<and> \<not> v < 128 \<and> drop_bit ((unat k - 1) * 8) v \<noteq> 0"
      using assms h1 h2
      by (auto simp: cbs_get_any_asn1_element_def Let_def k_def [symmetric] split: outcome.splits if_splits)
    then obtain v h3 where v: "cbs_get_u m k h2 = Ok v h3" "\<not> v < 128" "drop_bit ((unat k - 1) * 8) v \<noteq> 0"
      by blast
    have n: "n \<noteq> 0" "n \<le> 4" using rest(1) k unat_eq_0 [of k] by (auto simp: word_less_nat_alt)
    then have "unat v < 2 ^ (8 * n)" "takes m h2 (be_bytes n v) h3"
      using v(1) value_reader.reads [OF cbs_get_u_reads [of k]] k by (simp_all add: fits_iff word_le_nat_alt)
    moreover from this(2) front have "takes m c (der_tag t @ lb # be_bytes n v) h3"
      using takes_append [of m c "der_tag t @ [lb]" "be_bytes n v"] by auto
    ultimately have "long_form m c t lb v h3"
      using n v(2,3) False by (simp add: long_form_def Let_def n_def [symmetric] k drop_bit_0_iff word_less_nat_alt mult.commute)
    then show ?thesis by blast
  qed
qed

lemma CBS_get_body:
  assumes "takes m c hdr h" "length hdr + n < 2 ^ 64"
  shows "CBS_get_bytes (of_nat (length hdr + n)) c = Ok out c' \<longleftrightarrow>
    (\<exists>body. length body = n \<and> takes m c (hdr @ body) c' \<and> out = CBS_init (cbs_data c) (of_nat (length hdr + n)))"
proof
  have len: "length (cbs_bytes m (CBS_init p (of_nat (length hdr + n)))) = length hdr + n" for p
    using assms(2) by (simp add: CBS_init_def unat_of_nat_addr del: of_nat_add)
  assume "CBS_get_bytes (of_nat (length hdr + n)) c = Ok out c'"
  then have out: "out = CBS_init (cbs_data c) (of_nat (length hdr + n))" "takes m c (cbs_bytes m out) c'"
    unfolding CBS_get_bytes_Ok [where m = m] CBS_init_def by blast+
  from takes_prefix [OF assms(1) out(2)] len obtain body where "cbs_bytes m out = hdr @ body" "takes m h body c'"
    unfolding out(1) by auto
  then show "\<exists>body. length body = n \<and> takes m c (hdr @ body) c' \<and> out = CBS_init (cbs_data c) (of_nat (length hdr + n))"
    using out len by (metis add_left_cancel length_append)
next
  assume "\<exists>body. length body = n \<and> takes m c (hdr @ body) c' \<and> out = CBS_init (cbs_data c) (of_nat (length hdr + n))"
  then obtain body where b: "length body = n" "takes m c (hdr @ body) c'"
    and out: "out = CBS_init (cbs_data c) (of_nat (length hdr + n))" by blast
  have "cbs_bytes m out = hdr @ body"
    using b assms(2) by (simp add: out cbs_bytes_def CBS_init_def takes_iff unat_of_nat_addr del: of_nat_add)
  with b out show "CBS_get_bytes (of_nat (length hdr + n)) c = Ok out c'"
    by (simp add: CBS_get_bytes_Ok [where m = m] CBS_init_def)
qed

lemma unat_of_nat8: "n < 256 \<Longrightarrow> unat (of_nat n :: byte) = n"
  by (simp add: unat_of_nat take_bit_nat_eq_self)

lemma short_header: "short_form m c t lb h \<Longrightarrow> der_header t (unat lb) = der_tag t @ [lb]"
  by (simp add: short_form_def der_header_def der_length_def)

lemma long_header:
  assumes "long_form m c t lb v h"
  shows "der_header t (unat v) = der_tag t @ lb # be_bytes (unat lb - 128) v \<and> unat v < 2 ^ 32"
proof -
  define n where "n = unat lb - 128"
  have lf: "128 \<le> unat lb" "0 < n" "n \<le> 4" "unat v < 2 ^ (8 * n)" "128 \<le> unat v" "2 ^ (8 * (n - 1)) \<le> unat v"
    using assms by (simp_all add: long_form_def Let_def n_def)
  have "octets (unat v) = n" using octets_eq_bits [OF lf(2)] lf(4,6) by blast
  moreover have "of_nat (128 + n) = lb"
    using lf(1) unat_of_nat8 [of "unat lb"] unat_less8 [of lb] by (simp add: n_def word_unat_eq_iff)
  moreover have "2 ^ (8 * n) \<le> (2 :: nat) ^ 32" using lf(3) by (intro power_increasing) simp_all
  with lf(4) have "unat v < 2 ^ 32" by linarith
  ultimately show ?thesis
    using lf(5) by (simp add: der_header_def der_length_def flip: n_def del: of_nat_add)
qed

lemma der_forms:
  assumes "takes m c (der_header t L) h" "L < 2 ^ 32"
  shows "L < 128 \<and> short_form m c t (of_nat L) h \<or>
    128 \<le> L \<and> long_form m c t (of_nat (128 + octets L)) (of_nat L) h"
proof (cases "L < 128")
  case True
  then show ?thesis
    using assms(1) unat_of_nat8 [of L] by (simp add: short_form_def der_header_def der_length_def)
next
  case False
  have o: "octets L \<le> 4" "octets L \<noteq> 0" using octets_small [OF assms(2)] False
    by (auto simp: octets.simps)
  have "unat (of_nat (128 + octets L) :: byte) = 128 + octets L" using o by (intro unat_of_nat8) simp
  moreover have "unat (of_nat L :: u64) = L" using assms(2) by (intro unat_of_nat_addr) simp
  moreover have "2 ^ (8 * (octets L - 1)) \<le> L \<and> L < 2 ^ (8 * octets L)"
    using octets_eq_bits [of "octets L" L] o by blast
  ultimately have "long_form m c t (of_nat (128 + octets L)) (of_nat L) h"
    using assms(1) False o by (simp add: long_form_def Let_def der_header_def der_length_def del: of_nat_add)
  with False show ?thesis by simp
qed

lemma length_der_header: "L < 2 ^ 32 \<Longrightarrow> length (der_header t L) \<le> 11"
  using length_der_tag [of t] octets_small [of L] by (simp add: der_header_def der_length_def)

text \<open>An element is read exactly where its DER encoding stands.\<close>

lemma element_Ok:
  "CBS_get_any_asn1_element m c = Ok (out, t, hl) c' \<longleftrightarrow>
     (\<exists>body. length body < 2 ^ 32 \<and> takes m c (der t body) c' \<and>
        hl = of_nat (length (der_header t (length body))) \<and>
        out = CBS_init (cbs_data c) (of_nat (length (der t body))))" (is "?l \<longleftrightarrow> ?r")
proof -
  have el: "CBS_get_any_asn1_element m c = Ok (out, t, hl) c' \<longleftrightarrow>
      (\<exists>b. cbs_get_any_asn1_element m False c = Ok (out, t, hl, b) c')"
    by (auto simp: CBS_get_any_asn1_element_def mbind_Ok_iff split: prod.splits)
  have body: "mbind (CBS_get_bytes (of_nat (length hdr + n))) (\<lambda>out. mreturn (out, t', of_nat (length hdr), False)) c
        = Ok (out, t, hl, b) c' \<longleftrightarrow>
      (\<exists>body. length body = n \<and> takes m c (hdr @ body) c' \<and> out = CBS_init (cbs_data c) (of_nat (length hdr + n)) \<and>
        t = t' \<and> hl = of_nat (length hdr) \<and> \<not> b)"
    if "takes m c hdr h" "hdr = der_header t' n" "n < 2 ^ 32" for hdr h n t' b
    using CBS_get_body [OF that(1), of n out] length_der_header [OF that(3), of t'] that(2,3)
    by (auto simp: mbind_Ok_iff simp del: of_nat_add)
  show ?thesis
  proof
    assume ?l
    then obtain b where l: "cbs_get_any_asn1_element m False c = Ok (out, t, hl, b) c'" unfolding el by blast
    have "\<exists>t' n h. takes m c (der_header t' n) h \<and> n < 2 ^ 32 \<and>
      cbs_get_any_asn1_element m False c = mbind (CBS_get_bytes (of_nat (length (der_header t' n) + n)))
        (\<lambda>out. mreturn (out, t', of_nat (length (der_header t' n)), False)) c"
      using element_forms [OF l]
    proof (elim exE disjE)
      fix t' lb h v
      assume s: "short_form m c t' lb h"
      have "unat lb < 2 ^ 32" using unat_less8 [of lb] by simp
      with s element_short [OF s, of False] show ?thesis
        unfolding short_form_def short_header [OF s, symmetric] by blast
    next
      fix t' lb h v
      assume g: "long_form m c t' lb v h"
      with element_long [OF g] long_header [OF g] show ?thesis
        unfolding long_form_def Let_def by metis
    qed
    then obtain t' n h where h: "takes m c (der_header t' n) h" "n < 2 ^ 32" and
      eq: "cbs_get_any_asn1_element m False c = mbind (CBS_get_bytes (of_nat (length (der_header t' n) + n)))
        (\<lambda>out. mreturn (out, t', of_nat (length (der_header t' n)), False)) c" by blast
    from l obtain body where "length body = n" "takes m c (der_header t' n @ body) c'"
      "out = CBS_init (cbs_data c) (of_nat (length (der_header t' n) + n))" "t = t'" "hl = of_nat (length (der_header t' n))"
      unfolding eq body [OF h(1) refl h(2)] by blast
    with h(2) show ?r by (intro exI [of _ body]) (simp add: der_def)
  next
    assume ?r
    then obtain body where r: "length body < 2 ^ 32" "takes m c (der t body) c'"
        "hl = of_nat (length (der_header t (length body)))" "out = CBS_init (cbs_data c) (of_nat (length (der t body)))"
      by blast
    then obtain h where h: "takes m c (der_header t (length body)) h" unfolding der_def takes_append by blast
    let ?L = "length body"
    have "mbind (CBS_get_bytes (of_nat (length (der_header t ?L) + ?L)))
        (\<lambda>out. mreturn (out, t, of_nat (length (der_header t ?L)), False)) c = Ok (out, t, hl, False) c'"
      unfolding body [OF h refl r(1)] by (intro exI [of _ body]) (use r in \<open>simp add: der_def\<close>)
    moreover have "cbs_get_any_asn1_element m False c = mbind (CBS_get_bytes (of_nat (length (der_header t ?L) + ?L)))
        (\<lambda>out. mreturn (out, t, of_nat (length (der_header t ?L)), False)) c"
      using der_forms [OF h r(1)]
    proof (elim disjE conjE)
      assume "?L < 128" and s: "short_form m c t (of_nat ?L) h"
      then have n: "unat (of_nat ?L :: byte) = ?L" by (simp add: unat_of_nat8)
      show ?thesis
        using element_short [OF s, of False] short_header [OF s] unfolding n by (simp only:)
    next
      assume "128 \<le> ?L" and g: "long_form m c t (of_nat (128 + octets ?L)) (of_nat ?L) h"
      have n: "unat (of_nat ?L :: u64) = ?L" using r(1) by (intro unat_of_nat_addr) simp
      show ?thesis
        using element_long [OF g] long_header [OF g] unfolding n by (simp only:)
    qed
    ultimately show ?l unfolding el by metis
  qed
qed

text \<open>\<open>out\<close> is the content of the element of tag \<open>t\<close> at the front of \<open>c\<close>.\<close>

definition der_at :: "mem \<Rightarrow> cbs \<Rightarrow> u32 \<Rightarrow> cbs \<Rightarrow> cbs \<Rightarrow> bool" where
  "der_at m c t out c' \<longleftrightarrow>
     unat (cbs_len out) < 2 ^ 32 \<and> takes m c (der t (cbs_bytes m out)) c' \<and>
     cbs_data out = cbs_data c + of_nat (length (der_header t (unat (cbs_len out))))"

lemma skip_header:
  assumes "length body < 2 ^ 32" "takes m c (der t body) c'"
  shows "CBS_skip (of_nat (length (der_header t (length body)))) (CBS_init (cbs_data c) (of_nat (length (der t body)))) = Ok u out \<longleftrightarrow>
    der_at m c t out c' \<and> cbs_bytes m out = body"
proof -
  let ?h = "length (der_header t (length body))"
  let ?o = "CBS_init (cbs_data c + of_nat ?h) (of_nat (length body))"
  have h: "?h \<le> 11" using length_der_header [OF assms(1)] .
  have w: "unat (of_nat ?h :: u64) = ?h" "unat (of_nat (length (der t body)) :: u64) = ?h + length body"
    "unat (of_nat (length body) :: u64) = length body"
    using h assms(1) unat_of_nat_addr [of "?h + length body"] unat_of_nat_addr [of ?h] unat_of_nat_addr [of "length body"]
    by (simp_all add: der_def del: of_nat_add)
  have skip: "CBS_skip (of_nat ?h) (CBS_init (cbs_data c) (of_nat (length (der t body)))) = Ok u out \<longleftrightarrow> out = ?o"
    unfolding CBS_skip_Ok by (simp add: CBS_init_def cbs_drop_def w) (simp add: der_def)
  have bytes: "cbs_bytes m ?o = body"
    using assms(2) mem_bytes_add [of m "cbs_data c" ?h "length body"]
    by (simp add: takes_iff der_def cbs_bytes_def CBS_init_def w)
  have "out = ?o" if "der_at m c t out c'" "cbs_bytes m out = body"
    using that arg_cong [OF that(2), of length] by (auto simp: der_at_def CBS_init_def)
  moreover have "der_at m c t ?o c'"
    using assms bytes by (simp add: der_at_def) (simp add: CBS_init_def w)
  ultimately show ?thesis using skip bytes by blast
qed

lemma skip_case:
  "(case CBS_skip n el of Ok _ out \<Rightarrow> Ok (g out) c | _ \<Rightarrow> Fail c) = Ok r c' \<longleftrightarrow>
     (\<exists>out. CBS_skip n el = Ok () out \<and> r = g out \<and> c' = c)"
  by (cases "CBS_skip n el") auto

lemma get_any_asn1_Ok: "CBS_get_any_asn1 m c = Ok (out, t) c' \<longleftrightarrow> der_at m c t out c'" (is "?l \<longleftrightarrow> ?r")
proof
  assume ?l
  then obtain el hl where "CBS_get_any_asn1_element m c = Ok (el, t, hl) c'" "CBS_skip hl el = Ok () out"
    by (auto simp: CBS_get_any_asn1_def mbind_Ok_iff skip_case [where g = "\<lambda>out. (out, _)"])
  then show ?r unfolding element_Ok using skip_header by blast
next
  assume r: ?r
  let ?b = "cbs_bytes m out"
  have "length ?b < 2 ^ 32" "takes m c (der t ?b) c'" using r by (simp_all add: der_at_def)
  moreover from this have "CBS_get_any_asn1_element m c =
      Ok (CBS_init (cbs_data c) (of_nat (length (der t ?b))), t, of_nat (length (der_header t (length ?b)))) c'"
    unfolding element_Ok by blast
  ultimately show ?l
    using r skip_header [of ?b m c t c' "()" out] by (simp add: CBS_get_any_asn1_def mbind_def)
qed

lemma get_asn1_any: "CBS_get_asn1 m t c = Ok out c' \<longleftrightarrow> CBS_get_any_asn1 m c = Ok (out, t) c'"
  by (auto simp: CBS_get_asn1_def cbs_get_asn1_def CBS_get_any_asn1_def mbind_Ok_iff
      skip_case [where g = "\<lambda>out. (out, _)"] skip_case [where g = "\<lambda>out. out"] split: if_splits)

lemma get_asn1_Ok: "CBS_get_asn1 m t c = Ok out c' \<longleftrightarrow> der_at m c t out c'"
  unfolding get_asn1_any get_any_asn1_Ok by (rule refl)

lemma returns_element: "returns (cbs_get_any_asn1_element m ber_ok)"
proof -
  have "returns (CBS_get_bytes n)" for n
    unfolding CBS_get_bytes_def by (intro returns_bind returns_get returns_mreturn)
  then have "mbind (CBS_get_bytes n) (\<lambda>out. mreturn (f out)) c \<noteq> Undef" "mbind (CBS_get_bytes n) (\<lambda>out. mreturn (f out)) c \<noteq> Fuel"
    for n c and f :: "cbs \<Rightarrow> cbs \<times> u32 \<times> u64 \<times> bool"
    using returns_bind [of "CBS_get_bytes n" "\<lambda>out. mreturn (f out)"] returns_mreturn by (auto simp: returns_def)
  then show ?thesis
    by (simp add: returns_def cbs_get_any_asn1_element_def Let_def split: outcome.splits)
qed

lemma returns_asn1: "returns (CBS_get_any_asn1_element m)" "returns (CBS_get_any_asn1 m)" "returns (CBS_get_asn1 m t)"
proof -
  show "returns (CBS_get_any_asn1_element m)"
    unfolding CBS_get_any_asn1_element_def
    by (intro returns_bind returns_element) (simp add: returns_def split: prod.splits)
  then show "returns (CBS_get_any_asn1 m)" "returns (CBS_get_asn1 m t)"
    unfolding CBS_get_any_asn1_def CBS_get_asn1_def cbs_get_asn1_def
    by (intro returns_bind; simp add: returns_def split: prod.splits outcome.splits)+
qed

text \<open>A failure to read an element leaves the cursor where it was; a tag mismatch does not.\<close>

lemma element_Fail: "cbs_get_any_asn1_element m ber_ok c = Fail c' \<Longrightarrow> c' = c"
  by (auto simp: cbs_get_any_asn1_element_def CBS_get_bytes_def cbs_get_def mbind_def Let_def
      split: outcome.splits if_splits)

end
