(* ===== verification/DER_Values.thy ===== *)
theory DER_Values
  imports DER
begin

unbundle bit_operations_syntax

text \<open>
  The DER contents that \<open>crypto/bytestring/cbs.c\<close> reads: integers in minimal two's complement,
  booleans, bit strings, and the optional elements made of them. Each reader of a value is an
  instance of \<open>value_reader\<close>, with the DER encoding of the value as its code.
\<close>

section \<open>Integers\<close>

function der_int :: "int \<Rightarrow> byte list" where
  "der_int i = (if - 128 \<le> i \<and> i < 128 then [word_of_int i] else der_int (i div 256) @ [word_of_int i])"
  by pat_completeness auto
termination by (relation "measure (\<lambda>i. nat \<bar>i\<bar>)") auto

declare der_int.simps [simp del]

definition be_value :: "int \<Rightarrow> byte list \<Rightarrow> int" where
  "be_value v bs = foldl (\<lambda>v b. 256 * v + uint b) v bs"

definition int_value :: "byte list \<Rightarrow> int" where
  "int_value bs = be_value (if 128 \<le> uint (hd bs) then - 1 else 0) bs"

definition int_minimal :: "byte list \<Rightarrow> bool" where
  "int_minimal bs =
     (case bs of [] \<Rightarrow> False | [b] \<Rightarrow> True
      | a # b # _ \<Rightarrow> \<not> (a = 0 \<and> uint b < 128) \<and> \<not> (a = 0xFF \<and> 128 \<le> uint b))"

lemma be_value_simps [simp]:
  "be_value v [] = v" "be_value v (b # bs) = be_value (256 * v + uint b) bs"
  "be_value v (xs @ ys) = be_value (be_value v xs) ys"
  by (simp_all add: be_value_def)

lemma int_minimal_simps [simp]:
  "\<not> int_minimal []" "int_minimal [b]"
  "int_minimal (a # b # bs) \<longleftrightarrow> \<not> (a = 0 \<and> uint b < 128) \<and> \<not> (a = 0xFF \<and> 128 \<le> uint b)"
  by (simp_all add: int_minimal_def)

lemma int_value_snoc: "bs \<noteq> [] \<Longrightarrow> int_value (bs @ [b]) = 256 * int_value bs + uint b"
  by (cases bs) (simp_all add: int_value_def)

lemma uint_byte: "uint (b :: byte) < 256" "0 \<le> uint b"
  by (rule less_le_trans [OF unsigned_less]) simp_all

lemma int_value_byte: "int_value [b] = (if 128 \<le> uint b then uint b - 256 else uint b)"
  by (simp add: int_value_def)

lemma int_value_byte_range: "- 128 \<le> int_value [b] \<and> int_value [b] < 128"
proof (cases "128 \<le> uint b")
  case False
  then have "int_value [b] = uint b" by (simp add: int_value_byte)
  then show ?thesis using False uint_byte [of b] by linarith
qed (use uint_byte [of b] in \<open>simp add: int_value_byte\<close>)

lemma uint_of_int: "uint (word_of_int i :: byte) = i mod 256"
  by (simp add: uint_word_of_int)

lemma byte_of_int_value: "word_of_int (int_value [b]) = b"
proof -
  have "uint (word_of_int (int_value [b]) :: byte) = uint b"
    using uint_byte [of b] mod_add_self2 [of "uint b - 256" 256] unfolding uint_of_int
    by (auto simp: int_value_byte)
  then show ?thesis by (simp only: word_uint_eq_iff)
qed

lemma byte_value: "- 128 \<le> i \<Longrightarrow> i < 128 \<Longrightarrow> int_value [word_of_int i] = i"
proof -
  assume i: "- 128 \<le> i" "i < 128"
  show ?thesis
  proof (cases "0 \<le> i")
    case True
    then show ?thesis using i by (simp add: int_value_byte uint_of_int)
  next
    case False
    have "i mod 256 = (i + 256) mod 256" by simp
    also have "\<dots> = i + 256" using i False by (intro mod_pos_pos_trivial) simp_all
    finally show ?thesis using i False by (simp add: int_value_byte uint_of_int)
  qed
qed

lemma der_int_minimal: "int_minimal (der_int i) \<and> int_value (der_int i) = i"
proof (induction i rule: der_int.induct)
  case (1 i)
  show ?case
  proof (cases "- 128 \<le> i \<and> i < 128")
    case True
    then show ?thesis by (subst (1 2) der_int.simps) (simp add: byte_value)
  next
    case False
    let ?ys = "der_int (i div 256)" and ?b = "word_of_int i :: byte"
    have IH: "int_minimal ?ys" "int_value ?ys = i div 256" using 1 [OF False] by simp_all
    have eq: "der_int i = ?ys @ [?b]" using False by (subst der_int.simps) auto
    have ne: "?ys \<noteq> []" using IH(1) by auto
    have "int_value (?ys @ [?b]) = i"
      using int_value_snoc [OF ne] IH(2) by (simp add: uint_of_int)
    moreover have "int_minimal (?ys @ [?b])"
    proof (cases ?ys rule: list.exhaust [case_names Nil Cons])
      case (Cons a as)
      show ?thesis
      proof (cases as)
        case Nil
        have i: "i = 256 * int_value [a] + uint ?b" using calculation ne int_value_snoc [of "[a]" ?b] Cons Nil by simp
        have "\<not> (a = 0 \<and> uint ?b < 128)" "\<not> (a = 0xFF \<and> 128 \<le> uint ?b)"
          using i False uint_byte [of ?b] by (force simp: int_value_byte)+
        then show ?thesis using Cons Nil by simp
      next
        case (Cons b bs)
        then show ?thesis using IH(1) \<open>?ys = a # as\<close> by simp
      qed
    qed (use ne in simp)
    ultimately show ?thesis unfolding eq by blast
  qed
qed

lemma minimal_der_int: "int_minimal bs \<Longrightarrow> der_int (int_value bs) = bs"
proof (induction bs rule: rev_induct)
  case (snoc b ys)
  show ?case
  proof (cases ys)
    case Nil
    then show ?thesis
      using int_value_byte_range [of b] by (subst der_int.simps) (simp add: byte_of_int_value)
  next
    case (Cons a as)
    then have ne: "ys \<noteq> []" by simp
    have v: "int_value (ys @ [b]) = 256 * int_value ys + uint b" using int_value_snoc [OF ne] .
    have min: "int_minimal ys" using snoc.prems Cons by (cases as) simp_all
    then have IH: "der_int (int_value ys) = ys" by (rule snoc.IH)
    have out: "\<not> (- 128 \<le> int_value (ys @ [b]) \<and> int_value (ys @ [b]) < 128)"
    proof (cases as)
      case Nil
      have "\<not> (a = 0 \<and> uint b < 128)" "\<not> (a = 0xFF \<and> 128 \<le> uint b)"
        using snoc.prems Cons Nil by simp_all
      moreover have "int_value [a] = 0 \<longleftrightarrow> a = 0" "int_value [a] = - 1 \<longleftrightarrow> a = 0xFF"
        using byte_of_int_value [of a] by (auto simp: int_value_byte [of 0] int_value_byte [of "0xFF"])
      ultimately show ?thesis
        using v uint_byte [of b] Cons Nil by (simp, linarith)
    next
      case (Cons a' as')
      then have "\<not> (- 128 \<le> int_value ys \<and> int_value ys < 128)"
        using IH \<open>ys = a # as\<close> by (subst (asm) der_int.simps) (auto split: if_splits)
      then show ?thesis using v uint_byte [of b] by linarith
    qed
    have "int_value (ys @ [b]) div 256 = int_value ys"
      using v uint_byte [of b] by simp
    moreover have "(word_of_int (int_value (ys @ [b])) :: byte) = b"
      unfolding word_uint_eq_iff uint_of_int using v uint_byte [of b] by simp
    ultimately show ?thesis
      using out IH by (subst der_int.simps) auto
  qed
qed simp

lemma der_int_iff: "xs = der_int i \<longleftrightarrow> int_minimal xs \<and> int_value xs = i"
  using der_int_minimal [of i] minimal_der_int [of xs] by auto

lemma div_256_range: "- q \<le> i div 256 \<and> i div 256 < q \<longleftrightarrow> - (256 * q) \<le> i \<and> i < 256 * q" for i q :: int
proof -
  have "i = 256 * (i div 256) + i mod 256" "0 \<le> i mod 256" "i mod 256 < 256" by simp_all
  then show ?thesis by linarith
qed

lemma length_der_int: "0 < k \<Longrightarrow> length (der_int i) \<le> k \<longleftrightarrow> - (2 ^ (8 * k - 1)) \<le> i \<and> i < 2 ^ (8 * k - 1)"
proof (induction i arbitrary: k rule: der_int.induct)
  case (1 i)
  have pos: "length (der_int j) \<noteq> 0" for j using der_int_minimal [of j] by auto
  show ?case
  proof (cases "- 128 \<le> i \<and> i < 128")
    case True
    have "(2 :: int) ^ 7 \<le> 2 ^ (8 * k - 1)" using 1(2) by (intro power_increasing) simp_all
    then show ?thesis using True 1(2) by (subst der_int.simps) auto
  next
    case False
    have eq: "length (der_int i) = Suc (length (der_int (i div 256)))"
      using False by (subst der_int.simps) auto
    show ?thesis
    proof (cases "k = 1")
      case True
      then show ?thesis using False eq pos [of "i div 256"] by simp
    next
      case k: False
      then obtain j where j: "k = Suc j" "0 < j" using 1(2) by (cases k) auto
      have "8 * k - 1 = 8 + (8 * j - 1)" using j by simp
      then have p: "(2 :: int) ^ (8 * k - 1) = 256 * 2 ^ (8 * j - 1)" by (simp only: power_add) simp
      have "length (der_int i) \<le> k \<longleftrightarrow> - (2 ^ (8 * j - 1)) \<le> i div 256 \<and> i div 256 < 2 ^ (8 * j - 1)"
        using 1(1) [OF False j(2)] eq j(1) by simp
      also have "\<dots> \<longleftrightarrow> - (2 ^ (8 * k - 1)) \<le> i \<and> i < 2 ^ (8 * k - 1)"
        unfolding p by (rule div_256_range)
      finally show ?thesis .
    qed
  qed
qed

text \<open>What the code checks of a content, on its bytes.\<close>

lemma get_u8_bytes:
  "CBS_get_u8 m c = (case cbs_bytes m c of [] \<Rightarrow> Fail c | b # _ \<Rightarrow> Ok b (cbs_drop 1 c))"
proof (cases "cbs_bytes m c")
  case Nil
  then have "cbs_len c = 0" using length_cbs_bytes [of m c] by (simp add: unat_eq_0 [symmetric])
  then show ?thesis using Nil by (simp add: CBS_get_u8_def mbind_def cbs_get_def)
next
  case (Cons b bs)
  then have "takes m c [b] (cbs_drop 1 c)" using takes_front [of m c "[b]" bs] by simp
  then show ?thesis using Cons by (simp add: u8.reads [THEN iffD2])
qed

lemma cbs_bytes_tl: "cbs_bytes m c = b # bs \<Longrightarrow> cbs_bytes m (cbs_drop 1 c) = bs"
  using takes_bytes [OF takes_front [of m c "[b]" bs]] by simp

lemma uint_high: "(b :: byte) AND 0x80 \<noteq> 0 \<longleftrightarrow> 128 \<le> uint b"
  unfolding high_bit uint_nat by linarith

lemma valid_integer_iff:
  "CBS_is_valid_asn1_integer m c =
     (if int_minimal (cbs_bytes m c) then Some (128 \<le> uint (hd (cbs_bytes m c))) else None)"
proof (cases "cbs_bytes m c")
  case (Cons a as)
  note tl = cbs_bytes_tl [OF Cons]
  show ?thesis
  proof (cases as)
    case (Cons b bs)
    have "a = 0 \<Longrightarrow> \<not> 128 \<le> uint a" "a = 0xFF \<Longrightarrow> 128 \<le> uint a" by simp_all
    then show ?thesis
      using Cons tl \<open>cbs_bytes m c = a # as\<close> uint_high [of a] uint_high [of b]
      by (auto simp: CBS_is_valid_asn1_integer_def get_u8_bytes Let_def)
  qed (use tl Cons uint_high [of a] in \<open>simp add: CBS_is_valid_asn1_integer_def get_u8_bytes\<close>)
qed (simp add: CBS_is_valid_asn1_integer_def get_u8_bytes)

lemma unsigned_integer_iff:
  "CBS_is_unsigned_asn1_integer m c \<longleftrightarrow>
     int_minimal (cbs_bytes m c) \<and> \<not> 128 \<le> uint (hd (cbs_bytes m c))"
  by (simp add: CBS_is_unsigned_asn1_integer_def valid_integer_iff)

lemma be_value_mono: "0 \<le> v \<Longrightarrow> v \<le> be_value v bs"
proof (induction bs arbitrary: v)
  case (Cons b bs)
  have "0 \<le> 256 * v + uint b" "v \<le> 256 * v + uint b" using Cons.prems uint_byte [of b] by linarith+
  with Cons.IH [of "256 * v + uint b"] show ?case by simp
qed simp

lemma uint64_loop_Some: "uint64_loop out bs = Some v \<longleftrightarrow> be_value (uint out) bs = uint v"
proof (induction bs arbitrary: out)
  case Nil
  then show ?case by (simp add: word_uint_eq_iff)
next
  case (Cons b bs)
  show ?case
  proof (cases "unat out < 2 ^ 56")
    case True
    have "unat (push_bit 8 out OR ucast b :: u64) = 256 * unat out + unat b"
      using True by (intro unat_push_or_byte) simp
    then have "uint (push_bit 8 out OR ucast b :: u64) = 256 * uint out + uint b"
      unfolding uint_nat by simp
    with Cons.IH True show ?thesis by (simp add: drop_bit_0_iff)
  next
    case False
    then have "2 ^ 56 \<le> unat out" by simp
    then have "int (2 ^ 56) \<le> uint out" unfolding uint_nat by (simp only: of_nat_le_iff)
    then have "2 ^ 56 \<le> uint out" by simp
    moreover have "(2 :: int) ^ 64 = 256 * 2 ^ 56" by simp
    ultimately have "2 ^ 64 \<le> 256 * uint out + uint b" using uint_byte [of b] by linarith
    then have "2 ^ 64 \<le> be_value (uint out) (b # bs)" using be_value_mono [of "256 * uint out + uint b" bs] by simp
    moreover have "uint v < 2 ^ 64" by (rule less_le_trans [OF unsigned_less]) simp
    ultimately show ?thesis using False by (simp add: drop_bit_0_iff)
  qed
qed

lemma unsigned_value: "int_minimal bs \<Longrightarrow> 0 \<le> int_value bs \<longleftrightarrow> \<not> 128 \<le> uint (hd bs)"
proof (cases bs)
  case (Cons b as)
  show ?thesis
  proof (cases "128 \<le> uint b")
    case True
    have neg: "v < 0 \<Longrightarrow> be_value v as < 0" for v
    proof (induction as arbitrary: v)
      case (Cons b bs)
      have "256 * v + uint b < 0" using Cons.prems uint_byte [of b] by linarith
      from Cons.IH [OF this] show ?case by simp
    qed simp
    have "256 * (- 1) + uint b < 0" using uint_byte [of b] by linarith
    from neg [OF this] show ?thesis using Cons True by (simp add: int_value_def)
  next
    case False
    have "0 \<le> be_value (uint b) as" using be_value_mono [of "uint b" as] uint_byte [of b] by linarith
    then show ?thesis using Cons False by (simp add: int_value_def)
  qed
qed simp

lemma uint64_content:
  "(CBS_is_unsigned_asn1_integer m c \<and> uint64_loop 0 (cbs_bytes m c) = Some v) \<longleftrightarrow> cbs_bytes m c = der_int (uint v)"
proof -
  let ?bs = "cbs_bytes m c"
  have "(int_minimal ?bs \<and> \<not> 128 \<le> uint (hd ?bs) \<and> be_value 0 ?bs = uint v) \<longleftrightarrow>
      int_minimal ?bs \<and> int_value ?bs = uint v"
    using unsigned_value [of ?bs] by (auto simp: int_value_def)
  then show ?thesis
    unfolding der_int_iff unsigned_integer_iff uint64_loop_Some by simp
qed

text \<open>The two's complement of a short content, sign-extended to eight bytes.\<close>

lemma be_value_shift: "be_value v bs = v * 256 ^ length bs + be_value 0 bs"
proof (induction bs arbitrary: v)
  case (Cons b bs)
  show ?case
    unfolding be_value_simps Cons.IH [of "256 * v + uint b"] Cons.IH [of "256 * 0 + uint b"]
    by (simp add: algebra_simps)
qed simp

lemma be_value_fill: "be_value 0 (replicate j 0xFF) = 256 ^ j - 1"
proof (induction j)
  case (Suc j)
  then show ?case
    by (simp add: be_value_shift [of 255] )
qed simp

lemma be_value_zeros: "be_value 0 (replicate j 0) = 0"
  by (induction j) simp_all

lemma le_word_be_value: "le_word (rev bs) = (word_of_int (be_value 0 bs) :: 'a::len word)"
proof -
  have "foldl (\<lambda>r b. push_bit 8 r OR ucast b) (word_of_int v) bs = (word_of_int (be_value v bs) :: 'a word)" for v
  proof (induction bs arbitrary: v)
    case (Cons b bs)
    have "push_bit 8 (word_of_int v) OR ucast b = (word_of_int (256 * v + uint b) :: 'a word)"
      unfolding push_or_byte by (simp add: push_bit_eq_mult mult.commute)
    with Cons.IH [of "256 * v + uint b"] show ?case by simp
  qed simp
  from this [of 0] show ?thesis by (simp add: be_fold)
qed

lemma sign_extend:
  assumes "length bs \<le> 8" "bs \<noteq> []"
  shows "le_word (rev bs @ replicate (8 - length bs) (if 128 \<le> uint (hd bs) then 0xFF else 0)) =
    (word_of_int (int_value bs) :: u64)"
proof -
  let ?ext = "replicate (8 - length bs) (if 128 \<le> uint (hd bs) then 0xFF else 0) :: byte list"
  have "rev bs @ ?ext = rev (?ext @ bs)" by simp
  then have "(le_word (rev bs @ ?ext) :: u64) = word_of_int (be_value 0 (?ext @ bs))"
    unfolding le_word_be_value [symmetric] by simp
  also have "\<dots> = word_of_int (int_value bs)"
  proof (cases "128 \<le> uint (hd bs)")
    case True
    have "be_value 0 (?ext @ bs) = (256 ^ (8 - length bs) - 1) * 256 ^ length bs + be_value 0 bs"
      using True be_value_shift [of "256 ^ (8 - length bs) - 1" bs] by (simp add: be_value_fill)
    moreover have "(256 :: int) ^ (8 - length bs) * 256 ^ length bs = 256 ^ 8"
      using assms(1) by (simp flip: power_add)
    ultimately have "be_value 0 (?ext @ bs) = 256 ^ 8 + (be_value 0 bs - 256 ^ length bs)"
      by (simp add: left_diff_distrib)
    moreover have "int_value bs = be_value 0 bs - 256 ^ length bs"
      using True be_value_shift [of "- 1" bs] by (simp add: int_value_def)
    ultimately show ?thesis
      by (simp add: word_of_int_eq_iff take_bit_eq_mod)
  qed (simp add: int_value_def be_value_zeros)
  finally show ?thesis .
qed

lemma int64_content:
  assumes "bs \<noteq> []"
  shows "(int_minimal bs \<and> length bs \<le> 8 \<and>
      le_word (rev bs @ replicate (8 - length bs) (if 128 \<le> uint (hd bs) then 0xFF else 0)) = v) \<longleftrightarrow>
    bs = der_int (sint (v :: u64))"
proof -
  have v: "- (2 ^ 63) \<le> sint v" "sint v < 2 ^ 63"
    using sint_greater_eq [of v] sint_less [of v] by simp_all
  have range: "length bs \<le> 8 \<longleftrightarrow> - (2 ^ 63) \<le> int_value bs \<and> int_value bs < 2 ^ 63" if "int_minimal bs"
    using length_der_int [of 8 "int_value bs"] minimal_der_int [OF that] by simp
  have eq: "word_of_int i = v \<longleftrightarrow> i = sint v" if "- (2 ^ 63) \<le> i" "i < 2 ^ 63" for i
  proof
    assume "word_of_int i = v"
    then have "sint v = signed_take_bit 63 i" using sint_sbintrunc' [of i, where 'a = 64] by simp
    then show "i = sint v" using that by (simp add: signed_take_bit_int_eq_self)
  qed simp
  show ?thesis
    unfolding der_int_iff using range v eq [of "int_value bs"] sign_extend [OF _ assms] by metis
qed

section \<open>Readers of values\<close>

lemma der_at_bytes: "der_at m c t out c' \<Longrightarrow> takes m c (der t (cbs_bytes m out)) c' \<and> length (cbs_bytes m out) < 2 ^ 32"
  by (simp add: der_at_def)

lemma der_at_ex:
  assumes "takes m c (der t body) c'" "length body < 2 ^ 32"
  shows "\<exists>out. der_at m c t out c' \<and> cbs_bytes m out = body"
proof -
  have "CBS_get_any_asn1_element m c =
      Ok (CBS_init (cbs_data c) (of_nat (length (der t body))), t, of_nat (length (der_header t (length body)))) c'"
    unfolding element_Ok using assms by blast
  let ?h = "length (der_header t (length body))"
  have w: "unat (of_nat (length (der t body)) :: u64) = ?h + length body" "unat (of_nat ?h :: u64) = ?h"
    using length_der_header [OF assms(2), of t] assms(2) unat_of_nat_addr [of "?h + length body"] unat_of_nat_addr [of ?h]
    by (simp_all add: der_def del: of_nat_add)
  have "\<exists>out. CBS_skip (of_nat ?h) (CBS_init (cbs_data c) (of_nat (length (der t body)))) = Ok () out"
    unfolding CBS_skip_Ok by (simp add: CBS_init_def w)
  then show ?thesis unfolding skip_header [OF assms(2,1)] .
qed

text \<open>A reader that looks at the content of an element of a fixed tag.\<close>

lemma content_reader:
  assumes "\<And>v. valid v \<Longrightarrow> length (content v) < 2 ^ 32"
    and "\<And>m out c v c'. g m out c = Ok v c' \<longleftrightarrow> c' = c \<and> valid v \<and> cbs_bytes m out = content v"
    and "\<And>m out. returns (g m out)"
  shows "value_reader (\<lambda>m. mbind (CBS_get_asn1 m t) (g m)) (\<lambda>v. der t (content v)) valid"
proof
  show "mbind (CBS_get_asn1 m t) (g m) c = Ok v c' \<longleftrightarrow> valid v \<and> takes m c (der t (content v)) c'" for m c v c'
  proof -
    have "mbind (CBS_get_asn1 m t) (g m) c = Ok v c' \<longleftrightarrow>
        (\<exists>out. der_at m c t out c' \<and> valid v \<and> cbs_bytes m out = content v)"
      unfolding mbind_Ok_iff get_asn1_Ok assms(2) by auto
    also have "\<dots> \<longleftrightarrow> valid v \<and> takes m c (der t (content v)) c'"
      using der_at_bytes der_at_ex assms(1) by metis
    finally show ?thesis .
  qed
  show "returns (mbind (CBS_get_asn1 m t) (g m))" for m
    by (intro returns_bind returns_asn1 assms(3))
qed

lemma length_der_int64: "- (2 ^ 71) \<le> i \<Longrightarrow> i < 2 ^ 71 \<Longrightarrow> length (der_int i) < 2 ^ 32"
  using length_der_int [of 9 i] by simp

interpretation asn1_uint64: value_reader CBS_get_asn1_uint64
  "\<lambda>v. der CBS_ASN1_INTEGER (der_int (uint v))" "\<lambda>_. True"
proof -
  let ?g = "\<lambda>m bytes c. if \<not> CBS_is_unsigned_asn1_integer m bytes then Fail c
     else case uint64_loop 0 (mem_bytes m (CBS_data bytes) (unat (CBS_len bytes))) of
       None \<Rightarrow> Fail c | Some out \<Rightarrow> Ok out c"
  have bytes: "mem_bytes m (CBS_data bytes) (unat (CBS_len bytes)) = cbs_bytes m bytes" for m bytes
    by (simp add: CBS_data_def CBS_len_def cbs_bytes_def)
  have "value_reader (\<lambda>m. mbind (CBS_get_asn1 m CBS_ASN1_INTEGER) (?g m))
      (\<lambda>v. der CBS_ASN1_INTEGER (der_int (uint v))) (\<lambda>_. True)"
  proof (rule content_reader)
    fix v :: u64
    have "uint v < 2 ^ 64" by (rule less_le_trans [OF unsigned_less]) simp
    then have "uint v < 2 ^ 71" by simp
    moreover have "- (2 ^ 71) \<le> uint v" by (rule order_trans [of _ 0]) simp_all
    ultimately show "length (der_int (uint v)) < 2 ^ 32" by (intro length_der_int64)
  next
    fix m out c c' and v :: u64
    show "?g m out c = Ok v c' \<longleftrightarrow> c' = c \<and> True \<and> cbs_bytes m out = der_int (uint v)"
      unfolding uint64_content [symmetric] bytes by (auto split: option.splits)
  qed (simp add: returns_def split: option.splits)
  then show "value_reader CBS_get_asn1_uint64 (\<lambda>v. der CBS_ASN1_INTEGER (der_int (uint v))) (\<lambda>_. True)"
    by (simp add: CBS_get_asn1_uint64_def [abs_def])
qed

interpretation asn1_int64: value_reader CBS_get_asn1_int64
  "\<lambda>v. der CBS_ASN1_INTEGER (der_int (sint v))" "\<lambda>_. True"
proof -
  let ?g = "\<lambda>m bytes c. case CBS_is_valid_asn1_integer m bytes of
       None \<Rightarrow> Fail c
     | Some is_negative \<Rightarrow>
         let len = CBS_len bytes; n = unat len in
         if 8 < len then Fail c
         else Ok (le_word (rev (mem_bytes m (CBS_data bytes) n) @
                           replicate (8 - n) (if is_negative then 0xFF else 0)) :: u64) c"
  have "value_reader (\<lambda>m. mbind (CBS_get_asn1 m CBS_ASN1_INTEGER) (?g m))
      (\<lambda>v. der CBS_ASN1_INTEGER (der_int (sint v))) (\<lambda>_. True)"
  proof (rule content_reader)
    fix v :: u64
    have "sint v < 2 ^ 63" "- (2 ^ 63) \<le> sint v" using sint_greater_eq [of v] sint_less [of v] by simp_all
    then show "length (der_int (sint v)) < 2 ^ 32" by (intro length_der_int64) simp_all
  next
    fix m out c c' and v :: u64
    let ?bs = "cbs_bytes m out"
    have len: "\<not> 8 < cbs_len out \<longleftrightarrow> length ?bs \<le> 8" by (simp add: word_less_nat_alt not_less)
    show "?g m out c = Ok v c' \<longleftrightarrow> c' = c \<and> True \<and> ?bs = der_int (sint v)"
    proof (cases "int_minimal ?bs")
      case True
      then have "?bs \<noteq> []" by auto
      from int64_content [OF this, of v] True len show ?thesis
        by (auto simp: valid_integer_iff Let_def CBS_len_def CBS_data_def simp flip: cbs_bytes_def)
    next
      case False
      then show ?thesis using der_int_minimal [of "sint v"] by (auto simp: valid_integer_iff)
    qed
  qed (simp add: returns_def Let_def split: option.splits)
  then show "value_reader CBS_get_asn1_int64 (\<lambda>v. der CBS_ASN1_INTEGER (der_int (sint v))) (\<lambda>_. True)"
    by (simp add: CBS_get_asn1_int64_def [abs_def])
qed

definition der_bool :: "bool \<Rightarrow> byte list" where
  "der_bool b = [if b then 0xFF else 0]"

lemma single_byte:
  "cbs_len out = 1 \<and> load8 m (cbs_data out) = b \<longleftrightarrow> cbs_bytes m out = [b]"
proof
  assume "cbs_bytes m out = [b]"
  moreover from this have "unat (cbs_len out) = 1" using length_cbs_bytes [of m out] by simp
  moreover from this have "cbs_len out = 1" by (simp add: word_unat_eq_iff)
  ultimately show "cbs_len out = 1 \<and> load8 m (cbs_data out) = b"
    by (simp add: cbs_bytes_def mem_bytes_Suc load8_def)
qed (simp add: cbs_bytes_def mem_bytes_Suc load8_def)

interpretation asn1_bool: value_reader CBS_get_asn1_bool "\<lambda>b. der CBS_ASN1_BOOLEAN (der_bool b)" "\<lambda>_. True"
proof -
  let ?g = "\<lambda>m bytes c. if CBS_len bytes \<noteq> 1 then Fail c
     else let val = load8 m (CBS_data bytes) in
       if val \<noteq> 0 \<and> val \<noteq> 0xFF then Fail c else Ok (val \<noteq> 0) c"
  have "value_reader (\<lambda>m. mbind (CBS_get_asn1 m CBS_ASN1_BOOLEAN) (?g m))
      (\<lambda>b. der CBS_ASN1_BOOLEAN (der_bool b)) (\<lambda>_. True)"
  proof (rule content_reader)
    fix m out c c' b
    show "?g m out c = Ok b c' \<longleftrightarrow> c' = c \<and> True \<and> cbs_bytes m out = der_bool b"
      unfolding der_bool_def single_byte [symmetric] by (auto simp: CBS_len_def CBS_data_def Let_def)
  qed (simp_all add: returns_def Let_def der_bool_def)
  then show "value_reader CBS_get_asn1_bool (\<lambda>b. der CBS_ASN1_BOOLEAN (der_bool b)) (\<lambda>_. True)"
    by (simp add: CBS_get_asn1_bool_def [abs_def])
qed

section \<open>Optional elements\<close>

lemma peek_iff: "CBS_peek_asn1_tag m c t \<longleftrightarrow> (\<exists>rest. cbs_bytes m c = der_tag t @ rest)"
proof -
  have "(\<exists>rest. cbs_bytes m c = der_tag t @ rest) \<longleftrightarrow> (\<exists>c'. parse_asn1_tag m c = Ok t c')"
    unfolding asn1_tag.reads using takes_bytes takes_front by metis
  moreover have "(\<exists>c'. parse_asn1_tag m c = Ok t c') \<longleftrightarrow> CBS_peek_asn1_tag m c t"
  proof (cases "CBS_len c < 1")
    case True
    then have "unat (cbs_len c) = 0" by (simp add: CBS_len_def word_less_nat_alt)
    then have "cbs_bytes m c = []" by (metis length_0_conv length_cbs_bytes)
    moreover have "der_tag t \<noteq> []" by (simp add: der_tag_def)
    ultimately have "\<not> takes m c (der_tag t) c'" for c' by (auto simp: takes_def)
    with True show ?thesis by (simp add: CBS_peek_asn1_tag_def asn1_tag.reads)
  next
    case False
    then show ?thesis by (cases "parse_asn1_tag m c") (auto simp: CBS_peek_asn1_tag_def)
  qed
  ultimately show ?thesis by blast
qed

lemma optional_asn1_Ok:
  "CBS_get_optional_asn1 m t c = Ok r c' \<longleftrightarrow>
     (case r of Some out \<Rightarrow> der_at m c t out c' | None \<Rightarrow> c' = c \<and> \<not> CBS_peek_asn1_tag m c t)"
proof -
  have "der_at m c t out c' \<Longrightarrow> CBS_peek_asn1_tag m c t" for out
    unfolding peek_iff using der_at_bytes takes_bytes by (fastforce simp: der_def der_header_def)
  then show ?thesis
    by (auto simp: CBS_get_optional_asn1_def mbind_Ok_iff get_asn1_Ok split: option.splits)
qed

text \<open>A value in an optional element: its content has to be the encoding of the value, to the last
  byte.\<close>

lemma whole_content:
  assumes "value_reader f code valid"
  shows "(\<exists>ch. f m out = Ok v ch \<and> cbs_len ch = 0) \<longleftrightarrow> valid v \<and> cbs_bytes m out = code v"
proof
  assume "\<exists>ch. f m out = Ok v ch \<and> cbs_len ch = 0"
  then obtain ch where "valid v" "takes m out (code v) ch" "cbs_len ch = 0"
    using value_reader.reads [OF assms] by blast
  then show "valid v \<and> cbs_bytes m out = code v"
    using takes_bytes by (fastforce simp: cbs_bytes_def)
next
  assume v: "valid v \<and> cbs_bytes m out = code v"
  then have t: "takes m out (code v) (cbs_drop (length (code v)) out)" by (simp add: takes_def)
  moreover have "length (code v) = unat (cbs_len out)" using v length_cbs_bytes [of m out] by simp
  then have "unat (cbs_len (cbs_drop (length (code v)) out)) = 0" by (simp add: unat_len_drop)
  ultimately show "\<exists>ch. f m out = Ok v ch \<and> cbs_len ch = 0"
    using v value_reader.reads [OF assms] by (metis unat_eq_0)
qed

lemma optional_value:
  assumes "value_reader f code valid"
    and "\<And>v. valid v \<Longrightarrow> length (code v) < 2 ^ 32"
  shows "mbind (CBS_get_optional_asn1 m t) (\<lambda>child c. case child of
       Some child \<Rightarrow> (case f m child of Ok out child \<Rightarrow> if CBS_len child \<noteq> 0 then Fail c else Ok (h out) c | _ \<Rightarrow> Fail c)
     | None \<Rightarrow> Ok d c) c = Ok r c' \<longleftrightarrow>
    (if CBS_peek_asn1_tag m c t then \<exists>v. valid v \<and> takes m c (der t (code v)) c' \<and> r = h v
     else c' = c \<and> r = d)" (is "?l \<longleftrightarrow> _")
proof -
  have inner: "(case f m child of Ok out child \<Rightarrow> if CBS_len child \<noteq> 0 then Fail c else Ok (h out) c | _ \<Rightarrow> Fail c) = Ok r c' \<longleftrightarrow>
      c' = c \<and> (\<exists>v. r = h v \<and> valid v \<and> cbs_bytes m child = code v)" for child c
    unfolding whole_content [OF assms(1), symmetric] by (cases "f m child") (auto simp: CBS_len_def)
  let ?X = "\<exists>out. der_at m c t out c' \<and> (\<exists>v. r = h v \<and> valid v \<and> cbs_bytes m out = code v)"
  have content: "?X \<longleftrightarrow> (\<exists>v. valid v \<and> takes m c (der t (code v)) c' \<and> r = h v)"
    using der_at_bytes der_at_ex assms(2) by metis
  have present: "?X \<Longrightarrow> CBS_peek_asn1_tag m c t"
    unfolding peek_iff using der_at_bytes takes_bytes by (fastforce simp: der_def der_header_def)
  have "?l \<longleftrightarrow> ?X \<or> \<not> CBS_peek_asn1_tag m c t \<and> c' = c \<and> r = d"
    unfolding mbind_Ok_iff optional_asn1_Ok split_option_ex option.case inner by auto
  then show ?thesis
    unfolding content [symmetric] using present by (cases "CBS_peek_asn1_tag m c t") (simp_all only: if_True if_False simp_thms, blast+)
qed

lemma der_not_Nil: "der t body \<noteq> []"
  by (simp add: der_def der_header_def der_tag_def)

text \<open>At the encoding of an element its content is read back.\<close>

lemma der_read_back:
  assumes "cbs_bytes m c = der t body @ rest" "length body < 2 ^ 32"
  shows "\<exists>out c'. CBS_get_asn1 m t c = Ok out c' \<and> CBS_get_any_asn1 m c = Ok (out, t) c' \<and>
    cbs_bytes m out = body \<and> cbs_bytes m c' = rest"
proof -
  have t: "takes m c (der t body) (cbs_drop (length (der t body)) c)"
    using takes_front [OF assms(1)] .
  from der_at_ex [OF t assms(2)] obtain out where
    "der_at m c t out (cbs_drop (length (der t body)) c)" "cbs_bytes m out = body" by blast
  moreover have "cbs_bytes m (cbs_drop (length (der t body)) c) = rest"
    using takes_bytes [OF t] assms(1) by simp
  ultimately show ?thesis unfolding get_asn1_Ok get_any_asn1_Ok by blast
qed

end
