(* ===== verification/CBS_Spec.thy ===== *)
theory CBS_Spec
  imports DER_Values
begin

unbundle bit_operations_syntax

text \<open>
  What \<open>crypto/bytestring/cbs.c\<close> promises: the integer readers, the length-prefixed ones and the
  DER readers take exactly their encodings from the front of the cursor and nothing outside of
  it.
\<close>

section \<open>Cursors inside cursors\<close>

definition inside :: "cbs \<Rightarrow> cbs \<Rightarrow> bool" where
  "inside c out \<longleftrightarrow>
     (\<exists>k. cbs_data out = cbs_data c + of_nat k \<and> k + unat (cbs_len out) \<le> unat (cbs_len c))"

lemma takes_inside: "takes m c xs c' \<Longrightarrow> inside c c'"
  unfolding inside_def using takes_len [of m c xs c']
  by (intro exI [of _ "length xs"]) (auto simp: takes_iff cbs_drop_def)

lemma inside_refl: "inside c c"
  by (auto simp: inside_def intro: exI [of _ 0])

lemma inside_trans: "inside a b \<Longrightarrow> inside b c \<Longrightarrow> inside a c"
proof -
  assume "inside a b" "inside b c"
  then obtain j k where "cbs_data b = cbs_data a + of_nat j" "j + unat (cbs_len b) \<le> unat (cbs_len a)"
    "cbs_data c = cbs_data b + of_nat k" "k + unat (cbs_len c) \<le> unat (cbs_len b)"
    by (auto simp: inside_def)
  then show "inside a c"
    by (auto simp: inside_def intro!: exI [of _ "j + k"])
qed

lemma get_inside: "CBS_get_bytes n c = Ok out c' \<Longrightarrow> inside c out \<and> inside c c'"
proof -
  assume "CBS_get_bytes n c = Ok out c'"
  then have out: "out = \<lparr>cbs_data = cbs_data c, cbs_len = n\<rparr>" "takes (\<lambda>_. 0) c (cbs_bytes (\<lambda>_. 0) out) c'"
    unfolding CBS_get_bytes_Ok [where m = "\<lambda>_. 0"] by blast+
  then have "inside c out"
    using takes_len [OF out(2)] by (auto simp: inside_def intro: exI [of _ 0])
  then show ?thesis using takes_inside [OF out(2)] by blast
qed

lemma element_inside:
  assumes "cbs_get_any_asn1_element m ber_ok c = Ok (out, t, hl, b) c'"
  shows "inside c out \<and> inside c c'"
proof -
  from assms have "\<exists>n c1. CBS_get_bytes n c = Ok out c1 \<and> c1 = c'"
    by (auto simp: cbs_get_any_asn1_element_def mbind_Ok_iff Let_def split: outcome.splits if_splits)
  then show ?thesis using get_inside by blast
qed

lemma skip_inside: "CBS_skip n c = Ok u c' \<Longrightarrow> inside c c'"
  unfolding CBS_skip_Ok inside_def using unat_len_drop [of "unat n" c]
  by (intro exI [of _ "unat n"]) (auto simp: cbs_drop_def)

section \<open>Integers and byte strings\<close>

text \<open>The integer readers take exactly the big-endian or little-endian bytes of their value, at every
  width.\<close>

theorem integers_exact:
  "(CBS_get_u8 m c = Ok v1 c' \<longleftrightarrow> takes m c [v1] c') \<and>
   (CBS_get_u16 m c = Ok v2 c' \<longleftrightarrow> takes m c (be_bytes 2 v2) c') \<and>
   (CBS_get_u24 m c = Ok v3 c' \<longleftrightarrow> unat v3 < 2 ^ 24 \<and> takes m c (be_bytes 3 v3) c') \<and>
   (CBS_get_u32 m c = Ok v4 c' \<longleftrightarrow> takes m c (be_bytes 4 v4) c') \<and>
   (CBS_get_u64 m c = Ok v8 c' \<longleftrightarrow> takes m c (be_bytes 8 v8) c') \<and>
   (CBS_get_u16le m c = Ok v2 c' \<longleftrightarrow> takes m c (word_le_bytes 2 v2) c') \<and>
   (CBS_get_u32le m c = Ok v4 c' \<longleftrightarrow> takes m c (word_le_bytes 4 v4) c') \<and>
   (CBS_get_u64le m c = Ok v8 c' \<longleftrightarrow> takes m c (word_le_bytes 8 v8) c')"
  by (simp add: u8.reads u16.reads u24.reads u32.reads u64.reads u16le.reads u32le.reads u64le.reads)

text \<open>A length of \<open>n\<close> bytes and the string of that length.\<close>

definition prefixed_at :: "mem \<Rightarrow> nat \<Rightarrow> cbs \<Rightarrow> cbs \<Rightarrow> cbs \<Rightarrow> bool" where
  "prefixed_at m n c out c' \<longleftrightarrow>
     unat (cbs_len out) < 256 ^ n \<and> takes m c (be_bytes n (cbs_len out) @ cbs_bytes m out) c' \<and>
     cbs_data out = cbs_data c + of_nat n"

lemma length_prefixed_Ok:
  assumes "n \<le> 8"
  shows "cbs_get_length_prefixed m n c = Ok out c' \<longleftrightarrow> prefixed_at m (unat n) c out c'"
proof -
  have fits: "take_bit (8 * unat n) v = v \<longleftrightarrow> unat v < 256 ^ unat n" for v :: u64
    by (simp add: fits_iff power_mult)
  have at: "takes m c (be_bytes (unat n) v) c1 \<Longrightarrow> cbs_data c1 = cbs_data c + of_nat (unat n)" for v :: u64 and c1
    by (simp add: takes_iff cbs_drop_def)
  have "cbs_get_length_prefixed m n c = Ok out c' \<longleftrightarrow>
      (\<exists>v c1. unat v < 256 ^ unat n \<and> takes m c (be_bytes (unat n) v) c1 \<and>
        out = \<lparr>cbs_data = cbs_data c1, cbs_len = v\<rparr> \<and> takes m c1 (cbs_bytes m out) c')"
    unfolding cbs_get_length_prefixed_def reader_bind [OF cbs_get_u_reads [OF assms]] fits
      CBS_get_bytes_Ok [where m = m] by (rule refl)
  also have "\<dots> \<longleftrightarrow> prefixed_at m (unat n) c out c'"
    unfolding prefixed_at_def takes_append using at by (cases out) force
  finally show ?thesis .
qed

text \<open>A length-prefixed string is read exactly where its length and its bytes stand, with a prefix of
  one, two or three bytes.\<close>

theorem length_prefixed_exact:
  "(CBS_get_u8_length_prefixed m c = Ok out c' \<longleftrightarrow> prefixed_at m 1 c out c') \<and>
   (CBS_get_u16_length_prefixed m c = Ok out c' \<longleftrightarrow> prefixed_at m 2 c out c') \<and>
   (CBS_get_u24_length_prefixed m c = Ok out c' \<longleftrightarrow> prefixed_at m 3 c out c')"
  by (simp add: CBS_get_u8_length_prefixed_def CBS_get_u16_length_prefixed_def CBS_get_u24_length_prefixed_def
      length_prefixed_Ok)

section \<open>DER elements\<close>

text \<open>C14. A DER element is read exactly where one stands: the tag, the minimal length and the content,
  with the result covering the content. There is no other way to succeed.\<close>

theorem asn1_elements_exact:
  "(CBS_get_any_asn1 m c = Ok (out, t) c' \<longleftrightarrow> der_at m c t out c') \<and>
   (CBS_get_asn1 m t c = Ok out c' \<longleftrightarrow> der_at m c t out c')"
  unfolding get_any_asn1_Ok get_asn1_Ok by blast

text \<open>Reading back: at the encoding of an element, \<open>CBS_get_asn1\<close> and \<open>CBS_get_any_asn1\<close> give its
  content and its tag, and leave what follows.\<close>

theorem asn1_roundtrip:
  assumes "cbs_bytes m c = der t body @ rest" "length body < 2 ^ 32"
  shows "\<exists>out c'. CBS_get_asn1 m t c = Ok out c' \<and> CBS_get_any_asn1 m c = Ok (out, t) c' \<and>
    cbs_bytes m out = body \<and> cbs_bytes m c' = rest"
  by (rule der_read_back [OF assms])

definition der_sample :: mem where
  "der_sample = mem_write (\<lambda>_. 0) 0x1000 [0x04, 0x03, 0x61, 0x62, 0x63, 0xFF]"

lemma der_sample_bytes:
  "cbs_bytes der_sample (CBS_init 0x1000 6) = der CBS_ASN1_OCTETSTRING [0x61, 0x62, 0x63] @ [0xFF]"
  by (simp add: der_sample_def CBS_init_def cbs_bytes_def mem_bytes_def upt_rec der_def der_header_def der_tag_def
      der_length_def tag_class_def tag_number_def CBS_ASN1_OCTETSTRING_def)

theorem asn1_roundtrip_witness:
  "\<exists>out c'. CBS_get_asn1 der_sample CBS_ASN1_OCTETSTRING (CBS_init 0x1000 6) = Ok out c' \<and>
    cbs_bytes der_sample out = [0x61, 0x62, 0x63] \<and> cbs_bytes der_sample c' = [0xFF]"
  using asn1_roundtrip [OF der_sample_bytes] by auto

text \<open>The header of an element that has been read can always be skipped, so that a failure of
  \<open>CBS_get_any_asn1\<close> is one of \<open>CBS_get_any_asn1_element\<close>.\<close>

lemma element_skips:
  assumes "CBS_get_any_asn1_element m c = Ok (el, t, hl) c'"
  obtains out where "CBS_skip hl el = Ok () out" "inside el out"
proof -
  from assms obtain body where body: "length body < 2 ^ 32" and hl: "hl = of_nat (length (der_header t (length body)))"
    and el: "el = CBS_init (cbs_data c) (of_nat (length (der t body)))"
    unfolding element_Ok by blast
  let ?h = "length (der_header t (length body))"
  have "?h \<le> 11" using length_der_header [OF body] .
  with body have "unat (of_nat ?h :: u64) = ?h" "unat (of_nat (?h + length body) :: u64) = ?h + length body"
    using unat_of_nat_addr [of ?h] unat_of_nat_addr [of "?h + length body"] by (simp_all del: of_nat_add)
  then have "unat hl \<le> unat (cbs_len el)" by (simp add: hl el CBS_init_def der_def del: of_nat_add)
  then have "CBS_skip hl el = Ok () (cbs_drop (unat hl) el)" by (simp add: CBS_skip_Ok)
  with skip_inside [OF this] that show ?thesis by blast
qed

lemma any_element_inside:
  assumes "CBS_get_any_asn1_element m c = Ok (el, t, hl) c'"
  shows "inside c el \<and> inside c c'"
  using assms element_inside by (auto simp: CBS_get_any_asn1_element_def mbind_Ok_iff split: prod.splits)

lemma any_element_Fail: "CBS_get_any_asn1_element m c = Fail c' \<Longrightarrow> c' = c"
  using element_Fail [of m False c c'] by (auto simp: CBS_get_any_asn1_element_def mbind_def split: outcome.splits prod.splits)

text \<open>How a reader of one element ends. It returns; what it gives and the cursor it leaves lie inside of the
  cursor it was given; where there is no element the cursor has not moved, and where there is one of another
  tag than \<open>t\<close> the cursor is behind that element.\<close>

definition confined :: "mem \<Rightarrow> u32 option \<Rightarrow> cbs \<Rightarrow> (cbs, cbs) outcome \<Rightarrow> bool" where
  "confined m t c r \<longleftrightarrow>
     (case r of
        Ok out c' \<Rightarrow> inside c out \<and> inside c c'
      | Fail c' \<Rightarrow>
          (case (t, CBS_get_any_asn1_element m c) of
             (Some t, Ok (_, t', _) behind) \<Rightarrow> t' \<noteq> t \<and> c' = behind \<and> inside c c'
           | _ \<Rightarrow> c' = c)
      | _ \<Rightarrow> False)"

text \<open>C15. Whatever the input, each of the five readers of an element returns, and what it gives lies inside of
  the cursor it was given, and so does the cursor it leaves. When \<open>CBS_get_any_asn1\<close>,
  \<open>CBS_get_any_asn1_element\<close> and \<open>CBS_get_any_ber_asn1_element\<close> fail the cursor has not moved. When
  \<open>CBS_get_asn1\<close> and \<open>CBS_get_asn1_element\<close> fail it has not moved either, unless there is an element, whose tag
  is another one than that asked for: then the cursor is behind that element.\<close>

theorem asn1_stays_inside:
  "confined m None c (map_outcome fst id (CBS_get_any_ber_asn1_element m c)) \<and>
   confined m None c (map_outcome fst id (CBS_get_any_asn1_element m c)) \<and>
   confined m None c (map_outcome fst id (CBS_get_any_asn1 m c)) \<and>
   confined m (Some t) c (CBS_get_asn1_element m t c) \<and>
   confined m (Some t) c (CBS_get_asn1 m t c)"
proof -
  have "confined m None c (map_outcome fst id (CBS_get_any_ber_asn1_element m c))"
    using element_inside [of m True c] element_Fail [of m True c] returns_element [of m True]
    by (cases "cbs_get_any_asn1_element m True c")
       (auto simp: confined_def CBS_get_any_ber_asn1_element_def returns_def)
  moreover have "confined m None c (map_outcome fst id (CBS_get_any_asn1_element m c)) \<and>
    confined m None c (map_outcome fst id (CBS_get_any_asn1 m c)) \<and>
    confined m (Some t) c (CBS_get_asn1_element m t c) \<and> confined m (Some t) c (CBS_get_asn1 m t c)"
  proof (cases "CBS_get_any_asn1_element m c")
    case (Ok r c1)
    obtain el t' hl where r: "r = (el, t', hl)" by (metis prod_cases3)
    obtain out where out: "CBS_skip hl el = Ok () out" "inside el out"
      using element_skips [OF Ok [unfolded r]] .
    have el: "inside c el" "inside c c1" using any_element_inside [OF Ok [unfolded r]] by simp_all
    then have "inside c out" using out(2) inside_trans by blast
    with el show ?thesis
      by (simp add: confined_def Ok r out(1) CBS_get_any_asn1_def CBS_get_asn1_element_def CBS_get_asn1_def
          cbs_get_asn1_def mbind_def)
  next
    case (Fail c1)
    with any_element_Fail [OF Fail] show ?thesis
      by (simp add: confined_def CBS_get_any_asn1_def CBS_get_asn1_element_def CBS_get_asn1_def cbs_get_asn1_def mbind_def)
  qed (use returns_asn1(1) [of m] in \<open>auto simp: returns_def\<close>)
  ultimately show ?thesis by blast
qed

theorem asn1_stays_inside_witness:
  "\<exists>out c'. CBS_get_asn1 der_sample CBS_ASN1_OCTETSTRING (CBS_init 0x1000 6) = Ok out c' \<and>
    inside (CBS_init 0x1000 6) out \<and> inside (CBS_init 0x1000 6) c'"
proof -
  obtain out c' where run: "CBS_get_asn1 der_sample CBS_ASN1_OCTETSTRING (CBS_init 0x1000 6) = Ok out c'"
    using der_read_back [OF der_sample_bytes] by auto
  then show ?thesis
    using asn1_stays_inside [of der_sample "CBS_init 0x1000 6" CBS_ASN1_OCTETSTRING] by (auto simp: confined_def)
qed

section \<open>DER values\<close>

text \<open>C16. \<open>CBS_get_asn1_uint64\<close>, \<open>CBS_get_asn1_int64\<close> and \<open>CBS_get_asn1_bool\<close> accept exactly the DER
  encodings: integers in minimal two's complement that fit, booleans 0x00 and 0xFF.\<close>

theorem asn1_values_exact:
  "(CBS_get_asn1_uint64 m c = Ok v c' \<longleftrightarrow> takes m c (der CBS_ASN1_INTEGER (der_int (uint v))) c') \<and>
   (CBS_get_asn1_int64 m c = Ok w c' \<longleftrightarrow> takes m c (der CBS_ASN1_INTEGER (der_int (sint w))) c') \<and>
   (CBS_get_asn1_bool m c = Ok b c' \<longleftrightarrow> takes m c (der CBS_ASN1_BOOLEAN [if b then 0xFF else 0]) c')"
  using asn1_uint64.reads asn1_int64.reads asn1_bool.reads by (simp add: der_bool_def)

text \<open>The readers of values return zero exactly where no encoding of a value stands at the front of
  the cursor; they have no third way to end.\<close>

theorem asn1_values_fail:
  "((\<exists>c'. CBS_get_asn1_uint64 m c = Fail c') \<longleftrightarrow>
      (\<nexists>v rest. cbs_bytes m c = der CBS_ASN1_INTEGER (der_int (uint (v :: u64))) @ rest)) \<and>
   ((\<exists>c'. CBS_get_asn1_int64 m c = Fail c') \<longleftrightarrow>
      (\<nexists>v rest. cbs_bytes m c = der CBS_ASN1_INTEGER (der_int (sint (v :: u64))) @ rest)) \<and>
   ((\<exists>c'. parse_base128_integer m c = Fail c') \<longleftrightarrow>
      (\<nexists>v rest. cbs_bytes m c = base128 (unat (v :: u64)) @ rest))"
  using asn1_uint64.fails_iff [of m c] asn1_int64.fails_iff [of m c] base128.fails_iff [of m c] by blast

text \<open>A tag has one encoding, in any class and with any number of 29 bits, and the multi-byte numbers are
  the minimal base-128 ones.\<close>

theorem asn1_tags_exact:
  "(parse_asn1_tag m c = Ok t c' \<longleftrightarrow> takes m c (der_tag t) c') \<and>
   (parse_base128_integer m c = Ok v c' \<longleftrightarrow> takes m c (base128 (unat v)) c') \<and>
   (CBS_peek_asn1_tag m c t \<longleftrightarrow> (\<exists>rest. cbs_bytes m c = der_tag t @ rest))"
  using asn1_tag.reads base128.reads peek_iff by simp

text \<open>An optional element is read where its tag stands, its content has to be one encoding to the last
  byte, and the default is returned, with the cursor unmoved, where the tag does not stand.\<close>

theorem optional_values_exact:
  "(CBS_get_optional_asn1_uint64 m t d c = Ok v c' \<longleftrightarrow>
      (if CBS_peek_asn1_tag m c t
       then takes m c (der t (der CBS_ASN1_INTEGER (der_int (uint v)))) c'
       else c' = c \<and> v = d)) \<and>
   (CBS_get_optional_asn1 m t c = Ok r c' \<longleftrightarrow>
      (case r of Some out \<Rightarrow> der_at m c t out c' | None \<Rightarrow> c' = c \<and> \<not> CBS_peek_asn1_tag m c t))"
proof -
  have small: "length (der CBS_ASN1_INTEGER (der_int (uint (v :: u64)))) < 2 ^ 32" for v
  proof -
    have "uint v < 2 ^ 64" by (rule less_le_trans [OF unsigned_less]) simp
    then have "length (der_int (uint v)) \<le> 9" by (simp add: length_der_int order_trans [of _ 0])
    then show ?thesis
      using length_der_header [of "length (der_int (uint v))" CBS_ASN1_INTEGER] by (simp add: der_def)
  qed
  have "CBS_get_optional_asn1_uint64 m t d c = Ok v c' \<longleftrightarrow>
      (if CBS_peek_asn1_tag m c t
       then \<exists>w. takes m c (der t (der CBS_ASN1_INTEGER (der_int (uint w)))) c' \<and> v = w
       else c' = c \<and> v = d)"
    using optional_value [OF asn1_uint64.value_reader_axioms small, where h = "\<lambda>v. v"]
    unfolding CBS_get_optional_asn1_uint64_def by simp
  then show ?thesis using optional_asn1_Ok [of m t c r c'] by (cases "CBS_peek_asn1_tag m c t") simp_all
qed

section \<open>Bit strings\<close>

fun bitstring_ok :: "byte list \<Rightarrow> bool" where
  "bitstring_ok [] = False"
| "bitstring_ok (n # bits) =
     (unat n \<le> 7 \<and> (n = 0 \<or> bits \<noteq> [] \<and> unat (last bits) mod 2 ^ unat n = 0))"

lemma last_u8_bytes:
  "cbs_bytes m c \<noteq> [] \<Longrightarrow> \<exists>c'. CBS_get_last_u8 m c = Ok (last (cbs_bytes m c)) c'"
proof -
  assume ne: "cbs_bytes m c \<noteq> []"
  then have len: "unat (cbs_len c) \<noteq> 0" using length_cbs_bytes [of m c] by (metis length_0_conv)
  then have "unat (cbs_len c - 1) = unat (cbs_len c) - 1"
    by (metis One_nat_def unat_eq_0 unat_minus_one)
  then have "cbs_data c + (cbs_len c - 1) = cbs_data c + of_nat (unat (cbs_len c) - 1)"
    by (metis of_nat_unat ucast_id)
  moreover have "last (cbs_bytes m c) = m (cbs_data c + of_nat (unat (cbs_len c) - 1))"
    using ne len by (simp add: last_conv_nth cbs_bytes_def)
  ultimately show ?thesis using len by (auto simp: CBS_get_last_u8_def load8_def)
qed

lemma last_u8_Nil: "cbs_bytes m c = [] \<Longrightarrow> CBS_get_last_u8 m c = Fail c"
  using length_cbs_bytes [of m c] by (simp add: CBS_get_last_u8_def unat_eq_0 [symmetric])

lemma valid_bitstring_iff: "CBS_is_valid_asn1_bitstring m c \<longleftrightarrow> bitstring_ok (cbs_bytes m c)"
proof (cases "cbs_bytes m c")
  case Nil
  then show ?thesis by (simp add: CBS_is_valid_asn1_bitstring_def get_u8_bytes)
next
  case (Cons n bits)
  have low: "(ucast b :: u32) AND (push_bit (unat n) 1 - 1) = 0 \<longleftrightarrow> unat b mod 2 ^ unat n = 0" for b :: byte
  proof -
    have "push_bit (unat n) 1 - 1 = (mask (unat n) :: u32)" by (simp add: mask_eq_exp_minus_1 push_bit_eq_mult)
    then have "unat ((ucast b :: u32) AND (push_bit (unat n) 1 - 1)) = unat b mod 2 ^ unat n"
      by (simp add: unat_and_mask unat_ucast_up)
    then show ?thesis by (metis unat_eq_0)
  qed
  have seven: "7 < n \<longleftrightarrow> \<not> unat n \<le> 7" by (simp add: word_less_nat_alt not_le)
  show ?thesis
  proof (cases "bits = []")
    case True
    then show ?thesis
      using Cons cbs_bytes_tl [OF Cons] seven
      by (simp add: CBS_is_valid_asn1_bitstring_def get_u8_bytes last_u8_Nil)
  next
    case False
    with last_u8_bytes [of m "cbs_drop 1 c"] cbs_bytes_tl [OF Cons] obtain c'
      where "CBS_get_last_u8 m (cbs_drop 1 c) = Ok (last bits) c'" by auto
    then show ?thesis
      using Cons False low seven by (simp add: CBS_is_valid_asn1_bitstring_def get_u8_bytes)
  qed
qed

text \<open>\<open>CBS_asn1_bitstring_has_bit\<close> tells the bits of a valid \<open>BIT STRING\<close>, most significant first;
  a bit past the end, or in an invalid string, is not set. It reads no byte outside of the
  cursor.\<close>

theorem bitstring_bits:
  "CBS_is_valid_asn1_bitstring m c = bitstring_ok (cbs_bytes m c) \<and>
   CBS_asn1_bitstring_has_bit m c b =
     (bitstring_ok (cbs_bytes m c) \<and>
      unat b div 8 < length (tl (cbs_bytes m c)) \<and> bit (tl (cbs_bytes m c) ! (unat b div 8)) (7 - unat b mod 8))"
proof -
  let ?k = "unat b div 8" and ?bs = "cbs_bytes m c"
  have num: "unat (drop_bit 3 b + 1) = ?k + 1"
  proof -
    have "unat (drop_bit 3 b) = ?k"
      using drop_bit_eq_div [of 3 "unat b"] by (simp only: unat_drop_bit_eq) simp
    moreover have "?k + 1 < 2 ^ 32" using unat_less32 [of b] by simp
    ultimately show ?thesis by (simp add: unat_word_ariths)
  qed
  then have "unat (ucast (drop_bit 3 b + 1) :: u64) = ?k + 1" by (simp add: unat_ucast_up)
  then have wide: "(ucast (drop_bit 3 b + 1) :: u64) = of_nat (?k + 1)" by (metis of_nat_unat ucast_id)
  have less: "(ucast (drop_bit 3 b + 1) :: u64) < cbs_len c \<longleftrightarrow> ?k < length (tl ?bs)"
    by (auto simp: word_less_nat_alt unat_ucast_up num)
  have seven: "unat (7 - (b AND 7)) = 7 - unat b mod 8"
  proof -
    have "unat (b AND 7) = unat b mod 8" by (simp add: byte_masks unat_and_mask)
    moreover from this have "b AND 7 \<le> 7" by (simp add: word_le_nat_alt)
    ultimately show ?thesis by (simp add: unat_sub)
  qed
  have one: "(ucast x :: u32) AND push_bit n 1 \<noteq> 0 \<longleftrightarrow> bit x n" if "n < 8" for x :: byte and n
    using and_exp_eq_0_iff_not_bit [of "ucast x :: u32" n] that by (simp add: push_bit_eq_mult bit_ucast_iff)
  have byte: "?k < length (tl ?bs) \<Longrightarrow> load8 m (cbs_data c + of_nat (?k + 1)) = tl ?bs ! ?k"
    by (simp add: load8_def nth_tl cbs_bytes_def)
  show ?thesis
    using less byte one [of "7 - unat b mod 8" "tl ?bs ! ?k"]
    by (auto simp: CBS_asn1_bitstring_has_bit_def valid_bitstring_iff Let_def CBS_len_def CBS_data_def seven wide simp del: of_nat_add length_tl)
qed

section \<open>Comparing and searching\<close>

lemma xor_0_iff: "a XOR b = 0 \<longleftrightarrow> a = (b :: byte)"
  by (auto simp: bit_eq_iff bit_simps)

lemma or_0_iff: "a OR b = 0 \<longleftrightarrow> a = 0 \<and> b = (0 :: byte)"
  by (auto simp: bit_eq_iff bit_simps)

lemma memcmp_0: "CRYPTO_memcmp m a b len = 0 \<longleftrightarrow> mem_bytes m a (unat len) = mem_bytes m b (unat len)"
proof -
  have "foldl (\<lambda>x i. x OR (m (a + of_nat i) XOR m (b + of_nat i))) x is = 0 \<longleftrightarrow>
      x = 0 \<and> (\<forall>i \<in> set is. m (a + of_nat i) = m (b + of_nat i))" for x "is"
    by (induction "is" arbitrary: x) (auto simp: or_0_iff xor_0_iff)
  then show ?thesis by (auto simp: CRYPTO_memcmp_def mem_bytes_def)
qed

lemma memchr_eq:
  "OPENSSL_memchr m s ch n =
     (if ch \<in> set (mem_bytes m s (unat n))
      then Some (s + of_nat (length (takeWhile (\<lambda>b. b \<noteq> ch) (mem_bytes m s (unat n))))) else None)"
proof (cases "ch \<in> set (mem_bytes m s (unat n))")
  case True
  let ?bs = "mem_bytes m s (unat n)"
  let ?k = "length (takeWhile (\<lambda>b. b \<noteq> ch) ?bs)"
  have k: "?k < unat n" "?bs ! ?k = ch" "\<And>j. j < ?k \<Longrightarrow> ?bs ! j \<noteq> ch"
  proof -
    have "takeWhile (\<lambda>b. b \<noteq> ch) ?bs \<noteq> ?bs" using True by (auto simp: takeWhile_eq_all_conv)
    then show "?k < unat n" using length_takeWhile_le [of "\<lambda>b. b \<noteq> ch" ?bs] takeWhile_eq_take [of "\<lambda>b. b \<noteq> ch" ?bs]
      by (metis le_neq_implies_less length_mem_bytes take_all_iff order_refl)
    then show "?bs ! ?k = ch" using nth_length_takeWhile [of "\<lambda>b. b \<noteq> ch" ?bs] by simp
    fix j
    assume j: "j < ?k"
    then have "takeWhile (\<lambda>b. b \<noteq> ch) ?bs ! j \<in> set (takeWhile (\<lambda>b. b \<noteq> ch) ?bs)" by (rule nth_mem)
    then have "takeWhile (\<lambda>b. b \<noteq> ch) ?bs ! j \<noteq> ch" by (blast dest: set_takeWhileD)
    with j show "?bs ! j \<noteq> ch" by (simp add: takeWhile_nth)
  qed
  have "m (s + of_nat j) \<noteq> ch" if "j < ?k" for j
    using k(3) [OF that] order.strict_trans [OF that k(1)] by simp
  then have "find (\<lambda>i. m (s + of_nat i) = ch) [0..<unat n] = Some ?k"
    unfolding find_Some_iff using k(1,2) by (intro exI [of _ ?k]) simp
  moreover have "n \<noteq> 0" using True by auto
  ultimately show ?thesis using True by (simp add: OPENSSL_memchr_def)
next
  case False
  then have "find (\<lambda>i. m (s + of_nat i) = ch) [0..<unat n] = None"
    by (auto simp: find_None_iff mem_bytes_def)
  with False show ?thesis by (simp add: OPENSSL_memchr_def)
qed

text \<open>\<open>CBS_mem_equal\<close> compares the whole strings, \<open>CBS_contains_zero_byte\<close> finds a zero byte wherever it is,
  and \<open>CBS_get_until_first\<close> takes the bytes before the first occurrence of its argument, or fails
  where there is none.\<close>

theorem strings_exact:
  "(CBS_mem_equal m c p len \<longleftrightarrow> cbs_bytes m c = mem_bytes m p (unat len)) \<and>
   (CBS_contains_zero_byte m c \<longleftrightarrow> 0 \<in> set (cbs_bytes m c)) \<and>
   CBS_get_until_first m ch c =
     (if ch \<in> set (cbs_bytes m c)
      then let n = length (takeWhile (\<lambda>b. b \<noteq> ch) (cbs_bytes m c))
           in Ok (CBS_init (cbs_data c) (of_nat n)) (cbs_drop n c)
      else Fail c)"
proof -
  have len: "len = cbs_len c \<longleftrightarrow> unat len = unat (cbs_len c)" by (simp add: word_unat_eq_iff)
  have "CBS_mem_equal m c p len \<longleftrightarrow> cbs_bytes m c = mem_bytes m p (unat len)"
  proof (cases "len = cbs_len c")
    case True
    then show ?thesis by (simp add: CBS_mem_equal_def memcmp_0 cbs_bytes_def)
  next
    case False
    then have "length (cbs_bytes m c) \<noteq> length (mem_bytes m p (unat len))" using len by simp
    then have "cbs_bytes m c \<noteq> mem_bytes m p (unat len)" by metis
    with False show ?thesis by (simp add: CBS_mem_equal_def)
  qed
  moreover have "CBS_contains_zero_byte m c \<longleftrightarrow> 0 \<in> set (cbs_bytes m c)"
    by (simp add: CBS_contains_zero_byte_def memchr_eq cbs_bytes_def)
  moreover have "CBS_get_until_first m ch c =
     (if ch \<in> set (cbs_bytes m c)
      then let n = length (takeWhile (\<lambda>b. b \<noteq> ch) (cbs_bytes m c))
           in Ok (CBS_init (cbs_data c) (of_nat n)) (cbs_drop n c)
      else Fail c)"
  proof (cases "ch \<in> set (cbs_bytes m c)")
    case True
    let ?n = "length (takeWhile (\<lambda>b. b \<noteq> ch) (cbs_bytes m c))"
    have "?n \<le> unat (cbs_len c)" using length_takeWhile_le [of "\<lambda>b. b \<noteq> ch" "cbs_bytes m c"] by simp
    moreover from this have "unat (of_nat ?n :: u64) = ?n"
      using unat_less64 [of "cbs_len c"] by (intro unat_of_nat_addr) linarith
    ultimately have "\<not> cbs_len c < of_nat ?n" by (simp add: word_less_nat_alt)
    then show ?thesis
      using True
      by (simp add: CBS_get_until_first_def memchr_eq CBS_data_def CBS_len_def Let_def CBS_get_bytes_def mbind_def
          cbs_get_def cbs_drop_def flip: cbs_bytes_def)
  next
    case False
    then show ?thesis
      by (simp add: CBS_get_until_first_def memchr_eq CBS_data_def CBS_len_def flip: cbs_bytes_def)
  qed
  ultimately show ?thesis by blast
qed

end
