(* ===== verification/CBB.thy ===== *)
theory CBB
  imports CBS
begin

unbundle bit_operations_syntax

text \<open>
  \<open>crypto/bytestring/cbb.c\<close>: a \<open>CBB\<close> writes bytes to a buffer that grows. While a length prefix is
  pending, the \<open>CBB\<close> has a child that writes to the same buffer; \<open>CBB_flush\<close> fills the prefixes
  in, from the innermost child on. The structs point to each other, so they live in a store: a
  \<open>CBB *\<close> and a \<open>struct cbb_buffer_st *\<close> are numbers that name a cell. A function returns \<open>Ok\<close>
  where it returns one and \<open>Fail\<close> where it returns zero. A pointer into the buffer is an index.
  What the allocator grants is a parameter of the store; fresh bytes are zeros in the model, the
  code writes them before it reads them. \<open>CBB_flush\<close> recurses along the children, at most
  \<open>flush_depth\<close> of them.
\<close>

section \<open>Buffers and builders\<close>

record cbb_buffer =
  bb_buf :: "byte list"
  bb_len :: u64
  bb_cap :: u64
  bb_can_resize :: bool
  bb_error :: bool

record cbb =
  cbb_base :: "nat option"
  cbb_child :: "nat option"
  cbb_offset :: u64
  pending_len_len :: byte
  pending_is_asn1 :: bool
  is_child :: bool

record cbb_store =
  buffers :: "nat \<Rightarrow> cbb_buffer"
  cbbs :: "nat \<Rightarrow> cbb"
  allocates :: "u64 \<Rightarrow> bool"
  flush_depth :: nat

type_synonym 'a builder = "cbb_store \<Rightarrow> ('a, cbb_store) outcome"

abbreviation (input) set_buffer :: "nat \<Rightarrow> (cbb_buffer \<Rightarrow> cbb_buffer) \<Rightarrow> cbb_store \<Rightarrow> cbb_store" where
  "set_buffer b f h \<equiv> h\<lparr>buffers := (buffers h)(b := f (buffers h b))\<rparr>"

abbreviation (input) set_cbb :: "nat \<Rightarrow> (cbb \<Rightarrow> cbb) \<Rightarrow> cbb_store \<Rightarrow> cbb_store" where
  "set_cbb p f h \<equiv> h\<lparr>cbbs := (cbbs h)(p := f (cbbs h p))\<rparr>"

definition CBB_zero :: "nat \<Rightarrow> cbb_store \<Rightarrow> cbb_store" where
  "CBB_zero p = set_cbb p (\<lambda>_. \<lparr>cbb_base = None, cbb_child = None, cbb_offset = 0, pending_len_len = 0,
     pending_is_asn1 = False, is_child = False\<rparr>)"

text \<open>\<open>base\<close> is the cell that \<open>OPENSSL_malloc\<close> gives for the buffer struct, of 32 bytes.\<close>

definition cbb_init :: "nat \<Rightarrow> nat \<Rightarrow> byte list \<Rightarrow> u64 \<Rightarrow> unit builder" where
  "cbb_init base p buf cap h =
     (if \<not> allocates h 32 then Fail h
      else
        let h = set_buffer base (\<lambda>_. \<lparr>bb_buf = buf, bb_len = 0, bb_cap = cap, bb_can_resize = True, bb_error = False\<rparr>) h
        in Ok () (set_cbb p (\<lambda>c. c\<lparr>cbb_base := Some base, is_child := False\<rparr>) h))"

definition CBB_init :: "nat \<Rightarrow> nat \<Rightarrow> u64 \<Rightarrow> unit builder" where
  "CBB_init base p initial_capacity h =
     (let h = CBB_zero p h in
      if 0 < initial_capacity \<and> \<not> allocates h initial_capacity then Fail h
      else cbb_init base p (replicate (unat initial_capacity) 0) initial_capacity h)"

definition CBB_init_fixed :: "nat \<Rightarrow> nat \<Rightarrow> byte list \<Rightarrow> u64 \<Rightarrow> unit builder" where
  "CBB_init_fixed base p buf len h =
     mthen (cbb_init base p buf len)
       (\<lambda>h. Ok () (set_buffer base (\<lambda>b. b\<lparr>bb_can_resize := False\<rparr>) h)) (CBB_zero p h)"

definition CBB_cleanup :: "nat \<Rightarrow> cbb_store \<Rightarrow> cbb_store" where
  "CBB_cleanup p h = (if is_child (cbbs h p) then h else set_cbb p (\<lambda>c. c\<lparr>cbb_base := None\<rparr>) h)"

definition buffer_error :: "nat \<Rightarrow> 'a builder" where
  "buffer_error b h = Fail (set_buffer b (\<lambda>b. b\<lparr>bb_error := True\<rparr>) h)"

definition cbb_buffer_reserve :: "nat option \<Rightarrow> u64 \<Rightarrow> nat builder" where
  "cbb_buffer_reserve base len h =
     (case base of
        None \<Rightarrow> Fail h
      | Some b \<Rightarrow>
          let bb = buffers h b; newlen = bb_len bb + len in
          if newlen < bb_len bb then buffer_error b h
          else if bb_cap bb < newlen then
            let newcap = bb_cap bb * 2 in
            if \<not> bb_can_resize bb then buffer_error b h
            else
              let newcap = (if newcap < bb_cap bb \<or> newcap < newlen then newlen else newcap) in
              if \<not> allocates h newcap then buffer_error b h
              else Ok (unat (bb_len bb))
                     (set_buffer b (\<lambda>bb. bb\<lparr>bb_buf := bb_buf bb @ replicate (unat newcap - length (bb_buf bb)) 0,
                        bb_cap := newcap\<rparr>) h)
          else Ok (unat (bb_len bb)) h)"

definition cbb_buffer_add :: "nat option \<Rightarrow> u64 \<Rightarrow> nat builder" where
  "cbb_buffer_add base len = mbind (cbb_buffer_reserve base len) (\<lambda>out h.
     Ok out (set_buffer (the base) (\<lambda>bb. bb\<lparr>bb_len := bb_len bb + len\<rparr>) h))"

text \<open>The bytes of \<open>v\<close>, most significant first, at \<open>at\<close>; what is left of \<open>v\<close>.\<close>

fun put_be :: "nat \<Rightarrow> nat \<Rightarrow> u64 \<Rightarrow> byte list \<Rightarrow> byte list \<times> u64" where
  "put_be 0 pos v buf = (buf, v)"
| "put_be (Suc i) pos v buf = put_be i pos (drop_bit 8 v) (buf[pos + i := ucast v])"

definition cbb_buffer_add_u :: "nat option \<Rightarrow> u64 \<Rightarrow> u64 \<Rightarrow> unit builder" where
  "cbb_buffer_add_u base v len_len =
     (if len_len = 0 then mreturn ()
      else mbind (cbb_buffer_add base len_len) (\<lambda>pos h.
        case put_be (unat len_len) pos v (bb_buf (buffers h (the base))) of (buf, v) \<Rightarrow>
          let h = set_buffer (the base) (\<lambda>bb. bb\<lparr>bb_buf := buf\<rparr>) h in
          if v \<noteq> 0 then buffer_error (the base) h else Ok () h))"

section \<open>Pending length prefixes\<close>

text \<open>The number of length octets and the first of them, for a content of \<open>len\<close> bytes.\<close>

definition asn1_length_form :: "u64 \<Rightarrow> (byte \<times> byte) option" where
  "asn1_length_form len =
     (if 0xFFFFFFFE < len then None
      else if 0xFFFFFF < len then Some (5, 0x80 OR 4)
      else if 0xFFFF < len then Some (4, 0x80 OR 3)
      else if 0xFF < len then Some (3, 0x80 OR 2)
      else if 0x7F < len then Some (2, 0x80 OR 1)
      else Some (1, ucast len))"

text \<open>\<open>OPENSSL_memmove(buf + to, buf + from, len)\<close> inside of one buffer.\<close>

definition buf_move :: "nat \<Rightarrow> nat \<Rightarrow> nat \<Rightarrow> byte list \<Rightarrow> byte list" where
  "buf_move to from len buf = take to buf @ take len (drop from buf) @ drop (to + len) buf"

definition flush_asn1 :: "nat \<Rightarrow> nat \<Rightarrow> u64 \<Rightarrow> u64 \<Rightarrow> u64 builder" where
  "flush_asn1 b k child_start len h =
     (case asn1_length_form len of
        None \<Rightarrow> Fail h
      | Some (len_len, initial_length_byte) \<Rightarrow>
          let finish = (\<lambda>h.
            let pos = unat (cbb_offset (cbbs h k));
                h = set_buffer b (\<lambda>bb. bb\<lparr>bb_buf := (bb_buf bb)[pos := initial_length_byte]\<rparr>) h;
                h = set_cbb k (\<lambda>c. c\<lparr>cbb_offset := cbb_offset c + 1, pending_len_len := len_len - 1\<rparr>) h
            in Ok (if len_len = 1 then 0 else len) h)
          in if len_len \<noteq> 1 then
               let extra_bytes = ucast (len_len - 1) in
               mbind (cbb_buffer_add (Some b) extra_bytes) (\<lambda>_ h.
                 finish (set_buffer b (\<lambda>bb. bb\<lparr>bb_buf := buf_move (unat (child_start + extra_bytes)) (unat child_start)
                            (unat len) (bb_buf bb)\<rparr>) h)) h
             else finish h)"

text \<open>The innermost prefix that \<open>CBB_flush\<close> fills in for \<open>p\<close>, once the child \<open>k\<close> has no pending one.\<close>

definition flush_child :: "nat \<Rightarrow> nat \<Rightarrow> nat \<Rightarrow> u64 \<Rightarrow> unit builder" where
  "flush_child b p k child_start h =
     (let child = cbbs h k in
      if child_start < cbb_offset child \<or> bb_len (buffers h b) < child_start then Fail h
      else
        let len = bb_len (buffers h b) - child_start in
        mbind (if pending_is_asn1 child then flush_asn1 b k child_start len else mreturn len) (\<lambda>len h.
          let child = cbbs h k in
          case put_be (unat (pending_len_len child)) (unat (cbb_offset child)) len (bb_buf (buffers h b)) of (buf, len) \<Rightarrow>
            let h = set_buffer b (\<lambda>bb. bb\<lparr>bb_buf := buf\<rparr>) h in
            if len \<noteq> 0 then Fail h
            else
              let h = set_cbb k (\<lambda>c. c\<lparr>cbb_base := None\<rparr>) h
              in Ok () (set_cbb p (\<lambda>c. c\<lparr>cbb_child := None\<rparr>) h)) h)"

fun flush_upto :: "nat \<Rightarrow> nat \<Rightarrow> unit builder" where
  "flush_upto 0 p h = Fuel"
| "flush_upto (Suc n) p h =
     (case cbb_base (cbbs h p) of
        None \<Rightarrow> Fail h
      | Some b \<Rightarrow>
          if bb_error (buffers h b) then Fail h
          else case cbb_child (cbbs h p) of
            None \<Rightarrow> Ok () h
          | Some k \<Rightarrow>
              let child = cbbs h k in
              if pending_len_len child = 0 then Ok () h
              else
                let child_start = cbb_offset child + ucast (pending_len_len child) in
                case mthen (flush_upto n k) (flush_child b p k child_start) h of
                  Fail h \<Rightarrow> buffer_error b h
                | r \<Rightarrow> r)"

definition CBB_flush :: "nat \<Rightarrow> unit builder" where
  "CBB_flush p h = flush_upto (flush_depth h) p h"

section \<open>Adding\<close>

definition CBB_data :: "nat \<Rightarrow> cbb_store \<Rightarrow> u64" where
  "CBB_data p h = cbb_offset (cbbs h p) + ucast (pending_len_len (cbbs h p))"

definition CBB_len :: "nat \<Rightarrow> cbb_store \<Rightarrow> u64" where
  "CBB_len p h =
     bb_len (buffers h (the (cbb_base (cbbs h p)))) - cbb_offset (cbbs h p) - ucast (pending_len_len (cbbs h p))"

text \<open>The bytes and the length that \<open>CBB_finish\<close> gives to the caller; both wanted or not.\<close>

definition CBB_finish :: "nat \<Rightarrow> bool \<Rightarrow> (byte list \<times> u64) builder" where
  "CBB_finish p wants h =
     (if is_child (cbbs h p) then Fail h
      else mthen (CBB_flush p) (\<lambda>h.
        let b = the (cbb_base (cbbs h p)); bb = buffers h b in
        if bb_can_resize bb \<and> \<not> wants then Fail h
        else Ok (bb_buf bb, bb_len bb) (CBB_cleanup p (set_buffer b (\<lambda>bb. bb\<lparr>bb_buf := []\<rparr>) h))) h)"

definition with_base :: "nat \<Rightarrow> (nat option \<Rightarrow> 'a builder) \<Rightarrow> 'a builder" where
  "with_base p f h = f (cbb_base (cbbs h p)) h"

text \<open>The child becomes the only pending one.\<close>

definition start_child :: "nat \<Rightarrow> nat \<Rightarrow> u64 \<Rightarrow> byte \<Rightarrow> bool \<Rightarrow> unit builder" where
  "start_child p out_contents offset len_len asn1 h =
     (let h = set_cbb out_contents (\<lambda>_. \<lparr>cbb_base = cbb_base (cbbs h p), cbb_child = None, cbb_offset = offset,
                pending_len_len = len_len, pending_is_asn1 = asn1, is_child = True\<rparr>) h
      in Ok () (set_cbb p (\<lambda>c. c\<lparr>cbb_child := Some out_contents\<rparr>) h))"

definition fill :: "nat \<Rightarrow> byte list \<Rightarrow> unit builder" where
  "fill p bs = with_base p (\<lambda>base. mbind (cbb_buffer_add base (of_nat (length bs))) (\<lambda>pos h.
     Ok () (set_buffer (the base)
       (\<lambda>bb. bb\<lparr>bb_buf := take pos (bb_buf bb) @ bs @ drop (pos + length bs) (bb_buf bb)\<rparr>) h)))"

definition cbb_add_length_prefixed :: "nat \<Rightarrow> nat \<Rightarrow> byte \<Rightarrow> unit builder" where
  "cbb_add_length_prefixed p out_contents len_len =
     mthen (CBB_flush p) (\<lambda>h.
       let offset = bb_len (buffers h (the (cbb_base (cbbs h p)))) in
       mthen (fill p (replicate (unat len_len) 0)) (start_child p out_contents offset len_len False) h)"

definition CBB_add_u8_length_prefixed :: "nat \<Rightarrow> nat \<Rightarrow> unit builder" where
  "CBB_add_u8_length_prefixed p out_contents = cbb_add_length_prefixed p out_contents 1"

definition CBB_add_u16_length_prefixed :: "nat \<Rightarrow> nat \<Rightarrow> unit builder" where
  "CBB_add_u16_length_prefixed p out_contents = cbb_add_length_prefixed p out_contents 2"

definition CBB_add_u24_length_prefixed :: "nat \<Rightarrow> nat \<Rightarrow> unit builder" where
  "CBB_add_u24_length_prefixed p out_contents = cbb_add_length_prefixed p out_contents 3"

definition add_u :: "nat \<Rightarrow> u64 \<Rightarrow> u64 \<Rightarrow> unit builder" where
  "add_u p v len_len = mthen (CBB_flush p) (with_base p (\<lambda>base. cbb_buffer_add_u base v len_len))"

definition CBB_add_u8 :: "nat \<Rightarrow> byte \<Rightarrow> unit builder" where
  "CBB_add_u8 p v = add_u p (ucast v) 1"

definition CBB_add_u16 :: "nat \<Rightarrow> u16 \<Rightarrow> unit builder" where
  "CBB_add_u16 p v = add_u p (ucast v) 2"

definition CBB_add_u16le :: "nat \<Rightarrow> u16 \<Rightarrow> unit builder" where
  "CBB_add_u16le p v = CBB_add_u16 p (CRYPTO_bswap2 v)"

definition CBB_add_u24 :: "nat \<Rightarrow> u32 \<Rightarrow> unit builder" where
  "CBB_add_u24 p v = add_u p (ucast v) 3"

definition CBB_add_u32 :: "nat \<Rightarrow> u32 \<Rightarrow> unit builder" where
  "CBB_add_u32 p v = add_u p (ucast v) 4"

definition CBB_add_u32le :: "nat \<Rightarrow> u32 \<Rightarrow> unit builder" where
  "CBB_add_u32le p v = CBB_add_u32 p (CRYPTO_bswap4 v)"

definition CBB_add_u64 :: "nat \<Rightarrow> u64 \<Rightarrow> unit builder" where
  "CBB_add_u64 p v = add_u p v 8"

definition CBB_add_u64le :: "nat \<Rightarrow> u64 \<Rightarrow> unit builder" where
  "CBB_add_u64le p v = CBB_add_u64 p (CRYPTO_bswap8 v)"

definition CBB_add_bytes :: "nat \<Rightarrow> byte list \<Rightarrow> unit builder" where
  "CBB_add_bytes p bs = mthen (CBB_flush p) (fill p bs)"

definition CBB_add_space :: "nat \<Rightarrow> u64 \<Rightarrow> nat builder" where
  "CBB_add_space p len = mthen (CBB_flush p) (with_base p (\<lambda>base. cbb_buffer_add base len))"

definition CBB_add_zeros :: "nat \<Rightarrow> u64 \<Rightarrow> unit builder" where
  "CBB_add_zeros p len = mbind (CBB_add_space p len) (\<lambda>pos. with_base p (\<lambda>base h.
     Ok () (set_buffer (the base) (\<lambda>bb. bb\<lparr>bb_buf := take pos (bb_buf bb) @ replicate (unat len) 0 @
       drop (pos + unat len) (bb_buf bb)\<rparr>) h)))"

definition CBB_reserve :: "nat \<Rightarrow> u64 \<Rightarrow> nat builder" where
  "CBB_reserve p len = mthen (CBB_flush p) (with_base p (\<lambda>base. cbb_buffer_reserve base len))"

definition CBB_did_write :: "nat \<Rightarrow> u64 \<Rightarrow> unit builder" where
  "CBB_did_write p len h =
     (let b = the (cbb_base (cbbs h p)); bb = buffers h b; newlen = bb_len bb + len in
      if cbb_child (cbbs h p) \<noteq> None \<or> newlen < bb_len bb \<or> bb_cap bb < newlen then Fail h
      else Ok () (set_buffer b (\<lambda>bb. bb\<lparr>bb_len := newlen\<rparr>) h))"

definition CBB_discard_child :: "nat \<Rightarrow> cbb_store \<Rightarrow> cbb_store" where
  "CBB_discard_child p h =
     (case cbb_child (cbbs h p) of
        None \<Rightarrow> h
      | Some k \<Rightarrow>
          let h = set_buffer (the (cbb_base (cbbs h p))) (\<lambda>bb. bb\<lparr>bb_len := cbb_offset (cbbs h k)\<rparr>) h;
              h = set_cbb k (\<lambda>c. c\<lparr>cbb_base := None\<rparr>) h
          in set_cbb p (\<lambda>c. c\<lparr>cbb_child := None\<rparr>) h)"

section \<open>ASN.1\<close>

function base128_len :: "u64 \<Rightarrow> nat" where
  "base128_len copy = (if 0 < copy then Suc (base128_len (drop_bit 7 copy)) else 0)"
  by pat_completeness auto
termination
proof (relation "measure unat")
  fix copy :: u64
  assume "0 < copy"
  then show "(drop_bit 7 copy, copy) \<in> measure unat"
    by (simp add: unsigned_drop_bit_eq drop_bit_eq_div word_greater_zero_iff unat_div unat_gt_0)
qed simp

declare base128_len.simps [simp del]

fun add_septets :: "nat \<Rightarrow> nat \<Rightarrow> u64 \<Rightarrow> unit builder" where
  "add_septets p 0 v = mreturn ()"
| "add_septets p (Suc i) v =
     (let byte = ucast (drop_bit (7 * i) v) AND 0x7F;
          byte = (if i \<noteq> 0 then byte OR 0x80 else byte)
      in mthen (CBB_add_u8 p byte) (add_septets p i v))"

definition add_base128_integer :: "nat \<Rightarrow> u64 \<Rightarrow> unit builder" where
  "add_base128_integer p v =
     (let len_len = base128_len v; len_len = (if len_len = 0 then 1 else len_len)
      in add_septets p len_len v)"

definition CBB_add_asn1 :: "nat \<Rightarrow> nat \<Rightarrow> u32 \<Rightarrow> unit builder" where
  "CBB_add_asn1 p out_contents tag =
     mthen (CBB_flush p)
       (let tag_bits = ucast (drop_bit CBS_ASN1_TAG_SHIFT tag) AND 0xE0;
            tag_number = tag AND CBS_ASN1_TAG_NUMBER_MASK
        in mthen (if 0x1F \<le> tag_number
                  then mthen (CBB_add_u8 p (tag_bits OR 0x1F)) (add_base128_integer p (ucast tag_number))
                  else CBB_add_u8 p (tag_bits OR ucast tag_number))
             (\<lambda>h. let offset = bb_len (buffers h (the (cbb_base (cbbs h p))))
                 in mthen (CBB_add_u8 p 0) (start_child p out_contents offset 1 True) h))"

text \<open>The local \<open>CBB child\<close> of a function is a parameter, the cell that it occupies.\<close>

fun uint64_bytes :: "nat \<Rightarrow> nat \<Rightarrow> bool \<Rightarrow> u64 \<Rightarrow> bool builder" where
  "uint64_bytes child 0 started v = mreturn started"
| "uint64_bytes child (Suc i) started v =
     (let byte = ucast (drop_bit (8 * i) v) in
      if \<not> started \<and> byte = 0 then uint64_bytes child i started v
      else mthen (if \<not> started \<and> byte AND 0x80 \<noteq> 0 then CBB_add_u8 child 0 else mreturn ())
             (mthen (CBB_add_u8 child byte) (uint64_bytes child i True v)))"

definition CBB_add_asn1_uint64 :: "nat \<Rightarrow> nat \<Rightarrow> u64 \<Rightarrow> unit builder" where
  "CBB_add_asn1_uint64 p child v =
     mthen (CBB_add_asn1 p child CBS_ASN1_INTEGER)
       (mthen (mbind (uint64_bytes child 8 False v)
                (\<lambda>started. if \<not> started then CBB_add_u8 child 0 else mreturn ()))
         (CBB_flush p))"

text \<open>The bytes of the \<open>union\<close>, least significant first.\<close>

abbreviation (input) u_bytes :: "u64 \<Rightarrow> nat \<Rightarrow> byte" where
  "u_bytes v i \<equiv> ucast (drop_bit (8 * i) v)"

fun sign_start :: "u64 \<Rightarrow> nat \<Rightarrow> nat" where
  "sign_start v 0 = 0"
| "sign_start v (Suc start) =
     (if u_bytes v (Suc start) = 0xFF \<and> u_bytes v start AND 0x80 \<noteq> 0 then sign_start v start else Suc start)"

fun add_bytes_down :: "nat \<Rightarrow> u64 \<Rightarrow> nat \<Rightarrow> unit builder" where
  "add_bytes_down child v 0 = mreturn ()"
| "add_bytes_down child v (Suc i) = mthen (CBB_add_u8 child (u_bytes v i)) (add_bytes_down child v i)"

definition CBB_add_asn1_int64 :: "nat \<Rightarrow> nat \<Rightarrow> u64 \<Rightarrow> unit builder" where
  "CBB_add_asn1_int64 p child v =
     (if 0 \<le> sint v then CBB_add_asn1_uint64 p child v
      else let start = sign_start v 7 in
        mthen (CBB_add_asn1 p child CBS_ASN1_INTEGER)
          (mthen (add_bytes_down child v (Suc start)) (CBB_flush p)))"

definition CBB_add_asn1_octet_string :: "nat \<Rightarrow> nat \<Rightarrow> byte list \<Rightarrow> unit builder" where
  "CBB_add_asn1_octet_string p child bs =
     mthen (CBB_add_asn1 p child CBS_ASN1_OCTETSTRING) (mthen (CBB_add_bytes child bs) (CBB_flush p))"

definition CBB_add_asn1_bool :: "nat \<Rightarrow> nat \<Rightarrow> bool \<Rightarrow> unit builder" where
  "CBB_add_asn1_bool p child v =
     mthen (CBB_add_asn1 p child CBS_ASN1_BOOLEAN) (mthen (CBB_add_u8 child (if v then 0xFF else 0)) (CBB_flush p))"

section \<open>SET OF\<close>

text \<open>\<open>memcmp\<close>: the difference at the first byte that differs.\<close>

fun bytes_cmp :: "byte list \<Rightarrow> byte list \<Rightarrow> int" where
  "bytes_cmp (a # as) (b # bs) = (if a = b then bytes_cmp as bs else uint a - uint b)"
| "bytes_cmp _ _ = 0"

definition compare_set_of_element :: "mem \<Rightarrow> cbs \<Rightarrow> cbs \<Rightarrow> int" where
  "compare_set_of_element m a b =
     (let a_len = CBS_len a; b_len = CBS_len b;
          min_len = (if a_len < b_len then a_len else b_len);
          ret = bytes_cmp (mem_bytes m (CBS_data a) (unat min_len)) (mem_bytes m (CBS_data b) (unat min_len))
      in if ret \<noteq> 0 then ret
         else if a_len = b_len then 0
         else if a_len < b_len then -1 else 1)"

text \<open>\<open>qsort\<close> leaves the elements in an order that the comparison allows.\<close>

fun insert_cmp :: "('a \<Rightarrow> 'a \<Rightarrow> int) \<Rightarrow> 'a \<Rightarrow> 'a list \<Rightarrow> 'a list" where
  "insert_cmp f x [] = [x]"
| "insert_cmp f x (y # ys) = (if f x y \<le> 0 then x # y # ys else y # insert_cmp f x ys)"

definition qsort :: "('a \<Rightarrow> 'a \<Rightarrow> int) \<Rightarrow> 'a list \<Rightarrow> 'a list" where
  "qsort f xs = foldr (insert_cmp f) xs []"

text \<open>The elements that \<open>CBS_get_any_asn1_element\<close> finds one after the other; \<open>None\<close> where one is
  missing. A round takes at least one byte, so \<open>n\<close> rounds are enough for \<open>n\<close> bytes.\<close>

fun get_elements :: "mem \<Rightarrow> nat \<Rightarrow> cbs \<Rightarrow> cbs list option" where
  "get_elements m n c =
     (if CBS_len c = 0 then Some []
      else case n of
        0 \<Rightarrow> None
      | Suc n \<Rightarrow>
          (case CBS_get_any_asn1_element m c of
             Ok (out, _) c \<Rightarrow> map_option (Cons out) (get_elements m n c)
           | _ \<Rightarrow> None))"

declare get_elements.simps [simp del]

text \<open>The bytes that a \<open>CBS\<close> covers are copied before they are written again; the copy starts at
  address zero of a memory of its own.\<close>

definition list_mem :: "byte list \<Rightarrow> mem" where
  "list_mem bs = (\<lambda>a. if unat a < length bs then bs ! unat a else 0)"

definition CBB_contents :: "nat \<Rightarrow> cbb_store \<Rightarrow> byte list" where
  "CBB_contents p h =
     take (unat (CBB_len p h)) (drop (unat (CBB_data p h)) (bb_buf (buffers h (the (cbb_base (cbbs h p))))))"

fun add_all :: "nat \<Rightarrow> byte list list \<Rightarrow> unit builder" where
  "add_all p [] = mreturn ()"
| "add_all p (bs # bss) = mthen (CBB_add_bytes p bs) (add_all p bss)"

definition CBB_flush_asn1_set_of :: "nat \<Rightarrow> unit builder" where
  "CBB_flush_asn1_set_of p =
     mthen (CBB_flush p) (\<lambda>h.
       let buf_len = CBB_len p h; buf = CBB_contents p h; m = list_mem buf in
       case get_elements m (unat buf_len) (CBS_init 0 buf_len) of
         None \<Rightarrow> Fail h
       | Some children \<Rightarrow>
           if length children < 2 then Ok () h
           else if 0xFFFFFFFFFFFFFFFF div 16 < length children then Fail h
           else if \<not> allocates h buf_len \<or> \<not> allocates h (of_nat (length children) * 16) then Fail h
           else
             let h = set_buffer (the (cbb_base (cbbs h p))) (\<lambda>bb. bb\<lparr>bb_len := CBB_data p h\<rparr>) h
             in add_all p (map (\<lambda>c. mem_bytes m (CBS_data c) (unat (CBS_len c))) (qsort (compare_set_of_element m) children)) h)"

end
