(* ===== verification/CBB_Write.thy ===== *)
theory CBB_Write
  imports CBB DER_Values
begin

unbundle bit_operations_syntax

text \<open>
  What the builders of \<open>bytestring/cbb.c\<close> write. A \<open>CBB\<close> with its chain of open children stands for
  the bytes of its own and, per child, the kind of the pending prefix and the bytes so far. A flush
  closes the chain, innermost first; every adder appends to the closed bytes. The writers of values
  are instances of the interface \<open>value_writer\<close>, the counterpart of \<open>value_reader\<close>.
\<close>

section \<open>Buffers\<close>

definition bb_written :: "cbb_buffer \<Rightarrow> byte list" where
  "bb_written bb = take (unat (bb_len bb)) (bb_buf bb)"

definition buffer_ok :: "cbb_buffer \<Rightarrow> bool" where
  "buffer_ok bb \<longleftrightarrow> length (bb_buf bb) = unat (bb_cap bb) \<and> bb_len bb \<le> bb_cap bb"

text \<open>\<open>n\<close> bytes fit: in the buffer as it is, or because it grows and the allocator serves.\<close>

definition roomy :: "cbb_store \<Rightarrow> nat \<Rightarrow> nat \<Rightarrow> bool" where
  "roomy h b n \<longleftrightarrow> n < 2 ^ 64 \<and>
     (n \<le> unat (bb_cap (buffers h b)) \<or> bb_can_resize (buffers h b) \<and> (\<forall>k. allocates h k))"

text \<open>Only the buffer \<open>b\<close> from the position \<open>s\<close> on and the builders in \<open>C\<close> change.\<close>

definition keeps :: "nat \<Rightarrow> nat \<Rightarrow> nat set \<Rightarrow> cbb_store \<Rightarrow> cbb_store \<Rightarrow> bool" where
  "keeps b s C h h' \<longleftrightarrow>
     (\<forall>x. x \<noteq> b \<longrightarrow> buffers h' x = buffers h x) \<and> (\<forall>q. q \<notin> C \<longrightarrow> cbbs h' q = cbbs h q) \<and>
     allocates h' = allocates h \<and> flush_depth h' = flush_depth h \<and>
     bb_can_resize (buffers h' b) = bb_can_resize (buffers h b) \<and>
     bb_cap (buffers h b) \<le> bb_cap (buffers h' b) \<and>
     (\<not> bb_can_resize (buffers h b) \<longrightarrow> bb_cap (buffers h' b) = bb_cap (buffers h b)) \<and>
     take s (bb_written (buffers h' b)) = take s (bb_written (buffers h b))"

lemma length_written: "buffer_ok bb \<Longrightarrow> length (bb_written bb) = unat (bb_len bb)"
  by (simp add: buffer_ok_def bb_written_def word_le_nat_alt)

lemma keeps_refl: "keeps b s C h h"
  by (simp add: keeps_def)

lemma keeps_trans: "keeps b s C h h1 \<Longrightarrow> keeps b s C h1 h2 \<Longrightarrow> keeps b s C h h2"
  unfolding keeps_def by (auto intro: order.trans)

lemma keeps_mono:
  assumes "keeps b s C h h'" "C \<subseteq> D" "s' \<le> s"
  shows "keeps b s' D h h'"
proof -
  have "take s' xs = take s' (take s xs)" for xs :: "byte list"
    using assms(3) by (simp add: min_absorb1)
  then have "take s' (bb_written (buffers h' b)) = take s' (bb_written (buffers h b))"
    using assms(1) unfolding keeps_def by metis
  then show ?thesis using assms(1,2) by (auto simp: keeps_def)
qed

lemma keeps_cells: "keeps b s C h h' \<Longrightarrow> C \<subseteq> D \<Longrightarrow> keeps b s D h h'"
  using keeps_mono [of b s C h h' D s] by simp

lemma keeps_roomy: "keeps b s C h h' \<Longrightarrow> roomy h b n \<Longrightarrow> roomy h' b n"
  by (auto simp: keeps_def roomy_def word_le_nat_alt)

lemma roomy_le: "roomy h b n \<Longrightarrow> m \<le> n \<Longrightarrow> roomy h b m"
  by (auto simp: roomy_def)

text \<open>A step that changes the one buffer only.\<close>

definition buffer_step :: "nat \<Rightarrow> cbb_store \<Rightarrow> cbb_buffer \<Rightarrow> bool" where
  "buffer_step b h bb \<longleftrightarrow>
     buffer_ok bb \<and> bb_error bb = bb_error (buffers h b) \<and> bb_can_resize bb = bb_can_resize (buffers h b) \<and>
     bb_cap (buffers h b) \<le> bb_cap bb \<and> (\<not> bb_can_resize (buffers h b) \<longrightarrow> bb_cap bb = bb_cap (buffers h b))"

lemma keeps_buffer:
  "buffer_step b h bb \<Longrightarrow> take s (bb_written bb) = take s (bb_written (buffers h b)) \<Longrightarrow>
   keeps b s C h (h\<lparr>buffers := (buffers h)(b := bb)\<rparr>)"
  by (simp add: keeps_def buffer_step_def)

lemma reserve_cases:
  assumes ok: "buffer_ok (buffers h b)"
  obtains bb where "cbb_buffer_reserve (Some b) n h = Ok (length (bb_written (buffers h b))) (h\<lparr>buffers := (buffers h)(b := bb)\<rparr>)"
      "buffer_step b h bb" "bb_len bb = bb_len (buffers h b)" "bb_written bb = bb_written (buffers h b)"
      "unat (bb_len bb) + unat n \<le> unat (bb_cap bb)"
    | "cbb_buffer_reserve (Some b) n h = Fail (h\<lparr>buffers := (buffers h)(b := (buffers h b)\<lparr>bb_error := True\<rparr>)\<rparr>)"
      "\<not> roomy h b (length (bb_written (buffers h b)) + unat n)"
proof -
  let ?bb = "buffers h b" and ?n = "bb_len (buffers h b) + n"
  have len: "length (bb_written ?bb) = unat (bb_len ?bb)" using length_written [OF ok] .
  show thesis
  proof (cases "?n < bb_len ?bb")
    case True
    then have "\<not> unat (bb_len ?bb) + unat n < 2 ^ 64"
      using unat_add_lem [of "bb_len ?bb" n] by (simp add: word_less_nat_alt)
    then show thesis
      using that(2) True len by (simp add: cbb_buffer_reserve_def buffer_error_def roomy_def Let_def)
  next
    case False
    then have sum: "unat ?n = unat (bb_len ?bb) + unat n"
      using no_olen_add_nat [of "bb_len ?bb" n] unat_add_lem [of "bb_len ?bb" n]
      by (auto simp: word_le_nat_alt not_less)
    show thesis
    proof (cases "bb_cap ?bb < ?n")
      case fits: False
      have "cbb_buffer_reserve (Some b) n h = Ok (unat (bb_len ?bb)) (h\<lparr>buffers := (buffers h)(b := ?bb)\<rparr>)"
        using False fits by (simp add: cbb_buffer_reserve_def Let_def)
      moreover have "unat (bb_len ?bb) + unat n \<le> unat (bb_cap ?bb)"
        using fits sum by (simp add: not_less word_le_nat_alt)
      ultimately show thesis
        using that(1) [of ?bb] len ok by (simp add: buffer_step_def)
    next
      case grow: True
      define cap where "cap = (if bb_cap ?bb * 2 < bb_cap ?bb \<or> bb_cap ?bb * 2 < ?n then ?n else bb_cap ?bb * 2)"
      have cap: "?n \<le> cap" "bb_cap ?bb \<le> cap"
        using grow by (auto simp: cap_def not_less)
      have small: "\<not> unat ?n \<le> unat (bb_cap ?bb)"
        using grow by (simp add: word_less_nat_alt)
      show thesis
      proof (cases "bb_can_resize ?bb \<and> allocates h cap")
        case False
        then have "cbb_buffer_reserve (Some b) n h = buffer_error b h"
          using \<open>\<not> ?n < bb_len ?bb\<close> grow by (auto simp: cbb_buffer_reserve_def Let_def cap_def)
        then show thesis
          using that(2) False small sum len by (auto simp: buffer_error_def roomy_def)
      next
        case True
        let ?new = "?bb\<lparr>bb_buf := bb_buf ?bb @ replicate (unat cap - length (bb_buf ?bb)) 0, bb_cap := cap\<rparr>"
        have "cbb_buffer_reserve (Some b) n h = Ok (unat (bb_len ?bb)) (h\<lparr>buffers := (buffers h)(b := ?new)\<rparr>)"
          using \<open>\<not> ?n < bb_len ?bb\<close> grow True by (auto simp: cbb_buffer_reserve_def Let_def cap_def)
        moreover have "buffer_step b h ?new"
          using ok cap True by (auto simp: buffer_step_def buffer_ok_def word_le_nat_alt)
        moreover have "bb_written ?new = bb_written ?bb"
          using ok by (simp add: bb_written_def buffer_ok_def word_le_nat_alt)
        moreover have "unat (bb_len ?bb) + unat n \<le> unat cap"
          using cap sum by (simp add: word_le_nat_alt)
        ultimately show thesis
          using that(1) [of ?new] len by simp
      qed
    qed
  qed
qed

lemma add_cases:
  assumes ok: "buffer_ok (buffers h b)"
  obtains bb ys where "cbb_buffer_add (Some b) n h = Ok (length (bb_written (buffers h b))) (h\<lparr>buffers := (buffers h)(b := bb)\<rparr>)"
      "buffer_step b h bb" "length ys = unat n" "bb_written bb = bb_written (buffers h b) @ ys"
    | "cbb_buffer_add (Some b) n h = Fail (h\<lparr>buffers := (buffers h)(b := (buffers h b)\<lparr>bb_error := True\<rparr>)\<rparr>)"
      "\<not> roomy h b (length (bb_written (buffers h b)) + unat n)"
  using ok
proof (cases rule: reserve_cases [where n = n])
  case (1 bb)
  let ?new = "bb\<lparr>bb_len := bb_len bb + n\<rparr>"
  have small: "unat (bb_len bb) + unat n < 2 ^ 64"
    using 1(5) unat_less64 [of "bb_cap bb"] by linarith
  then have len: "unat (bb_len bb + n) = unat (bb_len bb) + unat n"
    using unat_add_lem [of "bb_len bb" n] by simp
  have bok: "buffer_ok bb" using 1(2) by (simp add: buffer_step_def)
  have w: "bb_written ?new = bb_written (buffers h b) @ take (unat n) (drop (unat (bb_len bb)) (bb_buf bb))"
    using 1(4) len by (simp add: bb_written_def take_add)
  have "length (take (unat n) (drop (unat (bb_len bb)) (bb_buf bb))) = unat n"
    using bok 1(5) by (simp add: buffer_ok_def)
  moreover have "buffer_step b h ?new"
    using 1(2,5) len by (simp add: buffer_step_def buffer_ok_def word_le_nat_alt)
  moreover have "cbb_buffer_add (Some b) n h = Ok (length (bb_written (buffers h b))) (h\<lparr>buffers := (buffers h)(b := ?new)\<rparr>)"
    by (simp add: cbb_buffer_add_def mbind_def 1(1))
  ultimately show thesis using that(1) [OF _ _ _ w] by blast
next
  case 2
  then show thesis using that(2) by (simp add: cbb_buffer_add_def mbind_def)
qed

text \<open>Bytes in the buffer are replaced by others.\<close>

abbreviation (input) put_at :: "nat \<Rightarrow> byte list \<Rightarrow> byte list \<Rightarrow> byte list" where
  "put_at pos xs buf \<equiv> take pos buf @ xs @ drop (pos + length xs) buf"

lemma put_be_at:
  "pos + k \<le> length buf \<Longrightarrow> put_be k pos v buf = (put_at pos (be_bytes k v) buf, drop_bit (8 * k) v)"
proof (induction k arbitrary: v buf)
  case 0
  then show ?case by (simp add: be_bytes_def)
next
  case (Suc k)
  have "drop (pos + k) (buf[pos + k := ucast v]) = ucast v # drop (pos + Suc k) buf"
    using Suc.prems by (simp add: drop_update_swap Cons_nth_drop_Suc [symmetric])
  then show ?case
    using Suc by (simp add: be_bytes_def word_le_bytes_Suc add.commute [of 8])
qed

lemma written_put:
  assumes "buffer_ok bb" "bb_written bb = w @ ys @ zs" "length xs = length ys"
  shows "bb_written (bb\<lparr>bb_buf := put_at (length w) xs (bb_buf bb)\<rparr>) = w @ xs @ zs"
proof -
  obtain rest where buf: "bb_buf bb = w @ ys @ zs @ rest"
    using assms(2) append_take_drop_id [of "unat (bb_len bb)" "bb_buf bb"] by (metis append.assoc bb_written_def)
  have len: "unat (bb_len bb) = length (w @ ys @ zs)"
    using length_written [OF assms(1)] assms(2) by simp
  show ?thesis
    using len assms(3) by (simp add: bb_written_def buf)
qed

lemma step_put:
  assumes "buffer_step b h bb" "pos + length xs \<le> length (bb_buf bb)"
  shows "buffer_step b h (bb\<lparr>bb_buf := put_at pos xs (bb_buf bb)\<rparr>)"
  using assms by (simp add: buffer_step_def buffer_ok_def min_absorb2)

lemma written_room:
  assumes "buffer_ok bb" "bb_written bb = w @ ys @ zs"
  shows "length w + length ys \<le> length (bb_buf bb)"
  using assms length_written [OF assms(1)] by (simp add: buffer_ok_def word_le_nat_alt)

text \<open>The bytes of an adder, where it gives any.\<close>

definition buffer_adds :: "nat \<Rightarrow> cbb_store \<Rightarrow> byte list option \<Rightarrow> (unit, cbb_store) outcome \<Rightarrow> bool" where
  "buffer_adds b h r out \<longleftrightarrow>
     (case out of
        Ok _ h' \<Rightarrow> (\<exists>bb xs. r = Some xs \<and> h' = h\<lparr>buffers := (buffers h)(b := bb)\<rparr> \<and> buffer_step b h bb \<and>
          bb_written bb = bb_written (buffers h b) @ xs)
      | Fail h' \<Rightarrow> bb_error (buffers h' b) \<and>
          (\<forall>xs. r = Some xs \<longrightarrow> \<not> roomy h b (length (bb_written (buffers h b)) + length xs))
      | _ \<Rightarrow> False)"

lemma fill_adds:
  assumes ok: "buffer_ok (buffers h b)" and base: "cbb_base (cbbs h p) = Some b" and small: "length bs < 2 ^ 64"
  shows "buffer_adds b h (Some bs) (fill p bs h)"
  using ok
proof (cases rule: add_cases [where n = "of_nat (length bs)"])
  case (1 bb ys)
  let ?pos = "length (bb_written (buffers h b))"
  have n: "length ys = length bs" using 1(3) small by (simp add: unat_of_nat_addr)
  have w: "bb_written bb = bb_written (buffers h b) @ ys @ []" using 1(4) by simp
  have bok: "buffer_ok bb" using 1(2) by (simp add: buffer_step_def)
  have "bb_written (bb\<lparr>bb_buf := put_at ?pos bs (bb_buf bb)\<rparr>) = bb_written (buffers h b) @ bs"
    using written_put [OF bok w, of bs] n by simp
  moreover have "buffer_step b h (bb\<lparr>bb_buf := put_at ?pos bs (bb_buf bb)\<rparr>)"
    using step_put [OF 1(2)] written_room [OF bok w] n by simp
  ultimately show ?thesis
    using 1(1) by (simp add: buffer_adds_def fill_def with_base_def base mbind_def) blast
next
  case 2
  then show ?thesis
    using small by (simp add: buffer_adds_def fill_def with_base_def base mbind_def unat_of_nat_addr)
qed

lemma add_u_adds:
  assumes ok: "buffer_ok (buffers h b)" and k: "0 < n" "n \<le> 8"
  shows "buffer_adds b h (if unat v < 256 ^ unat n then Some (be_bytes (unat n) v) else None)
    (cbb_buffer_add_u (Some b) v n h)"
  using ok
proof (cases rule: add_cases [where n = n])
  case (1 bb ys)
  let ?w = "bb_written (buffers h b)"
  have n: "length ys = length (be_bytes (unat n) v)" using 1(3) by simp
  have w: "bb_written bb = ?w @ ys @ []" using 1(4) by simp
  have bok: "buffer_ok bb" using 1(2) by (simp add: buffer_step_def)
  have room: "length ?w + length (be_bytes (unat n) v) \<le> length (bb_buf bb)"
    using written_room [OF bok w] n by simp
  have put: "put_be (unat n) (length ?w) v (bb_buf bb)
      = (put_at (length ?w) (be_bytes (unat n) v) (bb_buf bb), drop_bit (8 * unat n) v)"
    using put_be_at [of "length ?w" "unat n" "bb_buf bb" v] room by simp
  have fits: "drop_bit (8 * unat n) v = 0 \<longleftrightarrow> unat v < 256 ^ unat n"
    by (simp add: drop_bit_0_iff power_mult)
  have "bb_written (bb\<lparr>bb_buf := put_at (length ?w) (be_bytes (unat n) v) (bb_buf bb)\<rparr>) = ?w @ be_bytes (unat n) v"
    using written_put [OF bok w n [symmetric]] by simp
  then show ?thesis
    using 1(1) step_put [OF 1(2) room] k put fits
    by (auto simp: buffer_adds_def cbb_buffer_add_u_def mbind_def buffer_error_def)
next
  case 2
  then show ?thesis
    using k by (auto simp: buffer_adds_def cbb_buffer_add_u_def mbind_def)
qed

section \<open>Closing one prefix\<close>

datatype prefix = Asn1 | Length nat

fun reserved :: "prefix \<Rightarrow> nat" where
  "reserved Asn1 = 1"
| "reserved (Length n) = n"

text \<open>A content with its prefix, where the prefix can hold the length.\<close>

fun prefixed :: "prefix \<Rightarrow> byte list \<Rightarrow> byte list option" where
  "prefixed Asn1 body = (if length body \<le> 0xFFFFFFFE then Some (der_length (length body) @ body) else None)"
| "prefixed (Length n) body =
     (if length body < 256 ^ n then Some (be_bytes n (of_nat (length body) :: u64) @ body) else None)"

definition extra :: "nat \<Rightarrow> nat" where
  "extra n = (if n < 128 then 0 else octets n)"

definition first_octet :: "nat \<Rightarrow> byte" where
  "first_octet n = (if n < 128 then of_nat n else of_nat (128 + octets n))"

lemma der_length_extra: "der_length n = first_octet n # be_bytes (extra n) (of_nat n :: u64)"
  by (simp add: der_length_def first_octet_def extra_def be_bytes_def)

lemma octets_eq: "256 ^ k \<le> n \<Longrightarrow> n < 256 ^ Suc k \<Longrightarrow> octets n = Suc k"
  using octets_le_iff [of n k] octets_le_iff [of n "Suc k"] by linarith

lemma extra_le: "n < 2 ^ 32 \<Longrightarrow> extra n \<le> 4"
  using octets_le_iff [of n 4] by (simp add: extra_def)

lemma extra_fits: "n < 256 ^ extra n \<or> n < 128"
  using octets_le_iff [of n "octets n"] by (simp add: extra_def)

lemma asn1_length_form_eq:
  "asn1_length_form len =
     (if unat len \<le> 0xFFFFFFFE then Some (of_nat (Suc (extra (unat len))), first_octet (unat len)) else None)"
proof -
  let ?n = "unat len"
  have less: "x < len \<longleftrightarrow> unat x < ?n" for x by (simp add: word_less_nat_alt)
  consider "0xFFFFFFFE < ?n" | "0xFFFFFF < ?n" "?n \<le> 0xFFFFFFFE" | "0xFFFF < ?n" "?n \<le> 0xFFFFFF"
    | "0xFF < ?n" "?n \<le> 0xFFFF" | "0x7F < ?n" "?n \<le> 0xFF" | "?n \<le> 0x7F" by linarith
  then show ?thesis
  proof cases
    case 1
    then show ?thesis by (simp add: asn1_length_form_def less)
  next
    case 2
    then show ?thesis
      using octets_eq [of 3 ?n] by (simp add: asn1_length_form_def less extra_def first_octet_def)
  next
    case 3
    then show ?thesis
      using octets_eq [of 2 ?n] by (simp add: asn1_length_form_def less extra_def first_octet_def)
  next
    case 4
    then show ?thesis
      using octets_eq [of 1 ?n] by (simp add: asn1_length_form_def less extra_def first_octet_def)
  next
    case 5
    then show ?thesis
      using octets_eq [of 0 ?n] by (simp add: asn1_length_form_def less extra_def first_octet_def)
  next
    case 6
    then show ?thesis
      by (simp add: asn1_length_form_def less extra_def first_octet_def)
  qed
qed

lemma step_buf:
  "buffer_step b h bb \<Longrightarrow> length buf = length (bb_buf bb) \<Longrightarrow> buffer_step b h (bb\<lparr>bb_buf := buf\<rparr>)"
  by (simp add: buffer_step_def buffer_ok_def)

lemma step_refl: "buffer_ok (buffers h b) \<Longrightarrow> buffer_step b h (buffers h b)"
  by (simp add: buffer_step_def)

lemma buf_split: "bb_buf bb = bb_written bb @ drop (unat (bb_len bb)) (bb_buf bb)"
  by (simp add: bb_written_def)

lemma written_buf:
  assumes "buffer_ok bb" "buf = xs @ rest" "length xs = unat (bb_len bb)"
  shows "bb_written (bb\<lparr>bb_buf := buf\<rparr>) = xs"
  using assms by (simp add: bb_written_def)

lemma written_update: "bb_written (bb\<lparr>bb_buf := (bb_buf bb)[i := v]\<rparr>) = (bb_written bb)[i := v]"
  unfolding bb_written_def by (simp add: take_update_swap [symmetric] del: take_update_swap)

text \<open>The length octets are put in the place that is made for them.\<close>

lemma move_extra:
  assumes "buffer_ok bb" "bb_written bb = pre @ z # full @ ys"
  shows "\<exists>zs. length zs = length ys \<and>
    bb_written (bb\<lparr>bb_buf := (buf_move (length pre + 1 + length ys) (length pre + 1) (length full) (bb_buf bb))[length pre := v]\<rparr>)
      = pre @ v # zs @ full \<and>
    length (buf_move (length pre + 1 + length ys) (length pre + 1) (length full) (bb_buf bb)) = length (bb_buf bb)"
proof -
  obtain rest where buf: "bb_buf bb = pre @ z # full @ ys @ rest"
    using buf_split [of bb] assms(2) by auto
  have len: "unat (bb_len bb) = length pre + 1 + length full + length ys"
    using length_written [OF assms(1)] unfolding assms(2) by simp
  have move: "buf_move (length pre + 1 + length ys) (length pre + 1) (length full) (bb_buf bb)
      = pre @ z # take (length ys) (full @ ys) @ full @ rest"
    by (simp add: buf buf_move_def)
  show ?thesis
    unfolding move using len
    by (intro exI [of _ "take (length ys) (full @ ys)"]) (simp add: bb_written_def buf)
qed

lemma small_byte: "e \<le> 4 \<Longrightarrow> (of_nat (Suc e) :: byte) = 1 \<longleftrightarrow> e = 0" "(of_nat (Suc e) :: byte) - 1 = of_nat e"
  "e < 256 \<Longrightarrow> ucast (of_nat e :: byte) = (of_nat e :: u64)"
proof -
  show "e \<le> 4 \<Longrightarrow> (of_nat (Suc e) :: byte) = 1 \<longleftrightarrow> e = 0"
    by (auto simp: word_unat_eq_iff unat_of_nat take_bit_nat_eq_self simp del: of_nat_Suc)
  show "e < 256 \<Longrightarrow> ucast (of_nat e :: byte) = (of_nat e :: u64)"
    by (simp add: word_unat_eq_iff unat_ucast_up unat_of_nat take_bit_nat_eq_self)
qed simp

definition asn1_opened :: "nat \<Rightarrow> nat \<Rightarrow> nat \<Rightarrow> cbb_buffer \<Rightarrow> cbb_store \<Rightarrow> cbb_store" where
  "asn1_opened b k e bb h = h\<lparr>buffers := (buffers h)(b := bb), cbbs := (cbbs h)(k := (cbbs h k)
     \<lparr>cbb_offset := cbb_offset (cbbs h k) + 1, pending_len_len := of_nat e\<rparr>)\<rparr>"

lemma flush_asn1_cases:
  assumes ok: "buffer_ok (buffers h b)" and w: "bb_written (buffers h b) = pre @ z # full"
    and at: "cbb_offset (cbbs h k) = of_nat (length pre)" and len: "unat len = length full"
    and start: "unat start = length pre + 1"
  obtains bb zs where "flush_asn1 b k start len h
        = Ok (if extra (length full) = 0 then 0 else len) (asn1_opened b k (extra (length full)) bb h)"
      "buffer_step b h bb" "length zs = extra (length full)"
      "bb_written bb = pre @ first_octet (length full) # zs @ full" "length full \<le> 0xFFFFFFFE"
    | h1 where "flush_asn1 b k start len h = Fail h1"
      "\<not> (length full \<le> 0xFFFFFFFE \<and> roomy h b (length pre + 1 + extra (length full) + length full))"
proof (cases "length full \<le> 0xFFFFFFFE")
  case False
  then show thesis using that(2) len by (simp add: flush_asn1_def asn1_length_form_eq)
next
  case small: True
  let ?e = "extra (length full)" and ?v = "first_octet (length full)"
  have e: "?e \<le> 4" using small by (intro extra_le) simp
  have form: "asn1_length_form len = Some (of_nat (Suc ?e), ?v)"
    using small len by (simp add: asn1_length_form_eq)
  note byte = small_byte(1) [OF e] small_byte(2) [of ?e] small_byte(3) [of ?e]
  have olen: "length pre < 2 ^ 64"
    using length_written [OF ok] unat_less64 [of "bb_len (buffers h b)"] unfolding w by simp
  show thesis
  proof (cases "?e = 0")
    case True
    let ?bb = "(buffers h b)\<lparr>bb_buf := (bb_buf (buffers h b))[length pre := ?v]\<rparr>"
    have "flush_asn1 b k start len h = Ok 0 (asn1_opened b k 0 ?bb h)"
      using form True at olen by (simp add: flush_asn1_def asn1_opened_def unat_of_nat_addr)
    moreover have "buffer_step b h ?bb" using step_buf [OF step_refl [OF ok]] by simp
    moreover have "bb_written ?bb = pre @ ?v # [] @ full"
      unfolding written_update w by simp
    ultimately show thesis using that(1) [of ?bb "[]"] True small by simp
  next
    case False
    show thesis
      using ok
    proof (cases rule: add_cases [where n = "of_nat ?e"])
      case (1 bb ys)
      have ys: "length ys = ?e" using 1(3) e by (simp add: unat_of_nat_addr)
      have bok: "buffer_ok bb" using 1(2) by (simp add: buffer_step_def)
      have wbb: "bb_written bb = pre @ z # full @ ys" using 1(4) w by simp
      have "unat (bb_len bb) = length pre + 1 + length full + ?e"
        using length_written [OF bok] unfolding wbb by (simp add: ys)
      then have "length pre + 1 + ?e < 2 ^ 64" using unat_less64 [of "bb_len bb"] by linarith
      then have to: "unat (start + of_nat ?e) = length pre + 1 + ?e"
        using start by (simp add: unat_word_ariths unat_of_nat_addr)
      obtain zs where zs: "length zs = length ys"
        "bb_written (bb\<lparr>bb_buf := (buf_move (length pre + 1 + ?e) (length pre + 1) (length full) (bb_buf bb))[length pre := ?v]\<rparr>)
          = pre @ ?v # zs @ full"
        "length (buf_move (length pre + 1 + ?e) (length pre + 1) (length full) (bb_buf bb)) = length (bb_buf bb)"
        using move_extra [OF bok wbb, of ?v] unfolding ys by blast
      let ?bb = "bb\<lparr>bb_buf := (buf_move (length pre + 1 + ?e) (length pre + 1) (length full) (bb_buf bb))[length pre := ?v]\<rparr>"
      have "flush_asn1 b k start len h = Ok len (asn1_opened b k ?e ?bb h)"
        using form False at olen byte e 1(1) to start len
        by (simp add: flush_asn1_def asn1_opened_def unat_of_nat_addr mbind_def)
      moreover have "buffer_step b h ?bb" using step_buf [OF 1(2)] zs(3) by simp
      ultimately show thesis using that(1) [of ?bb zs] zs(1,2) ys False small by simp
    next
      case 2
      have "flush_asn1 b k start len h = Fail (h\<lparr>buffers := (buffers h)(b := (buffers h b)\<lparr>bb_error := True\<rparr>)\<rparr>)"
        using form False byte e 2(1) by (simp add: flush_asn1_def mbind_def)
      moreover have "\<not> roomy h b (length pre + 1 + ?e + length full)"
        using 2(2) w e by (simp add: unat_of_nat_addr ac_simps)
      ultimately show thesis using that(2) by blast
    qed
  qed
qed

definition child_closed :: "nat \<Rightarrow> nat \<Rightarrow> nat \<Rightarrow> cbb \<Rightarrow> cbb_buffer \<Rightarrow> cbb_store \<Rightarrow> cbb_store" where
  "child_closed b p k c bb h = h\<lparr>buffers := (buffers h)(b := bb),
     cbbs := (cbbs h)(k := c, p := (cbbs h p)\<lparr>cbb_child := None\<rparr>)\<rparr>"

lemma byte_nat: "n < 256 \<Longrightarrow> unat (of_nat n :: byte) = n"
  by (simp add: unat_of_nat take_bit_nat_eq_self)

lemma prefixed_length: "prefixed x body = Some out \<Longrightarrow>
    length out = (case x of Asn1 \<Rightarrow> Suc (extra (length body)) | Length n \<Rightarrow> n) + length body"
  by (cases x) (auto simp: der_length_extra split: if_splits)

lemma flush_child_cases:
  assumes ok: "buffer_ok (buffers h b)" and w: "bb_written (buffers h b) = pre @ replicate (reserved x) 0 @ full"
    and at: "cbb_offset (cbbs h k) = of_nat (length pre)"
    and pending: "pending_len_len (cbbs h k) = of_nat (reserved x)" "pending_is_asn1 (cbbs h k) = (x = Asn1)"
    and small: "reserved x \<le> 8" and pk: "p \<noteq> k" and start: "unat start = length pre + reserved x"
  obtains bb out c where "flush_child b p k start h = Ok () (child_closed b p k c bb h)"
      "prefixed x full = Some out" "buffer_step b h bb" "bb_written bb = pre @ out"
    | h1 where "flush_child b p k start h = Fail h1"
      "\<And>out. prefixed x full = Some out \<Longrightarrow> \<not> roomy h b (length pre + length out)"
proof -
  let ?len = "bb_len (buffers h b) - start"
  have total: "unat (bb_len (buffers h b)) = length pre + reserved x + length full"
    using length_written [OF ok] unfolding w by simp
  then have olen: "length pre + reserved x < 2 ^ 64" "length full < 2 ^ 64"
    using unat_less64 [of "bb_len (buffers h b)"] by linarith+
  have order: "\<not> start < cbb_offset (cbbs h k)" "\<not> bb_len (buffers h b) < start"
    using start total olen at by (simp_all add: word_less_nat_alt unat_of_nat_addr)
  have len: "unat ?len = length full"
    using order(2) start total by (simp add: unat_sub not_less)
  have lenw: "?len = of_nat (length full)" by (simp flip: len)
  show thesis
  proof (cases x)
    case (Length n)
    have room: "length pre + length (be_bytes n ?len) \<le> length (bb_buf (buffers h b))"
      using written_room [OF ok, of pre "replicate n 0" full] w Length by simp
    let ?bb = "(buffers h b)\<lparr>bb_buf := put_at (length pre) (be_bytes n ?len) (bb_buf (buffers h b))\<rparr>"
    have n: "unat (of_nat n :: byte) = n" using small Length by (simp add: byte_nat)
    have fits: "drop_bit (8 * n) ?len = 0 \<longleftrightarrow> length full < 256 ^ n"
      unfolding drop_bit_0_iff len by (simp add: power_mult)
    have run: "flush_child b p k start h = (if drop_bit (8 * n) ?len = 0
        then Ok () (child_closed b p k ((cbbs h k)\<lparr>cbb_base := None\<rparr>) ?bb h)
        else Fail (h\<lparr>buffers := (buffers h)(b := ?bb)\<rparr>))"
      using order pending at Length n olen put_be_at [of "length pre" n "bb_buf (buffers h b)" ?len] room pk
      by (simp add: flush_child_def mbind_def unat_of_nat_addr child_closed_def fun_upd_twist)
    have "bb_written ?bb = pre @ be_bytes n ?len @ full"
      using written_put [OF ok, of pre "replicate n 0" full "be_bytes n ?len"] w Length by simp
    moreover have "buffer_step b h ?bb" using step_put [OF step_refl [OF ok] room] .
    ultimately show thesis
      using that(1) [of "(cbbs h k)\<lparr>cbb_base := None\<rparr>" ?bb "be_bytes n ?len @ full"] that(2) run fits Length lenw
      by (cases "length full < 256 ^ n") auto
  next
    case Asn1
    let ?e = "extra (length full)"
    have w1: "bb_written (buffers h b) = pre @ 0 # full" using w Asn1 by simp
    have start1: "unat start = length pre + 1" using start Asn1 by simp
    show thesis
      using ok w1 at len start1
    proof (cases rule: flush_asn1_cases)
      case (1 bb zs)
      have e: "?e \<le> 4" using 1(5) by (intro extra_le) simp
      have bok: "buffer_ok bb" using 1(2) by (simp add: buffer_step_def)
      let ?len' = "if ?e = 0 then 0 else ?len"
      let ?pre = "pre @ [first_octet (length full)]"
      have wbb: "bb_written bb = ?pre @ zs @ full" using 1(4) by simp
      have room: "length ?pre + length (be_bytes ?e ?len') \<le> length (bb_buf bb)"
        using written_room [OF bok wbb] 1(3) by simp
      let ?bb = "bb\<lparr>bb_buf := put_at (length ?pre) (be_bytes ?e ?len') (bb_buf bb)\<rparr>"
      have out: "be_bytes ?e ?len' = be_bytes ?e ?len"
        by (cases "?e = 0") (simp_all add: be_bytes_def)
      have fits: "drop_bit (8 * ?e) ?len' = 0"
        using extra_fits [of "length full"] len
        by (cases "?e = 0") (auto simp: drop_bit_0_iff power_mult extra_def)
      have "unat (of_nat ?e :: byte) = ?e" using e by (simp add: byte_nat)
      moreover have "unat (of_nat (length pre) + 1 :: u64) = length ?pre"
        using olen Asn1 unat_of_nat_addr [of "length pre + 1"] by (simp add: add.commute)
      ultimately have "flush_child b p k start h = Ok () (child_closed b p k
          ((cbbs h k)\<lparr>cbb_offset := cbb_offset (cbbs h k) + 1, pending_len_len := of_nat ?e, cbb_base := None\<rparr>) ?bb h)"
        using order pending at Asn1 put_be_at [of "length ?pre" ?e "bb_buf bb" ?len'] room pk 1(1) fits
        by (simp add: flush_child_def mbind_def child_closed_def asn1_opened_def fun_upd_twist Let_def)
      moreover have "bb_written ?bb = ?pre @ be_bytes ?e ?len @ full"
        using written_put [OF bok wbb, of "be_bytes ?e ?len'"] 1(3) out by simp
      moreover have "buffer_step b h ?bb" using step_put [OF 1(2) room] .
      moreover have "prefixed x full = Some (first_octet (length full) # be_bytes ?e ?len @ full)"
        using 1(5) Asn1 lenw by (simp add: der_length_extra)
      ultimately show thesis using that(1) by (metis append.assoc append_Cons append_Nil)
    next
      case (2 h1)
      have "flush_child b p k start h = Fail h1"
        using order pending Asn1 2(1) by (simp add: flush_child_def mbind_def)
      moreover have "\<not> roomy h b (length pre + length out)" if "prefixed x full = Some out" for out
        using prefixed_length [OF that] that 2(2) Asn1 by (auto simp: add.assoc split: if_splits)
      ultimately show thesis using that(2) by blast
    qed
  qed
qed

section \<open>Chains of open children\<close>

text \<open>A child: its cell, the kind of its prefix and its bytes so far.\<close>

type_synonym frame = "nat \<times> prefix \<times> byte list"

text \<open>\<open>s\<close> is the position behind the bytes of \<open>p\<close>.\<close>

fun pending_at :: "cbb_store \<Rightarrow> nat \<Rightarrow> nat \<Rightarrow> nat \<Rightarrow> frame list \<Rightarrow> bool" where
  "pending_at h b p s [] \<longleftrightarrow> cbb_base (cbbs h p) = Some b \<and> cbb_child (cbbs h p) = None"
| "pending_at h b p s ((k, x, body) # ks) \<longleftrightarrow>
     cbb_base (cbbs h p) = Some b \<and> cbb_child (cbbs h p) = Some k \<and> cbb_offset (cbbs h k) = of_nat s \<and>
     pending_len_len (cbbs h k) = of_nat (reserved x) \<and> pending_is_asn1 (cbbs h k) = (x = Asn1) \<and>
     0 < reserved x \<and> reserved x \<le> 8 \<and> pending_at h b k (s + reserved x + length body) ks"

fun raw :: "frame list \<Rightarrow> byte list" where
  "raw [] = []"
| "raw ((k, x, body) # ks) = replicate (reserved x) 0 @ body @ raw ks"

fun closed :: "frame list \<Rightarrow> byte list option" where
  "closed [] = Some []"
| "closed ((k, x, body) # ks) = (case closed ks of None \<Rightarrow> None | Some inner \<Rightarrow> prefixed x (body @ inner))"

definition cells :: "frame list \<Rightarrow> nat set" where
  "cells ks = fst ` set ks"

lemma cells_simps [simp]: "cells [] = {}" "cells (f # ks) = insert (fst f) (cells ks)" "cells (ks @ ls) = cells ks \<union> cells ls"
  by (auto simp: cells_def)

text \<open>\<open>p\<close> builds in the buffer \<open>b\<close>, from the position \<open>s\<close> on: its own bytes and the open children.\<close>

definition builds :: "cbb_store \<Rightarrow> nat \<Rightarrow> nat \<Rightarrow> nat \<Rightarrow> byte list \<Rightarrow> frame list \<Rightarrow> bool" where
  "builds h b p s bs ks \<longleftrightarrow>
     buffer_ok (buffers h b) \<and> \<not> bb_error (buffers h b) \<and> s \<le> length (bb_written (buffers h b)) \<and>
     drop s (bb_written (buffers h b)) = bs @ raw ks \<and> pending_at h b p (s + length bs) ks \<and>
     distinct (p # map fst ks) \<and> length ks < flush_depth h"

lemma pending_cong:
  assumes "\<And>q. q \<in> insert p (cells ks) \<Longrightarrow> cbbs h' q = cbbs h q"
  shows "pending_at h' b p s ks = pending_at h b p s ks"
  using assms
proof (induction ks arbitrary: p s)
  case (Cons f ks)
  obtain k x body where f: "f = (k, x, body)" by (cases f)
  have "cbbs h' p = cbbs h p" "cbbs h' k = cbbs h k" using Cons.prems f by simp_all
  then show ?case using Cons.IH [of k] Cons.prems f by simp
qed simp

lemma pending_base: "pending_at h b p s ks \<Longrightarrow> cbb_base (cbbs h p) = Some b"
  by (cases "(h, b, p, s, ks)" rule: pending_at.cases) auto

text \<open>A builder stays at its place: only its pending child changes.\<close>

definition in_place :: "nat \<Rightarrow> cbb_store \<Rightarrow> cbb_store \<Rightarrow> bool" where
  "in_place p h h' \<longleftrightarrow> (cbbs h' p)\<lparr>cbb_child := None\<rparr> = (cbbs h p)\<lparr>cbb_child := None\<rparr>"

text \<open>The result of an operation that appends \<open>r\<close> behind the closed chain, where there are such
  bytes; \<open>C\<close> are the cells it may use beside those of the chain.\<close>

definition built :: "nat \<Rightarrow> nat \<Rightarrow> nat \<Rightarrow> nat set \<Rightarrow> byte list \<Rightarrow> frame list \<Rightarrow> byte list option \<Rightarrow> cbb_store \<Rightarrow>
    ('a, cbb_store) outcome \<Rightarrow> bool" where
  "built b p s C bs ks r h out \<longleftrightarrow>
     (case out of
        Ok _ h' \<Rightarrow> (\<exists>cs xs. closed ks = Some cs \<and> r = Some xs \<and> builds h' b p s (bs @ cs @ xs) [] \<and>
          in_place p h h' \<and> keeps b s (insert p (C \<union> cells ks)) h h')
      | Fail h' \<Rightarrow> (\<forall>cs xs. closed ks = Some cs \<and> r = Some xs \<longrightarrow>
          \<not> roomy h b (s + length bs + length cs + length xs))
      | _ \<Rightarrow> False)"

lemma written_at: "builds h b p s bs ks \<Longrightarrow> bb_written (buffers h b) = take s (bb_written (buffers h b)) @ bs @ raw ks"
  unfolding builds_def by (metis append_take_drop_id)

lemma builds_length:
  assumes "builds h b p s bs ks"
  shows "length (bb_written (buffers h b)) = s + length bs + length (raw ks)" "s + length bs + length (raw ks) < 2 ^ 64"
proof -
  show len: "length (bb_written (buffers h b)) = s + length bs + length (raw ks)"
    using arg_cong [OF written_at [OF assms], of length] assms by (simp add: builds_def min_absorb2)
  have "buffer_ok (buffers h b)" using assms by (simp add: builds_def)
  from length_written [OF this] len show "s + length bs + length (raw ks) < 2 ^ 64"
    using unat_less64 [of "bb_len (buffers h b)"] by simp
qed

lemma in_place_refl: "in_place p h h"
  by (simp add: in_place_def)

lemma in_place_trans: "in_place p h h1 \<Longrightarrow> in_place p h1 h2 \<Longrightarrow> in_place p h h2"
  by (simp add: in_place_def)

lemma in_place_fields:
  assumes "in_place p h h'"
  shows "cbb_base (cbbs h' p) = cbb_base (cbbs h p)" "cbb_offset (cbbs h' p) = cbb_offset (cbbs h p)"
    "pending_len_len (cbbs h' p) = pending_len_len (cbbs h p)" "pending_is_asn1 (cbbs h' p) = pending_is_asn1 (cbbs h p)"
    "is_child (cbbs h' p) = is_child (cbbs h p)"
  using assms by (cases "cbbs h' p"; cases "cbbs h p"; simp add: in_place_def)+

text \<open>A child builds behind its reserved prefix.\<close>

lemma builds_child:
  assumes "builds h b p s bs ((k, x, body) # ks)"
  shows "builds h b k (s + length bs + reserved x) body ks"
proof -
  let ?W = "bb_written (buffers h b)"
  have "length ?W = s + length bs + reserved x + length body + length (raw ks)"
    using builds_length(1) [OF assms] by simp
  moreover have "drop s ?W = bs @ replicate (reserved x) 0 @ body @ raw ks"
    using assms by (simp add: builds_def)
  from arg_cong [OF this, of "drop (length bs + reserved x)"]
  have "drop (s + length bs + reserved x) ?W = body @ raw ks"
    by (simp add: ac_simps)
  ultimately show ?thesis
    using assms by (auto simp: builds_def)
qed

lemma start_offset:
  assumes "cbb_offset c = of_nat s" "pending_len_len c = of_nat r" "r \<le> 8" "s + r < 2 ^ 64"
  shows "unat (cbb_offset c + ucast (pending_len_len c)) = s + r"
  using assms by (simp add: small_byte(3)) (simp add: unat_of_nat_addr flip: of_nat_add)

definition flushed :: "nat \<Rightarrow> nat \<Rightarrow> nat \<Rightarrow> byte list \<Rightarrow> frame list \<Rightarrow> cbb_store \<Rightarrow> (unit, cbb_store) outcome \<Rightarrow> bool" where
  "flushed b p s bs ks h out \<longleftrightarrow>
     (case out of
        Ok _ h' \<Rightarrow> (\<exists>cs. closed ks = Some cs \<and> builds h' b p s (bs @ cs) [] \<and> in_place p h h' \<and>
          keeps b s (insert p (cells ks)) h h')
      | Fail h' \<Rightarrow> bb_error (buffers h' b) \<and>
          (\<forall>cs. closed ks = Some cs \<longrightarrow> \<not> roomy h b (s + length bs + length cs))
      | _ \<Rightarrow> False)"

lemma prefixed_grows: "prefixed x body = Some out \<Longrightarrow> length body \<le> length out"
  using prefixed_length [of x body out] by simp

lemma flush_upto_built:
  "builds h b p s bs ks \<Longrightarrow> length ks < n \<Longrightarrow> flushed b p s bs ks h (flush_upto n p h)"
proof (induction ks arbitrary: n p s bs)
  case Nil
  then obtain n' where n: "n = Suc n'" by (cases n) auto
  have "cbb_base (cbbs h p) = Some b" "cbb_child (cbbs h p) = None" "\<not> bb_error (buffers h b)"
    using Nil(1) by (simp_all add: builds_def)
  then have "flush_upto n p h = Ok () h" by (simp add: n)
  then show ?case using Nil(1) by (simp add: flushed_def keeps_refl in_place_refl)
next
  case (Cons f ks)
  obtain k x body where f: "f = (k, x, body)" by (cases f)
  obtain n' where n: "n = Suc n'" using Cons.prems by (cases n) auto
  let ?W = "bb_written (buffers h b)" and ?pre = "take s (bb_written (buffers h b)) @ bs"
  note whole = Cons.prems(1) [unfolded f]
  have at: "cbb_base (cbbs h p) = Some b" "cbb_child (cbbs h p) = Some k" "\<not> bb_error (buffers h b)"
    "cbb_offset (cbbs h k) = of_nat (s + length bs)" "pending_len_len (cbbs h k) = of_nat (reserved x)"
    "pending_is_asn1 (cbbs h k) = (x = Asn1)" "0 < reserved x" "reserved x \<le> 8" "p \<noteq> k" "p \<notin> cells ks" "s \<le> length ?W"
    using whole by (auto simp: builds_def cells_def)
  have pre: "length ?pre = s + length bs" "s + length bs + reserved x < 2 ^ 64"
    using at(11) builds_length(2) [OF whole] by simp_all
  let ?start = "cbb_offset (cbbs h k) + ucast (pending_len_len (cbbs h k))"
  have start: "unat ?start = length ?pre + reserved x"
    unfolding pre(1) by (rule start_offset) (use at pre in simp_all)
  have nz: "pending_len_len (cbbs h k) \<noteq> 0"
  proof -
    have "unat (of_nat (reserved x) :: byte) \<noteq> 0" using at(7,8) by (simp add: byte_nat)
    then show ?thesis unfolding at(5) by (metis unat_0)
  qed
  have run: "flush_upto n p h = (case mthen (flush_upto n' k) (flush_child b p k ?start) h of
      Fail h \<Rightarrow> buffer_error b h | r \<Rightarrow> r)"
    using at nz by (simp add: n Let_def)
  have inner: "flushed b k (s + length bs + reserved x) body ks h (flush_upto n' k h)"
    using Cons.IH [OF builds_child [OF whole]] Cons.prems(2) n by simp
  show ?case
  proof (cases "flush_upto n' k h")
    case (Fail h1)
    have "\<not> roomy h b (s + length bs + length cs)" if cs: "closed (f # ks) = Some cs" for cs
    proof -
      obtain inn where "closed ks = Some inn" "prefixed x (body @ inn) = Some cs"
        using cs f by (auto split: option.splits)
      moreover from this prefixed_length [of x "body @ inn" cs] have "reserved x + length body + length inn \<le> length cs"
        by (cases x) auto
      ultimately show ?thesis
        using inner Fail roomy_le [of h b "s + length bs + length cs"] by (auto simp: flushed_def)
    qed
    then show ?thesis using run Fail by (simp add: flushed_def mthen_def mbind_def buffer_error_def)
  next
    case (Ok u h1)
    let ?s = "s + length bs + reserved x"
    obtain inn where inn: "closed ks = Some inn" "builds h1 b k ?s (body @ inn) []" "in_place k h h1"
      "keeps b ?s (insert k (cells ks)) h h1"
      using inner Ok by (auto simp: flushed_def)
    have place: "cbbs h1 p = cbbs h p" using inn(4) at(9,10) by (simp add: keeps_def)
    have "take ?s ?W = ?pre @ replicate (reserved x) 0"
      using written_at [OF whole] pre(1) by (metis append.assoc append_eq_conv_conj length_append length_replicate raw.simps(2))
    then have w1: "bb_written (buffers h1 b) = ?pre @ replicate (reserved x) 0 @ body @ inn"
      using written_at [OF inn(2)] inn(4) by (simp add: keeps_def)
    have ok1: "buffer_ok (buffers h1 b)" "\<not> bb_error (buffers h1 b)"
      using inn(2) by (simp_all add: builds_def)
    note fields = in_place_fields [OF inn(3)]
    have k1: "cbb_offset (cbbs h1 k) = of_nat (length ?pre)" "pending_len_len (cbbs h1 k) = of_nat (reserved x)"
      "pending_is_asn1 (cbbs h1 k) = (x = Asn1)"
      using fields at(4-6) pre(1) by simp_all
    show ?thesis
      using ok1(1) w1 k1 at(8,9) start
    proof (cases rule: flush_child_cases)
      case (1 bb out c)
      let ?h2 = "child_closed b p k c bb h1"
      have "flush_upto n p h = Ok () ?h2" using run Ok 1(1) by (simp add: mthen_def mbind_def)
      moreover have "closed (f # ks) = Some out" using f inn(1) 1(2) by simp
      moreover have "builds ?h2 b p s (bs @ out) []"
        using 1(3,4) ok1 at place whole inn(4) by (auto simp: builds_def child_closed_def buffer_step_def keeps_def)
      moreover have "in_place p h ?h2" using place by (simp add: in_place_def child_closed_def)
      moreover have "keeps b s (insert p (cells (f # ks))) h ?h2"
      proof (rule keeps_trans)
        show "keeps b s (insert p (cells (f # ks))) h h1"
          by (rule keeps_mono [OF inn(4)]) (auto simp: f)
        show "keeps b s (insert p (cells (f # ks))) h1 ?h2"
          using 1(3,4) w1 at(11) f by (auto simp: keeps_def child_closed_def buffer_step_def)
      qed
      ultimately show ?thesis by (simp add: flushed_def)
    next
      case (2 h2)
      have "\<not> roomy h b (s + length bs + length cs)" if "closed (f # ks) = Some cs" for cs
        using that f inn(1) 2(2) [of cs] pre(1) keeps_roomy [OF inn(4), of "length ?pre + length cs"] by auto
      then show ?thesis using run Ok 2(1) by (simp add: flushed_def mthen_def mbind_def buffer_error_def)
    qed
  qed (use inner in \<open>simp_all add: flushed_def\<close>)
qed

lemma flush_built: "builds h b p s bs ks \<Longrightarrow> flushed b p s bs ks h (CBB_flush p h)"
  unfolding CBB_flush_def by (rule flush_upto_built) (simp_all add: builds_def)

end
