(* ===== verification/CBB_Writer.thy ===== *)
theory CBB_Writer
  imports CBB_Write
begin

unbundle bit_operations_syntax

text \<open>
  The adders of \<open>bytestring/cbb.c\<close> as writers: each appends its encoding to the closed chain, where
  the value has one, or fails. Writers compose, and a child with its writer is a writer of the element.
\<close>

section \<open>Writers\<close>

text \<open>\<open>w\<close> appends \<open>r\<close> to what \<open>p\<close> builds; it opens children in \<open>C\<close>, at most \<open>d\<close> deep.\<close>

definition writes :: "nat \<Rightarrow> nat set \<Rightarrow> nat \<Rightarrow> 'a builder \<Rightarrow> byte list option \<Rightarrow> bool" where
  "writes d C p w r \<longleftrightarrow>
     (\<forall>h b s bs ks. builds h b p s bs ks \<and> d < flush_depth h \<longrightarrow> built b p s C bs ks r h (w h))"

lemma writesD: "writes d C p w r \<Longrightarrow> builds h b p s bs ks \<Longrightarrow> d < flush_depth h \<Longrightarrow> built b p s C bs ks r h (w h)"
  by (simp add: writes_def)

lemma writes_mono: "writes d C p w r \<Longrightarrow> d \<le> d' \<Longrightarrow> C \<subseteq> C' \<Longrightarrow> writes d' C' p w r"
  unfolding writes_def built_def
  by (fastforce split: outcome.splits elim!: keeps_mono)

lemma keeps_depth: "keeps b s C h h' \<Longrightarrow> flush_depth h' = flush_depth h"
  by (simp add: keeps_def)

definition append_opt :: "byte list option \<Rightarrow> byte list option \<Rightarrow> byte list option" where
  "append_opt r r' = (case r of None \<Rightarrow> None | Some xs \<Rightarrow> map_option ((@) xs) r')"

lemma append_opt_simps [simp]:
  "append_opt None r = None" "append_opt (Some xs) None = None" "append_opt (Some xs) (Some ys) = Some (xs @ ys)"
  "append_opt (Some []) r = r"
  by (simp_all add: append_opt_def) (cases r; simp)

lemma writes_bind:
  assumes first: "writes d C p m r" and rest: "\<And>x. writes d C p (f x) r'"
  shows "writes d C p (mbind m f) (append_opt r r')"
  unfolding writes_def
proof (intro allI impI, elim conjE)
  fix h b s bs ks
  assume builds: "builds h b p s bs ks" and depth: "d < flush_depth h"
  note m = writesD [OF first builds depth]
  show "built b p s C bs ks (append_opt r r') h (mbind m f h)"
  proof (cases "m h")
    case (Fail h1)
    then have "\<not> roomy h b (s + length bs + length cs + length zs)"
      if "closed ks = Some cs" "append_opt r r' = Some zs" for cs zs
      using that m roomy_le [of h b "s + length bs + length cs + length zs"]
      by (fastforce simp: built_def append_opt_def split: option.splits)
    then show ?thesis using Fail by (simp add: built_def mbind_def)
  next
    case (Ok x h1)
    with m obtain cs xs where h1: "closed ks = Some cs" "r = Some xs" "builds h1 b p s (bs @ cs @ xs) []"
      "in_place p h h1" "keeps b s (insert p (C \<union> cells ks)) h h1"
      by (auto simp: built_def)
    have "built b p s C (bs @ cs @ xs) [] r' h1 (f x h1)"
      using writesD [OF rest h1(3)] depth keeps_depth [OF h1(5)] by simp
    moreover have "keeps b s (insert p (C \<union> cells ks)) h h2" if "keeps b s (insert p C) h1 h2" for h2
      using keeps_trans [OF h1(5) keeps_mono [OF that]] by blast
    moreover have "in_place p h h2" if "in_place p h1 h2" for h2
      using in_place_trans [OF h1(4) that] .
    ultimately show ?thesis
      using h1(1,2) keeps_roomy [OF h1(5)] Ok
      by (cases r') (auto simp: built_def mbind_def add.assoc split: outcome.splits)
  qed (use m in \<open>simp_all add: built_def\<close>)
qed

lemma writes_then: "writes d C p m r \<Longrightarrow> writes d C p k r' \<Longrightarrow> writes d C p (mthen m k) (append_opt r r')"
  unfolding mthen_def by (rule writes_bind)

lemma writes_flush: "writes d C p (CBB_flush p) (Some [])"
  unfolding writes_def
proof (intro allI impI, elim conjE)
  fix h b s bs ks
  assume "builds h b p s bs ks"
  from flush_built [OF this] show "built b p s C bs ks (Some []) h (CBB_flush p h)"
    by (cases "CBB_flush p h") (auto simp: built_def flushed_def intro: keeps_cells)
qed

lemma writes_fail:
  assumes "\<And>h. \<exists>h'. w h = Fail h'"
  shows "writes d C p w None"
  unfolding writes_def
proof (intro allI impI)
  fix h b s bs ks
  obtain h' where "w h = Fail h'" using assms by blast
  then show "built b p s C bs ks None h (w h)" by (simp add: built_def)
qed

text \<open>A flush and an adder on the buffer.\<close>

lemma buffer_built:
  assumes builds: "builds h b p s bs []" and adds: "buffer_adds b h r out"
  shows "built b p s C bs [] r h out"
proof (cases out)
  case (Ok u h')
  with adds obtain bb xs where h': "r = Some xs" "h' = h\<lparr>buffers := (buffers h)(b := bb)\<rparr>" "buffer_step b h bb"
    "bb_written bb = bb_written (buffers h b) @ xs"
    by (auto simp: buffer_adds_def)
  have "builds h' b p s (bs @ xs) []"
    using builds h' by (auto simp: builds_def buffer_step_def)
  moreover have "keeps b s (insert p (C \<union> cells [])) h h'"
    unfolding h'(2) using keeps_buffer [OF h'(3), of s] h'(4) builds by (simp add: builds_def)
  moreover have "in_place p h h'" using h'(2) by (simp add: in_place_def)
  ultimately show ?thesis using Ok h'(1) by (auto simp: built_def)
next
  case (Fail h')
  then show ?thesis
    using adds builds_length(1) [OF builds] by (auto simp: buffer_adds_def built_def)
qed (use adds in \<open>simp_all add: buffer_adds_def\<close>)

lemma writes_add:
  assumes "\<And>h b. buffer_ok (buffers h b) \<Longrightarrow> cbb_base (cbbs h p) = Some b \<Longrightarrow> buffer_adds b h r (g h)"
  shows "writes d C p (mthen (CBB_flush p) g) r"
  unfolding writes_def
proof (intro allI impI, elim conjE)
  fix h b s bs ks
  assume builds: "builds h b p s bs ks"
  note fl = flush_built [OF this]
  show "built b p s C bs ks r h (mthen (CBB_flush p) g h)"
  proof (cases "CBB_flush p h")
    case (Fail h1)
    then show ?thesis
      using fl roomy_le by (fastforce simp: flushed_def built_def mthen_def mbind_def)
  next
    case (Ok u h1)
    with fl obtain cs where h1: "closed ks = Some cs" "builds h1 b p s (bs @ cs) []" "in_place p h h1"
      "keeps b s (insert p (cells ks)) h h1"
      by (auto simp: flushed_def)
    have "buffer_ok (buffers h1 b)" "cbb_base (cbbs h1 p) = Some b"
      using h1(2) by (simp_all add: builds_def)
    from buffer_built [OF h1(2) assms [OF this], of C]
    have "built b p s C (bs @ cs) [] r h1 (g h1)" .
    moreover have "keeps b s (insert p (C \<union> cells ks)) h h2" if "keeps b s (insert p C) h1 h2" for h2
      by (rule keeps_trans [OF keeps_mono [OF h1(4)] keeps_mono [OF that]]) auto
    moreover have "in_place p h h2" if "in_place p h1 h2" for h2
      using in_place_trans [OF h1(3) that] .
    ultimately show ?thesis
      using h1(1) keeps_roomy [OF h1(4)] Ok
      by (auto simp: built_def mthen_def mbind_def add.assoc split: outcome.splits)
  qed (use fl in \<open>simp_all add: flushed_def\<close>)
qed

section \<open>Integers and bytes\<close>

lemma add_u_writes:
  assumes "0 < n" "n \<le> 8"
  shows "writes d C p (add_u p v n) (if unat v < 256 ^ unat n then Some (be_bytes (unat n) v) else None)"
  unfolding add_u_def
  by (rule writes_add) (simp add: with_base_def add_u_adds [OF _ assms])

lemma add_bytes_writes: "length bs < 2 ^ 64 \<Longrightarrow> writes d C p (CBB_add_bytes p bs) (Some bs)"
  unfolding CBB_add_bytes_def by (rule writes_add) (rule fill_adds)

locale value_writer =
  fixes add :: "nat \<Rightarrow> nat \<Rightarrow> 'a \<Rightarrow> unit builder" and code :: "'a \<Rightarrow> byte list" and valid :: "'a \<Rightarrow> bool"
  assumes adds: "p \<noteq> c \<Longrightarrow> writes 1 {c} p (add p c v) (if valid v then Some (code v) else None)"
begin

lemma add_Ok:
  assumes "builds h b p s bs ks" "1 < flush_depth h" "p \<noteq> c" "add p c v h = Ok u h'"
  shows "\<exists>cs. closed ks = Some cs \<and> valid v \<and> builds h' b p s (bs @ cs @ code v) [] \<and>
    in_place p h h' \<and> keeps b s (insert p (insert c (cells ks))) h h'"
  using writesD [OF adds [OF assms(3), of v] assms(1,2)] assms(4)
  by (auto simp: built_def split: if_splits)

lemma add_succeeds:
  assumes "builds h b p s bs ks" "1 < flush_depth h" "p \<noteq> c" "valid v" "closed ks = Some cs"
    "roomy h b (s + length bs + length cs + length (code v))"
  shows "\<exists>h'. add p c v h = Ok () h' \<and> builds h' b p s (bs @ cs @ code v) [] \<and>
    in_place p h h' \<and> keeps b s (insert p (insert c (cells ks))) h h'"
  using writesD [OF adds [OF assms(3), of v] assms(1,2)] assms(4-)
  by (cases "add p c v h") (auto simp: built_def)

end

lemma w_adds:
  assumes "0 < n" "n \<le> 8" "\<And>v. valid v \<longleftrightarrow> unat (g v) < 256 ^ unat n" "\<And>v. valid v \<Longrightarrow> code v = be_bytes (unat n) (g v)"
  shows "value_writer (\<lambda>p _ v. add_u p (g v) n) code valid"
proof
  fix p c v
  assume "p \<noteq> (c :: nat)"
  show "writes 1 {c} p (add_u p (g v) n) (if valid v then Some (code v) else None)"
    using add_u_writes [OF assms(1,2), of 1 "{c}" p "g v"] assms(3,4) [of v] by (cases "valid v") simp_all
qed

lemma be_bytes_1 [simp]: "be_bytes 1 v = [ucast v]" "be_bytes (Suc 0) v = [ucast v]"
  by (simp_all add: be_bytes_def word_le_bytes_Suc)

lemma byte_back [simp]: "ucast (ucast (v :: byte) :: u64) = v"
  by (simp add: ucast_back take_bit_word_eq_self)

interpretation w8: value_writer "\<lambda>p _. CBB_add_u8 p" "\<lambda>v. [v]" "\<lambda>_. True"
  unfolding CBB_add_u8_def
  by (rule w_adds) (simp_all add: unat_ucast_up unat_less8)

lemma ucast_small: "LENGTH('a) \<le> 8 * n \<Longrightarrow> LENGTH('a) \<le> 64 \<Longrightarrow> unat (ucast (v :: 'a::len word) :: u64) < 256 ^ n"
proof -
  assume n: "LENGTH('a) \<le> 8 * n" "LENGTH('a) \<le> 64"
  have "unat v < 2 ^ LENGTH('a)" by (rule unsigned_less)
  also have "\<dots> \<le> 2 ^ (8 * n)" using n(1) by (rule power_increasing) simp
  also have "\<dots> = 256 ^ n" by (simp add: power_mult)
  finally show ?thesis using n(2) by (simp add: unat_ucast_up)
qed

interpretation w16: value_writer "\<lambda>p _. CBB_add_u16 p" "be_bytes 2" "\<lambda>_. True"
  unfolding CBB_add_u16_def
  by (rule w_adds) (use ucast_small [where 'a = 16 and n = 2] in \<open>simp_all add: be_bytes_ucast\<close>)

interpretation w24: value_writer "\<lambda>p _. CBB_add_u24 p" "be_bytes 3" "\<lambda>v. unat v < 2 ^ 24"
  unfolding CBB_add_u24_def
  by (rule w_adds) (simp_all add: be_bytes_ucast unat_ucast_up)

interpretation w32: value_writer "\<lambda>p _. CBB_add_u32 p" "be_bytes 4" "\<lambda>_. True"
  unfolding CBB_add_u32_def
  by (rule w_adds) (use ucast_small [where 'a = 32 and n = 4] in \<open>simp_all add: be_bytes_ucast\<close>)

interpretation w64: value_writer "\<lambda>p _. CBB_add_u64 p" "be_bytes 8" "\<lambda>_. True"
  unfolding CBB_add_u64_def
  by (rule w_adds) (use ucast_small [where 'a = 64 and n = 8] in \<open>simp_all\<close>)

lemma writer_swap:
  assumes "value_writer f (be_bytes k) (\<lambda>_. True)" "swaps_bytes k g"
  shows "value_writer (\<lambda>p c v. f p c (g v)) (word_le_bytes k) (\<lambda>_. True)"
proof
  fix p c v
  assume "p \<noteq> (c :: nat)"
  have "be_bytes k (g v) = word_le_bytes k v"
    using swaps_bytes_be [OF assms(2), of "g v"] swaps_bytes_twice [OF assms(2)] by simp
  then show "writes 1 {c} p (f p c (g v)) (if True then Some (word_le_bytes k v) else None)"
    using value_writer.adds [OF assms(1) \<open>p \<noteq> c\<close>, of "g v"] by simp
qed

interpretation w16le: value_writer "\<lambda>p _. CBB_add_u16le p" "word_le_bytes 2" "\<lambda>_. True"
  unfolding CBB_add_u16le_def by (rule writer_swap [OF w16.value_writer_axioms bswap2])

interpretation w32le: value_writer "\<lambda>p _. CBB_add_u32le p" "word_le_bytes 4" "\<lambda>_. True"
  unfolding CBB_add_u32le_def by (rule writer_swap [OF w32.value_writer_axioms bswap4])

interpretation w64le: value_writer "\<lambda>p _. CBB_add_u64le p" "word_le_bytes 8" "\<lambda>_. True"
  unfolding CBB_add_u64le_def by (rule writer_swap [OF w64.value_writer_axioms bswap8])

text \<open>The same without a scratch cell.\<close>

lemma u8_writes: "writes d C p (CBB_add_u8 p v) (Some [v])"
  using add_u_writes [of 1 d C p "ucast v"] by (simp add: CBB_add_u8_def unat_ucast_up unat_less8)

lemma u24_writes: "writes d C p (CBB_add_u24 p v) (if unat v < 2 ^ 24 then Some (be_bytes 3 v) else None)"
  using add_u_writes [of 3 d C p "ucast v"]
  by (cases "unat v < 2 ^ 24") (simp_all add: CBB_add_u24_def be_bytes_ucast unat_ucast_up)

lemma be_writes:
  "writes d C p (CBB_add_u16 p v2) (Some (be_bytes 2 v2))"
  "writes d C p (CBB_add_u32 p v4) (Some (be_bytes 4 v4))"
  "writes d C p (CBB_add_u64 p v8) (Some (be_bytes 8 v8))"
  using add_u_writes [of 2 d C p "ucast v2"] add_u_writes [of 4 d C p "ucast v4"]
    add_u_writes [of 8 d C p v8] ucast_small [of 2 v2] ucast_small [of 4 v4] ucast_small [of 8 v8]
  by (simp_all add: CBB_add_u16_def CBB_add_u32_def CBB_add_u64_def be_bytes_ucast unat_ucast_up)

lemma swapped: "swaps_bytes k g \<Longrightarrow> be_bytes k (g v) = word_le_bytes k v"
  using swaps_bytes_be [of k g "g v"] swaps_bytes_twice [of k g v] by simp

lemma le_writes:
  "writes d C p (CBB_add_u16le p v2) (Some (word_le_bytes 2 v2))"
  "writes d C p (CBB_add_u32le p v4) (Some (word_le_bytes 4 v4))"
  "writes d C p (CBB_add_u64le p v8) (Some (word_le_bytes 8 v8))"
  using be_writes(1) [of d C p "CRYPTO_bswap2 v2"] be_writes(2) [of d C p "CRYPTO_bswap4 v4"]
    be_writes(3) [of d C p "CRYPTO_bswap8 v8"]
  by (simp_all add: CBB_add_u16le_def CBB_add_u32le_def CBB_add_u64le_def swapped [OF bswap2] swapped [OF bswap4] swapped [OF bswap8])

section \<open>Lists of bytes, base 128\<close>

definition add_list :: "nat \<Rightarrow> byte list \<Rightarrow> unit builder" where
  "add_list p bs = foldr (\<lambda>b. mthen (CBB_add_u8 p b)) bs (mreturn ())"

lemma add_list_simps [simp]:
  "add_list p [] = mreturn ()" "add_list p (b # bs) = mthen (CBB_add_u8 p b) (add_list p bs)"
  by (simp_all add: add_list_def)

text \<open>A return after an adder writes nothing; on its own it would not close the chain.\<close>

lemma mthen_return: "mthen m (mreturn ()) = m"
  by (rule ext) (simp add: mthen_def mbind_def split: outcome.splits)

lemma mthen_assoc: "mthen (mthen m k) l = mthen m (mthen k l)"
  by (rule ext) (simp add: mthen_def mbind_def split: outcome.splits)

lemma mthen_unit: "mthen (mreturn ()) k = k"
  by (rule ext) (simp add: mthen_def mbind_def)

lemma list_writes: "bs \<noteq> [] \<Longrightarrow> writes d C p (add_list p bs) (Some bs)"
proof (induction bs)
  case (Cons b bs)
  show ?case
  proof (cases "bs = []")
    case True
    then show ?thesis by (simp add: mthen_return u8_writes)
  next
    case False
    from writes_then [OF u8_writes Cons.IH [OF this], of b] show ?thesis by simp
  qed
qed simp

fun septets :: "nat \<Rightarrow> nat" where
  "septets n = (if n = 0 then 0 else Suc (septets (n div 128)))"

declare septets.simps [simp del]

lemma base128_len_septets: "base128_len v = septets (unat v)"
proof (induction v rule: base128_len.induct)
  case (1 v)
  have d: "unat (drop_bit 7 v) = unat v div 128"
    by (simp add: unsigned_drop_bit_eq drop_bit_eq_div unat_div)
  show ?case
    using 1 d by (subst base128_len.simps, subst septets.simps) (simp add: word_greater_zero_iff unat_eq_0)
qed

lemma front_map:
  "base128_front n = map (\<lambda>i. of_nat (128 + n div 128 ^ i mod 128)) (rev [0..<septets n])"
proof (induction n rule: base128_front.induct)
  case (1 n)
  show ?case
  proof (cases "n = 0")
    case False
    have "map (\<lambda>i. of_nat (128 + n div 128 ^ i mod 128) :: byte) (rev [0..<Suc k])
        = map (\<lambda>i. of_nat (128 + n div 128 div 128 ^ i mod 128)) (rev [0..<k]) @ [of_nat (128 + n mod 128)]" for k
    proof -
      have "[0..<Suc k] = 0 # map Suc [0..<k]"
        by (simp add: map_Suc_upt upt_conv_Cons del: upt_Suc)
      then show ?thesis by (simp add: rev_map div_mult2_eq del: upt_Suc of_nat_add)
    qed
    then show ?thesis
      using 1 [OF False] False by (subst base128_front.simps, subst septets.simps) (simp del: upt_Suc of_nat_add)
  qed (simp add: base128_front.simps septets.simps)
qed

lemma septet_bits:
  "ucast (drop_bit (7 * i) v) AND 0x7F = (of_nat (unat (v :: u64) div 128 ^ i mod 128) :: byte)" (is ?low)
  "(ucast (drop_bit (7 * i) v) AND 0x7F) OR 0x80 = (of_nat (128 + unat (v :: u64) div 128 ^ i mod 128) :: byte)"
proof -
  let ?b = "ucast (drop_bit (7 * i) v) AND 0x7F :: byte"
  have "unat (drop_bit (7 * i) v) = unat v div 128 ^ i"
    using drop_bit_eq_div [of "7 * i" "unat v"] by (simp add: unat_drop_bit_eq power_mult)
  then have b: "unat ?b = unat v div 128 ^ i mod 128"
    by (simp add: byte_masks unat_and_mask unsigned_ucast_eq take_bit_eq_mod mod_mod_cancel)
  then show ?low by (metis of_nat_unat ucast_id)
  have "\<not> 128 \<le> unat ?b" unfolding b by (simp add: not_le)
  then have "?b AND 0x80 = 0" using high_bit [of ?b] by blast
  then have "?b OR 0x80 = ?b + 0x80" by (rule disjunctive_add_eq_or [symmetric])
  also have "\<dots> = of_nat (unat ?b + 128)" by simp
  finally show "?b OR 0x80 = of_nat (128 + unat v div 128 ^ i mod 128)"
    unfolding b by (simp only: add.commute)
qed

lemma add_septets_list:
  "add_septets p (Suc k) v = add_list p (map (\<lambda>i. of_nat (128 + unat v div 128 ^ i mod 128)) (rev [1..<Suc k]) @
     [of_nat (unat v mod 128)])"
proof (induction k)
  case 0
  show ?case using septet_bits(1) [of 0 v] by simp
next
  case (Suc k)
  have "[1..<Suc (Suc k)] = [1..<Suc k] @ [Suc k]" by simp
  then show ?case
    using Suc septet_bits(2) [of "Suc k" v] by (subst add_septets.simps) (simp del: upt_Suc of_nat_add add_septets.simps)
qed

lemma add_base128_list: "add_base128_integer p v = add_list p (base128 (unat v))"
proof -
  have len: "(if base128_len v = 0 then 1 else base128_len v) = Suc (septets (unat v div 128))"
    unfolding base128_len_septets by (subst (1 2) septets.simps) (simp add: septets.simps [of 0])
  have "[1..<Suc k] = map Suc [0..<k]" for k by (simp add: map_Suc_upt del: upt_Suc)
  then show ?thesis
    unfolding add_base128_integer_def Let_def len add_septets_list base128_def front_map
    by (simp add: rev_map div_mult2_eq comp_def del: upt_Suc of_nat_add)
qed

interpretation wbase128: value_writer "\<lambda>p _. add_base128_integer p" "\<lambda>v. base128 (unat v)" "\<lambda>_. True"
  by standard (simp add: add_base128_list list_writes base128_def)

section \<open>Children\<close>

text \<open>\<open>w\<close> appends \<open>hd\<close> and opens the child \<open>c\<close> with the prefix \<open>x\<close>.\<close>

definition opens :: "nat \<Rightarrow> nat \<Rightarrow> prefix \<Rightarrow> byte list \<Rightarrow> unit builder \<Rightarrow> bool" where
  "opens p c x front w \<longleftrightarrow>
     (\<forall>h b s bs ks. builds h b p s bs ks \<and> 1 < flush_depth h \<longrightarrow>
       (case w h of
          Ok _ h' \<Rightarrow> (\<exists>cs. closed ks = Some cs \<and> builds h' b p s (bs @ cs @ front) [(c, x, [])] \<and> in_place p h h' \<and>
            keeps b s (insert p (insert c (cells ks))) h h')
        | Fail h' \<Rightarrow> (\<forall>cs. closed ks = Some cs \<longrightarrow>
            \<not> roomy h b (s + length bs + length cs + length front + reserved x))
        | _ \<Rightarrow> False))"

lemma start_child_builds:
  assumes old: "builds h b p s (bs @ replicate (reserved x) 0) []" and cell: "p \<noteq> c" and depth: "1 < flush_depth h"
    and x: "0 < reserved x" "reserved x \<le> 8"
  shows "\<exists>h'. start_child p c (of_nat (s + length bs)) (of_nat (reserved x)) (x = Asn1) h = Ok () h' \<and>
    builds h' b p s bs [(c, x, [])] \<and> in_place p h h' \<and> keeps b s (insert p {c}) h h'"
proof -
  let ?h = "h\<lparr>cbbs := (cbbs h)(c := \<lparr>cbb_base = Some b, cbb_child = None, cbb_offset = of_nat (s + length bs),
      pending_len_len = of_nat (reserved x), pending_is_asn1 = (x = Asn1), is_child = True\<rparr>,
      p := (cbbs h p)\<lparr>cbb_child := Some c\<rparr>)\<rparr>"
  have "cbb_base (cbbs h p) = Some b" using old by (simp add: builds_def)
  then have "start_child p c (of_nat (s + length bs)) (of_nat (reserved x)) (x = Asn1) h = Ok () ?h"
    using cell by (simp add: start_child_def)
  moreover have "builds ?h b p s bs [(c, x, [])]"
    using old cell depth x by (auto simp: builds_def)
  moreover have "in_place p h ?h" "keeps b s (insert p {c}) h ?h"
    by (simp_all add: in_place_def keeps_def)
  ultimately show ?thesis by blast
qed

lemma opens_child:
  assumes front: "writes 1 {} p m (Some front)" and cell: "p \<noteq> c"
    and reserve: "\<And>h b s bs. builds h b p s bs [] \<Longrightarrow> 1 < flush_depth h \<Longrightarrow>
      built b p s {} bs [] (Some (replicate (reserved x) 0)) h (r h)"
    and x: "0 < reserved x" "reserved x \<le> 8"
  shows "opens p c x front (mthen m (\<lambda>h. mthen r
    (start_child p c (bb_len (buffers h (the (cbb_base (cbbs h p))))) (of_nat (reserved x)) (x = Asn1)) h))"
  unfolding opens_def
proof (intro allI impI, elim conjE)
  fix h b s bs ks
  assume builds: "builds h b p s bs ks" and depth: "1 < flush_depth h"
  let ?w = "\<lambda>h. mthen r (start_child p c (bb_len (buffers h (the (cbb_base (cbbs h p))))) (of_nat (reserved x)) (x = Asn1)) h"
  let ?spec = "\<lambda>out. case out of
      Ok _ h' \<Rightarrow> (\<exists>cs. closed ks = Some cs \<and> builds h' b p s (bs @ cs @ front) [(c, x, [])] \<and> in_place p h h' \<and>
        keeps b s (insert p (insert c (cells ks))) h h')
    | Fail h' \<Rightarrow> (\<forall>cs. closed ks = Some cs \<longrightarrow> \<not> roomy h b (s + length bs + length cs + length front + reserved x))
    | _ \<Rightarrow> False"
  note first = writesD [OF front builds depth]
  show "?spec (mthen m ?w h)"
  proof (cases "m h")
    case (Fail h1)
    then show ?thesis
      using first roomy_le by (fastforce simp: built_def mthen_def mbind_def)
  next
    case (Ok u h1)
    with first obtain cs where h1: "closed ks = Some cs" "builds h1 b p s (bs @ cs @ front) []" "in_place p h h1"
      "keeps b s (insert p (cells ks)) h h1"
      by (auto simp: built_def)
    have depth1: "1 < flush_depth h1" using depth keeps_depth [OF h1(4)] by simp
    note second = reserve [OF h1(2) depth1]
    have base: "cbb_base (cbbs h1 p) = Some b" "buffer_ok (buffers h1 b)"
      using h1(2) by (simp_all add: builds_def)
    have "unat (bb_len (buffers h1 b)) = s + length (bs @ cs @ front)"
      using length_written [OF base(2)] builds_length(1) [OF h1(2)] by simp
    then have offset: "bb_len (buffers h1 b) = of_nat (s + length (bs @ cs @ front))"
      by (metis of_nat_unat ucast_id)
    show ?thesis
    proof (cases "r h1")
      case (Fail h2)
      then show ?thesis
        using second Ok h1(1) keeps_roomy [OF h1(4)]
        by (auto simp: built_def mthen_def mbind_def add.assoc)
    next
      case (Ok u2 h2)
      with second have h2: "builds h2 b p s ((bs @ cs @ front) @ replicate (reserved x) 0) []" "in_place p h1 h2"
        "keeps b s {p} h1 h2"
        by (auto simp: built_def)
      have depth2: "1 < flush_depth h2" using depth1 keeps_depth [OF h2(3)] by simp
      from start_child_builds [OF h2(1) cell depth2 x]
      obtain h3 where h3: "start_child p c (bb_len (buffers h1 b)) (of_nat (reserved x)) (x = Asn1) h2 = Ok () h3"
        "builds h3 b p s (bs @ cs @ front) [(c, x, [])]" "in_place p h2 h3" "keeps b s (insert p {c}) h2 h3"
        unfolding offset by blast
      have "keeps b s (insert p (insert c (cells ks))) h h3"
        by (rule keeps_trans [OF keeps_cells [OF h1(4)] keeps_trans [OF keeps_cells [OF h2(3)] keeps_cells [OF h3(4)]]]) auto
      moreover have "in_place p h h3"
        using in_place_trans [OF h1(3) in_place_trans [OF h2(2) h3(3)]] .
      ultimately show ?thesis
        using \<open>m h = Ok u h1\<close> Ok base(1) h1(1) h3(1,2) by (simp add: mthen_def mbind_def)
    qed (use second in \<open>simp_all add: built_def\<close>)
  qed (use first in \<open>simp_all add: built_def\<close>)
qed

lemma tag_number_mask: "t AND CBS_ASN1_TAG_NUMBER_MASK = tag_number t"
  by (simp add: CBS_ASN1_TAG_NUMBER_MASK_def CBS_ASN1_TAG_SHIFT_def tag_number_def take_bit_eq_mask mask_eq_exp_minus_1)

lemma tag_writes:
  "writes d C p (if 0x1F \<le> tag_number t
      then mthen (CBB_add_u8 p (tag_class t OR 0x1F)) (add_base128_integer p (ucast (tag_number t)))
      else CBB_add_u8 p (tag_class t OR ucast (tag_number t))) (Some (der_tag t))"
proof (cases "0x1F \<le> tag_number t")
  case True
  have "writes d C p (add_base128_integer p (ucast (tag_number t))) (Some (base128 (unat (tag_number t))))"
    unfolding add_base128_list using list_writes [of "base128 (unat (tag_number t))"]
    by (simp add: unat_ucast_up base128_def)
  from writes_then [OF u8_writes this, of "tag_class t OR 0x1F"] True show ?thesis
    by (simp add: der_tag_def word_le_nat_alt)
next
  case False
  then show ?thesis by (simp add: der_tag_def word_le_nat_alt u8_writes)
qed

lemma add_asn1_eq:
  "CBB_add_asn1 p c t = mthen (mthen (CBB_flush p) (if 0x1F \<le> tag_number t
      then mthen (CBB_add_u8 p (tag_class t OR 0x1F)) (add_base128_integer p (ucast (tag_number t)))
      else CBB_add_u8 p (tag_class t OR ucast (tag_number t))))
     (\<lambda>h. mthen (CBB_add_u8 p 0) (start_child p c (bb_len (buffers h (the (cbb_base (cbbs h p))))) 1 True) h)"
  unfolding CBB_add_asn1_def Let_def tag_number_mask tag_class_def CBS_ASN1_TAG_SHIFT_def mthen_assoc by (rule refl)

lemma add_asn1_opens: "p \<noteq> c \<Longrightarrow> opens p c Asn1 (der_tag t) (CBB_add_asn1 p c t)"
proof -
  assume cell: "p \<noteq> c"
  have front: "writes 1 {} p (mthen (CBB_flush p) (if 0x1F \<le> tag_number t
      then mthen (CBB_add_u8 p (tag_class t OR 0x1F)) (add_base128_integer p (ucast (tag_number t)))
      else CBB_add_u8 p (tag_class t OR ucast (tag_number t)))) (Some (der_tag t))"
    using writes_then [OF writes_flush tag_writes] by simp
  have zero: "built b p s {} bs [] (Some (replicate (reserved Asn1) 0)) h (CBB_add_u8 p 0 h)"
    if "builds h b p s bs []" "1 < flush_depth h" for h b s bs
    using writesD [OF u8_writes [of 0 "{}" p 0] that(1)] that(2) by simp
  from opens_child [OF front cell zero] show ?thesis by (simp add: add_asn1_eq)
qed

lemma length_prefixed_opens:
  assumes cell: "p \<noteq> c" and n: "0 < n" "n \<le> 8"
  shows "opens p c (Length n) [] (cbb_add_length_prefixed p c (of_nat n))"
proof -
  have un: "unat (of_nat n :: byte) = n" using n by (simp add: byte_nat)
  have fill: "built b p s {} bs [] (Some (replicate (reserved (Length n)) 0)) h (fill p (replicate n 0) h)"
    if "builds h b p s bs []" for h b s bs
  proof (rule buffer_built [OF that])
    have "buffer_ok (buffers h b)" "cbb_base (cbbs h p) = Some b" using that by (simp_all add: builds_def)
    from fill_adds [OF this, of "replicate n 0"] n
    show "buffer_adds b h (Some (replicate (reserved (Length n)) 0)) (fill p (replicate n 0) h)" by simp
  qed
  from opens_child [where x = "Length n", OF writes_flush cell fill] n un show ?thesis
    by (simp add: cbb_add_length_prefixed_def Let_def)
qed

text \<open>What a child has built is part of what its parent builds.\<close>

lemma builds_parent:
  assumes old: "builds h1 b p s bs ((k, x, body) # ks)" and new: "builds h2 b k (s + length bs + reserved x) body' ks'"
    and k: "in_place k h1 h2" and other: "keeps b (s + length bs + reserved x) D h1 h2" "p \<notin> D" "p \<notin> insert k (cells ks')"
    and depth: "Suc (length ks') < flush_depth h1"
  shows "builds h2 b p s bs ((k, x, body') # ks')"
proof -
  let ?s = "s + length bs + reserved x"
  have p: "cbbs h2 p = cbbs h1 p" using other(1,2) by (simp add: keeps_def)
  have len: "s + length bs \<le> length (bb_written (buffers h2 b))"
    using new by (simp add: builds_def)
  define pre where "pre = take s (bb_written (buffers h1 b))"
  have "length pre = s" "bb_written (buffers h1 b) = pre @ bs @ replicate (reserved x) 0 @ body @ raw ks"
    using old written_at [OF old] by (simp_all add: pre_def builds_def)
  then have "take ?s (bb_written (buffers h1 b)) = pre @ bs @ replicate (reserved x) 0" by simp
  then have "bb_written (buffers h2 b) = (pre @ bs @ replicate (reserved x) 0) @ body' @ raw ks'"
    using written_at [OF new] other(1) by (simp add: keeps_def)
  with \<open>length pre = s\<close> have "drop s (bb_written (buffers h2 b)) = bs @ replicate (reserved x) 0 @ body' @ raw ks'"
    by simp
  then show ?thesis
    using old new p len in_place_fields [OF k] other(3) depth keeps_depth [OF other(1)]
    by (auto simp: builds_def cells_def)
qed

text \<open>An operation with a result, on a builder without an open child: it appends the bytes \<open>xs\<close> and returns
  \<open>v\<close> for \<open>r = Some (xs, v)\<close>, and fails for \<open>None\<close>.\<close>

definition yields :: "nat \<Rightarrow> nat \<Rightarrow> nat \<Rightarrow> nat set \<Rightarrow> byte list \<Rightarrow> frame list \<Rightarrow> (byte list \<times> 'a) option \<Rightarrow> cbb_store \<Rightarrow>
    ('a, cbb_store) outcome \<Rightarrow> bool" where
  "yields b p s C bs ks r h out \<longleftrightarrow>
     built b p s C bs ks (map_option fst r) h out \<and> (\<forall>x h'. out = Ok x h' \<longrightarrow> map_option snd r = Some x)"

definition appends :: "nat \<Rightarrow> nat set \<Rightarrow> nat \<Rightarrow> 'a builder \<Rightarrow> (byte list \<times> 'a) option \<Rightarrow> bool" where
  "appends d C p w r \<longleftrightarrow>
     (\<forall>h b s bs. builds h b p s bs [] \<and> d < flush_depth h \<longrightarrow> yields b p s C bs [] r h (w h))"

lemma appendsD: "appends d C p w r \<Longrightarrow> builds h b p s bs [] \<Longrightarrow> d < flush_depth h \<Longrightarrow> yields b p s C bs [] r h (w h)"
  by (simp add: appends_def)

lemma writes_appends: "writes d C p w r \<Longrightarrow> appends d C p w (map_option (\<lambda>xs. (xs, ())) r)"
  unfolding appends_def
proof (intro allI impI, elim conjE)
  fix h b s bs
  assume "writes d C p w r" "builds h b p s bs []" "d < flush_depth h"
  from writesD [OF this] show "yields b p s C bs [] (map_option (\<lambda>xs. (xs, ())) r) h (w h)"
    by (cases r) (auto simp: yields_def built_def split: outcome.splits)
qed

text \<open>A child, its content and the flush that closes it.\<close>

lemma child_yields:
  assumes opens: "opens p c x front m" and body: "appends 1 C c w r" and cell: "p \<noteq> c" "p \<notin> C"
    and builds: "builds h b p s bs ks" and depth: "1 < flush_depth h"
  shows "yields b p s (insert c C) bs ks (Option.bind r (\<lambda>(xs, v). map_option (\<lambda>out. (front @ out, v)) (prefixed x xs))) h
    (mthen m (mbind w (\<lambda>v. mthen (CBB_flush p) (mreturn v))) h)"
proof -
  let ?q = "Option.bind r (\<lambda>(xs, v). map_option (\<lambda>out. (front @ out, v)) (prefixed x xs))"
  let ?r = "map_option fst ?q" and ?run = "mthen m (mbind w (\<lambda>v. mthen (CBB_flush p) (mreturn v))) h"
  have size: "length out \<ge> length front + reserved x + length body" if "?r = Some out" "r = Some (body, v)" for out body v
  proof -
    from that obtain out' where "prefixed x body = Some out'" "out = front @ out'" by (cases "prefixed x body") auto
    then show ?thesis using prefixed_length [of x body out'] by (cases x) simp_all
  qed
  have first: "(case m h of
      Ok _ h' \<Rightarrow> (\<exists>cs. closed ks = Some cs \<and> builds h' b p s (bs @ cs @ front) [(c, x, [])] \<and> in_place p h h' \<and>
        keeps b s (insert p (insert c (cells ks))) h h')
    | Fail h' \<Rightarrow> (\<forall>cs. closed ks = Some cs \<longrightarrow> \<not> roomy h b (s + length bs + length cs + length front + reserved x))
    | _ \<Rightarrow> False)"
    using opens builds depth by (simp add: opens_def)
  show "yields b p s (insert c C) bs ks ?q h ?run"
  proof (cases "m h")
    case (Fail h1)
    have "\<not> roomy h b (s + length bs + length cs + length out)" if "closed ks = Some cs" "?r = Some out" for cs out
    proof -
      from that(2) obtain body v where "r = Some (body, v)" by (cases r) auto
      from size [OF that(2) this] first that(1) Fail show ?thesis
        using roomy_le [of h b "s + length bs + length cs + length out" "s + length bs + length cs + length front + reserved x"]
        by auto
    qed
    then show ?thesis using Fail by (simp add: yields_def built_def mthen_def mbind_def)
  next
    case (Ok u h1)
    with first obtain cs where h1: "closed ks = Some cs" "builds h1 b p s (bs @ cs @ front) [(c, x, [])]" "in_place p h h1"
      "keeps b s (insert p (insert c (cells ks))) h h1"
      by auto
    have depth1: "1 < flush_depth h1" using depth keeps_depth [OF h1(4)] by simp
    let ?s = "s + length (bs @ cs @ front) + reserved x"
    from appendsD [OF body builds_child [OF h1(2)] depth1]
    have second: "yields b c ?s C [] [] r h1 (w h1)" .
    show ?thesis
    proof (cases "w h1")
      case (Fail h2)
      have "\<not> roomy h b (s + length bs + length cs + length out)" if "?r = Some out" for out
      proof -
        from that obtain body v where body: "r = Some (body, v)" by (cases r) auto
        with second Fail have "\<not> roomy h1 b (?s + length body)" by (simp add: yields_def built_def)
        then show ?thesis
          using keeps_roomy [OF h1(4), of "?s + length body"] size [OF that body]
            roomy_le [of h b "s + length bs + length cs + length out" "?s + length body"] by auto
      qed
      then show ?thesis using Ok Fail h1(1) by (simp add: yields_def built_def mthen_def mbind_def)
    next
      case (Ok u2 h2)
      with second obtain body where h2: "r = Some (body, u2)" "builds h2 b c ?s body []" "in_place c h1 h2"
        "keeps b ?s (insert c C) h1 h2"
        by (auto simp: yields_def built_def)
      have h2p: "builds h2 b p s (bs @ cs @ front) [(c, x, body)]"
        by (rule builds_parent [OF h1(2) h2(2,3,4)]) (use cell depth1 in auto)
      have all: "keeps b s (insert p (insert c C \<union> cells ks)) h h2"
        by (rule keeps_trans [OF keeps_cells [OF h1(4)] keeps_mono [OF h2(4)]]) auto
      have p2: "in_place p h h2"
        using h1(3) h2(4) cell by (simp add: in_place_def keeps_def)
      note third = flush_built [OF h2p]
      have run: "?run = mthen (CBB_flush p) (mreturn u2) h2"
        using \<open>m h = Ok u h1\<close> Ok by (simp add: mthen_def mbind_def)
      show ?thesis
      proof (cases "CBB_flush p h2")
        case (Fail h3)
        have "\<not> roomy h b (s + length bs + length cs + length out)" if "?r = Some out" for out
          using that h2(1) third Fail keeps_roomy [OF all, of "s + length bs + length cs + length out"]
          by (auto simp: flushed_def add.assoc)
        then show ?thesis using run Fail h1(1) by (simp add: yields_def built_def mthen_def mbind_def)
      next
        case (Ok u3 h3)
        with third obtain out where h3: "prefixed x body = Some out" "builds h3 b p s ((bs @ cs @ front) @ out) []"
          "in_place p h2 h3" "keeps b s (insert p {c}) h2 h3"
          by (auto simp: flushed_def)
        have "keeps b s (insert p (insert c C \<union> cells ks)) h h3"
          by (rule keeps_trans [OF all keeps_cells [OF h3(4)]]) auto
        then show ?thesis
          using run Ok h1(1) h2(1) h3 in_place_trans [OF p2 h3(3)] by (simp add: yields_def built_def mthen_def mbind_def)
      qed (use third in \<open>simp_all add: flushed_def\<close>)
    qed (use second in \<open>simp_all add: yields_def built_def\<close>)
  qed (use first in simp_all)
qed

lemma child_writes:
  assumes opens: "opens p c x front m" and body: "writes 1 C c w r" and cell: "p \<noteq> c" "p \<notin> C"
  shows "writes 1 (insert c C) p (mthen m (mthen w (CBB_flush p)))
    (append_opt (Some front) (Option.bind r (prefixed x)))"
proof -
  have w: "mbind w (\<lambda>v :: unit. mthen (CBB_flush p) (mreturn v)) = mthen w (CBB_flush p)"
    by (rule ext) (simp add: mthen_def mbind_def split: outcome.splits)
  have "map_option fst (Option.bind (map_option (\<lambda>xs. (xs, ())) r) (\<lambda>(xs, v). map_option (\<lambda>out. (front @ out, v)) (prefixed x xs)))
      = append_opt (Some front) (Option.bind r (prefixed x))"
    by (cases r) (simp_all add: append_opt_def option.map_comp comp_def)
  note same = this
  show ?thesis
    unfolding writes_def
  proof (intro allI impI, elim conjE)
    fix h b s bs ks
    assume "builds h b p s bs ks" "1 < flush_depth h"
    from child_yields [OF opens writes_appends [OF body] cell this] same
    show "built b p s (insert c C) bs ks (append_opt (Some front) (Option.bind r (prefixed x))) h
        (mthen m (mthen w (CBB_flush p)) h)"
      unfolding w yields_def by simp
  qed
qed

text \<open>Composition.\<close>

definition after :: "(byte list \<times> 'a) option \<Rightarrow> ('a \<Rightarrow> (byte list \<times> 'b) option) \<Rightarrow> (byte list \<times> 'b) option" where
  "after r f = Option.bind r (\<lambda>(xs, v). map_option (\<lambda>(ys, w). (xs @ ys, w)) (f v))"

lemma after_simps [simp]:
  "after None f = None" "after (Some (xs, v)) f = map_option (\<lambda>(ys, w). (xs @ ys, w)) (f v)"
  "after (Some ([], v)) f = f v"
  by (simp_all add: after_def option.map_id)

lemma appends_mono: "appends d C p w r \<Longrightarrow> d \<le> d' \<Longrightarrow> C \<subseteq> C' \<Longrightarrow> appends d' C' p w r"
  unfolding appends_def yields_def built_def
  by (fastforce split: outcome.splits elim!: keeps_mono)

lemma appends_return: "appends d C p (mreturn v) (Some ([], v))"
  by (auto simp: appends_def yields_def built_def in_place_refl keeps_refl)

lemma appends_fail: "appends d C p Fail None"
  by (simp add: appends_def yields_def built_def)

lemma appends_bind:
  assumes first: "appends d C p m r" and rest: "\<And>xs v. r = Some (xs, v) \<Longrightarrow> appends d C p (f v) (q v)"
  shows "appends d C p (mbind m f) (after r q)"
  unfolding appends_def
proof (intro allI impI, elim conjE)
  fix h b s bs
  assume builds: "builds h b p s bs []" and depth: "d < flush_depth h"
  note m = appendsD [OF first builds depth]
  show "yields b p s C bs [] (after r q) h (mbind m f h)"
  proof (cases "m h")
    case (Fail h1)
    then have "\<not> roomy h b (s + length bs + length zs)" if "after r q = Some (zs, w)" for zs w
      using that m roomy_le [of h b "s + length bs + length zs"]
      by (fastforce simp: yields_def built_def after_def bind_eq_Some_conv)
    then show ?thesis using Fail by (auto simp: yields_def built_def mbind_def)
  next
    case (Ok x h1)
    with m obtain xs where h1: "r = Some (xs, x)" "builds h1 b p s (bs @ xs) []" "in_place p h h1" "keeps b s (insert p C) h h1"
      by (auto simp: yields_def built_def)
    have second: "yields b p s C (bs @ xs) [] (q x) h1 (f x h1)"
      using appendsD [OF rest [OF h1(1)] h1(2)] depth keeps_depth [OF h1(4)] by simp
    have "keeps b s (insert p C) h h2" if "keeps b s (insert p C) h1 h2" for h2
      using keeps_trans [OF h1(4) that] .
    moreover have "in_place p h h2" if "in_place p h1 h2" for h2
      using in_place_trans [OF h1(3) that] .
    ultimately show ?thesis
      using second keeps_roomy [OF h1(4)] Ok h1(1)
      by (cases "q x") (auto simp: yields_def built_def mbind_def add.assoc split: outcome.splits)
  qed (use m in \<open>simp_all add: yields_def built_def\<close>)
qed

end
