(* ===== verification/CBB_DER.thy ===== *)
theory CBB_DER
  imports CBB_Writer
begin

unbundle bit_operations_syntax

text \<open>
  The DER values that \<open>bytestring/cbb.c\<close> writes: integers in minimal two's complement, octet strings and
  booleans, as elements. They are the encodings that the readers of \<open>bytestring/cbs.c\<close> accept.
\<close>

section \<open>Elements\<close>

lemma element_writes:
  assumes "writes 1 C c w (Some body)" "p \<noteq> c" "p \<notin> C" "length body \<le> 0xFFFFFFFE"
  shows "writes 1 (insert c C) p (mthen (CBB_add_asn1 p c t) (mthen w (CBB_flush p))) (Some (der t body))"
  using child_writes [OF add_asn1_opens [OF assms(2), of t] assms(1-3)] assms(4)
  by (simp add: der_def der_header_def)

lemma element_writer:
  assumes "\<And>c v. writes 1 {} c (w c v) (Some (content v))"
  shows "value_writer (\<lambda>p c v. mthen (CBB_add_asn1 p c t) (mthen (w c v) (CBB_flush p))) (\<lambda>v. der t (content v))
    (\<lambda>v. length (content v) \<le> 0xFFFFFFFE)"
proof
  fix p c v
  assume pc: "p \<noteq> (c :: nat)"
  from child_writes [OF add_asn1_opens [OF pc, of t] assms [of c v] pc]
  show "writes 1 {c} p (mthen (CBB_add_asn1 p c t) (mthen (w c v) (CBB_flush p)))
      (if length (content v) \<le> 0xFFFFFFFE then Some (der t (content v)) else None)"
    by (cases "length (content v) \<le> 0xFFFFFFFE") (simp_all add: der_def der_header_def)
qed

section \<open>Integers\<close>

lemma be_bytes_Cons: "be_bytes (Suc n) v = ucast (drop_bit (8 * n) v) # be_bytes n v"
  by (simp add: be_bytes_def word_le_bytes_def)

lemma be_bytes_0 [simp]: "be_bytes 0 v = []"
  by (simp add: be_bytes_def)

lemma uint_drop: "uint (drop_bit n w) = uint (w :: 'a::len word) div 2 ^ n"
proof -
  have "unat (drop_bit n w) = unat w div 2 ^ n"
    using drop_bit_eq_div [of n "unat w"] by (simp add: unat_drop_bit_eq)
  then show ?thesis unfolding uint_nat by (simp add: zdiv_int)
qed

lemma be_value_be_bytes: "be_value w (be_bytes n (v :: u64)) = w * 256 ^ n + uint v mod 256 ^ n"
proof (induction n arbitrary: w v)
  case (Suc n)
  have split: "be_bytes (Suc n) v = be_bytes n (drop_bit 8 v) @ [ucast v]"
    by (simp add: be_bytes_def word_le_bytes_Suc)
  have "uint (drop_bit 8 v) = uint v div 256"
    by (simp add: uint_drop)
  moreover have "uint (ucast v :: byte) = uint v mod 256"
    using take_bit_eq_mod [of 8 "uint v"] by (simp add: unsigned_ucast_eq)
  ultimately have "be_value w (be_bytes (Suc n) v)
      = 256 * (w * 256 ^ n + uint v div 256 mod 256 ^ n) + uint v mod 256"
    unfolding split by (simp add: Suc)
  also have "\<dots> = w * 256 ^ Suc n + (256 * (uint v div 256 mod 256 ^ n) + uint v mod 256)"
    by (simp add: algebra_simps)
  also have "256 * (uint v div 256 mod 256 ^ n) + uint v mod 256 = uint v mod 256 ^ Suc n"
    using mod_mult2_eq' [of "uint v" 256 "256 ^ n"] by simp
  finally show ?case .
qed simp

lemma byte_at: "uint (ucast (drop_bit (8 * n) (v :: u64)) :: byte) = uint v div 256 ^ n mod 256"
proof -
  have "uint (drop_bit (8 * n) v) = uint v div 256 ^ n"
    by (simp add: uint_drop power_mult)
  then show ?thesis using take_bit_eq_mod [of 8 "uint (drop_bit (8 * n) v)"] by (simp add: unsigned_ucast_eq)
qed

fun uint_octets :: "nat \<Rightarrow> u64 \<Rightarrow> byte list" where
  "uint_octets 0 v = [0]"
| "uint_octets (Suc n) v =
     (let b = ucast (drop_bit (8 * n) v) :: byte in
      if b = 0 then uint_octets n v else (if b AND 0x80 \<noteq> 0 then [0] else []) @ be_bytes (Suc n) v)"

lemma uint_octets_der: "uint v < 256 ^ n \<Longrightarrow> uint_octets n v = der_int (uint v)"
proof (induction n)
  case 0
  then have "uint v < 1" "0 \<le> uint v" by simp_all
  then have "uint v = 0" by linarith
  then show ?case by (simp add: der_int.simps)
next
  case (Suc n)
  let ?b = "ucast (drop_bit (8 * n) v) :: byte"
  have b: "uint ?b = uint v div 256 ^ n"
  proof -
    have "int (unat v) < int (256 * 256 ^ n)" using Suc.prems by simp
    then have "unat v div 256 ^ n < 256" by (simp only: of_nat_less_iff less_mult_imp_div_less)
    then have "int (unat v div 256 ^ n) < 256" by simp
    then have "uint v div 256 ^ n < 256" by (simp add: zdiv_int)
    moreover have "0 \<le> uint v div 256 ^ n" by (simp add: pos_imp_zdiv_nonneg_iff)
    ultimately show ?thesis using byte_at [of n v] mod_pos_pos_trivial [of "uint v div 256 ^ n" 256] by linarith
  qed
  show ?case
  proof (cases "?b = 0")
    case True
    then have "uint v div 256 ^ n = 0" using b by simp
    moreover have "(0 :: int) < 256 ^ n" by simp
    ultimately have "uint v < 256 ^ n" unfolding zdiv_eq_0_iff by linarith
    then show ?thesis using Suc.IH True by simp
  next
    case False
    have val: "be_value 0 (be_bytes (Suc n) v) = uint v"
      using be_value_be_bytes [of 0 "Suc n" v] Suc.prems by (simp add: mod_pos_pos_trivial)
    let ?bs = "(if ?b AND 0x80 \<noteq> 0 then [0] else []) @ be_bytes (Suc n) v"
    have "int_value ?bs = uint v"
      using val uint_high [of ?b] by (auto simp: int_value_def be_bytes_Cons)
    moreover have "int_minimal ?bs"
      using False uint_high [of ?b] by (cases "be_bytes n v") (auto simp: be_bytes_Cons)
    ultimately have "?bs = der_int (uint v)" unfolding der_int_iff by blast
    then show ?thesis using False by simp
  qed
qed

lemma mbind_return: "mbind (mreturn x) f = f x"
  by (rule ext) (simp add: mbind_def)

lemma mbind_mthen: "mbind (mthen m k) f = mthen m (mbind k f)"
  by (rule ext) (simp add: mthen_def mbind_def split: outcome.splits)

lemma uint64_bytes_started: "mbind (uint64_bytes c n True v) f = mthen (add_list c (be_bytes n v)) (f True)"
proof (induction n)
  case (Suc n)
  then show ?case by (simp add: be_bytes_Cons mbind_mthen mthen_unit mthen_assoc)
qed (simp add: mbind_return mthen_unit)

lemma uint64_bytes_list:
  "mbind (uint64_bytes c n False v) (\<lambda>started. if \<not> started then CBB_add_u8 c 0 else mreturn ()) = add_list c (uint_octets n v)"
proof (induction n)
  case (Suc n)
  then show ?case
    by (auto simp: Let_def be_bytes_Cons mbind_mthen uint64_bytes_started mthen_unit mthen_assoc mthen_return)
qed (simp add: mbind_return mthen_return)

lemma uint_range: "uint (v :: u64) < 256 ^ 8" "uint (v :: u64) < 2 ^ 64"
  by (rule less_le_trans [OF unsigned_less]; simp)+

lemma sint_value: "sint (v :: u64) = uint v - (if 2 ^ 63 \<le> uint v then 2 ^ 64 else 0)"
proof -
  have "sint v = signed_take_bit 63 (uint v)" by (simp add: sint_uint)
  also have "\<dots> = take_bit 64 (uint v) - 2 ^ 64 * of_bool (bit (uint v) 63)"
    using signed_take_bit_eq_take_bit_minus [of 63 "uint v"] by simp
  also have "take_bit 64 (uint v) = uint v"
    using uint_range(2) [of v] by (simp add: take_bit_int_eq_self)
  also have "bit (uint v) 63 \<longleftrightarrow> 2 ^ 63 \<le> uint v"
  proof -
    have "uint v div 2 ^ 63 = (if 2 ^ 63 \<le> uint v then 1 else 0)"
    proof (cases "2 ^ 63 \<le> uint v")
      case True
      then have "uint v div 2 ^ 63 = 1" using uint_range(2) [of v] by (intro int_div_pos_eq [where r = "uint v - 2 ^ 63"]) auto
      then show ?thesis using True by simp
    next
      case False
      then show ?thesis by (simp add: div_pos_pos_trivial)
    qed
    then show ?thesis by (simp add: bit_iff_odd)
  qed
  finally show ?thesis by simp
qed

lemma short_content: "length (der_int (uint (v :: u64))) \<le> 0xFFFFFFFE" "length (der_int (sint (v :: u64))) \<le> 0xFFFFFFFE"
proof -
  have le: "length (der_int i) \<le> 0xFFFFFFFE" if "- (2 ^ 64) \<le> i" "i < 2 ^ 64" for i
    using length_der_int [of 9 i] that by simp
  have "0 \<le> uint v" by simp
  then have "- (2 ^ 64) \<le> uint v" "- (2 ^ 64) \<le> sint v" "sint v < 2 ^ 64"
    unfolding sint_value using uint_range(2) [of v] by (linarith | (split if_split, linarith))+
  then show "length (der_int (uint v)) \<le> 0xFFFFFFFE" "length (der_int (sint v)) \<le> 0xFFFFFFFE"
    using le uint_range(2) [of v] by blast+
qed

lemma uint64_list:
  "mbind (uint64_bytes c 8 False v) (\<lambda>started. if \<not> started then CBB_add_u8 c 0 else mreturn ()) = add_list c (der_int (uint v))"
  unfolding uint64_bytes_list uint_octets_der [OF uint_range(1)] ..

lemma der_int_writes: "writes d C p (add_list p (der_int i)) (Some (der_int i))"
proof (rule list_writes)
  show "der_int i \<noteq> []" using der_int_minimal [of i] by auto
qed

interpretation wuint64: value_writer CBB_add_asn1_uint64 "\<lambda>v. der CBS_ASN1_INTEGER (der_int (uint v))" "\<lambda>_. True"
  using element_writer [of "\<lambda>c v. add_list c (der_int (uint (v :: u64)))", OF der_int_writes, of CBS_ASN1_INTEGER] short_content(1)
  by (simp add: CBB_add_asn1_uint64_def [abs_def] uint64_list)

text \<open>The skipped leading bytes of a negative number only repeat its sign.\<close>

lemma sign_start_value:
  assumes "be_value (- 1) (be_bytes (Suc k) v) = i" "128 \<le> uint (ucast (drop_bit (8 * k) v) :: byte)"
  shows "be_bytes (Suc (sign_start v k)) v = der_int i"
  using assms
proof (induction k)
  case 0
  then show ?case by (simp add: der_int_iff int_value_def)
next
  case (Suc k)
  let ?b = "ucast (drop_bit (8 * Suc k) v) :: byte" and ?c = "ucast (drop_bit (8 * k) v) :: byte"
  show ?case
  proof (cases "?b = 0xFF \<and> ?c AND 0x80 \<noteq> 0")
    case True
    have "be_value (- 1) (be_bytes (Suc k) v) = i"
      using Suc.prems(1) True by (simp add: be_bytes_Cons [of "Suc k"])
    moreover have "128 \<le> uint ?c" using True uint_high [of ?c] by blast
    moreover have "sign_start v (Suc k) = sign_start v k" using True by simp
    ultimately show ?thesis using Suc.IH by simp
  next
    case False
    have "be_bytes (Suc (Suc k)) v = ?b # ?c # be_bytes k v" by (simp add: be_bytes_Cons)
    moreover have "int_minimal (?b # ?c # be_bytes k v)"
      using False Suc.prems(2) uint_high [of ?c] by auto
    moreover have "int_value (?b # ?c # be_bytes k v) = i"
      using Suc.prems by (simp add: be_bytes_Cons int_value_def)
    moreover have "sign_start v (Suc k) = Suc k" using False by (simp only: sign_start.simps if_False)
    ultimately show ?thesis by (simp only: der_int_iff)
  qed
qed

lemma add_bytes_down_list: "add_bytes_down c v n = add_list c (be_bytes n v)"
  by (induction n) (simp_all add: be_bytes_Cons)

lemma negative_list: "sint (v :: u64) < 0 \<Longrightarrow> be_bytes (Suc (sign_start v 7)) v = der_int (sint v)"
proof (rule sign_start_value)
  assume neg: "sint v < 0"
  have s: "sint v = uint v - 2 ^ 64" "2 ^ 63 \<le> uint v"
    using neg uint_range(2) [of v] by (auto simp: sint_value split: if_splits)
  show "be_value (- 1) (be_bytes (Suc 7) v) = sint v"
    using be_value_be_bytes [of "- 1" 8 v] uint_range [of v] s(1) by simp
  show "128 \<le> uint (ucast (drop_bit (8 * 7) v) :: byte)"
    using byte_at [of 7 v] s(2) uint_range [of v] by simp
qed

interpretation wint64: value_writer CBB_add_asn1_int64 "\<lambda>v. der CBS_ASN1_INTEGER (der_int (sint v))" "\<lambda>_. True"
proof
  fix p c and v :: u64
  assume pc: "p \<noteq> (c :: nat)"
  show "writes 1 {c} p (CBB_add_asn1_int64 p c v)
      (if True then Some (der CBS_ASN1_INTEGER (der_int (sint v))) else None)"
  proof (cases "0 \<le> sint v")
    case True
    then have "sint v = uint v" using uint_range(2) [of v] by (auto simp: sint_value split: if_splits)
    with wuint64.adds [OF pc, of v] True show ?thesis by (simp add: CBB_add_asn1_int64_def)
  next
    case False
    then have "add_bytes_down c v (Suc (sign_start v 7)) = add_list c (der_int (sint v))"
      unfolding add_bytes_down_list by (subst negative_list) simp_all
    then show ?thesis
      using element_writes [OF der_int_writes pc, of "{}" "sint v" CBS_ASN1_INTEGER] short_content(2) [of v] False
      by (simp add: CBB_add_asn1_int64_def Let_def del: add_bytes_down.simps)
  qed
qed

section \<open>Octet strings and booleans\<close>

lemma octet_string_writes:
  assumes "length bs \<le> 0xFFFFFFFE" "p \<noteq> c"
  shows "writes 1 {c} p (CBB_add_asn1_octet_string p c bs) (Some (der CBS_ASN1_OCTETSTRING bs))"
  unfolding CBB_add_asn1_octet_string_def
  using element_writes [OF add_bytes_writes [of bs 1 "{}" c] assms(2)] assms(1) by simp

interpretation wbool: value_writer CBB_add_asn1_bool "\<lambda>v. der CBS_ASN1_BOOLEAN (der_bool v)" "\<lambda>_. True"
  using element_writer [of "\<lambda>c v. CBB_add_u8 c (if v then 0xFF else 0)" der_bool CBS_ASN1_BOOLEAN] u8_writes
  by (simp add: CBB_add_asn1_bool_def [abs_def] der_bool_def)

end
