(* ===== verification/CBB_Run.thy ===== *)
theory CBB_Run
  imports CBB_DER
begin

unbundle bit_operations_syntax

text \<open>
  Whole runs of a builder, from \<open>CBB_init\<close> to \<open>CBB_finish\<close>, and what the readers of
  \<open>bytestring/cbs.c\<close> make of the bytes: the interface \<open>codec\<close> joins a writer with a reader of the
  same encoding.
\<close>

section \<open>From init to finish\<close>

lemma init_cases:
  obtains "CBB_init base p cap h = Fail (CBB_zero p h)" "\<not> (\<forall>k. allocates h k)"
    | h' where "CBB_init base p cap h = Ok () h'" "0 < flush_depth h \<longrightarrow> builds h' base p 0 [] []"
      "\<not> is_child (cbbs h' p)" "flush_depth h' = flush_depth h" "allocates h' = allocates h"
      "bb_can_resize (buffers h' base)"
proof (cases "(cap = 0 \<or> allocates h cap) \<and> allocates h 32")
  case False
  then have "CBB_init base p cap h = Fail (CBB_zero p h)"
    by (auto simp: CBB_init_def CBB_zero_def cbb_init_def Let_def word_greater_zero_iff)
  with False that(1) show thesis by blast
next
  case True
  then show thesis
    using that(2) by (auto simp: CBB_init_def CBB_zero_def cbb_init_def Let_def word_greater_zero_iff builds_def
        buffer_ok_def bb_written_def)
qed

lemma take_length: "take (length ys) xs = ys \<Longrightarrow> length ys \<le> length xs"
proof -
  assume "take (length ys) xs = ys"
  then have "length (take (length ys) xs) = length ys" by simp
  then show "length ys \<le> length xs" unfolding length_take by simp
qed

lemma finish_cases:
  assumes builds: "builds h b p 0 bs ks" and top: "\<not> is_child (cbbs h p)"
  obtains buf len h' cs where "CBB_finish p True h = Ok (buf, len) h'" "closed ks = Some cs"
      "unat len = length (bs @ cs)" "length (bs @ cs) \<le> length buf" "take (length (bs @ cs)) buf = bs @ cs"
    | h' where "CBB_finish p True h = Fail h'" "\<And>cs. closed ks = Some cs \<Longrightarrow> \<not> roomy h b (length (bs @ cs))"
proof (cases "CBB_flush p h")
  case (Fail h1)
  then show thesis
    using that(2) flush_built [OF builds] top by (simp add: CBB_finish_def mthen_def mbind_def flushed_def)
next
  case (Ok u h1)
  then obtain cs where h1: "closed ks = Some cs" "builds h1 b p 0 (bs @ cs) []"
    using flush_built [OF builds] by (auto simp: flushed_def)
  have ok: "cbb_base (cbbs h1 p) = Some b" "buffer_ok (buffers h1 b)" "bb_written (buffers h1 b) = bs @ cs"
    using h1(2) by (simp_all add: builds_def)
  have "CBB_finish p True h = Ok (bb_buf (buffers h1 b), bb_len (buffers h1 b))
      (CBB_cleanup p (h1\<lparr>buffers := (buffers h1)(b := (buffers h1 b)\<lparr>bb_buf := []\<rparr>)\<rparr>))"
    using Ok ok(1) top by (simp add: CBB_finish_def mthen_def mbind_def Let_def)
  moreover have "unat (bb_len (buffers h1 b)) = length (bs @ cs)"
    using length_written [OF ok(2)] ok(3) by simp
  moreover from this have "take (length (bs @ cs)) (bb_buf (buffers h1 b)) = bs @ cs"
    using ok(3) by (simp add: bb_written_def)
  moreover from this have "length (bs @ cs) \<le> length (bb_buf (buffers h1 b))"
    by (rule take_length)
  ultimately show thesis using that(1) h1(1) by blast
qed (use flush_built [OF builds] in \<open>simp_all add: flushed_def\<close>)

text \<open>A whole run gives the bytes of the writer, or the allocator has refused, or they are too many.\<close>

definition cbb_run :: "nat \<Rightarrow> nat \<Rightarrow> u64 \<Rightarrow> unit builder \<Rightarrow> (byte list \<times> u64) builder" where
  "cbb_run base p cap w = mthen (CBB_init base p cap) (mthen w (CBB_finish p True))"

lemma run_writer:
  assumes w: "writes d C p w (Some xs)" and depth: "d < flush_depth h"
  shows "(case cbb_run base p cap w h of
      Ok (buf, len) h' \<Rightarrow> unat len = length xs \<and> length xs \<le> length buf \<and> take (length xs) buf = xs
    | Fail h' \<Rightarrow> \<not> (\<forall>k. allocates h k) \<or> 2 ^ 64 \<le> length xs
    | _ \<Rightarrow> False)"
proof (cases rule: init_cases [of base p cap h])
  case 1
  then show ?thesis by (simp add: cbb_run_def mthen_def mbind_def)
next
  case (2 h0)
  have builds: "builds h0 base p 0 [] []" using 2(2) depth by simp
  have room: "roomy h0 base (length xs)" if "\<forall>k. allocates h k" "length xs < 2 ^ 64"
    using that 2 by (simp add: roomy_def)
  have "d < flush_depth h0" using 2(4) depth by simp
  from writesD [OF w builds this] have wr: "built base p 0 C [] [] (Some xs) h0 (w h0)" .
  show ?thesis
  proof (cases "w h0")
    case (Ok u h1)
    with wr have h1: "builds h1 base p 0 xs []" "in_place p h0 h1" "keeps base 0 (insert p C) h0 h1"
      by (auto simp: built_def)
    have "\<not> is_child (cbbs h1 p)" using in_place_fields(5) [OF h1(2)] 2(3) by simp
    from h1(1) this show ?thesis
    proof (cases rule: finish_cases)
      case (1 buf len h' cs)
      then show ?thesis using 2(1) Ok by (simp add: cbb_run_def mthen_def mbind_def)
    next
      case f: (2 h')
      then show ?thesis
        using 2(1) Ok room keeps_roomy [OF h1(3)] by (force simp: cbb_run_def mthen_def mbind_def not_less)
    qed
  next
    case (Fail h1)
    then show ?thesis using wr 2(1) room by (force simp: built_def cbb_run_def mthen_def mbind_def not_less)
  qed (use wr in \<open>simp_all add: built_def\<close>)
qed

section \<open>A run with a result\<close>

lemma run_appends:
  assumes w: "appends d C p w r" and depth: "d < flush_depth h"
  shows "(case mthen (CBB_init b p cap) (mbind w (\<lambda>v. mbind (CBB_finish p True) (\<lambda>(buf, len). mreturn (g v buf len)))) h of
      Ok x h' \<Rightarrow> \<exists>ys v buf len. r = Some (ys, v) \<and> x = g v buf len \<and> unat len = length ys \<and> length ys \<le> length buf \<and>
        take (length ys) buf = ys
    | Fail h' \<Rightarrow> \<not> (\<forall>k. allocates h k) \<or> (\<forall>ys v. r = Some (ys, v) \<longrightarrow> 2 ^ 64 \<le> length ys)
    | _ \<Rightarrow> False)"
proof (cases rule: init_cases [of b p cap h])
  case 1
  then show ?thesis by (simp add: mthen_def mbind_def)
next
  case (2 h0)
  have builds: "builds h0 b p 0 [] []" using 2(2) depth by simp
  have room: "roomy h0 b (length xs)" if "\<forall>k. allocates h k" "length xs < 2 ^ 64" for xs :: "byte list"
    using that 2 by (simp add: roomy_def)
  have "d < flush_depth h0" using 2(4) depth by simp
  from appendsD [OF w builds this] have wr: "yields b p 0 C [] [] r h0 (w h0)" .
  show ?thesis
  proof (cases "w h0")
    case (Ok v h1)
    with wr obtain xs where h1: "r = Some (xs, v)" "builds h1 b p 0 xs []" "in_place p h0 h1" "keeps b 0 (insert p C) h0 h1"
      by (auto simp: yields_def built_def)
    have "\<not> is_child (cbbs h1 p)" using in_place_fields(5) [OF h1(3)] 2(3) by simp
    from h1(2) this show ?thesis
    proof (cases rule: finish_cases)
      case (1 buf len h' cs)
      then show ?thesis using 2(1) Ok h1(1) by (auto simp: mthen_def mbind_def)
    next
      case f: (2 h')
      then show ?thesis
        using 2(1) Ok h1(1) room keeps_roomy [OF h1(4)] by (force simp: mthen_def mbind_def not_less)
    qed
  next
    case (Fail h1)
    then show ?thesis using wr 2(1) room by (force simp: yields_def built_def mthen_def mbind_def not_less)
  qed (use wr in \<open>simp_all add: yields_def built_def\<close>)
qed

section \<open>Reading back\<close>

lemma cbs_bytes_list_mem:
  assumes "unat len \<le> length buf"
  shows "cbs_bytes (list_mem buf) (CBS_init 0 len) = take (unat len) buf"
proof (rule nth_equalityI)
  fix i assume "i < length (cbs_bytes (list_mem buf) (CBS_init 0 len))"
  then have i: "i < unat len" "i < length buf" "i < 2 ^ 64"
    using assms unat_less64 [of len] by (simp_all add: CBS_init_def)
  then show "cbs_bytes (list_mem buf) (CBS_init 0 len) ! i = take (unat len) buf ! i"
    by (simp add: cbs_bytes_def CBS_init_def list_mem_def unat_of_nat_addr)
qed (use assms in \<open>simp add: CBS_init_def\<close>)

text \<open>The bytes of a run that the allocator serves.\<close>

lemma run_bytes:
  assumes "writes d C p w (Some xs)" "d < flush_depth h" "\<forall>k. allocates h k" "length xs < 2 ^ 64"
  shows "\<exists>buf len h'. cbb_run b p cap w h = Ok (buf, len) h' \<and> cbs_bytes (list_mem buf) (CBS_init 0 len) = xs \<and>
    unat len = length xs"
  using run_writer [OF assms(1,2), of b cap] assms(3,4)
  by (cases "cbb_run b p cap w h") (auto simp: cbs_bytes_list_mem)

lemma length_base128: "n < 2 ^ 64 \<Longrightarrow> length (base128 n) \<le> 11"
proof -
  have front: "n < 128 ^ k \<Longrightarrow> length (base128_front n) \<le> k" for n k
  proof (induction k arbitrary: n)
    case (Suc k)
    have "n div 128 < 128 ^ k" using Suc.prems by (simp add: less_mult_imp_div_less mult.commute)
    from Suc.IH [OF this] show ?case by (subst base128_front.simps) simp
  qed (simp add: base128_front.simps)
  assume "n < 2 ^ 64"
  then have "n div 128 < 128 ^ 10" by simp
  from front [OF this] show ?thesis by (simp add: base128_def)
qed

lemma length_der: "length body \<le> 0xFFFFFFFE \<Longrightarrow> length (der t body) < 2 ^ 64"
proof -
  assume body: "length body \<le> 0xFFFFFFFE"
  have "unat (tag_number t) < 2 ^ 64" using unat_less32 [of "tag_number t"] by simp
  then have "length (der_tag t) \<le> 12" using length_base128 [of "unat (tag_number t)"] by (simp add: der_tag_def)
  moreover have "length (der_length (length body)) \<le> 5"
    using extra_le [of "length body"] body by (simp add: der_length_extra)
  ultimately show ?thesis using body by (simp add: der_def der_header_def)
qed

locale codec = value_writer add code valid + value_reader f code valid
  for add :: "nat \<Rightarrow> nat \<Rightarrow> 'a \<Rightarrow> unit builder" and code :: "'a \<Rightarrow> byte list" and valid :: "'a \<Rightarrow> bool"
    and f :: "mem \<Rightarrow> 'a reader"
begin

text \<open>A value that is added, alone in its buffer, is what the reader finds there.\<close>

lemma round_trip:
  assumes "cbb_run base p cap (add p c v) h = Ok (buf, len) h'"
    "valid v" "p \<noteq> c" "1 < flush_depth h"
  shows "f (list_mem buf) (CBS_init 0 len) = Ok v (CBS_init len 0)"
proof -
  have "writes 1 {c} p (add p c v) (Some (code v))" using adds [OF assms(3), of v] assms(2) by simp
  from run_writer [OF this assms(4), of base cap] assms(1)
  have len: "unat len = length (code v)" "length (code v) \<le> length buf" "take (length (code v)) buf = code v" by simp_all
  then have "cbs_bytes (list_mem buf) (CBS_init 0 len) = code v @ []" by (simp add: cbs_bytes_list_mem)
  from read_back [OF assms(2) this]
  have "f (list_mem buf) (CBS_init 0 len) = Ok v (cbs_drop (length (code v)) (CBS_init 0 len))" .
  moreover have "of_nat (length (code v)) = len" using len(1) by (metis of_nat_unat ucast_id)
  ultimately show ?thesis by (simp add: cbs_drop_def CBS_init_def)
qed

lemma run_back:
  assumes "p \<noteq> c" "1 < flush_depth h" "\<forall>k. allocates h k" "valid v" "length (code v) < 2 ^ 64"
  shows "\<exists>buf len h'. cbb_run b p cap (add p c v) h = Ok (buf, len) h' \<and>
    f (list_mem buf) (CBS_init 0 len) = Ok v (CBS_init len 0)"
proof -
  have "writes 1 {c} p (add p c v) (Some (code v))" using adds [OF assms(1), of v] assms(4) by simp
  from run_bytes [OF this assms(2,3,5)] obtain buf len h' where "cbb_run b p cap (add p c v) h = Ok (buf, len) h'" by blast
  with round_trip [of b p cap c v h buf len h'] assms show ?thesis by auto
qed

text \<open>A value that has no encoding is refused, whatever the allocator does.\<close>

lemma refused:
  assumes "builds h b p s bs ks" "1 < flush_depth h" "p \<noteq> c" "\<not> valid v"
  shows "\<exists>h'. add p c v h = Fail h'"
  using writesD [OF adds [OF assms(3), of v] assms(1,2)] assms(4)
  by (cases "add p c v h") (auto simp: built_def)

end

interpretation c8: codec "\<lambda>p _. CBB_add_u8 p" "\<lambda>v. [v]" "\<lambda>_. True" CBS_get_u8 ..
interpretation c16: codec "\<lambda>p _. CBB_add_u16 p" "be_bytes 2" "\<lambda>_. True" CBS_get_u16 ..
interpretation c24: codec "\<lambda>p _. CBB_add_u24 p" "be_bytes 3" "\<lambda>v. unat v < 2 ^ 24" CBS_get_u24 ..
interpretation c32: codec "\<lambda>p _. CBB_add_u32 p" "be_bytes 4" "\<lambda>_. True" CBS_get_u32 ..
interpretation c64: codec "\<lambda>p _. CBB_add_u64 p" "be_bytes 8" "\<lambda>_. True" CBS_get_u64 ..
interpretation c16le: codec "\<lambda>p _. CBB_add_u16le p" "word_le_bytes 2" "\<lambda>_. True" CBS_get_u16le ..
interpretation c32le: codec "\<lambda>p _. CBB_add_u32le p" "word_le_bytes 4" "\<lambda>_. True" CBS_get_u32le ..
interpretation c64le: codec "\<lambda>p _. CBB_add_u64le p" "word_le_bytes 8" "\<lambda>_. True" CBS_get_u64le ..
interpretation cbase128: codec "\<lambda>p _. add_base128_integer p" "\<lambda>v. base128 (unat v)" "\<lambda>_. True" parse_base128_integer ..
interpretation cuint64: codec CBB_add_asn1_uint64 "\<lambda>v. der CBS_ASN1_INTEGER (der_int (uint v))" "\<lambda>_. True"
  CBS_get_asn1_uint64 ..
interpretation cint64: codec CBB_add_asn1_int64 "\<lambda>v. der CBS_ASN1_INTEGER (der_int (sint v))" "\<lambda>_. True"
  CBS_get_asn1_int64 ..
interpretation cbool: codec CBB_add_asn1_bool "\<lambda>v. der CBS_ASN1_BOOLEAN (der_bool v)" "\<lambda>_. True" CBS_get_asn1_bool ..

end
