(* ===== verification/OID.thy ===== *)
theory OID
  imports CBB_Run
begin

unbundle bit_operations_syntax

text \<open>
  Object identifiers in \<open>bytestring/cbb.c\<close> and \<open>bytestring/cbs.c\<close>: the dotted text to the content of
  the DER element and back. The first two numbers share one base-128 number, \<open>40 * a + b\<close>.
\<close>

section \<open>From text\<close>

text \<open>One decimal component and its dot. A text that ends in a dot is refused.\<close>

function dotted_loop :: "mem \<Rightarrow> u64 \<Rightarrow> bool \<Rightarrow> u64 reader" where
  "dotted_loop m out seen_digit c =
     (case CBS_get_u8 m c of
        Ok u c' \<Rightarrow>
          if u = 0x2E \<and> 0 < CBS_len c' then (if seen_digit then Ok out c' else Fail c')
          else if u < 0x30 \<or> 0x39 < u \<or> seen_digit \<and> out = 0 \<or> 0xFFFFFFFFFFFFFFFF div 10 < out \<or>
                  0xFFFFFFFFFFFFFFFF - ucast (u - 0x30) < out * 10 then Fail c'
          else dotted_loop m (out * 10 + ucast (u - 0x30)) True c'
      | Fail c' \<Rightarrow> (if seen_digit then Ok out c' else Fail c')
      | Undef \<Rightarrow> Undef
      | Fuel \<Rightarrow> Fuel)"
  by pat_completeness auto
termination
proof (relation "measure (\<lambda>(m, out, seen_digit, c). unat (cbs_len c))")
  fix m out seen_digit c u c'
  assume "CBS_get_u8 m c = Ok u c'"
  then show "((m, out * 10 + ucast (u - 0x30), True, c'), m, out, seen_digit, c)
      \<in> measure (\<lambda>(m, out, seen_digit, c). unat (cbs_len c))"
    using takes_len [of m c "[u]" c'] by (auto simp: u8.reads)
qed simp

declare dotted_loop.simps [simp del]

definition parse_dotted_decimal :: "mem \<Rightarrow> u64 reader" where
  "parse_dotted_decimal m = dotted_loop m 0 False"

lemma get_u8_shorter: "CBS_get_u8 m c = Ok u c' \<Longrightarrow> unat (cbs_len c') < unat (cbs_len c)"
  using takes_len [of m c "[u]" c'] by (auto simp: u8.reads)

lemma get_u8_Fail: "CBS_get_u8 m c = Fail c' \<Longrightarrow> cbs_len c = 0 \<and> c' = c"
  by (auto simp: CBS_get_u8_def mbind_def cbs_get_def word_less_1 split: if_splits)

lemma dotted_shorter:
  "dotted_loop m out seen c = Ok v c' \<Longrightarrow> cbs_len c \<noteq> 0 \<Longrightarrow> unat (cbs_len c') < unat (cbs_len c)"
proof (induction m out seen c rule: dotted_loop.induct)
  case (1 m out seen c)
  note run = 1(2) [unfolded dotted_loop.simps [of m out seen c]]
  show ?case
  proof (cases "CBS_get_u8 m c")
    case (Ok u c1)
    note step = 1(1) [OF Ok]
    have stop: "unat (cbs_len c') < unat (cbs_len c)" if "dotted_loop m out' True c1 = Ok v c'" "cbs_len c1 = 0" for out'
    proof -
      have "\<exists>c2. CBS_get_u8 m c1 = Fail c2"
        using that(2) by (simp add: CBS_get_u8_def mbind_def cbs_get_def)
      then have "c' = c1"
        using that(1) get_u8_Fail by (auto simp: dotted_loop.simps [of m out' True c1])
      then show ?thesis using get_u8_shorter [OF Ok] by simp
    qed
    show ?thesis
      using run Ok step stop get_u8_shorter [OF Ok]
      by (cases "cbs_len c1 = 0") (auto split: if_splits)
  qed (use run 1(3) get_u8_Fail in \<open>auto\<close>)
qed

text \<open>The loop over the remaining components.\<close>

function add_components :: "mem \<Rightarrow> nat \<Rightarrow> cbs \<Rightarrow> unit builder" where
  "add_components m p c =
     (if CBS_len c = 0 then mreturn ()
      else case parse_dotted_decimal m c of
        Ok a c' \<Rightarrow> mthen (add_base128_integer p a) (add_components m p c')
      | _ \<Rightarrow> Fail)"
  by pat_completeness auto
termination
  by (relation "measure (\<lambda>(m, p, c). unat (cbs_len c))")
    (auto simp: parse_dotted_decimal_def CBS_len_def intro: dotted_shorter)

declare add_components.simps [simp del]

definition CBB_add_asn1_oid_from_text :: "mem \<Rightarrow> nat \<Rightarrow> addr \<Rightarrow> u64 \<Rightarrow> unit builder" where
  "CBB_add_asn1_oid_from_text m p txt len =
     mthen (CBB_flush p)
       (case parse_dotted_decimal m (CBS_init txt len) of
          Ok a c \<Rightarrow>
            (case parse_dotted_decimal m c of
               Ok b c \<Rightarrow>
                 if 2 < a \<or> a < 2 \<and> 39 < b \<or> 0xFFFFFFFFFFFFFFFF - 80 < b then Fail
                 else mthen (add_base128_integer p (40 * a + b)) (add_components m p c)
             | _ \<Rightarrow> Fail)
        | _ \<Rightarrow> Fail)"

section \<open>To text\<close>

text \<open>The digits that \<open>BIO_snprintf\<close> prints for \<open>PRIu64\<close>.\<close>

fun decimal :: "nat \<Rightarrow> byte list" where
  "decimal n = (if n < 10 then [of_nat (48 + n)] else decimal (n div 10) @ [of_nat (48 + n mod 10)])"

declare decimal.simps [simp del]

definition add_decimal :: "nat \<Rightarrow> u64 \<Rightarrow> unit builder" where
  "add_decimal p v = CBB_add_bytes p (decimal (unat v))"

lemma base128_shorter: "parse_base128_integer m c = Ok v c' \<Longrightarrow> unat (cbs_len c') < unat (cbs_len c)"
  using takes_len [of m c "base128 (unat v)" c'] by (auto simp: base128.reads base128_def)

function text_components :: "mem \<Rightarrow> nat \<Rightarrow> cbs \<Rightarrow> unit builder" where
  "text_components m p c =
     (if CBS_len c = 0 then mreturn ()
      else case parse_base128_integer m c of
        Ok v c' \<Rightarrow> mthen (CBB_add_u8 p 0x2E) (mthen (add_decimal p v) (text_components m p c'))
      | _ \<Rightarrow> Fail)"
  by pat_completeness auto
termination
  by (relation "measure (\<lambda>(m, p, c). unat (cbs_len c))") (auto intro: base128_shorter)

declare text_components.simps [simp del]

text \<open>The \<open>CBB\<close> of the function and its buffer occupy the cells \<open>p\<close> and \<open>base\<close>. The result is the
  block that is returned and its length, with the zero that ends the text; \<open>Fail\<close> is \<open>NULL\<close>.\<close>

definition CBS_asn1_oid_to_text :: "mem \<Rightarrow> nat \<Rightarrow> nat \<Rightarrow> cbs \<Rightarrow> (byte list \<times> u64) builder" where
  "CBS_asn1_oid_to_text m base p c h =
     (let body =
        (case parse_base128_integer m c of
           Ok v c' \<Rightarrow>
             mthen (if 80 \<le> v then mthen (CBB_add_bytes p [0x32, 0x2E]) (add_decimal p (v - 80))
                    else mthen (add_decimal p (v div 40)) (mthen (CBB_add_u8 p 0x2E) (add_decimal p (v mod 40))))
               (text_components m p c')
         | _ \<Rightarrow> Fail)
      in case mthen (CBB_init base p 32) (mthen body (mthen (CBB_add_u8 p 0) (CBB_finish p True))) h of
           Fail h \<Rightarrow> Fail (CBB_cleanup p h)
         | r \<Rightarrow> r)"

section \<open>Numbers and their texts\<close>

lemma unat_digit: "n < 10 \<Longrightarrow> unat (of_nat (48 + n) :: byte) = 48 + n"
  by (simp add: byte_nat del: of_nat_add)

lemma dotted_step:
  assumes "cbs_bytes m c = of_nat (48 + d) # ws" "d < 10" "seen \<longrightarrow> 0 < n" "10 * n + d < 2 ^ 64"
  shows "dotted_loop m (of_nat n) seen c = dotted_loop m (of_nat (10 * n + d)) True (cbs_drop 1 c)"
proof -
  let ?u = "of_nat (48 + d) :: byte"
  have u: "unat ?u = 48 + d" using unat_digit [OF assms(2)] .
  have get: "CBS_get_u8 m c = Ok ?u (cbs_drop 1 c)"
    unfolding get_u8_bytes assms(1) by simp
  have n: "unat (of_nat n :: u64) = n" "n \<le> 0xFFFFFFFFFFFFFFFF div 10"
    using assms(4) by (simp_all add: unat_of_nat_addr)
  have digit: "\<not> (?u = 0x2E \<or> ?u < 0x30 \<or> 0x39 < ?u)"
    using u assms(2) by (auto simp: word_less_nat_alt word_unat_eq_iff)
  have d: "ucast (?u - 0x30) = (of_nat d :: u64)"
  proof -
    have "?u - 0x30 = (of_nat d :: byte)" by simp
    then show ?thesis using assms(2) small_byte(3) [of d] by simp
  qed
  have "(of_nat n :: u64) * 10 = of_nat (10 * n)" by simp
  then have "unat ((of_nat n :: u64) * 10) = 10 * n"
    using assms(4) by (simp add: unat_of_nat_addr del: of_nat_mult)
  moreover have "unat (0xFFFFFFFFFFFFFFFF - (of_nat d :: u64)) = 0xFFFFFFFFFFFFFFFF - d"
    using assms(2) by (subst unat_sub) (simp_all add: word_le_nat_alt unat_of_nat_addr)
  moreover have "\<not> (0xFFFFFFFFFFFFFFFF div 10 < (of_nat n :: u64))"
    using n by (simp add: word_less_nat_alt)
  moreover have "seen \<longrightarrow> (of_nat n :: u64) \<noteq> 0"
    using n(1) assms(3) by (metis less_irrefl unat_0)
  ultimately have ok: "\<not> (seen \<and> (of_nat n :: u64) = 0 \<or> 0xFFFFFFFFFFFFFFFF div 10 < (of_nat n :: u64) \<or>
      0xFFFFFFFFFFFFFFFF - (of_nat d :: u64) < of_nat n * 10)"
    using assms(4) by (simp add: word_less_nat_alt)
  have "(?u = 0x2E \<and> 0 < CBS_len (cbs_drop 1 c)) = False"
    "(?u < 0x30 \<or> 0x39 < ?u \<or> seen \<and> (of_nat n :: u64) = 0 \<or> 0xFFFFFFFFFFFFFFFF div 10 < (of_nat n :: u64) \<or>
      0xFFFFFFFFFFFFFFFF - of_nat d < (of_nat n :: u64) * 10) = False"
    using digit ok by blast+
  then have "dotted_loop m (of_nat n) seen c = dotted_loop m (of_nat n * 10 + of_nat d) True (cbs_drop 1 c)"
    by (simp only: dotted_loop.simps [of m "of_nat n" seen c] get outcome.case d if_False)
  then show ?thesis by (simp add: mult.commute)
qed

lemma dotted_digits:
  "n < 2 ^ 64 \<Longrightarrow> cbs_bytes m c = decimal n @ ws \<Longrightarrow>
   dotted_loop m 0 False c = dotted_loop m (of_nat n) True (cbs_drop (length (decimal n)) c)"
proof (induction n arbitrary: ws rule: decimal.induct)
  case (1 n)
  show ?case
  proof (cases "n < 10")
    case True
    then have "decimal n = [of_nat (48 + n)]" by (simp add: decimal.simps)
    with 1(3) dotted_step [of m c n ws False 0] True show ?thesis by simp
  next
    case False
    let ?q = "n div 10"
    have eq: "decimal n = decimal ?q @ [of_nat (48 + n mod 10)]" using False by (subst decimal.simps) simp
    let ?c = "cbs_drop (length (decimal ?q)) c"
    have front: "cbs_bytes m c = decimal ?q @ of_nat (48 + n mod 10) # ws" using 1(3) eq by simp
    then have rest: "cbs_bytes m ?c = of_nat (48 + n mod 10) # ws"
      using takes_bytes [OF takes_front [OF front]] by simp
    have "?q < 2 ^ 64" using 1(2) by simp
    from 1(1) [OF False this front]
    have "dotted_loop m 0 False c = dotted_loop m (of_nat ?q) True ?c" .
    also have "\<dots> = dotted_loop m (of_nat n) True (cbs_drop 1 ?c)"
      using dotted_step [OF rest, of True ?q] 1(2) False by simp
    finally show ?thesis unfolding eq by (simp add: cbs_drop_drop)
  qed
qed

lemma CBS_len_bytes: "CBS_len c = 0 \<longleftrightarrow> cbs_bytes m c = []"
  using length_cbs_bytes [of m c] by (auto simp: CBS_len_def unat_eq_0 simp del: length_cbs_bytes)

text \<open>A component with its dot, and the last one.\<close>

lemma dotted_dot:
  assumes "n < 2 ^ 64" "cbs_bytes m c = decimal n @ 0x2E # ws" "ws \<noteq> []"
  shows "parse_dotted_decimal m c = Ok (of_nat n) (cbs_drop (length (decimal n) + 1) c)"
proof -
  let ?c = "cbs_drop (length (decimal n)) c"
  have rest: "cbs_bytes m ?c = 0x2E # ws" using takes_bytes [OF takes_front [OF assms(2)]] assms(2) by simp
  then have "CBS_get_u8 m ?c = Ok 0x2E (cbs_drop 1 ?c)" "cbs_bytes m (cbs_drop 1 ?c) = ws"
    using cbs_bytes_tl [OF rest] by (simp_all add: get_u8_bytes)
  moreover from this(2) assms(3) have "0 < CBS_len (cbs_drop 1 ?c)"
    by (simp add: CBS_len_bytes [of _ m] word_greater_zero_iff)
  ultimately show ?thesis
    using dotted_digits [OF assms(1,2)] by (simp add: parse_dotted_decimal_def dotted_loop.simps cbs_drop_drop)
qed

lemma dotted_end:
  assumes "n < 2 ^ 64" "cbs_bytes m c = decimal n"
  shows "parse_dotted_decimal m c = Ok (of_nat n) (cbs_drop (length (decimal n)) c)"
proof -
  have all: "cbs_bytes m c = decimal n @ []" using assms(2) by simp
  have "cbs_bytes m (cbs_drop (length (decimal n)) c) = []" using takes_bytes [OF takes_front [OF all]] all by simp
  then show ?thesis
    using dotted_digits [OF assms(1) all] by (simp add: parse_dotted_decimal_def dotted_loop.simps get_u8_bytes)
qed

text \<open>The texts and the contents of the components.\<close>

fun dotted :: "nat list \<Rightarrow> byte list" where
  "dotted [] = []"
| "dotted [n] = decimal n"
| "dotted (n # ns) = decimal n @ 0x2E # dotted ns"

definition oid_valid :: "nat \<Rightarrow> nat \<Rightarrow> nat list \<Rightarrow> bool" where
  "oid_valid a b ns \<longleftrightarrow> a \<le> 2 \<and> (a < 2 \<longrightarrow> b \<le> 39) \<and> b < 2 ^ 64 - 80 \<and> (\<forall>n\<in>set ns. n < 2 ^ 64)"

definition oid_content :: "nat \<Rightarrow> nat \<Rightarrow> nat list \<Rightarrow> byte list" where
  "oid_content a b ns = base128 (40 * a + b) @ concat (map base128 ns)"

lemma decimal_ne: "decimal n \<noteq> []"
  by (simp add: decimal.simps)

lemma dotted_ne: "ns \<noteq> [] \<Longrightarrow> dotted ns \<noteq> []"
  by (cases ns rule: dotted.cases) (simp_all add: decimal_ne)

lemma add_list_append: "xs \<noteq> [] \<Longrightarrow> add_list p (xs @ ys) = mthen (add_list p xs) (add_list p ys)"
  by (induction xs) (simp_all add: mthen_assoc mthen_unit, metis add_list_simps(1) append_Nil mthen_return mthen_unit)

lemma dotted_Cons: "dotted (n # ns) = decimal n @ concat (map (\<lambda>k. 0x2E # decimal k) ns)"
  by (induction ns arbitrary: n) simp_all

lemma parse_next:
  assumes "cbs_bytes m c = dotted (n # ns)" "n < 2 ^ 64"
  shows "\<exists>c'. parse_dotted_decimal m c = Ok (of_nat n) c' \<and> cbs_bytes m c' = dotted ns"
proof (cases ns)
  case Nil
  then have all: "cbs_bytes m c = decimal n @ []" using assms(1) by simp
  then have "cbs_bytes m (cbs_drop (length (decimal n)) c) = []" using takes_bytes [OF takes_front [OF all]] by simp
  then show ?thesis using dotted_end [OF assms(2), of m c] all Nil by simp
next
  case (Cons k ks)
  have bytes: "cbs_bytes m c = (decimal n @ [0x2E]) @ dotted ns" using assms(1) Cons by simp
  then have "cbs_bytes m (cbs_drop (length (decimal n @ [0x2E])) c) = dotted ns"
    using takes_bytes [OF takes_front [OF bytes]] by simp
  then show ?thesis using dotted_dot [OF assms(2), of m c "dotted ns"] bytes dotted_ne [of ns] Cons by simp
qed

lemma add_base128_nat: "n < 2 ^ 64 \<Longrightarrow> add_base128_integer p (of_nat n) = add_list p (base128 n)"
  by (simp add: add_base128_list unat_of_nat_addr)

lemma base128_ne: "base128 n \<noteq> []"
  by (simp add: base128_def)

lemma add_components_list:
  "cbs_bytes m c = dotted ns \<Longrightarrow> \<forall>n\<in>set ns. n < 2 ^ 64 \<Longrightarrow>
   add_components m p c = add_list p (concat (map base128 ns))"
proof (induction ns arbitrary: c)
  case Nil
  then have "CBS_len c = 0" by (simp add: CBS_len_bytes [of _ m])
  then show ?case by (subst add_components.simps) simp
next
  case (Cons n ns)
  obtain c' where c': "parse_dotted_decimal m c = Ok (of_nat n) c'" "cbs_bytes m c' = dotted ns"
    using parse_next [OF Cons.prems(1)] Cons.prems(2) by auto
  have "CBS_len c \<noteq> 0" using Cons.prems(1) dotted_ne [of "n # ns"] by (simp add: CBS_len_bytes [of _ m])
  then have "add_components m p c = mthen (add_base128_integer p (of_nat n)) (add_components m p c')"
    using c'(1) by (subst add_components.simps) simp
  then show ?case
    using Cons.IH [OF c'(2)] Cons.prems(2) by (simp add: add_base128_nat add_list_append base128_ne)
qed

lemma oid_from_text_writes:
  assumes valid: "oid_valid a b ns" and str: "cbs_bytes m (CBS_init txt len) = dotted (a # b # ns)"
  shows "writes d C p (CBB_add_asn1_oid_from_text m p txt len) (Some (oid_content a b ns))"
proof -
  have ab: "a < 2 ^ 64" "b < 2 ^ 64" "40 * a + b < 2 ^ 64" "\<forall>n\<in>set ns. n < 2 ^ 64"
    using valid by (auto simp: oid_valid_def)
  obtain c1 where c1: "parse_dotted_decimal m (CBS_init txt len) = Ok (of_nat a) c1" "cbs_bytes m c1 = dotted (b # ns)"
    using parse_next [OF str ab(1)] by blast
  obtain c2 where c2: "parse_dotted_decimal m c1 = Ok (of_nat b) c2" "cbs_bytes m c2 = dotted ns"
    using parse_next [OF c1(2) ab(2)] by blast
  have range: "(2 < (of_nat a :: u64) \<or> (of_nat a :: u64) < 2 \<and> 39 < (of_nat b :: u64) \<or> 0xFFFFFFFFFFFFFFFF - 80 < (of_nat b :: u64)) = False"
    using valid ab by (auto simp: oid_valid_def word_less_nat_alt unat_of_nat_addr)
  have sum: "(40 * of_nat a + of_nat b :: u64) = of_nat (40 * a + b)" by simp
  have "CBB_add_asn1_oid_from_text m p txt len = mthen (CBB_flush p) (add_list p (oid_content a b ns))"
    by (simp only: CBB_add_asn1_oid_from_text_def c1(1) c2(1) outcome.case range if_False sum add_base128_nat [OF ab(3)]
        add_components_list [OF c2(2) ab(4)] oid_content_def add_list_append [OF base128_ne])
  moreover have "oid_content a b ns \<noteq> []" by (simp add: oid_content_def base128_ne)
  ultimately show ?thesis
    using writes_then [OF writes_flush list_writes] by fastforce
qed

lemma decimal_short: "n < 10 ^ k \<Longrightarrow> 0 < k \<Longrightarrow> length (decimal n) \<le> k"
proof (induction k arbitrary: n)
  case (Suc k)
  show ?case
  proof (cases "n < 10")
    case False
    then have k: "0 < k" using Suc.prems by (cases k) simp_all
    have "n div 10 < 10 ^ k" using Suc.prems by (simp add: less_mult_imp_div_less mult.commute)
    from Suc.IH [OF this k] show ?thesis using False by (subst decimal.simps) simp
  qed (simp add: decimal.simps)
qed simp

lemma decimal_writes: "n < 2 ^ 64 \<Longrightarrow> writes d C p (add_decimal p (of_nat n)) (Some (decimal n))"
proof -
  assume n: "n < 2 ^ 64"
  then have "length (decimal n) \<le> 20" by (intro decimal_short) simp_all
  then show ?thesis using n by (simp add: add_decimal_def unat_of_nat_addr add_bytes_writes)
qed

lemma text_components_writes:
  "writes d C p w (Some xs) \<Longrightarrow> cbs_bytes m c = concat (map base128 ns) \<Longrightarrow> \<forall>n\<in>set ns. n < 2 ^ 64 \<Longrightarrow>
   writes d C p (mthen w (text_components m p c)) (Some (xs @ concat (map (\<lambda>n. 0x2E # decimal n) ns)))"
proof (induction ns arbitrary: w xs c)
  case Nil
  then have "CBS_len c = 0" by (simp add: CBS_len_bytes [of _ m])
  then have "text_components m p c = mreturn ()" by (subst text_components.simps) simp
  then show ?case using Nil.prems(1) by (simp add: mthen_return)
next
  case (Cons n ns)
  have n: "n < 2 ^ 64" "unat (of_nat n :: u64) = n" using Cons.prems(3) by (simp_all add: unat_of_nat_addr)
  have bytes: "cbs_bytes m c = base128 n @ concat (map base128 ns)" using Cons.prems(2) by simp
  let ?c = "cbs_drop (length (base128 n)) c"
  have parse: "parse_base128_integer m c = Ok (of_nat n) ?c"
    using base128.read_back [where v = "of_nat n" and m = m and c = c] bytes n(2) by simp
  have rest: "cbs_bytes m ?c = concat (map base128 ns)"
    using takes_bytes [OF takes_front [OF bytes]] bytes by simp
  have "CBS_len c \<noteq> 0" using bytes by (simp add: CBS_len_bytes [of _ m] base128_ne)
  then have eq: "text_components m p c = mthen (CBB_add_u8 p 0x2E) (mthen (add_decimal p (of_nat n)) (text_components m p ?c))"
    using parse by (subst text_components.simps) simp
  have "writes d C p (mthen w (mthen (CBB_add_u8 p 0x2E) (add_decimal p (of_nat n)))) (Some (xs @ 0x2E # decimal n))"
    using writes_then [OF Cons.prems(1) writes_then [OF u8_writes decimal_writes [OF n(1)]], of "0x2E"] by simp
  from Cons.IH [OF this rest] Cons.prems(3) show ?case by (simp add: eq mthen_assoc)
qed

definition oid_head :: "nat \<Rightarrow> u64 \<Rightarrow> unit builder" where
  "oid_head p v =
     (if 80 \<le> v then mthen (CBB_add_bytes p [0x32, 0x2E]) (add_decimal p (v - 80))
      else mthen (add_decimal p (v div 40)) (mthen (CBB_add_u8 p 0x2E) (add_decimal p (v mod 40))))"

lemma oid_head_writes:
  assumes "oid_valid a b ns"
  shows "writes d C p (oid_head p (of_nat (40 * a + b))) (Some (decimal a @ 0x2E # decimal b))"
proof (cases "a = 2")
  case True
  have "80 \<le> (of_nat (80 + b) :: u64)"
    using assms by (simp add: word_le_nat_alt unat_of_nat_addr oid_valid_def del: of_nat_add)
  moreover have "decimal 2 = [0x32]" by (simp add: decimal.simps)
  moreover have "b < 2 ^ 64" using assms by (simp add: oid_valid_def)
  note writes_then [OF add_bytes_writes decimal_writes [OF this], of "[0x32, 0x2E]" d C p]
  ultimately show ?thesis using True by (simp add: oid_head_def)
next
  case False
  then have ab: "a < 2" "b < 40" using assms by (auto simp: oid_valid_def)
  let ?v = "of_nat (40 * a + b) :: u64"
  have v: "unat ?v = 40 * a + b" using ab by (simp add: unat_of_nat_addr del: of_nat_add of_nat_mult)
  have "unat (?v div 40) = a" "unat (?v mod 40) = b" using v ab by (simp_all add: unat_div unat_mod)
  then have d: "?v div 40 = of_nat a" "?v mod 40 = of_nat b" by (metis of_nat_unat ucast_id)+
  have "\<not> 80 \<le> ?v" using v ab by (simp add: word_le_nat_alt)
  moreover have "writes d C p (mthen (add_decimal p (of_nat a)) (mthen (CBB_add_u8 p 0x2E) (add_decimal p (of_nat b))))
      (Some (decimal a @ 0x2E # decimal b))"
    using writes_then [OF decimal_writes [of a d C p] writes_then [OF u8_writes decimal_writes [of b d C p]], of "0x2E"] ab by simp
  ultimately show ?thesis unfolding oid_head_def d by simp
qed

text \<open>The text of a content, with the zero that ends it, or the allocator has refused.\<close>

lemma oid_to_text_run:
  assumes valid: "oid_valid a b ns" and content: "cbs_bytes m c = oid_content a b ns" and depth: "0 < flush_depth h"
  shows "(case CBS_asn1_oid_to_text m base p c h of
      Ok (buf, len) h' \<Rightarrow> take (unat len) buf = dotted (a # b # ns) @ [0]
    | Fail h' \<Rightarrow> \<not> (\<forall>k. allocates h k) \<or> 2 ^ 64 \<le> length (dotted (a # b # ns) @ [0])
    | _ \<Rightarrow> False)"
proof -
  let ?n = "40 * a + b"
  have n: "?n < 2 ^ 64" "unat (of_nat ?n :: u64) = ?n" "\<forall>n\<in>set ns. n < 2 ^ 64"
    using valid by (auto simp: oid_valid_def unat_of_nat_addr simp del: of_nat_add of_nat_mult)
  let ?c = "cbs_drop (length (base128 ?n)) c"
  have bytes: "cbs_bytes m c = base128 ?n @ concat (map base128 ns)" using content by (simp add: oid_content_def)
  have parse: "parse_base128_integer m c = Ok (of_nat ?n) ?c"
    using base128.read_back [where v = "of_nat ?n" and m = m and c = c] bytes n(2) by simp
  have rest: "cbs_bytes m ?c = concat (map base128 ns)"
    using takes_bytes [OF takes_front [OF bytes]] bytes by simp
  have "writes 0 {} p (mthen (mthen (oid_head p (of_nat ?n)) (text_components m p ?c)) (CBB_add_u8 p 0))
      (Some (dotted (a # b # ns) @ [0]))"
    using writes_then [OF text_components_writes [OF oid_head_writes [OF valid] rest n(3)] u8_writes, of 0 "{}" p 0]
    by (simp add: dotted_Cons)
  from run_writer [OF this depth, of base 32]
  have run: "(case mthen (CBB_init base p 32) (mthen (mthen (oid_head p (of_nat ?n)) (text_components m p ?c))
          (mthen (CBB_add_u8 p 0) (CBB_finish p True))) h of
      Ok (buf, len) h' \<Rightarrow> unat len = length (dotted (a # b # ns) @ [0]) \<and> length (dotted (a # b # ns) @ [0]) \<le> length buf \<and>
        take (length (dotted (a # b # ns) @ [0])) buf = dotted (a # b # ns) @ [0]
    | Fail h' \<Rightarrow> \<not> (\<forall>k. allocates h k) \<or> 2 ^ 64 \<le> length (dotted (a # b # ns) @ [0])
    | _ \<Rightarrow> False)"
    by (simp only: mthen_assoc cbb_run_def)
  show ?thesis
    using run unfolding CBS_asn1_oid_to_text_def Let_def parse outcome.case oid_head_def [symmetric]
    by (auto split: outcome.splits)
qed

end
