(* ===== verification/CBB_Spec.thy ===== *)
theory CBB_Spec
  imports OID
begin

unbundle bit_operations_syntax

text \<open>
  What \<open>bytestring/cbb.c\<close> promises: the flush refines the closing of a chain of children, adders append
  exactly their encoding at any builder of a chain and leave the others as they are, a fixed buffer
  is filled to its end and not beyond, errors stay, and what is written is read back.
\<close>

section \<open>Chains\<close>

definition cbb_sample :: cbb_store where
  "cbb_sample = \<lparr>buffers = (\<lambda>_. \<lparr>bb_buf = [0x30, 0, 1, 2, 9, 9], bb_len = 4, bb_cap = 6, bb_can_resize = False, bb_error = False\<rparr>),
     cbbs = (\<lambda>_. \<lparr>cbb_base = None, cbb_child = None, cbb_offset = 0, pending_len_len = 0, pending_is_asn1 = False, is_child = False\<rparr>)
       (0 := \<lparr>cbb_base = Some 0, cbb_child = Some 1, cbb_offset = 0, pending_len_len = 0, pending_is_asn1 = False, is_child = False\<rparr>,
        1 := \<lparr>cbb_base = Some 0, cbb_child = None, cbb_offset = 1, pending_len_len = 1, pending_is_asn1 = True, is_child = True\<rparr>),
     allocates = (\<lambda>_. False), flush_depth = 3\<rparr>"

lemma cbb_sample_builds: "builds cbb_sample 0 0 0 [0x30] [(1, Asn1, [1, 2])]"
  by (simp add: cbb_sample_def builds_def buffer_ok_def bb_written_def)

lemma cbb_sample_room: "roomy cbb_sample 0 n \<longleftrightarrow> n \<le> 6"
  by (auto simp: cbb_sample_def roomy_def)

lemma cbb_sample_closed: "closed [(1, Asn1, [1, 2])] = Some [2, 1, 2]"
  by (simp add: der_length_def)

text \<open>C17. \<open>CBB_flush\<close> refines the closing of the chain: from the innermost child on, each content gets its
  length prefix, DER lengths in their shortest form, and nothing before the builder changes. It fails
  exactly where a length does not fit its prefix or the buffer cannot hold the result, and then
  the error is recorded. It always returns.\<close>

theorem CBB_flush_refines:
  assumes "builds h b p s bs ks"
  shows "(case CBB_flush p h of
      Ok _ h' \<Rightarrow> (\<exists>cs. closed ks = Some cs \<and> builds h' b p s (bs @ cs) [] \<and> keeps b s (insert p (cells ks)) h h')
    | Fail h' \<Rightarrow> bb_error (buffers h' b) \<and>
        (\<forall>cs. closed ks = Some cs \<longrightarrow> \<not> roomy h b (s + length bs + length cs))
    | _ \<Rightarrow> False)"
  using flush_built [OF assms] by (auto simp: flushed_def split: outcome.splits)

theorem CBB_flush_refines_witness:
  "\<exists>h'. CBB_flush 0 cbb_sample = Ok () h' \<and> bb_written (buffers h' 0) = [0x30, 2, 1, 2]"
proof -
  have "roomy cbb_sample 0 (0 + length [0x30 :: byte] + length [2 :: byte, 1, 2])" by (simp add: cbb_sample_room)
  with CBB_flush_refines [OF cbb_sample_builds] show ?thesis
    unfolding cbb_sample_closed by (auto simp: builds_def split: outcome.splits)
qed

lemma buffer_add_cbbs: "cbb_buffer_add base n h = Ok pos h' \<Longrightarrow> cbbs h' = cbbs h"
  by (auto simp: cbb_buffer_add_def cbb_buffer_reserve_def mbind_Ok_iff buffer_error_def Let_def split: option.splits if_splits)

lemma add_zeros_bytes: "n < 2 ^ 64 \<Longrightarrow> CBB_add_zeros p (of_nat n) = CBB_add_bytes p (replicate n 0)"
proof (rule ext)
  fix h
  assume n: "n < 2 ^ 64"
  show "CBB_add_zeros p (of_nat n) h = CBB_add_bytes p (replicate n 0) h"
    using n buffer_add_cbbs
    by (fastforce simp: CBB_add_zeros_def CBB_add_space_def CBB_add_bytes_def fill_def with_base_def mthen_def mbind_def
        unat_of_nat_addr split: outcome.splits)
qed

text \<open>The adders of integers and bytes append exactly the big-endian or little-endian bytes, or the bytes
  given, to the closed chain; a value above 24 bits is refused by \<open>CBB_add_u24\<close>, and nothing else fails
  unless room is missing.\<close>

theorem adders_append:
  assumes "builds h b p s bs ks" "length xs < 2 ^ 64"
  shows "built b p s {} bs ks (Some [v1]) h (CBB_add_u8 p v1 h) \<and>
    built b p s {} bs ks (Some (be_bytes 2 v2)) h (CBB_add_u16 p v2 h) \<and>
    built b p s {} bs ks (if unat v4 < 2 ^ 24 then Some (be_bytes 3 v4) else None) h (CBB_add_u24 p v4 h) \<and>
    built b p s {} bs ks (Some (be_bytes 4 v4)) h (CBB_add_u32 p v4 h) \<and>
    built b p s {} bs ks (Some (be_bytes 8 v8)) h (CBB_add_u64 p v8 h) \<and>
    built b p s {} bs ks (Some (word_le_bytes 2 v2)) h (CBB_add_u16le p v2 h) \<and>
    built b p s {} bs ks (Some (word_le_bytes 4 v4)) h (CBB_add_u32le p v4 h) \<and>
    built b p s {} bs ks (Some (word_le_bytes 8 v8)) h (CBB_add_u64le p v8 h) \<and>
    built b p s {} bs ks (Some xs) h (CBB_add_bytes p xs h) \<and>
    built b p s {} bs ks (Some (replicate (length xs) 0)) h (CBB_add_zeros p (of_nat (length xs)) h)"
proof -
  have depth: "0 < flush_depth h" using assms(1) by (auto simp: builds_def)
  note at = writesD [OF _ assms(1) depth]
  show ?thesis
    unfolding add_zeros_bytes [OF assms(2)]
    by (intro conjI at u8_writes u24_writes be_writes le_writes add_bytes_writes) (use assms(2) in simp_all)
qed

theorem adders_append_witness:
  "\<exists>h'. CBB_add_u16 0 0x0405 cbb_sample = Ok () h' \<and> bb_written (buffers h' 0) = [0x30, 2, 1, 2, 4, 5]"
proof -
  have "built 0 0 0 {} [0x30] [(1, Asn1, [1, 2])] (Some (be_bytes 2 (0x0405 :: u16))) cbb_sample (CBB_add_u16 0 0x0405 cbb_sample)"
    by (rule adders_append [OF cbb_sample_builds, of "[]", THEN conjunct2, THEN conjunct1]) simp
  moreover have "be_bytes 2 (0x0405 :: u16) = [4, 5]" by (simp add: be_bytes_def word_le_bytes_def upt_rec)
  ultimately show ?thesis
    unfolding built_def cbb_sample_closed by (auto simp: builds_def cbb_sample_room split: outcome.splits)
qed

text \<open>\<open>CBB_add_asn1\<close> and the length-prefixed variants append the tag, if any, and open a child, whatever
  was pending before: the chain is closed, and the child is the only one that is left open.\<close>

theorem children_open:
  assumes "p \<noteq> c"
  shows "opens p c Asn1 (der_tag t) (CBB_add_asn1 p c t) \<and>
    opens p c (Length 1) [] (CBB_add_u8_length_prefixed p c) \<and>
    opens p c (Length 2) [] (CBB_add_u16_length_prefixed p c) \<and>
    opens p c (Length 3) [] (CBB_add_u24_length_prefixed p c)"
  using add_asn1_opens [OF assms] length_prefixed_opens [OF assms, of 1] length_prefixed_opens [OF assms, of 2]
    length_prefixed_opens [OF assms, of 3]
  by (simp add: CBB_add_u8_length_prefixed_def CBB_add_u16_length_prefixed_def CBB_add_u24_length_prefixed_def)

theorem children_open_witness:
  "\<exists>h'. CBB_add_u8_length_prefixed 0 2 cbb_sample = Ok () h' \<and> bb_written (buffers h' 0) = [0x30, 2, 1, 2, 0]"
proof -
  have child: "opens 0 2 (Length 1) [] (CBB_add_u8_length_prefixed 0 2)"
    using children_open [of 0 2] by simp
  have "1 < flush_depth cbb_sample" by (simp add: cbb_sample_def)
  note child [unfolded opens_def, rule_format, OF conjI [OF cbb_sample_builds this]]
  then show ?thesis
    unfolding cbb_sample_closed by (auto simp: builds_def cbb_sample_room split: outcome.splits)
qed

section \<open>Builders in the middle of a chain\<close>

lemma built_within:
  "builds h b p s bs (ks @ (k, x, body) # ls) \<Longrightarrow> writes d C k w (Some xs) \<Longrightarrow> d < flush_depth h \<Longrightarrow>
   C \<inter> insert p (cells ks) = {} \<Longrightarrow> w h = Ok u h' \<Longrightarrow>
   \<exists>cs. closed ls = Some cs \<and> builds h' b p s bs (ks @ [(k, x, body @ cs @ xs)]) \<and>
     keeps b s (insert k (C \<union> cells ls)) h h'"
proof (induction ks arbitrary: p s bs)
  case Nil
  note whole = Nil.prems(1) [unfolded append_Nil]
  let ?s = "s + length bs + reserved x"
  from writesD [OF Nil.prems(2) builds_child [OF whole] Nil.prems(3)] Nil.prems(5)
  obtain cs where cs: "closed ls = Some cs" "builds h' b k ?s (body @ cs @ xs) []" "in_place k h h'"
    "keeps b ?s (insert k (C \<union> cells ls)) h h'"
    by (auto simp: built_def)
  have "builds h' b p s bs ([(k, x, body @ cs @ xs)])"
    by (rule builds_parent [OF whole cs(2-4)])
      (use whole Nil.prems(4) in \<open>auto simp: builds_def cells_def\<close>)
  then show ?case using cs(1) keeps_mono [OF cs(4), of _ s] by auto
next
  case (Cons f ks)
  obtain k1 x1 b1 where f: "f = (k1, x1, b1)" by (cases f)
  let ?ls = "ks @ (k, x, body) # ls" and ?s = "s + length bs + reserved x1"
  have whole: "builds h b p s bs ((k1, x1, b1) # ?ls)" using Cons.prems(1) f by simp
  have apart: "p \<noteq> k1" "p \<noteq> k" "p \<notin> cells ks" "p \<notin> cells ls" "k1 \<noteq> k" "k1 \<notin> cells ls"
    using whole by (auto simp: builds_def cells_def)
  from Cons.IH [OF builds_child [OF whole] Cons.prems(2,3) _ Cons.prems(5)] Cons.prems(4) f
  obtain cs where cs: "closed ls = Some cs" "builds h' b k1 ?s b1 (ks @ [(k, x, body @ cs @ xs)])"
    "keeps b ?s (insert k (C \<union> cells ls)) h h'"
    by auto
  have "in_place k1 h h'" using cs(3) apart Cons.prems(4) f by (simp add: keeps_def in_place_def)
  then have "builds h' b p s bs ((k1, x1, b1) # ks @ [(k, x, body @ cs @ xs)])"
    by (rule builds_parent [OF whole cs(2) _ cs(3)])
      (use whole apart Cons.prems(4) in \<open>auto simp: builds_def\<close>)
  then show ?case using cs(1) keeps_mono [OF cs(3), of _ s] f by auto
qed

text \<open>A writer that is used on a builder anywhere in a chain closes what is open below it, appends its
  bytes there, and leaves the builders above, their bytes and their pending prefixes as they are:
  the chain stays well formed.\<close>

theorem chain_kept:
  assumes "builds h b p s bs (ks @ (k, x, body) # ls)" "writes d C k w (Some xs)" "d < flush_depth h"
    "C \<inter> insert p (cells ks) = {}" "w h = Ok u h'"
  shows "\<exists>cs. closed ls = Some cs \<and> builds h' b p s bs (ks @ [(k, x, body @ cs @ xs)]) \<and>
    (\<forall>q. q \<in> insert p (cells ks) \<longrightarrow> cbbs h' q = cbbs h q)"
proof -
  from built_within [OF assms] obtain cs where cs: "closed ls = Some cs"
    "builds h' b p s bs (ks @ [(k, x, body @ cs @ xs)])" "keeps b s (insert k (C \<union> cells ls)) h h'" by blast
  have "q \<notin> insert k (C \<union> cells ls)" if "q \<in> insert p (cells ks)" for q
    using that assms(1,4) by (auto simp: builds_def cells_def)
  with cs show ?thesis by (auto simp: keeps_def)
qed

theorem chain_kept_witness:
  "\<exists>h'. CBB_add_u8 1 3 cbb_sample = Ok () h' \<and> builds h' 0 0 0 [0x30] [(1, Asn1, [1, 2, 3])]"
proof -
  have "builds cbb_sample 0 1 2 [1, 2] []"
    using builds_child [OF cbb_sample_builds] by (simp add: numeral_2_eq_2)
  from writesD [OF u8_writes [of 0 "{}"] this] have "built 0 1 2 {} [1, 2] [] (Some [3]) cbb_sample (CBB_add_u8 1 3 cbb_sample)"
    by (simp add: cbb_sample_def)
  then obtain h' where run: "CBB_add_u8 1 3 cbb_sample = Ok () h'"
    by (auto simp: built_def cbb_sample_room split: outcome.splits)
  have "builds cbb_sample 0 0 0 [0x30] ([] @ (1, Asn1, [1, 2]) # [])" using cbb_sample_builds by simp
  from chain_kept [OF this u8_writes [of 0 "{}"] _ _ run] have "builds h' 0 0 0 [0x30] [(1, Asn1, [1, 2, 3])]"
    by (simp add: cbb_sample_def)
  with run show ?thesis by blast
qed

section \<open>Fixed buffers and errors\<close>

lemma built_fixed:
  assumes "builds h b p s bs ks" "\<not> bb_can_resize (buffers h b)" "built b p s C bs ks (Some xs) h out"
  shows "(\<exists>u h'. out = Ok u h') \<longleftrightarrow>
    (\<exists>cs. closed ks = Some cs \<and> s + length bs + length cs + length xs \<le> unat (bb_cap (buffers h b)))"
proof (cases out)
  case (Ok u h')
  with assms(3) obtain cs where cs: "closed ks = Some cs" "builds h' b p s (bs @ cs @ xs) []"
    "keeps b s (insert p (C \<union> cells ks)) h h'"
    by (auto simp: built_def)
  have "length (bb_written (buffers h' b)) \<le> unat (bb_cap (buffers h' b))"
    using length_written [of "buffers h' b"] cs(2) by (simp add: builds_def buffer_ok_def word_le_nat_alt)
  then have "s + length bs + length cs + length xs \<le> unat (bb_cap (buffers h b))"
    using builds_length(1) [OF cs(2)] cs(3) assms(2) by (simp add: keeps_def)
  then show ?thesis using Ok cs(1) by blast
next
  case (Fail h')
  have "roomy h b n" if "n \<le> unat (bb_cap (buffers h b))" for n
    using that unat_less64 [of "bb_cap (buffers h b)"] by (simp add: roomy_def)
  then show ?thesis using Fail assms(3) by (auto simp: built_def)
qed (use assms(3) in \<open>simp_all add: built_def\<close>)

text \<open>C19. On a buffer that cannot grow, \<open>CBB_add_bytes\<close> succeeds exactly where the closed chain and the bytes
  fit into its capacity. What is then written lies within it, and the capacity is unchanged.\<close>

theorem fixed_buffer_exact:
  assumes "builds h b p s bs ks" "\<not> bb_can_resize (buffers h b)" "length xs < 2 ^ 64"
  shows "((\<exists>h'. CBB_add_bytes p xs h = Ok () h') \<longleftrightarrow>
      (\<exists>cs. closed ks = Some cs \<and> s + length bs + length cs + length xs \<le> unat (bb_cap (buffers h b)))) \<and>
    (\<forall>h'. CBB_add_bytes p xs h = Ok () h' \<longrightarrow>
      length (bb_written (buffers h' b)) \<le> unat (bb_cap (buffers h b)) \<and>
      length (bb_buf (buffers h' b)) = length (bb_buf (buffers h b)))"
proof -
  have "0 < flush_depth h" using assms(1) by (auto simp: builds_def)
  from writesD [OF add_bytes_writes [OF assms(3)] assms(1) this]
  have b: "built b p s {} bs ks (Some xs) h (CBB_add_bytes p xs h)" .
  have "length (bb_written (buffers h' b)) \<le> unat (bb_cap (buffers h b)) \<and>
      length (bb_buf (buffers h' b)) = length (bb_buf (buffers h b))" if "CBB_add_bytes p xs h = Ok () h'" for h'
  proof -
    from b that obtain cs where "builds h' b p s (bs @ cs @ xs) []" "keeps b s (insert p (cells ks)) h h'"
      by (auto simp: built_def)
    then show ?thesis
      using assms(1,2) length_written [of "buffers h' b"] by (auto simp: builds_def buffer_ok_def keeps_def word_le_nat_alt)
  qed
  then show ?thesis using built_fixed [OF assms(1,2) b] by simp
qed

theorem fixed_buffer_exact_witness:
  "(\<exists>h'. CBB_add_bytes 0 [7, 8] cbb_sample = Ok () h') \<and> \<not> (\<exists>h'. CBB_add_bytes 0 [7, 8, 9] cbb_sample = Ok () h')"
proof -
  have "\<not> bb_can_resize (buffers cbb_sample 0)" "unat (bb_cap (buffers cbb_sample 0)) = 6"
    by (simp_all add: cbb_sample_def)
  with fixed_buffer_exact [OF cbb_sample_builds, of "[7, 8]"] fixed_buffer_exact [OF cbb_sample_builds, of "[7, 8, 9]"]
  show ?thesis unfolding cbb_sample_closed by simp
qed

lemma flush_error: "cbb_base (cbbs h p) = Some b \<Longrightarrow> bb_error (buffers h b) \<Longrightarrow> 0 < flush_depth h \<Longrightarrow> CBB_flush p h = Fail h"
  by (cases "flush_depth h") (simp_all add: CBB_flush_def)

lemma flush_then_error:
  assumes "cbb_base (cbbs h p) = Some b" "bb_error (buffers h b)" "0 < flush_depth h"
  shows "mthen (CBB_flush p) g h = Fail h"
  by (simp add: mthen_def mbind_def flush_error [OF assms])

text \<open>The adders on the buffer record the error they fail with.\<close>

lemma adder_latches:
  assumes builds: "builds h b p s bs ks" and fail: "mthen (CBB_flush p) g h = Fail h'"
    and adds: "\<And>h. buffer_ok (buffers h b) \<Longrightarrow> cbb_base (cbbs h p) = Some b \<Longrightarrow> buffer_adds b h r (g h)"
  shows "bb_error (buffers h' b)"
proof (cases "CBB_flush p h")
  case (Ok u h1)
  with flush_built [OF builds] have "buffer_ok (buffers h1 b)" "cbb_base (cbbs h1 p) = Some b"
    by (auto simp: flushed_def builds_def)
  from adds [OF this] Ok fail show ?thesis by (simp add: buffer_adds_def mthen_def mbind_def)
qed (use flush_built [OF builds] fail in \<open>simp_all add: flushed_def mthen_def mbind_def\<close>)

text \<open>An adder that fails records the error in the buffer. From then on nothing more is written: every
  operation of any builder of this buffer fails and leaves all as it is.\<close>

theorem errors_stay:
  "(builds h b p s bs ks \<and> length xs < 2 ^ 64 \<and> CBB_add_bytes p xs h = Fail h' \<longrightarrow> bb_error (buffers h' b)) \<and>
   (builds h b p s bs ks \<and> CBB_add_u24 p v4 h = Fail h' \<longrightarrow> bb_error (buffers h' b)) \<and>
   (bb_error (buffers h b) \<and> cbb_base (cbbs h q) = Some b \<and> 0 < flush_depth h \<longrightarrow>
      CBB_flush q h = Fail h \<and> CBB_add_bytes q xs h = Fail h \<and> CBB_add_u8 q v1 h = Fail h \<and>
      CBB_add_u16 q v2 h = Fail h \<and> CBB_add_u24 q v4 h = Fail h \<and> CBB_add_u32 q v4 h = Fail h \<and>
      CBB_add_u64 q v8 h = Fail h \<and> CBB_add_space q n h = Fail h \<and> CBB_reserve q n h = Fail h \<and>
      CBB_add_u8_length_prefixed q c h = Fail h \<and> CBB_add_u16_length_prefixed q c h = Fail h \<and>
      CBB_add_u24_length_prefixed q c h = Fail h \<and> CBB_add_asn1 q c t h = Fail h \<and>
      CBB_add_asn1_uint64 q c v8 h = Fail h \<and> CBB_add_asn1_bool q c True h = Fail h \<and>
      CBB_flush_asn1_set_of q h = Fail h \<and> CBB_finish q wants h = Fail h)"
proof (intro conjI impI, goal_cases)
  case 1
  then show ?case using adder_latches [where g = "fill p xs"] fill_adds by (metis CBB_add_bytes_def)
next
  case 2
  let ?g = "with_base p (\<lambda>base. cbb_buffer_add_u base (ucast v4) 3)"
  from 2 have fail: "builds h b p s bs ks" "mthen (CBB_flush p) ?g h = Fail h'"
    by (simp_all add: CBB_add_u24_def add_u_def)
  show ?case
  proof (rule adder_latches [OF fail])
    fix h :: cbb_store
    assume "buffer_ok (buffers h b)" "cbb_base (cbbs h p) = Some b"
    with add_u_adds [of h b 3 "ucast v4"]
    show "buffer_adds b h (if unat (ucast v4 :: u64) < 256 ^ unat (3 :: u64)
        then Some (be_bytes (unat (3 :: u64)) (ucast v4 :: u64)) else None) (?g h)"
      by (simp add: with_base_def)
  qed
qed (elim conjE, simp add: flush_error flush_then_error CBB_add_bytes_def CBB_add_u8_def CBB_add_u16_def CBB_add_u24_def CBB_add_u32_def
    CBB_add_u64_def add_u_def CBB_add_space_def CBB_reserve_def CBB_add_u8_length_prefixed_def CBB_add_u16_length_prefixed_def
    CBB_add_u24_length_prefixed_def cbb_add_length_prefixed_def CBB_add_asn1_def CBB_add_asn1_uint64_def CBB_add_asn1_bool_def
    mthen_assoc CBB_flush_asn1_set_of_def CBB_finish_def)+

theorem errors_stay_witness:
  "\<exists>h'. CBB_add_u24 0 0x1000000 cbb_sample = Fail h' \<and> bb_error (buffers h' 0)"
proof -
  have "built 0 0 0 {} [0x30] [(1, Asn1, [1, 2])] None cbb_sample (CBB_add_u24 0 0x1000000 cbb_sample)"
    using writesD [OF u24_writes [of 0 "{}" 0 "0x1000000"] cbb_sample_builds] by (simp add: cbb_sample_def)
  then obtain h' where "CBB_add_u24 0 0x1000000 cbb_sample = Fail h'"
    by (auto simp: built_def split: outcome.splits)
  with errors_stay [THEN conjunct2, THEN conjunct1, rule_format, OF conjI [OF cbb_sample_builds]]
  show ?thesis by blast
qed

section \<open>Reading back\<close>

text \<open>C18. What is added to a new \<open>CBB\<close> and finished is read back by the matching reader, to the last byte: integers,
  DER integers, booleans and octet strings. The run succeeds whenever the allocator does. \<open>c\<close> is the cell
  of the local child.\<close>

theorem cbb_cbs_roundtrip:
  assumes "p \<noteq> c" "1 < flush_depth h" "\<forall>k. allocates h k" "length xs \<le> 0xFFFFFFFE"
  shows "(\<exists>buf len h'. cbb_run b p cap (CBB_add_u32 p v4) h = Ok (buf, len) h' \<and>
      CBS_get_u32 (list_mem buf) (CBS_init 0 len) = Ok v4 (CBS_init len 0)) \<and>
    (\<exists>buf len h'. cbb_run b p cap (CBB_add_u64le p v8) h = Ok (buf, len) h' \<and>
      CBS_get_u64le (list_mem buf) (CBS_init 0 len) = Ok v8 (CBS_init len 0)) \<and>
    (\<exists>buf len h'. cbb_run b p cap (CBB_add_asn1_uint64 p c v8) h = Ok (buf, len) h' \<and>
      CBS_get_asn1_uint64 (list_mem buf) (CBS_init 0 len) = Ok v8 (CBS_init len 0)) \<and>
    (\<exists>buf len h'. cbb_run b p cap (CBB_add_asn1_int64 p c v8) h = Ok (buf, len) h' \<and>
      CBS_get_asn1_int64 (list_mem buf) (CBS_init 0 len) = Ok v8 (CBS_init len 0)) \<and>
    (\<exists>buf len h'. cbb_run b p cap (CBB_add_asn1_bool p c v) h = Ok (buf, len) h' \<and>
      CBS_get_asn1_bool (list_mem buf) (CBS_init 0 len) = Ok v (CBS_init len 0)) \<and>
    (\<exists>buf len h'. cbb_run b p cap (CBB_add_asn1_octet_string p c xs) h = Ok (buf, len) h' \<and>
      (\<exists>out c'. CBS_get_asn1 (list_mem buf) CBS_ASN1_OCTETSTRING (CBS_init 0 len) = Ok out c' \<and>
        cbs_bytes (list_mem buf) out = xs \<and> cbs_bytes (list_mem buf) c' = []))"
proof (intro conjI)
  show "\<exists>buf len h'. cbb_run b p cap (CBB_add_asn1_octet_string p c xs) h = Ok (buf, len) h' \<and>
      (\<exists>out c'. CBS_get_asn1 (list_mem buf) CBS_ASN1_OCTETSTRING (CBS_init 0 len) = Ok out c' \<and>
        cbs_bytes (list_mem buf) out = xs \<and> cbs_bytes (list_mem buf) c' = [])"
  proof -
    obtain buf len h' where run: "cbb_run b p cap (CBB_add_asn1_octet_string p c xs) h = Ok (buf, len) h'"
      "cbs_bytes (list_mem buf) (CBS_init 0 len) = der CBS_ASN1_OCTETSTRING xs @ []"
      using run_bytes [OF octet_string_writes [OF assms(4,1)] assms(2,3) length_der [OF assms(4)]]
      unfolding append_Nil2 by blast
    have "length xs < 2 ^ 32" using assms(4) by simp
    from der_read_back [OF run(2) this] run(1) show ?thesis by blast
  qed
qed (use assms c32.run_back c64le.run_back cuint64.run_back cint64.run_back cbool.run_back
    length_der short_content in \<open>simp_all add: der_bool_def\<close>)

definition cbb_served :: cbb_store where
  "cbb_served = cbb_sample\<lparr>buffers := \<lambda>b. (buffers cbb_sample b)\<lparr>bb_can_resize := True\<rparr>, allocates := \<lambda>_. True\<rparr>"

theorem cbb_cbs_roundtrip_witness:
  "\<exists>buf len h'. cbb_run 0 1 16 (CBB_add_asn1_int64 1 2 (- 129)) cbb_served = Ok (buf, len) h' \<and>
      CBS_get_asn1_int64 (list_mem buf) (CBS_init 0 len) = Ok (- 129) (CBS_init len 0)"
proof -
  have "1 < flush_depth cbb_served" "\<forall>k. allocates cbb_served k" "length ([] :: byte list) \<le> 0xFFFFFFFE" "(1 :: nat) \<noteq> 2"
    by (simp_all add: cbb_served_def cbb_sample_def)
  from cbb_cbs_roundtrip [OF this(4,1,2,3)] show ?thesis by blast
qed

text \<open>The DER values appended at any builder are the encodings of X.690: integers in minimal two's complement,
  unsigned or signed, booleans as 0x00 and 0xFF, octet strings with their bytes.\<close>

theorem asn1_values_written:
  assumes "builds h b p s bs ks" "1 < flush_depth h" "p \<noteq> c" "length xs \<le> 0xFFFFFFFE"
  shows "built b p s {c} bs ks (Some (der CBS_ASN1_INTEGER (der_int (uint v8)))) h (CBB_add_asn1_uint64 p c v8 h) \<and>
    built b p s {c} bs ks (Some (der CBS_ASN1_INTEGER (der_int (sint v8)))) h (CBB_add_asn1_int64 p c v8 h) \<and>
    built b p s {c} bs ks (Some (der CBS_ASN1_BOOLEAN [if v then 0xFF else 0])) h (CBB_add_asn1_bool p c v h) \<and>
    built b p s {c} bs ks (Some (der CBS_ASN1_OCTETSTRING xs)) h (CBB_add_asn1_octet_string p c xs h)"
  using writesD [OF wuint64.adds [OF assms(3)] assms(1,2)] writesD [OF wint64.adds [OF assms(3)] assms(1,2)]
    writesD [OF wbool.adds [OF assms(3)] assms(1,2)] writesD [OF octet_string_writes [OF assms(4,3)] assms(1,2)]
  by (simp add: der_bool_def)

theorem asn1_values_written_witness:
  "\<exists>h'. CBB_add_asn1_int64 1 2 (- 129) cbb_served = Ok () h' \<and> bb_written (buffers h' 0) = [0x30, 0, 1, 2, 0x02, 0x02, 0xFF, 0x7F]"
proof -
  have at: "builds cbb_served 0 1 2 [1, 2] []"
    by (simp add: cbb_served_def cbb_sample_def builds_def buffer_ok_def bb_written_def)
  have depth: "1 < flush_depth cbb_served" "(1 :: nat) \<noteq> 2" "length ([] :: byte list) \<le> 0xFFFFFFFE"
    by (simp_all add: cbb_served_def cbb_sample_def)
  have code: "der CBS_ASN1_INTEGER (der_int (sint (- 129 :: u64))) = [0x02, 0x02, 0xFF, 0x7F]"
    by (simp add: der_def der_header_def der_tag_def der_length_def der_int.simps tag_class_def tag_number_def CBS_ASN1_INTEGER_def)
  have "roomy cbb_served 0 8" by (simp add: roomy_def cbb_served_def)
  moreover have "built 0 1 2 {2} [1, 2] [] (Some [0x02, 0x02, 0xFF, 0x7F]) cbb_served (CBB_add_asn1_int64 1 2 (- 129) cbb_served)"
    using asn1_values_written [OF at depth, where ?v8.0 = "- 129"] unfolding code by blast
  ultimately obtain h' where h': "CBB_add_asn1_int64 1 2 (- 129) cbb_served = Ok () h'"
    "builds h' 0 1 2 [1, 2, 0x02, 0x02, 0xFF, 0x7F] []" "keeps 0 2 {1, 2} cbb_served h'"
    by (auto simp: built_def split: outcome.splits)
  have "take 2 (bb_written (buffers h' 0)) = [0x30, 0]"
    using h'(3) by (simp add: keeps_def cbb_served_def cbb_sample_def bb_written_def)
  with written_at [OF h'(2)] h'(1) show ?thesis by simp
qed

lemma oid_lengths:
  "\<forall>n\<in>set ns. n < 2 ^ 64 \<Longrightarrow> length (concat (map base128 ns)) \<le> 11 * length ns"
  "\<forall>n\<in>set ns. n < 2 ^ 64 \<Longrightarrow> length (concat (map (\<lambda>n. 0x2E # decimal n) ns)) \<le> 21 * length ns"
proof (induction ns)
  case (Cons n ns)
  {
    case 1
    with Cons.IH(1) length_base128 [of n] show ?case by simp
  next
    case 2
    then have "length (decimal n) \<le> 20" by (intro decimal_short) simp_all
    with Cons.IH(2) 2 show ?case by simp
  }
qed simp_all

text \<open>C20. An object identifier in dotted decimal becomes the DER content of its numbers, and the content becomes
  the same text again, with the zero that ends a string.\<close>

theorem oid_roundtrip:
  assumes valid: "oid_valid a b ns" and str: "cbs_bytes m (CBS_init str n) = dotted (a # b # ns)" and "length ns < 2 ^ 58"
    and h: "0 < flush_depth h" "\<forall>k. allocates h k" and h2: "0 < flush_depth h2" "\<forall>k. allocates h2 k"
  shows "\<exists>buf len h'. cbb_run base p cap (CBB_add_asn1_oid_from_text m p str n) h = Ok (buf, len) h' \<and>
    cbs_bytes (list_mem buf) (CBS_init 0 len) = oid_content a b ns \<and>
    (\<exists>buf2 len2 h2'. CBS_asn1_oid_to_text (list_mem buf) base2 p2 (CBS_init 0 len) h2 = Ok (buf2, len2) h2' \<and>
      take (unat len2) buf2 = dotted (a # b # ns) @ [0])"
proof -
  have nums: "40 * a + b < 2 ^ 64" "\<forall>n\<in>set ns. n < 2 ^ 64" "a < 10" "b < 10 ^ 20" using valid by (auto simp: oid_valid_def)
  have w: "writes 0 {} p (CBB_add_asn1_oid_from_text m p str n) (Some (oid_content a b ns))"
    by (rule oid_from_text_writes [OF valid str])
  have "length (oid_content a b ns) < 2 ^ 64"
    using length_base128 [OF nums(1)] oid_lengths(1) [OF nums(2)] assms(3) by (simp add: oid_content_def)
  from run_bytes [OF w h this, where b = base and cap = cap]
  obtain buf len h' where run: "cbb_run base p cap (CBB_add_asn1_oid_from_text m p str n) h = Ok (buf, len) h'"
    "cbs_bytes (list_mem buf) (CBS_init 0 len) = oid_content a b ns" by blast
  have "length (decimal a) \<le> 1" "length (decimal b) \<le> 20"
    using decimal_short [of a 1] decimal_short [of b 20] nums(3,4) by simp_all
  then have "length (dotted (a # b # ns) @ [0]) < 2 ^ 64"
    using oid_lengths(2) [OF nums(2)] assms(3) by (simp add: dotted_Cons)
  with oid_to_text_run [OF valid run(2) h2(1), of base2 p2] h2(2) run show ?thesis
    by (cases "CBS_asn1_oid_to_text (list_mem buf) base2 p2 (CBS_init 0 len) h2") auto
qed

theorem oid_roundtrip_witness:
  "\<exists>buf len h'. cbb_run 0 1 16 (CBB_add_asn1_oid_from_text (list_mem [0x31, 0x2E, 0x32, 0x2E, 0x38, 0x34, 0x30]) 1 0 7) cbb_served
      = Ok (buf, len) h' \<and> cbs_bytes (list_mem buf) (CBS_init 0 len) = [0x2A, 0x86, 0x48]"
proof -
  have dec: "decimal 1 = [0x31]" "decimal 2 = [0x32]" "decimal 840 = [0x38, 0x34, 0x30]"
    by (simp_all add: decimal.simps)
  then have "cbs_bytes (list_mem [0x31, 0x2E, 0x32, 0x2E, 0x38, 0x34, 0x30]) (CBS_init 0 7) = dotted (1 # 2 # [840])"
    by (simp add: cbs_bytes_list_mem)
  moreover have "oid_valid 1 2 [840]" "length [840 :: nat] < 2 ^ 58" "0 < flush_depth cbb_served" "\<forall>k. allocates cbb_served k"
    by (simp_all add: oid_valid_def cbb_served_def cbb_sample_def)
  moreover have "oid_content 1 2 [840] = [0x2A, 0x86, 0x48]"
    by (simp add: oid_content_def base128_def base128_front.simps)
  ultimately show ?thesis
    using oid_roundtrip [where a = 1 and b = 2 and ns = "[840]" and h = cbb_served and ?h2.0 = cbb_served] by metis
qed

end
