(* ===== verification/SET_OF.thy ===== *)
theory SET_OF
  imports CBB_Run "HOL-Library.List_Lexorder" "HOL-Library.Multiset"
begin

text \<open>
  The sorting of a SET OF, \<open>CBB_flush_asn1_set_of\<close> of \<open>bytestring/cbb.c\<close>: the elements that a builder
  holds are put into the lexicographic order of their bytes (X.690, 11.6), the order of
  \<open>List_Lexorder\<close> on byte lists.
\<close>

section \<open>The comparison\<close>

lemma bytes_cmp_take: "bytes_cmp (take (min (length xs) (length ys)) xs) (take (min (length xs) (length ys)) ys) = bytes_cmp xs ys"
  by (induction xs ys rule: bytes_cmp.induct) simp_all

lemma bytes_cmp_order:
  "(if bytes_cmp xs ys \<noteq> 0 then bytes_cmp xs ys \<le> 0 else length xs \<le> length ys) \<longleftrightarrow> xs \<le> ys"
proof (induction xs ys rule: bytes_cmp.induct)
  case (1 a as b bs)
  show ?case
  proof (cases "a = b")
    case True
    with 1 show ?thesis by (auto split: if_splits)
  next
    case False
    then have "uint a \<noteq> uint b" by (simp add: word_uint_eq_iff)
    then have "uint a - uint b \<noteq> 0" "uint a - uint b \<le> 0 \<longleftrightarrow> a < b" unfolding word_less_def by linarith+
    then show ?thesis using False by simp
  qed
qed simp_all

lemma compare_order: "compare_set_of_element m a b \<le> 0 \<longleftrightarrow> cbs_bytes m a \<le> cbs_bytes m b"
proof -
  let ?x = "cbs_bytes m a" and ?y = "cbs_bytes m b"
  let ?k = "min (length ?x) (length ?y)"
  have k: "unat (if cbs_len a < cbs_len b then cbs_len a else cbs_len b) = ?k"
    by (simp add: min_def word_less_nat_alt)
  have part: "mem_bytes m (cbs_data c) ?k = take ?k (cbs_bytes m c)" if "c = a \<or> c = b" for c
    using that cbs_bytes_split [of ?k c m] by (auto simp: append_eq_conv_conj)
  have "compare_set_of_element m a b = (let ret = bytes_cmp ?x ?y in if ret \<noteq> 0 then ret
      else if length ?x = length ?y then 0 else if length ?x < length ?y then -1 else 1)"
    unfolding compare_set_of_element_def CBS_data_def CBS_len_def Let_def k part [OF disjI1 [OF refl]] part [OF disjI2 [OF refl]] bytes_cmp_take
    by (simp add: word_less_nat_alt word_unat_eq_iff)
  then show ?thesis using bytes_cmp_order [of ?x ?y] by (auto simp: Let_def split: if_splits)
qed

section \<open>The sorting\<close>

lemma map_insert_cmp: "(\<And>x y. f x y \<le> 0 \<longleftrightarrow> g x \<le> g y) \<Longrightarrow> map g (insert_cmp f x ys) = insort (g x) (map g ys)"
  for g :: "'a \<Rightarrow> 'b::linorder"
  by (induction ys) simp_all

lemma map_qsort: "(\<And>x y. f x y \<le> 0 \<longleftrightarrow> g x \<le> g y) \<Longrightarrow> map g (qsort f xs) = sort (map g xs)"
  for g :: "'a \<Rightarrow> 'b::linorder"
  by (induction xs) (simp_all add: qsort_def map_insert_cmp)

section \<open>The elements\<close>

definition element :: "byte list \<Rightarrow> bool" where
  "element e \<longleftrightarrow> (\<exists>t body. length body < 2 ^ 32 \<and> e = der t body)"

lemma element_not_Nil: "element e \<Longrightarrow> e \<noteq> []"
  unfolding element_def using der_not_Nil by metis

lemma element_read:
  "CBS_get_any_asn1_element m c = Ok (out, r) c' \<Longrightarrow> takes m c (cbs_bytes m out) c' \<and> element (cbs_bytes m out)"
proof -
  assume "CBS_get_any_asn1_element m c = Ok (out, r) c'"
  then obtain t body where body: "length body < 2 ^ 32" "takes m c (der t body) c'"
    "out = CBS_init (cbs_data c) (of_nat (length (der t body)))" by (cases r) (auto simp only: element_Ok)
  have "length (der t body) < 2 ^ 64" using takes_len [OF body(2)] unat_less64 [of "cbs_len c"] by linarith
  then have "unat (of_nat (length (der t body)) :: u64) = length (der t body)" by (rule unat_of_nat_addr)
  then have "cbs_bytes m out = der t body" using body(2,3) by (simp add: takes_iff cbs_bytes_def CBS_init_def)
  with body show ?thesis by (auto simp: element_def)
qed

lemma element_there:
  assumes "cbs_bytes m c = e @ rest" "element e"
  shows "\<exists>out r c'. CBS_get_any_asn1_element m c = Ok (out, r) c' \<and> cbs_bytes m out = e \<and> cbs_bytes m c' = rest"
proof -
  from assms(2) obtain t body where e: "length body < 2 ^ 32" "e = der t body" by (auto simp: element_def)
  have t: "takes m c (der t body) (cbs_drop (length e) c)" using takes_front [OF assms(1)] e(2) by simp
  with e(1) obtain out r where g: "CBS_get_any_asn1_element m c = Ok (out, r) (cbs_drop (length e) c)"
    "cbs_len out = of_nat (length e)"
    using element_Ok [of m c _ t _ "cbs_drop (length e) c"] e(2) by (fastforce simp: CBS_init_def)
  have "length e < 2 ^ 64" using takes_len [OF t] unat_less64 [of "cbs_len c"] unfolding e(2) by linarith
  then have "length (cbs_bytes m out) = length e" using g(2) by (simp add: unat_of_nat_addr)
  then have "cbs_bytes m out = e"
    using takes_same [OF conjunct1 [OF element_read [OF g(1)]] t] e(2) by simp
  moreover have "cbs_bytes m (cbs_drop (length e) c) = rest" using takes_bytes [OF t] assms(1) e(2) by simp
  ultimately have "cbs_bytes m out = e \<and> cbs_bytes m (cbs_drop (length e) c) = rest" by blast
  with g(1) show ?thesis by blast
qed

lemma get_elements_Some:
  "get_elements m n c = Some cs \<Longrightarrow> concat (map (cbs_bytes m) cs) = cbs_bytes m c \<and> (\<forall>e\<in>set cs. element (cbs_bytes m e))"
proof (induction n arbitrary: c cs)
  case 0
  then show ?case by (auto simp: get_elements.simps [of _ 0] CBS_len_def cbs_bytes_def split: if_splits)
next
  case (Suc n)
  show ?case
  proof (cases "cbs_len c = 0")
    case True
    with Suc.prems show ?thesis by (simp add: get_elements.simps [of _ "Suc n"] CBS_len_def cbs_bytes_def)
  next
    case False
    with Suc.prems obtain out r c1 cs1 where s: "CBS_get_any_asn1_element m c = Ok (out, r) c1"
      "get_elements m n c1 = Some cs1" "cs = out # cs1"
      by (auto simp: get_elements.simps [of _ "Suc n"] CBS_len_def split: outcome.splits)
    with Suc.IH [OF s(2)] element_read [OF s(1)] show ?thesis by (auto dest: takes_bytes)
  qed
qed

lemma get_elements_exact:
  "cbs_bytes m c = concat es \<Longrightarrow> \<forall>e\<in>set es. element e \<Longrightarrow> length es \<le> n \<Longrightarrow>
   \<exists>cs. get_elements m n c = Some cs \<and> map (cbs_bytes m) cs = es"
proof (induction es arbitrary: n c)
  case Nil
  then have "cbs_len c = 0" using length_cbs_bytes [of m c] by (simp add: unat_eq_zero)
  then show ?case by (simp add: get_elements.simps CBS_len_def)
next
  case (Cons e es)
  then obtain n' where n: "n = Suc n'" by (cases n) auto
  have e: "cbs_bytes m c = e @ concat es" "element e" using Cons.prems by simp_all
  from element_there [OF this] obtain out r c1 where g: "CBS_get_any_asn1_element m c = Ok (out, r) c1"
    "cbs_bytes m out = e" "cbs_bytes m c1 = concat es" by blast
  from Cons.IH [OF g(3), of n'] Cons.prems n obtain cs where "get_elements m n' c1 = Some cs" "map (cbs_bytes m) cs = es"
    by auto
  moreover have "cbs_len c \<noteq> 0" using e element_not_Nil [of e] by (auto simp: cbs_bytes_def)
  ultimately show ?case using g(1,2) n by (intro exI [of _ "out # cs"]) (simp add: get_elements.simps [of _ "Suc n'"] CBS_len_def)
qed

lemma elements_length: "\<forall>e\<in>set es. element e \<Longrightarrow> length es \<le> length (concat es)"
proof (induction es)
  case (Cons e es)
  then have "1 \<le> length e" using element_not_Nil [of e] by (cases e) simp_all
  moreover have "length es \<le> length (concat es)" using Cons by simp
  ultimately show ?case by simp
qed simp

text \<open>The elements that the code counts are the only ones there are.\<close>

lemma elements_of_list:
  assumes "length buf < 2 ^ 64" "m = list_mem buf" "c = CBS_init 0 (of_nat (length buf))"
  shows "(case get_elements m (length buf) c of
      Some cs \<Rightarrow> \<forall>es. concat es = buf \<and> (\<forall>e\<in>set es. element e) \<longleftrightarrow> es = map (cbs_bytes m) cs
    | None \<Rightarrow> \<not> (\<exists>es. concat es = buf \<and> (\<forall>e\<in>set es. element e)))"
proof -
  have "unat (of_nat (length buf) :: u64) = length buf" using assms(1) by (rule unat_of_nat_addr)
  then have bytes: "cbs_bytes m c = buf" by (simp add: assms(2,3) cbs_bytes_list_mem)
  show ?thesis
  proof (cases "get_elements m (length buf) c")
    case None
    moreover have False if "concat es = buf" "\<forall>e\<in>set es. element e" for es
      using get_elements_exact [of m c es "length buf"] elements_length [of es] bytes that None by auto
    ultimately show ?thesis by auto
  next
    case (Some cs)
    have "es = map (cbs_bytes m) cs" if "concat es = buf" "\<forall>e\<in>set es. element e" for es
      using get_elements_exact [of m c es "length buf"] elements_length [of es] bytes that Some by auto
    then show ?thesis using get_elements_Some [OF Some] unfolding Some bytes by auto
  qed
qed

lemma elements_unique:
  assumes "concat fs = concat es" "\<forall>e\<in>set fs. element e" "\<forall>e\<in>set es. element e" "length (concat es) < 2 ^ 64"
  shows "fs = es"
proof (cases "get_elements (list_mem (concat es)) (length (concat es)) (CBS_init 0 (of_nat (length (concat es))))")
  case None
  with elements_of_list [OF assms(4) refl refl] show ?thesis using assms(3) by auto
next
  case (Some cs)
  note parts = elements_of_list [OF assms(4) refl refl, unfolded Some option.case, rule_format]
  show ?thesis using parts [of fs] parts [of es] assms(1-3) by metis
qed

section \<open>Rewinding and writing again\<close>

lemma contents_built:
  assumes "builds h b p s bs []" "unat (CBB_data p h) = s"
  shows "the (cbb_base (cbbs h p)) = b" "unat (CBB_len p h) = length bs" "CBB_contents p h = bs"
proof -
  show base: "the (cbb_base (cbbs h p)) = b" using assms(1) by (simp add: builds_def)
  have len: "unat (bb_len (buffers h b)) = s + length bs"
    using builds_length(1) [OF assms(1)] length_written [of "buffers h b"] assms(1) by (simp add: builds_def)
  have "CBB_len p h = bb_len (buffers h b) - CBB_data p h"
    unfolding CBB_len_def base CBB_data_def by (simp add: algebra_simps)
  then show n: "unat (CBB_len p h) = length bs"
    using len assms(2) by (simp add: unat_sub word_le_nat_alt)
  have "drop s (bb_written (buffers h b)) = bs" using assms(1) by (simp add: builds_def)
  then show "CBB_contents p h = bs"
    unfolding CBB_contents_def base assms(2) n bb_written_def len by (simp add: drop_take)
qed

lemma rewind_built:
  assumes "builds h b p s bs []" "unat (CBB_data p h) = s"
  shows "builds (set_buffer b (\<lambda>bb. bb\<lparr>bb_len := CBB_data p h\<rparr>) h) b p s [] []"
    "keeps b s {} h (set_buffer b (\<lambda>bb. bb\<lparr>bb_len := CBB_data p h\<rparr>) h)"
    "roomy (set_buffer b (\<lambda>bb. bb\<lparr>bb_len := CBB_data p h\<rparr>) h) b (s + length bs)"
proof -
  have ok: "buffer_ok (buffers h b)" using assms(1) by (simp add: builds_def)
  have len: "unat (bb_len (buffers h b)) = s + length bs"
    using builds_length(1) [OF assms(1)] length_written [OF ok] by simp
  then have cap: "s + length bs \<le> unat (bb_cap (buffers h b))" using ok by (simp add: buffer_ok_def word_le_nat_alt)
  have "length (take s (bb_buf (buffers h b))) = s" using ok cap by (simp add: buffer_ok_def)
  then show "builds (set_buffer b (\<lambda>bb. bb\<lparr>bb_len := CBB_data p h\<rparr>) h) b p s [] []"
    using assms ok cap by (simp add: builds_def buffer_ok_def bb_written_def word_le_nat_alt)
  show "keeps b s {} h (set_buffer b (\<lambda>bb. bb\<lparr>bb_len := CBB_data p h\<rparr>) h)"
    using assms(2) len by (simp add: keeps_def bb_written_def min_def)
  show "roomy (set_buffer b (\<lambda>bb. bb\<lparr>bb_len := CBB_data p h\<rparr>) h) b (s + length bs)"
    using cap builds_length(2) [OF assms(1)] by (simp add: roomy_def)
qed

lemma add_all_writes: "bss \<noteq> [] \<Longrightarrow> \<forall>bs\<in>set bss. length bs < 2 ^ 64 \<Longrightarrow> writes d C p (add_all p bss) (Some (concat bss))"
proof (induction bss)
  case (Cons bs bss)
  have bs: "writes d C p (CBB_add_bytes p bs) (Some bs)" using Cons.prems by (intro add_bytes_writes) simp
  show ?case
  proof (cases "bss = []")
    case True
    with bs show ?thesis by (simp add: mthen_return)
  next
    case False
    from writes_then [OF bs Cons.IH [OF this]] Cons.prems show ?thesis by simp
  qed
qed simp

text \<open>Written again in another order, the elements take the room they had: this cannot fail.\<close>

lemma rewritten:
  assumes "builds h b p s (concat es) []" "unat (CBB_data p h) = s" "mset fs = mset es" "fs \<noteq> []"
  shows "\<exists>h'. add_all p fs (set_buffer b (\<lambda>bb. bb\<lparr>bb_len := CBB_data p h\<rparr>) h) = Ok () h' \<and>
    builds h' b p s (concat fs) [] \<and> keeps b s {p} h h'"
proof -
  let ?h = "set_buffer b (\<lambda>bb. bb\<lparr>bb_len := CBB_data p h\<rparr>) h"
  note r = rewind_built [OF assms(1,2)]
  have len: "length (concat fs) = length (concat es)"
    using arg_cong [OF assms(3), of "image_mset length"]
    by (simp add: length_concat flip: mset_map sum_mset_sum_list)
  have "length f < 2 ^ 64" if "f \<in> set fs" for f
  proof -
    have "length f \<le> length (concat fs)" using that by (metis concat.simps concat_append length_append le_add1 le_add2 split_list trans_le_add2)
    then show ?thesis using builds_length(2) [OF assms(1)] len by simp
  qed
  then have w: "writes 0 {} p (add_all p fs) (Some (concat fs))" using assms(4) by (intro add_all_writes) auto
  have "0 < flush_depth ?h" using r(1) by (simp add: builds_def)
  from writesD [OF w r(1) this] r(3) len obtain h' where "add_all p fs ?h = Ok () h'" "builds h' b p s (concat fs) []"
    "keeps b s {p} ?h h'" by (auto simp: built_def split: outcome.splits)
  with keeps_trans [OF keeps_mono [OF r(2)]] show ?thesis by blast
qed

text \<open>C21. \<open>CBB_flush_asn1_set_of\<close> closes the chain and, where the content is a sequence of DER elements, leaves
  exactly these elements in the lexicographic order of their bytes, in the room they had. It fails only where the
  content is nothing of the kind, or the flush or the allocator fails, and it always returns.\<close>

theorem set_of_sorted:
  assumes "builds h b p s bs ks" "unat (CBB_data p h) = s"
  shows "(case CBB_flush_asn1_set_of p h of
      Ok _ h' \<Rightarrow> (\<exists>cs es. closed ks = Some cs \<and> concat es = bs @ cs \<and> (\<forall>e\<in>set es. element e) \<and>
        builds h' b p s (concat (sort es)) [] \<and> keeps b s (insert p (cells ks)) h h')
    | Fail _ \<Rightarrow> \<not> (\<exists>cs es. closed ks = Some cs \<and> concat es = bs @ cs \<and> (\<forall>e\<in>set es. element e) \<and> length es < 2 ^ 60 \<and>
        roomy h b (s + length bs + length cs) \<and> (\<forall>k. allocates h k))
    | _ \<Rightarrow> False)"
proof (cases "CBB_flush p h")
  case (Fail h1)
  then show ?thesis using flush_built [OF assms(1)]
    by (auto simp: CBB_flush_asn1_set_of_def mthen_def mbind_def flushed_def)
next
  case (Ok u h1)
  then obtain cs where h1: "closed ks = Some cs" "builds h1 b p s (bs @ cs) []" "in_place p h h1"
    "keeps b s (insert p (cells ks)) h h1"
    using flush_built [OF assms(1)] by (auto simp: flushed_def)
  have data: "unat (CBB_data p h1) = s"
    using assms(2) in_place_fields [OF h1(3)] by (simp add: CBB_data_def)
  let ?buf = "bs @ cs" and ?m = "list_mem (bs @ cs)" and ?n = "CBB_len p h1"
  note c = contents_built [OF h1(2) data]
  have n: "?n = of_nat (length ?buf)" using c(2) by (metis of_nat_unat ucast_id)
  have short: "length ?buf < 2 ^ 64" using builds_length(2) [OF h1(2)] by simp
  let ?out = "case get_elements ?m (length ?buf) (CBS_init 0 ?n) of
         None \<Rightarrow> Fail h1
       | Some children \<Rightarrow>
           if length children < 2 then Ok () h1
           else if 0xFFFFFFFFFFFFFFFF div 16 < length children then Fail h1
           else if \<not> allocates h1 ?n \<or> \<not> allocates h1 (of_nat (length children) * 16) then Fail h1
           else add_all p (map (cbs_bytes ?m) (qsort (compare_set_of_element ?m) children))
             (set_buffer b (\<lambda>bb. bb\<lparr>bb_len := CBB_data p h1\<rparr>) h1)"
  have run: "CBB_flush_asn1_set_of p h = ?out"
    unfolding CBB_flush_asn1_set_of_def mthen_def mbind_def Ok outcome.case Let_def c cbs_bytes_def CBS_data_def CBS_len_def
    by (rule refl)
  note parts = elements_of_list [OF short refl refl, folded n]
  show ?thesis
  proof (cases "get_elements ?m (length ?buf) (CBS_init 0 ?n)")
    case None
    then show ?thesis using parts h1(1) unfolding run by auto
  next
    case (Some children)
    define es where "es = map (cbs_bytes ?m) children"
    have es: "concat es = ?buf" "\<forall>e\<in>set es. element e" "length es = length children"
      using parts [unfolded Some option.case, rule_format, of es] by (simp_all add: es_def)
    have sorted: "map (cbs_bytes ?m) (qsort (compare_set_of_element ?m) children) = sort es"
      unfolding es_def using compare_order by (rule map_qsort)
    have al: "allocates h1 = allocates h" using h1(4) by (simp add: keeps_def)
    have other: "es' = es" if "concat es' = ?buf" "\<forall>e\<in>set es'. element e" for es'
      using parts that unfolding Some es_def by auto
    consider "length es < 2" | "\<not> length es < 2" "0xFFFFFFFFFFFFFFFF div 16 < length es \<or> \<not> allocates h1 ?n \<or> \<not> allocates h1 (of_nat (length es) * 16)"
      | "\<not> length es < 2" "\<not> 0xFFFFFFFFFFFFFFFF div 16 < length es" "allocates h1 ?n" "allocates h1 (of_nat (length es) * 16)"
      by blast
    then show ?thesis
    proof cases
      case 1
      then have "sort es = es" by (cases es) auto
      then show ?thesis using 1 Some h1(1,2,4) es unfolding run by (simp add: es(3) exI [of _ es])
    next
      case 2
      then have "?out = Fail h1" using Some by (auto simp: es(3))
      moreover have "\<not> (length es < 2 ^ 60 \<and> (\<forall>k. allocates h k))" using 2 al by auto
      ultimately show ?thesis using other h1(1) unfolding run by auto
    next
      case 3
      have builds: "builds h1 b p s (concat es) []" using h1(2) es(1) by simp
      have "sort es \<noteq> []"
      proof
        assume "sort es = []"
        then have "length (sort es) = 0" by (simp only: list.size)
        with 3(1) show False by simp
      qed
      from rewritten [OF builds data mset_sort this] obtain h2 where
        "add_all p (sort es) (set_buffer b (\<lambda>bb. bb\<lparr>bb_len := CBB_data p h1\<rparr>) h1) = Ok () h2"
        "builds h2 b p s (concat (sort es)) []" "keeps b s {p} h1 h2" by blast
      then show ?thesis using 3 Some h1(1) es keeps_trans [OF h1(4) keeps_mono] unfolding run
        by (auto simp: es(3) sorted intro!: exI [of _ es])
    qed
  qed
qed (use flush_built [OF assms(1)] in \<open>simp_all add: flushed_def\<close>)

definition set_sample :: cbb_store where
  "set_sample = \<lparr>buffers = (\<lambda>_. \<lparr>bb_buf = [0x31, 0, 2, 1, 5, 1, 1, 0, 9, 9], bb_len = 8, bb_cap = 10, bb_can_resize = False, bb_error = False\<rparr>),
     cbbs = (\<lambda>_. \<lparr>cbb_base = None, cbb_child = None, cbb_offset = 0, pending_len_len = 0, pending_is_asn1 = False, is_child = False\<rparr>)
       (1 := \<lparr>cbb_base = Some 0, cbb_child = None, cbb_offset = 1, pending_len_len = 1, pending_is_asn1 = True, is_child = True\<rparr>),
     allocates = (\<lambda>_. True), flush_depth = 3\<rparr>"

theorem set_of_sorted_witness:
  "\<exists>h'. CBB_flush_asn1_set_of 1 set_sample = Ok () h' \<and>
      bb_written (buffers h' 0) = [0x31, 0, 1, 1, 0, 2, 1, 5]"
proof -
  have at: "builds set_sample 0 1 2 [2, 1, 5, 1, 1, 0] []" "unat (CBB_data 1 set_sample) = 2"
    by (simp_all add: set_sample_def builds_def buffer_ok_def bb_written_def CBB_data_def)
  let ?es = "[[2, 1, 5], [1, 1, 0]] :: byte list list"
  have "element [2, 1, 5]" "element [1, 1, 0]"
    unfolding element_def
    by (rule exI [of _ 2], rule exI [of _ "[5]"], simp add: der_def der_header_def der_tag_def der_length_def tag_class_def tag_number_def)
      (rule exI [of _ 1], rule exI [of _ "[0]"], simp add: der_def der_header_def der_tag_def der_length_def tag_class_def tag_number_def)
  then have es: "concat ?es = [2, 1, 5, 1, 1, 0] @ []" "\<forall>e\<in>set ?es. element e" by simp_all
  have "roomy set_sample 0 (2 + length [2 :: byte, 1, 5, 1, 1, 0] + length ([] :: byte list))" "\<forall>k. allocates set_sample k"
    by (simp_all add: set_sample_def roomy_def)
  then have served: "\<exists>cs es. closed [] = Some cs \<and> concat es = [2, 1, 5, 1, 1, 0] @ cs \<and> (\<forall>e\<in>set es. element e) \<and>
      length es < 2 ^ 60 \<and> roomy set_sample 0 (2 + length [2 :: byte, 1, 5, 1, 1, 0] + length cs) \<and> (\<forall>k. allocates set_sample k)"
    using es by (intro exI [of _ "[]"] exI [of _ ?es]) simp
  obtain h' fs where h': "CBB_flush_asn1_set_of 1 set_sample = Ok () h'"
    "concat fs = concat ?es" "\<forall>e\<in>set fs. element e" "builds h' 0 1 2 (concat (sort fs)) []" "keeps 0 2 {1} set_sample h'"
  proof (cases "CBB_flush_asn1_set_of 1 set_sample")
    case (Ok u h')
    with set_of_sorted [OF at] that show thesis by auto
  qed (use set_of_sorted [OF at] served in \<open>simp_all only: outcome.case not_True_eq_False\<close>)
  have "fs = ?es" using elements_unique [OF h'(2,3) es(2)] by simp
  with h'(4) have "builds h' 0 1 2 [1, 1, 0, 2, 1, 5] []" by simp
  have "take 2 (bb_written (buffers h' 0)) = [0x31, 0]"
    using h'(5) by (simp add: keeps_def set_sample_def bb_written_def)
  with written_at [OF \<open>builds h' 0 1 2 [1, 1, 0, 2, 1, 5] []\<close>] h'(1) show ?thesis by simp
qed

end
