(* ===== verification/Unicode.thy ===== *)
theory Unicode
  imports CBB_Run
begin

unbundle bit_operations_syntax

text \<open>
  \<open>bytestring/unicode.c\<close>: the readers and writers of one code point in UTF-8, Latin-1, UCS-2 and
  UTF-32, each an instance of \<open>codec\<close>. A reader accepts exactly the encodings of the valid code
  points: no overlong form, no surrogate, nothing above 0x10FFFF.
\<close>

section \<open>The code\<close>

definition is_valid_code_point :: "u32 \<Rightarrow> bool" where
  "is_valid_code_point v =
     (if 0x10FFFF < v \<or> v AND 0xFFFE = 0xFFFE \<or> 0xFDD0 \<le> v \<and> v \<le> 0xFDEF \<or> 0xD800 \<le> v \<and> v \<le> 0xDFFF then False
      else True)"

definition BOTTOM_BITS :: "nat \<Rightarrow> byte" where
  "BOTTOM_BITS n = ucast ((push_bit n 1 :: u32) - 1)"

definition TOP_BITS :: "nat \<Rightarrow> byte" where
  "TOP_BITS n = NOT (BOTTOM_BITS (8 - n))"

text \<open>The value so far, the number of bytes that follow and the least value of this length.\<close>

definition utf8_lead :: "byte \<Rightarrow> (u32 \<times> nat \<times> u32) option" where
  "utf8_lead c =
     (if c AND TOP_BITS 3 = TOP_BITS 2 then Some (ucast (c AND BOTTOM_BITS 5), 1, 0x80)
      else if c AND TOP_BITS 4 = TOP_BITS 3 then Some (ucast (c AND BOTTOM_BITS 4), 2, 0x800)
      else if c AND TOP_BITS 5 = TOP_BITS 4 then Some (ucast (c AND BOTTOM_BITS 3), 3, 0x10000)
      else None)"

fun utf8_tail :: "mem \<Rightarrow> nat \<Rightarrow> u32 \<Rightarrow> u32 reader" where
  "utf8_tail m 0 v = mreturn v"
| "utf8_tail m (Suc n) v = mbind (CBS_get_u8 m) (\<lambda>c.
     if c AND TOP_BITS 2 \<noteq> TOP_BITS 1 then Fail
     else utf8_tail m n (push_bit 6 v OR ucast (c AND BOTTOM_BITS 6)))"

definition cbs_get_utf8 :: "mem \<Rightarrow> u32 reader" where
  "cbs_get_utf8 m = mbind (CBS_get_u8 m) (\<lambda>c.
     if c \<le> 0x7F then mreturn (ucast c)
     else case utf8_lead c of
       None \<Rightarrow> Fail
     | Some (v, len, lower_bound) \<Rightarrow> mbind (utf8_tail m len v) (\<lambda>v.
         if \<not> is_valid_code_point v \<or> v < lower_bound then Fail else mreturn v))"

definition cbs_get_latin1 :: "mem \<Rightarrow> u32 reader" where
  "cbs_get_latin1 m = mbind (CBS_get_u8 m) (\<lambda>c. mreturn (ucast c))"

definition cbs_get_ucs2_be :: "mem \<Rightarrow> u32 reader" where
  "cbs_get_ucs2_be m = mbind (CBS_get_u16 m) (\<lambda>c.
     if \<not> is_valid_code_point (ucast c) then Fail else mreturn (ucast c))"

definition cbs_get_utf32_be :: "mem \<Rightarrow> u32 reader" where
  "cbs_get_utf32_be m = mbind (CBS_get_u32 m) (\<lambda>out. if is_valid_code_point out then mreturn out else Fail)"

definition cbb_get_utf8_len :: "u32 \<Rightarrow> u64" where
  "cbb_get_utf8_len u = (if u \<le> 0x7F then 1 else if u \<le> 0x7FF then 2 else if u \<le> 0xFFFF then 3 else 4)"

definition cbb_add_utf8 :: "nat \<Rightarrow> u32 \<Rightarrow> unit builder" where
  "cbb_add_utf8 p u =
     (if \<not> is_valid_code_point u then Fail
      else if u \<le> 0x7F then CBB_add_u8 p (ucast u)
      else if u \<le> 0x7FF then
        mthen (CBB_add_u8 p (ucast (ucast (TOP_BITS 2) OR drop_bit 6 u)))
          (CBB_add_u8 p (ucast (ucast (TOP_BITS 1) OR (u AND ucast (BOTTOM_BITS 6)))))
      else if u \<le> 0xFFFF then
        mthen (CBB_add_u8 p (ucast (ucast (TOP_BITS 3) OR drop_bit 12 u)))
          (mthen (CBB_add_u8 p (ucast (ucast (TOP_BITS 1) OR (drop_bit 6 u AND ucast (BOTTOM_BITS 6)))))
            (CBB_add_u8 p (ucast (ucast (TOP_BITS 1) OR (u AND ucast (BOTTOM_BITS 6))))))
      else if u \<le> 0x10FFFF then
        mthen (CBB_add_u8 p (ucast (ucast (TOP_BITS 4) OR drop_bit 18 u)))
          (mthen (CBB_add_u8 p (ucast (ucast (TOP_BITS 1) OR (drop_bit 12 u AND ucast (BOTTOM_BITS 6)))))
            (mthen (CBB_add_u8 p (ucast (ucast (TOP_BITS 1) OR (drop_bit 6 u AND ucast (BOTTOM_BITS 6)))))
              (CBB_add_u8 p (ucast (ucast (TOP_BITS 1) OR (u AND ucast (BOTTOM_BITS 6)))))))
      else Fail)"

definition cbb_add_latin1 :: "nat \<Rightarrow> u32 \<Rightarrow> unit builder" where
  "cbb_add_latin1 p u = (if u \<le> 0xFF then CBB_add_u8 p (ucast u) else Fail)"

definition cbb_add_ucs2_be :: "nat \<Rightarrow> u32 \<Rightarrow> unit builder" where
  "cbb_add_ucs2_be p u = (if u \<le> 0xFFFF \<and> is_valid_code_point u then CBB_add_u16 p (ucast u) else Fail)"

definition cbb_add_utf32_be :: "nat \<Rightarrow> u32 \<Rightarrow> unit builder" where
  "cbb_add_utf32_be p u = (if is_valid_code_point u then CBB_add_u32 p u else Fail)"

section \<open>The encoding\<close>

definition code_point :: "nat \<Rightarrow> bool" where
  "code_point n \<longleftrightarrow> n \<le> 0x10FFFF \<and> n mod 0x10000 < 0xFFFE \<and> \<not> (0xFDD0 \<le> n \<and> n \<le> 0xFDEF) \<and>
     \<not> (0xD800 \<le> n \<and> n \<le> 0xDFFF)"

fun utf8_rest :: "nat \<Rightarrow> nat \<Rightarrow> byte list" where
  "utf8_rest 0 n = []"
| "utf8_rest (Suc k) n = of_nat (128 + n div 64 ^ k mod 64) # utf8_rest k n"

definition utf8 :: "nat \<Rightarrow> byte list" where
  "utf8 n =
     (if n < 0x80 then [of_nat n]
      else if n < 0x800 then of_nat (0xC0 + n div 64) # utf8_rest 1 n
      else if n < 0x10000 then of_nat (0xE0 + n div 64 ^ 2) # utf8_rest 2 n
      else of_nat (0xF0 + n div 64 ^ 3) # utf8_rest 3 n)"

section \<open>Bits\<close>

lemma BOTTOM_BITS_mask: "n \<le> 8 \<Longrightarrow> BOTTOM_BITS n = mask n"
proof -
  assume n: "n \<le> 8"
  have "(push_bit n 1 :: u32) - 1 = mask n" by (simp add: mask_eq_exp_minus_1)
  then show ?thesis using n by (auto simp: BOTTOM_BITS_def bit_simps intro!: bit_word_eqI)
qed

lemma TOP_BITS_mask: "n \<le> 8 \<Longrightarrow> TOP_BITS n = NOT (mask (8 - n))"
  by (simp add: TOP_BITS_def BOTTOM_BITS_mask)

lemma unat_and_not_mask: "unat (x AND NOT (mask k)) = unat (x :: 'a::len word) div 2 ^ k * 2 ^ k"
proof -
  have "x AND NOT (mask k) = push_bit k (drop_bit k x)"
    by (auto intro!: bit_word_eqI simp: bit_simps)
  then have "unat (x AND NOT (mask k)) = take_bit LENGTH('a) (push_bit k (drop_bit k (unat x)))"
    by (simp add: unsigned_push_bit_eq unat_drop_bit_eq)
  moreover have "unat x div 2 ^ k * 2 ^ k < 2 ^ LENGTH('a)"
    using div_times_less_eq_dividend [of "unat x" "2 ^ k"] unsigned_less [of x] by (rule le_less_trans)
  ultimately show ?thesis
    by (simp only: push_bit_eq_mult drop_bit_eq_div take_bit_nat_eq_self)
qed

lemma top_iff:
  assumes "a * 2 ^ k < 256"
  shows "c AND NOT (mask k) = (of_nat (a * 2 ^ k) :: byte) \<longleftrightarrow> unat c div 2 ^ k = a"
proof -
  have "c AND NOT (mask k) = (of_nat (a * 2 ^ k) :: byte) \<longleftrightarrow> unat c div 2 ^ k * 2 ^ k = a * 2 ^ k"
    unfolding word_unat_eq_iff unat_and_not_mask byte_nat [OF assms] ..
  then show ?thesis by simp
qed

lemma top_bits:
  "TOP_BITS 1 = 0x80" "TOP_BITS 2 = 0xC0" "TOP_BITS 3 = 0xE0" "TOP_BITS 4 = 0xF0" "TOP_BITS 5 = 0xF8"
  by (simp_all add: TOP_BITS_def BOTTOM_BITS_def)

lemma lead_iff:
  "c AND TOP_BITS 2 = TOP_BITS 1 \<longleftrightarrow> unat c div 64 = 2"
  "c AND TOP_BITS 3 = TOP_BITS 2 \<longleftrightarrow> unat c div 32 = 6"
  "c AND TOP_BITS 4 = TOP_BITS 3 \<longleftrightarrow> unat c div 16 = 14"
  "c AND TOP_BITS 5 = TOP_BITS 4 \<longleftrightarrow> unat c div 8 = 30"
proof -
  have masks: "NOT (mask 6) = (0xC0 :: byte)" "NOT (mask 5) = (0xE0 :: byte)" "NOT (mask 4) = (0xF0 :: byte)" "NOT (mask 3) = (0xF8 :: byte)"
    using TOP_BITS_mask [of 2] TOP_BITS_mask [of 3] TOP_BITS_mask [of 4] TOP_BITS_mask [of 5] top_bits by simp_all
  show
    "c AND TOP_BITS 2 = TOP_BITS 1 \<longleftrightarrow> unat c div 64 = 2"
    "c AND TOP_BITS 3 = TOP_BITS 2 \<longleftrightarrow> unat c div 32 = 6"
    "c AND TOP_BITS 4 = TOP_BITS 3 \<longleftrightarrow> unat c div 16 = 14"
    "c AND TOP_BITS 5 = TOP_BITS 4 \<longleftrightarrow> unat c div 8 = 30"
    using top_iff [of 2 6 c] top_iff [of 6 5 c] top_iff [of 14 4 c] top_iff [of 30 3 c]
    unfolding masks top_bits by simp_all
qed

lemma low_bits: "n \<le> 8 \<Longrightarrow> unat (ucast (c AND BOTTOM_BITS n) :: u32) = unat c mod 2 ^ n"
  by (simp add: unat_ucast_up BOTTOM_BITS_mask unat_and_mask)

lemma valid_iff: "is_valid_code_point v \<longleftrightarrow> code_point (unat v)"
proof -
  have "(0xFFFE :: u32) = mask 16 AND NOT (mask 1)" by (simp add: mask_eq_exp_minus_1)
  then have split: "v AND 0xFFFE = (v AND mask 16) AND NOT (mask 1)" by (simp only: and.assoc)
  have "unat (v AND 0xFFFE) = unat v mod 2 ^ 16 div 2 ^ 1 * 2 ^ 1"
    unfolding split unat_and_not_mask unat_and_mask ..
  then have "v AND 0xFFFE = 0xFFFE \<longleftrightarrow> unat v mod 0x10000 div 2 * 2 = 0xFFFE"
    by (simp add: word_unat_eq_iff)
  also have "\<dots> \<longleftrightarrow> 0xFFFE \<le> unat v mod 0x10000"
  proof -
    define k where "k = unat v mod 0x10000"
    have "k < 0x10000" by (simp add: k_def)
    then have "k div 2 * 2 = 0xFFFE \<longleftrightarrow> 0xFFFE \<le> k" by presburger
    then show ?thesis unfolding k_def .
  qed
  finally have "v AND 0xFFFE = 0xFFFE \<longleftrightarrow> 0xFFFE \<le> unat v mod 0x10000" .
  then show ?thesis
    by (simp add: is_valid_code_point_def code_point_def word_less_nat_alt word_le_nat_alt)
qed

section \<open>Reading UTF-8\<close>

lemma tail_step:
  assumes "64 * unat v + 64 \<le> 2 ^ 32"
  shows "unat (push_bit 6 v OR ucast (c AND BOTTOM_BITS 6) :: u32) = 64 * unat v + unat c mod 64"
proof -
  define d :: u32 where "d = ucast (c AND BOTTOM_BITS 6)"
  have d: "unat d = unat c mod 64" using low_bits [of 6 c] by (simp add: d_def)
  then have "unat d < 2 ^ 6" by simp
  then have "take_bit 6 d = d" unfolding fits_iff .
  then have "push_bit 6 v AND d = 0" by (auto simp: bit_eq_iff bit_simps)
  then have "push_bit 6 v OR d = push_bit 6 v + d" by (rule disjunctive_add_eq_or [symmetric])
  also have "\<dots> = of_nat (64 * unat v + unat d)" by (simp add: push_bit_eq_mult)
  finally show ?thesis
    unfolding d_def [symmetric] d using assms by (simp add: unat_of_nat take_bit_nat_eq_self del: of_nat_add of_nat_mult)
qed

lemma cont_byte:
  "unat (c :: byte) div 64 = 2 \<and> n = 64 * v + unat c mod 64 \<longleftrightarrow> c = of_nat (128 + n mod 64) \<and> n div 64 = v"
proof -
  have "unat (of_nat (128 + n mod 64) :: byte) = 128 + n mod 64"
    by (rule byte_nat) (simp add: order.strict_trans [OF mod_less_divisor])
  then have "c = of_nat (128 + n mod 64) \<longleftrightarrow> unat c = 128 + n mod 64"
    by (simp only: word_unat_eq_iff)
  moreover have "unat c div 64 = 2 \<and> n = 64 * v + unat c mod 64" if "unat c = 128 + n mod 64" "n div 64 = v"
  proof -
    have "(128 + n mod 64) div 64 = 2" by (rule div_nat_eqI) simp_all
    then show ?thesis using that mult_div_mod_eq [of 64 n] by (simp add: modulo_nat_def [of "128 + n mod 64"])
  qed
  moreover have "unat c = 128 + n mod 64 \<and> n div 64 = v" if "unat c div 64 = 2" "n = 64 * v + unat c mod 64"
    using that mult_div_mod_eq [of 64 "unat c"] by simp
  ultimately show ?thesis by blast
qed

lemma returns_Fail: "returns Fail"
  by (simp add: returns_def)

lemma tail_reads:
  "(unat v + 1) * 64 ^ n \<le> 2 ^ 32 \<Longrightarrow>
   utf8_tail m n v c = Ok w c' \<longleftrightarrow> unat w div 64 ^ n = unat v \<and> takes m c (utf8_rest n (unat w)) c'"
proof (induction n arbitrary: v c)
  case 0
  then show ?case by (auto simp: word_unat_eq_iff)
next
  case (Suc n)
  have p: "64 ^ Suc n * unat v + 64 ^ Suc n \<le> 2 ^ 32" using Suc.prems by (simp add: algebra_simps)
  have one: "(1 :: nat) \<le> 64 ^ n" by simp
  let ?q = "unat w div 64 ^ n"
  have "utf8_tail m (Suc n) v c = Ok w c' \<longleftrightarrow>
      (\<exists>b c1. takes m c [b] c1 \<and> unat b div 64 = 2 \<and> utf8_tail m n (push_bit 6 v OR ucast (b AND BOTTOM_BITS 6)) c1 = Ok w c')"
    unfolding utf8_tail.simps reader_bind [OF u8.value_reader_axioms] lead_iff by auto
  also have "\<dots> \<longleftrightarrow> (\<exists>b c1. takes m c [b] c1 \<and> unat b div 64 = 2 \<and> ?q = 64 * unat v + unat b mod 64 \<and>
      takes m c1 (utf8_rest n (unat w)) c')"
  proof -
    have "(64 * unat v + 64) * 1 \<le> (64 * unat v + 64) * 64 ^ n" by (intro mult_left_mono one) simp
    then have small: "64 * unat v + 64 \<le> 2 ^ 32" using p by (simp add: algebra_simps)
    have "(unat (push_bit 6 v OR ucast (b AND BOTTOM_BITS 6) :: u32) + 1) * 64 ^ n \<le> 2 ^ 32" for b
    proof -
      have "unat b mod 64 + 1 \<le> 64" by (simp add: Suc_le_eq)
      then have "(64 * unat v + unat b mod 64 + 1) * 64 ^ n \<le> (64 * unat v + 64) * 64 ^ n"
        by (intro mult_right_mono) simp_all
      also have "\<dots> \<le> 2 ^ 32" using p by (simp add: algebra_simps)
      finally show ?thesis unfolding tail_step [OF small] .
    qed
    from Suc.IH [OF this] show ?thesis unfolding tail_step [OF small] by blast
  qed
  also have "\<dots> \<longleftrightarrow> (\<exists>b c1. takes m c [b] c1 \<and> b = of_nat (128 + ?q mod 64) \<and> ?q div 64 = unat v \<and>
      takes m c1 (utf8_rest n (unat w)) c')"
    using cont_byte [of _ ?q "unat v"] by blast
  also have "\<dots> \<longleftrightarrow> unat w div 64 ^ Suc n = unat v \<and> takes m c (utf8_rest (Suc n) (unat w)) c'"
  proof -
    have "unat w div 64 ^ Suc n = ?q div 64" unfolding power_Suc2 by (rule div_mult2_eq)
    then show ?thesis unfolding utf8_rest.simps takes_Cons [of m c _ "utf8_rest n (unat w)"] by auto
  qed
  finally show ?case .
qed

lemma div_bounds: "0 < (q :: nat) \<Longrightarrow> k div q = a \<longleftrightarrow> q * a \<le> k \<and> k < q * Suc a"
  using div_nat_eqI [of q a k] dividend_less_times_div [of q k] by auto

lemma class_bounds:
  "unat (b :: byte) div 64 = 2 \<longleftrightarrow> 128 \<le> unat b \<and> unat b < 192"
  "unat (b :: byte) div 32 = 6 \<longleftrightarrow> 192 \<le> unat b \<and> unat b < 224"
  "unat (b :: byte) div 16 = 14 \<longleftrightarrow> 224 \<le> unat b \<and> unat b < 240"
  "unat (b :: byte) div 8 = 30 \<longleftrightarrow> 240 \<le> unat b \<and> unat b < 248"
  by (simp_all add: div_bounds)

lemma utf8_first:
  assumes "code_point n"
  shows "utf8 n = b # rest \<longleftrightarrow>
    (if unat b < 128 then n = unat b \<and> rest = []
     else if unat b div 32 = 6 then 0x80 \<le> n \<and> n div 64 ^ 1 = unat b - 192 \<and> rest = utf8_rest 1 n
     else if unat b div 16 = 14 then 0x800 \<le> n \<and> n div 64 ^ 2 = unat b - 224 \<and> rest = utf8_rest 2 n
     else if unat b div 8 = 30 then 0x10000 \<le> n \<and> n div 64 ^ 3 = unat b - 240 \<and> rest = utf8_rest 3 n
     else False)"
proof -
  have head: "of_nat k = b \<longleftrightarrow> unat b = k" if "k < 256" for k
    using byte_nat [OF that] by (auto simp: word_unat_eq_iff)
  have n: "n \<le> 0x10FFFF" using assms by (simp add: code_point_def)
  consider "n < 0x80" | "0x80 \<le> n" "n < 0x800" | "0x800 \<le> n" "n < 0x10000" | "0x10000 \<le> n" by linarith
  then show ?thesis
  proof cases
    case 1
    have "n div 64 < 2" "n div 64 ^ 2 = 0" "n div 64 ^ 3 = 0" using 1 by simp_all
    then show ?thesis using 1 head [of n] unfolding class_bounds by (auto simp: utf8_def)
  next
    case 2
    have d: "2 \<le> n div 64" "n div 64 < 32" using 2 by linarith+
    then show ?thesis using 2 head [of "0xC0 + n div 64"] unfolding class_bounds by (auto simp: utf8_def)
  next
    case 3
    have d: "n div 64 ^ 2 < 16" "2 ^ 5 \<le> n div 64" using 3 by simp_all
    then show ?thesis using 3 head [of "0xE0 + n div 64 ^ 2"] unfolding class_bounds by (auto simp: utf8_def)
  next
    case 4
    have d: "n div 64 ^ 3 < 5" "16 \<le> n div 64 ^ 2" "2 ^ 5 \<le> n div 64" using 4 n by simp_all
    then show ?thesis using 4 head [of "0xF0 + n div 64 ^ 3"] unfolding class_bounds by (auto simp: utf8_def)
  qed
qed

text \<open>What the reader does behind its first byte.\<close>

lemma lead_values:
  "unat (ucast (b AND BOTTOM_BITS 5) :: u32) = unat b mod 32" "unat (ucast (b AND BOTTOM_BITS 4) :: u32) = unat b mod 16"
  "unat (ucast (b AND BOTTOM_BITS 3) :: u32) = unat b mod 8"
  using low_bits [of 5 b] low_bits [of 4 b] low_bits [of 3 b] by simp_all

lemma rest_reads:
  assumes "(unat v0 + 1) * 64 ^ k \<le> 2 ^ 32"
  shows "mbind (utf8_tail m k v0) (\<lambda>v. if \<not> is_valid_code_point v \<or> v < lb then Fail else mreturn v) c1 = Ok w c' \<longleftrightarrow>
    is_valid_code_point w \<and> unat lb \<le> unat w \<and> unat w div 64 ^ k = unat v0 \<and> takes m c1 (utf8_rest k (unat w)) c'"
  unfolding mbind_Ok_iff tail_reads [OF assms] by (auto simp: word_less_nat_alt not_less)

definition after_first :: "mem \<Rightarrow> byte \<Rightarrow> u32 reader" where
  "after_first m c =
     (if c \<le> 0x7F then mreturn (ucast c)
      else case utf8_lead c of
        None \<Rightarrow> Fail
      | Some (v, len, lower_bound) \<Rightarrow> mbind (utf8_tail m len v) (\<lambda>v.
          if \<not> is_valid_code_point v \<or> v < lower_bound then Fail else mreturn v))"

lemma after_first_reads:
  "after_first m b c1 = Ok w c' \<longleftrightarrow> is_valid_code_point w \<and> (\<exists>rest. utf8 (unat w) = b # rest \<and> takes m c1 rest c')"
proof -
  have spec: "is_valid_code_point w \<and> (\<exists>rest. utf8 (unat w) = b # rest \<and> takes m c1 rest c') \<longleftrightarrow>
      is_valid_code_point w \<and>
      (if unat b < 128 then unat w = unat b \<and> c' = c1
       else if unat b div 32 = 6 then 0x80 \<le> unat w \<and> unat w div 64 ^ 1 = unat b - 192 \<and> takes m c1 (utf8_rest 1 (unat w)) c'
       else if unat b div 16 = 14 then 0x800 \<le> unat w \<and> unat w div 64 ^ 2 = unat b - 224 \<and> takes m c1 (utf8_rest 2 (unat w)) c'
       else if unat b div 8 = 30 then 0x10000 \<le> unat w \<and> unat w div 64 ^ 3 = unat b - 240 \<and> takes m c1 (utf8_rest 3 (unat w)) c'
       else False)"
  proof (cases "is_valid_code_point w")
    case True
    show ?thesis
      unfolding utf8_first [OF True [unfolded valid_iff]] by (simp del: utf8_rest.simps power_Suc)
  qed simp
  consider "unat b < 128" | "128 \<le> unat b" "unat b div 32 = 6" | "128 \<le> unat b" "unat b div 32 \<noteq> 6" "unat b div 16 = 14"
    | "128 \<le> unat b" "unat b div 32 \<noteq> 6" "unat b div 16 \<noteq> 14" "unat b div 8 = 30"
    | "128 \<le> unat b" "unat b div 32 \<noteq> 6" "unat b div 16 \<noteq> 14" "unat b div 8 \<noteq> 30" by linarith
  then show ?thesis
  proof cases
    case 1
    have "code_point (unat b)" using 1 by (simp add: code_point_def)
    moreover have "w = ucast b \<longleftrightarrow> unat w = unat b"
      by (simp add: word_unat_eq_iff unat_ucast_up)
    ultimately show ?thesis unfolding spec using 1
      by (auto simp: after_first_def word_le_nat_alt valid_iff)
  next
    case 2
    have "unat b mod 32 = unat b - 192" using 2 by (simp add: modulo_nat_def)
    moreover have "(unat (ucast (b AND BOTTOM_BITS 5) :: u32) + 1) * 64 ^ 1 \<le> 2 ^ 32"
      unfolding lead_values using mod_less_divisor [of 32 "unat b"] by simp
    from rest_reads [OF this, of m "0x80" c1 w c'] have "after_first m b c1 = Ok w c' \<longleftrightarrow>
        is_valid_code_point w \<and> 0x80 \<le> unat w \<and> unat w div 64 ^ 1 = unat b mod 32 \<and> takes m c1 (utf8_rest 1 (unat w)) c'"
      using 2 unfolding after_first_def utf8_lead_def lead_iff lead_values by (simp add: word_le_nat_alt)
    ultimately show ?thesis unfolding spec using 2 by simp
  next
    case 3
    have "unat b mod 16 = unat b - 224" using 3 by (simp add: modulo_nat_def)
    moreover have "(unat (ucast (b AND BOTTOM_BITS 4) :: u32) + 1) * 64 ^ 2 \<le> 2 ^ 32"
      unfolding lead_values using mod_less_divisor [of 16 "unat b"] by simp
    from rest_reads [OF this, of m "0x800" c1 w c'] have "after_first m b c1 = Ok w c' \<longleftrightarrow>
        is_valid_code_point w \<and> 0x800 \<le> unat w \<and> unat w div 64 ^ 2 = unat b mod 16 \<and> takes m c1 (utf8_rest 2 (unat w)) c'"
      using 3 unfolding after_first_def utf8_lead_def lead_iff lead_values by (simp add: word_le_nat_alt)
    ultimately show ?thesis unfolding spec using 3 by simp
  next
    case 4
    have "unat b mod 8 = unat b - 240" using 4 by (simp add: modulo_nat_def)
    moreover have "(unat (ucast (b AND BOTTOM_BITS 3) :: u32) + 1) * 64 ^ 3 \<le> 2 ^ 32"
      unfolding lead_values using mod_less_divisor [of 8 "unat b"] by simp
    from rest_reads [OF this, of m "0x10000" c1 w c'] have "after_first m b c1 = Ok w c' \<longleftrightarrow>
        is_valid_code_point w \<and> 0x10000 \<le> unat w \<and> unat w div 64 ^ 3 = unat b mod 8 \<and> takes m c1 (utf8_rest 3 (unat w)) c'"
      using 4 unfolding after_first_def utf8_lead_def lead_iff lead_values by (simp add: word_le_nat_alt)
    ultimately show ?thesis unfolding spec using 4 by simp
  next
    case 5
    have "utf8_lead b = None" using 5 unfolding utf8_lead_def lead_iff by simp
    then show ?thesis unfolding spec using 5 by (simp add: after_first_def word_le_nat_alt)
  qed
qed

lemma utf8_ne: "utf8 n \<noteq> []"
  by (simp add: utf8_def)

lemma returns_tail: "returns (utf8_tail m n v)"
  by (induction n arbitrary: v) (auto intro!: returns_bind returns_mreturn returns_Fail u8.total_on)

lemma returns_after_first: "returns (after_first m c)"
proof (cases "utf8_lead c")
  case None
  then show ?thesis by (simp add: after_first_def returns_mreturn returns_Fail)
next
  case (Some x)
  then show ?thesis
    by (cases x) (auto simp: after_first_def intro!: returns_bind returns_mreturn returns_Fail returns_tail)
qed

interpretation utf8: value_reader cbs_get_utf8 "\<lambda>v. utf8 (unat v)" is_valid_code_point
proof
  have eq: "cbs_get_utf8 m = mbind (CBS_get_u8 m) (after_first m)" for m
    by (simp add: cbs_get_utf8_def after_first_def [abs_def])
  show "cbs_get_utf8 m c = Ok v c' \<longleftrightarrow> is_valid_code_point v \<and> takes m c (utf8 (unat v)) c'" for m c v c'
  proof -
    obtain b rest where b: "utf8 (unat v) = b # rest" using utf8_ne [of "unat v"] by (cases "utf8 (unat v)") auto
    show ?thesis
      unfolding eq reader_bind [OF u8.value_reader_axioms] after_first_reads
      unfolding b takes_Cons [of m c b rest] by auto
  qed
  show "returns (cbs_get_utf8 m)" for m
    unfolding eq by (intro returns_bind u8.total_on returns_after_first)
qed

section \<open>Writing UTF-8\<close>

lemma or_low:
  assumes "unat y < 2 ^ k"
  shows "(ucast (push_bit k (of_nat a) OR y :: u32) :: byte) = of_nat (a * 2 ^ k + unat y)"
proof -
  have "take_bit k y = y" using assms unfolding fits_iff .
  then have "push_bit k (of_nat a) AND y = 0" by (auto simp: bit_eq_iff bit_simps)
  then have "push_bit k (of_nat a) OR y = push_bit k (of_nat a) + y" by (rule disjunctive_add_eq_or [symmetric])
  also have "\<dots> = of_nat (a * 2 ^ k + unat y)" by (simp add: push_bit_eq_mult mult.commute)
  finally have "(ucast (push_bit k (of_nat a) OR y) :: byte) = ucast (of_nat (a * 2 ^ k + unat y) :: u32)" by simp
  also have "\<dots> = of_nat (a * 2 ^ k + unat y)"
    by (rule word_unat_eq_iff [THEN iffD2]) (simp add: unsigned_ucast_eq unat_of_nat take_bit_eq_mod mod_mod_cancel del: of_nat_add of_nat_mult)
  finally show ?thesis .
qed

lemma unat_drop6: "unat (drop_bit (6 * k) (u :: u32)) = unat u div 64 ^ k"
  using drop_bit_eq_div [of "6 * k" "unat u"] by (simp add: unat_drop_bit_eq power_mult)

lemma low6: "ucast (BOTTOM_BITS 6) = (mask 6 :: u32)"
  by (simp add: BOTTOM_BITS_def mask_eq_exp_minus_1)

lemma tail_byte:
  "(ucast (ucast (TOP_BITS 1) OR (drop_bit (6 * k) u AND ucast (BOTTOM_BITS 6)) :: u32) :: byte)
     = of_nat (128 + unat u div 64 ^ k mod 64)"
proof -
  have y: "unat (drop_bit (6 * k) u AND mask 6) = unat u div 64 ^ k mod 64"
    unfolding unat_and_mask unat_drop6 by simp
  have "ucast (TOP_BITS 1) = (push_bit 6 (of_nat 2) :: u32)" unfolding top_bits by simp
  then show ?thesis
    using or_low [of "drop_bit (6 * k) u AND mask 6" 6 2] unfolding low6 y by simp
qed

lemma lead_byte:
  assumes "unat u div 64 ^ j < 2 ^ k" "ucast (TOP_BITS i) = (push_bit k (of_nat a) :: u32)"
  shows "(ucast (ucast (TOP_BITS i) OR drop_bit (6 * j) u :: u32) :: byte) = of_nat (a * 2 ^ k + unat u div 64 ^ j)"
  unfolding assms(2) using or_low [of "drop_bit (6 * j) u" k a] assms(1) unfolding unat_drop6 by simp

lemma tops: "ucast (TOP_BITS 2) = (push_bit 5 (of_nat 6) :: u32)" "ucast (TOP_BITS 3) = (push_bit 4 (of_nat 14) :: u32)"
  "ucast (TOP_BITS 4) = (push_bit 3 (of_nat 30) :: u32)"
  unfolding top_bits by simp_all

lemma utf8_list:
  assumes "is_valid_code_point u"
  shows "cbb_add_utf8 p u = add_list p (utf8 (unat u))"
proof -
  let ?n = "unat u"
  have top: "u \<le> 0x10FFFF" using assms by (auto simp: is_valid_code_point_def split: if_splits)
  have tails: "(ucast (ucast (TOP_BITS 1) OR (u AND ucast (BOTTOM_BITS 6)) :: u32) :: byte) = of_nat (128 + ?n mod 64)"
    "(ucast (ucast (TOP_BITS 1) OR (drop_bit 6 u AND ucast (BOTTOM_BITS 6)) :: u32) :: byte) = of_nat (128 + ?n div 64 mod 64)"
    "(ucast (ucast (TOP_BITS 1) OR (drop_bit 12 u AND ucast (BOTTOM_BITS 6)) :: u32) :: byte) = of_nat (128 + ?n div 64 ^ 2 mod 64)"
    using tail_byte [of 0 u] tail_byte [of 1 u] tail_byte [of 2 u] by simp_all
  consider "u \<le> 0x7F" | "\<not> u \<le> 0x7F" "u \<le> 0x7FF" | "\<not> u \<le> 0x7F" "\<not> u \<le> 0x7FF" "u \<le> 0xFFFF"
    | "\<not> u \<le> 0x7F" "\<not> u \<le> 0x7FF" "\<not> u \<le> 0xFFFF" by blast
  then show ?thesis
  proof cases
    case 1
    then have "?n < 0x80" by (simp add: word_le_nat_alt)
    moreover have "(ucast u :: byte) = of_nat ?n" by simp
    ultimately show ?thesis using 1 assms by (simp add: cbb_add_utf8_def utf8_def mthen_return)
  next
    case 2
    then have n: "\<not> ?n < 0x80" "?n < 0x800" by (simp_all add: word_le_nat_alt)
    have "?n div 64 ^ 1 < 2 ^ 5" using n(2) by simp
    from lead_byte [OF this tops(1)]
    have "(ucast (ucast (TOP_BITS 2) OR drop_bit 6 u :: u32) :: byte) = of_nat (0xC0 + ?n div 64)" by simp
    then show ?thesis using 2 assms n unfolding cbb_add_utf8_def tails
      by (simp add: utf8_def mthen_return del: of_nat_add)
  next
    case 3
    then have n: "\<not> ?n < 0x80" "\<not> ?n < 0x800" "?n < 0x10000" by (simp_all add: word_le_nat_alt)
    have "?n div 64 ^ 2 < 2 ^ 4" using n(3) by simp
    from lead_byte [OF this tops(2)]
    have "(ucast (ucast (TOP_BITS 3) OR drop_bit 12 u :: u32) :: byte) = of_nat (0xE0 + ?n div 64 ^ 2)" by simp
    then show ?thesis using 3 assms n unfolding cbb_add_utf8_def tails
      by (simp add: utf8_def mthen_return numeral_2_eq_2 del: of_nat_add)
  next
    case 4
    then have n: "\<not> ?n < 0x80" "\<not> ?n < 0x800" "\<not> ?n < 0x10000" "?n \<le> 0x10FFFF" using top by (simp_all add: word_le_nat_alt)
    have "?n div 64 ^ 3 < 2 ^ 3" using n(4) by simp
    from lead_byte [OF this tops(3)]
    have "(ucast (ucast (TOP_BITS 4) OR drop_bit 18 u :: u32) :: byte) = of_nat (0xF0 + ?n div 64 ^ 3)" by simp
    then show ?thesis using 4 assms n top unfolding cbb_add_utf8_def tails
      by (simp add: utf8_def mthen_return numeral_3_eq_3 numeral_2_eq_2 del: of_nat_add)
  qed
qed

interpretation wutf8: value_writer "\<lambda>p _. cbb_add_utf8 p" "\<lambda>v. utf8 (unat v)" is_valid_code_point
proof
  fix p c v
  show "writes 1 {c} p (cbb_add_utf8 p v) (if is_valid_code_point v then Some (utf8 (unat v)) else None)"
  proof (cases "is_valid_code_point v")
    case True
    then show ?thesis by (simp add: utf8_list list_writes utf8_ne)
  next
    case False
    then have "writes 1 {c} p (cbb_add_utf8 p v) None" by (intro writes_fail) (simp add: cbb_add_utf8_def)
    then show ?thesis using False by simp
  qed
qed

interpretation cutf8: codec "\<lambda>p _. cbb_add_utf8 p" "\<lambda>v. utf8 (unat v)" is_valid_code_point cbs_get_utf8 ..

lemma length_rest: "length (utf8_rest k n) = k"
  by (induction k) simp_all

lemma utf8_len: "cbb_get_utf8_len u = of_nat (length (utf8 (unat u)))"
  by (simp add: cbb_get_utf8_len_def utf8_def length_rest word_le_nat_alt del: utf8_rest.simps)

section \<open>The other encodings\<close>

lemma value_reader_filter:
  assumes "value_reader f code valid" "\<And>v. valid v \<Longrightarrow> P v \<Longrightarrow> valid' (g v) \<and> code' (g v) = code v"
    "\<And>w. valid' w \<Longrightarrow> valid (k w) \<and> P (k w) \<and> g (k w) = w"
  shows "value_reader (\<lambda>m. mbind (f m) (\<lambda>v. if P v then mreturn (g v) else Fail)) code' valid'"
proof
  show "mbind (f m) (\<lambda>v. if P v then mreturn (g v) else Fail) c = Ok w c' \<longleftrightarrow> valid' w \<and> takes m c (code' w) c'" for m c w c'
  proof -
    have "mbind (f m) (\<lambda>v. if P v then mreturn (g v) else Fail) c = Ok w c' \<longleftrightarrow>
        (\<exists>v. valid v \<and> P v \<and> g v = w \<and> takes m c (code v) c')"
      unfolding reader_bind [OF assms(1)] by (auto split: if_splits)
    also have "\<dots> \<longleftrightarrow> valid' w \<and> takes m c (code' w) c'"
    proof
      assume "\<exists>v. valid v \<and> P v \<and> g v = w \<and> takes m c (code v) c'"
      then show "valid' w \<and> takes m c (code' w) c'" using assms(2) by force
    next
      assume "valid' w \<and> takes m c (code' w) c'"
      then show "\<exists>v. valid v \<and> P v \<and> g v = w \<and> takes m c (code v) c'"
        using assms(3) [of w] assms(2) [of "k w"] by (intro exI [of _ "k w"]) auto
    qed
    finally show ?thesis .
  qed
  show "returns (mbind (f m) (\<lambda>v. if P v then mreturn (g v) else Fail))" for m
    using value_reader.total_on [OF assms(1)] by (auto intro!: returns_bind returns_mreturn returns_Fail)
qed

lemma u32_back:
  "unat (u :: u32) < 256 \<Longrightarrow> ucast (ucast u :: byte) = u" "unat (u :: u32) < 65536 \<Longrightarrow> ucast (ucast u :: u16) = u"
  using fits_iff [of 8 u] fits_iff [of 16 u] by (simp_all add: ucast_back)

lemma byte_up [simp]: "ucast (ucast (v :: byte) :: u32) = v" "ucast (ucast (w :: u16) :: u32) = w"
  by (simp_all add: ucast_back take_bit_word_eq_self)

interpretation latin1: value_reader cbs_get_latin1 "\<lambda>v. [ucast v]" "\<lambda>v. unat v < 256"
proof -
  have "value_reader (\<lambda>m. mbind (CBS_get_u8 m) (\<lambda>v. mreturn (ucast v :: u32))) (\<lambda>v. [ucast v]) (\<lambda>v. unat v < 256)"
    by (rule value_reader_map [OF u8.value_reader_axioms, where k = ucast]) (simp_all add: unat_ucast_up unat_less8 u32_back)
  then show "value_reader cbs_get_latin1 (\<lambda>v. [ucast v]) (\<lambda>v. unat v < 256)"
    by (simp add: cbs_get_latin1_def [abs_def])
qed

interpretation ucs2: value_reader cbs_get_ucs2_be "be_bytes 2" "\<lambda>v. unat v < 65536 \<and> is_valid_code_point v"
proof -
  have "value_reader (\<lambda>m. mbind (CBS_get_u16 m) (\<lambda>v. if is_valid_code_point (ucast v) then mreturn (ucast v) else Fail))
      (be_bytes 2) (\<lambda>v. unat v < 65536 \<and> is_valid_code_point v)"
  proof (rule value_reader_filter [OF u16.value_reader_axioms, where k = ucast])
    fix v :: u16
    assume "is_valid_code_point (ucast v)"
    moreover have "unat v < 65536" by (rule less_le_trans [OF unsigned_less]) simp
    ultimately show "(unat (ucast v :: u32) < 65536 \<and> is_valid_code_point (ucast v)) \<and> be_bytes 2 (ucast v :: u32) = be_bytes 2 v"
      by (simp add: unat_ucast_up be_bytes_ucast)
  next
    fix w :: u32
    assume "unat w < 65536 \<and> is_valid_code_point w"
    then show "True \<and> is_valid_code_point (ucast (ucast w :: u16)) \<and> ucast (ucast w :: u16) = w"
      using u32_back(2) [of w] by simp
  qed
  moreover have "(\<lambda>v :: u16. if \<not> is_valid_code_point (ucast v) then Fail else (mreturn (ucast v) :: u32 reader))
      = (\<lambda>v. if is_valid_code_point (ucast v) then mreturn (ucast v) else Fail)" by auto
  ultimately show "value_reader cbs_get_ucs2_be (be_bytes 2) (\<lambda>v. unat v < 65536 \<and> is_valid_code_point v)"
    by (simp only: cbs_get_ucs2_be_def [abs_def])
qed

interpretation utf32: value_reader cbs_get_utf32_be "be_bytes 4" is_valid_code_point
  unfolding cbs_get_utf32_be_def [abs_def]
  by (rule value_reader_filter [OF u32.value_reader_axioms, where k = "\<lambda>w. w"]) simp_all

lemma filtered_writer:
  assumes "\<And>p c v. valid v \<Longrightarrow> p \<noteq> c \<Longrightarrow> writes 1 {c} p (add p c v) (Some (code v))"
    "\<And>p c v h. \<not> valid v \<Longrightarrow> add p c v h = Fail h"
  shows "value_writer add code valid"
proof
  fix p c v
  assume "p \<noteq> (c :: nat)"
  then show "writes 1 {c} p (add p c v) (if valid v then Some (code v) else None)"
    using assms(1) [of v p c] writes_fail [of "add p c v"] assms(2) [of v p c] by auto
qed

interpretation wlatin1: value_writer "\<lambda>p _. cbb_add_latin1 p" "\<lambda>v. [ucast v]" "\<lambda>v. unat v < 256"
  by (rule filtered_writer) (auto simp: cbb_add_latin1_def word_le_nat_alt u8_writes)

interpretation wucs2: value_writer "\<lambda>p _. cbb_add_ucs2_be p" "be_bytes 2" "\<lambda>v. unat v < 65536 \<and> is_valid_code_point v"
proof (rule filtered_writer)
  fix p c :: nat and v :: u32
  assume v: "unat v < 65536 \<and> is_valid_code_point v"
  have "be_bytes 2 (ucast v :: u16) = be_bytes 2 v" by (rule be_bytes_ucast) simp
  then show "writes 1 {c} p (cbb_add_ucs2_be p v) (Some (be_bytes 2 v))"
    using v be_writes(1) [of 1 "{c}" p "ucast v"] by (simp add: cbb_add_ucs2_be_def word_le_nat_alt)
qed (auto simp: cbb_add_ucs2_be_def word_le_nat_alt)

interpretation wutf32: value_writer "\<lambda>p _. cbb_add_utf32_be p" "be_bytes 4" is_valid_code_point
  by (rule filtered_writer) (auto simp: cbb_add_utf32_be_def be_writes)

interpretation clatin1: codec "\<lambda>p _. cbb_add_latin1 p" "\<lambda>v. [ucast v]" "\<lambda>v. unat v < 256" cbs_get_latin1 ..
interpretation cucs2: codec "\<lambda>p _. cbb_add_ucs2_be p" "be_bytes 2" "\<lambda>v. unat v < 65536 \<and> is_valid_code_point v" cbs_get_ucs2_be ..
interpretation cutf32: codec "\<lambda>p _. cbb_add_utf32_be p" "be_bytes 4" is_valid_code_point cbs_get_utf32_be ..

section \<open>What the readers and writers promise\<close>

text \<open>C22. Each reader accepts exactly the encodings of the code points of its form: UTF-8 in the shortest
  form, one byte of Latin-1, two and four bytes in big-endian order, and in all but Latin-1 no surrogate,
  no noncharacter and nothing above 0x10FFFF.\<close>

theorem unicode_readers_exact:
  "(cbs_get_utf8 m c = Ok v c' \<longleftrightarrow> code_point (unat v) \<and> takes m c (utf8 (unat v)) c') \<and>
   (cbs_get_latin1 m c = Ok v c' \<longleftrightarrow> unat v < 256 \<and> takes m c [ucast v] c') \<and>
   (cbs_get_ucs2_be m c = Ok v c' \<longleftrightarrow> unat v < 65536 \<and> code_point (unat v) \<and> takes m c (be_bytes 2 v) c') \<and>
   (cbs_get_utf32_be m c = Ok v c' \<longleftrightarrow> code_point (unat v) \<and> takes m c (be_bytes 4 v) c')"
  unfolding utf8.reads latin1.reads ucs2.reads utf32.reads valid_iff by blast

lemma utf8_short: "length (utf8 n) < 2 ^ 64"
  by (simp add: utf8_def length_rest del: utf8_rest.simps)

text \<open>A code point that is written alone into a new \<open>CBB\<close>, in UTF-8, UCS-2 or UTF-32, is read back from the
  finished buffer to its last byte, and the UTF-8 takes as many bytes as \<open>cbb_get_utf8_len\<close> says. \<open>c\<close> is a
  cell that no operation here uses.\<close>

theorem unicode_roundtrip:
  assumes "p \<noteq> c" "1 < flush_depth h" "\<forall>k. allocates h k" "code_point (unat u)"
  shows "(\<exists>buf h'. cbb_run b p cap (cbb_add_utf8 p u) h = Ok (buf, cbb_get_utf8_len u) h' \<and>
      cbs_get_utf8 (list_mem buf) (CBS_init 0 (cbb_get_utf8_len u)) = Ok u (CBS_init (cbb_get_utf8_len u) 0)) \<and>
    (unat u < 65536 \<longrightarrow> (\<exists>buf len h'. cbb_run b p cap (cbb_add_ucs2_be p u) h = Ok (buf, len) h' \<and>
      cbs_get_ucs2_be (list_mem buf) (CBS_init 0 len) = Ok u (CBS_init len 0))) \<and>
    (\<exists>buf len h'. cbb_run b p cap (cbb_add_utf32_be p u) h = Ok (buf, len) h' \<and>
      cbs_get_utf32_be (list_mem buf) (CBS_init 0 len) = Ok u (CBS_init len 0))"
proof (intro conjI impI)
  have u: "is_valid_code_point u" using assms(4) by (simp add: valid_iff)
  have w: "writes 1 {c} p (cbb_add_utf8 p u) (Some (utf8 (unat u)))" using wutf8.adds [OF assms(1), of u] u by simp
  from run_bytes [OF w assms(2,3) utf8_short] obtain buf len h' where
    run: "cbb_run b p cap (cbb_add_utf8 p u) h = Ok (buf, len) h'" by blast
  from run_writer [OF w assms(2), of b cap] run have "unat len = length (utf8 (unat u))" by simp
  then have "len = cbb_get_utf8_len u" unfolding utf8_len by (metis of_nat_unat ucast_id)
  with run cutf8.round_trip [OF run u assms(1,2)]
  show "\<exists>buf h'. cbb_run b p cap (cbb_add_utf8 p u) h = Ok (buf, cbb_get_utf8_len u) h' \<and>
      cbs_get_utf8 (list_mem buf) (CBS_init 0 (cbb_get_utf8_len u)) = Ok u (CBS_init (cbb_get_utf8_len u) 0)" by blast
  show "\<exists>buf len h'. cbb_run b p cap (cbb_add_ucs2_be p u) h = Ok (buf, len) h' \<and>
      cbs_get_ucs2_be (list_mem buf) (CBS_init 0 len) = Ok u (CBS_init len 0)" if "unat u < 65536"
    using cucs2.run_back [OF assms(1-3)] that u by simp
  show "\<exists>buf len h'. cbb_run b p cap (cbb_add_utf32_be p u) h = Ok (buf, len) h' \<and>
      cbs_get_utf32_be (list_mem buf) (CBS_init 0 len) = Ok u (CBS_init len 0)"
    using cutf32.run_back [OF assms(1-3) u] by simp
qed

definition text_store :: cbb_store where
  "text_store = \<lparr>buffers = (\<lambda>_. \<lparr>bb_buf = [], bb_len = 0, bb_cap = 0, bb_can_resize = False, bb_error = False\<rparr>),
     cbbs = (\<lambda>_. \<lparr>cbb_base = None, cbb_child = None, cbb_offset = 0, pending_len_len = 0, pending_is_asn1 = False, is_child = False\<rparr>),
     allocates = (\<lambda>_. True), flush_depth = 2\<rparr>"

theorem unicode_roundtrip_witness:
  "\<exists>buf h'. cbb_run 0 1 8 (cbb_add_utf8 1 0x20AC) text_store = Ok (buf, 3) h' \<and>
      cbs_get_utf8 (list_mem buf) (CBS_init 0 3) = Ok 0x20AC (CBS_init 3 0)"
proof -
  have "1 < flush_depth text_store" "\<forall>k. allocates text_store k" "(1 :: nat) \<noteq> 2" "code_point (unat (0x20AC :: u32))"
    by (simp_all add: text_store_def code_point_def)
  from unicode_roundtrip [OF this(3,1,2,4), where b = 0 and cap = 8]
  show ?thesis by (auto simp: cbb_get_utf8_len_def)
qed

end
