(* ===== verification/BER.thy ===== *)
theory BER
  imports CBB_Run
begin

unbundle bit_operations_syntax

text \<open>
  \<open>bytestring/ber.c\<close>: the search for BER that is not DER, the conversion of BER to DER and the reader of
  implicitly tagged strings. The input is a cursor in the memory \<open>m\<close>, the output a builder of
  \<open>bytestring/cbb.c\<close>; here are the code, what its reader takes, and the termination of the search.
\<close>

section \<open>Tags\<close>

definition CBS_ASN1_UTF8STRING :: u32 where "CBS_ASN1_UTF8STRING = 0xC"
definition CBS_ASN1_NUMERICSTRING :: u32 where "CBS_ASN1_NUMERICSTRING = 0x12"
definition CBS_ASN1_PRINTABLESTRING :: u32 where "CBS_ASN1_PRINTABLESTRING = 0x13"
definition CBS_ASN1_T61STRING :: u32 where "CBS_ASN1_T61STRING = 0x14"
definition CBS_ASN1_VIDEOTEXSTRING :: u32 where "CBS_ASN1_VIDEOTEXSTRING = 0x15"
definition CBS_ASN1_IA5STRING :: u32 where "CBS_ASN1_IA5STRING = 0x16"
definition CBS_ASN1_GRAPHICSTRING :: u32 where "CBS_ASN1_GRAPHICSTRING = 0x19"
definition CBS_ASN1_VISIBLESTRING :: u32 where "CBS_ASN1_VISIBLESTRING = 0x1A"
definition CBS_ASN1_GENERALSTRING :: u32 where "CBS_ASN1_GENERALSTRING = 0x1B"
definition CBS_ASN1_UNIVERSALSTRING :: u32 where "CBS_ASN1_UNIVERSALSTRING = 0x1C"
definition CBS_ASN1_BMPSTRING :: u32 where "CBS_ASN1_BMPSTRING = 0x1E"

definition kMaxDepth :: u32 where "kMaxDepth = 2048"

definition is_string_type :: "u32 \<Rightarrow> bool" where
  "is_string_type tag \<longleftrightarrow> tag AND NOT CBS_ASN1_CONSTRUCTED \<in>
     {CBS_ASN1_OCTETSTRING, CBS_ASN1_UTF8STRING, CBS_ASN1_NUMERICSTRING, CBS_ASN1_PRINTABLESTRING, CBS_ASN1_T61STRING,
      CBS_ASN1_VIDEOTEXSTRING, CBS_ASN1_IA5STRING, CBS_ASN1_GRAPHICSTRING, CBS_ASN1_VISIBLESTRING,
      CBS_ASN1_GENERALSTRING, CBS_ASN1_UNIVERSALSTRING, CBS_ASN1_BMPSTRING}"

text \<open>The flag of \<open>CBS_get_any_ber_asn1_element\<close> is \<open>*ber_found\<close>; \<open>out\<close> is the whole element.\<close>

definition is_eoc :: "mem \<Rightarrow> u64 \<Rightarrow> cbs \<Rightarrow> bool" where
  "is_eoc m header_len contents \<longleftrightarrow>
     header_len = 2 \<and> CBS_len contents = 2 \<and> mem_bytes m (CBS_data contents) 2 = [0, 0]"

section \<open>What the reader of BER takes\<close>

text \<open>A length in the short form, \<open>k = 0\<close>, or in \<open>k\<close> octets, not necessarily the fewest.\<close>

definition ber_length :: "nat \<Rightarrow> nat \<Rightarrow> byte list" where
  "ber_length k n = (if k = 0 then [of_nat n] else of_nat (128 + k) # be_bytes k (of_nat n :: u64))"

definition length_fits :: "nat \<Rightarrow> nat \<Rightarrow> bool" where
  "length_fits k n \<longleftrightarrow> (if k = 0 then n < 128 else k \<le> 4 \<and> n < 256 ^ k)"

text \<open>There is a shorter form.\<close>

definition roundabout :: "nat \<Rightarrow> nat \<Rightarrow> bool" where
  "roundabout k n \<longleftrightarrow> k \<noteq> 0 \<and> (n < 128 \<or> n < 256 ^ (k - 1))"

lemma length_ber_length [simp]: "length (ber_length k n) = Suc k"
  by (simp add: ber_length_def be_bytes_def)

lemma fits_small: "length_fits k n \<Longrightarrow> n < 2 ^ 32"
  using power_increasing [of k 4 "256 :: nat"] by (auto simp: length_fits_def split: if_splits)

text \<open>An element: \<open>Some k\<close> with a definite length in the form \<open>k\<close>, \<open>None\<close> with an indefinite one, where only
  the header is taken.\<close>

definition ber_front :: "u32 \<Rightarrow> nat option \<Rightarrow> byte list \<Rightarrow> byte list" where
  "ber_front t form body =
     (case form of Some k \<Rightarrow> der_tag t @ ber_length k (length body) @ body | None \<Rightarrow> der_tag t @ [0x80])"

definition front_ok :: "u32 \<Rightarrow> nat option \<Rightarrow> byte list \<Rightarrow> bool" where
  "front_ok t form body \<longleftrightarrow>
     (case form of Some k \<Rightarrow> length_fits k (length body) | None \<Rightarrow> t AND CBS_ASN1_CONSTRUCTED \<noteq> 0 \<and> body = [])"

definition front_ber :: "nat option \<Rightarrow> byte list \<Rightarrow> bool" where
  "front_ber form body \<longleftrightarrow> (case form of Some k \<Rightarrow> roundabout k (length body) | None \<Rightarrow> True)"

lemma padded_iff:
  assumes "0 < n" "n \<le> 4" "unat (v :: u64) = L"
  shows "v < 128 \<or> drop_bit ((n - 1) * 8) v = 0 \<longleftrightarrow> roundabout n L"
  using assms by (simp add: roundabout_def drop_bit_0_iff word_less_nat_alt power_mult mult.commute [of _ 8])

text \<open>The three paths through the code, given the header.\<close>

definition element_of :: "mem \<Rightarrow> cbs \<Rightarrow> byte list \<Rightarrow> nat \<Rightarrow> u32 \<Rightarrow> bool \<Rightarrow> bool" where
  "element_of m c hdr n t b \<longleftrightarrow> CBS_get_any_ber_asn1_element m c =
     mbind (CBS_get_bytes (of_nat (length hdr + n))) (\<lambda>out. mreturn (out, t, of_nat (length hdr), b)) c"

lemma header_read:
  assumes "takes m c (der_tag t @ lb # xs) h"
  obtains h1 h2 where "parse_asn1_tag m c = Ok t h1" "CBS_get_u8 m h1 = Ok lb h2" "takes m h2 xs h"
    "CBS_len c - CBS_len h2 = of_nat (length (der_tag t @ [lb]))"
proof -
  obtain h1 h2 where h: "takes m c (der_tag t) h1" "takes m h1 [lb] h2" "takes m h2 xs h"
    using assms takes_Cons [of m _ lb xs] by (auto simp: takes_append)
  then have "takes m c (der_tag t @ [lb]) h2" using takes_append by blast
  from that [OF _ _ h(3) header_length [OF this]] h show thesis by (simp add: asn1_tag.reads u8.reads)
qed

lemma element_of_short:
  assumes "takes m c (der_tag t @ ber_length 0 n) h" "n < 128"
  shows "element_of m c (der_tag t @ ber_length 0 n) n t False"
proof -
  have n: "unat (of_nat n :: byte) = n" using assms(2) by (simp add: unat_of_nat8)
  have "short_form m c t (of_nat n) h" using assms n by (simp add: short_form_def ber_length_def)
  from element_short [OF this, of True] show ?thesis
    by (simp add: element_of_def CBS_get_any_ber_asn1_element_def ber_length_def n)
qed

lemma element_of_long:
  assumes "takes m c (der_tag t @ ber_length k n) h" "0 < k" "k \<le> 4" "n < 256 ^ k"
  shows "element_of m c (der_tag t @ ber_length k n) n t (roundabout k n)"
proof -
  define lb :: byte where "lb = of_nat (128 + k)"
  define v :: u64 where "v = of_nat n"
  have lb: "unat lb = 128 + k" using assms(3) by (simp add: lb_def unat_of_nat8 del: of_nat_add)
  have small: "n < 2 ^ 32" using fits_small [of k n] assms by (simp add: length_fits_def)
  then have v: "unat v = n" by (simp add: v_def unat_of_nat_addr)
  have hdr: "der_tag t @ ber_length k n = der_tag t @ lb # be_bytes k v"
    using assms(2) by (simp add: ber_length_def lb_def v_def del: of_nat_add)
  from assms(1) obtain h1 h2 where h: "parse_asn1_tag m c = Ok t h1" "CBS_get_u8 m h1 = Ok lb h2"
    "takes m h2 (be_bytes k v) h" "CBS_len c - CBS_len h2 = of_nat (length (der_tag t @ [lb]))"
    unfolding hdr by (rule header_read)
  define q :: u64 where "q = ucast (lb AND 0x7F)"
  have uq: "unat q = k" using lb assms(3) by (simp add: q_def length_bits)
  then have q: "q = of_nat k" by (metis of_nat_unat ucast_id)
  have "cbs_get_u m q h2 = Ok v h"
    using value_reader.reads [OF cbs_get_u_reads [of q]] assms(2-4) h(3)
    by (simp add: uq fits_iff word_le_nat_alt v power_mult)
  moreover have "lb AND 0x80 \<noteq> 0" using lb high_bit [of lb] by simp
  moreover have "q \<noteq> 0" "\<not> 4 < q" using assms(2,3) uq by (auto simp: word_less_nat_alt)
  moreover have "(v < 128 \<or> drop_bit ((unat q - 1) * 8) v = 0) = roundabout k n"
    unfolding uq by (rule padded_iff [OF assms(2,3) v])
  moreover have "\<not> v + of_nat (length (der_tag t @ [lb])) + q < v"
  proof -
    have sum: "v + of_nat (length (der_tag t @ [lb])) + q = of_nat (unat v + length (der_tag t @ [lb]) + k)"
      by (simp add: q)
    have "unat (of_nat (unat v + length (der_tag t @ [lb]) + k) :: u64) = unat v + length (der_tag t @ [lb]) + k"
      using v small assms(3) length_der_tag [of t] by (intro unat_of_nat_addr) simp
    then show ?thesis unfolding word_less_nat_alt sum by simp
  qed
  ultimately have "CBS_get_any_ber_asn1_element m c = mbind (CBS_get_bytes (v + (of_nat (length (der_tag t @ [lb])) + q)))
      (\<lambda>out. mreturn (out, t, of_nat (length (der_tag t @ [lb])) + q, roundabout k n)) c"
    unfolding CBS_get_any_ber_asn1_element_def cbs_get_any_asn1_element_def
    using h(1,2,4) by (simp add: Let_def q_def [symmetric])
  moreover have "v + (of_nat (length (der_tag t @ [lb])) + q) = of_nat (length (der_tag t @ ber_length k n) + n)"
    "of_nat (length (der_tag t @ [lb])) + q = (of_nat (length (der_tag t @ ber_length k n)) :: u64)"
    unfolding hdr by (simp_all add: q v_def algebra_simps)
  ultimately show ?thesis unfolding element_of_def by (simp only:)
qed

lemma element_of_indefinite:
  assumes "takes m c (der_tag t @ [0x80]) h" "t AND CBS_ASN1_CONSTRUCTED \<noteq> 0"
  shows "element_of m c (der_tag t @ [0x80]) 0 t True"
proof -
  from assms(1) obtain h1 h2 where "parse_asn1_tag m c = Ok t h1" "CBS_get_u8 m h1 = Ok 0x80 h2"
    "CBS_len c - CBS_len h2 = of_nat (length (der_tag t @ [0x80]))"
    by (rule header_read)
  with assms(2) show ?thesis
    by (simp add: element_of_def CBS_get_any_ber_asn1_element_def cbs_get_any_asn1_element_def Let_def)
qed

lemma ber_forms:
  assumes "CBS_get_any_ber_asn1_element m c = Ok r c'"
  obtains t k n h where "takes m c (der_tag t @ ber_length k n) h" "length_fits k n"
    | t h where "takes m c (der_tag t @ [0x80]) h" "t AND CBS_ASN1_CONSTRUCTED \<noteq> 0"
proof -
  note defs = CBS_get_any_ber_asn1_element_def cbs_get_any_asn1_element_def
  from assms obtain t h1 where h1: "parse_asn1_tag m c = Ok t h1"
    by (auto simp: defs split: outcome.splits)
  from assms h1 obtain lb h2 where h2: "CBS_get_u8 m h1 = Ok lb h2"
    by (auto simp: defs split: outcome.splits)
  have front: "takes m c (der_tag t @ [lb]) h2"
    using h1 h2 by (auto simp: asn1_tag.reads u8.reads takes_append)
  define q :: u64 where "q = ucast (lb AND 0x7F)"
  define k where "k = unat lb - 128"
  show thesis
  proof (cases "unat lb < 128")
    case True
    with front that(1) [of t 0 "unat lb" h2] show thesis by (simp add: ber_length_def length_fits_def)
  next
    case False
    then have lb: "unat lb = 128 + k" "k < 128" using unat_less8 [of lb] by (simp_all add: k_def)
    have q: "unat q = k" using lb by (simp add: q_def length_bits)
    have high: "lb AND 0x80 \<noteq> 0" using lb high_bit [of lb] by simp
    show thesis
    proof (cases "k = 0 \<and> t AND CBS_ASN1_CONSTRUCTED \<noteq> 0")
      case True
      then have "lb = 0x80" using lb(1) by (simp add: word_unat_eq_iff)
      with front True that(2) show thesis by blast
    next
      case False
      have "q = 0 \<longleftrightarrow> k = 0" using q unat_eq_0 [of q] by auto
      then have rest: "\<not> (q = 0 \<or> 4 < q)" "\<exists>v h3. cbs_get_u m q h2 = Ok v h3"
        using assms h1 h2 high False
        by (auto simp: defs Let_def q_def [symmetric] split: outcome.splits if_splits)
      then obtain v h3 where v: "cbs_get_u m q h2 = Ok v h3" by blast
      have k: "0 < k" "k \<le> 4" using rest(1) q unat_eq_0 [of q] by (auto simp: word_less_nat_alt)
      then have n: "unat v < 2 ^ (8 * k)" "takes m h2 (be_bytes k v) h3"
        using v value_reader.reads [OF cbs_get_u_reads [of q]] q by (simp_all add: fits_iff word_le_nat_alt)
      from front n(2) have "takes m c (der_tag t @ lb # be_bytes k v) h3"
        using takes_append [of m c "der_tag t @ [lb]" "be_bytes k v"] by auto
      moreover have "lb # be_bytes k v = ber_length k (unat v)"
        using k lb by (simp add: ber_length_def word_unat_eq_iff unat_of_nat8 del: of_nat_add)
      ultimately show thesis using that(1) [of t k "unat v" h3] k n(1) by (simp add: length_fits_def power_mult)
    qed
  qed
qed

lemma length_ber_front: "length_fits k n \<Longrightarrow> length (der_tag t @ ber_length k n) \<le> 11"
  using length_der_tag [of t] by (simp add: length_fits_def split: if_splits)

lemma element_of_Ok:
  assumes "element_of m c hdr n t' b'" "takes m c hdr h" "length hdr + n < 2 ^ 64"
  shows "CBS_get_any_ber_asn1_element m c = Ok (out, t, hl, b) c' \<longleftrightarrow>
    (\<exists>body. length body = n \<and> takes m c (hdr @ body) c' \<and> out = CBS_init (cbs_data c) (of_nat (length hdr + n)) \<and>
      t = t' \<and> hl = of_nat (length hdr) \<and> b = b')"
  using assms(1) CBS_get_body [OF assms(2,3), of out] by (auto simp: element_of_def mbind_Ok_iff simp del: of_nat_add)

lemma ber_element_Ok:
  "CBS_get_any_ber_asn1_element m c = Ok (out, t, hl, b) c' \<longleftrightarrow>
     (\<exists>form body. front_ok t form body \<and> takes m c (ber_front t form body) c' \<and>
        hl = of_nat (length (ber_front t form body) - length body) \<and> b = front_ber form body \<and>
        out = CBS_init (cbs_data c) (of_nat (length (ber_front t form body))))" (is "?l \<longleftrightarrow> ?r")
proof -
  have definite: "element_of m c (der_tag t @ ber_length k n) n t (roundabout k n)"
    if "takes m c (der_tag t @ ber_length k n) h" "length_fits k n" for t k n h
    using that element_of_short [of m c t n h] element_of_long [of m c t k n h]
    by (cases "k = 0") (auto simp: length_fits_def roundabout_def)
  have small: "length (der_tag t @ ber_length k n) + n < 2 ^ 64" if "length_fits k n" for t k n
    using length_ber_front [OF that, of t] fits_small [OF that] by simp
  have tiny: "length (der_tag t @ [0x80]) + 0 < 2 ^ 64" for t using length_der_tag [of t] by simp
  show ?thesis
  proof
    assume l: ?l
    then show ?r
    proof (cases rule: ber_forms)
      case (1 t' k n h)
      from l [unfolded element_of_Ok [OF definite [OF 1] 1(1) small [OF 1(2)]]] obtain body where
        "length body = n" "takes m c ((der_tag t' @ ber_length k n) @ body) c'" "t = t'" "b = roundabout k n"
        "out = CBS_init (cbs_data c) (of_nat (length (der_tag t' @ ber_length k n) + n))"
        "hl = of_nat (length (der_tag t' @ ber_length k n))" by blast
      with 1(2) show ?r
        by (intro exI [of _ "Some k"] exI [of _ body]) (simp add: front_ok_def ber_front_def front_ber_def add.assoc del: of_nat_add)
    next
      case (2 t' h)
      from l [unfolded element_of_Ok [OF element_of_indefinite [OF 2] 2(1) tiny]] 2(2) show ?r
        by (intro exI [of _ None] exI [of _ "[]"]) (auto simp: front_ok_def ber_front_def front_ber_def)
    qed
  next
    assume ?r
    then obtain form body where r: "front_ok t form body" "takes m c (ber_front t form body) c'"
      "hl = of_nat (length (ber_front t form body) - length body)" "b = front_ber form body"
      "out = CBS_init (cbs_data c) (of_nat (length (ber_front t form body)))" by blast
    show ?l
    proof (cases form)
      case None
      with r have i: "takes m c (der_tag t @ [0x80]) c'" "t AND CBS_ASN1_CONSTRUCTED \<noteq> 0" "body = []"
        by (simp_all add: ber_front_def front_ok_def)
      show ?l unfolding element_of_Ok [OF element_of_indefinite [OF i(1,2)] i(1) tiny]
        using r None i(3) by (auto simp: ber_front_def front_ber_def)
    next
      case (Some k)
      let ?hdr = "der_tag t @ ber_length k (length body)"
      from r Some have d: "takes m c (?hdr @ body) c'" "length_fits k (length body)"
        by (simp_all add: ber_front_def front_ok_def)
      then obtain h where h: "takes m c ?hdr h" unfolding takes_append by blast
      show ?l unfolding element_of_Ok [OF definite [OF h d(2)] h small [OF d(2)]]
        using r Some d(1) by (intro exI [of _ body]) (simp add: ber_front_def front_ber_def add.assoc)
    qed
  qed
qed

section \<open>The search\<close>

text \<open>Each round takes at least one byte, and so does the header that a recursion leaves out.\<close>

lemma ber_element_shorter:
  assumes "CBS_get_any_ber_asn1_element m c = Ok (out, t, hl, b) c'"
  shows "unat (cbs_len c') < unat (cbs_len c)" "cbs_len c \<noteq> 0"
    "CBS_skip hl out = Ok u body \<Longrightarrow> unat (cbs_len body) < unat (cbs_len c)"
proof -
  from assms obtain form xs where e: "front_ok t form xs" "takes m c (ber_front t form xs) c'"
    "hl = of_nat (length (ber_front t form xs) - length xs)" "out = CBS_init (cbs_data c) (of_nat (length (ber_front t form xs)))"
    unfolding ber_element_Ok by blast
  have len: "0 < length (ber_front t form xs) - length xs"
    using e(1) by (auto simp: ber_front_def front_ok_def der_tag_def split: option.splits)
  have fits: "length (ber_front t form xs) \<le> unat (cbs_len c)" using takes_len [OF e(2)] by simp
  show "unat (cbs_len c') < unat (cbs_len c)" "cbs_len c \<noteq> 0" using takes_len [OF e(2)] len by auto
  have "unat (of_nat k :: u64) = k" if "k \<le> unat (cbs_len c)" for k
    using that unat_less64 [of "cbs_len c"] by (intro unat_of_nat_addr) simp
  then have w: "unat (cbs_len out) = length (ber_front t form xs)" "unat hl = length (ber_front t form xs) - length xs"
    using fits by (simp_all add: e(3,4) CBS_init_def)
  show "unat (cbs_len body) < unat (cbs_len c)" if "CBS_skip hl out = Ok u body"
    using that len fits w unat_len_drop [of "unat hl" out] by (simp add: CBS_skip_Ok)
qed

text \<open>\<open>None\<close> is the return value zero, \<open>Some\<close> the flag \<open>*ber_found\<close>. The flag that a nested search has set
  is cleared again by the next round, as it is in the code.\<close>

function (sequential) cbs_find_ber :: "mem \<Rightarrow> u32 \<Rightarrow> cbs \<Rightarrow> bool option"
  and find_ber_loop :: "mem \<Rightarrow> u32 \<Rightarrow> bool \<Rightarrow> cbs \<Rightarrow> bool option" where
  "cbs_find_ber m depth orig_in =
     (if kMaxDepth < depth then None
      else find_ber_loop m depth False (CBS_init (CBS_data orig_in) (CBS_len orig_in)))"
| "find_ber_loop m depth ber_found c =
     (if CBS_len c = 0 then Some ber_found
      else case CBS_get_any_ber_asn1_element m c of
        Ok (contents, tag, header_len, ber_found) c \<Rightarrow>
          if ber_found then Some True
          else if tag AND CBS_ASN1_CONSTRUCTED \<noteq> 0 then
            (if is_string_type tag then Some True
             else case CBS_skip header_len contents of
               Ok _ contents \<Rightarrow>
                 (case cbs_find_ber m (depth + 1) contents of
                    Some ber_found \<Rightarrow> find_ber_loop m depth ber_found c
                  | None \<Rightarrow> None)
             | _ \<Rightarrow> None)
          else find_ber_loop m depth ber_found c
      | _ \<Rightarrow> None)"
  by pat_completeness auto

termination
proof (relation "measure (\<lambda>x. case x of Inl (m, depth, c) \<Rightarrow> Suc (2 * unat (cbs_len c)) | Inr (m, depth, b, c) \<Rightarrow> 2 * unat (cbs_len c))")
qed (auto simp: CBS_init_def CBS_len_def CBS_data_def dest: ber_element_shorter)

declare cbs_find_ber.simps [simp del] find_ber_loop.simps [simp del]

section \<open>The conversion\<close>

text \<open>The content of an element, into \<open>out_contents\<close>; \<open>convert\<close> is the recursive call one level deeper and
  \<open>c\<close> the cursor behind the element. The result is the cursor \<open>in\<close> that is left.\<close>

definition convert_contents :: "(cbs \<Rightarrow> nat \<Rightarrow> u32 \<Rightarrow> bool \<Rightarrow> cbs builder) \<Rightarrow> mem \<Rightarrow> cbs \<Rightarrow> u32 \<Rightarrow> u64 \<Rightarrow> cbs \<Rightarrow> u32 \<Rightarrow> nat \<Rightarrow>
    cbs builder" where
  "convert_contents convert m contents tag header_len c child_string_tag out_contents =
     (if CBS_len contents = header_len \<and> 0 < header_len \<and> m (CBS_data contents + (header_len - 1)) = 0x80
      then convert c out_contents child_string_tag True
      else case CBS_skip header_len contents of
        Ok _ contents \<Rightarrow>
          if tag AND CBS_ASN1_CONSTRUCTED \<noteq> 0
          then mbind (convert contents out_contents child_string_tag False) (\<lambda>_. mreturn c)
          else mthen (CBB_add_bytes out_contents (mem_bytes m (CBS_data contents) (unat (CBS_len contents)))) (mreturn c)
      | _ \<Rightarrow> Fail)"

text \<open>\<open>n\<close> bounds the rounds and recursions. The local builder \<open>out_contents_storage\<close> of the call at
  \<open>depth\<close> is the cell \<open>locals + depth\<close>.\<close>

primrec convert_loop :: "nat \<Rightarrow> mem \<Rightarrow> nat \<Rightarrow> cbs \<Rightarrow> nat \<Rightarrow> u32 \<Rightarrow> bool \<Rightarrow> u32 \<Rightarrow> cbs builder" where
  "convert_loop 0 m locals c out string_tag looking_for_eoc depth = (\<lambda>_. Fuel)"
| "convert_loop (Suc n) m locals c out string_tag looking_for_eoc depth =
     (if CBS_len c = 0 then (if looking_for_eoc then Fail else mreturn c)
      else case CBS_get_any_ber_asn1_element m c of
        Ok (contents, tag, header_len, _) c \<Rightarrow>
          if is_eoc m header_len contents then (if looking_for_eoc then mreturn c else Fail)
          else if string_tag \<noteq> 0 \<and> tag AND NOT CBS_ASN1_CONSTRUCTED \<noteq> string_tag then Fail
          else
            let convert = (\<lambda>c out child_string_tag looking_for_eoc.
                  if kMaxDepth < depth + 1 then Fail
                  else convert_loop n m locals c out child_string_tag looking_for_eoc (depth + 1));
                string = string_tag = 0 \<and> tag AND CBS_ASN1_CONSTRUCTED \<noteq> 0 \<and> is_string_type tag;
                out_tag = (if string then tag AND NOT CBS_ASN1_CONSTRUCTED else tag);
                child_string_tag = (if string then out_tag else string_tag);
                body = convert_contents convert m contents tag header_len c child_string_tag
            in mbind (if string_tag \<noteq> 0 then body out
                 else mthen (CBB_add_asn1 out (locals + unat depth) out_tag) (body (locals + unat depth)))
               (\<lambda>c. mthen (CBB_flush out) (convert_loop n m locals c out string_tag looking_for_eoc depth))
      | _ \<Rightarrow> Fail)"

definition cbs_convert_ber :: "nat \<Rightarrow> mem \<Rightarrow> nat \<Rightarrow> cbs \<Rightarrow> nat \<Rightarrow> u32 \<Rightarrow> bool \<Rightarrow> u32 \<Rightarrow> cbs builder" where
  "cbs_convert_ber n m locals c out string_tag looking_for_eoc depth =
     (if kMaxDepth < depth then Fail else convert_loop n m locals c out string_tag looking_for_eoc depth)"

declare convert_loop.simps [simp del]

text \<open>The result: the cursor that is left, and \<open>Inl out\<close> where \<open>*out_storage\<close> is null, or \<open>Inr (buf, len)\<close>
  where \<open>out\<close> is the first \<open>len\<close> bytes of the new storage \<open>buf\<close>. \<open>base\<close>, \<open>p\<close> and \<open>locals\<close> are the cells
  of the local builders.\<close>

definition CBS_asn1_ber_to_der :: "mem \<Rightarrow> nat \<Rightarrow> nat \<Rightarrow> nat \<Rightarrow> cbs \<Rightarrow> (cbs \<times> (cbs + byte list \<times> u64)) builder" where
  "CBS_asn1_ber_to_der m base p locals c h =
     (case cbs_find_ber m 0 c of
        None \<Rightarrow> Fail h
      | Some conversion_needed \<Rightarrow>
          if \<not> conversion_needed then
            (case CBS_get_any_asn1_element m c of Ok (out, _) c \<Rightarrow> Ok (c, Inl out) h | _ \<Rightarrow> Fail h)
          else
            (case mthen (CBB_init base p (CBS_len c))
                    (mbind (cbs_convert_ber (unat (CBS_len c) + 1) m locals c p 0 False 0) (\<lambda>c.
                       mbind (CBB_finish p True) (\<lambda>(out_storage, len). mreturn (c, Inr (out_storage, len))))) h of
               Fail h \<Rightarrow> Fail (CBB_cleanup p h)
             | r \<Rightarrow> r))"

text \<open>A round takes at least one byte.\<close>

fun implicit_loop :: "nat \<Rightarrow> mem \<Rightarrow> u32 \<Rightarrow> cbs \<Rightarrow> nat \<Rightarrow> unit builder" where
  "implicit_loop 0 m inner_tag child result = (if CBS_len child = 0 then mreturn () else (\<lambda>_. Fuel))"
| "implicit_loop (Suc n) m inner_tag child result =
     (if CBS_len child = 0 then mreturn ()
      else case CBS_get_asn1 m inner_tag child of
        Ok chunk child \<Rightarrow>
          mthen (CBB_add_bytes result (mem_bytes m (CBS_data chunk) (unat (CBS_len chunk)))) (implicit_loop n m inner_tag child result)
      | _ \<Rightarrow> Fail)"

definition CBS_get_asn1_implicit_string ::
  "mem \<Rightarrow> nat \<Rightarrow> nat \<Rightarrow> u32 \<Rightarrow> u32 \<Rightarrow> cbs \<Rightarrow> (cbs \<times> (cbs + byte list \<times> u64)) builder" where
  "CBS_get_asn1_implicit_string m base result outer_tag inner_tag c h =
     (if CBS_peek_asn1_tag m c outer_tag then
        (case CBS_get_asn1 m outer_tag c of Ok out c \<Rightarrow> Ok (c, Inl out) h | _ \<Rightarrow> Fail h)
      else
        (case mthen (CBB_init base result (CBS_len c)) (\<lambda>h.
                case CBS_get_asn1 m (outer_tag OR CBS_ASN1_CONSTRUCTED) c of
                  Ok child c \<Rightarrow>
                    mthen (implicit_loop (unat (CBS_len child)) m inner_tag child result)
                      (mbind (CBB_finish result True) (\<lambda>(data, len). mreturn (c, Inr (data, len)))) h
                | _ \<Rightarrow> Fail h) h of
           Fail h \<Rightarrow> Fail (CBB_cleanup result h)
         | r \<Rightarrow> r))"

end
