(* ===== verification/BER_Convert.thy ===== *)
theory BER_Convert
  imports BER
begin

unbundle bit_operations_syntax

text \<open>
  The conversion of BER to DER writes what a pure reader of the input finds: the loop of
  \<open>cbs_convert_ber\<close> is refined to \<open>convert\<close>, a function from the cursor to the bytes of the output
  and the cursor that is left.
\<close>

section \<open>The pure conversion\<close>

definition contents_of :: "(cbs \<Rightarrow> u32 \<Rightarrow> bool \<Rightarrow> (byte list \<times> cbs) option) \<Rightarrow> mem \<Rightarrow> cbs \<Rightarrow> u32 \<Rightarrow> u64 \<Rightarrow> cbs \<Rightarrow> u32 \<Rightarrow>
    (byte list \<times> cbs) option" where
  "contents_of conv m contents tag header_len c st =
     (if cbs_len contents = header_len \<and> 0 < header_len \<and> m (cbs_data contents + (header_len - 1)) = 0x80
      then conv c st True
      else case CBS_skip header_len contents of
        Ok _ contents \<Rightarrow>
          if tag AND CBS_ASN1_CONSTRUCTED \<noteq> 0 then map_option (\<lambda>(ys, _). (ys, c)) (conv contents st False)
          else Some (cbs_bytes m contents, c)
      | _ \<Rightarrow> None)"

definition as_element :: "u32 \<Rightarrow> (byte list \<times> 'a) option \<Rightarrow> (byte list \<times> 'a) option" where
  "as_element t r = Option.bind r (\<lambda>(body, v). if length body \<le> 0xFFFFFFFE then Some (der t body, v) else None)"

primrec convert :: "nat \<Rightarrow> mem \<Rightarrow> cbs \<Rightarrow> u32 \<Rightarrow> bool \<Rightarrow> u32 \<Rightarrow> (byte list \<times> cbs) option" where
  "convert 0 m c st eoc depth = None"
| "convert (Suc n) m c st eoc depth =
     (if cbs_len c = 0 then (if eoc then None else Some ([], c))
      else case CBS_get_any_ber_asn1_element m c of
        Ok (contents, tag, header_len, _) c \<Rightarrow>
          if is_eoc m header_len contents then (if eoc then Some ([], c) else None)
          else if st \<noteq> 0 \<and> tag AND NOT CBS_ASN1_CONSTRUCTED \<noteq> st then None
          else
            let conv = (\<lambda>c st eoc. if kMaxDepth < depth + 1 then None else convert n m c st eoc (depth + 1));
                string = st = 0 \<and> tag AND CBS_ASN1_CONSTRUCTED \<noteq> 0 \<and> is_string_type tag;
                out_tag = (if string then tag AND NOT CBS_ASN1_CONSTRUCTED else tag);
                r = contents_of conv m contents tag header_len c (if string then out_tag else st)
            in after (if st \<noteq> 0 then r else as_element out_tag r) (\<lambda>c. convert n m c st eoc depth)
      | _ \<Rightarrow> None)"

declare convert.simps [simp del]

section \<open>The code writes it\<close>

text \<open>What is left is no longer than what there was, so \<open>n\<close> rounds are enough.\<close>

lemma contents_left:
  assumes "\<And>c st eoc ys c'. conv c st eoc = Some (ys, c') \<Longrightarrow> unat (cbs_len c') \<le> unat (cbs_len c)"
    "contents_of conv m contents t hl c st = Some (ys, c')"
  shows "unat (cbs_len c') \<le> unat (cbs_len c)"
  using assms(2) by (auto simp: contents_of_def dest: assms(1) split: if_splits outcome.splits)

lemma convert_left:
  "convert n m c st eoc d = Some (ys, c') \<Longrightarrow> unat (cbs_len c') \<le> unat (cbs_len c)"
proof (induction n arbitrary: c st eoc d ys c')
  case (Suc n)
  show ?case
  proof (cases "cbs_len c = 0")
    case True
    with Suc.prems show ?thesis by (simp add: convert.simps split: if_splits)
  next
    case False
    with Suc.prems obtain contents t hl b c1 where e: "CBS_get_any_ber_asn1_element m c = Ok (contents, t, hl, b) c1"
      by (auto simp: convert.simps split: outcome.splits)
    note shorter = ber_element_shorter(1) [OF e]
    show ?thesis
    proof (cases "is_eoc m hl contents")
      case True
      with Suc.prems e False shorter show ?thesis by (simp add: convert.simps split: if_splits)
    next
      case no: False
      let ?conv = "\<lambda>c st eoc. if kMaxDepth < d + 1 then None else convert n m c st eoc (d + 1)"
      from Suc.prems e False no obtain st' xs c2 zs where
        r: "contents_of ?conv m contents t hl c1 st' = Some (xs, c2)" and l: "convert n m c2 st eoc d = Some (zs, c')"
        by (auto simp: convert.simps after_def as_element_def Let_def bind_eq_Some_conv split: if_splits)
      have "unat (cbs_len c2) \<le> unat (cbs_len c1)"
        by (rule contents_left [OF _ r]) (use Suc.IH in \<open>auto split: if_splits\<close>)
      with Suc.IH [OF l] shorter show ?thesis by linarith
    qed
  qed
qed (simp add: convert.simps)

lemma contents_appends:
  assumes conv: "\<And>c' st eoc. unat (cbs_len c') < n \<Longrightarrow> appends 1 C out (cvt c' out st eoc) (conv c' st eoc)"
    and len: "unat (cbs_len c) < n" "\<And>u body. CBS_skip hl contents = Ok u body \<Longrightarrow> unat (cbs_len body) < n"
  shows "appends 1 C out (convert_contents cvt m contents t hl c st out) (contents_of conv m contents t hl c st)"
proof (cases "cbs_len contents = hl \<and> 0 < hl \<and> m (cbs_data contents + (hl - 1)) = 0x80")
  case True
  then show ?thesis using conv [OF len(1)] by (simp add: convert_contents_def contents_of_def CBS_len_def CBS_data_def)
next
  case False
  show ?thesis
  proof (cases "CBS_skip hl contents")
    case (Ok u body)
    show ?thesis
    proof (cases "t AND CBS_ASN1_CONSTRUCTED \<noteq> 0")
      case True
      have "appends 1 C out (mbind (cvt body out st False) (\<lambda>_. mreturn c)) (after (conv body st False) (\<lambda>_. Some ([], c)))"
        by (intro appends_bind conv len(2) [OF Ok] appends_return)
      moreover have "after (conv body st False) (\<lambda>_. Some ([], c)) = map_option (\<lambda>(ys, _). (ys, c)) (conv body st False)"
        by (cases "conv body st False") auto
      ultimately show ?thesis
        unfolding convert_contents_def contents_of_def CBS_len_def CBS_data_def if_not_P [OF False] Ok outcome.case if_P [OF True]
        by simp
    next
      case prim: False
      have "length (cbs_bytes m body) < 2 ^ 64" using unat_less64 [of "cbs_len body"] by simp
      from writes_appends [OF add_bytes_writes [OF this]]
      have "appends 1 C out (mthen (CBB_add_bytes out (cbs_bytes m body)) (mreturn c))
          (after (Some (cbs_bytes m body, ())) (\<lambda>_. Some ([], c)))"
        unfolding mthen_def by (intro appends_bind appends_return) simp
      then show ?thesis
        unfolding convert_contents_def contents_of_def CBS_len_def CBS_data_def if_not_P [OF False] Ok outcome.case if_not_P [OF prim]
        by (simp add: cbs_bytes_def)
    qed
  qed (unfold convert_contents_def contents_of_def CBS_len_def CBS_data_def if_not_P [OF False], simp_all add: appends_fail)
qed

lemma flush_appends: "appends 1 C p k r \<Longrightarrow> appends 1 C p (mthen (CBB_flush p) k) r"
  using appends_bind [OF writes_appends [OF writes_flush], of 1 C p "\<lambda>_. k" "\<lambda>_. r"] by (simp add: mthen_def option.map_id)

lemma element_appends:
  assumes "appends 1 C c w r" "p \<noteq> c" "p \<notin> C"
  shows "appends 1 (insert c C) p (mthen (CBB_add_asn1 p c t) (mbind w (\<lambda>v. mthen (CBB_flush p) (mreturn v)))) (as_element t r)"
proof -
  have "Option.bind r (\<lambda>(xs, v). map_option (\<lambda>out. (der_tag t @ out, v)) (prefixed Asn1 xs)) = as_element t r"
    by (cases r) (auto simp: as_element_def der_def der_header_def)
  with child_yields [OF add_asn1_opens [OF assms(2), of t] assms] show ?thesis by (simp add: appends_def)
qed

lemma mbind_element:
  "mbind (mthen a b) (\<lambda>c. mthen f (k c)) = mbind (mthen a (mbind b (\<lambda>v. mthen f (mreturn v)))) k"
  by (rule ext) (simp add: mthen_def mbind_def split: outcome.splits)

text \<open>The loop with fuel for every byte of the input appends the converted bytes, and never runs out.\<close>

lemma convert_appends:
  "unat (cbs_len c) < n \<Longrightarrow> unat d \<le> 2048 \<Longrightarrow> out \<notin> {L + unat d ..} \<Longrightarrow>
   appends 1 {L + unat d ..} out (convert_loop n m L c out st eoc d) (convert n m c st eoc d)"
proof (induction n arbitrary: c st eoc d out)
  case (Suc n)
  let ?C = "{L + unat d ..}" and ?cell = "L + unat d"
  show ?case
  proof (cases "cbs_len c = 0")
    case True
    then show ?thesis
      by (simp add: convert.simps convert_loop.simps CBS_len_def appends_return appends_fail)
  next
    case some: False
    show ?thesis
    proof (cases "CBS_get_any_ber_asn1_element m c")
      case (Ok e c1)
      obtain contents t hl b where e: "e = (contents, t, hl, b)" by (cases e)
      note el = Ok [unfolded e]
      have len: "unat (cbs_len c1) < n" "\<And>u body. CBS_skip hl contents = Ok u body \<Longrightarrow> unat (cbs_len body) < n"
        using ber_element_shorter [OF el] Suc.prems(1) by fastforce+
      let ?skip = "is_eoc m hl contents" and ?bad = "st \<noteq> 0 \<and> t AND NOT CBS_ASN1_CONSTRUCTED \<noteq> st"
      show ?thesis
      proof (cases "?skip \<or> ?bad")
        case True
        then show ?thesis using some el
          by (auto simp: convert.simps convert_loop.simps CBS_len_def appends_return appends_fail)
      next
        case False
        then have go: "\<not> ?skip" "\<not> ?bad" by blast+
        let ?deep = "kMaxDepth < d + 1"
        let ?string = "st = 0 \<and> t AND CBS_ASN1_CONSTRUCTED \<noteq> 0 \<and> is_string_type t"
        let ?tag = "if ?string then t AND NOT CBS_ASN1_CONSTRUCTED else t"
        let ?st = "if ?string then ?tag else st"
        let ?convert = "\<lambda>c out st eoc. if ?deep then Fail else convert_loop n m L c out st eoc (d + 1)"
        let ?conv = "\<lambda>c st eoc. if ?deep then None else convert n m c st eoc (d + 1)"
        let ?r = "contents_of ?conv m contents t hl c1 ?st"
        let ?w = "convert_contents ?convert m contents t hl c1 ?st"
        have d: "unat (d + 1) = unat d + 1" using unat_add_lem [of d 1] Suc.prems(2) by simp
        have sub: "appends 1 {L + unat d + 1 ..} out' (?w out') ?r" if out': "out' \<notin> {L + unat d + 1 ..}" for out'
        proof (rule contents_appends [OF _ len])
          fix c' :: cbs and st eoc
          assume c': "unat (cbs_len c') < n"
          show "appends 1 {L + unat d + 1 ..} out' (?convert c' out' st eoc) (?conv c' st eoc)"
          proof (cases ?deep)
            case False
            then have "unat (d + 1) \<le> 2048" by (simp add: kMaxDepth_def word_less_nat_alt)
            with Suc.IH [OF c' this] out' d False show ?thesis by (simp add: add.assoc)
          qed (simp add: appends_fail)
        qed
        have loop: "appends 1 ?C out (convert_loop n m L c2 out st eoc d) (convert n m c2 st eoc d)"
          if "?r = Some (xs, c2)" for xs c2
        proof -
          have "unat (cbs_len c2) \<le> unat (cbs_len c1)"
            by (rule contents_left [OF _ that]) (auto dest: convert_left split: if_splits)
          then show ?thesis using len(1) Suc.IH Suc.prems(2,3) by simp
        qed
        let ?k = "\<lambda>c. convert_loop n m L c out st eoc d"
        have code: "convert_loop (Suc n) m L c out st eoc d =
            mbind (if st \<noteq> 0 then ?w out else mthen (CBB_add_asn1 out ?cell ?tag) (?w ?cell)) (\<lambda>c. mthen (CBB_flush out) (?k c))"
          unfolding convert_loop.simps CBS_len_def if_not_P [OF some] el outcome.case prod.case if_not_P [OF go(1)]
            if_not_P [OF go(2)] Let_def by (rule refl)
        have spec: "convert (Suc n) m c st eoc d =
            after (if st \<noteq> 0 then ?r else as_element ?tag ?r) (\<lambda>c. convert n m c st eoc d)"
          unfolding convert.simps if_not_P [OF some] el outcome.case prod.case if_not_P [OF go(1)]
            if_not_P [OF go(2)] Let_def by (rule refl)
        show ?thesis
        proof (cases "st \<noteq> 0")
          case True
          have "appends 1 ?C out (?w out) ?r"
            by (rule appends_mono [OF sub]) (use Suc.prems(3) in auto)
          from appends_bind [OF this flush_appends [OF loop]] show ?thesis unfolding code spec using True by simp
        next
          case element: False
          have cell: "out \<noteq> ?cell" "out \<notin> {L + unat d + 1 ..}" using Suc.prems(3) by auto
          have "appends 1 (insert ?cell {L + unat d + 1 ..}) out
              (mthen (CBB_add_asn1 out ?cell ?tag) (mbind (?w ?cell) (\<lambda>v. mthen (CBB_flush out) (mreturn v)))) (as_element ?tag ?r)"
            by (rule element_appends [OF sub cell]) simp
          then have first: "appends 1 ?C out
              (mthen (CBB_add_asn1 out ?cell ?tag) (mbind (?w ?cell) (\<lambda>v. mthen (CBB_flush out) (mreturn v)))) (as_element ?tag ?r)"
            by (rule appends_mono) auto
          have rest: "appends 1 ?C out (?k v) (convert n m v st eoc d)" if "as_element ?tag ?r = Some (xs, v)" for xs v
          proof -
            from that obtain ys where "?r = Some (ys, v)" by (auto simp: as_element_def bind_eq_Some_conv split: if_splits)
            then show ?thesis by (rule loop)
          qed
          show ?thesis unfolding code spec mbind_element if_not_P [OF element] using appends_bind [OF first rest] .
        qed
      qed
    qed (use some in \<open>simp_all add: convert.simps convert_loop.simps CBS_len_def appends_fail\<close>)
  qed
qed simp

end
