(* ===== verification/BER_Tree.thy ===== *)
theory BER_Tree
  imports BER_Convert
begin

unbundle bit_operations_syntax

text \<open>
  BER as trees: an element is primitive, or constructed with a definite or an indefinite length. The
  bytes of a tree, the DER it stands for, and that the conversion reads exactly the bytes of trees and
  writes their DER.
\<close>

section \<open>Trees\<close>

text \<open>\<open>k\<close> is the form of the length, as in \<open>ber_length\<close>.\<close>

datatype ber = Prim u32 nat "byte list" | Definite u32 nat "ber list" | Indefinite u32 "ber list"

fun ber_bytes :: "ber \<Rightarrow> byte list" where
  "ber_bytes (Prim t k body) = ber_front t (Some k) body"
| "ber_bytes (Definite t k ts) = ber_front t (Some k) (concat (map ber_bytes ts))"
| "ber_bytes (Indefinite t ts) = ber_front t None [] @ concat (map ber_bytes ts) @ [0, 0]"

text \<open>The end-of-contents octets are no element.\<close>

fun ber_ok :: "ber \<Rightarrow> bool" where
  "ber_ok (Prim t k body) \<longleftrightarrow> t AND CBS_ASN1_CONSTRUCTED = 0 \<and> length_fits k (length body) \<and> ber_front t (Some k) body \<noteq> [0, 0]"
| "ber_ok (Definite t k ts) \<longleftrightarrow> t AND CBS_ASN1_CONSTRUCTED \<noteq> 0 \<and> length_fits k (length (concat (map ber_bytes ts))) \<and>
     (\<forall>t\<in>set ts. ber_ok t)"
| "ber_ok (Indefinite t ts) \<longleftrightarrow> t AND CBS_ASN1_CONSTRUCTED \<noteq> 0 \<and> (\<forall>t\<in>set ts. ber_ok t)"

fun levels :: "ber \<Rightarrow> nat" where
  "levels (Prim t k body) = 0"
| "levels (Definite t k ts) = Suc (foldr max (map levels ts) 0)"
| "levels (Indefinite t ts) = Suc (foldr max (map levels ts) 0)"

text \<open>The DER of a tree: an element, or for \<open>st \<noteq> 0\<close> a fragment of a string of that tag, of which only the
  bytes remain. The children of a constructed string are its fragments.\<close>

definition joined :: "byte list option list \<Rightarrow> byte list option" where
  "joined xs = map_option concat (those xs)"

definition emit :: "u32 \<Rightarrow> u32 \<Rightarrow> byte list option \<Rightarrow> byte list option" where
  "emit st t r = (if st \<noteq> 0 then r else Option.bind r (\<lambda>body. if length body \<le> 0xFFFFFFFE then Some (der t body) else None))"

definition is_fragment :: "u32 \<Rightarrow> u32 \<Rightarrow> bool" where
  "is_fragment st t \<longleftrightarrow> st = 0 \<or> t AND NOT CBS_ASN1_CONSTRUCTED = st"

definition string_tag :: "u32 \<Rightarrow> u32" where
  "string_tag t = (if t AND CBS_ASN1_CONSTRUCTED \<noteq> 0 \<and> is_string_type t then t AND NOT CBS_ASN1_CONSTRUCTED else t)"

definition inner_tag :: "u32 \<Rightarrow> u32 \<Rightarrow> u32" where
  "inner_tag st t = (if st = 0 \<and> t AND CBS_ASN1_CONSTRUCTED \<noteq> 0 \<and> is_string_type t then string_tag t else st)"

fun der_of :: "u32 \<Rightarrow> ber \<Rightarrow> byte list option" where
  "der_of st (Prim t k body) = (if is_fragment st t then emit st t (Some body) else None)"
| "der_of st (Definite t k ts) =
     (if is_fragment st t then emit st (string_tag t) (joined (map (der_of (inner_tag st t)) ts)) else None)"
| "der_of st (Indefinite t ts) =
     (if is_fragment st t then emit st (string_tag t) (joined (map (der_of (inner_tag st t)) ts)) else None)"

lemma joined_simps [simp]:
  "joined [] = Some []"
  "joined (x # xs) = Option.bind x (\<lambda>ys. map_option ((@) ys) (joined xs))"
  by (cases x; simp add: joined_def option.map_comp comp_def)+

lemma levels_below: "foldr max (map levels ts) 0 \<le> n \<longleftrightarrow> (\<forall>t\<in>set ts. levels t \<le> n)"
  by (induction ts) auto

section \<open>The parts of an element\<close>

lemma front_length: "length (ber_front t form body) = length (der_tag t) + (case form of None \<Rightarrow> 1 | Some k \<Rightarrow> Suc k + length body)"
  by (simp add: ber_front_def split: option.splits)

lemma der_tag_ne: "der_tag t \<noteq> []"
  by (simp add: der_tag_def)

lemma be_bytes_zero: "be_bytes k (0 :: u64) = replicate k 0"
  by (induction k) (simp_all add: be_bytes_Cons)

lemma last_header: "last (der_tag t @ ber_length k 0) = 0"
  by (cases k) (simp_all add: ber_length_def be_bytes_zero)

lemma last_mem: "mem_bytes m a n = xs \<Longrightarrow> xs \<noteq> [] \<Longrightarrow> m (a + (of_nat (length xs) - 1)) = last xs"
proof -
  assume xs: "mem_bytes m a n = xs" "xs \<noteq> []"
  then have n: "length xs = n" "0 < n" by (auto simp: mem_bytes_def)
  then have "(of_nat (length xs) - 1 :: u64) = of_nat (n - 1)" by (simp add: of_nat_diff)
  moreover have "last xs = xs ! (n - 1)" using xs(2) n by (simp add: last_conv_nth)
  ultimately show ?thesis using xs(1) n by (auto simp: mem_bytes_def)
qed

lemma front_there:
  assumes e: "front_ok t form body" "takes m c (ber_front t form body) c1"
  obtains contents hl where "CBS_get_any_ber_asn1_element m c = Ok (contents, t, hl, front_ber form body) c1"
    "is_eoc m hl contents \<longleftrightarrow> ber_front t form body = [0, 0]"
    "cbs_len contents = hl \<and> 0 < hl \<and> m (cbs_data contents + (hl - 1)) = 0x80 \<longleftrightarrow> form = None"
    "form \<noteq> None \<longrightarrow> (\<exists>bc. CBS_skip hl contents = Ok () bc \<and> cbs_bytes m bc = body)"
proof -
  define hl :: u64 where "hl = of_nat (length (ber_front t form body) - length body)"
  define contents where "contents = CBS_init (cbs_data c) (of_nat (length (ber_front t form body)))"
  have read: "CBS_get_any_ber_asn1_element m c = Ok (contents, t, hl, front_ber form body) c1"
    unfolding ber_element_Ok hl_def contents_def using e by blast
  let ?f = "ber_front t form body"
  have body: "length body < length ?f"
    using e(1) by (auto simp: front_length front_ok_def split: option.splits)
  have "length ?f \<le> unat (cbs_len c)" using takes_len [OF e(2)] by simp
  then have w: "unat (of_nat k :: u64) = k" if "k \<le> length ?f" for k
    using that unat_less64 [of "cbs_len c"] by (intro unat_of_nat_addr) simp
  have hl: "unat hl = length ?f - length body" "0 < hl" "unat (cbs_len contents) = length ?f"
    using body w by (simp_all add: hl_def contents_def CBS_init_def word_less_nat_alt del: of_nat_diff)
  have bytes: "mem_bytes m (cbs_data c) (length ?f) = ?f" using e(2) by (simp add: takes_iff)
  then have whole: "cbs_bytes m contents = ?f" using hl(3) by (simp add: cbs_bytes_def contents_def CBS_init_def)
  have eoc: "is_eoc m hl contents \<longleftrightarrow> ?f = [0, 0]"
  proof
    assume "is_eoc m hl contents"
    then have "CBS_len contents = 2" "mem_bytes m (cbs_data contents) 2 = [0, 0]" by (simp_all add: is_eoc_def CBS_data_def)
    then show "?f = [0, 0]" using whole by (simp add: cbs_bytes_def CBS_len_def)
  next
    assume f: "?f = [0, 0]"
    moreover have "body = []"
    proof -
      obtain x xs where "der_tag t = x # xs" using der_tag_ne [of t] by (cases "der_tag t") auto
      moreover have "length ?f = 2" using f by simp
      ultimately have "length body = 0"
        using e(1) by (auto simp: front_length front_ok_def split: option.splits)
      then show ?thesis by simp
    qed
    ultimately have "hl = 2" "cbs_len contents = 2" by (simp_all add: hl_def contents_def CBS_init_def)
    with whole f show "is_eoc m hl contents" by (simp add: is_eoc_def CBS_data_def CBS_len_def cbs_bytes_def)
  qed
  have "unat (cbs_len contents) = unat hl \<longleftrightarrow> length body = 0" using hl(1,3) body by linarith
  then have len: "cbs_len contents = hl \<longleftrightarrow> body = []" by (simp add: word_unat_eq_iff)
  have "m (cbs_data contents + (hl - 1)) = last ?f" if "body = []"
    using last_mem [OF bytes] body that by (auto simp: hl_def contents_def CBS_init_def)
  moreover have "last ?f = (if form = None then 0x80 else 0)" if "body = []"
    using that last_header by (auto simp: ber_front_def split: option.splits)
  moreover have "body = []" if "form = None" using that e(1) by (simp add: front_ok_def)
  ultimately have indef: "cbs_len contents = hl \<and> 0 < hl \<and> m (cbs_data contents + (hl - 1)) = 0x80 \<longleftrightarrow> form = None"
    using len hl(2) by (cases "form = None") auto
  have "\<exists>bc. CBS_skip hl contents = Ok () bc \<and> cbs_bytes m bc = body" if "form \<noteq> None"
  proof -
    from that obtain k where "form = Some k" by blast
    then have "?f = (der_tag t @ ber_length k (length body)) @ body" by (simp add: ber_front_def)
    then obtain hdr where hdr: "?f = hdr @ body" by blast
    then have n: "unat hl = length hdr" using hl(1) by simp
    have "takes m contents hdr (cbs_drop (length hdr) contents)"
      using whole hdr by (simp add: takes_front)
    from takes_bytes [OF this] whole hdr have "cbs_bytes m (cbs_drop (length hdr) contents) = body" by simp
    then show ?thesis using n hl(3) hdr by (simp add: CBS_skip_Ok)
  qed
  then have "form \<noteq> None \<longrightarrow> (\<exists>bc. CBS_skip hl contents = Ok () bc \<and> cbs_bytes m bc = body)" by blast
  from that [OF read eoc indef this] show thesis .
qed

lemma element_parts:
  assumes "CBS_get_any_ber_asn1_element m c = Ok (contents, t, hl, b) c1"
  obtains form body where "front_ok t form body" "takes m c (ber_front t form body) c1" "b = front_ber form body"
    "is_eoc m hl contents \<longleftrightarrow> ber_front t form body = [0, 0]"
    "cbs_len contents = hl \<and> 0 < hl \<and> m (cbs_data contents + (hl - 1)) = 0x80 \<longleftrightarrow> form = None"
    "form \<noteq> None \<longrightarrow> (\<exists>bc. CBS_skip hl contents = Ok () bc \<and> cbs_bytes m bc = body)"
proof -
  from assms obtain form body where e: "front_ok t form body" "takes m c (ber_front t form body) c1"
    unfolding ber_element_Ok by blast
  then show thesis
    by (rule front_there) (use assms e that in auto)
qed

lemma contents_parts:
  assumes "cbs_len contents = hl \<and> 0 < hl \<and> m (cbs_data contents + (hl - 1)) = 0x80 \<longleftrightarrow> form = None"
    "form \<noteq> None \<longrightarrow> CBS_skip hl contents = Ok () bc \<and> cbs_bytes m bc = body"
  shows "contents_of conv m contents t hl c1 st =
    (if form = None then conv c1 st True
     else if t AND CBS_ASN1_CONSTRUCTED \<noteq> 0 then map_option (\<lambda>(ys, _). (ys, c1)) (conv bc st False)
     else Some (body, c1))"
  unfolding contents_of_def assms(1) using assms(2) by simp

section \<open>The conversion reads trees\<close>

definition eoc_bytes :: "bool \<Rightarrow> byte list" where
  "eoc_bytes eoc = (if eoc then [0, 0] else [])"

text \<open>What the conversion at depth \<open>d\<close> makes of \<open>c\<close>.\<close>

definition reads_trees :: "mem \<Rightarrow> cbs \<Rightarrow> u32 \<Rightarrow> bool \<Rightarrow> nat \<Rightarrow> ber list \<Rightarrow> byte list \<Rightarrow> cbs \<Rightarrow> bool" where
  "reads_trees m c st eoc d ts ys c' \<longleftrightarrow>
     (\<forall>t\<in>set ts. ber_ok t \<and> d + levels t \<le> 2048) \<and> takes m c (concat (map ber_bytes ts) @ eoc_bytes eoc) c' \<and>
     (\<not> eoc \<longrightarrow> cbs_len c' = 0) \<and> joined (map (der_of st) ts) = Some ys"

lemma convert_Suc:
  assumes "cbs_len c \<noteq> 0" "CBS_get_any_ber_asn1_element m c = Ok (contents, t, hl, b) c1"
  shows "convert (Suc n) m c st eoc d =
    (if is_eoc m hl contents then (if eoc then Some ([], c1) else None)
     else if \<not> is_fragment st t then None
     else let r = contents_of (\<lambda>c st eoc. if kMaxDepth < d + 1 then None else convert n m c st eoc (d + 1)) m contents t hl c1
                (inner_tag st t)
       in after (if st \<noteq> 0 then r else as_element (string_tag t) r) (\<lambda>c. convert n m c st eoc d))"
  unfolding convert.simps if_not_P [OF assms(1)] assms(2) outcome.case prod.case
  by (simp add: is_fragment_def inner_tag_def string_tag_def Let_def)

lemma emit_value:
  "(if st \<noteq> 0 then r else as_element t r) = Some (xs, v) \<longleftrightarrow>
     (\<exists>body. r = Some (body, v) \<and> emit st t (Some body) = Some xs)"
  by (cases r) (auto simp: as_element_def emit_def split: if_splits)

lemma empty_bytes: "cbs_len c = 0 \<Longrightarrow> cbs_bytes m c = []"
  by (simp add: cbs_bytes_def)

lemma deeper:
  assumes "unat (d :: u32) \<le> 2048"
  shows "kMaxDepth < d + 1 \<longleftrightarrow> 2048 < unat d + 1" "unat (d + 1) = unat d + 1"
  using assms unat_add_lem [of d 1] by (simp_all add: kMaxDepth_def word_less_nat_alt)

lemma convert_sound:
  "convert n m c st eoc d = Some (ys, c') \<Longrightarrow> unat d \<le> 2048 \<Longrightarrow> \<exists>ts. reads_trees m c st eoc (unat d) ts ys c'"
proof (induction n arbitrary: c st eoc d ys c')
  case (Suc n)
  note d = deeper [OF Suc.prems(2)]
  show ?case
  proof (cases "cbs_len c = 0")
    case True
    with Suc.prems show ?thesis
      by (intro exI [of _ "[]"]) (auto simp: convert.simps reads_trees_def eoc_bytes_def split: if_splits)
  next
    case False
    with Suc.prems obtain contents t hl b c1 where e: "CBS_get_any_ber_asn1_element m c = Ok (contents, t, hl, b) c1"
      by (auto simp: convert.simps split: outcome.splits)
    note step = convert_Suc [OF False e]
    from e obtain form body where f: "front_ok t form body" "takes m c (ber_front t form body) c1" "b = front_ber form body"
      "is_eoc m hl contents \<longleftrightarrow> ber_front t form body = [0, 0]"
      "cbs_len contents = hl \<and> 0 < hl \<and> m (cbs_data contents + (hl - 1)) = 0x80 \<longleftrightarrow> form = None"
      "form \<noteq> None \<longrightarrow> (\<exists>bc. CBS_skip hl contents = Ok () bc \<and> cbs_bytes m bc = body)"
      by (rule element_parts)
    show ?thesis
    proof (cases "is_eoc m hl contents")
      case True
      with Suc.prems step f show ?thesis
        by (intro exI [of _ "[]"]) (auto simp: reads_trees_def eoc_bytes_def split: if_splits)
    next
      case no: False
      let ?conv = "\<lambda>c st eoc. if kMaxDepth < d + 1 then None else convert n m c st eoc (d + 1)"
      let ?st = "inner_tag st t"
      from f(6) obtain bc where bc: "form \<noteq> None \<longrightarrow> CBS_skip hl contents = Ok () bc \<and> cbs_bytes m bc = body" by blast
      note parts = contents_parts [OF f(5) bc]
      from Suc.prems(1) no obtain xs1 c2 xs2 where el: "is_fragment st t"
        "(if st \<noteq> 0 then contents_of ?conv m contents t hl c1 ?st else as_element (string_tag t) (contents_of ?conv m contents t hl c1 ?st))
          = Some (xs1, c2)" "convert n m c2 st eoc d = Some (xs2, c')" "ys = xs1 @ xs2"
        unfolding step by (auto simp: Let_def after_def bind_eq_Some_conv split: if_splits)
      from el(2) obtain inner where inner: "contents_of ?conv m contents t hl c1 ?st = Some (inner, c2)"
        "emit st (string_tag t) (Some inner) = Some xs1" unfolding emit_value by blast
      have "\<exists>tree. ber_ok tree \<and> unat d + levels tree \<le> 2048 \<and> takes m c (ber_bytes tree) c2 \<and> der_of st tree = Some xs1"
      proof (cases form)
        case None
        with inner(1) have "convert n m c1 ?st True (d + 1) = Some (inner, c2)" and deep: "\<not> 2048 < unat d + 1"
          unfolding parts d(1) by (auto split: if_splits)
        from Suc.IH [OF this(1)] d deep obtain ts where ts: "reads_trees m c1 ?st True (unat d + 1) ts inner c2" by auto
        have c: "t AND CBS_ASN1_CONSTRUCTED \<noteq> 0" "ber_front t None [] = ber_front t form body"
          using f(1) None by (simp_all add: front_ok_def ber_front_def)
        show ?thesis
        proof (intro exI [of _ "Indefinite t ts"] conjI)
          show "unat d + levels (Indefinite t ts) \<le> 2048"
            using ts deep levels_below [of ts "2047 - unat d"] by (fastforce simp: reads_trees_def)
          show "takes m c (ber_bytes (Indefinite t ts)) c2"
            using ts f(2) c(2) takes_append by (fastforce simp: reads_trees_def eoc_bytes_def)
        qed (use ts c(1) el(1) inner(2) in \<open>auto simp: reads_trees_def\<close>)
      next
        case (Some k)
        note bc = bc [THEN mp, OF option.discI [OF Some]]
        have fits: "length_fits k (length body)" using f(1) Some by (simp add: front_ok_def)
        show ?thesis
        proof (cases "t AND CBS_ASN1_CONSTRUCTED \<noteq> 0")
          case True
          with inner(1) Some obtain c3 where "convert n m bc ?st False (d + 1) = Some (inner, c3)" and c2: "c2 = c1"
            and deep: "\<not> 2048 < unat d + 1"
            unfolding parts d(1) by (auto split: if_splits)
          from Suc.IH [OF this(1)] d deep obtain ts where ts: "reads_trees m bc ?st False (unat d + 1) ts inner c3" by auto
          then have "body = concat (map ber_bytes ts)"
            using takes_bytes [of m bc _ c3] bc by (fastforce simp: reads_trees_def eoc_bytes_def empty_bytes)
          moreover have "unat d + levels (Definite t k ts) \<le> 2048"
            using ts deep levels_below [of ts "2047 - unat d"] by (fastforce simp: reads_trees_def)
          ultimately show ?thesis using ts True el(1) inner(2) f(2) fits Some c2
            by (intro exI [of _ "Definite t k ts"]) (auto simp: reads_trees_def)
        next
          case False
          then have "string_tag t = t" "inner = body" "c2 = c1" using inner(1) Some unfolding parts by (auto simp: string_tag_def)
          then show ?thesis using False el(1) inner(2) f(2,4) fits no Some Suc.prems(2)
            by (intro exI [of _ "Prim t k body"]) auto
        qed
      qed
      then obtain tree where tree: "ber_ok tree" "unat d + levels tree \<le> 2048" "takes m c (ber_bytes tree) c2" "der_of st tree = Some xs1"
        by blast
      from Suc.IH [OF el(3) Suc.prems(2)] obtain ts where ts: "reads_trees m c2 st eoc (unat d) ts xs2 c'" by blast
      have "takes m c (ber_bytes tree @ concat (map ber_bytes ts) @ eoc_bytes eoc) c'"
        using ts tree(3) takes_append by (fastforce simp: reads_trees_def)
      with ts tree el(4) show ?thesis by (intro exI [of _ "tree # ts"]) (simp add: reads_trees_def)
    qed
  qed
qed (simp add: convert.simps)

text \<open>Every sequence of trees within the depth is converted.\<close>

lemma tree_Cons:
  "reads_trees m c st eoc d (tree # ts) ys c' \<longleftrightarrow>
     (\<exists>c2 xs1 xs2. ber_ok tree \<and> d + levels tree \<le> 2048 \<and> takes m c (ber_bytes tree) c2 \<and> der_of st tree = Some xs1 \<and>
        reads_trees m c2 st eoc d ts xs2 c' \<and> ys = xs1 @ xs2)"
proof -
  have "takes m c (concat (map ber_bytes (tree # ts)) @ eoc_bytes eoc) c' \<longleftrightarrow>
      (\<exists>c2. takes m c (ber_bytes tree) c2 \<and> takes m c2 (concat (map ber_bytes ts) @ eoc_bytes eoc) c')"
    using takes_append [of m c "ber_bytes tree"] by simp
  then show ?thesis by (auto simp: reads_trees_def bind_eq_Some_conv)
qed

lemma eoc_read:
  assumes "takes m c [0, 0] c'"
  obtains contents hl where "CBS_get_any_ber_asn1_element m c = Ok (contents, 0, hl, False) c'" "is_eoc m hl contents"
proof -
  have front: "ber_front 0 (Some 0) [] = [0, 0]" "front_ok 0 (Some 0) []" "\<not> front_ber (Some 0) []"
    by (simp_all add: ber_front_def der_tag_def tag_class_def tag_number_def ber_length_def front_ok_def length_fits_def
        front_ber_def roundabout_def)
  with assms have "takes m c (ber_front 0 (Some 0) []) c'" by simp
  from front_there [OF front(2) this] that front show thesis by (metis (full_types))
qed

lemma inner_reads:
  assumes "joined (map (der_of st) ts) = Some inner" "\<forall>t\<in>set ts. ber_ok t" "d + foldr max (map levels ts) 0 \<le> 2048"
    "takes m c (concat (map ber_bytes ts) @ eoc_bytes eoc) c'" "\<not> eoc \<Longrightarrow> cbs_len c' = 0"
  shows "reads_trees m c st eoc d ts inner c'"
  using assms levels_below [of ts "2048 - d"] by (fastforce simp: reads_trees_def)

lemma constructed_not_eoc:
  assumes "t AND CBS_ASN1_CONSTRUCTED \<noteq> 0"
  shows "ber_front t form body \<noteq> [0, 0]"
proof
  assume "ber_front t form body = [0, 0]"
  then have "hd (der_tag t) = 0" using der_tag_ne [of t] by (cases "der_tag t") (auto simp: ber_front_def split: option.splits)
  then have "\<not> bit (hd (der_tag t)) 5" by simp
  moreover have "\<not> bit (take_bit 29 t) 5" if "unat (take_bit 29 t) < 31"
  proof -
    have "take_bit 5 (take_bit 29 t) = take_bit 29 t" using that by (simp add: fits_iff del: take_bit_take_bit)
    then have "bit (take_bit 29 t) 5 = bit (take_bit 5 (take_bit 29 t)) 5" by simp
    then show ?thesis by (simp add: bit_simps)
  qed
  then have "bit (hd (der_tag t)) 5 = bit t 29"
    by (auto simp: der_tag_def tag_class_def tag_number_def bit_simps)
  ultimately have "t AND 2 ^ 29 = 0" unfolding and_exp_eq_0_iff_not_bit by simp
  with assms show False by (simp add: CBS_ASN1_CONSTRUCTED_def CBS_ASN1_TAG_SHIFT_def)
qed

lemma convert_complete:
  "reads_trees m c st eoc (unat d) ts ys c' \<Longrightarrow> unat d \<le> 2048 \<Longrightarrow> unat (cbs_len c) < n \<Longrightarrow>
   convert n m c st eoc d = Some (ys, c')"
proof (induction n arbitrary: c st eoc d ts ys c')
  case (Suc n)
  note d = deeper [OF Suc.prems(2)]
  show ?case
  proof (cases ts)
    case Nil
    with Suc.prems(1) have ys: "ys = []" "takes m c (eoc_bytes eoc) c'" "\<not> eoc \<longrightarrow> cbs_len c' = 0"
      by (simp_all add: reads_trees_def)
    show ?thesis
    proof (cases eoc)
      case True
      with ys(2) have zeros: "takes m c [0, 0] c'" by (simp add: eoc_bytes_def)
      then obtain contents hl where el: "CBS_get_any_ber_asn1_element m c = Ok (contents, 0, hl, False) c'" "is_eoc m hl contents"
        by (rule eoc_read)
      have "cbs_len c \<noteq> 0" using takes_len [OF zeros] by auto
      then show ?thesis using True ys(1) el by (simp add: convert_Suc [OF _ el(1)])
    next
      case False
      then show ?thesis using ys by (simp add: convert.simps eoc_bytes_def)
    qed
  next
    case (Cons tree ts')
    from Suc.prems(1) [unfolded Cons tree_Cons] obtain c2 xs1 xs2 where tree: "ber_ok tree" "unat d + levels tree \<le> 2048" "takes m c (ber_bytes tree) c2"
      "der_of st tree = Some xs1" and rest: "reads_trees m c2 st eoc (unat d) ts' xs2 c'" "ys = xs1 @ xs2"
      by blast
    let ?conv = "\<lambda>c st eoc. if kMaxDepth < d + 1 then None else convert n m c st eoc (d + 1)"
    have finish: ?thesis
      if el: "CBS_get_any_ber_asn1_element m c = Ok (contents, t, hl, b) c1" "\<not> is_eoc m hl contents" "is_fragment st t"
        "contents_of ?conv m contents t hl c1 (inner_tag st t) = Some (inner, c2)" "emit st (string_tag t) (Some inner) = Some xs1"
      for contents t hl b c1 inner
    proof -
      let ?r = "contents_of ?conv m contents t hl c1 (inner_tag st t)"
      have el_value: "(if st \<noteq> 0 then ?r else as_element (string_tag t) ?r) = Some (xs1, c2)"
        unfolding emit_value using el(4,5) by blast
      have "unat (cbs_len c2) \<le> unat (cbs_len c1)"
        by (rule contents_left [OF _ el(4)]) (auto dest: convert_left split: if_splits)
      then have "unat (cbs_len c2) < n" using ber_element_shorter(1) [OF el(1)] Suc.prems(3) by linarith
      from Suc.IH [OF rest(1) Suc.prems(2) this] have "convert n m c2 st eoc d = Some (xs2, c')" .
      then show ?thesis
        unfolding convert_Suc [OF ber_element_shorter(2) [OF el(1)] el(1)] if_not_P [OF el(2)] Let_def el_value
        using el(3) rest(2) by simp
    qed
    show ?thesis
    proof (cases tree)
      case (Prim t k body)
      with tree have f: "front_ok t (Some k) body" "takes m c (ber_front t (Some k) body) c2" by (simp_all add: front_ok_def)
      then obtain contents hl where el: "CBS_get_any_ber_asn1_element m c = Ok (contents, t, hl, front_ber (Some k) body) c2"
        "is_eoc m hl contents \<longleftrightarrow> ber_front t (Some k) body = [0, 0]"
        "cbs_len contents = hl \<and> 0 < hl \<and> m (cbs_data contents + (hl - 1)) = 0x80 \<longleftrightarrow> Some k = None"
        "Some k \<noteq> None \<longrightarrow> (\<exists>bc. CBS_skip hl contents = Ok () bc \<and> cbs_bytes m bc = body)"
        by (rule front_there)
      then obtain bc where bc: "Some k \<noteq> None \<longrightarrow> CBS_skip hl contents = Ok () bc \<and> cbs_bytes m bc = body" by blast
      show ?thesis
        by (rule finish [OF el(1)]) (use tree Prim el(2) contents_parts [OF el(3) bc] in \<open>auto simp: string_tag_def split: if_splits\<close>)
    next
      case (Definite t k ts0)
      let ?body = "concat (map ber_bytes ts0)"
      from tree Definite have f: "front_ok t (Some k) ?body" "takes m c (ber_front t (Some k) ?body) c2" "t AND CBS_ASN1_CONSTRUCTED \<noteq> 0"
        by (simp_all add: front_ok_def)
      from f(1,2) obtain contents hl where el: "CBS_get_any_ber_asn1_element m c = Ok (contents, t, hl, front_ber (Some k) ?body) c2"
        "is_eoc m hl contents \<longleftrightarrow> ber_front t (Some k) ?body = [0, 0]"
        "cbs_len contents = hl \<and> 0 < hl \<and> m (cbs_data contents + (hl - 1)) = 0x80 \<longleftrightarrow> Some k = None"
        "Some k \<noteq> None \<longrightarrow> (\<exists>bc. CBS_skip hl contents = Ok () bc \<and> cbs_bytes m bc = ?body)"
        by (rule front_there)
      then obtain bc where bc: "Some k \<noteq> None \<longrightarrow> CBS_skip hl contents = Ok () bc \<and> cbs_bytes m bc = ?body" by blast
      from tree(4) Definite obtain inner where inner: "joined (map (der_of (inner_tag st t)) ts0) = Some inner"
        "emit st (string_tag t) (Some inner) = Some xs1" "is_fragment st t"
        by (auto simp: emit_def bind_eq_Some_conv split: if_splits)
      let ?stop = "cbs_drop (length ?body) bc"
      have "takes m bc (?body @ eoc_bytes False) ?stop" "cbs_len ?stop = 0"
        using bc takes_front [of m bc ?body "[]"] length_cbs_bytes [of m bc]
        by (simp_all add: eoc_bytes_def cbs_drop_def)
      with inner(1) tree Definite have "reads_trees m bc (inner_tag st t) False (unat d + 1) ts0 inner ?stop"
        by (intro inner_reads) auto
      then have "convert n m bc (inner_tag st t) False (d + 1) = Some (inner, ?stop)"
        using Suc.IH [of bc _ _ "d + 1"] d(2) tree(2) Definite ber_element_shorter(3) [OF el(1)] bc Suc.prems(3) by fastforce
      moreover have "\<not> kMaxDepth < d + 1" using d(1) tree(2) Definite by simp
      ultimately show ?thesis
        by (intro finish [OF el(1) _ inner(3) _ inner(2)]) (use f(3) el(2) contents_parts [OF el(3) bc] constructed_not_eoc [OF f(3)] in auto)
    next
      case (Indefinite t ts0)
      from tree Indefinite obtain c1 where f: "front_ok t None []" "takes m c (ber_front t None []) c1" "t AND CBS_ASN1_CONSTRUCTED \<noteq> 0"
        "takes m c1 (concat (map ber_bytes ts0) @ eoc_bytes True) c2"
        by (auto simp: front_ok_def takes_append eoc_bytes_def)
      from f(1,2) obtain contents hl where el: "CBS_get_any_ber_asn1_element m c = Ok (contents, t, hl, front_ber None []) c1"
        "is_eoc m hl contents \<longleftrightarrow> ber_front t None [] = [0, 0]"
        "cbs_len contents = hl \<and> 0 < hl \<and> m (cbs_data contents + (hl - 1)) = 0x80 \<longleftrightarrow> None = None"
        by (rule front_there) blast
      from tree(4) Indefinite obtain inner where inner: "joined (map (der_of (inner_tag st t)) ts0) = Some inner"
        "emit st (string_tag t) (Some inner) = Some xs1" "is_fragment st t"
        by (auto simp: emit_def bind_eq_Some_conv split: if_splits)
      have "reads_trees m c1 (inner_tag st t) True (unat d + 1) ts0 inner c2"
        by (rule inner_reads [OF inner(1) _ _ f(4)]) (use tree Indefinite in auto)
      then have "convert n m c1 (inner_tag st t) True (d + 1) = Some (inner, c2)"
        using Suc.IH [of c1 _ _ "d + 1"] d(2) tree(2) Indefinite ber_element_shorter(1) [OF el(1)] Suc.prems(3) by fastforce
      moreover have "\<not> kMaxDepth < d + 1" using d(1) tree(2) Indefinite by simp
      ultimately show ?thesis
        by (intro finish [OF el(1) _ inner(3) _ inner(2)]) (use el(2,3) constructed_not_eoc [OF f(3)] in \<open>auto simp: contents_of_def\<close>)
    qed
  qed
qed simp

end
