(* ===== verification/BER_Spec.thy ===== *)
theory BER_Spec
  imports BER_Tree
begin

unbundle bit_operations_syntax

text \<open>
  What \<open>bytestring/ber.c\<close> promises: the conversion turns exactly the BER within its depth into the DER of the
  same tree, always ends, leaves DER alone and writes nothing that needs conversion; an implicitly tagged
  string is read from its primitive or its constructed form. And what the search of the conversion finds: it
  overlooks BER inside of an element that is not the last one.
\<close>

section \<open>The conversion\<close>

text \<open>The bytes of the result: in the input, or in the new storage.\<close>

fun result_bytes :: "mem \<Rightarrow> cbs + byte list \<times> u64 \<Rightarrow> byte list" where
  "result_bytes m (Inl out) = cbs_bytes m out"
| "result_bytes m (Inr (buf, len)) = cbs_bytes (list_mem buf) (CBS_init 0 len)"

definition ber_run :: "mem \<Rightarrow> nat \<Rightarrow> nat \<Rightarrow> nat \<Rightarrow> cbs \<Rightarrow> (cbs \<times> (cbs + byte list \<times> u64)) builder" where
  "ber_run m b p locals c = mthen (CBB_init b p (CBS_len c))
     (mbind (cbs_convert_ber (unat (CBS_len c) + 1) m locals c p 0 False 0) (\<lambda>c.
        mbind (CBB_finish p True) (\<lambda>(out_storage, len). mreturn (c, Inr (out_storage, len)))))"

lemma ber_to_der_run:
  "CBS_asn1_ber_to_der m b p locals c h =
     (case cbs_find_ber m 0 c of
        None \<Rightarrow> Fail h
      | Some True \<Rightarrow> (case ber_run m b p locals c h of Fail h \<Rightarrow> Fail (CBB_cleanup p h) | r \<Rightarrow> r)
      | Some False \<Rightarrow> (case CBS_get_any_asn1_element m c of Ok (out, _) c \<Rightarrow> Ok (c, Inl out) h | _ \<Rightarrow> Fail h))"
  by (simp add: CBS_asn1_ber_to_der_def ber_run_def split: option.split bool.split)

lemma convert_run:
  assumes "1 < flush_depth h" "p < locals"
  shows "(case ber_run m b p locals c h of
      Ok (c', res) h' \<Rightarrow> \<exists>ts ys buf len. reads_trees m c 0 False 0 ts ys c' \<and> res = Inr (buf, len) \<and> unat len = length ys \<and>
        length ys \<le> length buf \<and> take (length ys) buf = ys
    | Fail h' \<Rightarrow> \<not> (\<forall>k. allocates h k) \<or> (\<forall>ts ys c'. reads_trees m c 0 False 0 ts ys c' \<longrightarrow> 2 ^ 64 \<le> length ys)
    | _ \<Rightarrow> False)"
proof -
  have "appends 1 {locals + unat (0 :: u32) ..} p (convert_loop (unat (cbs_len c) + 1) m locals c p 0 False 0)
      (convert (unat (cbs_len c) + 1) m c 0 False 0)"
    by (rule convert_appends) (use assms(2) in simp_all)
  then have w: "appends 1 {locals ..} p (cbs_convert_ber (unat (CBS_len c) + 1) m locals c p 0 False 0)
      (convert (unat (cbs_len c) + 1) m c 0 False 0)"
    by (simp add: cbs_convert_ber_def CBS_len_def kMaxDepth_def)
  have conv: "convert (unat (cbs_len c) + 1) m c 0 False 0 = Some (ys, c') \<longleftrightarrow> (\<exists>ts. reads_trees m c 0 False 0 ts ys c')" for ys c'
    using convert_sound [of "unat (cbs_len c) + 1" m c 0 False 0 ys c'] convert_complete [of m c 0 False 0 _ ys c' "unat (cbs_len c) + 1"]
    by auto
  note run = run_appends [OF w assms(1), where b = b and g = "\<lambda>c buf len. (c, Inr (buf, len) :: cbs + byte list \<times> u64)" and cap = "CBS_len c", folded ber_run_def]
  show ?thesis
  proof (cases "ber_run m b p locals c h")
    case (Ok x h')
    from run [unfolded Ok outcome.case] obtain ys v buf len where
      "convert (unat (cbs_len c) + 1) m c 0 False 0 = Some (ys, v)" "x = (v, Inr (buf, len))"
      "unat len = length ys" "length ys \<le> length buf" "take (length ys) buf = ys" by blast
    with conv obtain ts where "reads_trees m c 0 False 0 ts ys v" by blast
    with \<open>x = _\<close> \<open>unat len = _\<close> \<open>_ \<le> _\<close> \<open>take _ _ = _\<close> Ok show ?thesis by auto
  next
    case (Fail h')
    show ?thesis using run conv unfolding Fail outcome.case by blast
  qed (use run in simp_all)
qed

lemma reads_all:
  "(\<exists>c'. reads_trees m c st False d ts ys c') \<longleftrightarrow>
     (\<forall>t\<in>set ts. ber_ok t \<and> d + levels t \<le> 2048) \<and> cbs_bytes m c = concat (map ber_bytes ts) \<and> joined (map (der_of st) ts) = Some ys"
proof -
  have "(\<exists>c'. takes m c xs c' \<and> cbs_len c' = 0) \<longleftrightarrow> cbs_bytes m c = xs" for xs
  proof
    assume "\<exists>c'. takes m c xs c' \<and> cbs_len c' = 0"
    then show "cbs_bytes m c = xs" using takes_bytes empty_bytes by fastforce
  next
    assume xs: "cbs_bytes m c = xs"
    then have "takes m c xs (cbs_drop (length xs) c)" using takes_front [of m c xs "[]"] by simp
    moreover have "cbs_len (cbs_drop (length xs) c) = 0" using xs by (auto simp: cbs_drop_def)
    ultimately show "\<exists>c'. takes m c xs c' \<and> cbs_len c' = 0" by blast
  qed
  then show ?thesis by (auto simp: reads_trees_def eoc_bytes_def)
qed

text \<open>A store whose allocator serves, and an octet string in two fragments, of indefinite length.\<close>

definition ber_store :: cbb_store where
  "ber_store = \<lparr>buffers = (\<lambda>_. \<lparr>bb_buf = [], bb_len = 0, bb_cap = 0, bb_can_resize = False, bb_error = False\<rparr>),
     cbbs = (\<lambda>_. \<lparr>cbb_base = None, cbb_child = None, cbb_offset = 0, pending_len_len = 0, pending_is_asn1 = False, is_child = False\<rparr>),
     allocates = (\<lambda>_. True), flush_depth = 2\<rparr>"

definition ber_sample :: ber where
  "ber_sample = Indefinite 0x20000004 [Prim 4 0 [0x61], Prim 4 0 [0x62]]"

lemmas sample_simps = is_fragment_def emit_def string_tag_def inner_tag_def is_string_type_def CBS_ASN1_CONSTRUCTED_def
  CBS_ASN1_TAG_SHIFT_def CBS_ASN1_OCTETSTRING_def CBS_ASN1_UTF8STRING_def CBS_ASN1_NUMERICSTRING_def CBS_ASN1_PRINTABLESTRING_def
  CBS_ASN1_T61STRING_def CBS_ASN1_VIDEOTEXSTRING_def CBS_ASN1_IA5STRING_def CBS_ASN1_GRAPHICSTRING_def CBS_ASN1_VISIBLESTRING_def
  CBS_ASN1_GENERALSTRING_def CBS_ASN1_UNIVERSALSTRING_def CBS_ASN1_BMPSTRING_def CBS_ASN1_INTEGER_def
  der_def der_header_def der_tag_def der_length_def tag_class_def tag_number_def

text \<open>C23. Where the search has found BER and the allocator serves, the conversion succeeds exactly on the bytes of a
  sequence of BER trees of at most 2048 levels, and gives the DER of these trees: definite lengths in
  their shortest form and constructed strings joined.\<close>

theorem ber_to_der_converts:
  assumes "cbs_find_ber m 0 c = Some True" "1 < flush_depth h" "\<forall>k. allocates h k" "p < locals"
  shows "(\<exists>c' res h'. CBS_asn1_ber_to_der m b p locals c h = Ok (c', res) h' \<and> result_bytes m res = ys) \<longleftrightarrow>
    (\<exists>ts. (\<forall>t\<in>set ts. ber_ok t \<and> levels t \<le> 2048) \<and> cbs_bytes m c = concat (map ber_bytes ts) \<and>
       joined (map (der_of 0) ts) = Some ys \<and> length ys < 2 ^ 64)" (is "?l \<longleftrightarrow> ?r")
proof -
  let ?run = "ber_run m b p locals c h"
  note run = convert_run [OF assms(2,4), where b = b and c = c and m = m]
  have code: "CBS_asn1_ber_to_der m b p locals c h = (case ?run of Fail h \<Rightarrow> Fail (CBB_cleanup p h) | r \<Rightarrow> r)"
    by (simp add: ber_to_der_run assms(1))
  have "?l \<longleftrightarrow> (\<exists>ts c'. reads_trees m c 0 False 0 ts ys c' \<and> length ys < 2 ^ 64)"
  proof (cases ?run)
    case (Ok x h')
    then obtain c' ts zs buf len where r: "reads_trees m c 0 False 0 ts zs c'" "x = (c', Inr (buf, len))" "unat len = length zs"
      "length zs \<le> length buf" "take (length zs) buf = zs"
      using run by (cases x) auto
    have bytes: "result_bytes m (Inr (buf, len)) = zs" using r(3-5) by (simp add: cbs_bytes_list_mem)
    have same: "zs = ys'" if "reads_trees m c 0 False 0 ts' ys' c''" for ts' ys' c''
      using convert_complete [of m c 0 False 0 ts zs c' "unat (cbs_len c) + 1"] convert_complete [of m c 0 False 0 ts' ys' c'' "unat (cbs_len c) + 1"]
        r(1) that by simp
    have short: "length zs < 2 ^ 64" using r(3) unat_less64 [of len] by simp
    have "?l \<longleftrightarrow> zs = ys" unfolding code Ok outcome.case r(2) using bytes by (auto simp del: result_bytes.simps)
    moreover have "(\<exists>ts c'. reads_trees m c 0 False 0 ts ys c' \<and> length ys < 2 ^ 64) \<longleftrightarrow> zs = ys"
      using same r(1) short by blast
    ultimately show ?thesis by blast
  next
    case (Fail h')
    have big: "\<forall>ts ys c'. reads_trees m c 0 False 0 ts ys c' \<longrightarrow> 2 ^ 64 \<le> length ys"
      using run assms(3) unfolding Fail outcome.case by blast
    have "\<not> ?l" unfolding code Fail outcome.case by blast
    moreover have "\<not> (\<exists>ts c'. reads_trees m c 0 False 0 ts ys c' \<and> length ys < 2 ^ 64)"
    proof (intro notI, elim exE conjE)
      fix ts c'
      assume "reads_trees m c 0 False 0 ts ys c'" and short: "length ys < 2 ^ 64"
      with big have "2 ^ 64 \<le> length ys" by blast
      with short show False by simp
    qed
    ultimately show ?thesis by blast
  qed (use run in simp_all)
  also have "\<dots> \<longleftrightarrow> ?r" using reads_all [of m c 0 0 _ ys] by auto
  finally show ?thesis .
qed

theorem ber_to_der_converts_witness:
  "\<exists>c' res h'. CBS_asn1_ber_to_der (list_mem [0x24, 0x80, 4, 1, 0x61, 4, 1, 0x62, 0, 0]) 0 1 2 (CBS_init 0 10) ber_store
      = Ok (c', res) h' \<and> result_bytes (list_mem [0x24, 0x80, 4, 1, 0x61, 4, 1, 0x62, 0, 0]) res = [4, 2, 0x61, 0x62]"
proof -
  let ?m = "list_mem [0x24, 0x80, 4, 1, 0x61, 4, 1, 0x62, 0, 0]" and ?c = "CBS_init 0 10"
  have found: "cbs_find_ber ?m 0 ?c = Some True" by code_simp
  have store: "1 < flush_depth ber_store" "\<forall>k. allocates ber_store k" "(1 :: nat) < 2" by (simp_all add: ber_store_def)
  have "ber_ok ber_sample" "cbs_bytes ?m ?c = concat (map ber_bytes [ber_sample])" by code_simp+
  moreover have "levels ber_sample \<le> 2048" by (simp add: ber_sample_def)
  moreover have "joined (map (der_of 0) [ber_sample]) = Some [4, 2, 0x61, 0x62]"
    by (simp add: ber_sample_def sample_simps)
  ultimately have "\<exists>ts. (\<forall>t\<in>set ts. ber_ok t \<and> levels t \<le> 2048) \<and> cbs_bytes ?m ?c = concat (map ber_bytes ts) \<and>
      joined (map (der_of 0) ts) = Some [4, 2, 0x61, 0x62] \<and> length [4 :: byte, 2, 0x61, 0x62] < 2 ^ 64"
    by (intro exI [of _ "[ber_sample]"]) simp
  with ber_to_der_converts [OF found store] show ?thesis by blast
qed

text \<open>C24. On every input, with any allocator, the conversion returns: with a result or with an error.\<close>

theorem ber_to_der_returns:
  assumes "1 < flush_depth h" "p < locals"
  shows "CBS_asn1_ber_to_der m b p locals c h \<noteq> Undef \<and> CBS_asn1_ber_to_der m b p locals c h \<noteq> Fuel"
proof -
  have "CBS_get_any_asn1_element m c \<noteq> Undef" "CBS_get_any_asn1_element m c \<noteq> Fuel"
    using returns_asn1(1) [of m] by (simp_all add: returns_def)
  then show ?thesis
    using convert_run [OF assms, where b = b and c = c and m = m]
    unfolding ber_to_der_run by (auto split: option.splits bool.splits outcome.splits)
qed

theorem ber_to_der_returns_witness:
  "CBS_asn1_ber_to_der (list_mem [0x24, 0x80, 4]) 0 1 2 (CBS_init 0 3) ber_store \<noteq> Undef \<and>
   CBS_asn1_ber_to_der (list_mem [0x24, 0x80, 4]) 0 1 2 (CBS_init 0 3) ber_store \<noteq> Fuel"
  by (rule ber_to_der_returns) (simp_all add: ber_store_def)

section \<open>What the search finds\<close>

text \<open>The search takes an element for BER when its length is indefinite or not in its shortest form, or when it
  is a constructed string.\<close>

fun is_ber :: "ber \<Rightarrow> bool" where
  "is_ber (Prim t k body) \<longleftrightarrow> roundabout k (length body)"
| "is_ber (Definite t k ts) \<longleftrightarrow> is_string_type t \<or> roundabout k (length (concat (map ber_bytes ts)))"
| "is_ber (Indefinite t ts) \<longleftrightarrow> True"

text \<open>It finds an element that is BER itself, at any place of a sequence, and what is found inside of the last one.
  The flag that the search inside of another element has set is cleared by the element behind it.\<close>

fun finds_ber :: "ber list \<Rightarrow> bool" where
  "finds_ber [] = False"
| "finds_ber (t # ts) =
     (is_ber t \<or> (if ts \<noteq> [] then finds_ber ts else case t of Definite _ _ us \<Rightarrow> finds_ber us | _ \<Rightarrow> False))"

text \<open>The trees whose bytes the search can read. It takes end-of-contents octets for an element.\<close>

fun readable :: "ber \<Rightarrow> bool" where
  "readable (Prim t k body) \<longleftrightarrow> t AND CBS_ASN1_CONSTRUCTED = 0 \<and> length_fits k (length body)"
| "readable (Definite t k ts) \<longleftrightarrow> t AND CBS_ASN1_CONSTRUCTED \<noteq> 0 \<and> length_fits k (length (concat (map ber_bytes ts))) \<and>
     (\<forall>t\<in>set ts. readable t)"
| "readable (Indefinite t ts) \<longleftrightarrow> t AND CBS_ASN1_CONSTRUCTED \<noteq> 0"

lemma ber_ok_readable: "ber_ok t \<Longrightarrow> readable t"
  by (induction t) auto

lemma cbs_eta: "CBS_init (CBS_data c) (CBS_len c) = c"
  by (simp add: CBS_init_def CBS_data_def CBS_len_def)

lemma find_ber_flag: "find_ber_loop m d flag c = (if CBS_len c = 0 then Some flag else find_ber_loop m d False c)"
  by (simp add: find_ber_loop.simps [of m d _ c])

lemma ber_bytes_ne: "ber_bytes t \<noteq> []"
  using der_tag_ne by (cases t) (auto simp: ber_front_def)

text \<open>One round at a definite element, which is primitive (\<open>us = None\<close>) or has the elements \<open>us\<close>.\<close>

lemma find_ber_round:
  assumes "front_ok t (Some k) body" "takes m c (ber_front t (Some k) body) c1"
  shows "\<exists>bc. cbs_bytes m bc = body \<and> unat (cbs_len bc) < unat (cbs_len c) \<and> unat (cbs_len c1) < unat (cbs_len c) \<and>
    find_ber_loop m d flag c =
      (if roundabout k (length body) then Some True
       else if t AND CBS_ASN1_CONSTRUCTED \<noteq> 0 then
         (if is_string_type t then Some True
          else case cbs_find_ber m (d + 1) bc of Some b \<Rightarrow> find_ber_loop m d b c1 | None \<Rightarrow> None)
       else find_ber_loop m d False c1)"
proof -
  from assms obtain contents hl where
    el: "CBS_get_any_ber_asn1_element m c = Ok (contents, t, hl, front_ber (Some k) body) c1"
    and "Some k \<noteq> None \<longrightarrow> (\<exists>bc. CBS_skip hl contents = Ok () bc \<and> cbs_bytes m bc = body)"
    by (rule front_there) blast
  then obtain bc where bc: "CBS_skip hl contents = Ok () bc" "cbs_bytes m bc = body" by blast
  note shorter = ber_element_shorter [OF el]
  show ?thesis
    using shorter(1,2) shorter(3) [OF bc(1)] bc el
    by (intro exI [of _ bc]) (simp add: find_ber_loop.simps [of m d _ c] CBS_len_def front_ber_def)
qed

lemma find_ber_loop_exact:
  "cbs_bytes m c = concat (map ber_bytes ts) \<Longrightarrow> \<forall>t\<in>set ts. readable t \<and> unat d + levels t \<le> 2048 \<Longrightarrow> unat d \<le> 2048 \<Longrightarrow>
   find_ber_loop m d False c = Some (finds_ber ts)"
proof (induction "unat (cbs_len c)" arbitrary: c ts d rule: less_induct)
  case less
  note d = deeper [OF less.prems(3)]
  show ?case
  proof (cases ts)
    case Nil
    then have "cbs_len c = 0" using less.prems(1) length_cbs_bytes [of m c] by (simp add: unat_eq_zero)
    then show ?thesis using Nil by (simp add: find_ber_loop.simps CBS_len_def)
  next
    case (Cons tree ts')
    let ?c1 = "cbs_drop (length (ber_bytes tree)) c"
    have tree: "readable tree" "unat d + levels tree \<le> 2048" using less.prems(2) Cons by simp_all
    have taken: "takes m c (ber_bytes tree) ?c1" using less.prems(1) Cons by (simp add: takes_front)
    have rest: "cbs_bytes m ?c1 = concat (map ber_bytes ts')" using takes_bytes [OF taken] less.prems(1) Cons by simp
    have "CBS_len ?c1 = 0 \<longleftrightarrow> ts' = []"
      using ber_bytes_ne length_cbs_bytes [of m ?c1] unfolding rest by (cases ts') (auto simp: CBS_len_def unat_eq_zero)
    then have loop: "find_ber_loop m d flag ?c1 = Some (if ts' \<noteq> [] then finds_ber ts' else flag)"
      if "unat (cbs_len ?c1) < unat (cbs_len c)" for flag
      using less.hyps [OF that rest] less.prems(2,3) Cons find_ber_flag [of m d flag ?c1] by simp
    show ?thesis
    proof (cases tree)
      case (Prim t k body)
      with tree taken have "front_ok t (Some k) body" "takes m c (ber_front t (Some k) body) ?c1" "t AND CBS_ASN1_CONSTRUCTED = 0"
        by (simp_all add: front_ok_def)
      from find_ber_round [OF this(1,2), of d False] this(3) loop show ?thesis using Cons Prim by auto
    next
      case (Definite t k us)
      let ?body = "concat (map ber_bytes us)"
      from tree taken Definite have "front_ok t (Some k) ?body" "takes m c (ber_front t (Some k) ?body) ?c1" "t AND CBS_ASN1_CONSTRUCTED \<noteq> 0"
        by (simp_all add: front_ok_def)
      from find_ber_round [OF this(1,2), of d False] this(3) obtain bc where bc: "cbs_bytes m bc = ?body"
        "unat (cbs_len bc) < unat (cbs_len c)" "unat (cbs_len ?c1) < unat (cbs_len c)"
        and code: "find_ber_loop m d False c =
          (if roundabout k (length ?body) \<or> is_string_type t then Some True
           else case cbs_find_ber m (d + 1) bc of Some b \<Rightarrow> find_ber_loop m d b ?c1 | None \<Rightarrow> None)" by auto
      have "\<forall>t\<in>set us. readable t \<and> unat (d + 1) + levels t \<le> 2048" and deep: "unat (d + 1) \<le> 2048"
        using tree Definite d(2) levels_below [of us "2047 - unat d"] by fastforce+
      then have "find_ber_loop m (d + 1) False bc = Some (finds_ber us)" by (rule less.hyps [OF bc(2,1)])
      then have "cbs_find_ber m (d + 1) bc = Some (finds_ber us)"
        using deep d tree(2) Definite by (simp add: cbs_find_ber.simps cbs_eta)
      then show ?thesis using code loop [OF bc(3)] Cons Definite by simp
    next
      case (Indefinite t us)
      with tree taken obtain c1 where "front_ok t None []" "takes m c (ber_front t None []) c1"
        by (auto simp: front_ok_def takes_append)
      then obtain contents hl where el: "CBS_get_any_ber_asn1_element m c = Ok (contents, t, hl, front_ber None []) c1"
        by (rule front_there)
      then show ?thesis using ber_element_shorter(2) [OF el] Cons Indefinite
        by (simp add: find_ber_loop.simps [of m d _ c] CBS_len_def front_ber_def)
    qed
  qed
qed

lemma find_ber_exact:
  "cbs_bytes m c = concat (map ber_bytes ts) \<Longrightarrow> \<forall>t\<in>set ts. readable t \<and> levels t \<le> 2048 \<Longrightarrow>
   cbs_find_ber m 0 c = Some (finds_ber ts)"
  using find_ber_loop_exact [of m c ts 0] by (simp add: cbs_find_ber.simps kMaxDepth_def cbs_eta)

text \<open>Where the first element is not BER itself, its bytes are the DER of its content, and it is read as such.\<close>

lemma first_element_der:
  assumes "takes m c (ber_bytes t) c'" "readable t" "\<not> is_ber t"
  shows "\<exists>tag hl. CBS_get_any_asn1_element m c = Ok (CBS_init (cbs_data c) (of_nat (length (ber_bytes t))), tag, hl) c'"
proof -
  have front: "ber_front t (Some k) body = der t body" if "length_fits k (length body)" "\<not> roundabout k (length body)" for t k body
  proof (cases "k = 0")
    case True
    with that show ?thesis by (simp add: length_fits_def ber_front_def ber_length_def der_def der_header_def der_length_def)
  next
    case False
    with that have "128 \<le> length body" "octets (length body) = k"
      using octets_eq_iff [of k "length body"] by (auto simp: length_fits_def roundabout_def)
    with False show ?thesis by (simp add: ber_front_def ber_length_def der_def der_header_def der_length_def)
  qed
  obtain tag body where "ber_bytes t = der tag body" "length body < 2 ^ 32"
    using assms(2,3) front fits_small by (cases t) fastforce+
  with assms(1) show ?thesis unfolding element_Ok by auto
qed

section \<open>DER stays as it is\<close>

text \<open>A tree without BER: lengths in their shortest form, no indefinite length and no constructed string.\<close>

fun plain :: "ber \<Rightarrow> bool" where
  "plain (Prim t k body) \<longleftrightarrow> t AND CBS_ASN1_CONSTRUCTED = 0 \<and> length_fits k (length body) \<and> \<not> roundabout k (length body)"
| "plain (Definite t k ts) \<longleftrightarrow> t AND CBS_ASN1_CONSTRUCTED \<noteq> 0 \<and> \<not> is_string_type t \<and>
     length_fits k (length (concat (map ber_bytes ts))) \<and> \<not> roundabout k (length (concat (map ber_bytes ts))) \<and> (\<forall>t\<in>set ts. plain t)"
| "plain (Indefinite t ts) \<longleftrightarrow> False"

lemma plain_not_found: "plain t \<Longrightarrow> readable t \<and> \<not> is_ber t"
  by (induction t) auto

lemma plains_not_found: "\<forall>t\<in>set ts. plain t \<Longrightarrow> \<not> finds_ber ts"
proof (induction ts rule: finds_ber.induct)
  case (2 t ts)
  then show ?case using plain_not_found by (cases t) auto
qed simp

lemma find_ber_plain:
  "cbs_bytes m c = concat (map ber_bytes ts) \<Longrightarrow> \<forall>t\<in>set ts. plain t \<and> levels t \<le> 2048 \<Longrightarrow> cbs_find_ber m 0 c = Some False"
  using find_ber_exact [of m c ts] plains_not_found [of ts] plain_not_found by simp

text \<open>The DER of a tree is the bytes of a plain one.\<close>

definition der_form :: "nat \<Rightarrow> nat" where
  "der_form n = (if n < 128 then 0 else octets n)"

lemma der_front: "ber_front t (Some (der_form (length body))) body = der t body"
  by (auto simp: ber_front_def der_form_def ber_length_def der_def der_header_def der_length_def octets.simps)

lemma der_form_ok:
  assumes "n \<le> 0xFFFFFFFE"
  shows "length_fits (der_form n) n \<and> \<not> roundabout (der_form n) n"
proof (cases "n < 128")
  case False
  then have o: "octets n \<noteq> 0" by (auto simp: octets.simps)
  moreover have "octets n \<le> 4" using octets_small [of n] assms by simp
  moreover have "n < 256 ^ octets n \<and> 256 ^ (octets n - 1) \<le> n" using octets_eq_iff [of "octets n" n] o by simp
  ultimately show ?thesis using False by (simp add: der_form_def length_fits_def roundabout_def)
qed (simp add: der_form_def length_fits_def roundabout_def)

lemma joined_plain:
  assumes "\<And>t xs. t \<in> set ts \<Longrightarrow> der_of st t = Some xs \<Longrightarrow> \<exists>t'. plain t' \<and> ber_bytes t' = xs \<and> levels t' \<le> levels t"
    "joined (map (der_of st) ts) = Some ys"
  shows "\<exists>ts'. (\<forall>t\<in>set ts'. plain t) \<and> concat (map ber_bytes ts') = ys \<and> foldr max (map levels ts') 0 \<le> foldr max (map levels ts) 0"
  using assms
proof (induction ts arbitrary: ys)
  case (Cons t ts)
  from Cons.prems(2) obtain xs zs where xs: "der_of st t = Some xs" "joined (map (der_of st) ts) = Some zs" "ys = xs @ zs"
    by (auto simp: bind_eq_Some_conv)
  from Cons.IH [OF _ xs(2)] Cons.prems(1) obtain ts' where "\<forall>t\<in>set ts'. plain t" "concat (map ber_bytes ts') = zs"
    "foldr max (map levels ts') 0 \<le> foldr max (map levels ts) 0" by auto
  moreover from Cons.prems(1) [OF _ xs(1)] obtain t' where "plain t'" "ber_bytes t' = xs" "levels t' \<le> levels t" by auto
  ultimately show ?case using xs(3) by (intro exI [of _ "t' # ts'"]) auto
qed (auto intro: exI [of _ "[]"])

lemma string_tag_primitive: "(t AND NOT CBS_ASN1_CONSTRUCTED) AND CBS_ASN1_CONSTRUCTED = 0"
  by (simp add: and.assoc)

lemma constructed_plain:
  assumes "t AND CBS_ASN1_CONSTRUCTED \<noteq> 0"
    "emit 0 (string_tag t) (joined (map (der_of (inner_tag 0 t)) ts)) = Some xs"
    "\<And>t xs. t \<in> set ts \<Longrightarrow> der_of 0 t = Some xs \<Longrightarrow> \<exists>t'. plain t' \<and> ber_bytes t' = xs \<and> levels t' \<le> levels t"
  shows "\<exists>t'. plain t' \<and> ber_bytes t' = xs \<and> levels t' \<le> Suc (foldr max (map levels ts) 0)"
proof -
  from assms(2) obtain body where body: "joined (map (der_of (inner_tag 0 t)) ts) = Some body" "length body \<le> 0xFFFFFFFE"
    "xs = der (string_tag t) body" by (auto simp: emit_def bind_eq_Some_conv split: if_splits)
  note form = der_form_ok [OF body(2)]
  show ?thesis
  proof (cases "is_string_type t")
    case True
    then have "string_tag t AND CBS_ASN1_CONSTRUCTED = 0" using assms(1) string_tag_primitive by (simp add: string_tag_def)
    then show ?thesis using form body(3) der_front
      by (intro exI [of _ "Prim (string_tag t) (der_form (length body)) body"]) simp
  next
    case False
    then have "inner_tag 0 t = 0" "string_tag t = t" by (simp_all add: inner_tag_def string_tag_def)
    with body(1) joined_plain [OF assms(3), of ts 0 body] obtain ts' where "\<forall>t\<in>set ts'. plain t" "concat (map ber_bytes ts') = body"
      "foldr max (map levels ts') 0 \<le> foldr max (map levels ts) 0" by auto
    with form body(3) der_front \<open>string_tag t = t\<close> False assms(1) show ?thesis
      by (intro exI [of _ "Definite t (der_form (length body)) ts'"]) simp
  qed
qed

lemma der_of_plain: "ber_ok t \<Longrightarrow> der_of 0 t = Some xs \<Longrightarrow> \<exists>t'. plain t' \<and> ber_bytes t' = xs \<and> levels t' \<le> levels t"
proof (induction t arbitrary: xs)
  case (Prim t k body)
  then have "length body \<le> 0xFFFFFFFE" "xs = der t body" by (auto simp: emit_def is_fragment_def split: if_splits)
  with Prim der_form_ok der_front show ?case by (intro exI [of _ "Prim t (der_form (length body)) body"]) simp
next
  case (Definite t k ts)
  then show ?case using constructed_plain [of t ts xs] by (simp add: is_fragment_def)
next
  case (Indefinite t ts)
  then show ?case using constructed_plain [of t ts xs] by (simp add: is_fragment_def)
qed

text \<open>DER is left alone: where the input is a sequence of plain trees, the search finds nothing and the first
  element is given as it stands. And what the conversion writes is such a sequence, so that it is
  never converted again.\<close>

theorem ber_to_der_idempotent:
  "(cbs_bytes m c = concat (map ber_bytes ts) \<and> (\<forall>t\<in>set ts. plain t \<and> levels t \<le> 2048) \<longrightarrow>
      CBS_asn1_ber_to_der m b p locals c h =
        (case CBS_get_any_asn1_element m c of Ok (out, _) c' \<Rightarrow> Ok (c', Inl out) h | _ \<Rightarrow> Fail h)) \<and>
   (CBS_asn1_ber_to_der m b p locals c h = Ok (c', Inr (buf, len)) h' \<and> 1 < flush_depth h \<and> p < locals \<longrightarrow>
      cbs_find_ber (list_mem buf) 0 (CBS_init 0 len) = Some False)"
proof (intro conjI impI; elim conjE)
  assume "cbs_bytes m c = concat (map ber_bytes ts)" "\<forall>t\<in>set ts. plain t \<and> levels t \<le> 2048"
  from find_ber_plain [OF this] show "CBS_asn1_ber_to_der m b p locals c h =
        (case CBS_get_any_asn1_element m c of Ok (out, _) c' \<Rightarrow> Ok (c', Inl out) h | _ \<Rightarrow> Fail h)"
    by (simp add: ber_to_der_run)
next
  assume ok: "CBS_asn1_ber_to_der m b p locals c h = Ok (c', Inr (buf, len)) h'" and depth: "1 < flush_depth h" "p < locals"
  then have "ber_run m b p locals c h = Ok (c', Inr (buf, len)) h'"
    by (auto simp: ber_to_der_run split: option.splits bool.splits outcome.splits)
  with convert_run [OF depth, where m = m and b = b and c = c] obtain trees ys where trees: "reads_trees m c 0 False 0 trees ys c'"
    "unat len = length ys" "length ys \<le> length buf" "take (length ys) buf = ys" by auto
  then have all: "\<forall>t\<in>set trees. ber_ok t \<and> levels t \<le> 2048" "joined (map (der_of 0) trees) = Some ys"
    by (auto simp: reads_trees_def)
  then obtain plains where "\<forall>t\<in>set plains. plain t" "concat (map ber_bytes plains) = ys"
    "foldr max (map levels plains) 0 \<le> foldr max (map levels trees) 0"
    using joined_plain [of trees 0 ys] der_of_plain by blast
  moreover from this(3) all(1) have "\<forall>t\<in>set plains. levels t \<le> 2048"
    using levels_below [of trees 2048] levels_below [of plains 2048] by auto
  moreover have "cbs_bytes (list_mem buf) (CBS_init 0 len) = ys" using trees(2-4) by (simp add: cbs_bytes_list_mem)
  ultimately show "cbs_find_ber (list_mem buf) 0 (CBS_init 0 len) = Some False" by (intro find_ber_plain) auto
qed

theorem ber_to_der_idempotent_witness:
  "CBS_asn1_ber_to_der (list_mem [2, 1, 5]) 0 1 2 (CBS_init 0 3) ber_store = Ok (CBS_init 3 0, Inl (CBS_init 0 3)) ber_store"
proof -
  have "cbs_bytes (list_mem [2, 1, 5]) (CBS_init 0 3) = concat (map ber_bytes [Prim 2 0 [5]])" by code_simp
  moreover have "\<forall>t\<in>set [Prim 2 0 [5]]. plain t \<and> levels t \<le> 2048"
    by (simp add: length_fits_def roundabout_def CBS_ASN1_CONSTRUCTED_def CBS_ASN1_TAG_SHIFT_def)
  ultimately have "CBS_asn1_ber_to_der (list_mem [2, 1, 5]) 0 1 2 (CBS_init 0 3) ber_store =
      (case CBS_get_any_asn1_element (list_mem [2, 1, 5]) (CBS_init 0 3) of Ok (out, _) c' \<Rightarrow> Ok (c', Inl out) ber_store | _ \<Rightarrow> Fail ber_store)"
    using ber_to_der_idempotent [THEN conjunct1, rule_format, OF conjI] by blast
  moreover have "CBS_get_any_asn1_element (list_mem [2, 1, 5]) (CBS_init 0 3) = Ok (CBS_init 0 3, 2, 2) (CBS_init 3 0)"
    by code_simp
  ultimately show ?thesis by simp
qed

section \<open>What the search overlooks\<close>

lemma taken_bytes:
  assumes "takes m c xs c'"
  shows "cbs_bytes m (CBS_init (cbs_data c) (of_nat (length xs))) = xs"
proof -
  have "unat (of_nat (length xs) :: u64) = length xs"
    using takes_len [OF assms] unat_less64 [of "cbs_len c"] by (intro unat_of_nat_addr) simp
  then show ?thesis using assms by (simp add: takes_iff cbs_bytes_def CBS_init_def)
qed

lemma ber_run_storage: "ber_run m b p locals c h = Ok (c', r) h' \<Longrightarrow> \<exists>buf len. r = Inr (buf, len)"
  by (auto simp: ber_run_def mthen_def mbind_Ok_iff)

text \<open>C26. What the search for BER finds, and with it what \<open>CBS_asn1_ber_to_der\<close> converts: elements that are BER
  themselves, and what is found inside of the last element of a sequence, but not what is inside of another
  one, whose flag the next round clears. Where it finds nothing the first element is returned unconverted and
  nothing is written, whatever is inside of it; where it finds something the result is in new storage.\<close>

theorem ber_search_exact:
  assumes "cbs_bytes m c = concat (map ber_bytes (t # ts))" "\<forall>t\<in>set (t # ts). ber_ok t \<and> levels t \<le> 2048"
  shows "cbs_find_ber m 0 c = Some (finds_ber (t # ts)) \<and>
    (if finds_ber (t # ts)
     then \<forall>c' r h'. CBS_asn1_ber_to_der m b p locals c h = Ok (c', r) h' \<longrightarrow> (\<exists>buf len. r = Inr (buf, len))
     else \<exists>out. CBS_asn1_ber_to_der m b p locals c h = Ok (cbs_drop (length (ber_bytes t)) c, Inl out) h \<and>
       cbs_data out = cbs_data c \<and> cbs_bytes m out = ber_bytes t)"
proof -
  have found: "cbs_find_ber m 0 c = Some (finds_ber (t # ts))"
    by (rule find_ber_exact [OF assms(1)]) (use assms(2) ber_ok_readable in blast)
  show ?thesis
  proof (cases "finds_ber (t # ts)")
    case True
    then show ?thesis using found ber_run_storage by (auto simp: ber_to_der_run split: outcome.splits)
  next
    case False
    have taken: "takes m c (ber_bytes t) (cbs_drop (length (ber_bytes t)) c)" using assms(1) by (simp add: takes_front)
    moreover have "readable t" "\<not> is_ber t" using assms(2) ber_ok_readable False by auto
    ultimately obtain tag hl where "CBS_get_any_asn1_element m c =
        Ok (CBS_init (cbs_data c) (of_nat (length (ber_bytes t))), tag, hl) (cbs_drop (length (ber_bytes t)) c)"
      using first_element_der by blast
    with False found taken_bytes [OF taken] show ?thesis by (intro conjI) (auto simp: ber_to_der_run, simp add: CBS_init_def)
  qed
qed

definition nested_tree :: ber where
  "nested_tree = Definite 0x20000010 0 [Definite 0x20000010 0 [Indefinite 0x20000010 []], Prim CBS_ASN1_INTEGER 0 [5]]"

definition nested_bytes :: "byte list" where
  "nested_bytes = [0x30, 9, 0x30, 4, 0x30, 0x80, 0, 0, 0x02, 1, 5]"

text \<open>This SEQUENCE holds a SEQUENCE with an indefinite-length SEQUENCE in it, and an INTEGER; it is returned as it
  is, though its DER is another.\<close>

theorem ber_search_exact_witness:
  "ber_ok nested_tree \<and> der_of 0 nested_tree = Some [0x30, 7, 0x30, 2, 0x30, 0, 0x02, 1, 5] \<and>
   cbs_find_ber (list_mem nested_bytes) 0 (CBS_init 0 11) = Some False \<and>
   (\<exists>out c'. CBS_asn1_ber_to_der (list_mem nested_bytes) 0 1 2 (CBS_init 0 11) ber_store = Ok (c', Inl out) ber_store \<and>
      cbs_bytes (list_mem nested_bytes) out = nested_bytes)"
proof -
  have bytes: "ber_bytes nested_tree = nested_bytes" by code_simp
  have "cbs_bytes (list_mem nested_bytes) (CBS_init 0 11) = nested_bytes" by code_simp
  moreover have ok: "ber_ok nested_tree" by code_simp
  moreover have "levels nested_tree \<le> 2048" by code_simp
  moreover have "\<not> finds_ber [nested_tree]" by code_simp
  ultimately show ?thesis
    using ber_search_exact [of "list_mem nested_bytes" "CBS_init 0 11" nested_tree "[]" 0 1 2 ber_store] bytes ok
    by (auto simp: nested_tree_def sample_simps)
qed

section \<open>Implicitly tagged strings\<close>

fun chunks_of :: "nat \<Rightarrow> mem \<Rightarrow> u32 \<Rightarrow> cbs \<Rightarrow> byte list option" where
  "chunks_of 0 m t c = (if cbs_len c = 0 then Some [] else None)"
| "chunks_of (Suc n) m t c =
     (if cbs_len c = 0 then Some []
      else case CBS_get_asn1 m t c of Ok chunk c \<Rightarrow> map_option ((@) (cbs_bytes m chunk)) (chunks_of n m t c) | _ \<Rightarrow> None)"

lemma element_shorter: "CBS_get_asn1 m t c = Ok out c' \<Longrightarrow> unat (cbs_len c') < unat (cbs_len c)"
proof -
  assume "CBS_get_asn1 m t c = Ok out c'"
  then have t: "takes m c (der t (cbs_bytes m out)) c'" using der_at_bytes by (simp add: get_asn1_Ok)
  from der_not_Nil [of t "cbs_bytes m out"] takes_len [OF t] show ?thesis by (cases "der t (cbs_bytes m out)") auto
qed

lemma implicit_appends:
  "unat (cbs_len c) \<le> n \<Longrightarrow> appends 1 {} p (implicit_loop n m t c p) (map_option (\<lambda>xs. (xs, ())) (chunks_of n m t c))"
proof (induction n arbitrary: c)
  case 0
  then have "cbs_len c = 0" by (simp add: unat_eq_zero)
  then show ?case by (simp add: CBS_len_def appends_return)
next
  case (Suc n)
  show ?case
  proof (cases "CBS_get_asn1 m t c")
    case (Ok chunk c1)
    have "length (cbs_bytes m chunk) < 2 ^ 64" using unat_less64 [of "cbs_len chunk"] by simp
    note add = writes_appends [OF add_bytes_writes [OF this], of 1 "{}" p]
    have "appends 1 {} p (implicit_loop n m t c1 p) (map_option (\<lambda>xs. (xs, ())) (chunks_of n m t c1))"
      using Suc element_shorter [OF Ok] by simp
    from appends_bind [OF add this] have "appends 1 {} p (mthen (CBB_add_bytes p (cbs_bytes m chunk)) (implicit_loop n m t c1 p))
        (map_option (\<lambda>xs. (xs, ())) (map_option ((@) (cbs_bytes m chunk)) (chunks_of n m t c1)))"
      by (simp add: mthen_def option.map_comp comp_def)
    then show ?thesis using Ok by (simp add: CBS_len_def CBS_data_def appends_return cbs_bytes_def)
  qed (simp_all add: CBS_len_def appends_return appends_fail)
qed

lemma chunks_iff:
  "unat (cbs_len c) \<le> n \<Longrightarrow> chunks_of n m t c = Some xs \<longleftrightarrow>
     (\<exists>bss. (\<forall>bs\<in>set bss. length bs < 2 ^ 32) \<and> cbs_bytes m c = concat (map (der t) bss) \<and> xs = concat bss)"
proof (induction n arbitrary: c xs)
  case 0
  then have z: "cbs_len c = 0" by (simp add: unat_eq_zero)
  then show ?case by (auto simp: empty_bytes der_not_Nil)
next
  case (Suc n)
  show ?case
  proof (cases "cbs_len c = 0")
    case True
    then show ?thesis by (auto simp: empty_bytes der_not_Nil)
  next
    case False
    have "chunks_of (Suc n) m t c = Some xs \<longleftrightarrow>
        (\<exists>chunk c1 ys. CBS_get_asn1 m t c = Ok chunk c1 \<and> chunks_of n m t c1 = Some ys \<and> xs = cbs_bytes m chunk @ ys)"
      using False by (auto split: outcome.splits)
    also have "\<dots> \<longleftrightarrow> (\<exists>bss. (\<forall>bs\<in>set bss. length bs < 2 ^ 32) \<and> cbs_bytes m c = concat (map (der t) bss) \<and> xs = concat bss)"
    proof (intro iffI; elim exE conjE)
      fix chunk c1 ys
      assume r: "CBS_get_asn1 m t c = Ok chunk c1" "chunks_of n m t c1 = Some ys" "xs = cbs_bytes m chunk @ ys"
      then obtain bss where "\<forall>bs\<in>set bss. length bs < 2 ^ 32" "cbs_bytes m c1 = concat (map (der t) bss)" "ys = concat bss"
        using Suc.IH [of c1 ys] element_shorter [OF r(1)] Suc.prems by auto
      moreover have "takes m c (der t (cbs_bytes m chunk)) c1 \<and> length (cbs_bytes m chunk) < 2 ^ 32"
        using r(1) der_at_bytes by (simp only: get_asn1_Ok)
      ultimately show "\<exists>bss. (\<forall>bs\<in>set bss. length bs < 2 ^ 32) \<and> cbs_bytes m c = concat (map (der t) bss) \<and> xs = concat bss"
        using r(3) takes_bytes by (intro exI [of _ "cbs_bytes m chunk # bss"]) fastforce
    next
      fix bss
      assume b: "\<forall>bs\<in>set bss. length bs < 2 ^ 32" "cbs_bytes m c = concat (map (der t) bss)" "xs = concat bss"
      then obtain bs bss' where bss: "bss = bs # bss'" using False length_cbs_bytes [of m c] by (cases bss) (auto simp: unat_eq_zero)
      with der_read_back [of m c t bs "concat (map (der t) bss')"] b obtain out c1 where
        out: "CBS_get_asn1 m t c = Ok out c1" "cbs_bytes m out = bs" "cbs_bytes m c1 = concat (map (der t) bss')" by auto
      moreover have "chunks_of n m t c1 = Some (concat bss')"
        using Suc.IH [of c1 "concat bss'"] element_shorter [OF out(1)] Suc.prems out(3) b(1) bss by auto
      ultimately show "\<exists>chunk c1 ys. CBS_get_asn1 m t c = Ok chunk c1 \<and> chunks_of n m t c1 = Some ys \<and> xs = cbs_bytes m chunk @ ys"
        using b(3) bss by auto
    qed
    finally show ?thesis .
  qed
qed

lemma tag_read: "takes m c (der_tag t @ xs) c1 \<Longrightarrow> \<exists>c2. parse_asn1_tag m c = Ok t c2"
  by (auto simp: takes_append asn1_tag.reads)

lemma implicit_run:
  assumes "\<not> CBS_peek_asn1_tag m c outer" "1 < flush_depth h" "\<forall>k. allocates h k"
  shows "(\<exists>r h'. CBS_get_asn1_implicit_string m b p outer inner c h = Ok (c', r) h' \<and> result_bytes m r = xs) \<longleftrightarrow>
    (\<exists>child. CBS_get_asn1 m (outer OR CBS_ASN1_CONSTRUCTED) c = Ok child c' \<and>
       chunks_of (unat (cbs_len child)) m inner child = Some xs \<and> length xs < 2 ^ 64)"
proof -
  let ?tag = "outer OR CBS_ASN1_CONSTRUCTED"
  show ?thesis
  proof (cases "CBS_get_asn1 m ?tag c")
    case (Ok child c1)
    let ?n = "unat (cbs_len child)"
    let ?g = "\<lambda>u buf len. (c1, Inr (buf, len) :: cbs + byte list \<times> u64)"
    let ?run = "mthen (CBB_init b p (CBS_len c)) (mbind (implicit_loop ?n m inner child p)
      (\<lambda>v. mbind (CBB_finish p True) (\<lambda>(buf, len). mreturn (?g v buf len)))) h"
    have code: "CBS_get_asn1_implicit_string m b p outer inner c h = (case ?run of Fail h \<Rightarrow> Fail (CBB_cleanup p h) | r \<Rightarrow> r)"
      using assms(1) Ok by (simp add: CBS_get_asn1_implicit_string_def CBS_len_def mthen_def)
    note run = run_appends [OF implicit_appends [of child ?n p m inner, OF order_refl] assms(2), where b = b and cap = "CBS_len c" and g = ?g]
    show ?thesis
    proof (cases ?run)
      case r: (Ok x h')
      from run [unfolded r outcome.case] obtain ys buf len where ys: "chunks_of ?n m inner child = Some ys"
        "x = (c1, Inr (buf, len))" "unat len = length ys" "length ys \<le> length buf" "take (length ys) buf = ys" by auto
      then have "result_bytes m (Inr (buf, len)) = ys" by (simp add: cbs_bytes_list_mem)
      moreover have "length ys < 2 ^ 64" using ys(3) unat_less64 [of len] by simp
      ultimately show ?thesis unfolding code r outcome.case Ok ys(2) using ys(1) by (auto simp del: result_bytes.simps)
    next
      case (Fail h')
      have "\<not> length xs < 2 ^ 64" if "chunks_of ?n m inner child = Some xs"
        using run assms(3) that unfolding Fail outcome.case by (simp add: not_less)
      then show ?thesis unfolding code Fail outcome.case Ok by auto
    qed (use run in simp_all)
  qed (use assms(1) in \<open>auto simp: CBS_get_asn1_implicit_string_def mthen_def mbind_def split: outcome.splits\<close>)
qed

text \<open>C25. An implicitly tagged string is read from its primitive form, in place, or from its constructed form, one
  level deep, whose fragments are joined in new storage; from nothing else.\<close>

theorem implicit_string_exact:
  assumes "1 < flush_depth h" "\<forall>k. allocates h k" "outer AND CBS_ASN1_CONSTRUCTED = 0"
  shows "(\<exists>r h'. CBS_get_asn1_implicit_string m b p outer inner c h = Ok (c', r) h' \<and> result_bytes m r = xs) \<longleftrightarrow>
    length xs < 2 ^ 32 \<and> takes m c (der outer xs) c' \<or>
    (\<exists>bss. (\<forall>bs\<in>set bss. length bs < 2 ^ 32) \<and> xs = concat bss \<and> length (concat (map (der inner) bss)) < 2 ^ 32 \<and>
       takes m c (der (outer OR CBS_ASN1_CONSTRUCTED) (concat (map (der inner) bss))) c')"
    (is "?l \<longleftrightarrow> ?primitive \<or> ?constructed")
proof (cases "CBS_peek_asn1_tag m c outer")
  case True
  then obtain rest where "cbs_bytes m c = der_tag outer @ rest" unfolding peek_iff by blast
  then have "takes m c (der_tag outer @ []) (cbs_drop (length (der_tag outer)) c)" by (simp add: takes_front)
  from tag_read [OF this] obtain c2 where tag: "parse_asn1_tag m c = Ok outer c2" by blast
  have "\<not> ?constructed"
  proof
    assume ?constructed
    then obtain body where "takes m c (der (outer OR CBS_ASN1_CONSTRUCTED) body) c'" by blast
    then have "\<exists>c3. parse_asn1_tag m c = Ok (outer OR CBS_ASN1_CONSTRUCTED) c3"
      using tag_read [of m c "outer OR CBS_ASN1_CONSTRUCTED"] by (simp add: der_def der_header_def)
    with tag have "outer = outer OR CBS_ASN1_CONSTRUCTED" by simp
    then have "outer AND CBS_ASN1_CONSTRUCTED = (outer OR CBS_ASN1_CONSTRUCTED) AND CBS_ASN1_CONSTRUCTED" by (rule arg_cong)
    also have "\<dots> = CBS_ASN1_CONSTRUCTED" by (auto intro!: bit_word_eqI simp: bit_simps)
    finally have "outer AND CBS_ASN1_CONSTRUCTED = CBS_ASN1_CONSTRUCTED" .
    with assms(3) show False by (simp add: CBS_ASN1_CONSTRUCTED_def CBS_ASN1_TAG_SHIFT_def)
  qed
  moreover have "?l \<longleftrightarrow> (\<exists>out. CBS_get_asn1 m outer c = Ok out c' \<and> cbs_bytes m out = xs)"
    using True by (auto simp: CBS_get_asn1_implicit_string_def split: outcome.splits)
  moreover have "\<dots> \<longleftrightarrow> ?primitive"
    unfolding get_asn1_Ok using der_at_bytes [of m c outer _ c'] der_at_ex [of m c outer xs c'] by auto
  ultimately show ?thesis by blast
next
  case False
  then have "\<not> ?primitive"
    unfolding peek_iff using takes_bytes [of m c "der outer xs" c'] by (auto simp: der_def der_header_def)
  moreover have "?l \<longleftrightarrow> ?constructed"
    unfolding implicit_run [OF False assms(1,2)] chunks_iff [OF order_refl]
  proof (intro iffI; elim exE conjE)
    fix child bss
    assume child: "CBS_get_asn1 m (outer OR CBS_ASN1_CONSTRUCTED) c = Ok child c'"
      and bss: "\<forall>bs\<in>set bss. length bs < 2 ^ 32" "cbs_bytes m child = concat (map (der inner) bss)" "xs = concat bss"
    from der_at_bytes [OF child [unfolded get_asn1_Ok]] bss show ?constructed by auto
  next
    fix bss
    assume bss: "\<forall>bs\<in>set bss. length bs < 2 ^ 32" "xs = concat bss" "length (concat (map (der inner) bss)) < 2 ^ 32"
      "takes m c (der (outer OR CBS_ASN1_CONSTRUCTED) (concat (map (der inner) bss))) c'"
    from der_at_ex [OF bss(4,3)] obtain child where child: "CBS_get_asn1 m (outer OR CBS_ASN1_CONSTRUCTED) c = Ok child c'"
      "cbs_bytes m child = concat (map (der inner) bss)" unfolding get_asn1_Ok by blast
    have "length bs \<le> length (der inner bs)" for bs by (simp add: der_def)
    then have "length (concat bss) \<le> length (concat (map (der inner) bss))"
      unfolding length_concat by (simp add: comp_def sum_list_mono)
    then have "length xs < 2 ^ 64" using bss(2,3) by simp
    with child bss show "\<exists>child. CBS_get_asn1 m (outer OR CBS_ASN1_CONSTRUCTED) c = Ok child c' \<and>
        (\<exists>bss. (\<forall>bs\<in>set bss. length bs < 2 ^ 32) \<and> cbs_bytes m child = concat (map (der inner) bss) \<and> xs = concat bss) \<and>
        length xs < 2 ^ 64" by blast
  qed
  ultimately show ?thesis by blast
qed

theorem implicit_string_exact_witness:
  "\<exists>c' r h'. CBS_get_asn1_implicit_string (list_mem [0xA0, 6, 4, 1, 0x61, 4, 1, 0x62]) 0 1 0x80000000 4 (CBS_init 0 8) ber_store
      = Ok (c', r) h' \<and> result_bytes (list_mem [0xA0, 6, 4, 1, 0x61, 4, 1, 0x62]) r = [0x61, 0x62]"
proof -
  let ?m = "list_mem [0xA0, 6, 4, 1, 0x61, 4, 1, 0x62]" and ?c = "CBS_init 0 8"
  have store: "1 < flush_depth ber_store" "\<forall>k. allocates ber_store k" "0x80000000 AND CBS_ASN1_CONSTRUCTED = 0"
    by (simp_all add: ber_store_def CBS_ASN1_CONSTRUCTED_def CBS_ASN1_TAG_SHIFT_def)
  let ?bss = "[[0x61], [0x62]] :: byte list list"
  have body: "concat (map (der 4) ?bss) = [4, 1, 0x61, 4, 1, 0x62]" by (simp add: sample_simps)
  have "der (0x80000000 OR CBS_ASN1_CONSTRUCTED) [4, 1, 0x61, 4, 1, 0x62] = [0xA0, 6, 4, 1, 0x61, 4, 1, 0x62]"
    by (simp add: sample_simps)
  moreover have "cbs_bytes ?m ?c = [0xA0, 6, 4, 1, 0x61, 4, 1, 0x62]" by code_simp
  ultimately have "takes ?m ?c (der (0x80000000 OR CBS_ASN1_CONSTRUCTED) (concat (map (der 4) ?bss)))
      (cbs_drop (length [0xA0, 6, 4, 1, 0x61, 4, 1, 0x62 :: byte]) ?c)"
    using takes_front [of ?m ?c "[0xA0, 6, 4, 1, 0x61, 4, 1, 0x62]" "[]"] unfolding body by simp
  then have "\<exists>bss. (\<forall>bs\<in>set bss. length bs < 2 ^ 32) \<and> [0x61, 0x62] = concat bss \<and> length (concat (map (der 4) bss)) < 2 ^ 32 \<and>
      takes ?m ?c (der (0x80000000 OR CBS_ASN1_CONSTRUCTED) (concat (map (der 4) bss)))
        (cbs_drop (length [0xA0, 6, 4, 1, 0x61, 4, 1, 0x62 :: byte]) ?c)"
    using body by (intro exI [of _ ?bss]) simp
  with implicit_string_exact [OF store] show ?thesis by blast
qed

end
