(* ===== verification/LHash.thy ===== *)
theory LHash
  imports Prelude "HOL-Library.Multiset"
begin

text \<open>
  \<open>crypto/lhash/lhash.c\<close>: a hash table whose buckets are chains of items, which grows and shrinks with
  the number of its items. A chain is a list, the pointer to a link of it is a bucket with a position.
  The table holds the comparison and the hash function of its client. What the allocator serves is
  a parameter \<open>serves\<close>, by the number of bytes. The reference is a list of values without two equal ones.
\<close>

section \<open>The code\<close>

record 'a lhash_item =
  item_data :: 'a
  item_hash :: u32

record 'a lhash =
  num_items :: u64
  buckets :: "'a lhash_item list list"
  num_buckets :: u64
  callback_depth :: u32
  lh_comp :: "'a \<Rightarrow> 'a \<Rightarrow> int"
  lh_hash :: "'a \<Rightarrow> u32"

definition kMinNumBuckets :: u64 where "kMinNumBuckets = 16"
definition kMaxAverageChainLength :: u64 where "kMaxAverageChainLength = 2"
definition kMinAverageChainLength :: u64 where "kMinAverageChainLength = 1"

definition OPENSSL_lh_new :: "(u64 \<Rightarrow> bool) \<Rightarrow> ('a \<Rightarrow> u32) \<Rightarrow> ('a \<Rightarrow> 'a \<Rightarrow> int) \<Rightarrow> 'a lhash option" where
  "OPENSSL_lh_new serves hash cmp =
     (if \<not> serves 48 then None
      else if \<not> serves (8 * kMinNumBuckets) then None
      else Some \<lparr>num_items = 0, buckets = replicate (unat kMinNumBuckets) [], num_buckets = kMinNumBuckets,
             callback_depth = 0, lh_comp = cmp, lh_hash = hash\<rparr>)"

definition OPENSSL_lh_num_items :: "'a lhash \<Rightarrow> u64" where
  "OPENSSL_lh_num_items lh = num_items lh"

text \<open>The first position of a chain whose data is wanted, or its end.\<close>

fun chain_find :: "('a \<Rightarrow> bool) \<Rightarrow> 'a lhash_item list \<Rightarrow> nat" where
  "chain_find found [] = 0"
| "chain_find found (cur # next) = (if found (item_data cur) then 0 else Suc (chain_find found next))"

definition bucket_of :: "u64 \<Rightarrow> u32 \<Rightarrow> nat" where
  "bucket_of n hash = unat (ucast hash mod n)"

definition get_next_ptr_and_hash :: "'a lhash \<Rightarrow> 'a \<Rightarrow> (nat \<times> nat) \<times> u32" where
  "get_next_ptr_and_hash lh data =
     (let hash = lh_hash lh data; i = bucket_of (num_buckets lh) hash
      in ((i, chain_find (\<lambda>d. lh_comp lh d data = 0) (buckets lh ! i)), hash))"

definition get_next_ptr_by_key :: "'a lhash \<Rightarrow> 'k \<Rightarrow> u32 \<Rightarrow> ('k \<Rightarrow> 'a \<Rightarrow> int) \<Rightarrow> nat \<times> nat" where
  "get_next_ptr_by_key lh key key_hash cmp_key =
     (let i = bucket_of (num_buckets lh) key_hash
      in (i, chain_find (\<lambda>d. cmp_key key d = 0) (buckets lh ! i)))"

text \<open>What a pointer to a link points to.\<close>

definition linked :: "'a lhash \<Rightarrow> nat \<times> nat \<Rightarrow> 'a lhash_item option" where
  "linked lh next_ptr =
     (case next_ptr of (i, j) \<Rightarrow> let chain = buckets lh ! i in if j < length chain then Some (chain ! j) else None)"

definition OPENSSL_lh_retrieve :: "'a lhash \<Rightarrow> 'a \<Rightarrow> 'a option" where
  "OPENSSL_lh_retrieve lh data = map_option item_data (linked lh (fst (get_next_ptr_and_hash lh data)))"

definition OPENSSL_lh_retrieve_key :: "'a lhash \<Rightarrow> 'k \<Rightarrow> u32 \<Rightarrow> ('k \<Rightarrow> 'a \<Rightarrow> int) \<Rightarrow> 'a option" where
  "OPENSSL_lh_retrieve_key lh key key_hash cmp_key =
     map_option item_data (linked lh (get_next_ptr_by_key lh key key_hash cmp_key))"

text \<open>The items of a chain go to the front of their new chains, one after the other.\<close>

fun move_chain :: "u64 \<Rightarrow> 'a lhash_item list \<Rightarrow> 'a lhash_item list list \<Rightarrow> 'a lhash_item list list" where
  "move_chain new_num_buckets [] new_buckets = new_buckets"
| "move_chain new_num_buckets (cur # next) new_buckets =
     (let new_bucket = bucket_of new_num_buckets (item_hash cur)
      in move_chain new_num_buckets next (new_buckets[new_bucket := cur # new_buckets ! new_bucket]))"

definition lh_rebucket :: "(u64 \<Rightarrow> bool) \<Rightarrow> u64 \<Rightarrow> 'a lhash \<Rightarrow> 'a lhash" where
  "lh_rebucket serves new_num_buckets lh =
     (let alloc_size = 8 * new_num_buckets in
      if alloc_size div 8 \<noteq> new_num_buckets then lh
      else if \<not> serves alloc_size then lh
      else lh\<lparr>num_buckets := new_num_buckets,
             buckets := fold (move_chain new_num_buckets) (buckets lh) (replicate (unat new_num_buckets) [])\<rparr>)"

definition lh_maybe_resize :: "(u64 \<Rightarrow> bool) \<Rightarrow> 'a lhash \<Rightarrow> 'a lhash" where
  "lh_maybe_resize serves lh =
     (if 0 < callback_depth lh then lh
      else
        let avg_chain_length = num_items lh div num_buckets lh in
        if kMaxAverageChainLength < avg_chain_length then
          let new_num_buckets = num_buckets lh * 2 in
          if num_buckets lh < new_num_buckets then lh_rebucket serves new_num_buckets lh else lh
        else if avg_chain_length < kMinAverageChainLength \<and> kMinNumBuckets < num_buckets lh then
          let new_num_buckets = num_buckets lh div 2;
              new_num_buckets = (if new_num_buckets < kMinNumBuckets then kMinNumBuckets else new_num_buckets)
          in lh_rebucket serves new_num_buckets lh
        else lh)"

text \<open>The return value, \<open>*old_data\<close> and the table.\<close>

definition OPENSSL_lh_insert :: "(u64 \<Rightarrow> bool) \<Rightarrow> 'a \<Rightarrow> 'a lhash \<Rightarrow> bool \<times> 'a option \<times> 'a lhash" where
  "OPENSSL_lh_insert serves data lh =
     (case get_next_ptr_and_hash lh data of ((i, j), hash) \<Rightarrow>
        let chain = buckets lh ! i in
        (case linked lh (i, j) of
          Some item \<Rightarrow> (True, Some (item_data item),
            lh\<lparr>buckets := (buckets lh)[i := chain[j := item\<lparr>item_data := data\<rparr>]]\<rparr>)
        | None \<Rightarrow>
            if \<not> serves 24 then (False, None, lh)
            else
              let item = \<lparr>item_data = data, item_hash = hash\<rparr>;
                  lh = lh\<lparr>buckets := (buckets lh)[i := chain @ [item]], num_items := num_items lh + 1\<rparr>
              in (True, None, lh_maybe_resize serves lh)))"

definition OPENSSL_lh_delete :: "(u64 \<Rightarrow> bool) \<Rightarrow> 'a \<Rightarrow> 'a lhash \<Rightarrow> 'a option \<times> 'a lhash" where
  "OPENSSL_lh_delete serves data lh =
     (case get_next_ptr_and_hash lh data of ((i, j), _) \<Rightarrow>
        let chain = buckets lh ! i in
        (case linked lh (i, j) of
          None \<Rightarrow> (None, lh)
        | Some item \<Rightarrow>
            let lh = lh\<lparr>buckets := (buckets lh)[i := take j chain @ drop (Suc j) chain], num_items := num_items lh - 1\<rparr>
            in (Some (item_data item), lh_maybe_resize serves lh)))"

text \<open>The callback updates the state that \<open>arg\<close> points to, not the table itself.\<close>

definition OPENSSL_lh_doall_arg :: "(u64 \<Rightarrow> bool) \<Rightarrow> ('a \<Rightarrow> 's \<Rightarrow> 's) \<Rightarrow> 's \<Rightarrow> 'a lhash \<Rightarrow> 's \<times> 'a lhash" where
  "OPENSSL_lh_doall_arg serves func arg lh =
     (let lh = (if callback_depth lh < 0xFFFFFFFF then lh\<lparr>callback_depth := callback_depth lh + 1\<rparr> else lh);
          arg = fold (\<lambda>chain. fold (\<lambda>cur. func (item_data cur)) chain) (buckets lh) arg;
          lh = (if callback_depth lh < 0xFFFFFFFF then lh\<lparr>callback_depth := callback_depth lh - 1\<rparr> else lh)
      in (arg, lh_maybe_resize serves lh))"


section \<open>The reference\<close>

definition ref_retrieve :: "('a \<Rightarrow> 'a \<Rightarrow> int) \<Rightarrow> 'a \<Rightarrow> 'a list \<Rightarrow> 'a option" where
  "ref_retrieve cmp d xs = List.find (\<lambda>x. cmp x d = 0) xs"

definition ref_remove :: "('a \<Rightarrow> 'a \<Rightarrow> int) \<Rightarrow> 'a \<Rightarrow> 'a list \<Rightarrow> 'a list" where
  "ref_remove cmp d xs = filter (\<lambda>x. cmp x d \<noteq> 0) xs"

definition ref_insert :: "('a \<Rightarrow> 'a \<Rightarrow> int) \<Rightarrow> 'a \<Rightarrow> 'a list \<Rightarrow> 'a list" where
  "ref_insert cmp d xs = d # ref_remove cmp d xs"

text \<open>No two of the values are equal.\<close>

definition different :: "('a \<Rightarrow> 'a \<Rightarrow> int) \<Rightarrow> 'a multiset \<Rightarrow> bool" where
  "different cmp M \<longleftrightarrow> (\<forall>d. size (filter_mset (\<lambda>x. cmp x d = 0) M) \<le> 1)"

definition lh_data :: "'a lhash \<Rightarrow> 'a multiset" where
  "lh_data lh = image_mset item_data (mset (concat (buckets lh)))"

text \<open>Every item stands in the bucket of its hash, of which it caches the value.\<close>

definition in_buckets :: "u64 \<Rightarrow> 'a lhash_item list list \<Rightarrow> bool" where
  "in_buckets n bs \<longleftrightarrow> length bs = unat n \<and> (\<forall>i<length bs. \<forall>it\<in>set (bs ! i). bucket_of n (item_hash it) = i)"

definition lh_ok :: "'a lhash \<Rightarrow> bool" where
  "lh_ok lh \<longleftrightarrow> 16 \<le> num_buckets lh \<and> in_buckets (num_buckets lh) (buckets lh) \<and>
     (\<forall>it\<in>set (concat (buckets lh)). item_hash it = lh_hash lh (item_data it)) \<and>
     different (lh_comp lh) (lh_data lh) \<and> num_items lh = of_nat (size (lh_data lh))"

locale lh_functions =
  fixes hash :: "'a \<Rightarrow> u32" and cmp :: "'a \<Rightarrow> 'a \<Rightarrow> int"
  assumes cmp_refl: "cmp x x = 0"
    and cmp_sym: "cmp x y = 0 \<Longrightarrow> cmp y x = 0"
    and cmp_trans: "cmp x y = 0 \<Longrightarrow> cmp y z = 0 \<Longrightarrow> cmp x z = 0"
    and hash_eq: "cmp x y = 0 \<Longrightarrow> hash x = hash y"
begin

lemma different_same:
  assumes "different cmp M" "x \<in># M" "y \<in># M" "cmp x y = 0"
  shows "x = y"
proof (rule ccontr)
  assume "x \<noteq> y"
  then have "{#x, y#} \<subseteq># filter_mset (\<lambda>z. cmp z y = 0) M"
    using assms(2-4) cmp_refl by (auto simp: insert_subset_eq_iff multiset_eq_iff in_diff_count)
  then have "2 \<le> size (filter_mset (\<lambda>z. cmp z y = 0) M)" using size_mset_mono by fastforce
  with assms(1) show False by (auto simp: different_def dest: spec [of _ y])
qed

lemma different_sub: "different cmp M \<Longrightarrow> N \<subseteq># M \<Longrightarrow> different cmp N"
  unfolding different_def by (meson le_trans multiset_filter_mono size_mset_mono)

lemma different_add:
  assumes "different cmp M" "\<forall>x\<in>#M. cmp x d \<noteq> 0"
  shows "different cmp (add_mset d M)"
  unfolding different_def
proof
  fix y
  have "filter_mset (\<lambda>x. cmp x y = 0) M = {#}" if "cmp d y = 0"
  proof -
    have "cmp x y \<noteq> 0" if "x \<in># M" for x
      using assms(2) that cmp_trans [OF _ cmp_sym [OF \<open>cmp d y = 0\<close>]] by blast
    then show ?thesis by simp
  qed
  then show "size (filter_mset (\<lambda>x. cmp x y = 0) (add_mset d M)) \<le> 1"
    using assms(1) by (auto simp: different_def)
qed

text \<open>Among different values the one that is equal to \<open>d\<close> is found in every order.\<close>

lemma ref_retrieve_iff:
  assumes "different cmp (mset xs)"
  shows "ref_retrieve cmp d xs = Some x \<longleftrightarrow> x \<in> set xs \<and> cmp x d = 0"
proof
  assume "ref_retrieve cmp d xs = Some x"
  then show "x \<in> set xs \<and> cmp x d = 0"
    unfolding ref_retrieve_def find_Some_iff by (auto simp: in_set_conv_nth)
next
  assume x: "x \<in> set xs \<and> cmp x d = 0"
  then obtain y where y: "ref_retrieve cmp d xs = Some y"
    unfolding ref_retrieve_def by (cases "List.find (\<lambda>x. cmp x d = 0) xs") (auto simp: find_None_iff)
  then have "y \<in> set xs" "cmp y d = 0" unfolding ref_retrieve_def find_Some_iff by (auto simp: in_set_conv_nth)
  then have "cmp x y = 0" using x cmp_trans [OF _ cmp_sym] by blast
  with x \<open>y \<in> set xs\<close> have "x = y" using different_same [OF assms, of x y] by simp
  with y show "ref_retrieve cmp d xs = Some x" by simp
qed

lemma ref_retrieve_None: "ref_retrieve cmp d xs = None \<longleftrightarrow> (\<forall>x\<in>set xs. cmp x d \<noteq> 0)"
  by (auto simp: ref_retrieve_def find_None_iff)

text \<open>What a removal or a replacement takes out.\<close>

lemma ref_remove_mset:
  assumes "different cmp (mset xs)" "x \<in> set xs" "cmp x d = 0"
  shows "mset (ref_remove cmp d xs) = mset xs - {#x#}"
proof -
  have "filter_mset (\<lambda>y. cmp y d = 0) (mset xs) = {#x#}"
  proof -
    have "x \<in># filter_mset (\<lambda>y. cmp y d = 0) (mset xs)" using assms by simp
    then obtain N where N: "filter_mset (\<lambda>y. cmp y d = 0) (mset xs) = add_mset x N" by (metis insert_DiffM)
    moreover have "size (filter_mset (\<lambda>y. cmp y d = 0) (mset xs)) \<le> 1" using assms(1) by (simp add: different_def)
    ultimately show ?thesis by simp
  qed
  then have "mset xs = add_mset x (mset (ref_remove cmp d xs))"
    using multiset_partition [of "mset xs" "\<lambda>y. cmp y d = 0"] by (simp add: ref_remove_def)
  then show ?thesis by simp
qed

lemma ref_remove_length:
  assumes "different cmp (mset xs)" "x \<in> set xs" "cmp x d = 0"
  shows "length xs = Suc (length (ref_remove cmp d xs))"
  using arg_cong [OF ref_remove_mset [OF assms], of size] assms(2) length_pos_if_in_set [OF assms(2)]
  by (simp add: size_Diff_singleton)

lemma ref_remove_absent: "\<forall>x\<in>set xs. cmp x d \<noteq> 0 \<Longrightarrow> ref_remove cmp d xs = xs"
  by (simp add: ref_remove_def)

end


section \<open>Chains and buckets\<close>

lemma chain_find_le: "chain_find P c \<le> length c"
  by (induction c) simp_all

lemma chain_find_hit: "chain_find P c < length c \<Longrightarrow> P (item_data (c ! chain_find P c))"
  by (induction c) auto

lemma chain_find_miss: "\<not> chain_find P c < length c \<Longrightarrow> it \<in> set c \<Longrightarrow> \<not> P (item_data it)"
  by (induction c) (auto split: if_splits)

lemma bucket_less: "0 < n \<Longrightarrow> bucket_of n h < unat n"
  by (simp add: bucket_of_def unat_mod unat_gt_0 word_greater_zero_iff)

lemma concat_update:
  "i < length bs \<Longrightarrow> mset (concat (bs[i := c])) + mset (bs ! i) = mset (concat bs) + mset c"
proof (induction bs arbitrary: i)
  case (Cons b bs)
  then show ?case by (cases i) (auto simp: ac_simps)
qed simp

lemma in_bucket: "i < length bs \<Longrightarrow> it \<in> set (bs ! i) \<Longrightarrow> it \<in> set (concat bs)"
  by (auto intro: nth_mem)

lemma in_buckets_update:
  "in_buckets n bs \<Longrightarrow> \<forall>it\<in>set c. bucket_of n (item_hash it) = i \<Longrightarrow> in_buckets n (bs[i := c])"
  unfolding in_buckets_def length_list_update by (metis nth_list_update_eq nth_list_update_neq)

lemma in_buckets_empty: "in_buckets n (replicate (unat n) [])"
  by (simp add: in_buckets_def)

lemma move_chain_placed:
  assumes "0 < n"
  shows "in_buckets n bs \<Longrightarrow> in_buckets n (move_chain n c bs) \<and> mset (concat (move_chain n c bs)) = mset c + mset (concat bs)"
proof (induction c arbitrary: bs)
  case (Cons it c)
  let ?i = "bucket_of n (item_hash it)"
  have i: "?i < length bs" using bucket_less [OF assms] Cons.prems by (simp add: in_buckets_def)
  then have "in_buckets n (bs[?i := it # bs ! ?i])"
    using Cons.prems by (intro in_buckets_update) (auto simp: in_buckets_def)
  from Cons.IH [OF this] concat_update [OF i, of "it # bs ! ?i"]
  show ?case by (simp add: Let_def)
qed simp

lemma move_chains_placed:
  assumes "0 < n"
  shows "in_buckets n bs \<Longrightarrow> in_buckets n (fold (move_chain n) cs bs) \<and>
    mset (concat (fold (move_chain n) cs bs)) = mset (concat cs) + mset (concat bs)"
proof (induction cs arbitrary: bs)
  case (Cons c cs)
  note c = move_chain_placed [OF assms Cons.prems, of c]
  from Cons.IH c show ?case by simp
qed simp

text \<open>Only the buckets change.\<close>

definition rearranged :: "'a lhash \<Rightarrow> 'a lhash \<Rightarrow> bool" where
  "rearranged lh lh' \<longleftrightarrow> mset (concat (buckets lh')) = mset (concat (buckets lh)) \<and> num_items lh' = num_items lh \<and>
     callback_depth lh' = callback_depth lh \<and> lh_comp lh' = lh_comp lh \<and> lh_hash lh' = lh_hash lh"

lemma rearranged_refl [simp]: "rearranged lh lh"
  by (simp add: rearranged_def)

lemma rearranged_ok:
  assumes "lh_ok lh" "rearranged lh lh'" "16 \<le> num_buckets lh'" "in_buckets (num_buckets lh') (buckets lh')"
  shows "lh_ok lh'"
proof -
  have "set (concat (buckets lh')) = set (concat (buckets lh))"
    using assms(2) by (metis rearranged_def set_mset_mset)
  then show ?thesis using assms by (simp add: lh_ok_def rearranged_def lh_data_def)
qed

lemma rebucket_ok:
  assumes "lh_ok lh" "16 \<le> n"
  shows "lh_ok (lh_rebucket serves n lh) \<and> rearranged lh (lh_rebucket serves n lh)"
proof (cases "8 * n div 8 \<noteq> n \<or> \<not> serves (8 * n)")
  case True
  then have "lh_rebucket serves n lh = lh" by (auto simp: lh_rebucket_def Let_def)
  then show ?thesis using assms by simp
next
  case False
  let ?lh = "lh_rebucket serves n lh"
  have "0 < n" using assms(2) by (rule less_le_trans [rotated]) simp
  from move_chains_placed [OF this in_buckets_empty, of "buckets lh"] False
  have "in_buckets (num_buckets ?lh) (buckets ?lh)" "rearranged lh ?lh" "num_buckets ?lh = n"
    by (simp_all add: lh_rebucket_def rearranged_def)
  with rearranged_ok [OF assms(1)] assms(2) show ?thesis by simp
qed

lemma resize_ok:
  assumes "lh_ok lh"
  shows "lh_ok (lh_maybe_resize serves lh) \<and> rearranged lh (lh_maybe_resize serves lh)"
proof -
  have "lh_ok (lh_rebucket serves (num_buckets lh * 2) lh) \<and> rearranged lh (lh_rebucket serves (num_buckets lh * 2) lh)"
    if "num_buckets lh < num_buckets lh * 2"
    using rebucket_ok [OF assms, of "num_buckets lh * 2"] that assms by (force simp: lh_ok_def)
  moreover have "16 \<le> (if num_buckets lh div 2 < kMinNumBuckets then kMinNumBuckets else num_buckets lh div 2)"
    by (auto simp: kMinNumBuckets_def)
  from rebucket_ok [OF assms this] have "lh_ok (lh_rebucket serves (if num_buckets lh div 2 < kMinNumBuckets then kMinNumBuckets else num_buckets lh div 2) lh) \<and>
      rearranged lh (lh_rebucket serves (if num_buckets lh div 2 < kMinNumBuckets then kMinNumBuckets else num_buckets lh div 2) lh)" .
  ultimately show ?thesis using assms unfolding lh_maybe_resize_def Let_def by (auto simp del: split_paired_All)
qed

lemma resize_data: "lh_ok lh \<Longrightarrow> lh_data (lh_maybe_resize serves lh) = lh_data lh"
  using resize_ok [of lh serves] by (simp add: rearranged_def lh_data_def)


section \<open>The operations against the reference\<close>

text \<open>A table with these functions holds these values.\<close>

definition lh_models :: "('a \<Rightarrow> u32) \<Rightarrow> ('a \<Rightarrow> 'a \<Rightarrow> int) \<Rightarrow> 'a lhash \<Rightarrow> 'a list \<Rightarrow> bool" where
  "lh_models hash cmp lh xs \<longleftrightarrow>
     lh_ok lh \<and> lh_hash lh = hash \<and> lh_comp lh = cmp \<and> lh_data lh = mset xs"

context lh_functions
begin

lemma models_different: "lh_models hash cmp lh xs \<Longrightarrow> different cmp (mset xs)"
  by (auto simp: lh_models_def lh_ok_def)

lemma ptr_ok:
  assumes "lh_ok lh" "get_next_ptr_and_hash lh d = ((i, j), h)"
  shows "i < length (buckets lh)" "h = lh_hash lh d" "i = bucket_of (num_buckets lh) h"
    "j = chain_find (\<lambda>x. lh_comp lh x d = 0) (buckets lh ! i)"
proof -
  have "0 < num_buckets lh" using assms(1) less_le_trans [of 0 16 "num_buckets lh"] by (simp add: lh_ok_def)
  from bucket_less [OF this] show "i < length (buckets lh)" "h = lh_hash lh d" "i = bucket_of (num_buckets lh) h"
    "j = chain_find (\<lambda>x. lh_comp lh x d = 0) (buckets lh ! i)"
    using assms by (auto simp: get_next_ptr_and_hash_def Let_def lh_ok_def in_buckets_def)
qed

lemma search:
  assumes "lh_models hash cmp lh xs" "get_next_ptr_and_hash lh d = ((i, j), h)"
  shows "(case linked lh (i, j) of
      Some it \<Rightarrow> j < length (buckets lh ! i) \<and> it = buckets lh ! i ! j \<and> item_data it \<in> set xs \<and> cmp (item_data it) d = 0
    | None \<Rightarrow> \<forall>x\<in>set xs. cmp x d \<noteq> 0)"
proof -
  have ok: "lh_ok lh" and f: "lh_hash lh = hash" "lh_comp lh = cmp" and data: "lh_data lh = mset xs"
    using assms(1) by (simp_all add: lh_models_def)
  note p = ptr_ok [OF ok assms(2), unfolded f]
  have set: "x \<in> set xs \<longleftrightarrow> (\<exists>it\<in>set (concat (buckets lh)). item_data it = x)" for x
  proof -
    have "set xs = item_data ` set (concat (buckets lh))"
      using arg_cong [OF data, of set_mset] by (simp add: lh_data_def)
    then show ?thesis by auto
  qed
  show ?thesis
  proof (cases "j < length (buckets lh ! i)")
    case True
    have "buckets lh ! i ! j \<in> set (concat (buckets lh))" using p(1) True by (auto intro: nth_mem)
    moreover have "cmp (item_data (buckets lh ! i ! j)) d = 0" using chain_find_hit True p(4) by blast
    ultimately show ?thesis using True set by (auto simp: linked_def)
  next
    case False
    have "cmp x d \<noteq> 0" if x: "x \<in> set xs" for x
    proof
      assume c: "cmp x d = 0"
      obtain it where it: "it \<in> set (concat (buckets lh))" "item_data it = x" using x set by blast
      then obtain chain where "chain \<in> set (buckets lh)" "it \<in> set chain" by auto
      then obtain k where k: "k < length (buckets lh)" "it \<in> set (buckets lh ! k)" by (metis in_set_conv_nth)
      then have "bucket_of (num_buckets lh) (item_hash it) = k" using ok by (simp add: lh_ok_def in_buckets_def)
      moreover have "item_hash it = hash d"
        using ok it f hash_eq [OF c] unfolding lh_ok_def by metis
      ultimately have "k = i" using p(2,3) by simp
      with k(2) chain_find_miss [of "\<lambda>x. cmp x d = 0" "buckets lh ! i" it] False p(4) c it(2) show False by simp
    qed
    then show ?thesis using False by (simp add: linked_def)
  qed
qed

lemma retrieve_models:
  assumes "lh_models hash cmp lh xs"
  shows "OPENSSL_lh_retrieve lh d = ref_retrieve cmp d xs"
proof -
  obtain i j h where ptr: "get_next_ptr_and_hash lh d = ((i, j), h)" by (metis surj_pair)
  show ?thesis
  proof (cases "linked lh (i, j)")
    case None
    then show ?thesis
      using search [OF assms ptr] ref_retrieve_None [of d xs] by (simp add: OPENSSL_lh_retrieve_def ptr)
  next
    case (Some it)
    then have "ref_retrieve cmp d xs = Some (item_data it)"
      using search [OF assms ptr] unfolding ref_retrieve_iff [OF models_different [OF assms]] Some option.case by blast
    then show ?thesis using Some by (simp add: OPENSSL_lh_retrieve_def ptr)
  qed
qed

lemma resize_models: "lh_models hash cmp lh xs \<Longrightarrow> lh_models hash cmp (lh_maybe_resize serves lh) xs"
  using resize_ok [of lh serves] resize_data [of lh serves] by (simp add: lh_models_def rearranged_def)

text \<open>A bucket is replaced by a chain of the same hashes.\<close>

lemma update_models:
  assumes models: "lh_models hash cmp lh xs" and i: "i < length (buckets lh)"
    and chain: "\<forall>it\<in>set c. item_hash it = hash (item_data it) \<and> bucket_of (num_buckets lh) (item_hash it) = i"
    and new: "image_mset item_data (mset c) + mset xs = image_mset item_data (mset (buckets lh ! i)) + mset ys"
    and diff: "different cmp (mset ys)" and n: "n = of_nat (length ys)"
  shows "lh_models hash cmp (lh\<lparr>buckets := (buckets lh)[i := c], num_items := n\<rparr>) ys"
proof -
  let ?lh = "lh\<lparr>buckets := (buckets lh)[i := c], num_items := n\<rparr>"
  have ok: "lh_ok lh" and f: "lh_hash lh = hash" "lh_comp lh = cmp" and data: "lh_data lh = mset xs"
    using models by (simp_all add: lh_models_def)
  have "image_mset item_data (mset (concat ((buckets lh)[i := c]))) + image_mset item_data (mset (buckets lh ! i))
      = mset xs + image_mset item_data (mset c)"
    using arg_cong [OF concat_update [OF i, of c], of "image_mset item_data"] data by (simp add: lh_data_def)
  then have "lh_data ?lh = mset ys"
    using new by (simp add: lh_data_def) (metis add.commute add_left_imp_eq)
  moreover have "\<forall>it\<in>set (concat ((buckets lh)[i := c])). item_hash it = hash (item_data it)"
    using ok f chain set_update_subset_insert [of "buckets lh" i c] by (fastforce simp: lh_ok_def)
  moreover have "in_buckets (num_buckets lh) ((buckets lh)[i := c])"
    using ok chain by (intro in_buckets_update) (auto simp: lh_ok_def)
  ultimately show ?thesis using ok f diff n by (simp add: lh_models_def lh_ok_def)
qed

end


context lh_functions
begin

lemma bucket_items:
  "lh_models hash cmp lh xs \<Longrightarrow> i < length (buckets lh) \<Longrightarrow>
   \<forall>it\<in>set (buckets lh ! i). item_hash it = hash (item_data it) \<and> bucket_of (num_buckets lh) (item_hash it) = i"
  using in_bucket [of i "buckets lh"] by (auto simp: lh_models_def lh_ok_def in_buckets_def)

text \<open>What a call does to the table, and the resizing after it.\<close>

lemma insert_shape:
  assumes models: "lh_models hash cmp lh xs" and run: "OPENSSL_lh_insert serves d lh = (ok, old, lh')"
  shows "old = ref_retrieve cmp d xs \<and> (ok \<longleftrightarrow> old \<noteq> None \<or> serves 24) \<and>
    (\<exists>lh1. lh_models hash cmp lh1 (if ok then ref_insert cmp d xs else xs) \<and> num_buckets lh1 = num_buckets lh \<and>
      callback_depth lh1 = callback_depth lh \<and> lh' = (if ok \<and> old = None then lh_maybe_resize serves lh1 else lh1))"
proof -
  obtain i j h where ptr: "get_next_ptr_and_hash lh d = ((i, j), h)" by (metis surj_pair)
  have wf: "lh_ok lh" and f: "lh_hash lh = hash" "lh_comp lh = cmp" using models by (simp_all add: lh_models_def)
  have count: "num_items lh = of_nat (length xs)" using models by (simp add: lh_models_def lh_ok_def)
  have diff: "different cmp (mset xs)" using models by (rule models_different)
  note p = ptr_ok [OF wf ptr, unfolded f] and s = search [OF models ptr]
  let ?c = "buckets lh ! i"
  note chain = bucket_items [OF models p(1)]
  show ?thesis
  proof (cases "linked lh (i, j)")
    case None
    then have absent: "\<forall>x\<in>set xs. cmp x d \<noteq> 0" using s by simp
    then have ref: "ref_retrieve cmp d xs = None" "ref_insert cmp d xs = d # xs"
      by (simp_all add: ref_retrieve_None ref_insert_def ref_remove_absent)
    let ?lh = "lh\<lparr>buckets := (buckets lh)[i := ?c @ [\<lparr>item_data = d, item_hash = h\<rparr>]], num_items := num_items lh + 1\<rparr>"
    have new: "lh_models hash cmp ?lh (d # xs)"
      by (rule update_models [OF models p(1)]) (use chain p absent different_add [OF diff] count in auto)
    show ?thesis
    proof (cases "serves 24")
      case True
      then have "ok" "old = None" "lh' = lh_maybe_resize serves ?lh"
        using run None by (simp_all add: OPENSSL_lh_insert_def ptr Let_def)
      with new ref True show ?thesis by (intro conjI exI [of _ ?lh]) simp_all
    next
      case False
      then have "\<not> ok" "old = None" "lh' = lh" using run None by (simp_all add: OPENSSL_lh_insert_def ptr Let_def)
      with models ref False show ?thesis by (intro conjI exI [of _ lh]) simp_all
    qed
  next
    case (Some it)
    from s [unfolded Some option.case]
    have it: "j < length ?c" "it = ?c ! j" "item_data it \<in> set xs" "cmp (item_data it) d = 0" by blast+
    then have ref: "ref_retrieve cmp d xs = Some (item_data it)" by (simp add: ref_retrieve_iff [OF diff])
    have mset: "mset (ref_insert cmp d xs) = add_mset d (mset xs - {#item_data it#})"
      by (simp add: ref_insert_def ref_remove_mset [OF diff it(3,4)])
    have removed: "\<forall>x\<in>set (ref_remove cmp d xs). cmp x d \<noteq> 0" by (simp add: ref_remove_def)
    have "different cmp (mset (ref_insert cmp d xs))"
      unfolding ref_insert_def mset.simps
      by (rule different_add [OF different_sub [OF diff]])
        (use removed in \<open>simp_all add: ref_remove_def multiset_filter_subset\<close>)
    moreover have "num_items lh = of_nat (length (ref_insert cmp d xs))"
      using count ref_remove_length [OF diff it(3,4)] by (simp add: ref_insert_def)
    moreover have "image_mset item_data (mset (?c[j := it\<lparr>item_data := d\<rparr>])) + mset xs
        = image_mset item_data (mset ?c) + mset (ref_insert cmp d xs)"
      using it unfolding mset by (simp add: mset_update image_mset_Diff multiset_eq_iff)
    moreover have "\<forall>it'\<in>set (?c[j := it\<lparr>item_data := d\<rparr>]). item_hash it' = hash (item_data it') \<and>
        bucket_of (num_buckets lh) (item_hash it') = i"
    proof
      fix it' assume "it' \<in> set (?c[j := it\<lparr>item_data := d\<rparr>])"
      then have "it' \<in> set ?c \<or> it' = it\<lparr>item_data := d\<rparr>" using set_update_subset_insert by fastforce
      moreover have "it \<in> set ?c" using it by simp
      ultimately show "item_hash it' = hash (item_data it') \<and> bucket_of (num_buckets lh) (item_hash it') = i"
        using chain hash_eq [OF it(4)] by auto
    qed
    ultimately have "lh_models hash cmp (lh\<lparr>buckets := (buckets lh)[i := ?c[j := it\<lparr>item_data := d\<rparr>]], num_items := num_items lh\<rparr>) (ref_insert cmp d xs)"
      by (intro update_models [OF models p(1)])
    moreover have "ok" "old = Some (item_data it)" "lh' = lh\<lparr>buckets := (buckets lh)[i := ?c[j := it\<lparr>item_data := d\<rparr>]]\<rparr>"
      using run Some by (simp_all add: OPENSSL_lh_insert_def ptr Let_def)
    ultimately show ?thesis using ref by (intro conjI exI [of _ lh']) simp_all
  qed
qed

lemma insert_models:
  assumes "lh_models hash cmp lh xs" "OPENSSL_lh_insert serves d lh = (ok, old, lh')"
  shows "old = ref_retrieve cmp d xs \<and> (ok \<longleftrightarrow> old \<noteq> None \<or> serves 24) \<and>
    lh_models hash cmp lh' (if ok then ref_insert cmp d xs else xs)"
  using insert_shape [OF assms] resize_models by (auto split: if_splits)

lemma delete_shape:
  assumes models: "lh_models hash cmp lh xs" and run: "OPENSSL_lh_delete serves d lh = (old, lh')"
  shows "old = ref_retrieve cmp d xs \<and>
    (\<exists>lh1. lh_models hash cmp lh1 (ref_remove cmp d xs) \<and> num_buckets lh1 = num_buckets lh \<and>
      callback_depth lh1 = callback_depth lh \<and> lh' = (if old = None then lh1 else lh_maybe_resize serves lh1))"
proof -
  obtain i j h where ptr: "get_next_ptr_and_hash lh d = ((i, j), h)" by (metis surj_pair)
  have wf: "lh_ok lh" and f: "lh_hash lh = hash" "lh_comp lh = cmp" using models by (simp_all add: lh_models_def)
  have count: "num_items lh = of_nat (length xs)" using models by (simp add: lh_models_def lh_ok_def)
  have diff: "different cmp (mset xs)" using models by (rule models_different)
  note p = ptr_ok [OF wf ptr, unfolded f] and s = search [OF models ptr]
  let ?c = "buckets lh ! i"
  note chain = bucket_items [OF models p(1)]
  show ?thesis
  proof (cases "linked lh (i, j)")
    case None
    then have absent: "\<forall>x\<in>set xs. cmp x d \<noteq> 0" using s by simp
    then have "ref_retrieve cmp d xs = None" by (simp add: ref_retrieve_None)
    moreover have "old = None" "lh' = lh" using run None by (simp_all add: OPENSSL_lh_delete_def ptr Let_def)
    ultimately show ?thesis
      using models ref_remove_absent [OF absent] by (intro conjI exI [of _ lh]) simp_all
  next
    case (Some it)
    from s [unfolded Some option.case]
    have it: "j < length ?c" "it = ?c ! j" "item_data it \<in> set xs" "cmp (item_data it) d = 0" by blast+
    then have ref: "ref_retrieve cmp d xs = Some (item_data it)" by (simp add: ref_retrieve_iff [OF diff])
    note mset = ref_remove_mset [OF diff it(3,4)]
    have "different cmp (mset (ref_remove cmp d xs))"
      by (rule different_sub [OF diff]) (simp add: mset)
    moreover have "num_items lh - 1 = of_nat (length (ref_remove cmp d xs))"
      using count ref_remove_length [OF diff it(3,4)] by simp
    moreover have "mset ?c = add_mset it (mset (take j ?c @ drop (Suc j) ?c))"
      using arg_cong [OF id_take_nth_drop [OF it(1)], of mset] it(2) by simp
    then have "image_mset item_data (mset (take j ?c @ drop (Suc j) ?c)) + mset xs
        = image_mset item_data (mset ?c) + mset (ref_remove cmp d xs)"
      using it(3) unfolding mset by simp
    moreover have "\<forall>it\<in>set (take j ?c @ drop (Suc j) ?c). item_hash it = hash (item_data it) \<and>
        bucket_of (num_buckets lh) (item_hash it) = i"
      using chain by (auto dest: in_set_takeD in_set_dropD)
    ultimately have new: "lh_models hash cmp (lh\<lparr>buckets := (buckets lh)[i := take j ?c @ drop (Suc j) ?c], num_items := num_items lh - 1\<rparr>)
        (ref_remove cmp d xs)" (is "lh_models _ _ ?lh _")
      by (intro update_models [OF models p(1)])
    have "old = Some (item_data it)" "lh' = lh_maybe_resize serves ?lh"
      using run Some by (simp_all add: OPENSSL_lh_delete_def ptr Let_def)
    then show ?thesis using new ref by (intro conjI exI [of _ ?lh]) simp_all
  qed
qed

lemma delete_models:
  assumes "lh_models hash cmp lh xs" "OPENSSL_lh_delete serves d lh = (old, lh')"
  shows "old = ref_retrieve cmp d xs \<and> lh_models hash cmp lh' (ref_remove cmp d xs)"
  using delete_shape [OF assms] resize_models by (auto split: if_splits)

end


section \<open>Creation and iteration\<close>

lemma new_models:
  assumes "OPENSSL_lh_new serves hash cmp = Some lh"
  shows "lh_models hash cmp lh []" "callback_depth lh = 0" "num_buckets lh = 16"
  using assms by (auto simp: OPENSSL_lh_new_def lh_models_def lh_ok_def in_buckets_def lh_data_def different_def kMinNumBuckets_def
      split: if_splits)

lemma fold_data:
  "fold (\<lambda>chain. fold (\<lambda>cur. f (item_data cur)) chain) bs s = fold f (map item_data (concat bs)) s"
  by (induction bs arbitrary: s) (simp_all add: fold_map comp_def)

text \<open>The callback is called once on every value; the table then holds the same values.\<close>

lemma saturating: "(x :: u32) < 0xFFFFFFFE \<Longrightarrow> x < 0xFFFFFFFF \<and> x + 1 < 0xFFFFFFFF"
  by (simp add: word_less_nat_alt unat_plus_if')

lemma doall_ok:
  assumes "lh_ok lh" "OPENSSL_lh_doall_arg serves f s lh = (s', lh')"
  shows "lh_ok lh' \<and> lh_comp lh' = lh_comp lh \<and> lh_hash lh' = lh_hash lh \<and> lh_data lh' = lh_data lh \<and>
    (\<exists>ys. mset ys = lh_data lh \<and> s' = fold f ys s) \<and>
    (callback_depth lh < 0xFFFFFFFE \<longrightarrow> lh' = lh_maybe_resize serves lh)"
proof -
  let ?up = "if callback_depth lh < 0xFFFFFFFF then lh\<lparr>callback_depth := callback_depth lh + 1\<rparr> else lh"
  let ?down = "if callback_depth ?up < 0xFFFFFFFF then ?up\<lparr>callback_depth := callback_depth ?up - 1\<rparr> else ?up"
  have same: "lh_ok (lh\<lparr>callback_depth := d\<rparr>) \<longleftrightarrow> lh_ok lh" "lh_data (lh\<lparr>callback_depth := d\<rparr>) = lh_data lh" for lh :: "'a lhash" and d
    by (simp_all add: lh_ok_def lh_data_def)
  have down: "lh_ok ?down" "lh_data ?down = lh_data lh" "lh_comp ?down = lh_comp lh" "lh_hash ?down = lh_hash lh"
    "buckets ?up = buckets lh"
    using assms(1) same by simp_all
  have run: "lh' = lh_maybe_resize serves ?down" "s' = fold f (map item_data (concat (buckets ?up))) s"
    using assms(2) by (simp_all add: OPENSSL_lh_doall_arg_def Let_def fold_data)
  have "mset (map item_data (concat (buckets ?up))) = lh_data lh"
    unfolding down(5) by (simp add: lh_data_def)
  moreover have "lh' = lh_maybe_resize serves lh" if "callback_depth lh < 0xFFFFFFFE"
    using run(1) saturating [OF that] by simp
  moreover have "lh_ok lh'" "lh_data lh' = lh_data lh" "lh_comp lh' = lh_comp lh" "lh_hash lh' = lh_hash lh"
    using resize_ok [OF down(1), of serves] resize_data [OF down(1), of serves] down(2-4)
    unfolding run(1) rearranged_def by simp_all
  ultimately show ?thesis using run(2) by blast
qed

end
