(* ===== verification/LHash_Spec.thy ===== *)
theory LHash_Spec
  imports LHash
begin

text \<open>
  What \<open>lhash.c\<close> promises: any sequence of calls answers as the reference does, however the table grows,
  shrinks and moves its items meanwhile, and as long as the allocator serves the chains stay short and
  the array stays in proportion to the items.
\<close>

section \<open>Sequences of calls\<close>

datatype 'a lh_op = Retrieve 'a | Insert 'a | Delete 'a | Count | Visit

datatype 'a lh_answer = Found "'a option" | Inserted bool "'a option" | Deleted "'a option" | Counted u64
  | Visited "'a multiset"

fun lh_call :: "(u64 \<Rightarrow> bool) \<Rightarrow> 'a lh_op \<Rightarrow> 'a lhash \<Rightarrow> 'a lh_answer \<times> 'a lhash" where
  "lh_call serves (Retrieve d) lh = (Found (OPENSSL_lh_retrieve lh d), lh)"
| "lh_call serves (Insert d) lh = (case OPENSSL_lh_insert serves d lh of (ok, old, lh) \<Rightarrow> (Inserted ok old, lh))"
| "lh_call serves (Delete d) lh = (case OPENSSL_lh_delete serves d lh of (old, lh) \<Rightarrow> (Deleted old, lh))"
| "lh_call serves Count lh = (Counted (OPENSSL_lh_num_items lh), lh)"
| "lh_call serves Visit lh = (case OPENSSL_lh_doall_arg serves add_mset {#} lh of (M, lh) \<Rightarrow> (Visited M, lh))"

fun lh_run :: "(u64 \<Rightarrow> bool) \<Rightarrow> 'a lh_op list \<Rightarrow> 'a lhash \<Rightarrow> 'a lh_answer list \<times> 'a lhash" where
  "lh_run serves [] lh = ([], lh)"
| "lh_run serves (c # cs) lh =
     (case lh_call serves c lh of (a, lh) \<Rightarrow> case lh_run serves cs lh of (as, lh) \<Rightarrow> (a # as, lh))"

text \<open>\<open>item\<close>: the allocator serves an item.\<close>

fun ref_call :: "('a \<Rightarrow> 'a \<Rightarrow> int) \<Rightarrow> bool \<Rightarrow> 'a lh_op \<Rightarrow> 'a list \<Rightarrow> 'a lh_answer \<times> 'a list" where
  "ref_call cmp item (Retrieve d) xs = (Found (ref_retrieve cmp d xs), xs)"
| "ref_call cmp item (Insert d) xs =
     (let old = ref_retrieve cmp d xs; ok = old \<noteq> None \<or> item in (Inserted ok old, if ok then ref_insert cmp d xs else xs))"
| "ref_call cmp item (Delete d) xs = (Deleted (ref_retrieve cmp d xs), ref_remove cmp d xs)"
| "ref_call cmp item Count xs = (Counted (of_nat (length xs)), xs)"
| "ref_call cmp item Visit xs = (Visited (mset xs), xs)"

fun ref_run :: "('a \<Rightarrow> 'a \<Rightarrow> int) \<Rightarrow> bool \<Rightarrow> 'a lh_op list \<Rightarrow> 'a list \<Rightarrow> 'a lh_answer list \<times> 'a list" where
  "ref_run cmp item [] xs = ([], xs)"
| "ref_run cmp item (c # cs) xs =
     (case ref_call cmp item c xs of (a, xs) \<Rightarrow> case ref_run cmp item cs xs of (as, xs) \<Rightarrow> (a # as, xs))"

lemma fold_add_mset: "fold add_mset ys M = M + mset ys"
  by (induction ys arbitrary: M) simp_all

context lh_functions
begin

lemma call_models:
  assumes "lh_models hash cmp lh xs"
  shows "fst (lh_call serves c lh) = fst (ref_call cmp (serves 24) c xs) \<and>
    lh_models hash cmp (snd (lh_call serves c lh)) (snd (ref_call cmp (serves 24) c xs))"
proof (cases c)
  case (Insert d)
  obtain ok old lh' where run: "OPENSSL_lh_insert serves d lh = (ok, old, lh')" by (metis surj_pair)
  from insert_models [OF assms run] show ?thesis by (auto simp: Insert run Let_def split: if_splits)
next
  case (Delete d)
  obtain old lh' where run: "OPENSSL_lh_delete serves d lh = (old, lh')" by (metis surj_pair)
  from delete_models [OF assms run] show ?thesis by (simp add: Delete run)
next
  case Visit
  obtain M lh' where run: "OPENSSL_lh_doall_arg serves add_mset {#} lh = (M, lh')" by (metis surj_pair)
  from assms doall_ok [OF _ run] show ?thesis by (auto simp: Visit run lh_models_def fold_add_mset)
next
  case (Retrieve d)
  then show ?thesis using assms by (simp add: retrieve_models)
next
  case Count
  then show ?thesis using assms by (auto simp: OPENSSL_lh_num_items_def lh_models_def lh_ok_def)
qed

lemma run_models:
  "lh_models hash cmp lh xs \<Longrightarrow> fst (lh_run serves cs lh) = fst (ref_run cmp (serves 24) cs xs) \<and>
    lh_models hash cmp (snd (lh_run serves cs lh)) (snd (ref_run cmp (serves 24) cs xs))"
proof (induction cs arbitrary: lh xs)
  case (Cons c cs)
  from call_models [OF Cons.prems, of serves c] Cons.IH
  show ?case by (simp add: split_beta)
qed simp

end

text \<open>C27. Whatever the order of calls, a table that was created with an equality and a hash function that agree
  answers exactly as a list of different values does: what was inserted last is found, what was
  deleted is gone, the count is right, an iteration visits every value once, and an insertion fails only
  where the allocator refuses the item.\<close>

theorem lhash_refines_list:
  assumes "\<And>x. cmp x x = 0" "\<And>x y. cmp x y = 0 \<Longrightarrow> cmp y x = 0" "\<And>x y z. cmp x y = 0 \<Longrightarrow> cmp y z = 0 \<Longrightarrow> cmp x z = 0"
    "\<And>x y. cmp x y = 0 \<Longrightarrow> hash x = hash y" "OPENSSL_lh_new serves hash cmp = Some lh"
  shows "fst (lh_run serves cs lh) = fst (ref_run cmp (serves 24) cs [])"
proof -
  have "lh_functions hash cmp" using assms(1-4) by unfold_locales
  from lh_functions.run_models [OF this new_models(1) [OF assms(5)]] show ?thesis by blast
qed


definition int_cmp :: "int \<Rightarrow> int \<Rightarrow> int" where "int_cmp a b = a - b"
definition int_hash :: "int \<Rightarrow> u32" where "int_hash a = word_of_int a"

theorem lhash_refines_list_witness:
  "\<exists>lh. OPENSSL_lh_new (\<lambda>_. True) int_hash int_cmp = Some lh \<and>
    fst (lh_run (\<lambda>_. True) [Insert 3, Insert 19, Delete 3, Insert 19, Retrieve 3, Count, Visit] lh) =
      [Inserted True None, Inserted True None, Deleted (Some 3), Inserted True (Some 19), Found None, Counted 1, Visited {#19#}]"
proof -
  obtain lh where lh: "OPENSSL_lh_new (\<lambda>_. True) int_hash int_cmp = Some lh" by (simp add: OPENSSL_lh_new_def)
  have "fst (lh_run (\<lambda>_. True) [Insert 3, Insert 19, Delete 3, Insert 19, Retrieve 3, Count, Visit] lh) =
      fst (ref_run int_cmp True [Insert 3, Insert 19, Delete 3, Insert 19, Retrieve 3, Count, Visit] [])"
    by (rule lhash_refines_list [OF _ _ _ _ lh]) (simp_all add: int_cmp_def)
  then show ?thesis using lh by (simp add: int_cmp_def ref_retrieve_def ref_insert_def ref_remove_def Let_def)
qed

section \<open>The load\<close>

text \<open>The array has a power of two of buckets, at most one for each item beyond the initial 16, and
  at least one for each three items.\<close>

definition load_ok :: "nat \<Rightarrow> nat \<Rightarrow> bool" where
  "load_ok n k \<longleftrightarrow> n < 3 * (16 * 2 ^ k) \<and> (k = 0 \<or> 16 * 2 ^ k \<le> n)"

definition loaded :: "'a lhash \<Rightarrow> bool" where
  "loaded lh \<longleftrightarrow> lh_ok lh \<and> callback_depth lh = 0 \<and>
     (\<exists>k. unat (num_buckets lh) = 16 * 2 ^ k \<and> load_ok (size (lh_data lh)) k)"

lemma rebucket_served:
  assumes "\<forall>k. serves k" "unat n < 2 ^ 61"
  shows "num_buckets (lh_rebucket serves n lh) = n"
proof -
  have "unat (8 * n) = 8 * unat n" using assms(2) by (simp add: unat_word_ariths)
  then have "8 * n div 8 = n" by (simp add: word_unat_eq_iff unat_div)
  then show ?thesis using assms(1) by (simp add: lh_rebucket_def)
qed

lemma resize_loaded:
  assumes serves: "\<forall>k. serves k" and ok: "lh_ok lh" "callback_depth lh = 0" and n: "size (lh_data lh) = n" "n < 2 ^ 60"
    and N: "unat (num_buckets lh) = 16 * 2 ^ k" and near: "n \<le> 3 * (16 * 2 ^ k)" "k = 0 \<or> 16 * 2 ^ k \<le> Suc n"
  shows "loaded (lh_maybe_resize serves lh)"
proof -
  let ?lh = "lh_maybe_resize serves lh" and ?N = "16 * 2 ^ k :: nat"
  have items: "unat (num_items lh) = n" using ok(1) n by (simp add: lh_ok_def unat_of_nat_addr)
  have avg: "unat (num_items lh div num_buckets lh) = n div ?N" by (simp add: unat_div items N)
  have small: "?N < 2 ^ 60 + 16" using near(2) n(2) by auto
  have keeps: "lh_ok ?lh" "callback_depth ?lh = 0" "lh_data ?lh = lh_data lh"
    using resize_ok [OF ok(1), of serves] ok(2) resize_data [OF ok(1), of serves] by (simp_all add: rearranged_def)
  have "\<exists>k'. unat (num_buckets ?lh) = 16 * 2 ^ k' \<and> load_ok n k'"
  proof -
    consider "3 * ?N \<le> n" | "n < ?N" "0 < k" | "n < 3 * ?N" "k = 0 \<or> ?N \<le> n" by linarith
    then show ?thesis
    proof cases
      case 1
      then have "3 \<le> n div ?N" using div_le_mono [OF 1, of ?N] by simp
      then have long: "kMaxAverageChainLength < num_items lh div num_buckets lh"
        by (simp add: word_less_nat_alt avg kMaxAverageChainLength_def)
      have two: "unat (num_buckets lh * 2) = 16 * 2 ^ Suc k"
        using 1 n(2) N by (simp add: unat_word_ariths)
      then have "num_buckets lh < num_buckets lh * 2" using N by (simp add: word_less_nat_alt)
      moreover have "num_buckets (lh_rebucket serves (num_buckets lh * 2) lh) = num_buckets lh * 2"
        by (rule rebucket_served [OF serves]) (use 1 n(2) two in simp)
      ultimately have "unat (num_buckets ?lh) = 16 * 2 ^ Suc k"
        using long two ok(2) by (simp add: lh_maybe_resize_def Let_def)
      moreover have "load_ok n (Suc k)" using 1 near(1) by (simp add: load_ok_def)
      ultimately show ?thesis by blast
    next
      case 2
      then obtain j where k: "k = Suc j" by (cases k) auto
      have n': "Suc n = ?N" using 2 near(2) by linarith
      have two: "Suc 0 < 2 * 2 ^ j" using one_le_power [of "2 :: nat" j] by linarith
      have short: "num_items lh div num_buckets lh < kMinAverageChainLength" "kMinNumBuckets < num_buckets lh"
        "\<not> kMaxAverageChainLength < num_items lh div num_buckets lh"
        using 2 N k two by (simp_all add: word_less_nat_alt avg kMinAverageChainLength_def kMaxAverageChainLength_def kMinNumBuckets_def)
      have half: "unat (num_buckets lh div 2) = 16 * 2 ^ j" using N k by (simp add: unat_div)
      then have "\<not> num_buckets lh div 2 < kMinNumBuckets" by (simp add: word_less_nat_alt kMinNumBuckets_def)
      moreover have "num_buckets (lh_rebucket serves (num_buckets lh div 2) lh) = num_buckets lh div 2"
        by (rule rebucket_served [OF serves]) (use small half k in simp)
      ultimately have "unat (num_buckets ?lh) = 16 * 2 ^ j"
        using short half ok(2) by (simp add: lh_maybe_resize_def Let_def)
      moreover have "load_ok n j" using n' k by (simp add: load_ok_def)
      ultimately show ?thesis by blast
    next
      case 3
      have "\<not> kMaxAverageChainLength < num_items lh div num_buckets lh"
        using 3(1) less_mult_imp_div_less [of n 3 ?N] by (simp add: word_less_nat_alt avg kMaxAverageChainLength_def mult.commute)
      moreover have "\<not> (num_items lh div num_buckets lh < kMinAverageChainLength \<and> kMinNumBuckets < num_buckets lh)"
        using 3(2) N by (auto simp: word_less_nat_alt avg kMinAverageChainLength_def kMinNumBuckets_def div_eq_0_iff not_less)
      ultimately have "?lh = lh" by (auto simp: lh_maybe_resize_def Let_def)
      then show ?thesis using 3 N by (auto simp: load_ok_def)
    qed
  qed
  then show ?thesis using keeps n by (simp add: loaded_def)
qed


lemma new_loaded:
  assumes "OPENSSL_lh_new serves hash cmp = Some lh"
  shows "loaded lh"
proof -
  have "unat (num_buckets lh) = 16 * 2 ^ 0" "lh_data lh = {#}" "lh_ok lh" "callback_depth lh = 0"
    using new_models [OF assms] by (simp_all add: lh_models_def)
  then show ?thesis unfolding loaded_def load_ok_def by (intro conjI exI [of _ 0]) simp_all
qed

text \<open>A change by at most one value, and the resizing after it.\<close>

lemma changed_loaded:
  assumes "\<forall>k. serves k" "loaded lh" "lh_ok lh'" "callback_depth lh' = 0" "num_buckets lh' = num_buckets lh"
    "size (lh_data lh') \<le> Suc (size (lh_data lh))" "size (lh_data lh) \<le> Suc (size (lh_data lh'))" "size (lh_data lh') < 2 ^ 60"
  shows "loaded (lh_maybe_resize serves lh')"
proof -
  obtain k where k: "unat (num_buckets lh) = 16 * 2 ^ k" "load_ok (size (lh_data lh)) k"
    using assms(2) by (auto simp: loaded_def)
  show ?thesis
    by (rule resize_loaded [OF assms(1,3,4) refl assms(8)]) (use k assms(5-7) in \<open>auto simp: load_ok_def\<close>)
qed

context lh_functions
begin

lemma call_loaded:
  assumes serves: "\<forall>k. serves k" and models: "lh_models hash cmp lh xs" and load: "loaded lh" and n: "length xs < 2 ^ 60 - 1"
  shows "loaded (snd (lh_call serves c lh))"
proof -
  have size: "size (lh_data lh) = length xs" and depth: "callback_depth lh = 0"
    using models load by (simp_all add: lh_models_def loaded_def)
  have resized: "loaded (lh_maybe_resize serves lh1)"
    if "lh_models hash cmp lh1 ys" "num_buckets lh1 = num_buckets lh" "callback_depth lh1 = callback_depth lh"
      "length ys \<le> Suc (length xs)" "length xs \<le> Suc (length ys)" for lh1 ys
    by (rule changed_loaded [OF serves load]) (use that size depth n in \<open>simp_all add: lh_models_def\<close>)
  have diff: "different cmp (mset xs)" using models by (rule models_different)
  have removed: "length xs = Suc (length (ref_remove cmp d xs))" if "ref_retrieve cmp d xs = Some x" for d x
    using ref_remove_length [OF diff] that ref_retrieve_iff [OF diff] by blast
  show ?thesis
  proof (cases c)
    case (Insert d)
    obtain ok old lh' where run: "OPENSSL_lh_insert serves d lh = (ok, old, lh')" by (metis surj_pair)
    from insert_shape [OF models run] serves obtain lh1 where s: "old = ref_retrieve cmp d xs" "ok"
      "lh_models hash cmp lh1 (ref_insert cmp d xs)" "num_buckets lh1 = num_buckets lh" "callback_depth lh1 = callback_depth lh"
      "lh' = (if old = None then lh_maybe_resize serves lh1 else lh1)" by auto
    show ?thesis
    proof (cases old)
      case None
      then have "ref_insert cmp d xs = d # xs" using s(1) ref_retrieve_None ref_remove_absent by (metis ref_insert_def)
      then show ?thesis using resized [OF s(3-5)] None s(6) run Insert by simp
    next
      case (Some x)
      then have "size (lh_data lh1) = size (lh_data lh)"
        using removed [of d x] s(1,3) size by (simp add: lh_models_def ref_insert_def)
      then have "loaded lh1" using load s(3-5) by (simp add: loaded_def lh_models_def)
      then show ?thesis using Some s(6) run Insert by simp
    qed
  next
    case (Delete d)
    obtain old lh' where run: "OPENSSL_lh_delete serves d lh = (old, lh')" by (metis surj_pair)
    from delete_shape [OF models run] obtain lh1 where s: "old = ref_retrieve cmp d xs"
      "lh_models hash cmp lh1 (ref_remove cmp d xs)" "num_buckets lh1 = num_buckets lh" "callback_depth lh1 = callback_depth lh"
      "lh' = (if old = None then lh1 else lh_maybe_resize serves lh1)" by auto
    show ?thesis
    proof (cases old)
      case None
      then have "lh_data lh1 = lh_data lh"
        using s(1,2) models ref_retrieve_None ref_remove_absent by (metis lh_models_def)
      then have "loaded lh1" using load s(2-4) by (simp add: loaded_def lh_models_def)
      then show ?thesis using None s(5) run Delete by simp
    next
      case (Some x)
      then show ?thesis using resized [OF s(2-4)] removed [of d x] s(1,5) run Delete by simp
    qed
  next
    case Visit
    obtain M lh' where run: "OPENSSL_lh_doall_arg serves add_mset {#} lh = (M, lh')" by (metis surj_pair)
    have "lh_ok lh" using models by (simp add: lh_models_def)
    from doall_ok [OF this run] depth have "lh' = lh_maybe_resize serves lh" by simp
    then show ?thesis using resized [OF models refl refl] run Visit by simp
  qed (use load in simp_all)
qed

lemma ref_length: "length (snd (ref_call cmp item c xs)) \<le> Suc (length xs)"
  by (cases c) (auto simp: ref_insert_def ref_remove_def Let_def le_SucI)

lemma ref_run_length: "length (snd (ref_run cmp item cs xs)) \<le> length xs + length cs"
proof (induction cs arbitrary: xs)
  case (Cons c cs)
  from Cons.IH [of "snd (ref_call cmp item c xs)"] ref_length [of item c xs] show ?case
    by (simp add: split_beta)
qed simp

lemma run_loaded:
  "\<forall>k. serves k \<Longrightarrow> lh_models hash cmp lh xs \<Longrightarrow> loaded lh \<Longrightarrow> length xs + length cs < 2 ^ 60 \<Longrightarrow>
   loaded (snd (lh_run serves cs lh))"
proof (induction cs arbitrary: lh xs)
  case (Cons c cs)
  let ?lh = "snd (lh_call serves c lh)" and ?xs = "snd (ref_call cmp (serves 24) c xs)"
  have "loaded ?lh" by (rule call_loaded [OF Cons.prems(1-3)]) (use Cons.prems(4) in simp)
  moreover have "length ?xs + length cs < 2 ^ 60" using ref_length [of "serves 24" c xs] Cons.prems(4) by simp
  ultimately have "loaded (snd (lh_run serves cs ?lh))"
    using Cons.IH [OF Cons.prems(1)] call_models [OF Cons.prems(2), of serves c] by blast
  then show ?case by (simp add: split_beta)
qed simp

end

text \<open>C28. As long as the allocator serves, after any sequence of calls the table has 16 buckets or no more buckets than
  items, a power of two, and fewer than three items for each bucket.\<close>

theorem lhash_load:
  assumes "\<And>x. cmp x x = 0" "\<And>x y. cmp x y = 0 \<Longrightarrow> cmp y x = 0" "\<And>x y z. cmp x y = 0 \<Longrightarrow> cmp y z = 0 \<Longrightarrow> cmp x z = 0"
    "\<And>x y. cmp x y = 0 \<Longrightarrow> hash x = hash y" "OPENSSL_lh_new serves hash cmp = Some lh"
    "\<forall>k. serves k" "length cs < 2 ^ 60"
  shows "\<exists>k. let lh' = snd (lh_run serves cs lh); n = unat (OPENSSL_lh_num_items lh') in
    length (buckets lh') = 16 * 2 ^ k \<and> unat (num_buckets lh') = 16 * 2 ^ k \<and> n = length (concat (buckets lh')) \<and>
    n < 3 * (16 * 2 ^ k) \<and> (k = 0 \<or> 16 * 2 ^ k \<le> n)"
proof -
  have f: "lh_functions hash cmp" using assms(1-4) by unfold_locales
  let ?lh = "snd (lh_run serves cs lh)"
  have "loaded ?lh"
    using lh_functions.run_loaded [OF f assms(6) new_models(1) [OF assms(5)] new_loaded [OF assms(5)]] assms(7) by simp
  then obtain k where k: "lh_ok ?lh" "unat (num_buckets ?lh) = 16 * 2 ^ k" "load_ok (size (lh_data ?lh)) k"
    by (auto simp: loaded_def)
  have size: "size (lh_data ?lh) = length (concat (buckets ?lh))"
    unfolding lh_data_def size_image_mset size_mset ..
  have "lh_data ?lh = mset (snd (ref_run cmp (serves 24) cs []))"
    using lh_functions.run_models [OF f new_models(1) [OF assms(5)], of serves cs] by (simp add: lh_models_def)
  then have "size (lh_data ?lh) < 2 ^ 64"
    using lh_functions.ref_run_length [OF f, of "serves 24" cs "[]"] assms(7) by simp
  then have "unat (OPENSSL_lh_num_items ?lh) = length (concat (buckets ?lh))"
    using k(1) size by (simp add: OPENSSL_lh_num_items_def lh_ok_def unat_of_nat_addr)
  then show ?thesis using k size by (auto simp: load_ok_def lh_ok_def in_buckets_def Let_def)
qed


theorem lhash_load_witness:
  "\<exists>lh. OPENSSL_lh_new (\<lambda>_. True) int_hash int_cmp = Some lh \<and>
    (\<exists>k. let lh' = snd (lh_run (\<lambda>_. True) (map (Insert \<circ> int) [0..<100]) lh); n = unat (OPENSSL_lh_num_items lh') in
      length (buckets lh') = 16 * 2 ^ k \<and> unat (num_buckets lh') = 16 * 2 ^ k \<and> n = length (concat (buckets lh')) \<and>
      n < 3 * (16 * 2 ^ k) \<and> (k = 0 \<or> 16 * 2 ^ k \<le> n))"
proof -
  obtain lh where lh: "OPENSSL_lh_new (\<lambda>_. True) int_hash int_cmp = Some lh" by (simp add: OPENSSL_lh_new_def)
  show ?thesis
    by (rule exI [of _ lh], rule conjI [OF lh], rule lhash_load [OF _ _ _ _ lh]) (simp_all add: int_cmp_def)
qed

end
