(* ===== verification/ASN1_String.thy ===== *)
theory ASN1_String
  imports Unicode
begin

unbundle bit_operations_syntax

text \<open>
  \<open>crypto/asn1/a_mbstr.c\<close> with the parts of \<open>asn1_lib.c\<close>, \<open>a_print.c\<close> and \<open>a_strex.c\<close> that it works with: a text in
  one of four encodings becomes the ASN.1 string of the first permitted type that can hold it. The
  strings live in a store by number, \<open>None\<close> where the string has been released; \<open>*out\<close> is a cell of the
  state, \<open>None\<close> for \<open>NULL\<close>. A function that returns -1, zero or \<open>NULL\<close> on error gives \<open>Fail\<close>, and
  \<open>Undef\<close> stands for what C leaves undefined. The reasons go to an error queue. The input is read
  from a memory of its own, address zero is \<open>NULL\<close>.
\<close>

section \<open>Strings\<close>

datatype asn1_error = INVALID_BMPSTRING | INVALID_UNIVERSALSTRING | INVALID_UTF8STRING | INTERNAL_ERROR
  | UNKNOWN_FORMAT | ILLEGAL_CHARACTERS | STRING_TOO_SHORT | STRING_TOO_LONG | MALLOC_FAILURE

record asn1_string =
  str_length :: int
  str_type :: int
  str_data :: "byte list option"
  str_flags :: int

record str_state =
  str_cbb :: cbb_store
  strings :: "nat \<Rightarrow> asn1_string option"
  str_out :: "nat option"
  str_errors :: "asn1_error list"

type_synonym 'a str_op = "str_state \<Rightarrow> ('a, str_state) outcome"

definition put_error :: "asn1_error \<Rightarrow> 'a str_op" where
  "put_error e st = Fail (st\<lparr>str_errors := str_errors st @ [e]\<rparr>)"

abbreviation (input) set_string :: "nat \<Rightarrow> asn1_string option \<Rightarrow> str_state \<Rightarrow> str_state" where
  "set_string s x st \<equiv> st\<lparr>strings := (strings st)(s := x)\<rparr>"

text \<open>\<open>strlen\<close>: the number of bytes before the first zero, undefined where there is none.\<close>

partial_function (option) strlen_from :: "mem \<Rightarrow> addr \<Rightarrow> u64 \<Rightarrow> u64 option" where
  "strlen_from m p n = (if m (p + n) = 0 then Some n else strlen_from m p (n + 1))"

definition strlen_int :: "mem \<Rightarrow> addr \<Rightarrow> int option" where
  "strlen_int m p = map_option (\<lambda>n. sint (ucast n :: u32)) (strlen_from m p 0)"

definition INT_MAX :: int where "INT_MAX = 2147483647"

text \<open>\<open>s\<close> is the cell that \<open>OPENSSL_malloc\<close> gives for the struct, of 24 bytes.\<close>

definition ASN1_STRING_type_new :: "nat \<Rightarrow> int \<Rightarrow> unit str_op" where
  "ASN1_STRING_type_new s type st =
     (if \<not> allocates (str_cbb st) 24 then put_error MALLOC_FAILURE st
      else Ok () (set_string s (Some \<lparr>str_length = 0, str_type = type, str_data = None, str_flags = 0\<rparr>) st))"

definition ASN1_STRING_new :: "nat \<Rightarrow> unit str_op" where
  "ASN1_STRING_new s = ASN1_STRING_type_new s 4"

definition ASN1_STRING_free :: "nat \<Rightarrow> str_state \<Rightarrow> str_state" where
  "ASN1_STRING_free s st = set_string s None st"

text \<open>The bytes of a block of \<open>n\<close> bytes, of which \<open>c\<close> keeps its front.\<close>

definition resized :: "byte list option \<Rightarrow> nat \<Rightarrow> byte list" where
  "resized c n = (case c of None \<Rightarrow> replicate n 0 | Some bs \<Rightarrow> take n bs @ replicate (n - length bs) 0)"

definition ASN1_STRING_set :: "nat \<Rightarrow> mem \<Rightarrow> addr \<Rightarrow> int \<Rightarrow> unit str_op" where
  "ASN1_STRING_set s m data len st =
     (case (if len < 0 then (if data = 0 then Some None else map_option Some (strlen_int m data)) else Some (Some len)) of
        None \<Rightarrow> Undef
      | Some None \<Rightarrow> Fail st
      | Some (Some len) \<Rightarrow>
          (case strings st s of
             None \<Rightarrow> Undef
           | Some str \<Rightarrow>
               let grows = str_length str \<le> len \<or> str_data str = None in
               if grows \<and> len = INT_MAX then Undef
               else if grows \<and> \<not> allocates (str_cbb st) (word_of_int (len + 1)) then put_error MALLOC_FAILURE st
               else
                 let bs = (if grows then resized (str_data str) (nat (len + 1)) else the (str_data str));
                     bs = (if data \<noteq> 0 then mem_bytes m data (nat len) @ [0] @ drop (nat len + 1) bs else bs)
                 in Ok () (set_string s (Some (str\<lparr>str_data := Some bs, str_length := len\<rparr>)) st)))"

definition ASN1_STRING_set0 :: "nat \<Rightarrow> byte list option \<Rightarrow> int \<Rightarrow> unit str_op" where
  "ASN1_STRING_set0 s data len st =
     (case strings st s of
        None \<Rightarrow> Undef
      | Some str \<Rightarrow> Ok () (set_string s (Some (str\<lparr>str_data := data, str_length := len\<rparr>)) st))"

text \<open>A block at address one of a memory of its own.\<close>

definition data_mem :: "byte list option \<Rightarrow> mem" where
  "data_mem c a =
     (case c of None \<Rightarrow> 0 | Some bs \<Rightarrow> if 0 < a \<and> unat a - 1 < length bs then bs ! (unat a - 1) else 0)"

definition data_addr :: "byte list option \<Rightarrow> addr" where
  "data_addr c = (case c of None \<Rightarrow> 0 | Some bs \<Rightarrow> 1)"

definition ASN1_STRING_copy :: "nat \<Rightarrow> nat option \<Rightarrow> unit str_op" where
  "ASN1_STRING_copy dst src st =
     (case src of
        None \<Rightarrow> Fail st
      | Some src \<Rightarrow>
          (case strings st src of
             None \<Rightarrow> Undef
           | Some str \<Rightarrow>
               mthen (ASN1_STRING_set dst (data_mem (str_data str)) (data_addr (str_data str)) (str_length str))
                 (\<lambda>st. case strings st dst of
                    None \<Rightarrow> Undef
                  | Some d \<Rightarrow> Ok () (set_string dst (Some (d\<lparr>str_type := str_type str, str_flags := str_flags str\<rparr>)) st)) st))"

definition ASN1_STRING_dup :: "nat \<Rightarrow> nat option \<Rightarrow> nat str_op" where
  "ASN1_STRING_dup ret src st =
     (if src = None then Fail st
      else mthen (ASN1_STRING_new ret) (\<lambda>st.
        case ASN1_STRING_copy ret src st of
          Ok _ st \<Rightarrow> Ok ret st
        | Fail st \<Rightarrow> Fail (ASN1_STRING_free ret st)
        | Undef \<Rightarrow> Undef
        | Fuel \<Rightarrow> Fuel) st)"

section \<open>String types\<close>

definition B_ASN1_PRINTABLESTRING :: u64 where "B_ASN1_PRINTABLESTRING = 2"
definition B_ASN1_T61STRING :: u64 where "B_ASN1_T61STRING = 4"
definition B_ASN1_IA5STRING :: u64 where "B_ASN1_IA5STRING = 0x10"
definition B_ASN1_UNIVERSALSTRING :: u64 where "B_ASN1_UNIVERSALSTRING = 0x100"
definition B_ASN1_BMPSTRING :: u64 where "B_ASN1_BMPSTRING = 0x800"
definition B_ASN1_UTF8STRING :: u64 where "B_ASN1_UTF8STRING = 0x2000"

definition DIRSTRING_TYPE :: u64 where
  "DIRSTRING_TYPE = B_ASN1_PRINTABLESTRING OR B_ASN1_T61STRING OR B_ASN1_BMPSTRING OR B_ASN1_UTF8STRING"

definition V_ASN1_UTF8STRING :: int where "V_ASN1_UTF8STRING = 12"
definition V_ASN1_PRINTABLESTRING :: int where "V_ASN1_PRINTABLESTRING = 19"
definition V_ASN1_T61STRING :: int where "V_ASN1_T61STRING = 20"
definition V_ASN1_IA5STRING :: int where "V_ASN1_IA5STRING = 22"
definition V_ASN1_UNIVERSALSTRING :: int where "V_ASN1_UNIVERSALSTRING = 28"
definition V_ASN1_BMPSTRING :: int where "V_ASN1_BMPSTRING = 30"

definition MBSTRING_FLAG :: int where "MBSTRING_FLAG = 0x1000"
definition MBSTRING_UTF8 :: int where "MBSTRING_UTF8 = 0x1000"
definition MBSTRING_ASC :: int where "MBSTRING_ASC = 0x1001"
definition MBSTRING_BMP :: int where "MBSTRING_BMP = 0x1002"
definition MBSTRING_UNIV :: int where "MBSTRING_UNIV = 0x1004"

definition asn1_is_printable :: "u32 \<Rightarrow> bool" where
  "asn1_is_printable v =
     (if 0x7F < v then False
      else (97 \<le> v \<and> v \<le> 122) \<or> (65 \<le> v \<and> v \<le> 90) \<or> (48 \<le> v \<and> v \<le> 57) \<or>
        v = 32 \<or> v = 39 \<or> v = 40 \<or> v = 41 \<or> v = 43 \<or> v = 44 \<or> v = 45 \<or> v = 46 \<or> v = 47 \<or> v = 58 \<or> v = 61 \<or> v = 63)"

definition decode_func :: "int \<Rightarrow> ((mem \<Rightarrow> u32 reader) \<times> asn1_error) option" where
  "decode_func inform =
     (if inform = MBSTRING_BMP then Some (cbs_get_ucs2_be, INVALID_BMPSTRING)
      else if inform = MBSTRING_UNIV then Some (cbs_get_utf32_be, INVALID_UNIVERSALSTRING)
      else if inform = MBSTRING_UTF8 then Some (cbs_get_utf8, INVALID_UTF8STRING)
      else if inform = MBSTRING_ASC then Some (cbs_get_latin1, INTERNAL_ERROR)
      else None)"

definition update_mask :: "u64 \<Rightarrow> u32 \<Rightarrow> u64" where
  "update_mask types c =
     (let types = (if types AND B_ASN1_PRINTABLESTRING \<noteq> 0 \<and> \<not> asn1_is_printable c
                  then types AND NOT B_ASN1_PRINTABLESTRING else types);
          types = (if types AND B_ASN1_IA5STRING \<noteq> 0 \<and> 127 < c then types AND NOT B_ASN1_IA5STRING else types);
          types = (if types AND B_ASN1_T61STRING \<noteq> 0 \<and> 0xFF < c then types AND NOT B_ASN1_T61STRING else types)
      in if types AND B_ASN1_BMPSTRING \<noteq> 0 \<and> 0xFFFF < c then types AND NOT B_ASN1_BMPSTRING else types)"

text \<open>The first pass: \<open>nchar\<close>, \<open>utf8_len\<close> and what is left of the mask, or the reason of an error.
  A round takes at least one byte, so \<open>n\<close> rounds are enough for \<open>n\<close> bytes.\<close>

fun scan_loop :: "nat \<Rightarrow> mem \<Rightarrow> int \<Rightarrow> (mem \<Rightarrow> u32 reader) \<Rightarrow> asn1_error \<Rightarrow> cbs \<Rightarrow> u64 \<Rightarrow> u64 \<Rightarrow> u64 \<Rightarrow>
    (asn1_error + u64 \<times> u64 \<times> u64) option" where
  "scan_loop n m inform decode error cbs nchar utf8_len types =
     (if CBS_len cbs = 0 then Some (Inr (nchar, utf8_len, types))
      else case n of
        0 \<Rightarrow> None
      | Suc n \<Rightarrow>
          (case decode m cbs of
             Ok c cbs \<Rightarrow>
               if nchar = 0 \<and> (inform = MBSTRING_BMP \<or> inform = MBSTRING_UNIV) \<and> c = 0xFEFF
               then Some (Inl ILLEGAL_CHARACTERS)
               else
                 let types = update_mask types c in
                 if types = 0 then Some (Inl ILLEGAL_CHARACTERS)
                 else scan_loop n m inform decode error cbs (nchar + 1) (utf8_len + cbb_get_utf8_len c) types
           | _ \<Rightarrow> Some (Inl error)))"

declare scan_loop.simps [simp del]

text \<open>The type, the encoding with its writer, and the estimated size.\<close>

definition output_form :: "u64 \<Rightarrow> u64 \<Rightarrow> u64 \<Rightarrow> (int \<times> int \<times> (nat \<Rightarrow> u32 \<Rightarrow> unit builder) \<times> u64) option" where
  "output_form types nchar utf8_len =
     (if types AND B_ASN1_PRINTABLESTRING \<noteq> 0 then Some (V_ASN1_PRINTABLESTRING, MBSTRING_ASC, cbb_add_latin1, nchar)
      else if types AND B_ASN1_IA5STRING \<noteq> 0 then Some (V_ASN1_IA5STRING, MBSTRING_ASC, cbb_add_latin1, nchar)
      else if types AND B_ASN1_T61STRING \<noteq> 0 then Some (V_ASN1_T61STRING, MBSTRING_ASC, cbb_add_latin1, nchar)
      else if types AND B_ASN1_BMPSTRING \<noteq> 0 then Some (V_ASN1_BMPSTRING, MBSTRING_BMP, cbb_add_ucs2_be, 2 * nchar)
      else if types AND B_ASN1_UNIVERSALSTRING \<noteq> 0 then Some (V_ASN1_UNIVERSALSTRING, MBSTRING_UNIV, cbb_add_utf32_be, 4 * nchar)
      else if types AND B_ASN1_UTF8STRING \<noteq> 0 then Some (V_ASN1_UTF8STRING, MBSTRING_UTF8, cbb_add_utf8, utf8_len)
      else None)"

text \<open>The second pass, into the builder \<open>p\<close>.\<close>

fun transcode_loop :: "nat \<Rightarrow> mem \<Rightarrow> (mem \<Rightarrow> u32 reader) \<Rightarrow> (nat \<Rightarrow> u32 \<Rightarrow> unit builder) \<Rightarrow> nat \<Rightarrow> cbs \<Rightarrow> unit builder" where
  "transcode_loop n m decode encode p cbs =
     (if CBS_len cbs = 0 then mreturn ()
      else case n of
        0 \<Rightarrow> (\<lambda>_. Fuel)
      | Suc n \<Rightarrow>
          (case decode m cbs of
             Ok c cbs \<Rightarrow> mthen (encode p c) (transcode_loop n m decode encode p cbs)
           | _ \<Rightarrow> Fail))"

declare transcode_loop.simps [simp del]


section \<open>The conversion\<close>

text \<open>\<open>on_cbb\<close>: a builder on the builders' part of the state.\<close>

definition on_cbb :: "'a builder \<Rightarrow> 'a str_op" where
  "on_cbb w st =
     (case w (str_cbb st) of
        Ok x h \<Rightarrow> Ok x (st\<lparr>str_cbb := h\<rparr>)
      | Fail h \<Rightarrow> Fail (st\<lparr>str_cbb := h\<rparr>)
      | Undef \<Rightarrow> Undef
      | Fuel \<Rightarrow> Fuel)"

text \<open>\<open>dest\<close>: the string that \<open>*out\<close> points to, emptied, or a new one in the cell \<open>s\<close>; whether it is
  released on an error (\<open>free_out\<close>).\<close>

definition prepare_dest :: "nat \<Rightarrow> int \<Rightarrow> (nat \<times> bool) str_op" where
  "prepare_dest s type st =
     (case str_out st of
        Some dest \<Rightarrow>
          (case strings st dest of
             None \<Rightarrow> Undef
           | Some str \<Rightarrow>
               let str = (if str_data str \<noteq> None then str\<lparr>str_length := 0, str_data := None\<rparr> else str)
               in Ok (dest, False) (set_string dest (Some (str\<lparr>str_type := type\<rparr>)) st))
      | None \<Rightarrow>
          (case ASN1_STRING_type_new s type st of
             Ok _ st \<Rightarrow> Ok (s, True) (st\<lparr>str_out := Some s\<rparr>)
           | Fail st \<Rightarrow> put_error MALLOC_FAILURE st
           | Undef \<Rightarrow> Undef
           | Fuel \<Rightarrow> Fuel))"

text \<open>The label \<open>err\<close>.\<close>

definition mbstring_err :: "nat \<Rightarrow> nat \<Rightarrow> bool \<Rightarrow> asn1_error \<Rightarrow> 'a str_op" where
  "mbstring_err p dest free_out e st =
     (let st = (if free_out then ASN1_STRING_free dest st else st)
      in put_error e (st\<lparr>str_cbb := CBB_cleanup p (str_cbb st)\<rparr>))"

text \<open>\<open>b\<close> and \<open>p\<close> are the cells of the buffer and of the local \<open>CBB\<close>.\<close>

definition transcode :: "nat \<Rightarrow> nat \<Rightarrow> nat \<Rightarrow> bool \<Rightarrow> mem \<Rightarrow> (mem \<Rightarrow> u32 reader) \<Rightarrow> (nat \<Rightarrow> u32 \<Rightarrow> unit builder) \<Rightarrow> u64 \<Rightarrow>
    cbs \<Rightarrow> unit str_op" where
  "transcode b p dest free_out m decode encode size_estimate cbs st =
     (case on_cbb (CBB_init b p (size_estimate + 1)) st of
        Ok _ st \<Rightarrow>
          (case on_cbb (mthen (transcode_loop (unat (CBS_len cbs)) m decode encode p cbs)
                          (mthen (CBB_add_u8 p 0) (CBB_finish p True))) st of
             Ok (data, data_len) st \<Rightarrow>
               if data_len < 1 \<or> 0x7FFFFFFF < data_len then mbstring_err p dest free_out INTERNAL_ERROR st
               else
                 (case strings st dest of
                    None \<Rightarrow> Undef
                  | Some str \<Rightarrow>
                      Ok () (set_string dest (Some (str\<lparr>str_length := uint (data_len - 1), str_data := Some data\<rparr>)) st))
           | Fail st \<Rightarrow> mbstring_err p dest free_out INTERNAL_ERROR st
           | Undef \<Rightarrow> Undef
           | Fuel \<Rightarrow> Fuel)
      | Fail st \<Rightarrow> mbstring_err p dest free_out MALLOC_FAILURE st
      | Undef \<Rightarrow> Undef
      | Fuel \<Rightarrow> Fuel)"

text \<open>\<open>wants\<close>: \<open>out\<close> is not \<open>NULL\<close>.\<close>

definition ASN1_mbstring_ncopy :: "nat \<Rightarrow> nat \<Rightarrow> nat \<Rightarrow> mem \<Rightarrow> bool \<Rightarrow> addr \<Rightarrow> int \<Rightarrow> int \<Rightarrow> u64 \<Rightarrow> int \<Rightarrow> int \<Rightarrow> int str_op" where
  "ASN1_mbstring_ncopy b p s m wants inp len inform types minsize maxsize st =
     (case (if len = -1 then strlen_int m inp else Some len) of
        None \<Rightarrow> Undef
      | Some len \<Rightarrow>
          let types = (if types = 0 then DIRSTRING_TYPE else types) in
          (case decode_func inform of
             None \<Rightarrow> put_error UNKNOWN_FORMAT st
           | Some (decode, error) \<Rightarrow>
               let cbs = CBS_init inp (word_of_int len) in
               (case scan_loop (unat (CBS_len cbs)) m inform decode error cbs 0 0 types of
                  None \<Rightarrow> Fuel
                | Some (Inl e) \<Rightarrow> put_error e st
                | Some (Inr (nchar, utf8_len, types)) \<Rightarrow>
                    if 0 < minsize \<and> nchar < word_of_int minsize then put_error STRING_TOO_SHORT st
                    else if 0 < maxsize \<and> word_of_int maxsize < nchar then put_error STRING_TOO_LONG st
                    else
                      (case output_form types nchar utf8_len of
                         None \<Rightarrow> put_error ILLEGAL_CHARACTERS st
                       | Some (outtype, outform, encode, size_estimate) \<Rightarrow>
                           if \<not> wants then Ok outtype st
                           else mbind (prepare_dest s outtype) (\<lambda>(dest, free_out).
                             if inform = outform then
                               (\<lambda>st. case ASN1_STRING_set dest m inp len st of
                                  Ok _ st \<Rightarrow> Ok outtype st
                                | Fail st \<Rightarrow> put_error MALLOC_FAILURE st
                                | Undef \<Rightarrow> Undef
                                | Fuel \<Rightarrow> Fuel)
                             else mthen (transcode b p dest free_out m decode encode size_estimate cbs)
                               (mreturn outtype)) st))))"

definition ASN1_mbstring_copy :: "nat \<Rightarrow> nat \<Rightarrow> nat \<Rightarrow> mem \<Rightarrow> bool \<Rightarrow> addr \<Rightarrow> int \<Rightarrow> int \<Rightarrow> u64 \<Rightarrow> int str_op" where
  "ASN1_mbstring_copy b p s m wants inp len inform types = ASN1_mbstring_ncopy b p s m wants inp len inform types 0 0"

section \<open>Readers of strings\<close>

fun printable_loop :: "byte list \<Rightarrow> bool \<Rightarrow> int" where
  "printable_loop [] printable = (if printable then V_ASN1_PRINTABLESTRING else V_ASN1_IA5STRING)"
| "printable_loop (c # cs) printable =
     (if c AND 0x80 \<noteq> 0 then V_ASN1_T61STRING
      else printable_loop cs (if \<not> asn1_is_printable (ucast c) then False else printable))"

definition ASN1_PRINTABLE_type :: "mem \<Rightarrow> addr \<Rightarrow> int \<Rightarrow> int option" where
  "ASN1_PRINTABLE_type m s len =
     map_option (\<lambda>len. printable_loop (mem_bytes m s (nat len)) True) (if len < 0 then strlen_int m s else Some len)"

definition tag2nbyte :: "int list" where
  "tag2nbyte =
     [-1, -1, -1, -1, -1, -1, -1, -1, -1, -1, -1, -1, 0, -1, -1, -1, -1, -1, 1, 1, 1, -1, 1, 1, 1, -1, 1, -1, 4, -1, 2]"

text \<open>\<open>stmp\<close> is the cell of the local string, whose type is not set before. The result are the bytes and the
  length; \<open>str_out\<close> is the local pointer \<open>str\<close> during the call.\<close>

definition ASN1_STRING_to_UTF8 :: "nat \<Rightarrow> nat \<Rightarrow> nat \<Rightarrow> nat option \<Rightarrow> (byte list option \<times> int) str_op" where
  "ASN1_STRING_to_UTF8 b p stmp inp st =
     (case inp of
        None \<Rightarrow> Fail st
      | Some inp \<Rightarrow>
          (case strings st inp of
             None \<Rightarrow> Undef
           | Some str \<Rightarrow>
               if str_type str < 0 \<or> 30 < str_type str then Fail st
               else
                 let mbflag = tag2nbyte ! nat (str_type str) in
                 if mbflag = -1 then Fail st
                 else
                   let mbflag = or mbflag MBSTRING_FLAG; out = str_out st;
                       st = (set_string stmp (Some \<lparr>str_length = 0, str_type = 0, str_data = None, str_flags = 0\<rparr>) st)
                              \<lparr>str_out := Some stmp\<rparr>
                   in (case ASN1_mbstring_copy b p stmp (data_mem (str_data str)) True (data_addr (str_data str))
                              (str_length str) mbflag B_ASN1_UTF8STRING st of
                         Ok _ st \<Rightarrow>
                           (case strings st stmp of
                              None \<Rightarrow> Undef
                            | Some tmp \<Rightarrow> Ok (str_data tmp, str_length tmp) (st\<lparr>str_out := out\<rparr>))
                       | Fail st \<Rightarrow> Fail (st\<lparr>str_out := out\<rparr>)
                       | Undef \<Rightarrow> Undef
                       | Fuel \<Rightarrow> Fuel)))"

end
