(* ===== verification/ASN1_Text.thy ===== *)
theory ASN1_Text
  imports ASN1_String
begin

unbundle bit_operations_syntax

text \<open>
  The conversion of \<open>a_mbstr.c\<close> over texts, lists of code points: the interface \<open>text_form\<close> is a \<open>codec\<close>
  of code points, with the four encodings as its instances; the first pass is a function of the text,
  and the second one writes the text in the encoding of the type.
\<close>

section \<open>The encodings of a text\<close>

definition form_code :: "int \<Rightarrow> u32 \<Rightarrow> byte list" where
  "form_code inform v =
     (if inform = MBSTRING_BMP then be_bytes 2 v
      else if inform = MBSTRING_UNIV then be_bytes 4 v
      else if inform = MBSTRING_UTF8 then utf8 (unat v)
      else [ucast v])"

definition form_valid :: "int \<Rightarrow> u32 \<Rightarrow> bool" where
  "form_valid inform v =
     (if inform = MBSTRING_BMP then unat v < 65536 \<and> is_valid_code_point v
      else if inform = MBSTRING_UNIV then is_valid_code_point v
      else if inform = MBSTRING_UTF8 then is_valid_code_point v
      else unat v < 256)"

definition form_add :: "int \<Rightarrow> nat \<Rightarrow> u32 \<Rightarrow> unit builder" where
  "form_add outform =
     (if outform = MBSTRING_BMP then cbb_add_ucs2_be
      else if outform = MBSTRING_UNIV then cbb_add_utf32_be
      else if outform = MBSTRING_UTF8 then cbb_add_utf8
      else cbb_add_latin1)"

definition encoded :: "int \<Rightarrow> u32 list \<Rightarrow> byte list" where
  "encoded inform vs = concat (map (form_code inform) vs)"

text \<open>The bytes are this text.\<close>

definition is_text :: "int \<Rightarrow> byte list \<Rightarrow> u32 list \<Rightarrow> bool" where
  "is_text inform bs vs \<longleftrightarrow> bs = encoded inform vs \<and> (\<forall>v\<in>set vs. form_valid inform v)"

lemmas forms = MBSTRING_BMP_def MBSTRING_UNIV_def MBSTRING_UTF8_def MBSTRING_ASC_def MBSTRING_FLAG_def

definition wide :: "int \<Rightarrow> bool" where
  "wide inform \<longleftrightarrow> inform = MBSTRING_BMP \<or> inform = MBSTRING_UNIV"

text \<open>The first pass over the text.\<close>

fun scan_text :: "int \<Rightarrow> u64 \<Rightarrow> u64 \<Rightarrow> u64 \<Rightarrow> u32 list \<Rightarrow> asn1_error + u64 \<times> u64 \<times> u64" where
  "scan_text inform nchar utf8_len types [] = Inr (nchar, utf8_len, types)"
| "scan_text inform nchar utf8_len types (v # vs) =
     (if nchar = 0 \<and> wide inform \<and> v = 0xFEFF then Inl ILLEGAL_CHARACTERS
      else let types = update_mask types v in
        if types = 0 then Inl ILLEGAL_CHARACTERS
        else scan_text inform (nchar + 1) (utf8_len + cbb_get_utf8_len v) types vs)"

lemma no_bytes: "cbs_len c = 0 \<Longrightarrow> cbs_bytes m c = []"
  by (simp add: cbs_bytes_def)

locale text_form = codec "\<lambda>p _. add p" code valid f
  for add :: "nat \<Rightarrow> u32 \<Rightarrow> unit builder" and code :: "u32 \<Rightarrow> byte list" and valid :: "u32 \<Rightarrow> bool" and f :: "mem \<Rightarrow> u32 reader" +
  assumes code_ne: "code v \<noteq> []"
begin

lemma read_cases:
  obtains v c' where "f m c = Ok v c'" "valid v" "cbs_bytes m c = code v @ cbs_bytes m c'" "unat (cbs_len c') < unat (cbs_len c)"
    | "\<forall>v c'. f m c \<noteq> Ok v c'" "\<not> (\<exists>v rest. valid v \<and> cbs_bytes m c = code v @ rest)"
proof (cases "\<exists>v c'. f m c = Ok v c'")
  case True
  then obtain v c' where v: "f m c = Ok v c'" by blast
  then have "valid v" "takes m c (code v) c'" by (simp_all add: reads)
  moreover have "0 < length (code v)" using code_ne by simp
  ultimately have "unat (cbs_len c') < unat (cbs_len c)" using takes_len [of m c "code v" c'] by linarith
  with \<open>valid v\<close> takes_bytes [OF \<open>takes m c (code v) c'\<close>] show thesis by (rule that(1) [OF v])
next
  case False
  have "\<not> (\<exists>v rest. valid v \<and> cbs_bytes m c = code v @ rest)" using read_back False by blast
  with False that(2) show thesis by blast
qed

text \<open>A text has one reading.\<close>

lemma text_front:
  assumes "cbs_bytes m c = concat (map code (w # vs))" "\<forall>v\<in>set (w # vs). valid v" "f m c = Ok v c'"
  shows "v = w \<and> cbs_bytes m c' = concat (map code vs)"
proof -
  have "f m c = Ok w (cbs_drop (length (code w)) c)"
    using read_back [of w m c "concat (map code vs)"] assms(1,2) by simp
  then have "v = w" "takes m c (code w) c'" using assms(3) by (simp_all add: reads)
  with takes_bytes [of m c "code w" c'] assms(1) show ?thesis by simp
qed

lemma text_unique:
  "concat (map code vs) = concat (map code ws) \<Longrightarrow> \<forall>v\<in>set vs. valid v \<Longrightarrow> \<forall>v\<in>set ws. valid v \<Longrightarrow>
   length (concat (map code vs)) < 2 ^ 64 \<Longrightarrow> vs = ws"
proof (induction vs arbitrary: ws)
  case Nil
  then show ?case using code_ne by (cases ws) auto
next
  case (Cons v vs)
  then obtain w ws' where ws: "ws = w # ws'" using code_ne by (cases ws) auto
  with Cons.prems have "v = w" using prefix_free [of v w "concat (map code vs)" "concat (map code ws')"] by simp
  then show ?case using Cons ws by simp
qed

lemma scan_reads:
  "unat (cbs_len c) \<le> n \<Longrightarrow> cbs_bytes m c = concat (map code vs) \<Longrightarrow> \<forall>v\<in>set vs. valid v \<Longrightarrow>
   scan_loop n m inform f e c k l types = Some (scan_text inform k l types vs)"
proof (induction vs arbitrary: c n k l types)
  case Nil
  then have "cbs_len c = 0" using length_cbs_bytes [of m c] by (simp add: unat_eq_zero)
  then show ?case by (simp add: scan_loop.simps [of n] CBS_len_def)
next
  case (Cons w vs)
  from read_cases [of m c] show ?case
  proof cases
    case (1 v c')
    from text_front [OF Cons.prems(2,3) 1(1)] have v: "v = w" "cbs_bytes m c' = concat (map code vs)" by simp_all
    obtain n' where n': "n = Suc n'" "unat (cbs_len c') \<le> n'" using 1(4) Cons.prems(1) by (cases n) auto
    have "CBS_len c \<noteq> 0" using 1(4) by (auto simp: CBS_len_def)
    then show ?thesis
      using Cons.IH [OF n'(2) v(2)] Cons.prems(3) 1(1) v(1) n'(1)
      by (auto simp: scan_loop.simps [of "Suc n'"] Let_def wide_def)
  next
    case 2
    then show ?thesis using Cons.prems(2,3) by auto
  qed
qed

lemma scan_accepts:
  "scan_loop n m inform f e c k l types = Some (Inr r) \<Longrightarrow> \<exists>vs. cbs_bytes m c = concat (map code vs) \<and> (\<forall>v\<in>set vs. valid v)"
proof (induction n arbitrary: c k l types)
  case (Suc n)
  show ?case
  proof (cases "CBS_len c = 0")
    case False
    with Suc.prems obtain v c' k' l' t where v: "f m c = Ok v c'" "scan_loop n m inform f e c' k' l' t = Some (Inr r)"
      by (auto simp: scan_loop.simps [of "Suc n"] Let_def split: outcome.splits if_splits)
    from Suc.IH [OF v(2)] obtain vs where vs: "cbs_bytes m c' = concat (map code vs)" "\<forall>v\<in>set vs. valid v" by blast
    from v(1) have "valid v" "cbs_bytes m c = code v @ cbs_bytes m c'" using takes_bytes by (simp_all add: reads)
    with vs show ?thesis by (intro exI [of _ "v # vs"]) simp
  next
    case True
    then show ?thesis by (intro exI [of _ "[]"]) (simp add: CBS_len_def no_bytes)
  qed
next
  case 0
  then have "cbs_len c = 0" by (auto simp: scan_loop.simps [of 0] CBS_len_def split: if_splits)
  then show ?case by (intro exI [of _ "[]"]) (simp add: no_bytes)
qed

lemma scan_ends: "unat (cbs_len c) \<le> n \<Longrightarrow> scan_loop n m inform f e c k l types \<noteq> None"
proof (induction n arbitrary: c k l types)
  case 0
  then show ?case by (simp add: scan_loop.simps [of 0] CBS_len_def unat_eq_zero)
next
  case (Suc n)
  from read_cases [of m c] show ?case
  proof cases
    case (1 v c')
    then have "unat (cbs_len c') \<le> n" using Suc.prems by simp
    from Suc.IH [OF this] 1(1) show ?thesis by (simp add: scan_loop.simps [of "Suc n"] Let_def)
  next
    case 2
    then show ?thesis by (cases "f m c") (simp_all add: scan_loop.simps [of "Suc n"])
  qed
qed

end


section \<open>The four encodings\<close>

interpretation tlatin1: text_form cbb_add_latin1 "\<lambda>v. [ucast v]" "\<lambda>v. unat v < 256" cbs_get_latin1
  by unfold_locales simp
interpretation tucs2: text_form cbb_add_ucs2_be "be_bytes 2" "\<lambda>v. unat v < 65536 \<and> is_valid_code_point v" cbs_get_ucs2_be
  by unfold_locales (simp flip: length_greater_0_conv)
interpretation tutf32: text_form cbb_add_utf32_be "be_bytes 4" is_valid_code_point cbs_get_utf32_be
  by unfold_locales (simp flip: length_greater_0_conv)
interpretation tutf8: text_form cbb_add_utf8 "\<lambda>v. utf8 (unat v)" is_valid_code_point cbs_get_utf8
  by unfold_locales (rule utf8_ne)

lemma decode_form:
  assumes "decode_func inform = Some (decode, e)"
  shows "text_form (form_add inform) (form_code inform) (form_valid inform) decode"
proof -
  have "inform = MBSTRING_BMP \<Longrightarrow> decode = cbs_get_ucs2_be" "inform = MBSTRING_UNIV \<Longrightarrow> decode = cbs_get_utf32_be"
    "inform = MBSTRING_UTF8 \<Longrightarrow> decode = cbs_get_utf8" "inform = MBSTRING_ASC \<Longrightarrow> decode = cbs_get_latin1"
    and "inform \<in> {MBSTRING_BMP, MBSTRING_UNIV, MBSTRING_UTF8, MBSTRING_ASC}"
    using assms by (auto simp: decode_func_def forms split: if_splits)
  moreover have "form_add MBSTRING_BMP = cbb_add_ucs2_be" "form_add MBSTRING_UNIV = cbb_add_utf32_be"
    "form_add MBSTRING_UTF8 = cbb_add_utf8" "form_add MBSTRING_ASC = cbb_add_latin1"
    by (simp_all add: form_add_def forms)
  moreover have "form_code MBSTRING_BMP = be_bytes 2" "form_code MBSTRING_UNIV = be_bytes 4"
    "form_code MBSTRING_UTF8 = (\<lambda>v. utf8 (unat v))" "form_code MBSTRING_ASC = (\<lambda>v. [ucast v])"
    by (simp_all add: form_code_def [abs_def] forms)
  moreover have "form_valid MBSTRING_BMP = (\<lambda>v. unat v < 65536 \<and> is_valid_code_point v)" "form_valid MBSTRING_UNIV = is_valid_code_point"
    "form_valid MBSTRING_UTF8 = is_valid_code_point" "form_valid MBSTRING_ASC = (\<lambda>v. unat v < 256)"
    by (simp_all add: form_valid_def [abs_def] forms)
  ultimately show ?thesis
    using tlatin1.text_form_axioms tucs2.text_form_axioms tutf32.text_form_axioms tutf8.text_form_axioms by auto
qed

lemma form_exists: "inform \<in> {MBSTRING_BMP, MBSTRING_UNIV, MBSTRING_UTF8, MBSTRING_ASC} \<longleftrightarrow> (\<exists>decode e. decode_func inform = Some (decode, e))"
  by (auto simp: decode_func_def)

section \<open>The types that a text fits in\<close>

text \<open>In the order of preference: the bit of the mask, the type and the code points of the type.\<close>

definition mb_types :: "(u64 \<times> int \<times> (u32 \<Rightarrow> bool)) list" where
  "mb_types =
     [(B_ASN1_PRINTABLESTRING, V_ASN1_PRINTABLESTRING, asn1_is_printable),
      (B_ASN1_IA5STRING, V_ASN1_IA5STRING, \<lambda>v. v \<le> 127),
      (B_ASN1_T61STRING, V_ASN1_T61STRING, \<lambda>v. v \<le> 0xFF),
      (B_ASN1_BMPSTRING, V_ASN1_BMPSTRING, \<lambda>v. v \<le> 0xFFFF),
      (B_ASN1_UNIVERSALSTRING, V_ASN1_UNIVERSALSTRING, \<lambda>v. True),
      (B_ASN1_UTF8STRING, V_ASN1_UTF8STRING, \<lambda>v. True)]"

text \<open>The first permitted type that fits.\<close>

definition mb_pick :: "u64 \<Rightarrow> u32 list \<Rightarrow> int option" where
  "mb_pick types vs =
     map_option (\<lambda>(bit, t, fits). t) (List.find (\<lambda>(bit, t, fits). types AND bit \<noteq> 0 \<and> list_all fits vs) mb_types)"

definition form_of :: "int \<Rightarrow> int" where
  "form_of t =
     (if t = V_ASN1_BMPSTRING then MBSTRING_BMP
      else if t = V_ASN1_UNIVERSALSTRING then MBSTRING_UNIV
      else if t = V_ASN1_UTF8STRING then MBSTRING_UTF8
      else MBSTRING_ASC)"

lemmas type_bits = B_ASN1_PRINTABLESTRING_def B_ASN1_T61STRING_def B_ASN1_IA5STRING_def B_ASN1_UNIVERSALSTRING_def
  B_ASN1_BMPSTRING_def B_ASN1_UTF8STRING_def
lemmas type_tags = V_ASN1_UTF8STRING_def V_ASN1_PRINTABLESTRING_def V_ASN1_T61STRING_def V_ASN1_IA5STRING_def
  V_ASN1_UNIVERSALSTRING_def V_ASN1_BMPSTRING_def

lemma one_bit: "(x :: u64) AND 2 ^ n \<noteq> 0 \<longleftrightarrow> bit x n"
  by (simp add: and_exp_eq_0_iff_not_bit)

lemma type_bit:
  "x AND B_ASN1_PRINTABLESTRING \<noteq> 0 \<longleftrightarrow> bit x 1" "x AND B_ASN1_T61STRING \<noteq> 0 \<longleftrightarrow> bit x 2"
  "x AND B_ASN1_IA5STRING \<noteq> 0 \<longleftrightarrow> bit x 4" "x AND B_ASN1_UNIVERSALSTRING \<noteq> 0 \<longleftrightarrow> bit x 8"
  "x AND B_ASN1_BMPSTRING \<noteq> 0 \<longleftrightarrow> bit x 11" "x AND B_ASN1_UTF8STRING \<noteq> 0 \<longleftrightarrow> bit x 13"
  using one_bit [of x 1] one_bit [of x 2] one_bit [of x 4] one_bit [of x 8] one_bit [of x 11] one_bit [of x 13]
  by (simp_all add: type_bits)

lemma bit_types:
  "bit B_ASN1_PRINTABLESTRING n \<longleftrightarrow> n = 1" "bit B_ASN1_T61STRING n \<longleftrightarrow> n = 2"
  "bit B_ASN1_IA5STRING n \<longleftrightarrow> n = 4" "bit B_ASN1_BMPSTRING n \<longleftrightarrow> n = 11"
proof -
  have "bit (2 ^ k :: u64) n \<longleftrightarrow> n = k" if "k < 64" for k
    using that by (auto simp: bit_simps)
  from this [of 1] this [of 2] this [of 4] this [of 11] show
    "bit B_ASN1_PRINTABLESTRING n \<longleftrightarrow> n = 1" "bit B_ASN1_T61STRING n \<longleftrightarrow> n = 2"
    "bit B_ASN1_IA5STRING n \<longleftrightarrow> n = 4" "bit B_ASN1_BMPSTRING n \<longleftrightarrow> n = 11"
    by (simp_all add: type_bits)
qed

lemma clear_bit:
  assumes "\<And>n. bit (B :: u64) n \<longleftrightarrow> n = k" "n < 64"
  shows "bit (if bit x k \<and> P then x AND NOT B else x) n \<longleftrightarrow> bit x n \<and> (n = k \<longrightarrow> \<not> P)"
  using assms by (auto simp: bit_and_iff bit_not_iff)

lemma update_bit:
  assumes "n < 64"
  shows "bit (update_mask types v) n \<longleftrightarrow> bit types n \<and>
     (n = 1 \<longrightarrow> asn1_is_printable v) \<and> (n = 4 \<longrightarrow> v \<le> 127) \<and> (n = 2 \<longrightarrow> v \<le> 0xFF) \<and> (n = 11 \<longrightarrow> v \<le> 0xFFFF)"
  unfolding update_mask_def Let_def type_bit
  unfolding clear_bit [OF bit_types(1) assms] clear_bit [OF bit_types(2) assms] clear_bit [OF bit_types(3) assms]
    clear_bit [OF bit_types(4) assms] not_not not_less by blast


definition left_types :: "u64 \<Rightarrow> u32 list \<Rightarrow> u64" where
  "left_types types vs = fold (\<lambda>v types. update_mask types v) vs types"

lemma left_bit:
  assumes "n < 64"
  shows "bit (left_types types vs) n \<longleftrightarrow> bit types n \<and> (n = 1 \<longrightarrow> list_all asn1_is_printable vs) \<and>
    (n = 4 \<longrightarrow> list_all (\<lambda>v. v \<le> 127) vs) \<and> (n = 2 \<longrightarrow> list_all (\<lambda>v. v \<le> 0xFF) vs) \<and> (n = 11 \<longrightarrow> list_all (\<lambda>v. v \<le> 0xFFFF) vs)"
proof (induction vs arbitrary: types)
  case (Cons v vs)
  have "left_types types (v # vs) = left_types (update_mask types v) vs" by (simp add: left_types_def)
  then show ?case
    by (simp only: Cons.IH [of "update_mask types v"] update_bit [OF assms] list.pred_inject) blast
qed (simp add: left_types_def)

lemma update_zero: "update_mask 0 v = 0"
  by (simp add: update_mask_def)

lemma left_zero: "left_types 0 vs = 0"
  by (induction vs) (simp_all add: left_types_def update_zero)

lemma output_pick:
  "case mb_pick types vs of
     None \<Rightarrow> output_form (left_types types vs) nchar utf8_len = None
   | Some t \<Rightarrow> \<exists>size. output_form (left_types types vs) nchar utf8_len = Some (t, form_of t, form_add (form_of t), size)"
  unfolding mb_pick_def mb_types_def output_form_def type_bit
  by (simp add: left_bit type_bit form_of_def form_add_def forms type_tags list.pred_True)

lemma pick_fits:
  assumes "mb_pick types vs = Some t" "\<forall>v\<in>set vs. form_valid inform v" "decode_func inform = Some d"
  shows "\<forall>v\<in>set vs. form_valid (form_of t) v" "left_types types vs \<noteq> 0"
proof -
  have "\<exists>n<64. bit (left_types types vs) n"
    using assms(1) unfolding mb_pick_def mb_types_def type_bit
    by (auto simp: left_bit type_bit split: if_splits intro: exI [of _ 1] exI [of _ 2] exI [of _ 4] exI [of _ 8] exI [of _ 11] exI [of _ 13])
  then show "left_types types vs \<noteq> 0" by auto
  have small: "form_valid inform v" if "unat v < 256" "is_valid_code_point v" for v
    using that by (simp add: form_valid_def)
  have low: "is_valid_code_point v" if "unat v < 256" for v
    using that by (simp add: valid_iff code_point_def)
  have any: "is_valid_code_point v" if "form_valid inform v" for v
    using that low by (auto simp: form_valid_def split: if_splits)
  show "\<forall>v\<in>set vs. form_valid (form_of t) v"
  proof
    fix v assume v: "v \<in> set vs"
    then have c: "is_valid_code_point v" using assms(2) any by blast
    have p: "asn1_is_printable v \<Longrightarrow> unat v < 256"
      by (auto simp: asn1_is_printable_def word_le_nat_alt word_less_nat_alt split: if_splits)
    show "form_valid (form_of t) v"
      using assms(1) v c p unfolding mb_pick_def mb_types_def
      by (auto simp: form_of_def form_valid_def forms type_tags list_all_iff word_le_nat_alt split: if_splits)
  qed
qed

definition has_bom :: "int \<Rightarrow> u32 list \<Rightarrow> bool" where
  "has_bom inform vs \<longleftrightarrow> wide inform \<and> (case vs of [] \<Rightarrow> False | v # _ \<Rightarrow> v = 0xFEFF)"

lemma scan_text_result:
  "unat k + length vs < 2 ^ 64 \<Longrightarrow>
   scan_text inform k l types vs =
     (if (k = 0 \<longrightarrow> \<not> has_bom inform vs) \<and> (vs = [] \<or> left_types types vs \<noteq> 0)
      then Inr (k + of_nat (length vs), l + sum_list (map cbb_get_utf8_len vs), left_types types vs)
      else Inl ILLEGAL_CHARACTERS)"
proof (induction vs arbitrary: k l types)
  case (Cons v vs)
  have "unat (k + 1) = unat k + 1" using Cons.prems by (simp add: unat_word_ariths)
  then have k: "unat (k + 1) + length vs < 2 ^ 64" "k + 1 \<noteq> 0" using Cons.prems by auto
  have left: "left_types types (v # vs) = left_types (update_mask types v) vs" by (simp add: left_types_def)
  show ?case
    unfolding left using Cons.IH [OF k(1), of "l + cbb_get_utf8_len v" "update_mask types v"] k(2) left_zero [of vs]
    by (auto simp: has_bom_def Let_def add.assoc left_types_def)
qed (simp add: left_types_def has_bom_def)


section \<open>The second pass\<close>

context text_form
begin

lemma loop_appends:
  assumes "value_writer (\<lambda>p _. add' p) code' valid'"
  shows "unat (cbs_len c) \<le> n \<Longrightarrow> cbs_bytes m c = concat (map code vs) \<Longrightarrow> \<forall>v\<in>set vs. valid v \<and> valid' v \<Longrightarrow>
    appends 1 {Suc p} p (transcode_loop n m f add' p c) (Some (concat (map code' vs), ()))"
proof (induction vs arbitrary: c n)
  case Nil
  then have "cbs_len c = 0" using length_cbs_bytes [of m c] by (simp add: unat_eq_zero)
  then show ?case by (simp add: transcode_loop.simps [of n] CBS_len_def appends_return)
next
  case (Cons w vs)
  from read_cases [of m c] show ?case
  proof cases
    case (1 v c')
    have "\<forall>v\<in>set (w # vs). valid v" using Cons.prems(3) by simp
    from text_front [OF Cons.prems(2) this 1(1)] have v: "v = w" "cbs_bytes m c' = concat (map code vs)" by simp_all
    obtain n' where n': "n = Suc n'" "unat (cbs_len c') \<le> n'" using 1(4) Cons.prems(1) by (cases n) auto
    have "CBS_len c \<noteq> 0" using 1(4) by (auto simp: CBS_len_def)
    then have loop: "transcode_loop n m f add' p c = mthen (add' p w) (transcode_loop n' m f add' p c')"
      using 1(1) v(1) n'(1) by (simp add: transcode_loop.simps [of "Suc n'"])
    have "writes 1 {Suc p} p (add' p w) (Some (code' w))"
      using value_writer.adds [OF assms, of p "Suc p" w] Cons.prems(3) by simp
    from appends_bind [OF writes_appends [OF this], of "\<lambda>_. transcode_loop n' m f add' p c'" "\<lambda>_. Some (concat (map code' vs), ())"]
    show ?thesis
      unfolding loop mthen_def using Cons.IH [OF n'(2) v(2)] Cons.prems(3) by simp
  next
    case 2
    then show ?thesis using Cons.prems(2,3) by auto
  qed
qed

end

text \<open>A run with the final zero.\<close>

definition transcode_run :: "nat \<Rightarrow> nat \<Rightarrow> mem \<Rightarrow> (mem \<Rightarrow> u32 reader) \<Rightarrow> (nat \<Rightarrow> u32 \<Rightarrow> unit builder) \<Rightarrow> u64 \<Rightarrow> cbs \<Rightarrow>
    (byte list \<times> u64) builder" where
  "transcode_run b p m decode encode cap cbs = mthen (CBB_init b p cap)
     (mbind (mthen (transcode_loop (unat (CBS_len cbs)) m decode encode p cbs) (CBB_add_u8 p 0))
       (\<lambda>_. mbind (CBB_finish p True) (\<lambda>(buf, len). mreturn (buf, len))))"

lemma transcode_by_run:
  "transcode b p dest free_out m decode encode estimate cbs st =
     (case transcode_run b p m decode encode (estimate + 1) cbs (str_cbb st) of
        Ok (data, data_len) h \<Rightarrow>
          let st = st\<lparr>str_cbb := h\<rparr> in
          if data_len < 1 \<or> 0x7FFFFFFF < data_len then mbstring_err p dest free_out INTERNAL_ERROR st
          else (case strings st dest of
              None \<Rightarrow> Undef
            | Some str \<Rightarrow> Ok () (set_string dest (Some (str\<lparr>str_length := uint (data_len - 1), str_data := Some data\<rparr>)) st))
      | Fail h \<Rightarrow> mbstring_err p dest free_out
          (case CBB_init b p (estimate + 1) (str_cbb st) of Fail _ \<Rightarrow> MALLOC_FAILURE | _ \<Rightarrow> INTERNAL_ERROR) (st\<lparr>str_cbb := h\<rparr>)
      | Undef \<Rightarrow> Undef
      | Fuel \<Rightarrow> Fuel)"
proof -
  have pair: "mbind fin (\<lambda>(buf, len). mreturn (buf, len)) h = fin h" for fin :: "(byte list \<times> u64) builder" and h
    by (cases "fin h") (auto simp: mbind_def)
  have "mbind (mthen l a) (\<lambda>_. mbind fin (\<lambda>(buf, len). mreturn (buf, len))) h = mthen l (mthen a fin) h"
    for l a :: "unit builder" and fin :: "(byte list \<times> u64) builder" and h
    by (cases "l h") (simp_all add: mthen_def mbind_def pair [unfolded mbind_def] split: outcome.split)
  then show ?thesis
    by (cases "CBB_init b p (estimate + 1) (str_cbb st)")
      (simp_all add: transcode_def transcode_run_def on_cbb_def mthen_simps Let_def split: outcome.split)
qed


text \<open>What a conversion that is served leaves, and what one that fails leaves.\<close>

lemma transcode_result:
  assumes forms: "decode_func inform = Some (decode, e)" "decode_func outform = Some d"
    and content: "is_text inform (cbs_bytes m c) vs" "\<forall>v\<in>set vs. form_valid outform v"
    and depth: "1 < flush_depth (str_cbb st)" and dest: "strings st dest = Some str"
  shows "case transcode b p dest free_out m decode (form_add outform) estimate c st of
      Ok _ st' \<Rightarrow> int (length (encoded outform vs)) < INT_MAX \<and> (\<exists>buf h. take (Suc (length (encoded outform vs))) buf = encoded outform vs @ [0] \<and>
        st' = set_string dest (Some (str\<lparr>str_length := int (length (encoded outform vs)), str_data := Some buf\<rparr>)) (st\<lparr>str_cbb := h\<rparr>))
    | Fail st' \<Rightarrow> (\<not> (\<forall>k. allocates (str_cbb st) k) \<or> INT_MAX \<le> int (length (encoded outform vs))) \<and>
        strings st' = (if free_out then (strings st)(dest := None) else strings st) \<and> str_out st' = str_out st
    | _ \<Rightarrow> False"
proof -
  let ?xs = "encoded outform vs" and ?run = "transcode_run b p m decode (form_add outform) (estimate + 1) c (str_cbb st)"
  obtain decode' e' where "d = (decode', e')" by (cases d)
  with forms(2) have out: "value_writer (\<lambda>p _. form_add outform p) (form_code outform) (form_valid outform)"
    using decode_form unfolding text_form_def codec_def by blast
  have bytes: "cbs_bytes m c = concat (map (form_code inform) vs)" "\<forall>v\<in>set vs. form_valid inform v \<and> form_valid outform v"
    using content by (simp_all add: is_text_def encoded_def)
  have "appends 1 {Suc p} p (transcode_loop (unat (CBS_len c)) m decode (form_add outform) p c) (Some (?xs, ()))"
    using text_form.loop_appends [OF decode_form [OF forms(1)] out _ bytes, of "unat (CBS_len c)" p]
    by (simp add: CBS_len_def encoded_def)
  from appends_bind [OF this, of "\<lambda>_. CBB_add_u8 p 0" "\<lambda>_. Some ([0], ())"] writes_appends [OF u8_writes, of 1 "{Suc p}" p 0]
  have "appends 1 {Suc p} p (mthen (transcode_loop (unat (CBS_len c)) m decode (form_add outform) p c) (CBB_add_u8 p 0)) (Some (?xs @ [0], ()))"
    by (simp add: mthen_def)
  from run_appends [OF this depth, where b = b and cap = "estimate + 1" and g = "\<lambda>_ buf len. (buf, len)"]
  have run: "case ?run of
      Ok (buf, len) h' \<Rightarrow> unat len = Suc (length ?xs) \<and> take (Suc (length ?xs)) buf = ?xs @ [0]
    | Fail h' \<Rightarrow> \<not> (\<forall>k. allocates (str_cbb st) k) \<or> 2 ^ 64 \<le> Suc (length ?xs)
    | _ \<Rightarrow> False"
    unfolding transcode_run_def by (auto split: outcome.splits)
  show ?thesis
  proof (cases ?run)
    case (Ok x h)
    obtain buf len where x: "x = (buf, len)" by (cases x)
    with run Ok have r: "unat len = Suc (length ?xs)" "take (Suc (length ?xs)) buf = ?xs @ [0]" by simp_all
    have small: "\<not> len < 1" using r(1) by (simp add: word_less_nat_alt)
    have big: "0x7FFFFFFF < len \<longleftrightarrow> INT_MAX \<le> int (length ?xs)" using r(1) by (simp add: word_less_nat_alt INT_MAX_def) linarith
    have "uint (len - 1) = int (length ?xs)" using r(1) by (simp add: uint_nat unat_sub word_le_nat_alt)
    then show ?thesis
      using r(2) Ok x small big dest
      by (auto simp: transcode_by_run Let_def mbstring_err_def put_error_def ASN1_STRING_free_def not_less)
  next
    case (Fail h)
    then show ?thesis
      using run by (auto simp: transcode_by_run Let_def mbstring_err_def put_error_def ASN1_STRING_free_def INT_MAX_def)
  qed (use run in simp_all)
qed


section \<open>What the conversion accepts\<close>

definition within :: "int \<Rightarrow> int \<Rightarrow> nat \<Rightarrow> bool" where
  "within minsize maxsize n \<longleftrightarrow> (0 < minsize \<longrightarrow> minsize \<le> int n) \<and> (0 < maxsize \<longrightarrow> int n \<le> maxsize)"

text \<open>The input is this text, of a permitted size and without a byte-order mark, and \<open>t\<close> is its type.\<close>

definition mb_accepts :: "mem \<Rightarrow> addr \<Rightarrow> int \<Rightarrow> int \<Rightarrow> u64 \<Rightarrow> int \<Rightarrow> int \<Rightarrow> u32 list \<Rightarrow> int \<Rightarrow> bool" where
  "mb_accepts m inp len inform types minsize maxsize vs t \<longleftrightarrow>
     inform \<in> {MBSTRING_BMP, MBSTRING_UNIV, MBSTRING_UTF8, MBSTRING_ASC} \<and> is_text inform (mem_bytes m inp (nat len)) vs \<and>
     \<not> has_bom inform vs \<and> within minsize maxsize (length vs) \<and>
     mb_pick (if types = 0 then DIRSTRING_TYPE else types) vs = Some t"

lemma length_encoded:
  assumes "decode_func inform = Some d"
  shows "length vs \<le> length (encoded inform vs)"
proof -
  obtain decode e where "d = (decode, e)" by (cases d)
  then have ne: "0 < length (form_code inform v)" for v
    using text_form.code_ne [OF decode_form] assms by simp
  show ?thesis
  proof (induction vs)
    case (Cons v vs)
    have "length (encoded inform (v # vs)) = length (form_code inform v) + length (encoded inform vs)"
      by (simp add: encoded_def)
    with Cons ne [of v] show ?case by (simp del: length_greater_0_conv)
  qed simp
qed

lemma unat_len: "0 \<le> len \<Longrightarrow> len \<le> INT_MAX \<Longrightarrow> unat (word_of_int len :: u64) = nat len"
  by (simp add: INT_MAX_def unat_eq_nat_uint uint_word_of_int)

lemma size_limits:
  assumes "minsize < 2 ^ 63" "maxsize < 2 ^ 63" "n < 2 ^ 63"
  shows "\<not> (0 < minsize \<and> (of_nat n :: u64) < word_of_int minsize) \<and> \<not> (0 < maxsize \<and> word_of_int maxsize < (of_nat n :: u64))
    \<longleftrightarrow> within minsize maxsize n"
proof -
  have "uint (word_of_int k :: u64) = k" if "0 < k" "k < 2 ^ 63" for k
    using that by (simp add: uint_word_of_int)
  moreover have "uint (of_nat n :: u64) = int n" using assms(3) by (simp add: uint_word_of_int uint_nat unat_of_nat_addr)
  ultimately show ?thesis using assms(1,2) by (auto simp: within_def word_less_def)
qed

text \<open>What follows for a text of type \<open>t\<close>.\<close>

definition mb_finish :: "nat \<Rightarrow> nat \<Rightarrow> nat \<Rightarrow> mem \<Rightarrow> addr \<Rightarrow> int \<Rightarrow> int \<Rightarrow> int \<Rightarrow> (mem \<Rightarrow> u32 reader) \<Rightarrow> u64 \<Rightarrow> int str_op" where
  "mb_finish b p s m inp len inform t decode estimate =
     mbind (prepare_dest s t) (\<lambda>(dest, free_out).
       if inform = form_of t then
         (\<lambda>st. case ASN1_STRING_set dest m inp len st of
            Ok _ st \<Rightarrow> Ok t st
          | Fail st \<Rightarrow> put_error MALLOC_FAILURE st
          | Undef \<Rightarrow> Undef
          | Fuel \<Rightarrow> Fuel)
       else mthen (transcode b p dest free_out m decode (form_add (form_of t)) estimate (CBS_init inp (word_of_int len)))
         (mreturn t))"

lemma ncopy_code:
  assumes "len \<noteq> -1" "decode_func inform = Some (decode, e)"
  shows "ASN1_mbstring_ncopy b p s m wants inp len inform types minsize maxsize st =
    (let c = CBS_init inp (word_of_int len) in
     case scan_loop (unat (CBS_len c)) m inform decode e c 0 0 (if types = 0 then DIRSTRING_TYPE else types) of
       None \<Rightarrow> Fuel
     | Some (Inl e) \<Rightarrow> put_error e st
     | Some (Inr (nchar, utf8_len, types)) \<Rightarrow>
         if 0 < minsize \<and> nchar < word_of_int minsize then put_error STRING_TOO_SHORT st
         else if 0 < maxsize \<and> word_of_int maxsize < nchar then put_error STRING_TOO_LONG st
         else (case output_form types nchar utf8_len of
             None \<Rightarrow> put_error ILLEGAL_CHARACTERS st
           | Some (t, outform, encode, estimate) \<Rightarrow>
               if \<not> wants then Ok t st
               else mbind (prepare_dest s t) (\<lambda>(dest, free_out).
                 if inform = outform then (\<lambda>st. case ASN1_STRING_set dest m inp len st of
                    Ok _ st \<Rightarrow> Ok t st | Fail st \<Rightarrow> put_error MALLOC_FAILURE st | Undef \<Rightarrow> Undef | Fuel \<Rightarrow> Fuel)
                 else mthen (transcode b p dest free_out m decode encode estimate c) (mreturn t)) st))"
  using assms by (simp add: ASN1_mbstring_ncopy_def Let_def)

text \<open>What the first pass finds.\<close>

lemma scan_input:
  fixes inp :: addr and m :: mem
  assumes d: "decode_func inform = Some (decode, e)" and len: "0 \<le> len" "len \<le> INT_MAX"
  defines "c \<equiv> CBS_init inp (word_of_int len)" and "bs \<equiv> mem_bytes m inp (nat len)"
  shows "\<nexists>vs. is_text inform bs vs \<Longrightarrow> \<exists>e'. scan_loop (unat (CBS_len c)) m inform decode e c 0 0 types = Some (Inl e')"
    and "is_text inform bs vs \<Longrightarrow> scan_loop (unat (CBS_len c)) m inform decode e c 0 0 types =
      Some (if \<not> has_bom inform vs \<and> (vs = [] \<or> left_types types vs \<noteq> 0)
        then Inr (of_nat (length vs), sum_list (map cbb_get_utf8_len vs), left_types types vs) else Inl ILLEGAL_CHARACTERS)"
    and "is_text inform bs vs \<Longrightarrow> length vs < 2 ^ 63"
    and "is_text inform bs vs \<Longrightarrow> is_text inform bs ws \<Longrightarrow> ws = vs"
proof -
  note form = decode_form [OF d]
  let ?scan = "scan_loop (unat (CBS_len c)) m inform decode e c 0 0 types"
  have bytes: "cbs_bytes m c = bs" "length bs = nat len" "unat (cbs_len c) = nat len"
    using unat_len [OF len] by (simp_all add: cbs_bytes_def CBS_init_def c_def bs_def)
  show "\<exists>e'. ?scan = Some (Inl e')" if none: "\<nexists>vs. is_text inform bs vs"
  proof -
    have no: "?scan \<noteq> Some (Inr r)" for r
    proof
      assume "?scan = Some (Inr r)"
      from text_form.scan_accepts [OF form this] none show False
        unfolding bytes is_text_def encoded_def by blast
    qed
    have "?scan \<noteq> None" using text_form.scan_ends [OF form] by (simp add: CBS_len_def)
    then show ?thesis using no by (metis not_None_eq obj_sumE)
  qed
  show short: "length vs < 2 ^ 63" if vs: "is_text inform bs vs" for vs
  proof -
    have "length (encoded inform vs) = nat len" using vs bytes(2) by (simp add: is_text_def)
    then show ?thesis using length_encoded [OF d, of vs] len by (simp add: INT_MAX_def)
  qed
  show "?scan = Some (if \<not> has_bom inform vs \<and> (vs = [] \<or> left_types types vs \<noteq> 0)
      then Inr (of_nat (length vs), sum_list (map cbb_get_utf8_len vs), left_types types vs) else Inl ILLEGAL_CHARACTERS)"
    if vs: "is_text inform bs vs"
  proof -
    have "?scan = Some (scan_text inform 0 0 types vs)"
      using text_form.scan_reads [OF form, of c "unat (CBS_len c)" m vs] vs bytes(1) by (simp add: is_text_def encoded_def CBS_len_def)
    then show ?thesis using scan_text_result [of 0 vs inform 0 types] short [OF vs] by simp
  qed
  show "ws = vs" if "is_text inform bs vs" "is_text inform bs ws"
  proof -
    have "encoded inform ws = encoded inform vs" "length (encoded inform ws) < 2 ^ 64"
      using that len bytes(2) by (auto simp: is_text_def INT_MAX_def)
    then show ?thesis using text_form.text_unique [OF form, of ws vs] that by (simp add: is_text_def encoded_def)
  qed
qed

text \<open>An accepted input goes on to the destination; any other one is an error that changes nothing else.\<close>

lemma ncopy_accepts:
  assumes len: "0 \<le> len" "len \<le> INT_MAX" and sizes: "minsize < 2 ^ 63" "maxsize < 2 ^ 63"
    and acc: "mb_accepts m inp len inform types minsize maxsize vs t"
  shows "\<exists>decode e estimate. decode_func inform = Some (decode, e) \<and>
    ASN1_mbstring_ncopy b p s m wants inp len inform types minsize maxsize st =
      (if wants then mb_finish b p s m inp len inform t decode estimate st else Ok t st)"
proof -
  obtain decode e where d: "decode_func inform = Some (decode, e)" using acc form_exists by (auto simp: mb_accepts_def)
  let ?types = "if types = 0 then DIRSTRING_TYPE else types"
  have vs: "is_text inform (mem_bytes m inp (nat len)) vs" and pick: "mb_pick ?types vs = Some t" "within minsize maxsize (length vs)"
    "\<not> has_bom inform vs" using acc by (simp_all add: mb_accepts_def)
  have "\<forall>v\<in>set vs. form_valid inform v" using vs by (simp add: is_text_def)
  note left = pick_fits(2) [OF pick(1) this d]
  let ?n = "of_nat (length vs) :: u64" and ?u = "sum_list (map cbb_get_utf8_len vs)"
  obtain estimate where out: "output_form (left_types ?types vs) ?n ?u = Some (t, form_of t, form_add (form_of t), estimate)"
    using output_pick [of ?types vs ?n ?u] pick(1) by auto
  have "\<not> (0 < minsize \<and> ?n < word_of_int minsize)" "\<not> (0 < maxsize \<and> word_of_int maxsize < ?n)"
    using pick(2) [folded size_limits [OF sizes scan_input(3) [OF d len vs]]] by blast+
  note sz = this [THEN eq_False [THEN iffD2]]
  have len1: "len \<noteq> -1" using len by simp
  have "ASN1_mbstring_ncopy b p s m wants inp len inform types minsize maxsize st =
      (if wants then mb_finish b p s m inp len inform t decode estimate st else Ok t st)"
    unfolding ncopy_code [OF len1 d] Let_def scan_input(2) [OF d len vs]
    using left pick(3) by (cases wants) (simp_all only: option.case sum.case prod.case if_True if_False mb_finish_def simp_thms sz out)
  with d show ?thesis by blast
qed

lemma ncopy_rejects:
  assumes len: "0 \<le> len" "len \<le> INT_MAX" and sizes: "minsize < 2 ^ 63" "maxsize < 2 ^ 63"
    and rej: "\<nexists>vs t. mb_accepts m inp len inform types minsize maxsize vs t"
  shows "\<exists>e. ASN1_mbstring_ncopy b p s m wants inp len inform types minsize maxsize st = put_error e st"
proof (cases "decode_func inform")
  case None
  then show ?thesis using len by (auto simp: ASN1_mbstring_ncopy_def Let_def)
next
  case (Some x)
  obtain decode e where d: "decode_func inform = Some (decode, e)" using Some by (cases x) auto
  let ?types = "if types = 0 then DIRSTRING_TYPE else types"
  have len1: "len \<noteq> -1" using len by simp
  note code = ncopy_code [OF len1 d, unfolded Let_def]
  show ?thesis
  proof (cases "\<exists>vs. is_text inform (mem_bytes m inp (nat len)) vs")
    case False
    then show ?thesis using scan_input(1) [OF d len, where m = m and inp = inp and types = ?types] unfolding code by auto
  next
    case True
    then obtain vs where vs: "is_text inform (mem_bytes m inp (nat len)) vs" by blast
    let ?n = "of_nat (length vs) :: u64" and ?u = "sum_list (map cbb_get_utf8_len vs)"
    note scan = scan_input(2) [OF d len vs, of ?types] and size = size_limits [OF sizes scan_input(3) [OF d len vs]]
    have "inform \<in> {MBSTRING_BMP, MBSTRING_UNIV, MBSTRING_UTF8, MBSTRING_ASC}" using d form_exists by auto
    then consider "has_bom inform vs \<or> \<not> (vs = [] \<or> left_types ?types vs \<noteq> 0)" | "\<not> within minsize maxsize (length vs)"
      | "mb_pick ?types vs = None"
      using rej vs unfolding mb_accepts_def by (metis not_None_eq)
    then show ?thesis
    proof cases
      case 1
      then show ?thesis unfolding code scan by auto
    next
      case 2
      then have "(0 < minsize \<and> ?n < word_of_int minsize) \<or> (0 < maxsize \<and> word_of_int maxsize < ?n)"
        unfolding size [symmetric] by blast
      then show ?thesis unfolding code scan by auto
    next
      case 3
      then have "output_form (left_types ?types vs) ?n ?u = None" using output_pick [of ?types vs ?n ?u] by simp
      then show ?thesis unfolding code scan by auto
    qed
  qed
qed

end
