(* ===== verification/ASN1_Spec.thy ===== *)
theory ASN1_Spec
  imports ASN1_Text
begin

unbundle bit_operations_syntax

text \<open>
  What \<open>a_mbstr.c\<close> promises: the type that it picks, the content of the string, that every text is
  delivered where the allocator serves, and that a string read as UTF-8 gives the text back. And what it
  does not keep: after a failed conversion \<open>*out\<close> points to a released string.
\<close>

section \<open>The destination\<close>

definition out_live :: "str_state \<Rightarrow> bool" where
  "out_live st \<longleftrightarrow> (case str_out st of None \<Rightarrow> True | Some d \<Rightarrow> strings st d \<noteq> None)"

definition out_cell :: "nat \<Rightarrow> str_state \<Rightarrow> nat" where
  "out_cell s st = (case str_out st of None \<Rightarrow> s | Some d \<Rightarrow> d)"

text \<open>The string holds these bytes, and a zero behind them.\<close>

definition holds :: "asn1_string \<Rightarrow> byte list \<Rightarrow> bool" where
  "holds str bs \<longleftrightarrow> str_length str = int (length bs) \<and> (\<exists>buf. str_data str = Some buf \<and> take (Suc (length bs)) buf = bs @ [0])"

lemma prepare_result:
  assumes "out_live st"
  shows "case prepare_dest s t st of
      Ok (d, free_out) st1 \<Rightarrow> d = out_cell s st \<and> free_out = (str_out st = None) \<and> str_out st1 = Some d \<and> str_cbb st1 = str_cbb st \<and>
        (\<exists>str. strings st1 = (strings st)(d \<mapsto> str) \<and> str_data str = None \<and> str_type str = t)
    | Fail st1 \<Rightarrow> str_out st = None \<and> \<not> allocates (str_cbb st) 24
    | _ \<Rightarrow> False"
proof (cases "str_out st")
  case None
  then show ?thesis
    by (auto simp: prepare_dest_def ASN1_STRING_type_new_def put_error_def out_cell_def
        intro: exI [of _ "\<lparr>str_length = 0, str_type = t, str_data = None, str_flags = 0\<rparr>"])
next
  case (Some d)
  with assms obtain str where "strings st d = Some str" by (auto simp: out_live_def)
  then show ?thesis using Some by (auto simp: prepare_dest_def out_cell_def Let_def)
qed

lemma set_result:
  assumes "strings st d = Some str" "str_data str = None" "0 \<le> len" "len < INT_MAX" "inp \<noteq> 0"
  shows "case ASN1_STRING_set d m inp len st of
      Ok _ st' \<Rightarrow> \<exists>str'. st' = st\<lparr>strings := (strings st)(d \<mapsto> str')\<rparr> \<and> str_type str' = str_type str \<and> holds str' (mem_bytes m inp (nat len))
    | Fail st' \<Rightarrow> \<not> allocates (str_cbb st) (word_of_int (len + 1))
    | _ \<Rightarrow> False"
proof -
  have "take (Suc (nat len)) (mem_bytes m inp (nat len) @ 0 # xs) = mem_bytes m inp (nat len) @ [0]" for xs by simp
  then show ?thesis
    using assms by (auto simp: ASN1_STRING_set_def Let_def put_error_def holds_def)
qed

text \<open>An accepted text is delivered, or the allocator has refused, or the string would be too long.\<close>

lemma finish_result:
  assumes len: "0 \<le> len" "len < INT_MAX" and acc: "mb_accepts m inp len inform types minsize maxsize vs t"
    and d: "decode_func inform = Some (decode, e)" and depth: "1 < flush_depth (str_cbb st)"
    and out: "out_live st" "inp \<noteq> 0"
  shows "case mb_finish b p s m inp len inform t decode estimate st of
      Ok t' st' \<Rightarrow> t' = t \<and> str_out st' = Some (out_cell s st) \<and> (\<exists>str. strings st' = (strings st)(out_cell s st \<mapsto> str) \<and>
        str_type str = t \<and> holds str (encoded (form_of t) vs))
    | Fail st' \<Rightarrow> \<not> (\<forall>k. allocates (str_cbb st) k) \<or> INT_MAX \<le> int (length (encoded (form_of t) vs))
    | _ \<Rightarrow> False"
proof -
  have content: "is_text inform (mem_bytes m inp (nat len)) vs" and pick: "mb_pick (if types = 0 then DIRSTRING_TYPE else types) vs = Some t"
    using acc by (simp_all add: mb_accepts_def)
  then have valid: "\<forall>v\<in>set vs. form_valid (form_of t) v" using pick_fits(1) [OF pick _ d] by (simp add: is_text_def)
  note prep = prepare_result [OF out(1), of s t]
  show ?thesis
  proof (cases "prepare_dest s t st")
    case (Ok x st1)
    obtain dest free_out where x: "x = (dest, free_out)" by (cases x)
    with prep Ok obtain str where p: "dest = out_cell s st" "str_out st1 = Some dest" "str_cbb st1 = str_cbb st"
      "strings st1 = (strings st)(dest \<mapsto> str)" "str_data str = None" "str_type str = t" by auto
    have cell: "strings st1 dest = Some str" using p(4) by simp
    show ?thesis
    proof (cases "inform = form_of t")
      case True
      have "encoded (form_of t) vs = mem_bytes m inp (nat len)" using content True by (simp add: is_text_def)
      then show ?thesis
        using set_result [OF cell p(5) len out(2), of m] Ok x p True
        by (cases "ASN1_STRING_set dest m inp len st1") (auto simp: mb_finish_def mbind_def put_error_def)
    next
      case False
      have "form_of t \<in> {MBSTRING_BMP, MBSTRING_UNIV, MBSTRING_UTF8, MBSTRING_ASC}" by (simp add: form_of_def)
      then obtain d' where d': "decode_func (form_of t) = Some d'" using form_exists by auto
      have bytes: "cbs_bytes m (CBS_init inp (word_of_int len)) = mem_bytes m inp (nat len)"
        using unat_len [of len] len by (simp add: cbs_bytes_def CBS_init_def)
      have depth1: "1 < flush_depth (str_cbb st1)" using depth p(3) by simp
      note tr = transcode_result [OF d d' _ valid depth1 cell, where m = m and c = "CBS_init inp (word_of_int len)", unfolded bytes, OF content,
          where b = b and p = p and free_out = free_out and estimate = estimate]
      show ?thesis
        using tr Ok x p False
        by (cases "transcode b p dest free_out m decode (form_add (form_of t)) estimate (CBS_init inp (word_of_int len)) st1")
          (auto simp: mb_finish_def mbind_def mthen_def holds_def)
    qed
  next
    case (Fail st1)
    then show ?thesis using prep by (auto simp: mb_finish_def mbind_def)
  qed (use prep in simp_all)
qed

section \<open>The type\<close>

lemma type_exact:
  assumes "0 \<le> len" "len \<le> INT_MAX" "minsize < 2 ^ 63" "maxsize < 2 ^ 63"
  shows "(\<exists>st'. ASN1_mbstring_ncopy b p s m False inp len inform types minsize maxsize st = Ok t st') \<longleftrightarrow>
    (\<exists>vs. mb_accepts m inp len inform types minsize maxsize vs t)"
proof (cases "\<exists>vs t. mb_accepts m inp len inform types minsize maxsize vs t")
  case True
  then obtain vs t' where acc: "mb_accepts m inp len inform types minsize maxsize vs t'" by blast
  have run: "ASN1_mbstring_ncopy b p s m False inp len inform types minsize maxsize st = Ok t'' st"
    if "mb_accepts m inp len inform types minsize maxsize ws t''" for ws t''
    using ncopy_accepts [OF assms that, of b p s False st] unfolding if_False by blast
  show ?thesis using run acc by (metis outcome.inject(1))
next
  case False
  then show ?thesis
    using ncopy_rejects [OF assms, of m inp inform types b p s False st] by (auto simp: put_error_def)
qed


definition str_store :: str_state where
  "str_store = \<lparr>str_cbb = text_store, strings = (\<lambda>_. None), str_out = None, str_errors = []\<rparr>"

text \<open>C29. Where only the type is asked for, the conversion returns \<open>t\<close> exactly if the input is a text of the
  stated encoding, without a byte-order mark, of a permitted size, and \<open>t\<close> is the first type in the order
  PrintableString, IA5String, T61String, BMPString, UniversalString, UTF8String that the mask permits and
  that has all of its code points; an empty mask stands for a DirectoryString.\<close>

theorem mbstring_type_exact:
  assumes "0 \<le> len" "len \<le> INT_MAX" "minsize < 2 ^ 63" "maxsize < 2 ^ 63"
  shows "(\<exists>st'. ASN1_mbstring_ncopy b p s m False inp len inform types minsize maxsize st = Ok t st') \<longleftrightarrow>
    (\<exists>vs. mb_accepts m inp len inform types minsize maxsize vs t)"
  using type_exact [OF assms] .

theorem mbstring_type_exact_witness:
  "\<exists>st'. ASN1_mbstring_ncopy 0 1 7 (data_mem (Some [0x61, 0xC3, 0xA9])) False 1 3 MBSTRING_UTF8 0 1 64 str_store = Ok V_ASN1_T61STRING st'"
proof -
  have "mb_accepts (data_mem (Some [0x61, 0xC3, 0xA9])) 1 3 MBSTRING_UTF8 0 1 64 [0x61, 0xE9] V_ASN1_T61STRING"
    by code_simp
  then have "\<exists>vs. mb_accepts (data_mem (Some [0x61, 0xC3, 0xA9])) 1 3 MBSTRING_UTF8 0 1 64 vs V_ASN1_T61STRING" by blast
  moreover have "(0 :: int) \<le> 3" "(3 :: int) \<le> INT_MAX" "(1 :: int) < 2 ^ 63" "(64 :: int) < 2 ^ 63" by (simp_all add: INT_MAX_def)
  ultimately show ?thesis using mbstring_type_exact by blast
qed

section \<open>The content\<close>

lemma returned_content:
  assumes "0 \<le> len" "len < INT_MAX" "minsize < 2 ^ 63" "maxsize < 2 ^ 63" "1 < flush_depth (str_cbb st)" "out_live st" "inp \<noteq> 0"
    "ASN1_mbstring_ncopy b p s m True inp len inform types minsize maxsize st = Ok t st'"
  shows "\<exists>vs str. mb_accepts m inp len inform types minsize maxsize vs t \<and> str_out st' = Some (out_cell s st) \<and>
    strings st' = (strings st)(out_cell s st \<mapsto> str) \<and> str_type str = t \<and> holds str (encoded (form_of t) vs)"
proof -
  have le: "len \<le> INT_MAX" using assms(2) by simp
  obtain vs t' where acc: "mb_accepts m inp len inform types minsize maxsize vs t'"
    using ncopy_rejects [OF assms(1) le assms(3,4), of m inp inform types b p s True st] assms(8) by (auto simp: put_error_def)
  from ncopy_accepts [OF assms(1) le assms(3,4) acc, of b p s True st] obtain decode e estimate where
    d: "decode_func inform = Some (decode, e)" "mb_finish b p s m inp len inform t' decode estimate st = Ok t st'"
    using assms(8) by auto
  from finish_result [OF assms(1,2) acc d(1) assms(5-7), where b = b and p = p and s = s and estimate = estimate] acc show ?thesis unfolding d(2) by auto
qed

text \<open>C30. Whenever a conversion succeeds, whatever the allocator did, the string at \<open>*out\<close> has the type that is
  returned, its bytes are the text of the input in the encoding of that type, a zero stands behind them,
  and no other string has changed.\<close>

theorem mbstring_content:
  assumes "0 \<le> len" "len < INT_MAX" "minsize < 2 ^ 63" "maxsize < 2 ^ 63" "1 < flush_depth (str_cbb st)" "out_live st" "inp \<noteq> 0"
    "ASN1_mbstring_ncopy b p s m True inp len inform types minsize maxsize st = Ok t st'"
  shows "\<exists>vs str. mb_accepts m inp len inform types minsize maxsize vs t \<and> str_out st' = Some (out_cell s st) \<and>
    strings st' = (strings st)(out_cell s st \<mapsto> str) \<and> str_type str = t \<and> holds str (encoded (form_of t) vs)"
  using returned_content [OF assms] .

lemma accepted_delivered:
  assumes "0 \<le> len" "len < INT_MAX" "minsize < 2 ^ 63" "maxsize < 2 ^ 63" "1 < flush_depth (str_cbb st)" "out_live st" "inp \<noteq> 0"
    "mb_accepts m inp len inform types minsize maxsize vs t" "\<forall>k. allocates (str_cbb st) k"
    "int (length (encoded (form_of t) vs)) < INT_MAX"
  shows "\<exists>st' str. ASN1_mbstring_ncopy b p s m True inp len inform types minsize maxsize st = Ok t st' \<and>
    str_out st' = Some (out_cell s st) \<and> strings st' (out_cell s st) = Some str \<and> str_type str = t \<and>
    holds str (encoded (form_of t) vs)"
proof -
  have le: "len \<le> INT_MAX" using assms(2) by simp
  from ncopy_accepts [OF assms(1) le assms(3,4,8), of b p s True st] obtain decode e estimate where
    d: "decode_func inform = Some (decode, e)" "ASN1_mbstring_ncopy b p s m True inp len inform types minsize maxsize st =
      mb_finish b p s m inp len inform t decode estimate st" by auto
  from finish_result [OF assms(1,2,8) d(1) assms(5-7), where b = b and p = p and s = s and estimate = estimate] assms(9,10) show ?thesis
    unfolding d(2) by (cases "mb_finish b p s m inp len inform t decode estimate st") auto
qed

text \<open>C31. Where the allocator serves, every text that is accepted is delivered: the conversion returns its type and
  leaves its string at \<open>*out\<close>, as long as the string is not longer than an \<open>int\<close> can say.\<close>

theorem mbstring_delivers:
  assumes "0 \<le> len" "len < INT_MAX" "minsize < 2 ^ 63" "maxsize < 2 ^ 63" "1 < flush_depth (str_cbb st)" "out_live st" "inp \<noteq> 0"
    "mb_accepts m inp len inform types minsize maxsize vs t" "\<forall>k. allocates (str_cbb st) k"
    "int (length (encoded (form_of t) vs)) < INT_MAX"
  shows "\<exists>st' str. ASN1_mbstring_ncopy b p s m True inp len inform types minsize maxsize st = Ok t st' \<and>
    str_out st' = Some (out_cell s st) \<and> strings st' (out_cell s st) = Some str \<and> str_type str = t \<and>
    holds str (encoded (form_of t) vs)"
  using accepted_delivered [OF assms] by blast

theorem mbstring_content_witness:
  "\<exists>st' vs str. ASN1_mbstring_ncopy 0 1 7 (data_mem (Some [0x61, 0xC3, 0xA9])) True 1 3 MBSTRING_UTF8 B_ASN1_UTF8STRING 1 64 str_store = Ok 12 st' \<and>
    mb_accepts (data_mem (Some [0x61, 0xC3, 0xA9])) 1 3 MBSTRING_UTF8 B_ASN1_UTF8STRING 1 64 vs 12 \<and>
    strings st' 7 = Some str \<and> holds str (encoded (form_of 12) vs)"
proof -
  have "case ASN1_mbstring_ncopy 0 1 7 (data_mem (Some [0x61, 0xC3, 0xA9])) True 1 3 MBSTRING_UTF8 B_ASN1_UTF8STRING 1 64 str_store of
      Ok t st' \<Rightarrow> t = 12 | _ \<Rightarrow> False" by code_simp
  then obtain st' where run: "ASN1_mbstring_ncopy 0 1 7 (data_mem (Some [0x61, 0xC3, 0xA9])) True 1 3 MBSTRING_UTF8 B_ASN1_UTF8STRING 1 64 str_store = Ok 12 st'"
    by (auto split: outcome.splits)
  have "out_live str_store" "1 < flush_depth (str_cbb str_store)" "out_cell 7 str_store = 7"
    by (simp_all add: str_store_def text_store_def out_live_def out_cell_def)
  with mbstring_content [OF _ _ _ _ _ _ _ run] run show ?thesis by (auto simp: INT_MAX_def)
qed

theorem mbstring_delivers_witness:
  "\<exists>st' str. ASN1_mbstring_ncopy 0 1 7 (data_mem (Some [0x61, 0xC3, 0xA9])) True 1 3 MBSTRING_UTF8 B_ASN1_BMPSTRING 1 64 str_store = Ok 30 st' \<and>
    strings st' 7 = Some str \<and> holds str [0, 0x61, 0, 0xE9]"
proof -
  have "mb_accepts (data_mem (Some [0x61, 0xC3, 0xA9])) 1 3 MBSTRING_UTF8 B_ASN1_BMPSTRING 1 64 [0x61, 0xE9] 30" by code_simp
  moreover have "encoded (form_of 30) [0x61, 0xE9] = [0, 0x61, 0, 0xE9]" by code_simp
  moreover have "1 < flush_depth (str_cbb str_store)" "out_live str_store" "\<forall>k. allocates (str_cbb str_store) k" "out_cell 7 str_store = 7"
    by (simp_all add: str_store_def text_store_def out_live_def out_cell_def)
  ultimately show ?thesis
    using mbstring_delivers [of 3 1 64 str_store 1 "data_mem (Some [0x61, 0xC3, 0xA9])" MBSTRING_UTF8 B_ASN1_BMPSTRING "[0x61, 0xE9]" 30 0 1 7]
    by (auto simp: INT_MAX_def)
qed


section \<open>Back to UTF-8\<close>

lemma pick_types:
  assumes "mb_pick types vs = Some t"
  shows "t \<in> {V_ASN1_PRINTABLESTRING, V_ASN1_IA5STRING, V_ASN1_T61STRING, V_ASN1_BMPSTRING, V_ASN1_UNIVERSALSTRING, V_ASN1_UTF8STRING}"
proof -
  obtain x where x: "List.find (\<lambda>(bit, t, fits). types AND bit \<noteq> 0 \<and> list_all fits vs) mb_types = Some x" "fst (snd x) = t"
    using assms by (auto simp: mb_pick_def)
  then have "x \<in> set mb_types" unfolding find_Some_iff by (auto simp: in_set_conv_nth)
  then show ?thesis using x(2) by (auto simp: mb_types_def)
qed

lemma tag_form:
  assumes "mb_pick types vs = Some t"
  shows "0 \<le> t" "t \<le> 30" "tag2nbyte ! nat t \<noteq> -1" "or (tag2nbyte ! nat t) MBSTRING_FLAG = form_of t"
  using pick_types [OF assms] by (auto simp: type_tags tag2nbyte_def form_of_def forms)

lemma data_bytes:
  assumes "n \<le> length buf" "n < 2 ^ 63"
  shows "mem_bytes (data_mem (Some buf)) 1 n = take n buf"
proof (rule nth_equalityI)
  fix i assume i: "i < length (mem_bytes (data_mem (Some buf)) 1 n)"
  then have "unat (1 + of_nat i :: addr) = Suc i" using assms by (simp add: unat_word_ariths unat_of_nat_addr)
  moreover from this have "(0 :: addr) < 1 + of_nat i" by (metis unat_eq_zero word_greater_zero_iff nat.distinct(1))
  ultimately show "mem_bytes (data_mem (Some buf)) 1 n ! i = take n buf ! i"
    using i assms(1) by (simp add: data_mem_def)
qed (use assms in simp)

text \<open>The bytes of a string as the input of the next conversion.\<close>

lemma to_utf8_code:
  assumes "strings st inp = Some str" "0 \<le> str_type str" "str_type str \<le> 30" "tag2nbyte ! nat (str_type str) \<noteq> -1"
    "stmp \<noteq> inp" "str_data str = Some buf"
  shows "ASN1_STRING_to_UTF8 b p stmp (Some inp) st =
    (case ASN1_mbstring_ncopy b p stmp (data_mem (Some buf)) True 1 (str_length str) (or (tag2nbyte ! nat (str_type str)) MBSTRING_FLAG)
        B_ASN1_UTF8STRING 0 0 (st\<lparr>strings := (strings st)(stmp := Some \<lparr>str_length = 0, str_type = 0, str_data = None, str_flags = 0\<rparr>), str_out := Some stmp\<rparr>) of
       Ok _ st2 \<Rightarrow> (case strings st2 stmp of None \<Rightarrow> Undef | Some tmp \<Rightarrow> Ok (str_data tmp, str_length tmp) (st2\<lparr>str_out := str_out st\<rparr>))
     | Fail st2 \<Rightarrow> Fail (st2\<lparr>str_out := str_out st\<rparr>)
     | Undef \<Rightarrow> Undef
     | Fuel \<Rightarrow> Fuel)"
  using assms by (simp add: ASN1_STRING_to_UTF8_def Let_def ASN1_mbstring_copy_def data_addr_def)

lemma utf8_pick: "mb_pick B_ASN1_UTF8STRING vs = Some V_ASN1_UTF8STRING"
  by (simp add: mb_pick_def mb_types_def type_bits list.pred_True)

lemma holds_buffer:
  assumes "holds str xs" "length xs < 2 ^ 63"
  obtains buf where "str_data str = Some buf" "str_length str = int (length xs)" "take (length xs) buf = xs"
    "mem_bytes (data_mem (Some buf)) 1 (length xs) = xs"
proof -
  obtain buf where buf: "str_data str = Some buf" "str_length str = int (length xs)" "take (Suc (length xs)) buf = xs @ [0]"
    using assms(1) by (auto simp: holds_def)
  have "take (length xs) buf = take (length xs) (take (Suc (length xs)) buf)" by simp
  then have front: "take (length xs) buf = xs" unfolding buf(3) by simp
  then have "length xs \<le> length buf" by (rule take_length)
  from data_bytes [OF this assms(2)] front buf(1,2) show thesis by (intro that) simp_all
qed

text \<open>A string of a type that was picked, read as UTF-8.\<close>

lemma string_to_utf8:
  assumes cell: "strings st1 c = Some str" "str_type str = t" "holds str (encoded (form_of t) vs)"
    and pick: "mb_pick types vs = Some t" and valid: "\<forall>v\<in>set vs. form_valid (form_of t) v"
    and stmp: "stmp \<noteq> c" and store: "1 < flush_depth (str_cbb st1)" "\<forall>k. allocates (str_cbb st1) k"
    and short: "int (length (encoded (form_of t) vs)) < INT_MAX" "int (length (encoded MBSTRING_UTF8 vs)) < INT_MAX"
  shows "if has_bom (form_of t) vs then \<exists>st2. ASN1_STRING_to_UTF8 b p stmp (Some c) st1 = Fail st2
    else \<exists>buf st2. ASN1_STRING_to_UTF8 b p stmp (Some c) st1 = Ok (Some buf, int (length (encoded MBSTRING_UTF8 vs))) st2 \<and>
      take (length (encoded MBSTRING_UTF8 vs)) buf = encoded MBSTRING_UTF8 vs"
proof -
  let ?xs = "encoded (form_of t) vs" and ?n = "int (length (encoded (form_of t) vs))" and ?ys = "encoded MBSTRING_UTF8 vs"
  have "length ?xs < 2 ^ 63" using short(1) by (simp add: INT_MAX_def)
  with cell(3) obtain buf where buf: "str_data str = Some buf" "str_length str = ?n"
    "mem_bytes (data_mem (Some buf)) 1 (length ?xs) = ?xs" by (rule holds_buffer)
  have form: "form_of t \<in> {MBSTRING_BMP, MBSTRING_UNIV, MBSTRING_UTF8, MBSTRING_ASC}" by (simp add: form_of_def)
  have again: "is_text (form_of t) (mem_bytes (data_mem (Some buf)) 1 (nat ?n)) vs" using valid buf(3) by (simp add: is_text_def)
  let ?st = "st1\<lparr>strings := (strings st1)(stmp := Some \<lparr>str_length = 0, str_type = 0, str_data = None, str_flags = 0\<rparr>), str_out := Some stmp\<rparr>"
  let ?copy = "ASN1_mbstring_ncopy b p stmp (data_mem (Some buf)) True 1 ?n (form_of t) B_ASN1_UTF8STRING 0 0 ?st"
  note tags = tag_form [OF pick]
  note code = to_utf8_code [OF cell(1) tags(1-3) [folded cell(2)] stmp buf(1), unfolded cell(2) tags(4) buf(2)]
  show ?thesis
  proof (cases "has_bom (form_of t) vs")
    case True
    obtain decode e where d: "decode_func (form_of t) = Some (decode, e)" using form form_exists by auto
    have "\<nexists>us t'. mb_accepts (data_mem (Some buf)) 1 ?n (form_of t) B_ASN1_UTF8STRING 0 0 us t'"
      using scan_input(4) [OF d _ _ again] short(1) True by (auto simp: mb_accepts_def)
    then obtain e' where "?copy = put_error e' ?st"
      using ncopy_rejects [of ?n 0 0 "data_mem (Some buf)" 1 "form_of t" B_ASN1_UTF8STRING b p stmp True ?st] short(1) by auto
    then show ?thesis using True unfolding code by (simp add: put_error_def)
  next
    case False
    have acc: "mb_accepts (data_mem (Some buf)) 1 ?n (form_of t) B_ASN1_UTF8STRING 0 0 vs V_ASN1_UTF8STRING"
      using again form False utf8_pick by (simp add: mb_accepts_def within_def B_ASN1_UTF8STRING_def)
    have utf: "encoded (form_of V_ASN1_UTF8STRING) vs = ?ys" by (simp add: form_of_def type_tags)
    have "\<exists>st2 tmp. ?copy = Ok V_ASN1_UTF8STRING st2 \<and> str_out st2 = Some (out_cell stmp ?st) \<and>
        strings st2 (out_cell stmp ?st) = Some tmp \<and> str_type tmp = V_ASN1_UTF8STRING \<and> holds tmp (encoded (form_of V_ASN1_UTF8STRING) vs)"
      by (rule accepted_delivered [OF _ short(1) _ _ _ _ _ acc]) (use store short(2) in \<open>simp_all add: out_live_def utf\<close>)
    then obtain st2 tmp where r: "?copy = Ok V_ASN1_UTF8STRING st2" "strings st2 stmp = Some tmp" "holds tmp ?ys"
      unfolding utf by (auto simp: out_cell_def)
    have "length ?ys < 2 ^ 63" using short(2) by (simp add: INT_MAX_def)
    with r(3) obtain buf2 where "str_data tmp = Some buf2" "str_length tmp = int (length ?ys)" "take (length ?ys) buf2 = ?ys"
      by (rule holds_buffer)
    then show ?thesis using False r(1,2) unfolding code by simp
  qed
qed

text \<open>C32. A text that was converted from UTF-8 to any type is read back as the same UTF-8, with one exception:
  a text that starts with U+FEFF and became a BMPString or a UniversalString is refused.\<close>

theorem mbstring_utf8_roundtrip:
  assumes "0 \<le> len" "len < INT_MAX" "minsize < 2 ^ 63" "maxsize < 2 ^ 63" "1 < flush_depth (str_cbb st)" "out_live st" "inp \<noteq> 0"
    "ASN1_mbstring_ncopy b p s m True inp len MBSTRING_UTF8 types minsize maxsize st = Ok t st1"
    "is_text MBSTRING_UTF8 (mem_bytes m inp (nat len)) vs"
    "stmp \<noteq> out_cell s st" "1 < flush_depth (str_cbb st1)" "\<forall>k. allocates (str_cbb st1) k"
    "int (length (encoded (form_of t) vs)) < INT_MAX"
  shows "if has_bom (form_of t) vs then \<exists>st2. ASN1_STRING_to_UTF8 b p stmp (Some (out_cell s st)) st1 = Fail st2
    else \<exists>buf st2. ASN1_STRING_to_UTF8 b p stmp (Some (out_cell s st)) st1 = Ok (Some buf, len) st2 \<and>
      take (nat len) buf = mem_bytes m inp (nat len)"
proof -
  from returned_content [OF assms(1-8)] obtain ws str where acc: "mb_accepts m inp len MBSTRING_UTF8 types minsize maxsize ws t"
    and s1: "strings st1 = (strings st)(out_cell s st \<mapsto> str)" "str_type str = t" "holds str (encoded (form_of t) ws)" by blast
  have d8: "decode_func MBSTRING_UTF8 = Some (cbs_get_utf8, INVALID_UTF8STRING)" by (simp add: decode_func_def forms)
  have ws: "ws = vs" using scan_input(4) [OF d8 assms(1) _ assms(9)] acc assms(2) by (simp add: mb_accepts_def)
  have pick: "mb_pick (if types = 0 then DIRSTRING_TYPE else types) vs = Some t" using acc ws by (simp add: mb_accepts_def)
  have valid: "\<forall>v\<in>set vs. form_valid (form_of t) v"
    using pick_fits(1) [OF pick _ d8] assms(9) by (simp add: is_text_def)
  have cell: "strings st1 (out_cell s st) = Some str" using s1(1) by simp
  have bytes: "encoded MBSTRING_UTF8 vs = mem_bytes m inp (nat len)" using assms(9) by (simp add: is_text_def)
  have n: "int (nat len) = len" using assms(1) by simp
  show ?thesis
    using string_to_utf8 [OF cell s1(2) s1(3) [unfolded ws] pick valid assms(10-13), of b p] assms(2) unfolding bytes length_mem_bytes n by blast
qed

lemma same_form_store:
  assumes "mb_finish b p s m inp len inform t decode estimate st = Ok t' st'" "inform = form_of t"
  shows "str_cbb st' = str_cbb st"
proof -
  have prep: "str_cbb st1 = str_cbb st" if "prepare_dest s t st = Ok x st1" for x st1
  proof (cases "str_out st")
    case None
    then show ?thesis using that by (auto simp: prepare_dest_def ASN1_STRING_type_new_def put_error_def split: if_splits)
  next
    case (Some d)
    then show ?thesis using that by (cases "strings st d") (auto simp: prepare_dest_def Let_def)
  qed
  have set: "case ASN1_STRING_set d m inp len st1 of Ok _ st2 \<Rightarrow> str_cbb st2 = str_cbb st1 | _ \<Rightarrow> True" for d st1
    by (simp add: ASN1_STRING_set_def put_error_def Let_def split: option.split)
  obtain dest free_out st1 where 1: "prepare_dest s t st = Ok (dest, free_out) st1"
    "(case ASN1_STRING_set dest m inp len st1 of Ok _ st \<Rightarrow> Ok t st | Fail st \<Rightarrow> put_error MALLOC_FAILURE st | Undef \<Rightarrow> Undef | Fuel \<Rightarrow> Fuel) = Ok t' st'"
    using assms by (auto simp: mb_finish_def mbind_Ok_iff)
  then show ?thesis
    using prep [OF 1(1)] set [of st1 dest] by (cases "ASN1_STRING_set dest m inp len st1") (auto simp: put_error_def)
qed


theorem mbstring_utf8_roundtrip_witness:
  "\<exists>st1 buf st2. ASN1_mbstring_ncopy 0 1 7 (data_mem (Some [0x61, 0xC3, 0xA9])) True 1 3 MBSTRING_UTF8 B_ASN1_UTF8STRING 0 0 str_store = Ok 12 st1 \<and>
    ASN1_STRING_to_UTF8 0 1 8 (Some 7) st1 = Ok (Some buf, 3) st2 \<and> take 3 buf = [0x61, 0xC3, 0xA9]"
proof -
  let ?m = "data_mem (Some [0x61, 0xC3, 0xA9])"
  have store: "1 < flush_depth (str_cbb str_store)" "out_live str_store" "\<forall>k. allocates (str_cbb str_store) k" "out_cell 7 str_store = 7"
    by (simp_all add: str_store_def text_store_def out_live_def out_cell_def)
  have acc: "mb_accepts ?m 1 3 MBSTRING_UTF8 B_ASN1_UTF8STRING 0 0 [0x61, 0xE9] 12" by code_simp
  have code: "encoded (form_of 12) [0x61, 0xE9] = [0x61, 0xC3, 0xA9]" "is_text MBSTRING_UTF8 (mem_bytes ?m 1 (nat 3)) [0x61, 0xE9]"
    "\<not> has_bom (form_of 12) [0x61, 0xE9]" "mem_bytes ?m 1 (nat 3) = [0x61, 0xC3, 0xA9]" by code_simp+
  from accepted_delivered [OF _ _ _ _ store(1,2) _ acc store(3), of 0 1 7] code(1)
  obtain st1 where run: "ASN1_mbstring_ncopy 0 1 7 ?m True 1 3 MBSTRING_UTF8 B_ASN1_UTF8STRING 0 0 str_store = Ok 12 st1"
    by (auto simp: INT_MAX_def)
  from ncopy_accepts [OF _ _ _ _ acc, of 0 1 7 True str_store] run obtain decode estimate where
    "mb_finish 0 1 7 ?m 1 3 MBSTRING_UTF8 12 decode estimate str_store = Ok 12 st1" by (auto simp: INT_MAX_def)
  from same_form_store [OF this] have "str_cbb st1 = str_cbb str_store" by (simp add: form_of_def type_tags)
  with run show ?thesis
    using mbstring_utf8_roundtrip [OF _ _ _ _ store(1,2) _ run code(2), of 8] code store by (auto simp: INT_MAX_def)
qed

text \<open>C33. And what goes wrong: where \<open>*out\<close> was \<open>NULL\<close>, the allocator serves the struct of the string but not that of the
  builder, and the input has to be converted, the call fails and leaves in \<open>*out\<close> a string that it has released.\<close>

theorem mbstring_dangling_out:
  assumes "0 \<le> len" "len \<le> INT_MAX" "minsize < 2 ^ 63" "maxsize < 2 ^ 63" "mb_accepts m inp len inform types minsize maxsize vs t"
    "inform \<noteq> form_of t" "str_out st = None" "allocates (str_cbb st) 24" "\<not> allocates (str_cbb st) 32"
  shows "\<exists>st'. ASN1_mbstring_ncopy b p s m True inp len inform types minsize maxsize st = Fail st' \<and>
    str_out st' = Some s \<and> strings st' s = None"
proof -
  from ncopy_accepts [OF assms(1-5), of b p s True st] obtain decode e estimate where
    d: "ASN1_mbstring_ncopy b p s m True inp len inform types minsize maxsize st =
      mb_finish b p s m inp len inform t decode estimate st" by auto
  have "\<exists>h'. CBB_init b p (estimate + 1) (str_cbb st) = Fail h'"
    using assms(9) by (simp add: CBB_init_def CBB_zero_def cbb_init_def Let_def)
  then obtain h' where "CBB_init b p (estimate + 1) (str_cbb st) = Fail h'" by blast
  then show ?thesis
    unfolding d mb_finish_def using assms(6-8)
    by (simp add: mbind_def mthen_def prepare_dest_def ASN1_STRING_type_new_def transcode_def on_cbb_def mbstring_err_def
        put_error_def ASN1_STRING_free_def Let_def)
qed


theorem mbstring_dangling_out_witness:
  "\<exists>st'. ASN1_mbstring_ncopy 0 1 7 (data_mem (Some [0x61, 0xC3, 0xA9])) True 1 3 MBSTRING_UTF8 B_ASN1_BMPSTRING 1 64
      (str_store\<lparr>str_cbb := text_store\<lparr>allocates := (\<lambda>k. k = 24)\<rparr>\<rparr>) = Fail st' \<and> str_out st' = Some 7 \<and> strings st' 7 = None"
proof (rule mbstring_dangling_out)
  show "mb_accepts (data_mem (Some [0x61, 0xC3, 0xA9])) 1 3 MBSTRING_UTF8 B_ASN1_BMPSTRING 1 64 [0x61, 0xE9] 30" by code_simp
qed (simp_all add: INT_MAX_def form_of_def type_tags forms str_store_def)

section \<open>PrintableString, IA5String, T61String\<close>

lemma printable_loop_types:
  "printable_loop cs printable =
     (if \<exists>c\<in>set cs. 127 < unat c then V_ASN1_T61STRING
      else if printable \<and> (\<forall>c\<in>set cs. asn1_is_printable (ucast c)) then V_ASN1_PRINTABLESTRING else V_ASN1_IA5STRING)"
proof (induction cs arbitrary: printable)
  case (Cons c cs)
  have "NOT (mask 7) = (0x80 :: byte)" by (simp add: mask_eq_exp_minus_1)
  then have "unat (c AND 0x80) = unat c div 2 ^ 7 * 2 ^ 7" using unat_and_not_mask [of c 7] by simp
  then have "c AND 0x80 \<noteq> 0 \<longleftrightarrow> unat c div 2 ^ 7 \<noteq> 0" by (simp add: word_unat_eq_iff)
  then have "c AND 0x80 \<noteq> 0 \<longleftrightarrow> 127 < unat c" by (simp add: div_eq_0_iff not_less) linarith
  then show ?case using Cons.IH by auto
qed simp


lemma latin1_form: "form_code MBSTRING_ASC = (\<lambda>v. [ucast v])" "form_valid MBSTRING_ASC = (\<lambda>v. unat v < 256)"
  by (simp_all add: form_code_def [abs_def] form_valid_def [abs_def] forms)

lemma latin1_text: "is_text MBSTRING_ASC bs vs \<longleftrightarrow> vs = map ucast bs"
proof -
  have "is_text MBSTRING_ASC bs vs \<longleftrightarrow> bs = map ucast vs \<and> (\<forall>v\<in>set vs. unat v < 256)"
    unfolding is_text_def encoded_def latin1_form by (simp add: concat_map_singleton)
  also have "\<dots> \<longleftrightarrow> vs = map ucast bs"
    by (auto simp: comp_def unat_ucast_up unat_less8 u32_back(1) intro!: map_idI [symmetric])
  finally show ?thesis .
qed

lemma latin1_pick:
  "mb_pick (B_ASN1_PRINTABLESTRING OR B_ASN1_IA5STRING OR B_ASN1_T61STRING) (map ucast bs) = Some (printable_loop bs True)"
proof -
  have printable: "asn1_is_printable (ucast c) \<Longrightarrow> unat (c :: byte) \<le> 127" for c
    by (auto simp: asn1_is_printable_def word_less_nat_alt unat_ucast_up split: if_splits)
  have small: "(ucast (c :: byte) :: u32) \<le> 0xFF" for c using unat_less8 [of c] by (simp add: word_le_nat_alt unat_ucast_up)
  have low: "(ucast (c :: byte) :: u32) \<le> 127 \<longleftrightarrow> unat c \<le> 127" for c by (simp add: word_le_nat_alt unat_ucast_up)
  show ?thesis
  proof -
    have "\<exists>c\<in>set bs. 127 < unat c \<Longrightarrow> \<not> (\<forall>c\<in>set bs. asn1_is_printable (ucast c))" using printable by (meson not_le)
    then show ?thesis
      unfolding mb_pick_def mb_types_def printable_loop_types by (auto simp: type_bits list_all_iff small low not_less not_le)
  qed
qed

text \<open>\<open>ASN1_PRINTABLE_type\<close> finds the type that \<open>ASN1_mbstring_copy\<close> picks for the same bytes, taken as Latin-1,
  among PrintableString, IA5String and T61String.\<close>

theorem printable_type_agrees:
  assumes "0 \<le> len" "len \<le> INT_MAX"
  shows "ASN1_PRINTABLE_type m inp len = Some t \<longleftrightarrow>
    (\<exists>st'. ASN1_mbstring_copy b p s m False inp len MBSTRING_ASC
      (B_ASN1_PRINTABLESTRING OR B_ASN1_IA5STRING OR B_ASN1_T61STRING) st = Ok t st')"
proof -
  let ?types = "B_ASN1_PRINTABLESTRING OR B_ASN1_IA5STRING OR B_ASN1_T61STRING"
  have "?types \<noteq> 0" by (simp add: type_bits)
  then have "mb_accepts m inp len MBSTRING_ASC ?types 0 0 vs t \<longleftrightarrow>
      vs = map ucast (mem_bytes m inp (nat len)) \<and> printable_loop (mem_bytes m inp (nat len)) True = t" for vs
    using latin1_text [of "mem_bytes m inp (nat len)" vs] latin1_pick [of "mem_bytes m inp (nat len)"]
    by (auto simp: mb_accepts_def has_bom_def wide_def within_def forms)
  then show ?thesis
    using type_exact [OF assms, of 0 0 b p s m inp MBSTRING_ASC ?types st t] assms(1)
    by (simp add: ASN1_mbstring_copy_def ASN1_PRINTABLE_type_def)
qed

theorem printable_type_agrees_witness:
  "\<exists>st'. ASN1_mbstring_copy 0 1 7 (data_mem (Some [0x61, 0x40])) False 1 2 MBSTRING_ASC
      (B_ASN1_PRINTABLESTRING OR B_ASN1_IA5STRING OR B_ASN1_T61STRING) str_store = Ok V_ASN1_IA5STRING st'"
proof -
  have "ASN1_PRINTABLE_type (data_mem (Some [0x61, 0x40])) 1 2 = Some V_ASN1_IA5STRING"
    by (simp add: ASN1_PRINTABLE_type_def) code_simp
  with printable_type_agrees [of 2 "data_mem (Some [0x61, 0x40])" 1 V_ASN1_IA5STRING 0 1 7 str_store] show ?thesis
    by (simp add: INT_MAX_def)
qed

section \<open>Copies\<close>

lemma dup_copies:
  assumes "strings st src = Some str" "holds str xs" "int (length xs) < INT_MAX" "ret \<noteq> src" "\<forall>k. allocates (str_cbb st) k"
  shows "\<exists>st' str'. ASN1_STRING_dup ret (Some src) st = Ok ret st' \<and> strings st' = (strings st)(ret \<mapsto> str') \<and>
    holds str' xs \<and> str_type str' = str_type str \<and> str_flags str' = str_flags str"
proof -
  have "length xs < 2 ^ 63" using assms(3) by (simp add: INT_MAX_def)
  with assms(2) obtain buf where buf: "str_data str = Some buf" "str_length str = int (length xs)"
    "mem_bytes (data_mem (Some buf)) 1 (length xs) = xs" by (rule holds_buffer)
  let ?new = "\<lparr>str_length = 0, str_type = 4, str_data = None, str_flags = 0\<rparr>"
  let ?st = "st\<lparr>strings := (strings st)(ret \<mapsto> ?new)\<rparr>"
  have "strings ?st ret = Some ?new" "str_data ?new = None" by simp_all
  from set_result [OF this, of "int (length xs)" 1 "data_mem (Some buf)"] assms(3,5) buf(3)
  obtain str' where set: "ASN1_STRING_set ret (data_mem (Some buf)) 1 (int (length xs)) ?st = Ok () (?st\<lparr>strings := (strings ?st)(ret \<mapsto> str')\<rparr>)"
    "holds str' xs" by (cases "ASN1_STRING_set ret (data_mem (Some buf)) 1 (int (length xs)) ?st") auto
  have "ASN1_STRING_dup ret (Some src) st =
      Ok ret (?st\<lparr>strings := (strings ?st)(ret \<mapsto> str'\<lparr>str_type := str_type str, str_flags := str_flags str\<rparr>)\<rparr>)"
    using assms(1,4,5) buf(1,2) set(1)
    by (simp add: ASN1_STRING_dup_def ASN1_STRING_new_def ASN1_STRING_type_new_def ASN1_STRING_copy_def mthen_def mbind_def data_addr_def)
  moreover have "holds (str'\<lparr>str_type := str_type str, str_flags := str_flags str\<rparr>) xs" using set(2) by (simp add: holds_def)
  ultimately show ?thesis by fastforce
qed

end
