(* ===== verification/String_Table.thy ===== *)
theory String_Table
  imports LHash_Spec ASN1_Spec
begin

unbundle bit_operations_syntax

text \<open>
  \<open>crypto/asn1/a_strnid.c\<close>: the sizes and types that an attribute permits, a sorted table for the standard
  attributes and a hash table for those that are registered at run time, and the conversion that
  follows them. The tables are an instance of the hash table's interface. \<open>string_tables\<close> is a
  parameter and a result, \<open>None\<close> for \<open>NULL\<close>; the lock around it is not modelled.
\<close>

section \<open>The code\<close>

record string_table =
  tbl_nid :: int
  tbl_minsize :: int
  tbl_maxsize :: int
  tbl_mask :: u64
  tbl_flags :: u64

type_synonym string_tables = "string_table lhash option"

definition STABLE_NO_MASK :: u64 where "STABLE_NO_MASK = 2"

definition PKCS9STRING_TYPE :: u64 where "PKCS9STRING_TYPE = DIRSTRING_TYPE OR B_ASN1_IA5STRING"

abbreviation (input) entry :: "int \<Rightarrow> int \<Rightarrow> int \<Rightarrow> u64 \<Rightarrow> u64 \<Rightarrow> string_table" where
  "entry nid minsize maxsize types flags \<equiv>
     \<lparr>tbl_nid = nid, tbl_minsize = minsize, tbl_maxsize = maxsize, tbl_mask = types, tbl_flags = flags\<rparr>"

definition tbl_standard :: "string_table list" where
  "tbl_standard =
     [entry 13 1 64 DIRSTRING_TYPE 0,
      entry 14 2 2 B_ASN1_PRINTABLESTRING STABLE_NO_MASK,
      entry 15 1 128 DIRSTRING_TYPE 0,
      entry 16 1 128 DIRSTRING_TYPE 0,
      entry 17 1 64 DIRSTRING_TYPE 0,
      entry 18 1 64 DIRSTRING_TYPE 0,
      entry 48 1 128 B_ASN1_IA5STRING STABLE_NO_MASK,
      entry 49 1 (-1) PKCS9STRING_TYPE 0,
      entry 54 1 (-1) PKCS9STRING_TYPE 0,
      entry 55 1 (-1) DIRSTRING_TYPE 0,
      entry 99 1 32768 DIRSTRING_TYPE 0,
      entry 100 1 32768 DIRSTRING_TYPE 0,
      entry 101 1 32768 DIRSTRING_TYPE 0,
      entry 105 1 64 B_ASN1_PRINTABLESTRING STABLE_NO_MASK,
      entry 156 (-1) (-1) B_ASN1_BMPSTRING STABLE_NO_MASK,
      entry 173 1 32768 DIRSTRING_TYPE 0,
      entry 174 (-1) (-1) B_ASN1_PRINTABLESTRING STABLE_NO_MASK,
      entry 391 1 (-1) B_ASN1_IA5STRING STABLE_NO_MASK,
      entry 417 (-1) (-1) B_ASN1_BMPSTRING STABLE_NO_MASK]"

definition table_cmp :: "string_table \<Rightarrow> string_table \<Rightarrow> int" where
  "table_cmp a b = (if tbl_nid a < tbl_nid b then -1 else if tbl_nid b < tbl_nid a then 1 else 0)"

definition OPENSSL_hash32 :: "byte list \<Rightarrow> u32" where
  "OPENSSL_hash32 bs = foldl (\<lambda>h b. (h XOR ucast b) * 16777619) 2166136261 bs"

definition table_hash :: "string_table \<Rightarrow> u32" where
  "table_hash tbl = OPENSSL_hash32 (word_le_bytes 4 (word_of_int (tbl_nid tbl) :: u32))"

text \<open>\<open>bsearch\<close> of the C library, with the comparison against the key.\<close>

fun bsearch :: "('a \<Rightarrow> int) \<Rightarrow> 'a list \<Rightarrow> 'a option" where
  "bsearch compar xs =
     (if xs = [] then None
      else
        let k = length xs div 2; r = compar (xs ! k) in
        if r = 0 then Some (xs ! k)
        else if r < 0 then bsearch compar (take k xs)
        else bsearch compar (drop (Suc k) xs))"

declare bsearch.simps [simp del]

definition asn1_string_table_get :: "int \<Rightarrow> string_tables \<Rightarrow> string_table option" where
  "asn1_string_table_get nid string_tables =
     (let key = entry nid 0 0 0 0 in
      case bsearch (table_cmp key) tbl_standard of
        Some tbl \<Rightarrow> Some tbl
      | None \<Rightarrow> (case string_tables of None \<Rightarrow> None | Some lh \<Rightarrow> OPENSSL_lh_retrieve lh key))"

definition ASN1_STRING_TABLE_add :: "(u64 \<Rightarrow> bool) \<Rightarrow> int \<Rightarrow> int \<Rightarrow> int \<Rightarrow> u64 \<Rightarrow> u64 \<Rightarrow> string_tables \<Rightarrow> bool \<times> string_tables" where
  "ASN1_STRING_TABLE_add serves nid minsize maxsize types flags string_tables =
     (if asn1_string_table_get nid string_tables \<noteq> None then (False, string_tables)
      else
        let key = entry nid 0 0 0 0;
            found = (case string_tables of None \<Rightarrow> False | Some lh \<Rightarrow> OPENSSL_lh_retrieve lh key \<noteq> None);
            string_tables = (case string_tables of
                None \<Rightarrow> OPENSSL_lh_new serves table_hash table_cmp
              | Some lh \<Rightarrow> Some lh)
        in (case string_tables of
             None \<Rightarrow> (False, None)
           | Some lh \<Rightarrow>
               if found then (False, Some lh)
               else if \<not> serves 40 then (False, Some lh)
               else (case OPENSSL_lh_insert serves (entry nid minsize maxsize types flags) lh of
                   (ok, old_tbl, lh) \<Rightarrow> (ok, Some lh))))"

text \<open>The result is the string that \<open>*out\<close> points to. Without \<open>out\<close> (\<open>wants\<close> is false) a local pointer takes its
  place during the call.\<close>

definition ASN1_STRING_set_by_NID :: "nat \<Rightarrow> nat \<Rightarrow> nat \<Rightarrow> mem \<Rightarrow> string_tables \<Rightarrow> bool \<Rightarrow> addr \<Rightarrow> int \<Rightarrow> int \<Rightarrow> int \<Rightarrow> nat str_op" where
  "ASN1_STRING_set_by_NID b p s m string_tables wants inp len inform nid st =
     (let out = str_out st;
          st = (if wants then st else st\<lparr>str_out := None\<rparr>);
          restore = (\<lambda>st. if wants then st else st\<lparr>str_out := out\<rparr>);
          run = (case asn1_string_table_get nid string_tables of
              Some tbl \<Rightarrow>
                let types = tbl_mask tbl;
                    types = (if tbl_flags tbl AND STABLE_NO_MASK = 0 then types AND B_ASN1_UTF8STRING else types)
                in ASN1_mbstring_ncopy b p s m True inp len inform types (tbl_minsize tbl) (tbl_maxsize tbl)
            | None \<Rightarrow> ASN1_mbstring_copy b p s m True inp len inform B_ASN1_UTF8STRING)
      in (case run st of
           Ok ret st \<Rightarrow>
             if ret \<le> 0 then Fail (restore st)
             else (case str_out st of None \<Rightarrow> Fail (restore st) | Some str \<Rightarrow> Ok str (restore st))
         | Fail st \<Rightarrow> Fail (restore st)
         | Undef \<Rightarrow> Undef
         | Fuel \<Rightarrow> Fuel))"

section \<open>The tables\<close>

interpretation tables: lh_functions table_hash table_cmp
  by unfold_locales (auto simp: table_cmp_def table_hash_def split: if_splits)

lemma bsearch_finds:
  "sorted_wrt (\<lambda>x y. tbl_nid x < tbl_nid y) xs \<Longrightarrow>
   bsearch (table_cmp k) xs = List.find (\<lambda>x. tbl_nid x = tbl_nid k) xs"
proof (induction "length xs" arbitrary: xs rule: less_induct)
  case less
  show ?case
  proof (cases "xs = []")
    case False
    let ?k = "length xs div 2"
    define y where "y = xs ! ?k"
    have k: "?k < length xs" using False by simp
    have split: "xs = take ?k xs @ y # drop (Suc ?k) xs" unfolding y_def using id_take_nth_drop [OF k] .
    from less.prems have sorted: "sorted_wrt (\<lambda>x y. tbl_nid x < tbl_nid y) (take ?k xs @ y # drop (Suc ?k) xs)" using split by simp
    then have front: "\<forall>x\<in>set (take ?k xs). tbl_nid x < tbl_nid y" and rear: "\<forall>x\<in>set (drop (Suc ?k) xs). tbl_nid y < tbl_nid x"
      and parts: "sorted_wrt (\<lambda>x y. tbl_nid x < tbl_nid y) (take ?k xs)" "sorted_wrt (\<lambda>x y. tbl_nid x < tbl_nid y) (drop (Suc ?k) xs)"
      by (auto simp: sorted_wrt_append)
    note ih = less.hyps [OF _ parts(1)] less.hyps [OF _ parts(2)]
    have code: "bsearch (table_cmp k) xs = (if tbl_nid k = tbl_nid y then Some y
        else if tbl_nid k < tbl_nid y then bsearch (table_cmp k) (take ?k xs) else bsearch (table_cmp k) (drop (Suc ?k) xs))"
      using False by (simp add: bsearch.simps [of _ xs] Let_def table_cmp_def y_def)
    have find: "List.find P (as @ b # cs) = (case List.find P as of Some x \<Rightarrow> Some x | None \<Rightarrow> if P b then Some b else List.find P cs)"
      for P as and b :: string_table and cs by (induction as) simp_all
    have none: "List.find (\<lambda>x. tbl_nid x = n) zs = None" if "\<forall>x\<in>set zs. tbl_nid x \<noteq> n" for n zs
      using that by (simp add: find_None_iff)
    have all: "List.find P xs = (case List.find P (take ?k xs) of Some x \<Rightarrow> Some x | None \<Rightarrow> if P y then Some y else List.find P (drop (Suc ?k) xs))" for P
      using find [of P "take ?k xs" y "drop (Suc ?k) xs"] unfolding split [symmetric] .
    consider "tbl_nid k = tbl_nid y" | "tbl_nid k < tbl_nid y" | "tbl_nid y < tbl_nid k" by linarith
    then show ?thesis
    proof cases
      case 1
      then have "List.find (\<lambda>x. tbl_nid x = tbl_nid k) (take ?k xs) = None" using front by (intro none) auto
      then show ?thesis unfolding code all using 1 by simp
    next
      case 2
      then have "List.find (\<lambda>x. tbl_nid x = tbl_nid k) (drop (Suc ?k) xs) = None" using rear by (intro none) auto
      then show ?thesis unfolding code all using 2 ih(1) k by (simp split: option.split)
    next
      case 3
      then have "List.find (\<lambda>x. tbl_nid x = tbl_nid k) (take ?k xs) = None" using front by (intro none) auto
      then show ?thesis unfolding code all using 3 ih(2) k by simp
    qed
  qed (simp add: bsearch.simps)
qed


lemma standard_sorted: "sorted_wrt (\<lambda>x y. tbl_nid x < tbl_nid y) tbl_standard"
  by (simp add: tbl_standard_def)

definition standard_entry :: "int \<Rightarrow> string_table option" where
  "standard_entry nid = List.find (\<lambda>x. tbl_nid x = nid) tbl_standard"

text \<open>The registered entries, as a list.\<close>

definition tables_hold :: "string_tables \<Rightarrow> string_table list \<Rightarrow> bool" where
  "tables_hold ts xs \<longleftrightarrow> (case ts of None \<Rightarrow> xs = [] | Some lh \<Rightarrow> lh_models table_hash table_cmp lh xs)"

lemma cmp_nid: "table_cmp x y = 0 \<longleftrightarrow> tbl_nid x = tbl_nid y"
  by (simp add: table_cmp_def)

lemma get_entry:
  assumes "tables_hold ts xs"
  shows "asn1_string_table_get nid ts =
    (case standard_entry nid of Some tbl \<Rightarrow> Some tbl | None \<Rightarrow> List.find (\<lambda>x. tbl_nid x = nid) xs)"
proof -
  have "ref_retrieve table_cmp (entry nid 0 0 0 0) xs = List.find (\<lambda>x. tbl_nid x = nid) xs"
    by (simp add: ref_retrieve_def cmp_nid)
  then show ?thesis
    using assms tables.retrieve_models bsearch_finds [OF standard_sorted]
    by (auto simp: asn1_string_table_get_def standard_entry_def tables_hold_def Let_def split: option.splits)
qed

lemma add_entry:
  assumes hold: "tables_hold ts xs" and run: "ASN1_STRING_TABLE_add serves nid minsize maxsize types flags ts = (ok, ts')"
  shows "tables_hold ts' (if ok then entry nid minsize maxsize types flags # xs else xs)"
    "ok \<Longrightarrow> asn1_string_table_get nid ts = None"
    "\<forall>k. serves k \<Longrightarrow> asn1_string_table_get nid ts = None \<Longrightarrow> ok"
proof -
  let ?e = "entry nid minsize maxsize types flags" and ?g = "asn1_string_table_get nid ts"
  have "tables_hold ts' (if ok then ?e # xs else xs) \<and> (ok \<longrightarrow> ?g = None) \<and> ((\<forall>k. serves k) \<and> ?g = None \<longrightarrow> ok)"
  proof (cases ?g)
    case (Some tbl)
    then show ?thesis using run hold by (auto simp: ASN1_STRING_TABLE_add_def)
  next
    case None
    let ?lh = "case ts of None \<Rightarrow> OPENSSL_lh_new serves table_hash table_cmp | Some lh \<Rightarrow> Some lh"
    have "List.find (\<lambda>x. tbl_nid x = nid) xs = None"
      using get_entry [OF hold, of nid] None by (simp split: option.splits)
    then have absent: "\<forall>x\<in>set xs. table_cmp x ?e \<noteq> 0" by (auto simp: cmp_nid find_None_iff)
    have found: "(case ts of None \<Rightarrow> False | Some lh \<Rightarrow> OPENSSL_lh_retrieve lh (entry nid 0 0 0 0) \<noteq> None) = False"
      using hold absent tables.retrieve_models [of _ xs "entry nid 0 0 0 0"]
      by (auto simp: tables_hold_def ref_retrieve_def find_None_iff cmp_nid split: option.splits)
    have code: "ASN1_STRING_TABLE_add serves nid minsize maxsize types flags ts =
        (case ?lh of None \<Rightarrow> (False, None)
         | Some lh \<Rightarrow> if \<not> serves 40 then (False, Some lh)
             else (case OPENSSL_lh_insert serves ?e lh of (ok, old_tbl, lh) \<Rightarrow> (ok, Some lh)))"
      unfolding ASN1_STRING_TABLE_add_def Let_def found using None by (simp split: option.split)
    show ?thesis
    proof (cases ?lh)
      case None
      then show ?thesis
        using hold run unfolding code by (auto simp: tables_hold_def OPENSSL_lh_new_def split: option.splits if_splits)
    next
      case (Some lh)
      have models: "lh_models table_hash table_cmp lh xs"
        using hold Some new_models(1) [of serves table_hash table_cmp lh] by (auto simp: tables_hold_def split: option.splits)
      obtain ok1 old lh1 where ins: "OPENSSL_lh_insert serves ?e lh = (ok1, old, lh1)" by (metis surj_pair)
      have ref: "ref_insert table_cmp ?e xs = ?e # xs" "ref_retrieve table_cmp ?e xs = None"
        using tables.ref_remove_absent [OF absent] absent by (simp_all add: ref_insert_def tables.ref_retrieve_None)
      from tables.insert_models [OF models ins] ref
      have "old = None" "ok1 \<longleftrightarrow> serves 24" "lh_models table_hash table_cmp lh1 (if ok1 then ?e # xs else xs)"
        by (auto split: if_splits)
      moreover have "(if \<not> serves 40 then (False, Some lh) else (ok1, Some lh1)) = (ok, ts')"
        using run unfolding code Some option.case ins prod.case .
      ultimately show ?thesis using models None by (auto simp: tables_hold_def split: if_splits)
    qed
  qed
  then show "tables_hold ts' (if ok then ?e # xs else xs)" "ok \<Longrightarrow> ?g = None" "\<forall>k. serves k \<Longrightarrow> ?g = None \<Longrightarrow> ok"
    by blast+
qed

text \<open>C34. An attribute that has an entry, built in or registered, is refused and keeps it; a registration that
  succeeds gives its attribute exactly these limits and changes no other one, a registration that fails
  changes nothing, and where the allocator serves it fails only for an attribute that has an entry.\<close>

theorem string_table_add_exact:
  assumes "tables_hold ts xs" "ASN1_STRING_TABLE_add serves nid minsize maxsize types flags ts = (ok, ts')"
  shows "(\<exists>xs'. tables_hold ts' xs') \<and>
    (\<forall>n. asn1_string_table_get n ts' =
       (if ok \<and> n = nid then Some (entry nid minsize maxsize types flags) else asn1_string_table_get n ts)) \<and>
    (asn1_string_table_get nid ts \<noteq> None \<longrightarrow> \<not> ok) \<and>
    ((\<forall>k. serves k) \<and> asn1_string_table_get nid ts = None \<longrightarrow> ok)"
proof -
  note added = add_entry [OF assms]
  have "asn1_string_table_get n ts' =
      (if ok \<and> n = nid then Some (entry nid minsize maxsize types flags) else asn1_string_table_get n ts)" for n
    using get_entry [OF added(1), of n] get_entry [OF assms(1), of n] get_entry [OF assms(1), of nid] added(2)
    by (auto split: option.splits if_splits)
  then show ?thesis using added(2,3) exI [of "tables_hold ts'", OF added(1)] by (intro conjI) auto
qed


theorem string_table_add_exact_witness:
  "\<exists>ts'. ASN1_STRING_TABLE_add (\<lambda>_. True) 500 1 8 B_ASN1_IA5STRING STABLE_NO_MASK None = (True, ts') \<and>
    asn1_string_table_get 500 ts' = Some (entry 500 1 8 B_ASN1_IA5STRING STABLE_NO_MASK) \<and>
    asn1_string_table_get 14 ts' = Some (entry 14 2 2 B_ASN1_PRINTABLESTRING STABLE_NO_MASK)"
proof -
  have hold: "tables_hold None []" by (simp add: tables_hold_def)
  obtain ok ts' where run: "ASN1_STRING_TABLE_add (\<lambda>_. True) 500 1 8 B_ASN1_IA5STRING STABLE_NO_MASK None = (ok, ts')"
    by (metis surj_pair)
  have "asn1_string_table_get 500 None = None" "asn1_string_table_get 14 None = Some (entry 14 2 2 B_ASN1_PRINTABLESTRING STABLE_NO_MASK)"
    by (simp_all add: get_entry [OF hold] standard_entry_def tbl_standard_def)
  with string_table_add_exact [OF hold run] run show ?thesis by auto
qed

section \<open>Conversion by attribute\<close>

text \<open>What the entry of an attribute asks for.\<close>

definition nid_types :: "int \<Rightarrow> string_tables \<Rightarrow> u64" where
  "nid_types nid ts =
     (case asn1_string_table_get nid ts of
        None \<Rightarrow> B_ASN1_UTF8STRING
      | Some tbl \<Rightarrow> if tbl_flags tbl AND STABLE_NO_MASK = 0 then tbl_mask tbl AND B_ASN1_UTF8STRING else tbl_mask tbl)"

definition nid_limits :: "int \<Rightarrow> string_tables \<Rightarrow> int \<times> int" where
  "nid_limits nid ts =
     (case asn1_string_table_get nid ts of None \<Rightarrow> (0, 0) | Some tbl \<Rightarrow> (tbl_minsize tbl, tbl_maxsize tbl))"

text \<open>The string that the call updates or makes.\<close>

definition nid_cell :: "nat \<Rightarrow> bool \<Rightarrow> str_state \<Rightarrow> nat" where
  "nid_cell s wants st = (if wants then out_cell s st else s)"

lemma set_by_NID_code:
  "ASN1_STRING_set_by_NID b p s m ts wants inp len inform nid st =
    (case ASN1_mbstring_ncopy b p s m True inp len inform (nid_types nid ts) (fst (nid_limits nid ts)) (snd (nid_limits nid ts))
        (if wants then st else st\<lparr>str_out := None\<rparr>) of
      Ok ret st' \<Rightarrow>
        let st'' = (if wants then st' else st'\<lparr>str_out := str_out st\<rparr>) in
        if ret \<le> 0 then Fail st'' else (case str_out st' of None \<Rightarrow> Fail st'' | Some str \<Rightarrow> Ok str st'')
    | Fail st' \<Rightarrow> Fail (if wants then st' else st'\<lparr>str_out := str_out st\<rparr>)
    | Undef \<Rightarrow> Undef
    | Fuel \<Rightarrow> Fuel)"
  unfolding ASN1_STRING_set_by_NID_def Let_def nid_types_def nid_limits_def ASN1_mbstring_copy_def
  by (cases "asn1_string_table_get nid ts") simp_all

lemma pick_positive: "mb_pick types vs = Some t \<Longrightarrow> 0 < t"
proof -
  assume "mb_pick types vs = Some t"
  from pick_types [OF this] show "0 < t" by (auto simp: type_tags)
qed

lemma encoded_short: "length (encoded f vs) \<le> 4 * length vs"
proof (induction vs)
  case (Cons v vs)
  have "length (form_code f v) \<le> 4" by (simp add: form_code_def utf8_def length_rest del: utf8_rest.simps)
  then show ?case using Cons by (simp add: encoded_def)
qed (simp add: encoded_def)

lemma set_by_NID_iff:
  assumes "0 \<le> len" "4 * len < INT_MAX" "fst (nid_limits nid ts) < 2 ^ 63" "snd (nid_limits nid ts) < 2 ^ 63"
    "1 < flush_depth (str_cbb st)" "wants \<longrightarrow> out_live st" "inp \<noteq> 0" "\<forall>k. allocates (str_cbb st) k"
  shows "(\<exists>st' str. ASN1_STRING_set_by_NID b p s m ts wants inp len inform nid st = Ok d st' \<and>
      strings st' d = Some str \<and> str_type str = t \<and> holds str bs) \<longleftrightarrow>
    (\<exists>vs. mb_accepts m inp len inform (nid_types nid ts) (fst (nid_limits nid ts)) (snd (nid_limits nid ts)) vs t \<and>
      d = nid_cell s wants st \<and> bs = encoded (form_of t) vs)" (is "?l \<longleftrightarrow> ?r")
proof -
  let ?st = "if wants then st else st\<lparr>str_out := None\<rparr>"
  let ?acc = "mb_accepts m inp len inform (nid_types nid ts) (fst (nid_limits nid ts)) (snd (nid_limits nid ts))"
  let ?run = "ASN1_mbstring_ncopy b p s m True inp len inform (nid_types nid ts) (fst (nid_limits nid ts)) (snd (nid_limits nid ts)) ?st"
  have len: "len < INT_MAX" "len \<le> INT_MAX" using assms(1,2) by simp_all
  have st: "1 < flush_depth (str_cbb ?st)" "out_live ?st" "\<forall>k. allocates (str_cbb ?st) k" "out_cell s ?st = nid_cell s wants st"
    using assms(5,6,8) by (auto simp: out_live_def out_cell_def nid_cell_def)
  have holds_same: "xs = ys" if "holds str xs" "holds str ys" for str xs ys
    using that by (auto simp: holds_def)
  have short: "int (length (encoded (form_of t) vs)) < INT_MAX" if "?acc vs t" for vs t
  proof -
    have "\<exists>decode e. decode_func inform = Some (decode, e)" using that form_exists [of inform] unfolding mb_accepts_def by blast
    then obtain e where "decode_func inform = Some e" by blast
    note length_encoded [OF this, of vs]
    moreover have "encoded inform vs = mem_bytes m inp (nat len)" using that by (simp add: mb_accepts_def is_text_def)
    ultimately have "length vs \<le> nat len" by simp
    with encoded_short [of "form_of t" vs] assms(1,2) show ?thesis by linarith
  qed
  have delivered: "\<exists>st' str. ASN1_STRING_set_by_NID b p s m ts wants inp len inform nid st = Ok (nid_cell s wants st) st' \<and>
      strings st' (nid_cell s wants st) = Some str \<and> str_type str = t \<and> holds str (encoded (form_of t) vs)" if acc: "?acc vs t" for vs t
  proof -
    from accepted_delivered [OF assms(1) len(1) assms(3,4) st(1,2) assms(7) acc st(3) short [OF acc], of b p s] obtain st' str where
      "?run = Ok t st'" "str_out st' = Some (nid_cell s wants st)" "strings st' (nid_cell s wants st) = Some str" "str_type str = t"
      "holds str (encoded (form_of t) vs)" unfolding st(4) by blast
    moreover have "0 < t" using acc pick_positive unfolding mb_accepts_def by blast
    ultimately show ?thesis unfolding set_by_NID_code by (auto simp: Let_def)
  qed
  show ?thesis
  proof
    assume ?r
    with delivered show ?l by blast
  next
    assume l: ?l
    have "\<exists>vs t'. ?acc vs t'"
    proof (rule ccontr)
      assume "\<nexists>vs t'. ?acc vs t'"
      from ncopy_rejects [OF assms(1) len(2) assms(3,4) this, of b p s True ?st] obtain e where "?run = put_error e ?st" by blast
      with l show False unfolding set_by_NID_code by (simp add: put_error_def)
    qed
    then obtain vs t' where acc: "?acc vs t'" by blast
    from delivered [OF acc] l acc holds_same show ?r by (metis option.inject outcome.inject(1))
  qed
qed

text \<open>C35. The conversion by attribute succeeds, where the allocator serves, exactly if the input is a text of the stated
  encoding, within the limits of the attribute, that one of its types can hold; then the string has the
  first such type and the characters of the input.\<close>

theorem set_by_NID_exact:
  assumes "0 \<le> len" "4 * len < INT_MAX" "fst (nid_limits nid ts) < 2 ^ 63" "snd (nid_limits nid ts) < 2 ^ 63"
    "1 < flush_depth (str_cbb st)" "wants \<longrightarrow> out_live st" "inp \<noteq> 0" "\<forall>k. allocates (str_cbb st) k"
  shows "(\<exists>st' str. ASN1_STRING_set_by_NID b p s m ts wants inp len inform nid st = Ok d st' \<and>
      strings st' d = Some str \<and> str_type str = t \<and> holds str bs) \<longleftrightarrow>
    (\<exists>vs. mb_accepts m inp len inform (nid_types nid ts) (fst (nid_limits nid ts)) (snd (nid_limits nid ts)) vs t \<and>
      d = nid_cell s wants st \<and> bs = encoded (form_of t) vs)"
  using set_by_NID_iff [OF assms] .


theorem set_by_NID_exact_witness:
  "\<exists>st' str. ASN1_STRING_set_by_NID 0 1 7 (data_mem (Some [0x55, 0x53])) None False 1 2 MBSTRING_UTF8 14 str_store = Ok 7 st' \<and>
    strings st' 7 = Some str \<and> str_type str = V_ASN1_PRINTABLESTRING \<and> holds str [0x55, 0x53]"
proof -
  have hold: "tables_hold None []" by (simp add: tables_hold_def)
  have nid: "asn1_string_table_get 14 None = Some (entry 14 2 2 B_ASN1_PRINTABLESTRING STABLE_NO_MASK)"
    by (simp add: get_entry [OF hold] standard_entry_def tbl_standard_def)
  then have limits: "nid_limits 14 None = (2, 2)" "nid_types 14 None = B_ASN1_PRINTABLESTRING"
    by (simp_all add: nid_limits_def nid_types_def STABLE_NO_MASK_def)
  have acc: "mb_accepts (data_mem (Some [0x55, 0x53])) 1 2 MBSTRING_UTF8 B_ASN1_PRINTABLESTRING 2 2 [0x55, 0x53] V_ASN1_PRINTABLESTRING"
    "encoded (form_of V_ASN1_PRINTABLESTRING) [0x55, 0x53] = [0x55, 0x53]" by code_simp+
  have store: "1 < flush_depth (str_cbb str_store)" "\<forall>k. allocates (str_cbb str_store) k"
    by (simp_all add: str_store_def text_store_def)
  have accepted: "\<exists>vs. mb_accepts (data_mem (Some [0x55, 0x53])) 1 2 MBSTRING_UTF8 (nid_types 14 None) (fst (nid_limits 14 None)) (snd (nid_limits 14 None)) vs V_ASN1_PRINTABLESTRING \<and>
      (7 :: nat) = nid_cell 7 False str_store \<and> [0x55, 0x53] = encoded (form_of V_ASN1_PRINTABLESTRING) vs"
    using acc unfolding limits by (intro exI [of _ "[0x55, 0x53]"]) (simp add: nid_cell_def)
  show ?thesis
    by (rule set_by_NID_exact [THEN iffD2]) (fact accepted store | simp add: limits INT_MAX_def)+
qed

section \<open>The standard attributes\<close>

lemma standard_get:
  assumes "tables_hold ts xs" "standard_entry nid = Some tbl"
  shows "asn1_string_table_get nid ts = Some tbl"
  using get_entry [OF assms(1), of nid] assms(2) by simp

lemma directory_entries:
  "nid \<in> {13, 15, 16, 17, 18, 99, 100, 101, 173} \<Longrightarrow>
     \<exists>n. standard_entry nid = Some (entry nid 1 n DIRSTRING_TYPE 0) \<and> 1 \<le> n \<and> n \<le> 32768"
  "standard_entry 14 = Some (entry 14 2 2 B_ASN1_PRINTABLESTRING STABLE_NO_MASK)"
  "standard_entry 48 = Some (entry 48 1 128 B_ASN1_IA5STRING STABLE_NO_MASK)"
  by (auto simp: standard_entry_def tbl_standard_def)

lemma set_standard:
  assumes "tables_hold ts xs" "0 \<le> len" "len < INT_MAX" "1 < flush_depth (str_cbb st)" "wants \<longrightarrow> out_live st" "inp \<noteq> 0"
    "ASN1_STRING_set_by_NID b p s m ts wants inp len inform nid st = Ok d st'"
    "standard_entry nid = Some tbl" "tbl_minsize tbl < 2 ^ 63" "tbl_maxsize tbl < 2 ^ 63"
  shows "\<exists>vs str. is_text inform (mem_bytes m inp (nat len)) vs \<and> strings st' d = Some str \<and>
    holds str (encoded (form_of (str_type str)) vs) \<and> within (tbl_minsize tbl) (tbl_maxsize tbl) (length vs) \<and>
    mb_pick (if nid_types nid ts = 0 then DIRSTRING_TYPE else nid_types nid ts) vs = Some (str_type str)"
proof -
  let ?st = "if wants then st else st\<lparr>str_out := None\<rparr>" and ?min = "fst (nid_limits nid ts)" and ?max = "snd (nid_limits nid ts)"
  have live: "1 < flush_depth (str_cbb ?st)" "out_live ?st" using assms(4,5) by (simp_all add: out_live_def)
  have limits: "?min = tbl_minsize tbl" "?max = tbl_maxsize tbl"
    using standard_get [OF assms(1,8)] by (simp_all add: nid_limits_def)
  have sizes: "?min < 2 ^ 63" "?max < 2 ^ 63" unfolding limits by (fact assms(9,10))+
  obtain t st1 where run: "ASN1_mbstring_ncopy b p s m True inp len inform (nid_types nid ts) ?min ?max ?st = Ok t st1"
    using assms(7) unfolding set_by_NID_code
    by (cases "ASN1_mbstring_ncopy b p s m True inp len inform (nid_types nid ts) ?min ?max ?st") auto
  then have out: "str_out st1 = Some d" "strings st' = strings st1"
    using assms(7) unfolding set_by_NID_code by (auto simp: Let_def split: if_splits option.splits)
  from returned_content [OF assms(2,3) sizes live assms(6) run] out obtain vs str where
    r: "mb_accepts m inp len inform (nid_types nid ts) ?min ?max vs t" "strings st' d = Some str" "str_type str = t"
      "holds str (encoded (form_of t) vs)" by auto
  then show ?thesis unfolding limits by (auto simp: mb_accepts_def)
qed

lemma picked:
  "mb_pick B_ASN1_UTF8STRING vs = Some t \<Longrightarrow> t = V_ASN1_UTF8STRING"
  "mb_pick B_ASN1_PRINTABLESTRING vs = Some t \<Longrightarrow> t = V_ASN1_PRINTABLESTRING \<and> list_all asn1_is_printable vs"
  "mb_pick B_ASN1_IA5STRING vs = Some t \<Longrightarrow> t = V_ASN1_IA5STRING \<and> list_all (\<lambda>v. v \<le> 127) vs"
  by (auto simp: mb_pick_def mb_types_def type_bits split: if_splits)

text \<open>C36. Whatever has been registered and whatever the allocator does: a name attribute of a directory (common name,
  locality, state, organization, unit, given name, surname, initials, name) that is set becomes a
  UTF8String of at least one character, a country is a PrintableString of exactly two, and an e-mail
  address is an IA5String of at most 128.\<close>

theorem standard_attributes:
  assumes "tables_hold ts xs" "0 \<le> len" "len < INT_MAX" "1 < flush_depth (str_cbb st)" "wants \<longrightarrow> out_live st" "inp \<noteq> 0"
    "ASN1_STRING_set_by_NID b p s m ts wants inp len inform nid st = Ok d st'"
    "nid \<in> {13, 15, 16, 17, 18, 99, 100, 101, 173, 14, 48}"
  shows "\<exists>vs str. is_text inform (mem_bytes m inp (nat len)) vs \<and> strings st' d = Some str \<and>
    holds str (encoded (form_of (str_type str)) vs) \<and>
    (if nid = 14 then str_type str = V_ASN1_PRINTABLESTRING \<and> length vs = 2 \<and> list_all asn1_is_printable vs
     else if nid = 48 then str_type str = V_ASN1_IA5STRING \<and> 1 \<le> length vs \<and> length vs \<le> 128 \<and> list_all (\<lambda>v. v \<le> 127) vs
     else str_type str = V_ASN1_UTF8STRING \<and> 1 \<le> length vs)"
proof -
  note set = set_standard [OF assms(1-7)]
  consider "nid \<in> {13, 15, 16, 17, 18, 99, 100, 101, 173}" | "nid = 14" | "nid = 48" using assms(8) by blast
  then show ?thesis
  proof cases
    case 1
    from directory_entries(1) [OF 1] obtain n where n: "standard_entry nid = Some (entry nid 1 n DIRSTRING_TYPE 0)" "n < 2 ^ 63" by auto
    have types: "nid_types nid ts = B_ASN1_UTF8STRING" "B_ASN1_UTF8STRING \<noteq> 0"
      using standard_get [OF assms(1) n(1)] by (simp_all add: nid_types_def DIRSTRING_TYPE_def type_bits)
    from set [OF n(1)] n(2) show ?thesis
      using 1 unfolding types(1) if_not_P [OF types(2)] by (auto simp: within_def dest!: picked)
  next
    case 2
    have types: "nid_types nid ts = B_ASN1_PRINTABLESTRING" "B_ASN1_PRINTABLESTRING \<noteq> 0"
      using standard_get [OF assms(1) directory_entries(2)] 2 by (simp_all add: nid_types_def STABLE_NO_MASK_def type_bits)
    from set [OF directory_entries(2) [folded 2]] show ?thesis
      using 2 unfolding types(1) if_not_P [OF types(2)] by (auto simp: within_def dest!: picked)
  next
    case 3
    have types: "nid_types nid ts = B_ASN1_IA5STRING" "B_ASN1_IA5STRING \<noteq> 0"
      using standard_get [OF assms(1) directory_entries(3)] 3 by (simp_all add: nid_types_def STABLE_NO_MASK_def type_bits)
    from set [OF directory_entries(3) [folded 3]] show ?thesis
      using 3 unfolding types(1) if_not_P [OF types(2)] by (auto simp: within_def dest!: picked)
  qed
qed


theorem standard_attributes_witness:
  "\<exists>st' vs str. ASN1_STRING_set_by_NID 0 1 7 (data_mem (Some [0x55, 0x53])) None False 1 2 MBSTRING_UTF8 13 str_store = Ok 7 st' \<and>
    is_text MBSTRING_UTF8 (mem_bytes (data_mem (Some [0x55, 0x53])) 1 (nat 2)) vs \<and> strings st' 7 = Some str \<and>
    str_type str = V_ASN1_UTF8STRING \<and> 1 \<le> length vs"
proof -
  let ?m = "data_mem (Some [0x55, 0x53])"
  have hold: "tables_hold None []" by (simp add: tables_hold_def)
  have nid: "asn1_string_table_get 13 None = Some (entry 13 1 64 DIRSTRING_TYPE 0)"
    by (simp add: get_entry [OF hold] standard_entry_def tbl_standard_def)
  then have limits: "nid_limits 13 None = (1, 64)" "nid_types 13 None = B_ASN1_UTF8STRING"
    by (simp_all add: nid_limits_def nid_types_def DIRSTRING_TYPE_def type_bits)
  have acc: "mb_accepts ?m 1 2 MBSTRING_UTF8 B_ASN1_UTF8STRING 1 64 [0x55, 0x53] V_ASN1_UTF8STRING" by code_simp
  have store: "1 < flush_depth (str_cbb str_store)" "\<forall>k. allocates (str_cbb str_store) k" "False \<longrightarrow> out_live str_store"
    by (simp_all add: str_store_def text_store_def)
  have "\<exists>vs. mb_accepts ?m 1 2 MBSTRING_UTF8 (nid_types 13 None) (fst (nid_limits 13 None)) (snd (nid_limits 13 None)) vs V_ASN1_UTF8STRING \<and>
      (7 :: nat) = nid_cell 7 False str_store \<and> encoded (form_of V_ASN1_UTF8STRING) [0x55, 0x53] = encoded (form_of V_ASN1_UTF8STRING) vs"
    using acc unfolding limits by (intro exI [of _ "[0x55, 0x53]"]) (simp add: nid_cell_def)
  with set_by_NID_iff [of 2 13 None str_store False 1 0 1 7 ?m MBSTRING_UTF8 7 V_ASN1_UTF8STRING "encoded (form_of V_ASN1_UTF8STRING) [0x55, 0x53]"] store
  obtain st' where run: "ASN1_STRING_set_by_NID 0 1 7 ?m None False 1 2 MBSTRING_UTF8 13 str_store = Ok 7 st'"
    by (auto simp: limits INT_MAX_def)
  from standard_attributes [OF hold _ _ store(1,3) _ run] run show ?thesis by (auto simp: INT_MAX_def)
qed

section \<open>A registered entry without UTF8String\<close>

lemma directory_latin1:
  "mb_pick DIRSTRING_TYPE (map ucast (bs :: byte list)) =
     Some (if \<forall>c\<in>set bs. asn1_is_printable (ucast c) then V_ASN1_PRINTABLESTRING else V_ASN1_T61STRING)"
proof -
  have small: "(ucast (c :: byte) :: u32) \<le> 0xFF" for c using unat_less8 [of c] by (simp add: word_le_nat_alt unat_ucast_up)
  then have latin: "list_all (\<lambda>v. v \<le> 0xFF) (map ucast bs :: u32 list)" by (simp add: list_all_iff)
  have ascii: "list_all asn1_is_printable (map ucast bs) = (\<forall>c\<in>set bs. asn1_is_printable (ucast c))" by (simp add: list_all_iff)
  show ?thesis
    unfolding mb_pick_def mb_types_def using latin ascii by (simp add: DIRSTRING_TYPE_def type_bits)
qed

text \<open>C37. Without \<open>STABLE_NO_MASK\<close> an entry is meant to allow UTF8String only. But where the registered types do not
  contain UTF8String, what is left of them is an empty mask, which stands for a DirectoryString: even where they
  do not contain T61String either, a Latin-1 text that is not printable becomes a T61String, which then neither
  the entry nor the rule permits.\<close>

theorem registered_mask_ignored:
  assumes "tables_hold ts xs" "ASN1_STRING_TABLE_add serves nid 0 0 types flags ts = (True, ts')"
    "flags AND STABLE_NO_MASK = 0" "types AND B_ASN1_UTF8STRING = 0" "types AND B_ASN1_T61STRING = 0"
    "0 \<le> len" "4 * len < INT_MAX" "1 < flush_depth (str_cbb st)" "wants \<longrightarrow> out_live st" "inp \<noteq> 0" "\<forall>k. allocates (str_cbb st) k"
    "\<exists>c\<in>set (mem_bytes m inp (nat len)). \<not> asn1_is_printable (ucast c)"
  shows "\<exists>d st' str. ASN1_STRING_set_by_NID b p s m ts' wants inp len MBSTRING_ASC nid st = Ok d st' \<and>
    strings st' d = Some str \<and> str_type str = V_ASN1_T61STRING \<and> holds str (mem_bytes m inp (nat len))"
proof -
  let ?bs = "mem_bytes m inp (nat len)"
  note added = add_entry [OF assms(1,2)]
  have "standard_entry nid = None" using get_entry [OF assms(1), of nid] added(2) by (auto split: option.splits)
  then have "asn1_string_table_get nid ts' = Some (entry nid 0 0 types flags)"
    using get_entry [OF added(1), of nid] by simp
  then have nid: "nid_limits nid ts' = (0, 0)" "nid_types nid ts' = 0"
    using assms(3,4) by (simp_all add: nid_limits_def nid_types_def)
  have pick: "mb_pick DIRSTRING_TYPE (map ucast ?bs) = Some V_ASN1_T61STRING" using assms(12) directory_latin1 [of ?bs] by auto
  have "mb_accepts m inp len MBSTRING_ASC 0 0 0 (map ucast ?bs) V_ASN1_T61STRING"
    using pick latin1_text [of ?bs "map ucast ?bs"]
    by (simp add: mb_accepts_def has_bom_def wide_def within_def forms)
  moreover have "?bs = encoded (form_of V_ASN1_T61STRING) (map ucast ?bs)"
    using latin1_text [of ?bs "map ucast ?bs"] by (simp add: is_text_def form_of_def type_tags)
  ultimately show ?thesis
    using set_by_NID_iff [of len nid ts' st wants inp b p s m MBSTRING_ASC "nid_cell s wants st" V_ASN1_T61STRING ?bs] assms(6-11)
    unfolding nid by auto
qed

theorem registered_mask_ignored_witness:
  "\<exists>ts' d st' str. ASN1_STRING_TABLE_add (\<lambda>_. True) 500 0 0 B_ASN1_PRINTABLESTRING 0 None = (True, ts') \<and>
    ASN1_STRING_set_by_NID 0 1 7 (data_mem (Some [0x40])) ts' True 1 1 MBSTRING_ASC 500 str_store = Ok d st' \<and>
    strings st' d = Some str \<and> str_type str = V_ASN1_T61STRING"
proof -
  have hold: "tables_hold None []" by (simp add: tables_hold_def)
  obtain ok ts' where run: "ASN1_STRING_TABLE_add (\<lambda>_. True) 500 0 0 B_ASN1_PRINTABLESTRING 0 None = (ok, ts')"
    by (metis surj_pair)
  have "asn1_string_table_get 500 None = None"
    by (simp add: get_entry [OF hold] standard_entry_def tbl_standard_def)
  then have ok using add_entry(3) [OF hold run] by simp
  moreover have "\<exists>c\<in>set (mem_bytes (data_mem (Some [0x40])) 1 (nat 1)). \<not> asn1_is_printable (ucast c)" by code_simp
  moreover have "1 < flush_depth (str_cbb str_store)" "\<forall>k. allocates (str_cbb str_store) k" "out_live str_store"
    by (simp_all add: str_store_def text_store_def out_live_def)
  ultimately show ?thesis
    using registered_mask_ignored [OF hold, of "\<lambda>_. True" 500 B_ASN1_PRINTABLESTRING 0 ts' 1 str_store True 1 "data_mem (Some [0x40])" 0 1 7] run
    by (auto simp: INT_MAX_def type_bits)
qed

end
