(* ===== verification/ASN1_Header.thy ===== *)
theory ASN1_Header
  imports CBS_Spec
begin

unbundle bit_operations_syntax

text \<open>
  The older reader and writer of element headers in \<open>crypto/asn1/asn1_lib.c\<close>, on bare pointers. The writer
  writes the header of X.690, the size that is announced is the number of its bytes with the
  content, the reader stays inside of its limit, gives back what the writer wrote, and agrees
  with the readers of \<open>cbs.c\<close> wherever these find an element.
\<close>

section \<open>The reader\<close>

definition V_ASN1_CONSTRUCTED :: byte where "V_ASN1_CONSTRUCTED = 0x20"
definition V_ASN1_PRIVATE :: byte where "V_ASN1_PRIVATE = 0xC0"
definition V_ASN1_PRIMITIVE_TAG :: byte where "V_ASN1_PRIMITIVE_TAG = 0x1F"
definition V_ASN1_UNIVERSAL :: byte where "V_ASN1_UNIVERSAL = 0"
definition V_ASN1_MAX_UNIVERSAL :: int where "V_ASN1_MAX_UNIVERSAL = 0xFF"

text \<open>What the reader leaves through its pointers (\<open>*pp\<close>, \<open>*plength\<close>, \<open>*ptag\<close>, \<open>*pclass\<close>) and in the error
  queue. \<open>Ok ret\<close> is a return of the bit \<open>ret\<close>, \<open>Fail\<close> a return of \<open>0x80\<close>.\<close>

datatype header_error = HEADER_TOO_LONG | TOO_LONG

record header_out =
  hdr_pos :: addr
  hdr_length :: int
  hdr_tag :: int
  hdr_class :: byte
  hdr_errors :: "header_error list"

definition header_fail :: "header_error \<Rightarrow> header_out \<Rightarrow> (byte, header_out) outcome" where
  "header_fail e out = Fail (out\<lparr>hdr_errors := hdr_errors out @ [e]\<rparr>)"

text \<open>The digits of a high tag number but the last one. \<open>l\<close> stays below \<open>2 ^ 31\<close>, so that the signed type
  of the code has the same value. A round takes one from \<open>left\<close> (\<open>max\<close> in the code), and \<open>n\<close> rounds
  are enough for a limit of \<open>n\<close>; only a negative limit runs out of them.\<close>

fun high_tag_loop :: "nat \<Rightarrow> mem \<Rightarrow> addr \<Rightarrow> int \<Rightarrow> u64 \<Rightarrow> (addr \<times> int \<times> u64, unit) outcome" where
  "high_tag_loop n m p left l =
     (if m p AND 0x80 = 0 then Ok (p, left, l) ()
      else case n of
        0 \<Rightarrow> Fuel
      | Suc n \<Rightarrow>
          let l = push_bit 7 l OR ucast (m p AND 0x7F) in
          if left - 1 = 0 then Fail ()
          else if 0xFFFFFF < l then Fail ()
          else high_tag_loop n m (p + 1) (left - 1) l)"

declare high_tag_loop.simps [simp del]

definition get_tag :: "mem \<Rightarrow> addr \<Rightarrow> int \<Rightarrow> (addr \<times> int \<times> int, unit) outcome" where
  "get_tag m p left =
     (let i = m p AND V_ASN1_PRIMITIVE_TAG in
      if i = V_ASN1_PRIMITIVE_TAG then
        if left - 1 = 0 then Fail ()
        else
          (case high_tag_loop (nat left) m (p + 1) (left - 1) 0 of
             Ok (p, left, l) _ \<Rightarrow>
               let l = push_bit 7 l OR ucast (m p AND 0x7F); tag = sint (ucast l :: u32) in
               if left - 1 = 0 then Fail () else Ok (p + 1, left - 1, tag) ()
           | Fail _ \<Rightarrow> Fail ()
           | Undef \<Rightarrow> Undef
           | Fuel \<Rightarrow> Fuel)
      else if left - 1 = 0 then Fail () else Ok (p + 1, left - 1, uint i) ())"

definition asn1_get_length :: "mem \<Rightarrow> addr \<Rightarrow> int \<Rightarrow> (addr \<times> int) option" where
  "asn1_get_length m p left =
     (if left < 1 then None
      else if m p = 0x80 then None
      else
        let left = left - 1; i = unat (m p AND 0x7F) in
        if m p AND 0x80 \<noteq> 0 \<and> (8 < i \<or> left < int i) then None
        else
          let (ret, p) =
            (if m p AND 0x80 \<noteq> 0
             then (foldl (\<lambda>ret b. push_bit 8 ret OR ucast b) (0 :: u64) (mem_bytes m (p + 1) i), p + 1 + of_nat i)
             else (of_nat i, p + 1))
          in if 0x3FFFFFFF < ret then None else Some (p, uint ret))"

definition ASN1_get_object :: "mem \<Rightarrow> int \<Rightarrow> header_out \<Rightarrow> (byte, header_out) outcome" where
  "ASN1_get_object m omax out =
     (let pp = hdr_pos out in
      if omax = 0 then header_fail HEADER_TOO_LONG out
      else
        (case get_tag m pp omax of
           Ok (p, left, tag) _ \<Rightarrow>
             let ret = m pp AND V_ASN1_CONSTRUCTED; xclass = m pp AND V_ASN1_PRIVATE in
             if xclass = V_ASN1_UNIVERSAL \<and> V_ASN1_MAX_UNIVERSAL < tag then header_fail HEADER_TOO_LONG out
             else
               let out = out\<lparr>hdr_tag := tag, hdr_class := xclass\<rparr> in
               (case asn1_get_length m p left of
                  None \<Rightarrow> header_fail HEADER_TOO_LONG out
                | Some (p, len) \<Rightarrow>
                    let out = out\<lparr>hdr_length := len\<rparr> in
                    if omax - sint (p - pp) < len then header_fail TOO_LONG out
                    else Ok ret (out\<lparr>hdr_pos := p\<rparr>))
         | Fail _ \<Rightarrow> header_fail HEADER_TOO_LONG out
         | Undef \<Rightarrow> Undef
         | Fuel \<Rightarrow> Fuel))"

section \<open>The writer\<close>

text \<open>The number of shifts by \<open>k\<close> that make \<open>v\<close> vanish.\<close>

function shift_count :: "nat \<Rightarrow> int \<Rightarrow> nat" where
  "shift_count k v = (if 0 < k \<and> 0 < v then Suc (shift_count k (drop_bit k v)) else 0)"
  by pat_completeness auto
termination
proof (relation "measure (\<lambda>(k, v). nat v)")
  fix k :: nat and v :: int
  assume "0 < k \<and> 0 < v"
  then have "v div 2 ^ k < v" by (intro int_div_less_self) simp_all
  with \<open>0 < k \<and> 0 < v\<close> show "((k, drop_bit k v), (k, v)) \<in> measure (\<lambda>(k, v). nat v)"
    by (simp add: drop_bit_eq_div)
qed simp

declare shift_count.simps [simp del]

text \<open>The digits of a tag, the last one of \<open>ttag\<close> first, and the octets of a length.\<close>

primrec put_septets :: "nat \<Rightarrow> nat \<Rightarrow> addr \<Rightarrow> int \<Rightarrow> mem \<Rightarrow> mem" where
  "put_septets ttag 0 p tag m = m"
| "put_septets ttag (Suc i) p tag m =
     (let b = word_of_int tag AND 0x7F; b = (if int i \<noteq> int ttag - 1 then b OR 0x80 else b)
      in put_septets ttag i p (drop_bit 7 tag) (m(p + of_nat i := b)))"

primrec put_octets :: "nat \<Rightarrow> addr \<Rightarrow> int \<Rightarrow> mem \<Rightarrow> mem" where
  "put_octets 0 p len m = m"
| "put_octets (Suc i) p len m = put_octets i p (drop_bit 8 len) (m(p + of_nat i := word_of_int len AND 0xFF))"

text \<open>The writers take the memory and \<open>*pp\<close>.\<close>

definition asn1_put_length :: "int \<Rightarrow> mem \<times> addr \<Rightarrow> mem \<times> addr" where
  "asn1_put_length len = (\<lambda>(m, p).
     if len \<le> 127 then (m(p := word_of_int len), p + 1)
     else
       let l = shift_count 8 len
       in (put_octets l (p + 1) len (m(p := of_nat l OR 0x80)), p + 1 + of_nat l))"

definition ASN1_put_object :: "int \<Rightarrow> int \<Rightarrow> int \<Rightarrow> byte \<Rightarrow> mem \<times> addr \<Rightarrow> mem \<times> addr" where
  "ASN1_put_object constructed len tag xclass = (\<lambda>(m, p).
     let i = (if constructed \<noteq> 0 then V_ASN1_CONSTRUCTED else 0) OR (xclass AND V_ASN1_PRIVATE);
         (m, p) =
           (if tag < 31 then (m(p := i OR (word_of_int tag AND V_ASN1_PRIMITIVE_TAG)), p + 1)
            else
              let ttag = shift_count 7 tag
              in (put_septets ttag ttag (p + 1) tag (m(p := i OR V_ASN1_PRIMITIVE_TAG)), p + 1 + of_nat ttag))
     in if constructed = 2 then (m(p := 0x80), p + 1) else asn1_put_length len (m, p))"

definition ASN1_put_eoc :: "mem \<times> addr \<Rightarrow> mem \<times> addr" where
  "ASN1_put_eoc = (\<lambda>(m, p). (m(p := 0, p + 1 := 0), p + 2))"

definition ASN1_object_size :: "int \<Rightarrow> int \<Rightarrow> int \<Rightarrow> int" where
  "ASN1_object_size constructed len tag =
     (if len < 0 then -1
      else
        let ret = 1 + (if 31 \<le> tag then int (shift_count 7 tag) else 0);
            ret = (if constructed = 2 then ret + 3
                   else ret + 1 + (if 127 < len then int (shift_count 8 len) else 0))
        in if 2147483647 - len \<le> ret then -1 else ret + len)"

section \<open>What is written\<close>

text \<open>The header of X.690: identifier octets, and length octets or the octet of an indefinite length.\<close>

definition id_octets :: "bool \<Rightarrow> nat \<Rightarrow> byte \<Rightarrow> byte list" where
  "id_octets constructed tag xclass =
     (let i = (if constructed then 0x20 else 0) OR (xclass AND 0xC0)
      in if tag < 31 then [i OR of_nat tag] else (i OR 0x1F) # base128 tag)"

definition object_header :: "int \<Rightarrow> nat \<Rightarrow> nat \<Rightarrow> byte \<Rightarrow> byte list" where
  "object_header constructed len tag xclass =
     id_octets (constructed \<noteq> 0) tag xclass @ (if constructed = 2 then [0x80] else der_length len)"

lemma write_later:
  "\<forall>i<length bs. x \<noteq> a + of_nat i \<Longrightarrow> mem_write (m(x := b)) a bs = (mem_write m a bs)(x := b)"
proof (induction bs arbitrary: m a)
  case (Cons c bs)
  have "x \<noteq> a" "\<forall>i<length bs. x \<noteq> a + 1 + of_nat i"
    using Cons.prems by (auto simp: add.assoc dest: spec [of _ 0] spec [of _ "Suc _"])
  then show ?case
    using Cons.IH [of "a + 1" "m(a := c)"] fun_upd_twist [of x a m b c] by (simp del: fun_upd_apply)
qed simp

lemma write_snoc:
  assumes "length bs < 2 ^ 64"
  shows "mem_write (m(a + of_nat (length bs) := b)) a bs = mem_write m a (bs @ [b])"
proof -
  have "\<forall>i<length bs. a + of_nat (length bs) \<noteq> a + of_nat i"
    using assms by (auto dest: arg_cong [of _ _ unat] simp: unat_of_nat_addr)
  from write_later [OF this, of m b] show ?thesis by (simp add: mem_write_append)
qed

lemma shift_nat: "drop_bit 7 (int n) = int (n div 128)" "drop_bit 8 (int n) = int (n div 256)"
  by (simp_all add: drop_bit_eq_div zdiv_int)

lemma front_count: "length (base128_front n) = shift_count 7 (int n)"
proof (induction n rule: base128_front.induct)
  case (1 n)
  then show ?case
    by (subst base128_front.simps, subst shift_count.simps) (simp add: shift_nat)
qed

lemma base128_count: "0 < n \<Longrightarrow> length (base128 n) = shift_count 7 (int n)"
  by (subst shift_count.simps) (simp add: base128_def front_count shift_nat)

lemma octets_count: "octets n = shift_count 8 (int n)"
proof (induction n rule: octets.induct)
  case (1 n)
  then show ?case by (subst octets.simps, subst shift_count.simps) (simp add: shift_nat)
qed

lemma octets_split: "be_bytes (Suc n) (v :: u64) = be_bytes n (drop_bit 8 v) @ [ucast v]"
  by (simp add: be_bytes_def word_le_bytes_Suc)

lemma int_of_nat: "word_of_int (int n) = (of_nat n :: 'a::len word)"
  by simp

lemma low_septet: "(of_nat n AND 0x7F :: byte) = of_nat (n mod 128)"
  by (simp add: byte_masks word_unat_eq_iff unat_and_mask unat_of_nat take_bit_eq_mod mod_mod_cancel)

lemma low_tag: "n < 32 \<Longrightarrow> (of_nat n AND 0x1F :: byte) = of_nat n"
  by (simp add: byte_masks word_unat_eq_iff unat_and_mask unat_of_nat8)

lemma or_high: "k < 128 \<Longrightarrow> (of_nat k OR 0x80 :: byte) = of_nat (128 + k)"
proof -
  assume "k < 128"
  then have "(of_nat k :: byte) AND 0x80 = 0" using high_bit [of "of_nat k"] unat_of_nat8 [of k] by auto
  from disjunctive_add_eq_or [OF this] show ?thesis by (simp add: add.commute)
qed

text \<open>The loops write from the last digit to the first, the strings of \<open>DER\<close>.\<close>

lemma put_front:
  assumes "length (base128_front n) = i" "i < 2 ^ 64" "i < ttag"
  shows "put_septets ttag i p (int n) m = mem_write m p (base128_front n)"
  using assms
proof (induction i arbitrary: n m)
  case (Suc i)
  let ?b = "of_nat (128 + n mod 128) :: byte"
  have n: "n \<noteq> 0" using Suc.prems(1) by (cases "n = 0") (simp_all add: base128_front.simps [of 0])
  have front: "base128_front n = base128_front (n div 128) @ [?b]"
    using n by (subst base128_front.simps) simp
  then have i: "length (base128_front (n div 128)) = i" using Suc.prems(1) by simp
  have "((of_nat n AND 0x7F) OR 0x80 :: byte) = ?b" using or_high [of "n mod 128"] by (simp add: low_septet)
  moreover have "int i \<noteq> int ttag - 1" using Suc.prems(3) by simp
  ultimately have "put_septets ttag (Suc i) p (int n) m = put_septets ttag i p (int (n div 128)) (m(p + of_nat i := ?b))"
    by (simp add: Let_def shift_nat)
  also have "\<dots> = mem_write (m(p + of_nat i := ?b)) p (base128_front (n div 128))"
    using Suc.prems by (intro Suc.IH [OF i]) simp_all
  also have "\<dots> = mem_write m p (base128_front n)"
    unfolding front using write_snoc [of "base128_front (n div 128)" m p ?b] i Suc.prems(2) by simp
  finally show ?case .
qed simp

lemma put_septets_base128:
  assumes "0 < n" "length (base128 n) < 2 ^ 64"
  shows "put_septets (length (base128 n)) (length (base128 n)) p (int n) m = mem_write m p (base128 n)"
proof -
  let ?k = "length (base128_front (n div 128))" and ?b = "of_nat (n mod 128) :: byte"
  have len: "length (base128 n) = Suc ?k" by (simp add: base128_def)
  have "put_septets (Suc ?k) (Suc ?k) p (int n) m = put_septets (Suc ?k) ?k p (int (n div 128)) (m(p + of_nat ?k := ?b))"
    by (simp add: Let_def shift_nat low_septet)
  also have "\<dots> = mem_write (m(p + of_nat ?k := ?b)) p (base128_front (n div 128))"
    using assms(2) len by (intro put_front) simp_all
  also have "\<dots> = mem_write m p (base128 n)"
    using write_snoc [of "base128_front (n div 128)" m p ?b] assms(2) len by (simp add: base128_def)
  finally show ?thesis unfolding len .
qed

lemma put_octets_be:
  assumes "i < 2 ^ 64" "n < 2 ^ 64"
  shows "put_octets i p (int n) m = mem_write m p (be_bytes i (of_nat n :: u64))"
  using assms
proof (induction i arbitrary: n m)
  case (Suc i)
  have "(0xFF :: byte) = -1" by simp
  then have b: "(of_nat n AND 0xFF :: byte) = ucast (of_nat n :: u64)"
    by (simp only: and.right_neutral) (rule bit_word_eqI, simp add: bit_simps)
  have d: "drop_bit 8 (of_nat n :: u64) = of_nat (n div 256)"
    using Suc.prems(2) unat_drop_bit_eq [of 8 "of_nat n :: u64"]
    by (simp add: word_unat_eq_iff unat_of_nat_addr drop_bit_eq_div [where 'a = nat] order.strict_trans1 [OF div_le_dividend]
        del: unsigned_drop_bit_eq)
  have "put_octets (Suc i) p (int n) m = put_octets i p (int (n div 256)) (m(p + of_nat i := ucast (of_nat n :: u64)))"
    by (simp add: shift_nat b)
  also have "\<dots> = mem_write (m(p + of_nat i := ucast (of_nat n :: u64))) p (be_bytes i (of_nat (n div 256) :: u64))"
    using Suc.prems by (intro Suc.IH) (simp_all add: order.strict_trans1 [OF div_le_dividend])
  also have "\<dots> = mem_write m p (be_bytes (Suc i) (of_nat n :: u64))"
    unfolding octets_split d using write_snoc [of "be_bytes i (of_nat (n div 256) :: u64)" m p] Suc.prems(1) by simp
  finally show ?case .
qed (simp add: be_bytes_def word_le_bytes_def)

lemma asn1_put_length_writes:
  assumes "len \<le> 2147483647"
  shows "asn1_put_length (int len) (m, p) = (mem_write m p (der_length len), p + of_nat (length (der_length len)))"
proof (cases "len < 128")
  case False
  have o: "octets len \<le> 4" "octets len \<noteq> 0" using octets_small [of len] assms False by (auto simp: octets.simps)
  have "(of_nat (octets len) OR 0x80 :: byte) = of_nat (128 + octets len)" using o by (intro or_high) simp
  moreover have "put_octets (octets len) (p + 1) (int len) m' = mem_write m' (p + 1) (be_bytes (octets len) (of_nat len :: u64))" for m'
    using o assms by (intro put_octets_be) simp_all
  ultimately show ?thesis
    using False by (simp add: asn1_put_length_def der_length_def octets_count [symmetric] Let_def algebra_simps)
qed (simp add: asn1_put_length_def der_length_def)

lemma length_header:
  assumes "len \<le> 2147483647" "tag \<le> 2147483647"
  shows "length (id_octets c tag xclass) \<le> 6" "length (der_length len) \<le> 5" "length (object_header cs len tag xclass) \<le> 11"
proof -
  have front: "n < 128 ^ k \<Longrightarrow> length (base128_front n) \<le> k" for n k
  proof (induction k arbitrary: n)
    case (Suc k)
    then show ?case
      using Suc.IH [of "n div 128"] by (subst base128_front.simps) (simp add: div_less_iff_less_mult mult.commute)
  qed (simp add: base128_front.simps)
  show id: "length (id_octets c tag xclass) \<le> 6" for c
    using front [of "tag div 128" 4] assms(2) by (simp add: id_octets_def Let_def base128_def div_less_iff_less_mult)
  show len: "length (der_length len) \<le> 5" using octets_small [of len] assms(1) by (simp add: der_length_def)
  show "length (object_header cs len tag xclass) \<le> 11" using id [of "cs \<noteq> 0"] id [of True] len by (simp add: object_header_def)
qed

lemma put_object_writes:
  assumes "len \<le> 2147483647" "tag \<le> 2147483647"
  shows "ASN1_put_object c (int len) (int tag) xclass (m, p) =
    (mem_write m p (object_header c len tag xclass), p + of_nat (length (object_header c len tag xclass)))"
proof -
  let ?i = "(if c \<noteq> 0 then 0x20 else 0) OR (xclass AND 0xC0) :: byte" and ?id = "id_octets (c \<noteq> 0) tag xclass"
  let ?first = "if int tag < 31 then (m(p := ?i OR (word_of_int (int tag) AND 0x1F)), p + 1)
    else (put_septets (shift_count 7 (int tag)) (shift_count 7 (int tag)) (p + 1) (int tag) (m(p := ?i OR 0x1F)), p + 1 + of_nat (shift_count 7 (int tag)))"
  have "?first = (mem_write m p ?id, p + of_nat (length ?id))"
  proof (cases "tag < 31")
    case True
    then show ?thesis by (simp add: id_octets_def Let_def low_tag)
  next
    case False
    then have "0 < tag" by simp
    moreover have "length (base128 tag) < 2 ^ 64" using length_header(1) [OF assms, of False xclass] False by (simp add: id_octets_def Let_def)
    ultimately show ?thesis
      using False put_septets_base128 [of tag "p + 1"]
      by (simp add: id_octets_def Let_def base128_count [symmetric] algebra_simps)
  qed
  moreover have "ASN1_put_object c (int len) (int tag) xclass (m, p) =
      (case ?first of (m, p) \<Rightarrow> if c = 2 then (m(p := 0x80), p + 1) else asn1_put_length (int len) (m, p))"
    by (simp only: ASN1_put_object_def V_ASN1_CONSTRUCTED_def V_ASN1_PRIVATE_def V_ASN1_PRIMITIVE_TAG_def Let_def prod.case)
  ultimately show ?thesis
    using asn1_put_length_writes [OF assms(1)] by (simp add: object_header_def mem_write_append add.assoc)
qed

lemma object_size:
  assumes "len \<le> 2147483647" "tag \<le> 2147483647"
  shows "ASN1_object_size c (int len) (int tag) =
    (let n = int (length (object_header c len tag xclass)) + (if c = 2 then 2 else 0)
     in if 2147483647 \<le> n + int len then -1 else n + int len)"
proof -
  have "length (id_octets b tag xclass) = 1 + (if 31 \<le> int tag then shift_count 7 (int tag) else 0)" for b
    using base128_count [of tag] by (simp add: id_octets_def Let_def)
  moreover have "length (der_length len) = 1 + (if 127 < int len then shift_count 8 (int len) else 0)"
    by (simp add: der_length_def octets_count)
  ultimately show ?thesis
    by (simp add: ASN1_object_size_def object_header_def Let_def)
qed

section \<open>What is read\<close>

lemma value_mono: "v \<le> base128_value v xs"
proof (induction xs arbitrary: v)
  case (Cons b xs)
  from Cons.IH [of "128 * v + unat b mod 128"] show ?case by simp
qed simp

lemma high_tag_reads:
  assumes "\<forall>b\<in>set xs. 128 \<le> unat b" "mem_bytes m p (length xs) = xs" "unat (m (p + of_nat (length xs))) < 128"
    "base128_value (unat l) xs \<le> 0xFFFFFF" "int (length xs) < left" "length xs \<le> n"
  shows "high_tag_loop n m p left l = Ok (p + of_nat (length xs), left - int (length xs), of_nat (base128_value (unat l) xs)) ()"
  using assms
proof (induction xs arbitrary: n p left l)
  case Nil
  then show ?case using high_bit [of "m p"] by (subst high_tag_loop.simps) auto
next
  case (Cons b xs)
  obtain n' where n: "n = Suc n'" using Cons.prems(6) by (cases n) auto
  let ?l = "push_bit 7 l OR ucast (b AND 0x7F) :: u64"
  have b: "m p = b" "mem_bytes m (p + 1) (length xs) = xs" using Cons.prems(2) by (simp_all add: mem_bytes_Suc)
  have small: "128 * unat l + unat b mod 128 \<le> 0xFFFFFF"
    using value_mono [of "128 * unat l + unat b mod 128" xs] Cons.prems(4) by simp
  then have l: "unat ?l = 128 * unat l + unat b mod 128" by (intro septet_step) simp
  have "high_tag_loop n' m (p + 1) (left - 1) ?l =
      Ok (p + 1 + of_nat (length xs), left - 1 - int (length xs), of_nat (base128_value (unat ?l) xs)) ()"
    using Cons.prems b(2) l by (intro Cons.IH) (simp_all add: n add.assoc)
  moreover have "m p AND 0x80 \<noteq> 0" using high_bit [of b] b(1) Cons.prems(1) by simp
  moreover have "\<not> 0xFFFFFF < ?l" using small l by (simp add: word_less_nat_alt)
  moreover have "left - 1 \<noteq> 0" using Cons.prems(5) by simp
  ultimately show ?case using b(1) l n by (subst high_tag_loop.simps) (simp add: Let_def algebra_simps)
qed

lemma front_high: "b \<in> set (base128_front n) \<Longrightarrow> 128 \<le> unat b"
proof (induction n rule: base128_front.induct)
  case (1 n)
  then show ?case by (subst (asm) (2) base128_front.simps) (auto simp: unat_septet split: if_splits simp del: of_nat_add)
qed

lemma id_parts:
  defines "b c x d \<equiv> ((if c then 0x20 else 0) OR (x AND 0xC0)) OR (d AND 0x1F) :: byte"
  shows "b c x d AND 0x1F = d AND 0x1F" "b c x d AND 0x20 = (if c then 0x20 else 0)" "b c x d AND 0xC0 = x AND 0xC0"
  by (simp_all add: b_def bit.conj_disj_distrib2 and.assoc)

lemma sint_small: "n \<le> 2147483647 \<Longrightarrow> sint (ucast (of_nat n :: u64) :: u32) = int n"
proof -
  assume n: "n \<le> 2147483647"
  then have "uint (ucast (of_nat n :: u64) :: u32) = int n"
    by (simp add: unsigned_ucast_eq take_bit_int_eq_self take_bit_nat_eq_self unsigned_of_nat)
  then show ?thesis using n by (simp add: sint_uint signed_take_bit_int_eq_self)
qed

lemma get_tag_reads:
  assumes "mem_bytes m p (length (id_octets c tag xclass)) = id_octets c tag xclass" "tag \<le> 2147483647"
    "int (length (id_octets c tag xclass)) < left"
  shows "get_tag m p left = Ok (p + of_nat (length (id_octets c tag xclass)), left - int (length (id_octets c tag xclass)), int tag) ()"
    "m p AND V_ASN1_CONSTRUCTED = (if c then 0x20 else 0)" "m p AND V_ASN1_PRIVATE = xclass AND 0xC0"
proof -
  let ?d = "if tag < 31 then of_nat tag else 0x1F :: byte"
  have d: "?d AND 0x1F = ?d" by (simp add: low_tag)
  have first: "m p = ((if c then 0x20 else 0) OR (xclass AND 0xC0)) OR (?d AND 0x1F)"
    unfolding d using assms(1) by (auto simp: id_octets_def Let_def mem_bytes_Suc split: if_splits)
  note parts = id_parts [of c xclass ?d, folded first]
  from parts show "m p AND V_ASN1_CONSTRUCTED = (if c then 0x20 else 0)" "m p AND V_ASN1_PRIVATE = xclass AND 0xC0"
    by (simp_all add: V_ASN1_CONSTRUCTED_def V_ASN1_PRIVATE_def)
  show "get_tag m p left = Ok (p + of_nat (length (id_octets c tag xclass)), left - int (length (id_octets c tag xclass)), int tag) ()"
  proof (cases "tag < 31")
    case True
    then have "of_nat tag \<noteq> (0x1F :: byte)" using unat_of_nat8 [of tag] by auto
    moreover have "uint (of_nat tag :: byte) = int tag" using True by (simp add: unsigned_of_nat take_bit_nat_eq_self)
    ultimately show ?thesis
      using True parts(1) assms(3) d by (simp add: get_tag_def id_octets_def V_ASN1_PRIMITIVE_TAG_def Let_def)
  next
    case False
    let ?f = "base128_front (tag div 128)" and ?last = "of_nat (tag mod 128) :: byte"
    have bytes: "mem_bytes m (p + 1) (length ?f) = ?f" "m (p + 1 + of_nat (length ?f)) = ?last"
      using assms(1) False mem_bytes_add [of m "p + 1" "length ?f" 1]
      by (simp_all add: id_octets_def Let_def base128_def mem_bytes_Suc)
    have val: "base128_value 0 ?f = tag div 128" using front_value [of "tag div 128" "[]"] by simp
    have "high_tag_loop (nat left) m (p + 1) (left - 1) 0 =
        Ok (p + 1 + of_nat (length ?f), left - 1 - int (length ?f), of_nat (tag div 128)) ()"
      using high_tag_reads [of ?f m "p + 1" 0 "left - 1" "nat left"] front_high bytes val assms(2,3) False
      by (simp add: unat_septet id_octets_def Let_def base128_def)
    moreover have "push_bit 7 (of_nat (tag div 128)) OR ucast (?last AND 0x7F) = (of_nat tag :: u64)"
    proof -
      have "unat (of_nat (tag div 128) :: u64) = tag div 128" using assms(2) by (intro unat_of_nat_addr) simp
      with septet_step [of "of_nat (tag div 128)" ?last] have "unat (push_bit 7 (of_nat (tag div 128)) OR ucast (?last AND 0x7F) :: u64) = tag"
        using assms(2) by (simp add: unat_septet)
      then show ?thesis by (metis of_nat_unat ucast_id)
    qed
    ultimately show ?thesis
      using False parts(1) assms(2,3) bytes(2) sint_small [of tag]
      by (simp add: get_tag_def id_octets_def V_ASN1_PRIMITIVE_TAG_def Let_def base128_def)
  qed
qed

lemma get_length_reads:
  assumes "mem_bytes m p (length (der_length len)) = der_length len" "len \<le> 0x3FFFFFFF" "int (length (der_length len)) \<le> left"
  shows "asn1_get_length m p left = Some (p + of_nat (length (der_length len)), int len)"
proof -
  have w: "unat (of_nat len :: u64) = len" "uint (of_nat len :: u64) = int len" "\<not> 0x3FFFFFFF < (of_nat len :: u64)"
    using assms(2) by (simp_all add: unat_of_nat_addr word_less_nat_alt unsigned_of_nat take_bit_nat_eq_self)
  show ?thesis
  proof (cases "len < 128")
    case True
    then have b: "m p = of_nat len" using assms(1) by (simp add: der_length_def mem_bytes_Suc)
    have "unat (m p) = len" using True by (simp add: b unat_of_nat8)
    then have "m p AND 0x80 = 0" "m p \<noteq> 0x80" "unat (m p AND 0x7F) = len"
      using True high_bit [of "m p"] unat_and_mask [of "m p" 7] by (auto simp: byte_masks)
    with True assms(3) w show ?thesis by (simp add: asn1_get_length_def der_length_def Let_def)
  next
    case False
    let ?o = "octets len"
    have o: "?o \<le> 4" "?o \<noteq> 0" using octets_small [of len] assms(2) False by (auto simp: octets.simps)
    have b: "m p = of_nat (128 + ?o)" "mem_bytes m (p + 1) ?o = be_bytes ?o (of_nat len :: u64)"
      using assms(1) False by (simp_all add: der_length_def mem_bytes_Suc del: of_nat_add)
    have "unat (m p) = 128 + ?o" unfolding b using o by (intro unat_of_nat8) simp
    then have "m p AND 0x80 \<noteq> 0" "m p \<noteq> 0x80" "unat (m p AND 0x7F) = ?o"
      using o high_bit [of "m p"] unat_and_mask [of "m p" 7] by (auto simp: byte_masks)
    moreover have "le_word (rev (be_bytes ?o (of_nat len :: u64))) = (of_nat len :: u64)"
    proof -
      have "len < 2 ^ (8 * ?o)" using octets_eq_bits [of ?o len] o by simp
      then have "take_bit (8 * ?o) (of_nat len :: u64) = of_nat len" by (simp add: fits_iff w)
      then show ?thesis by (simp add: be_bytes_def le_word_bytes)
    qed
    ultimately show ?thesis
      using False assms(3) w o b(2) by (simp add: asn1_get_length_def der_length_def Let_def be_fold)
  qed
qed

lemma sint_offset: "k < 2 ^ 63 \<Longrightarrow> sint (of_nat k :: addr) = int k"
  by (simp add: sint_uint signed_take_bit_int_eq_self unsigned_of_nat take_bit_nat_eq_self)

lemma get_object_reads:
  assumes "mem_bytes m (hdr_pos out) (length (object_header c len tag xclass)) = object_header c len tag xclass" "c \<noteq> 2"
    "len \<le> 0x3FFFFFFF" "tag \<le> 2147483647" "xclass AND 0xC0 = 0 \<longrightarrow> tag \<le> 0xFF"
    "int (length (object_header c len tag xclass) + len) \<le> omax"
  shows "ASN1_get_object m omax out = Ok (if c \<noteq> 0 then 0x20 else 0)
    (out\<lparr>hdr_pos := hdr_pos out + of_nat (length (object_header c len tag xclass)), hdr_length := int len, hdr_tag := int tag,
      hdr_class := xclass AND 0xC0\<rparr>)"
proof -
  let ?id = "id_octets (c \<noteq> 0) tag xclass" and ?len = "der_length len"
  have h: "object_header c len tag xclass = ?id @ ?len" using assms(2) by (simp add: object_header_def)
  have pos: "0 < length ?len" by (simp add: der_length_def)
  have bytes: "mem_bytes m (hdr_pos out) (length ?id) = ?id" "mem_bytes m (hdr_pos out + of_nat (length ?id)) (length ?len) = ?len"
    using assms(1) mem_bytes_add [of m "hdr_pos out" "length ?id" "length ?len"] by (simp_all add: h)
  have room: "int (length ?id) < omax" "int (length ?len) \<le> omax - int (length ?id)" "omax \<noteq> 0"
    using assms(6) pos unfolding h length_append by linarith+
  note tag = get_tag_reads [OF bytes(1) assms(4) room(1)]
  note len = get_length_reads [OF bytes(2) assms(3) room(2)]
  have "length ?id + length ?len \<le> 11" using length_header(3) [of len tag c xclass] assms(3,4) by (simp add: h)
  then have "sint (of_nat (length ?id + length ?len) :: addr) = int (length ?id + length ?len)" by (intro sint_offset) simp
  then show ?thesis
    using tag len room assms(5,6) unfolding h
    by (auto simp: ASN1_get_object_def Let_def V_ASN1_UNIVERSAL_def V_ASN1_MAX_UNIVERSAL_def add.assoc)
qed

section \<open>Inside of the limit\<close>

lemma mem_bytes_eqD:
  assumes "mem_bytes m p (nat left) = mem_bytes m' p (nat left)" "0 < left"
  shows "m p = m' p" "mem_bytes m (p + 1) (nat (left - 1)) = mem_bytes m' (p + 1) (nat (left - 1))"
proof -
  have "nat left = Suc (nat (left - 1))" using assms(2) by simp
  with assms(1) show "m p = m' p" "mem_bytes m (p + 1) (nat (left - 1)) = mem_bytes m' (p + 1) (nat (left - 1))"
    by (simp_all add: mem_bytes_Suc del: nat_diff_distrib')
qed

lemma high_tag_inside:
  assumes "0 < left" "mem_bytes m p (nat left) = mem_bytes m' p (nat left)" "nat left \<le> n" "l \<le> 0xFFFFFF"
  shows "high_tag_loop n m p left l = high_tag_loop n m' p left l \<and>
    (high_tag_loop n m p left l = Fail () \<or>
      (\<exists>k l'. high_tag_loop n m p left l = Ok (p + of_nat k, left - int k, l') () \<and> int k < left \<and> l' \<le> 0xFFFFFF))"
  using assms
proof (induction n arbitrary: p left l)
  case (Suc n)
  note same = mem_bytes_eqD [OF Suc.prems(2,1)]
  let ?l = "push_bit 7 l OR ucast (m p AND 0x7F) :: u64"
  show ?case
  proof (cases "m p AND 0x80 = 0 \<or> left - 1 = 0 \<or> 0xFFFFFF < ?l")
    case True
    then show ?thesis
      using Suc.prems(1,4) same(1) by (subst (1 2 3 4) high_tag_loop.simps) (auto simp: Let_def intro: exI [of _ 0])
  next
    case False
    then have "0 < left - 1" "nat (left - 1) \<le> n" "?l \<le> 0xFFFFFF" using Suc.prems(1,3) by auto
    from Suc.IH [OF this(1) same(2) this(2,3)] have ih: "high_tag_loop n m (p + 1) (left - 1) ?l = high_tag_loop n m' (p + 1) (left - 1) ?l"
      "high_tag_loop n m (p + 1) (left - 1) ?l = Fail () \<or> (\<exists>k l'. high_tag_loop n m (p + 1) (left - 1) ?l =
        Ok (p + 1 + of_nat k, left - 1 - int k, l') () \<and> int k < left - 1 \<and> l' \<le> 0xFFFFFF)" by blast+
    have "high_tag_loop (Suc n) mm p left l = high_tag_loop n mm (p + 1) (left - 1) ?l" if "mm p = m p" for mm
      using False that by (subst high_tag_loop.simps) (simp add: Let_def)
    note step = this [of m, OF refl] this [of m', OF same(1) [symmetric]]
    from ih(2) show ?thesis
    proof
      assume "\<exists>k l'. high_tag_loop n m (p + 1) (left - 1) ?l = Ok (p + 1 + of_nat k, left - 1 - int k, l') () \<and> int k < left - 1 \<and> l' \<le> 0xFFFFFF"
      then obtain k l' where "high_tag_loop n m (p + 1) (left - 1) ?l = Ok (p + of_nat (Suc k), left - int (Suc k), l') ()"
        "int (Suc k) < left" "l' \<le> 0xFFFFFF" by (auto simp: algebra_simps)
      then show ?thesis unfolding step ih(1) [symmetric] by blast
    qed (simp add: step ih(1) [symmetric])
  qed
qed simp

lemma get_tag_inside:
  assumes "0 < left" "mem_bytes m p (nat left) = mem_bytes m' p (nat left)"
  shows "get_tag m p left = get_tag m' p left \<and>
    (get_tag m p left = Fail () \<or>
      (\<exists>k tag. get_tag m p left = Ok (p + of_nat k, left - int k, tag) () \<and> 0 < k \<and> int k < left \<and> 0 \<le> tag \<and> tag \<le> 2147483647))"
proof -
  note same = mem_bytes_eqD [OF assms(2,1)]
  show ?thesis
  proof (cases "m p AND 0x1F = 0x1F \<and> left - 1 \<noteq> 0")
    case True
    let ?loop = "\<lambda>m. high_tag_loop (nat left) m (p + 1) (left - 1) 0"
    have tag: "get_tag mm p left = (case ?loop mm of
        Ok (q, left, l) _ \<Rightarrow> if left - 1 = 0 then Fail () else
          Ok (q + 1, left - 1, sint (ucast (push_bit 7 l OR ucast (mm q AND 0x7F)) :: u32)) ()
      | Fail _ \<Rightarrow> Fail () | Undef \<Rightarrow> Undef | Fuel \<Rightarrow> Fuel)" if "mm p = m p" for mm
      using True that unfolding get_tag_def V_ASN1_PRIMITIVE_TAG_def Let_def by simp
    note tags = tag [of m, OF refl] tag [of m', OF same(1) [symmetric]]
    have "0 < left - 1" "nat (left - 1) \<le> nat left" "(0 :: u64) \<le> 0xFFFFFF" using True assms(1) by simp_all
    from high_tag_inside [OF this(1) same(2) this(2,3)]
    have loop: "?loop m = ?loop m'" "?loop m = Fail () \<or>
        (\<exists>k l'. ?loop m = Ok (p + 1 + of_nat k, left - 1 - int k, l') () \<and> int k < left - 1 \<and> l' \<le> 0xFFFFFF)" by blast+
    from loop(2) show ?thesis
    proof
      assume "\<exists>k l'. ?loop m = Ok (p + 1 + of_nat k, left - 1 - int k, l') () \<and> int k < left - 1 \<and> l' \<le> 0xFFFFFF"
      then obtain k l where r: "?loop m = Ok (p + 1 + of_nat k, left - 1 - int k, l) ()" "int k < left - 1" "l \<le> 0xFFFFFF" by blast
      let ?q = "p + 1 + of_nat k"
      have q: "m' ?q = m ?q" using arg_cong [OF same(2), of "\<lambda>xs. xs ! k"] r(2) by simp
      define v where "v = push_bit 7 l OR ucast (m ?q AND 0x7F)"
      have v: "unat v \<le> 2147483647"
        using septet_step [of l "m ?q"] r(3) mod_less_divisor [of 128 "unat (m ?q)"] by (simp add: v_def word_le_nat_alt)
      have "sint (ucast v :: u32) = int (unat v)" using sint_small [OF v] unfolding of_nat_unat ucast_id .
      then have tag_range: "0 \<le> sint (ucast v :: u32)" "sint (ucast v :: u32) \<le> 2147483647" using v by linarith+
      have res: "get_tag mm p left = (if left - int (Suc (Suc k)) = 0 then Fail ()
          else Ok (p + of_nat (Suc (Suc k)), left - int (Suc (Suc k)), sint (ucast v :: u32)) ())"
        if "mm p = m p" "?loop mm = ?loop m" "mm ?q = m ?q" for mm
        unfolding tag [of mm, OF that(1)] that(2) r(1) using that(3) by (simp add: v_def algebra_simps)
      have "int (Suc (Suc k)) < left" if "left - int (Suc (Suc k)) \<noteq> 0" using r(2) that by simp
      then show ?thesis
        using tag_range res [of m] res [of m'] same(1) loop(1) q by (metis zero_less_Suc)
    qed (simp add: tags loop(1) [symmetric])
  next
    case False
    show ?thesis
    proof (cases "left = 1")
      case True
      then show ?thesis by (simp add: get_tag_def Let_def)
    next
      case left: False
      have "get_tag mm p left = Ok (p + of_nat 1, left - int 1, uint (m p AND 0x1F)) ()" if "mm p = m p" for mm
        using False left that by (simp add: get_tag_def V_ASN1_PRIMITIVE_TAG_def Let_def)
      from this [of m, OF refl] this [of m', OF same(1) [symmetric]]
      have "get_tag m p left = get_tag m' p left" "get_tag m p left = Ok (p + of_nat 1, left - int 1, uint (m p AND 0x1F)) ()"
        by simp_all
      moreover have "int 1 < left" "uint (m p AND 0x1F) \<le> 2147483647"
        using assms(1) left uint_lt2p [of "m p AND 0x1F"] by simp_all
      ultimately show ?thesis using uint_ge_0 [of "m p AND 0x1F"] zero_less_one by metis
    qed
  qed
qed

lemma get_length_inside:
  assumes "0 < left" "mem_bytes m p (nat left) = mem_bytes m' p (nat left)"
  shows "asn1_get_length m p left = asn1_get_length m' p left \<and>
    (asn1_get_length m p left = None \<or>
      (\<exists>k len. asn1_get_length m p left = Some (p + of_nat k, len) \<and> int k \<le> left \<and> k \<le> 9 \<and> 0 \<le> len \<and> len \<le> 0x3FFFFFFF))"
proof -
  note same = mem_bytes_eqD [OF assms(2,1)]
  let ?i = "unat (m p AND 0x7F)"
  have lim: "uint v \<le> 0x3FFFFFFF" if "\<not> 0x3FFFFFFF < v" for v :: u64 using that by (simp add: word_less_def)
  show ?thesis
  proof (cases "m p AND 0x80 \<noteq> 0 \<and> \<not> (8 < ?i \<or> left - 1 < int ?i)")
    case True
    have "int ?i \<le> left - 1" using True by linarith
    then have "nat (left - 1) = ?i + (nat (left - 1) - ?i)" by linarith
    with same(2) have "mem_bytes m (p + 1) ?i = mem_bytes m' (p + 1) ?i" by (metis append_eq_append_conv length_mem_bytes mem_bytes_add)
    with True assms(1) same(1) lim show ?thesis
      by (auto simp: asn1_get_length_def Let_def intro!: exI [of _ "Suc ?i"])
  next
    case False
    with assms(1) same(1) lim show ?thesis
      by (auto simp: asn1_get_length_def Let_def intro!: exI [of _ 1])
  qed
qed

text \<open>C39. Whatever the bytes: the reader looks only at the bytes within its limit, so that memories that agree there
  give the same result; where it succeeds, the header and the content that it announces lie within the
  limit, and the length and the tag fit in an \<open>int\<close>; where it fails, \<open>*pp\<close> stays and one error is recorded.\<close>

theorem get_object_inside:
  assumes "0 \<le> omax" "omax < 2 ^ 63" "mem_bytes m (hdr_pos out) (nat omax) = mem_bytes m' (hdr_pos out) (nat omax)"
  shows "ASN1_get_object m omax out = ASN1_get_object m' omax out \<and>
    (case ASN1_get_object m omax out of
       Ok ret out' \<Rightarrow> \<exists>k. hdr_pos out' = hdr_pos out + of_nat k \<and> int k + hdr_length out' \<le> omax \<and> 0 \<le> hdr_length out' \<and>
         hdr_length out' \<le> 0x3FFFFFFF \<and> 0 \<le> hdr_tag out' \<and> hdr_tag out' \<le> 2147483647 \<and> hdr_errors out' = hdr_errors out
     | Fail out' \<Rightarrow> hdr_pos out' = hdr_pos out \<and> (\<exists>e. hdr_errors out' = hdr_errors out @ [e])
     | _ \<Rightarrow> False)"
proof (cases "omax = 0")
  case False
  let ?p = "hdr_pos out"
  have "0 < omax" using assms(1) False by simp
  note tag = get_tag_inside [OF this assms(3)] and first = mem_bytes_eqD(1) [OF assms(3) this]
  from tag consider "get_tag m ?p omax = Fail ()" "get_tag m' ?p omax = Fail ()"
    | k t where "get_tag m ?p omax = Ok (?p + of_nat k, omax - int k, t) ()" "get_tag m' ?p omax = Ok (?p + of_nat k, omax - int k, t) ()"
      "int k < omax" "0 \<le> t" "t \<le> 2147483647" by metis
  then show ?thesis
  proof cases
    case 2
    have "nat omax = k + nat (omax - int k)" using 2(3) by simp
    with assms(3) have rest: "mem_bytes m (?p + of_nat k) (nat (omax - int k)) = mem_bytes m' (?p + of_nat k) (nat (omax - int k))"
      by (metis append_eq_append_conv length_mem_bytes mem_bytes_add)
    have "0 < omax - int k" using 2(3) by simp
    note len = get_length_inside [OF this rest]
    from len consider "asn1_get_length m (?p + of_nat k) (omax - int k) = None" "asn1_get_length m' (?p + of_nat k) (omax - int k) = None"
      | j l where "asn1_get_length m (?p + of_nat k) (omax - int k) = Some (?p + of_nat k + of_nat j, l)"
        "asn1_get_length m' (?p + of_nat k) (omax - int k) = Some (?p + of_nat k + of_nat j, l)"
        "int j \<le> omax - int k" "0 \<le> l" "l \<le> 0x3FFFFFFF" by metis
    then show ?thesis
    proof cases
      case L: 2
      have "sint (of_nat (k + j) :: addr) = int (k + j)" using L(3) assms(2) by (intro sint_offset) simp
      then have pos: "sint (?p + of_nat k + of_nat j - ?p) = int k + int j" by (simp add: add.assoc)
      show ?thesis
        using 2 L False first pos
        by (auto simp: ASN1_get_object_def Let_def header_fail_def intro!: exI [of _ "k + j"])
    qed (use 2 False first in \<open>simp_all add: ASN1_get_object_def Let_def header_fail_def\<close>)
  qed (use False in \<open>simp_all add: ASN1_get_object_def Let_def header_fail_def\<close>)
qed (simp add: ASN1_get_object_def Let_def header_fail_def)

definition header_in :: header_out where
  "header_in = \<lparr>hdr_pos = 0x1000, hdr_length = 0, hdr_tag = 0, hdr_class = 0, hdr_errors = []\<rparr>"

theorem get_object_inside_witness:
  "ASN1_get_object (mem_write (\<lambda>_. 0) 0x1000 [0x30, 0x82, 0x01]) 3 header_in =
   ASN1_get_object (mem_write (\<lambda>_. 0xFF) 0x1000 [0x30, 0x82, 0x01]) 3 header_in"
proof -
  have "mem_bytes (mem_write (\<lambda>_. 0) 0x1000 [0x30, 0x82, 0x01]) (hdr_pos header_in) (nat 3) =
      mem_bytes (mem_write (\<lambda>_. 0xFF) 0x1000 [0x30, 0x82, 0x01]) (hdr_pos header_in) (nat 3)"
    by (simp add: header_in_def mem_bytes_def upt_rec)
  from get_object_inside [OF _ _ this] show ?thesis by simp
qed

section \<open>Reader and writer\<close>

text \<open>C38. The header that \<open>ASN1_put_object\<close> writes for a length of at most half of \<open>INT_MAX\<close> takes, with the content, as many bytes as
  \<open>ASN1_object_size\<close> announces, and \<open>ASN1_get_object\<close> with this limit reads the length, the tag, the class and the
  constructed bit back and stops at the content.\<close>

theorem put_get_object:
  assumes "0 \<le> len" "len \<le> 0x3FFFFFFF" "0 \<le> tag" "tag \<le> 2147483647" "xclass AND 0xC0 = 0 \<longrightarrow> tag \<le> 0xFF" "c \<noteq> 2"
    "ASN1_put_object c len tag xclass (m, hdr_pos out) = (m', q)"
  shows "ASN1_object_size c len tag = uint (q - hdr_pos out) + len \<and>
    ASN1_get_object m' (ASN1_object_size c len tag) out =
      Ok (if c \<noteq> 0 then 0x20 else 0) (out\<lparr>hdr_pos := q, hdr_length := len, hdr_tag := tag, hdr_class := xclass AND 0xC0\<rparr>)"
proof -
  obtain l t where n: "len = int l" "tag = int t" using assms(1,3) zero_le_imp_eq_int by metis
  let ?h = "object_header c l t xclass"
  have h: "length ?h \<le> 11" using length_header(3) assms(2,4) n by simp
  have w: "m' = mem_write m (hdr_pos out) ?h" "q = hdr_pos out + of_nat (length ?h)"
    using put_object_writes [of l t c xclass m "hdr_pos out"] assms(2,4,7) n by simp_all
  have size: "ASN1_object_size c len tag = int (length ?h) + len"
    using object_size [of l t c xclass] h assms(2,4,6) n by (simp add: Let_def)
  moreover have "uint (q - hdr_pos out) = int (length ?h)"
    using h by (simp add: w unsigned_of_nat take_bit_nat_eq_self)
  moreover have "mem_bytes m' (hdr_pos out) (length ?h) = ?h" unfolding w using h by (intro mem_bytes_write) simp
  ultimately show ?thesis
    using get_object_reads [of m' out c l t xclass "ASN1_object_size c len tag"] assms(2,4,5,6) n w(2) by simp
qed

theorem put_get_object_witness:
  "\<exists>m' q. ASN1_put_object 1 300 1000 0x80 ((\<lambda>_. 0), hdr_pos header_in) = (m', q) \<and>
    ASN1_get_object m' (ASN1_object_size 1 300 1000) header_in =
      Ok 0x20 (header_in\<lparr>hdr_pos := q, hdr_length := 300, hdr_tag := 1000, hdr_class := 0x80\<rparr>)"
proof -
  obtain m' q where r: "ASN1_put_object 1 300 1000 0x80 ((\<lambda>_. 0), hdr_pos header_in) = (m', q)" by (metis surj_pair)
  from put_get_object [OF _ _ _ _ _ _ r] r show ?thesis by fastforce
qed

lemma constructed_bit: "(b :: byte) AND 0x20 = (if b AND 0x20 = 0 then 0 else 0x20)"
proof -
  have "b AND 0x20 = (if bit b 5 then 0x20 else 0)"
  proof (rule bit_word_eqI)
    fix n assume "n < LENGTH(8)"
    then have "n = 0 \<or> n = 1 \<or> n = 2 \<or> n = 3 \<or> n = 4 \<or> n = 5 \<or> n = 6 \<or> n = 7" by simp arith
    then show "bit (b AND 0x20) n = bit (if bit b 5 then 0x20 else 0 :: byte) n" by (elim disjE) (simp_all add: bit_simps)
  qed
  then show ?thesis by auto
qed

lemma class_halves: "(b AND 0x20) OR (b AND 0xC0) = b AND (0xE0 :: byte)"
  by (simp add: bit.conj_disj_distrib [symmetric])

text \<open>C40. Wherever \<open>CBS_get_any_asn1\<close> reads an element, \<open>ASN1_get_object\<close> with the rest of the cursor as its limit reads the
  same one: tag number, class, constructed bit, length and start of the content; only universal tags above 255
  and lengths above half of \<open>INT_MAX\<close> are excluded.\<close>

theorem get_object_agrees_cbs:
  assumes "CBS_get_any_asn1 m c = Ok (content, t) c'" "hdr_pos out = cbs_data c"
    "tag_class t AND 0xC0 = 0 \<longrightarrow> unat (tag_number t) \<le> 0xFF" "unat (cbs_len content) \<le> 0x3FFFFFFF"
  shows "ASN1_get_object m (uint (cbs_len c)) out = Ok (tag_class t AND 0x20)
    (out\<lparr>hdr_pos := cbs_data content, hdr_length := uint (cbs_len content), hdr_tag := uint (tag_number t),
      hdr_class := tag_class t AND 0xC0\<rparr>)"
proof -
  let ?L = "unat (cbs_len content)" and ?n = "unat (tag_number t)"
  have there: "takes m c (der t (cbs_bytes m content)) c'" "cbs_data content = cbs_data c + of_nat (length (der_header t ?L))"
    using assms(1) unfolding get_any_asn1_Ok der_at_def by blast+
  define k :: int where "k = (if tag_class t AND 0x20 = 0 then 0 else 1)"
  have constructed: "tag_class t AND 0x20 = (if k \<noteq> 0 then 0x20 else 0)"
    using constructed_bit [of "tag_class t"] by (auto simp: k_def)
  have "tag_class t = (tag_class t AND 0x20) OR (tag_class t AND 0xC0)"
    unfolding class_halves by (simp add: tag_class_def and.assoc)
  then have h: "der_header t ?L = object_header k ?L ?n (tag_class t)"
    unfolding constructed by (simp add: k_def der_header_def object_header_def der_tag_def id_octets_def Let_def of_nat_unat)
  have "?n < 2 ^ 29" using take_bit_nat_less_exp [of 29 "unat t"] by (simp add: tag_number_def unsigned_take_bit_eq)
  then have "?n \<le> 2147483647" by simp
  moreover have there': "mem_bytes m (hdr_pos out) (length (der_header t ?L)) = der_header t ?L"
    "length (der_header t ?L) + ?L \<le> unat (cbs_len c)"
    using there(1) by (simp_all add: takes_iff der_def assms(2) mem_bytes_add)
  moreover have "int (length (der_header t ?L) + ?L) \<le> uint (cbs_len c)" using there'(2) unfolding uint_nat by linarith
  moreover have "k \<noteq> 2" by (simp add: k_def)
  ultimately have "ASN1_get_object m (uint (cbs_len c)) out = Ok (if k \<noteq> 0 then 0x20 else 0)
      (out\<lparr>hdr_pos := hdr_pos out + of_nat (length (der_header t ?L)), hdr_length := int ?L, hdr_tag := int ?n, hdr_class := tag_class t AND 0xC0\<rparr>)"
    using assms(3,4) unfolding h by (intro get_object_reads)
  then show ?thesis unfolding constructed there(2) assms(2) uint_nat .
qed

theorem get_object_agrees_cbs_witness:
  "\<exists>content c'. CBS_get_any_asn1 der_sample (CBS_init 0x1000 6) = Ok (content, CBS_ASN1_OCTETSTRING) c' \<and>
    ASN1_get_object der_sample 6 header_in = Ok 0 (header_in\<lparr>hdr_pos := cbs_data content, hdr_length := 3, hdr_tag := 4, hdr_class := 0\<rparr>)"
proof -
  obtain content c' where r: "CBS_get_any_asn1 der_sample (CBS_init 0x1000 6) = Ok (content, CBS_ASN1_OCTETSTRING) c'"
    "cbs_bytes der_sample content = [0x61, 0x62, 0x63]"
    using der_read_back [OF der_sample_bytes] by auto
  have len: "unat (cbs_len content) = 3" using arg_cong [OF r(2), of length] by simp
  then have "uint (cbs_len content) = 3" by (simp add: uint_nat del: int_nat_eq unat_eq_nat_uint)
  moreover have "tag_class CBS_ASN1_OCTETSTRING = 0" "tag_number CBS_ASN1_OCTETSTRING = 4"
    by (simp_all add: tag_class_def tag_number_def CBS_ASN1_OCTETSTRING_def)
  ultimately show ?thesis
    using get_object_agrees_cbs [OF r(1), of header_in] r(1) len by (auto simp: header_in_def CBS_init_def)
qed

end
