(* ===== verification/Spec2Isabelle.thy ===== *)
theory Spec2Isabelle
  imports Sample PB_Roundtrip Base64_Spec CBS_Spec CBB_Spec SET_OF Unicode BER_Spec String_Table ASN1_Header
begin

text \<open>
  A verification development for the C code that the \<open>yield-me\<close> application is linked with: the
  protocol-buffer codec of Firestore (\<open>src/YieldMe/Pods/nanopb\<close>) and the byte-level codecs of
  BoringSSL (\<open>src/YieldMe/Pods/BoringSSL-GRPC/src/crypto\<close>: base64, the readers and builders of byte
  strings with DER, object identifiers, Unicode and BER), with its hash tables and, on top of all of these,
  the strings and the element headers of ASN.1. The application itself is Swift and is not C; what it sends and receives passes
  through these parts.

  \<^bold>\<open>Shared.\<close> \<open>Prelude\<close> holds the machine types of the target (64 bit, little endian; nanopb is
  built with \<open>PB_FIELD_32BIT\<close>, \<open>PB_NO_PACKED_STRUCTS\<close> and \<open>PB_ENABLE_MALLOC\<close>), the outcome monad
  (\<open>Ok\<close>: the C function returns true; \<open>Fail\<close>: it returns false; \<open>Undef\<close>: it calls through a null or
  out-of-range pointer; \<open>Fuel\<close>: the recursion budget of the model ran out), and byte-addressed memory
  with little-endian loads and stores.

  \<^bold>\<open>nanopb.\<close> \<open>PB_Field\<close>: descriptors (\<open>pb_field_s\<close>), the macros of \<open>pb.h\<close> and the iterator of
  \<open>pb_common.c\<close>. \<open>PB_Ostream\<close> and \<open>PB_Encode\<close>: \<open>pb_encode.c\<close>, the stream with its sink (a buffer,
  a user callback, or none where only the size is wanted) and every encoder up to \<open>pb_encode\<close>.
  \<open>PB_Wire\<close>: the wire format as a function from the message in memory to its bytes, and the proof that
  every encoder writes these bytes or fails where there are none: an action \<open>denotes\<close> an output.
  \<open>PB_Istream\<close>, \<open>PB_Parse\<close> and \<open>PB_Decode\<close>: \<open>pb_decode.c\<close>, the stream with its source, the
  primitive readers and what they read, and the message decoder with defaults, unions, arrays,
  callbacks, extensions and release. \<open>PB_Bounds\<close>, \<open>PB_Static\<close> and \<open>PB_Ends\<close> say what the decoder
  keeps: the frame of the input, the destination struct of static messages that are laid out inside of it, and,
  for static messages of any layout, that it ends without a call through a bad pointer. \<open>Sample\<close> is the message type, the memory and the input of the witnesses.
  \<open>PB_Roundtrip\<close>: what the primitive encoders write is read back, and an overlong varint that the
  decoder accepts. User callbacks, extension types and the allocator are parameters (\<open>enc_env\<close>,
  \<open>dec_env\<close>).

  \<^bold>\<open>Fuel.\<close> The message encoder and decoder recurse through function tables and, for submessages,
  into other message types, so they take the nesting depth that is left. The theorems on \<open>pb_encode\<close>
  are about the depth at which the wire function has a value; the theorem \<open>pb_decode_returns\<close> gives a
  depth that is enough for every input, as a submessage only descends along the table of types.
  The loops over a stream are total: each round reads a byte.

  \<^bold>\<open>BoringSSL base64.\<close> \<open>Constant_Time\<close>: the branch-free comparisons of \<open>crypto/internal.h\<close>.
  \<open>Base64\<close> and \<open>Base64_Stream\<close>: \<open>base64/base64.c\<close>, blocks and streams. \<open>Base64_Spec\<close>: the
  alphabet is the table, the decoder accepts exactly the well-formed texts and stays in its buffer, the
  streaming encoder implements the list of its pending bytes, so that the pieces of the input do not
  matter, and decoding gives the message back.

  \<^bold>\<open>BoringSSL byte strings.\<close> \<open>CBS\<close>: \<open>bytestring/cbs.c\<close>, a cursor over bytes, and its
  readers. \<open>CBS_Read\<close>: the interface \<open>value_reader\<close> (it succeeds exactly where an
  encoding stands at the front), with an instance for every width and byte order. \<open>DER\<close> and
  \<open>DER_Values\<close>: base-128 numbers, tags, lengths, elements, integers, booleans and optional elements
  as functions from values to bytes, and the readers against them. \<open>CBS_Spec\<close>: the properties.

  \<^bold>\<open>BoringSSL builders.\<close> \<open>CBB\<close>: \<open>bytestring/cbb.c\<close>. A builder is a cell of a store (\<open>cbb_store\<close>: the
  \<open>cbb_st\<close> by number, the \<open>cbb_buffer_st\<close> by number, and the allocator as a parameter that says
  which requests are served), so that a child and its parent share their buffer as they do in C; the
  addresses of local builders are arguments. \<open>CBB_Write\<close>: the predicate \<open>builds\<close> (a builder, what it
  has written and the chain of its open children, \<open>closed\<close> with their length prefixes) and the flush
  against it. \<open>CBB_Writer\<close>: operations that append bytes (\<open>writes\<close>, \<open>appends\<close>) and their composition,
  the interface \<open>value_writer\<close> with an instance for every adder, children as writers. \<open>CBB_DER\<close>: the DER
  values. \<open>CBB_Run\<close>: from \<open>CBB_init\<close> to \<open>CBB_finish\<close>, and the interface \<open>codec\<close>, a \<open>value_writer\<close> and a
  \<open>value_reader\<close> of one encoding, which gives the round trips. \<open>CBB_Spec\<close>: the properties. \<open>OID\<close>:
  object identifiers from and to dotted decimal text. \<open>SET_OF\<close>: \<open>CBB_flush_asn1_set_of\<close> against the
  order of \<open>List_Lexorder\<close>. \<open>Unicode\<close>: \<open>bytestring/unicode.c\<close>, four encodings of a code point as
  instances of \<open>codec\<close>.

  A flush goes down the chain of children and takes the field \<open>flush_depth\<close> of the store as its fuel;
  \<open>builds\<close> asks for a chain that is shorter, and \<open>CBB_flush_refines\<close> shows that the fuel then never runs
  out. The rounds over a cursor are bounded by its length, as each takes a byte. \<open>qsort\<close> of the C
  library is an insertion sort with the comparison of the code.

  \<^bold>\<open>BoringSSL BER.\<close> \<open>BER\<close>: \<open>bytestring/ber.c\<close>; the search is a total function (each round and each
  recursion is on fewer bytes), the conversion recurses on the bytes of the input plus one. \<open>BER_Convert\<close>:
  the code appends what a pure function of the cursor gives. \<open>BER_Tree\<close>: BER elements as trees, their
  bytes and their DER, and that the pure function reads exactly the bytes of trees. \<open>BER_Spec\<close>: the
  properties, among them what the search finds: BER inside of an element that is not the last one is overlooked.

  \<^bold>\<open>BoringSSL hash tables.\<close> \<open>LHash\<close>: \<open>lhash/lhash.c\<close>, an array of chains of items with cached hash
  values; a pointer to a link is a bucket and a position in its chain. The interface \<open>lh_functions\<close> asks
  for an equality and a hash function that agrees with it; inside, every operation refines the one on
  a list of different values. \<open>LHash_Spec\<close>: the calls of a client as a datatype, so that the refinement is
  one of whole sequences of calls, and the load of the table. The allocator is the parameter \<open>serves\<close>.

  \<^bold>\<open>BoringSSL ASN.1 strings.\<close> \<open>ASN1_String\<close>: \<open>asn1/a_mbstr.c\<close> and the operations on strings of
  \<open>asn1/asn1_lib.c\<close>, \<open>a_print.c\<close> and \<open>a_strex.c\<close>. The strings are cells of a state that holds a \<open>cbb_store\<close>, \<open>*out\<close> and
  the error queue. \<open>ASN1_Text\<close>: texts as lists of code points; the interface \<open>text_form\<close> (a \<open>codec\<close> with
  nonempty codes) with the four encodings of \<open>Unicode\<close> as instances, and both passes of the conversion
  against it. Each pass recurses on the number of bytes, as a round takes a byte. \<open>ASN1_Spec\<close>: the type that is picked,
  the content, delivery, the way back to UTF-8, and what a failure leaves in \<open>*out\<close>. \<open>String_Table\<close>:
  \<open>asn1/a_strnid.c\<close>, the limits of attributes, which interprets \<open>lh_functions\<close> on its own hash and
  comparison; \<open>tables_hold\<close> is its invariant.

  \<^bold>\<open>BoringSSL ASN.1 headers.\<close> \<open>ASN1_Header\<close>: the reader and writer of element headers in \<open>asn1/asn1_lib.c\<close>, on
  addresses. The loop over the digits of a high tag number takes the limit as its fuel, which is enough for a limit that
  is not negative. What is written is read back, the reader stays inside of its limit, and it agrees
  with the readers of \<open>cbs.c\<close> on DER.

  \<^bold>\<open>This theory\<close> holds the properties of whole messages: what \<open>pb_encode\<close> writes, when it refuses, how
  much it needs, and where \<open>pb_decode\<close> reads and writes.

  \<^bold>\<open>Not modelled.\<close> The rest of the ASN.1 of BoringSSL (the templates, which are driven by tables of C struct
  layouts; bit strings, integers and times; comparison, printing and escaping of strings), X.509 and PEM (above
  cryptography), the ciphers, curves and hashes of BoringSSL and its TLS
  (arithmetic and a state machine with theories of their own, the latter in C++), gRPC with its generated
  message accessors, Firestore, abseil and leveldb (C++), and the Swift and Rust code of the
  application (user interface and network calls). What a failing \<open>CBS\<close> reader leaves in its
  out-parameters is not modelled, nor what a failing builder leaves in a cursor, nor is the content of freed memory.
  Of the hash table, \<open>OPENSSL_lh_free\<close> only releases memory, and callbacks of an iteration do not change the table;
  the lock around the string table is not modelled, and the input of a string conversion does not overlap \<open>*out\<close>.
  Memory is total in the model: a load or a store at a wrong address is defined, and the theorems on frames say where
  the stores are; \<open>Undef\<close> is only a call through a null or out-of-range pointer. The allocators answer by the size
  of the request (\<open>allocates\<close>, \<open>serves\<close>), so that one that serves a size and refuses it later is not covered.
\<close>

unbundle bit_operations_syntax

section \<open>Encoding a message\<close>

text \<open>C1. With enough room \<open>pb_encode\<close> on a memory buffer returns true, and then the buffer holds
  exactly the wire bytes of the message, every other byte of memory is as before, the stream
  has advanced by their number and no error is recorded.\<close>

theorem pb_encode_writes_message:
  assumes env: "env_refines BufSink obuf_app env wenv"
    and msg: "wire_message wenv n mid src = Ok bs ()" and room: "length bs \<le> unat bufsize"
  shows "pb_encode env n mid src (pb_ostream_from_buffer m buf bufsize)
     = Ok () \<lparr>os_sink = BufSink \<lparr>ob_mem = mem_write m buf bs, ob_ptr = buf + of_nat (length bs)\<rparr>,
              max_size = bufsize, bytes_written = of_nat (length bs), os_errmsg = None\<rparr>"
proof -
  have "emits BufSink obuf_app (pb_encode env n mid src) bs"
    using buffer.denotes_message [OF env, of n mid src] msg by (simp add: denotes_def)
  from buffer.emitsD_room [OF this, where st = "\<lparr>ob_mem = m, ob_ptr = buf\<rparr>"
      and s = "pb_ostream_from_buffer m buf bufsize"] room
  show ?thesis
    by (simp add: pb_ostream_from_buffer_def stream_ready_def room_def counted_def obuf_app_def)
qed

theorem pb_encode_writes_message_witness:
  "pb_encode (sample_env sample_mem) 1 0 0x1000 (pb_ostream_from_buffer (\<lambda>_. 0) 0x2000 16)
     = Ok () \<lparr>os_sink = BufSink \<lparr>ob_mem = mem_write (\<lambda>_. 0) 0x2000 sample_bytes, ob_ptr = 0x2008\<rparr>,
              max_size = 16, bytes_written = 8, os_errmsg = None\<rparr>"
  using pb_encode_writes_message [OF sample_refines sample_wire, where bufsize = 16 and m = "\<lambda>_. 0" and buf = "0x2000"]
  by (simp add: sample_bytes_def)

text \<open>C2. If the message does not fit, \<open>pb_encode\<close> returns false and has written a prefix of its
  bytes that fits: nothing beyond \<open>bufsize\<close> bytes is ever touched.\<close>

theorem pb_encode_never_overruns:
  assumes env: "env_refines BufSink obuf_app env wenv"
    and msg: "wire_message wenv n mid src = Ok bs ()" and full: "unat bufsize < length bs"
    and limit: "unat bufsize < 2 ^ 63"
  shows "\<exists>s k. pb_encode env n mid src (pb_ostream_from_buffer m buf bufsize) = Fail s \<and>
     k \<le> unat bufsize \<and>
     os_sink s = BufSink \<lparr>ob_mem = mem_write m buf (take k bs), ob_ptr = buf + of_nat k\<rparr>"
proof -
  have "emits BufSink obuf_app (pb_encode env n mid src) bs"
    using buffer.denotes_message [OF env, of n mid src] msg by (simp add: denotes_def)
  from buffer.emitsD_full [OF this, where st = "\<lparr>ob_mem = m, ob_ptr = buf\<rparr>"
      and s = "pb_ostream_from_buffer m buf bufsize"] full limit
  obtain s k where "pb_encode env n mid src (pb_ostream_from_buffer m buf bufsize) = Fail s"
    "k \<le> unat bufsize" "os_sink s = BufSink (obuf_app \<lparr>ob_mem = m, ob_ptr = buf\<rparr> (take k bs))"
    by (auto simp: pb_ostream_from_buffer_def stream_ready_def limited_def room_def)
  then show ?thesis
    using full by (intro exI [of _ s] exI [of _ k]) (simp add: obuf_app_def)
qed

theorem pb_encode_never_overruns_witness:
  "\<exists>s k. pb_encode (sample_env sample_mem) 1 0 0x1000 (pb_ostream_from_buffer (\<lambda>_. 0) 0x2000 5) = Fail s \<and>
     k \<le> 5 \<and>
     os_sink s = BufSink \<lparr>ob_mem = mem_write (\<lambda>_. 0) 0x2000 (take k sample_bytes), ob_ptr = 0x2000 + of_nat k\<rparr>"
  using pb_encode_never_overruns [OF sample_refines sample_wire, where bufsize = 5 and m = "\<lambda>_. 0" and buf = "0x2000"]
  by (simp add: sample_bytes_def)

text \<open>C6. \<open>pb_get_encoded_size\<close> returns the number of bytes that \<open>pb_encode\<close> writes.\<close>

theorem pb_get_encoded_size_exact:
  assumes env: "env_refines BufSink obuf_app env wenv"
    and msg: "wire_message wenv n mid src = Ok bs ()"
  shows "pb_get_encoded_size env n mid src = Ok (of_nat (length bs)) ()"
proof -
  have "emits BufSink obuf_app (pb_encode env n mid src) bs"
    using buffer.denotes_message [OF env, of n mid src] msg by (simp add: denotes_def)
  from buffer.emitsD_null [OF this, of PB_OSTREAM_SIZING] show ?thesis
    by (simp add: pb_get_encoded_size_def)
qed

theorem pb_get_encoded_size_exact_witness: "pb_get_encoded_size (sample_env sample_mem) 1 0 0x1000 = Ok 8 ()"
  using pb_get_encoded_size_exact [OF sample_refines sample_wire] by (simp add: sample_bytes_def)

text \<open>C7. A message that has no wire form (a count above its array, a missing required field, a
  callback that fails) is refused: \<open>pb_encode\<close> returns false, having written no more than the
  buffer holds.\<close>

theorem pb_encode_rejects_message:
  assumes env: "env_refines BufSink obuf_app env wenv"
    and msg: "wire_message wenv n mid src = Fail ()" and limit: "unat bufsize < 2 ^ 63"
  shows "\<exists>s bs. pb_encode env n mid src (pb_ostream_from_buffer m buf bufsize) = Fail s \<and>
     length bs \<le> unat bufsize \<and>
     os_sink s = BufSink \<lparr>ob_mem = mem_write m buf bs, ob_ptr = buf + of_nat (length bs)\<rparr>"
proof -
  have "rejects BufSink obuf_app (pb_encode env n mid src)"
    using buffer.denotes_message [OF env, of n mid src] msg by (simp add: denotes_def)
  moreover have "limited (pb_ostream_from_buffer m buf bufsize)"
    using limit by (simp add: pb_ostream_from_buffer_def stream_ready_def limited_def)
  moreover have "os_sink (pb_ostream_from_buffer m buf bufsize) = BufSink \<lparr>ob_mem = m, ob_ptr = buf\<rparr>"
    "room (pb_ostream_from_buffer m buf bufsize) = unat bufsize"
    by (simp_all add: pb_ostream_from_buffer_def room_def)
  ultimately obtain s bs where "pb_encode env n mid src (pb_ostream_from_buffer m buf bufsize) = Fail s"
    "length bs \<le> unat bufsize" "os_sink s = BufSink (obuf_app \<lparr>ob_mem = m, ob_ptr = buf\<rparr> bs)"
    unfolding rejects_def by metis
  then show ?thesis
    by (intro exI [of _ s] exI [of _ bs]) (simp add: obuf_app_def)
qed

theorem pb_encode_rejects_message_witness:
  "\<exists>s bs. pb_encode (sample_env sample_bad_mem) 1 0 0x1000 (pb_ostream_from_buffer (\<lambda>_. 0) 0x2000 16) = Fail s \<and>
     length bs \<le> 16 \<and>
     os_sink s = BufSink \<lparr>ob_mem = mem_write (\<lambda>_. 0) 0x2000 bs, ob_ptr = 0x2000 + of_nat (length bs)\<rparr>"
  using pb_encode_rejects_message [OF sample_refines sample_bad_wire, where bufsize = 16 and m = "\<lambda>_. 0" and buf = "0x2000"]
  by simp

text \<open>\<open>pb_encode_delimited\<close> writes the length of the message as a varint, then its bytes.\<close>

theorem pb_encode_delimited_writes:
  assumes env: "env_refines BufSink obuf_app env wenv"
    and msg: "wire_message wenv n mid src = Ok bs ()"
    and room: "length (wire_string bs) \<le> unat bufsize"
  shows "pb_encode_delimited env n mid src (pb_ostream_from_buffer m buf bufsize)
     = Ok () (written (mem_write m buf (wire_string bs)) buf bufsize (of_nat (length (wire_string bs))))"
proof -
  have "emits BufSink obuf_app (pb_encode env n mid src) bs" "length bs < 2 ^ 63"
    using buffer.denotes_message [OF env, of n mid src] msg by (simp_all add: denotes_def)
  then have "emits BufSink obuf_app (pb_encode_delimited env n mid src) (wire_string bs)"
    unfolding pb_encode_delimited_def by (rule buffer.emits_submessage)
  from buffer.emitsD_room [OF this, where st = "\<lparr>ob_mem = m, ob_ptr = buf\<rparr>"
      and s = "pb_ostream_from_buffer m buf bufsize"] room
  show ?thesis
    by (simp add: pb_ostream_from_buffer_def stream_ready_def room_def counted_def obuf_app_def written_def)
qed

theorem pb_encode_delimited_writes_witness:
  "pb_encode_delimited (sample_env sample_mem) 1 0 0x1000 (pb_ostream_from_buffer (\<lambda>_. 0) 0x2000 16)
     = Ok () (written (mem_write (\<lambda>_. 0) 0x2000 (8 # sample_bytes)) 0x2000 16 9)"
  using pb_encode_delimited_writes [OF sample_refines sample_wire, where bufsize = 16 and m = "\<lambda>_. 0" and buf = "0x2000"]
  by (simp add: sample_bytes_def wire_string_def varint_digits)

section \<open>Decoding a message\<close>

text \<open>C3. Whatever the input, \<open>pb_decode\<close> on a statically allocated message type writes only inside
  of the destination struct. The contract \<open>static_types\<close> asks that the members lie inside of the struct, and the
  four bytes at \<open>pSize\<close> too, which are cleared for every array: where an array has no count member they are its own
  first ones, so that an array of fixed count shorter than that must not be at the end of the struct. What the
  members of one struct do to each other is not stated.\<close>

theorem pb_decode_stays_in_struct:
  assumes types: "static_types M msz (de_descs env) offs" and mid: "mid \<in> M" and d: "placed d (msz mid)"
  shows "case pb_decode env n mid d s of
      Ok _ t \<Rightarrow> \<forall>a. a \<notin> region d (msz mid) \<longrightarrow> d_mem t a = d_mem s a
    | Fail t \<Rightarrow> \<forall>a. a \<notin> region d (msz mid) \<longrightarrow> d_mem t a = d_mem s a
    | _ \<Rightarrow> True"
proof -
  have "static_decoder env M msz offs" by (rule static_decoder.intro [OF types])
  from static_decoder.pb_decode_inside [OF this mid d, of s n] show ?thesis
    by (auto simp: unchanged_def split: outcome.splits)
qed

theorem pb_decode_stays_in_struct_witness:
  "case pb_decode (plain_env (\<lambda>_. sample_fields) 9 :: (unit, unit) dec_env) 1 0 0x3000 (sample_input sample_bytes) of
      Ok _ t \<Rightarrow> \<forall>a. a \<notin> region 0x3000 16 \<longrightarrow> d_mem t a = 0
    | Fail t \<Rightarrow> \<forall>a. a \<notin> region 0x3000 16 \<longrightarrow> d_mem t a = 0
    | _ \<Rightarrow> True"
  using pb_decode_stays_in_struct [where env = "plain_env (\<lambda>_. sample_fields) 9 :: (unit, unit) dec_env"
      and M = "{0}" and msz = "\<lambda>_. 16" and offs = "\<lambda>_. [0, 8]" and d = "0x3000" and mid = 0 and n = 1
      and s = "sample_input sample_bytes"] sample_types
  by (simp add: sample_plain placed_def sample_input_sel cong: outcome.case_cong)

text \<open>C4. \<open>pb_decode\<close> returns: on every input it ends, with true or with false, and has not moved backwards in
  the stream. This is about statically allocated message types that do not contain themselves, of any layout; the
  budgets that make it end are the nesting depth of the type, and a step more than the input has bytes. It says that
  no loop runs for ever and that no call goes through a null or out-of-range pointer, on which the model is
  undefined. It does not say where memory is written: that is \<open>pb_decode_stays_in_struct\<close>, under its layout
  contract.\<close>

theorem pb_decode_returns:
  assumes kinds: "static_kinds M (de_descs env)"
    and nested: "well_nested M (de_descs env) rank"
    and steps: "\<forall>k \<in> M. rank k < de_steps env" "unat (bytes_left (d_in s)) < de_steps env"
    and mid: "mid \<in> M" and n: "rank mid < n"
  shows "\<exists>t. (pb_decode env n mid d s = Ok () t \<or> pb_decode env n mid d s = Fail t) \<and>
    bytes_left (d_in t) \<le> bytes_left (d_in s)"
proof -
  have "ending_decoder env M rank"
    using kinds nested steps(1) by unfold_locales (auto simp: well_nested_def)
  from ending_decoder.pb_decode_halts [OF this mid n, of s d] steps(2)
  have "halts s (pb_decode env n mid d s)" by (simp add: short_def)
  then show ?thesis
    by (cases "pb_decode env n mid d s") (auto simp: halts_def on_in_def left_le_def)
qed

theorem pb_decode_returns_witness:
  "\<exists>t. (pb_decode (plain_env (\<lambda>_. sample_fields) 9 :: (unit, unit) dec_env) 1 0 0x3000 (sample_input sample_bytes) = Ok () t \<or>
     pb_decode (plain_env (\<lambda>_. sample_fields) 9 :: (unit, unit) dec_env) 1 0 0x3000 (sample_input sample_bytes) = Fail t) \<and>
     bytes_left (d_in t) \<le> 8"
  using pb_decode_returns [where env = "plain_env (\<lambda>_. sample_fields) 9 :: (unit, unit) dec_env"
      and M = "{0}" and rank = "\<lambda>_. 0" and mid = 0 and n = 1
      and d = "0x3000" and s = "sample_input sample_bytes"] sample_kinds sample_no_submessage
  by (simp add: sample_plain well_nested_def sample_input_sel length_sample_bytes)

text \<open>C5. \<open>pb_decode\<close> never reads past the end of its input: the read position moves forward by
  some number of bytes, and these and the bytes still left are at most the bytes given. User
  callbacks must keep to that themselves.\<close>

theorem pb_decode_stays_in_input:
  assumes env: "guarded_decoder in_buffer env" and st: "is_source (d_in s) = BufSource st"
  shows "case pb_decode env n mid d s of
      Ok _ t \<Rightarrow> \<exists>k. is_source (d_in t) = BufSource (st\<lparr>ib_ptr := ib_ptr st + of_nat k\<rparr>) \<and>
        k + unat (bytes_left (d_in t)) \<le> unat (bytes_left (d_in s))
    | Fail t \<Rightarrow> \<exists>k. is_source (d_in t) = BufSource (st\<lparr>ib_ptr := ib_ptr st + of_nat k\<rparr>) \<and>
        k + unat (bytes_left (d_in t)) \<le> unat (bytes_left (d_in s))
    | _ \<Rightarrow> True"
  using guarded_decoder.fok_pb_decode [OF env, of s n mid d] st
  by (auto simp: on_in_def in_buffer_def split: outcome.splits)

theorem pb_decode_stays_in_input_witness:
  "case pb_decode (plain_env (\<lambda>_. sample_fields) 9 :: (unit, unit) dec_env) 1 0 0x3000 (sample_input sample_bytes) of
      Ok _ t \<Rightarrow> \<exists>k. is_source (d_in t) = BufSource \<lparr>ib_mem = mem_write (\<lambda>_. 0) 0x2000 sample_bytes, ib_ptr = 0x2000 + of_nat k\<rparr> \<and>
        k + unat (bytes_left (d_in t)) \<le> 8
    | Fail t \<Rightarrow> \<exists>k. is_source (d_in t) = BufSource \<lparr>ib_mem = mem_write (\<lambda>_. 0) 0x2000 sample_bytes, ib_ptr = 0x2000 + of_nat k\<rparr> \<and>
        k + unat (bytes_left (d_in t)) \<le> 8
    | _ \<Rightarrow> True"
  using pb_decode_stays_in_input [OF plain_buf.guarded_decoder_axioms, where s = "sample_input sample_bytes" and n = 1
      and mid = 0 and d = "0x3000" and descs1 = "\<lambda>_. sample_fields" and steps1 = 9 and st = "\<lparr>ib_mem = mem_write (\<lambda>_. 0) 0x2000 sample_bytes, ib_ptr = 0x2000\<rparr>"]
  by (simp add: sample_input_sel length_sample_bytes cong: outcome.case_cong)

end
